(* ===== verification/Rpc_Prelude.thy ===== *)
theory Rpc_Prelude
  imports Main "HOL-Library.Word"
begin

text \<open>
  Shared ground of the development: the machine types of the C++ sources, the ways in
  which the process can go wrong, the result type that carries them, the big-endian byte
  layout of integers, and the generic facts on lists and words that the component
  theories use.

  Machine types.  An \<open>unsigned int\<close> and an \<open>int\<close> are both a \<open>32 word\<close>; the order
  on words is the unsigned one, and \<open>sint\<close> reads a word as a signed value.  A
  \<open>char\<close> is an \<open>8 word\<close>.  Container sizes and indices are \<open>nat\<close>, with the
  overflow of the \<open>int\<close> that holds them written out where an operation multiplies or
  adds to it.

  Faults.  \<open>VERIFY(e)\<close> (\<^verbatim>\<open>lang/verify.h\<close>) aborts the process when \<open>e\<close> is false;
  the other faults are the undefined behaviours that a definition of this development can
  reach: a null dereference, an access outside an allocated block, a signed overflow, a
  use of freed memory and a second \<open>free\<close> of the same block; an exception that nothing catches; and a division by zero.
\<close>

unbundle bit_operations_syntax

type_synonym byte = "8 word"
type_synonym u16 = "16 word"
type_synonym u32 = "32 word"
type_synonym i32 = "32 word"
type_synonym u64 = "64 word"

datatype fault =
    Verify_Failed
  | Null_Deref
  | Out_Of_Bounds
  | Signed_Overflow
  | Use_After_Free
  | Double_Free
  | Uncaught_Exception
  | Division_By_Zero

type_synonym 'a result = "fault + 'a"

text \<open>A piece of code that may end the process by \<open>exit(1)\<close>, or goes on with a value.\<close>

datatype 'a ended = Exits | Goes_On 'a

text \<open>
  \<open>writer_intros\<close>: which bytes an operator appends to a message or writes in place, composed by
  the structure of the operator.  \<open>keeps\<close>: which parts of the state of an endpoint an operation leaves alone.
\<close>

named_theorems writer_intros
named_theorems keeps

section \<open>Results\<close>

fun bind_r :: "'a result \<Rightarrow> ('a \<Rightarrow> 'b result) \<Rightarrow> 'b result" where
  "bind_r (Inl e) f = Inl e"
| "bind_r (Inr x) f = f x"

text \<open>\<open>VERIFY(c)\<close> from \<^verbatim>\<open>lang/verify.h\<close>: both of its expansions abort when \<open>c\<close> is false.\<close>

definition VERIFY :: "bool \<Rightarrow> unit result" where
  "VERIFY c = (if c then Inr () else Inl Verify_Failed)"

lemma VERIFY_simps [simp]: "VERIFY True = Inr ()" "VERIFY False = Inl Verify_Failed"
  by (simp_all add: VERIFY_def)

lemma VERIFY_eq_Inr [simp]: "VERIFY c = Inr u \<longleftrightarrow> c"
  by (simp add: VERIFY_def)

lemma bind_r_eq_Inr: "bind_r m f = Inr y \<longleftrightarrow> (\<exists>x. m = Inr x \<and> f x = Inr y)"
  by (cases m) auto

lemma bind_r_eq_Inl: "bind_r m f = Inl e \<longleftrightarrow> m = Inl e \<or> (\<exists>x. m = Inr x \<and> f x = Inl e)"
  by (cases m) auto

lemma bind_r_assoc: "bind_r (bind_r m f) g = bind_r m (\<lambda>x. bind_r (f x) g)"
  by (cases m) auto

lemma bind_r_cong [fundef_cong]:
  "m = m' \<Longrightarrow> (\<And>x. m' = Inr x \<Longrightarrow> f x = f' x) \<Longrightarrow> bind_r m f = bind_r m' f'"
  by (cases m') auto

section \<open>Integers as big-endian bytes\<close>

text \<open>
  Every reader of the sources masks a byte with \<open>0xff\<close>: on words that is truncation to
  eight bits, which the bit lemmas of the library understand.
\<close>

lemma and_255_take_bit: "(x :: 'a::len word) AND 255 = take_bit 8 x"
  by (simp add: take_bit_eq_mask mask_eq_exp_minus_1)

text \<open>The byte at bit position \<open>k\<close>, and the four, two and eight bytes of an integer in network order.\<close>

definition byte_at :: "nat \<Rightarrow> 'a::len word \<Rightarrow> byte" where
  "byte_at k x = ucast (drop_bit k x AND 255)"

definition be16 :: "u16 \<Rightarrow> byte list" where
  "be16 x = [byte_at 8 x, byte_at 0 x]"

definition be32 :: "u32 \<Rightarrow> byte list" where
  "be32 x = [byte_at 24 x, byte_at 16 x, byte_at 8 x, byte_at 0 x]"

definition be64 :: "u64 \<Rightarrow> byte list" where
  "be64 x = be32 (ucast (drop_bit 32 x)) @ be32 (ucast x)"

lemma length_be [simp]: "length (be16 x) = 2" "length (be32 y) = 4" "length (be64 z) = 8"
  by (simp_all add: be16_def be32_def be64_def)

text \<open>
  A \<open>char\<close> is signed on the platform, so reading it as an \<open>unsigned int\<close> extends its
  sign; the mask that every reader applies removes the extension.
\<close>

lemma scast_byte_and_255: "(scast (b :: byte) :: 32 word) AND 255 = ucast b"
proof -
  have "bit (take_bit 8 (scast b :: 32 word)) n = bit (ucast b :: 32 word) n" if "n < 32" for n
  proof (cases "n < 8")
    case True
    then have "min 7 n = n" by simp
    with True that show ?thesis by (simp add: bit_simps)
  next
    case False
    then show ?thesis by (auto simp: bit_simps dest: bit_imp_le_length)
  qed
  then show ?thesis by (auto simp: and_255_take_bit intro: bit_word_eqI)
qed

lemma join_be32:
  fixes x :: u32
  shows "push_bit 24 (ucast (byte_at 24 x)) OR push_bit 16 (ucast (byte_at 16 x)) OR
         push_bit 8 (ucast (byte_at 8 x)) OR ucast (byte_at 0 x) = x" (is "?l = x")
proof (rule bit_word_eqI)
  fix n assume "n < LENGTH(32)"
  then consider "n < 8" | "8 \<le> n" "n < 16" | "16 \<le> n" "n < 24" | "24 \<le> n" "n < 32"
    by force
  then show "bit ?l n = bit x n"
    by cases (auto simp: byte_at_def and_255_take_bit bit_simps)
qed

lemma join_be16:
  fixes x :: u16
  shows "ucast (push_bit 8 (ucast (byte_at 8 x) :: 32 word)) OR
         ucast (ucast (byte_at 0 x) :: 32 word) = x" (is "?l = x")
proof (rule bit_word_eqI)
  fix n assume "n < LENGTH(16)"
  then consider "n < 8" | "8 \<le> n" "n < 16" by force
  then show "bit ?l n = bit x n"
    by cases (auto simp: byte_at_def and_255_take_bit bit_simps)
qed

lemma join_be64:
  fixes x :: u64
  shows "ucast (ucast x :: 32 word) OR push_bit 32 (ucast (ucast (drop_bit 32 x) :: 32 word)) = x"
    (is "?l = x")
proof (rule bit_word_eqI)
  fix n assume "n < LENGTH(64)"
  then consider "n < 32" | "32 \<le> n" "n < 64" by force
  then show "bit ?l n = bit x n"
    by cases (auto simp: bit_simps)
qed

text \<open>An arithmetic and a logical right shift have the same byte under the mask.\<close>

lemma signed_drop_bit_byte:
  "k \<le> 24 \<Longrightarrow> ucast (signed_drop_bit k (x :: 32 word) AND 255) = byte_at k x"
proof (rule bit_word_eqI)
  fix n assume k: "k \<le> 24" and "n < LENGTH(8)"
  then have n: "n < 8" by simp
  then have "\<not> 32 - k \<le> n" using k by simp
  then show "bit (ucast (signed_drop_bit k x AND 255) :: byte) n = bit (byte_at k x) n"
    using k n by (simp add: byte_at_def and_255_take_bit bit_simps)
qed

lemma ucast_scast_byte: "ucast (scast (x :: byte) :: u32) = x"
proof (rule bit_word_eqI)
  fix n assume "n < LENGTH(8)"
  then have "n < 8" "min 7 n = n" by simp_all
  then show "bit (ucast (scast x :: u32) :: byte) n = bit x n" by (simp add: bit_simps)
qed

lemma unat_of_nat_small: "n < 2 ^ 32 \<Longrightarrow> unat (of_nat n :: u32) = n"
  by (simp add: unat_of_nat take_bit_nat_eq_self)

lemma of_nat_le_small: "m \<le> n \<Longrightarrow> n < 2 ^ 32 \<Longrightarrow> (of_nat m :: u32) \<le> of_nat n"
  by (simp add: word_le_nat_alt unat_of_nat_small)

section \<open>Lists\<close>

lemma take_list_update_le: "n \<le> i \<Longrightarrow> take n (xs[i := x]) = take n xs"
  by (simp add: take_update_swap list_update_beyond)

lemma take_Suc_list_update: "i < length xs \<Longrightarrow> take (Suc i) (xs[i := x]) = take i xs @ [x]"
  by (simp add: take_Suc_conv_app_nth take_list_update_le)

lemma take_add_overwrite:
  "i + length p \<le> length b \<Longrightarrow>
   take (i + length p) (take i b @ p @ drop (i + length p) b) = take i b @ p"
  by simp

lemma nth_drop_take_Cons:
  "drop i (take n b) = x # xs \<Longrightarrow> i < n \<and> i < length b \<and> b ! i = x \<and> drop (Suc i) (take n b) = xs"
proof -
  assume d: "drop i (take n b) = x # xs"
  then have i: "i < length (take n b)"
    by (metis drop_all list.distinct(1) not_le)
  moreover have "drop i (take n b) = (take n b) ! i # drop (Suc i) (take n b)"
    using i by (rule Cons_nth_drop_Suc [symmetric])
  ultimately show ?thesis using d by auto
qed

end
