(* ===== verification/Marshal.thy ===== *)
theory Marshal
  imports Rpc_Prelude
begin

text \<open>
  The wire format: the classes \<open>marshall\<close> and \<open>unmarshall\<close> of \<^verbatim>\<open>rpc/marshall.h\<close>
  with the operators of \<^verbatim>\<open>rpc/rpc.cc\<close>.

  A writer owns a growable block of bytes; \<open>m_buf = None\<close> is the null pointer that
  \<open>take_buf\<close> leaves behind.  What a fresh block holds is not specified by the language:
  it is the parameter \<open>mem\<close> of every operation that may allocate.  A reader holds a
  block, the size it was told, a read position and the sticky \<open>ok\<close> flag.  An operator
  \<open>>>\<close> takes the old value of the variable it assigns, since two of them leave it in
  place (a string after a failed read) or extend it (a vector).

  Contents: the definitions in the order of the sources; the locale \<open>codec\<close>, the
  contract that a pair of operators \<open><<\<close> and \<open>>>\<close> has to meet, with what follows
  from it for a client; its interpretations on every pair of operators of the sources;
  the headers; safety of reads on short and malformed input.
\<close>

section \<open>The writer\<close>

type_synonym memory = "nat \<Rightarrow> byte"

record req_header =
  rq_xid :: i32
  rq_proc :: i32
  rq_clt_nonce :: u32
  rq_srv_nonce :: u32
  rq_xid_rep :: i32

record reply_header =
  rp_xid :: i32
  rp_ret :: i32

definition static_max :: "nat \<Rightarrow> nat \<Rightarrow> nat" where
  "static_max a b = (if a > b then a else b)"

text \<open>Sizes in bytes: five and two 4-byte fields, and the 4-byte \<open>rpc_sz_t\<close>.\<close>

definition sizeof_req_header :: nat where "sizeof_req_header = 20"

definition sizeof_reply_header :: nat where "sizeof_reply_header = 8"

definition sizeof_rpc_sz :: nat where "sizeof_rpc_sz = 4"

definition DEFAULT_RPC_SZ :: nat where "DEFAULT_RPC_SZ = 1024"

definition RPC_HEADER_SZ :: nat where
  "RPC_HEADER_SZ = static_max sizeof_req_header sizeof_reply_header + sizeof_rpc_sz"

lemma rpc_sizes [simp]:
  "DEFAULT_RPC_SZ = 1024" "RPC_HEADER_SZ = 24" "sizeof_rpc_sz = 4"
  by (simp_all add: DEFAULT_RPC_SZ_def RPC_HEADER_SZ_def static_max_def sizeof_req_header_def
      sizeof_reply_header_def sizeof_rpc_sz_def)

record marshall =
  m_buf :: "byte list option"
  m_capa :: nat
  m_ind :: nat

text \<open>The values an \<open>int\<close> that holds a size can take.\<close>

definition fits_int :: "nat \<Rightarrow> bool" where
  "fits_int n \<longleftrightarrow> n < 2 ^ 31"

definition marshall_new :: "memory \<Rightarrow> marshall" where
  "marshall_new mem =
     \<lparr>m_buf = Some (map mem [0..<DEFAULT_RPC_SZ]), m_capa = DEFAULT_RPC_SZ, m_ind = RPC_HEADER_SZ\<rparr>"

definition m_size :: "marshall \<Rightarrow> nat" where
  "m_size m = m_ind m"

text \<open>\<open>VERIFY (_buf != NULL); _buf = realloc(_buf, c)\<close>; an allocation succeeds.\<close>

definition m_realloc :: "memory \<Rightarrow> nat \<Rightarrow> marshall \<Rightarrow> marshall result" where
  "m_realloc mem c m =
     (if \<not> fits_int c then Inl Signed_Overflow
      else case m_buf m of
        None \<Rightarrow> Inl Verify_Failed
      | Some b \<Rightarrow> Inr (m\<lparr>m_capa := c, m_buf := Some (take c b @ map mem [length b..<c])\<rparr>))"

definition m_rawbyte :: "memory \<Rightarrow> marshall \<Rightarrow> byte \<Rightarrow> marshall result" where
  "m_rawbyte mem m x =
     bind_r (if m_ind m \<ge> m_capa m then m_realloc mem (m_capa m * 2) m else Inr m)
       (\<lambda>m. case m_buf m of
          None \<Rightarrow> Inl Null_Deref
        | Some b \<Rightarrow>
            if m_ind m < length b
            then Inr (m\<lparr>m_buf := Some (b[m_ind m := x]), m_ind := Suc (m_ind m)\<rparr>)
            else Inl Out_Of_Bounds)"

text \<open>
  The count of \<open>rawbytes\<close> is an \<open>int\<close>: a longer block arrives as a negative count and
  is copied past the end of the buffer.
\<close>

definition m_rawbytes :: "memory \<Rightarrow> marshall \<Rightarrow> byte list \<Rightarrow> marshall result" where
  "m_rawbytes mem m p =
     (let n = length p in
      if \<not> fits_int n then Inl Out_Of_Bounds
      else if \<not> fits_int (m_ind m + n) then Inl Signed_Overflow
      else bind_r (if m_ind m + n > m_capa m
                   then m_realloc mem (if m_capa m > n then 2 * m_capa m else m_capa m + n) m
                   else Inr m)
        (\<lambda>m. case m_buf m of
           None \<Rightarrow> Inl Null_Deref
         | Some b \<Rightarrow>
             if m_ind m + n \<le> length b
             then Inr (m\<lparr>m_buf := Some (take (m_ind m) b @ p @ drop (m_ind m + n) b),
                        m_ind := m_ind m + n\<rparr>)
             else Inl Out_Of_Bounds))"

definition put_bool :: "memory \<Rightarrow> marshall \<Rightarrow> bool \<Rightarrow> marshall result" where
  "put_bool mem m x = m_rawbyte mem m (if x then 1 else 0)"

definition put_uchar :: "memory \<Rightarrow> marshall \<Rightarrow> byte \<Rightarrow> marshall result" where
  "put_uchar mem m x = m_rawbyte mem m x"

definition put_char :: "memory \<Rightarrow> marshall \<Rightarrow> byte \<Rightarrow> marshall result" where
  "put_char mem m x = put_uchar mem m x"

definition put_ushort :: "memory \<Rightarrow> marshall \<Rightarrow> u16 \<Rightarrow> marshall result" where
  "put_ushort mem m x =
     bind_r (m_rawbyte mem m (ucast (drop_bit 8 x AND 255))) (\<lambda>m.
     m_rawbyte mem m (ucast (x AND 255)))"

definition put_short :: "memory \<Rightarrow> marshall \<Rightarrow> u16 \<Rightarrow> marshall result" where
  "put_short mem m x = put_ushort mem m x"

definition put_uint :: "memory \<Rightarrow> marshall \<Rightarrow> u32 \<Rightarrow> marshall result" where
  "put_uint mem m x =
     bind_r (m_rawbyte mem m (ucast (drop_bit 24 x AND 255))) (\<lambda>m.
     bind_r (m_rawbyte mem m (ucast (drop_bit 16 x AND 255))) (\<lambda>m.
     bind_r (m_rawbyte mem m (ucast (drop_bit 8 x AND 255))) (\<lambda>m.
     m_rawbyte mem m (ucast (x AND 255)))))"

definition put_int :: "memory \<Rightarrow> marshall \<Rightarrow> i32 \<Rightarrow> marshall result" where
  "put_int mem m x = put_uint mem m x"

definition put_string :: "memory \<Rightarrow> marshall \<Rightarrow> byte list \<Rightarrow> marshall result" where
  "put_string mem m s =
     bind_r (put_uint mem m (of_nat (length s))) (\<lambda>m. m_rawbytes mem m s)"

definition put_ullong :: "memory \<Rightarrow> marshall \<Rightarrow> u64 \<Rightarrow> marshall result" where
  "put_ullong mem m x =
     bind_r (put_uint mem m (ucast (drop_bit 32 x))) (\<lambda>m. put_uint mem m (ucast x))"

text \<open>\<open>marshall::pack\<close> shifts a signed \<open>int\<close>, so the shift is arithmetic.\<close>

definition pack :: "memory \<Rightarrow> marshall \<Rightarrow> i32 \<Rightarrow> marshall result" where
  "pack mem m x =
     bind_r (m_rawbyte mem m (ucast (signed_drop_bit 24 x AND 255))) (\<lambda>m.
     bind_r (m_rawbyte mem m (ucast (signed_drop_bit 16 x AND 255))) (\<lambda>m.
     bind_r (m_rawbyte mem m (ucast (signed_drop_bit 8 x AND 255))) (\<lambda>m.
     m_rawbyte mem m (ucast (x AND 255)))))"

definition pack_req_header :: "memory \<Rightarrow> marshall \<Rightarrow> req_header \<Rightarrow> marshall result" where
  "pack_req_header mem m h =
     (let saved_sz = m_ind m in
      bind_r (pack mem (m\<lparr>m_ind := sizeof_rpc_sz\<rparr>) (rq_xid h)) (\<lambda>m.
      bind_r (pack mem m (rq_proc h)) (\<lambda>m.
      bind_r (pack mem m (rq_clt_nonce h)) (\<lambda>m.
      bind_r (pack mem m (rq_srv_nonce h)) (\<lambda>m.
      bind_r (pack mem m (rq_xid_rep h)) (\<lambda>m.
      Inr (m\<lparr>m_ind := saved_sz\<rparr>)))))))"

definition pack_reply_header :: "memory \<Rightarrow> marshall \<Rightarrow> reply_header \<Rightarrow> marshall result" where
  "pack_reply_header mem m h =
     (let saved_sz = m_ind m in
      bind_r (pack mem (m\<lparr>m_ind := sizeof_rpc_sz\<rparr>) (rp_xid h)) (\<lambda>m.
      bind_r (pack mem m (rp_ret h)) (\<lambda>m.
      Inr (m\<lparr>m_ind := saved_sz\<rparr>))))"

text \<open>\<open>take_buf(&b, &sz)\<close>: the block and its size move to the caller.\<close>

definition m_take_buf :: "marshall \<Rightarrow> marshall \<times> byte list option \<times> nat" where
  "m_take_buf m = (m\<lparr>m_buf := None, m_ind := 0\<rparr>, m_buf m, m_ind m)"

text \<open>\<open>get_content()\<close>: the bytes after the header, as a string.\<close>

definition m_get_content :: "marshall \<Rightarrow> byte list result" where
  "m_get_content m =
     (case m_buf m of None \<Rightarrow> Inl Null_Deref
      | Some b \<Rightarrow> Inr (take (m_ind m - RPC_HEADER_SZ) (drop RPC_HEADER_SZ b)))"

text \<open>The container templates: the size, then every element; a map in the order of its keys.\<close>

primrec put_all :: "(memory \<Rightarrow> marshall \<Rightarrow> 'c \<Rightarrow> marshall result) \<Rightarrow>
    memory \<Rightarrow> marshall \<Rightarrow> 'c list \<Rightarrow> marshall result" where
  "put_all putc mem m [] = Inr m"
| "put_all putc mem m (x # xs) = bind_r (putc mem m x) (\<lambda>m. put_all putc mem m xs)"

definition put_vector :: "(memory \<Rightarrow> marshall \<Rightarrow> 'c \<Rightarrow> marshall result) \<Rightarrow>
    memory \<Rightarrow> marshall \<Rightarrow> 'c list \<Rightarrow> marshall result" where
  "put_vector putc mem m v =
     bind_r (put_uint mem m (of_nat (length v))) (\<lambda>m. put_all putc mem m v)"

definition put_map :: "(memory \<Rightarrow> marshall \<Rightarrow> 'k \<Rightarrow> marshall result) \<Rightarrow>
    (memory \<Rightarrow> marshall \<Rightarrow> 'v \<Rightarrow> marshall result) \<Rightarrow>
    memory \<Rightarrow> marshall \<Rightarrow> ('k \<times> 'v) list \<Rightarrow> marshall result" where
  "put_map puta putb mem m d =
     bind_r (put_uint mem m (of_nat (length d))) (\<lambda>m.
     put_all (\<lambda>mem m (a, b). bind_r (puta mem m a) (\<lambda>m. putb mem m b)) mem m d)"

section \<open>The reader\<close>

record unmarshall =
  u_buf :: "byte list option"
  u_sz :: nat
  u_ind :: nat
  u_ok :: bool

definition unmarshall_empty :: unmarshall where
  "unmarshall_empty = \<lparr>u_buf = None, u_sz = 0, u_ind = 0, u_ok = False\<rparr>"

definition unmarshall_new :: "byte list option \<Rightarrow> nat \<Rightarrow> unmarshall" where
  "unmarshall_new b sz = \<lparr>u_buf = b, u_sz = sz, u_ind = 0, u_ok = True\<rparr>"

definition take_content :: "memory \<Rightarrow> byte list \<Rightarrow> unmarshall" where
  "take_content mem s =
     \<lparr>u_buf = Some (map mem [0..<RPC_HEADER_SZ] @ s), u_sz = length s + RPC_HEADER_SZ,
      u_ind = RPC_HEADER_SZ, u_ok = True\<rparr>"

text \<open>
  \<open>take_in(another)\<close> steals the block of the other reader, which is left empty, and
  frees the old one: the first result is the taker, the second the other reader, the
  third the block it frees.
\<close>

definition take_in :: "unmarshall \<Rightarrow> unmarshall \<Rightarrow> unmarshall \<times> unmarshall \<times> byte list option" where
  "take_in u another =
     (\<lparr>u_buf = u_buf another, u_sz = u_sz another, u_ind = RPC_HEADER_SZ,
       u_ok = (u_sz another \<ge> RPC_HEADER_SZ)\<rparr>,
      another\<lparr>u_buf := None, u_sz := 0, u_ind := 0\<rparr>,
      u_buf u)"

definition okdone :: "unmarshall \<Rightarrow> bool" where
  "okdone u = (if u_ok u \<and> u_ind u = u_sz u then True else False)"

text \<open>The byte is a signed \<open>char\<close> returned as an \<open>unsigned int\<close>.\<close>

definition u_rawbyte :: "unmarshall \<Rightarrow> (unmarshall \<times> u32) result" where
  "u_rawbyte u =
     (if u_ind u \<ge> u_sz u then Inr (u\<lparr>u_ok := False\<rparr>, 0)
      else case u_buf u of
        None \<Rightarrow> Inl Null_Deref
      | Some b \<Rightarrow>
          if u_ind u < length b then Inr (u\<lparr>u_ind := Suc (u_ind u)\<rparr>, scast (b ! u_ind u))
          else Inl Out_Of_Bounds)"

definition get_bool :: "unmarshall \<Rightarrow> bool \<Rightarrow> (unmarshall \<times> bool) result" where
  "get_bool u x = bind_r (u_rawbyte u) (\<lambda>(u, c). Inr (u, c \<noteq> 0))"

definition get_uchar :: "unmarshall \<Rightarrow> byte \<Rightarrow> (unmarshall \<times> byte) result" where
  "get_uchar u x = bind_r (u_rawbyte u) (\<lambda>(u, c). Inr (u, ucast c))"

definition get_char :: "unmarshall \<Rightarrow> byte \<Rightarrow> (unmarshall \<times> byte) result" where
  "get_char u x = bind_r (u_rawbyte u) (\<lambda>(u, c). Inr (u, ucast c))"

definition get_ushort :: "unmarshall \<Rightarrow> u16 \<Rightarrow> (unmarshall \<times> u16) result" where
  "get_ushort u x =
     bind_r (u_rawbyte u) (\<lambda>(u, c1).
     bind_r (u_rawbyte u) (\<lambda>(u, c0).
     Inr (u, ucast (push_bit 8 (c1 AND 255)) OR ucast (c0 AND 255))))"

definition get_short :: "unmarshall \<Rightarrow> u16 \<Rightarrow> (unmarshall \<times> u16) result" where
  "get_short u x =
     bind_r (u_rawbyte u) (\<lambda>(u, c1).
     bind_r (u_rawbyte u) (\<lambda>(u, c0).
     Inr (u, ucast (push_bit 8 (c1 AND 255)) OR ucast (c0 AND 255))))"

definition get_uint :: "unmarshall \<Rightarrow> u32 \<Rightarrow> (unmarshall \<times> u32) result" where
  "get_uint u x =
     bind_r (u_rawbyte u) (\<lambda>(u, c3).
     bind_r (u_rawbyte u) (\<lambda>(u, c2).
     bind_r (u_rawbyte u) (\<lambda>(u, c1).
     bind_r (u_rawbyte u) (\<lambda>(u, c0).
     Inr (u, push_bit 24 (c3 AND 255) OR push_bit 16 (c2 AND 255) OR
             push_bit 8 (c1 AND 255) OR (c0 AND 255))))))"

definition get_int :: "unmarshall \<Rightarrow> i32 \<Rightarrow> (unmarshall \<times> i32) result" where
  "get_int u x =
     bind_r (u_rawbyte u) (\<lambda>(u, c3).
     bind_r (u_rawbyte u) (\<lambda>(u, c2).
     bind_r (u_rawbyte u) (\<lambda>(u, c1).
     bind_r (u_rawbyte u) (\<lambda>(u, c0).
     Inr (u, push_bit 24 (c3 AND 255) OR push_bit 16 (c2 AND 255) OR
             push_bit 8 (c1 AND 255) OR (c0 AND 255))))))"

definition unpack :: "unmarshall \<Rightarrow> (unmarshall \<times> i32) result" where
  "unpack u =
     bind_r (u_rawbyte u) (\<lambda>(u, c3).
     bind_r (u_rawbyte u) (\<lambda>(u, c2).
     bind_r (u_rawbyte u) (\<lambda>(u, c1).
     bind_r (u_rawbyte u) (\<lambda>(u, c0).
     Inr (u, push_bit 24 (c3 AND 255) OR push_bit 16 (c2 AND 255) OR
             push_bit 8 (c1 AND 255) OR (c0 AND 255))))))"

definition get_ullong :: "unmarshall \<Rightarrow> u64 \<Rightarrow> (unmarshall \<times> u64) result" where
  "get_ullong u x =
     bind_r (get_uint u 0) (\<lambda>(u, h).
     bind_r (get_uint u 0) (\<lambda>(u, l).
     Inr (u, ucast l OR push_bit 32 (ucast h))))"

text \<open>
  The bound of \<open>unmarshall::rawbytes\<close> adds an \<open>int\<close> to an \<open>unsigned int\<close>: the sum is
  an \<open>unsigned int\<close> and wraps around.  \<open>std::string(_buf+_ind, n)\<close> then reads \<open>n\<close> bytes.
\<close>

definition u_rawbytes :: "unmarshall \<Rightarrow> byte list \<Rightarrow> u32 \<Rightarrow> (unmarshall \<times> byte list) result" where
  "u_rawbytes u ss n =
     (if (of_nat (u_ind u) + n :: u32) > of_nat (u_sz u) then Inr (u\<lparr>u_ok := False\<rparr>, ss)
      else case u_buf u of
        None \<Rightarrow> Inl Null_Deref
      | Some b \<Rightarrow>
          if u_ind u + unat n \<le> length b
          then Inr (u\<lparr>u_ind := u_ind u + unat n\<rparr>, take (unat n) (drop (u_ind u) b))
          else Inl Out_Of_Bounds)"

definition get_string :: "unmarshall \<Rightarrow> byte list \<Rightarrow> (unmarshall \<times> byte list) result" where
  "get_string u s =
     bind_r (get_uint u 0) (\<lambda>(u, sz).
     if u_ok u then u_rawbytes u s sz else Inr (u, s))"

text \<open>
  The vector template appends to the vector it is given, and runs its loop to the count
  on the wire whether or not the reads succeed; \<open>z0\<close> is the value of a freshly declared
  element.  The map template clears its map first.
\<close>

primrec get_elems :: "(unmarshall \<Rightarrow> 'c \<Rightarrow> (unmarshall \<times> 'c) result) \<Rightarrow> 'c \<Rightarrow> nat \<Rightarrow>
    unmarshall \<Rightarrow> 'c list \<Rightarrow> (unmarshall \<times> 'c list) result" where
  "get_elems getc z0 0 u v = Inr (u, v)"
| "get_elems getc z0 (Suc n) u v =
     bind_r (getc u z0) (\<lambda>(u, z). get_elems getc z0 n u (v @ [z]))"

definition get_vector :: "(unmarshall \<Rightarrow> 'c \<Rightarrow> (unmarshall \<times> 'c) result) \<Rightarrow> 'c \<Rightarrow>
    unmarshall \<Rightarrow> 'c list \<Rightarrow> (unmarshall \<times> 'c list) result" where
  "get_vector getc z0 u v =
     bind_r (get_uint u 0) (\<lambda>(u, n). get_elems getc z0 (unat n) u v)"

primrec get_entries :: "(unmarshall \<Rightarrow> 'k \<Rightarrow> (unmarshall \<times> 'k) result) \<Rightarrow> 'k \<Rightarrow>
    (unmarshall \<Rightarrow> 'v \<Rightarrow> (unmarshall \<times> 'v) result) \<Rightarrow> 'v \<Rightarrow> nat \<Rightarrow>
    unmarshall \<Rightarrow> ('k \<rightharpoonup> 'v) \<Rightarrow> (unmarshall \<times> ('k \<rightharpoonup> 'v)) result" where
  "get_entries geta a0 getb b0 0 u d = Inr (u, d)"
| "get_entries geta a0 getb b0 (Suc n) u d =
     bind_r (geta u a0) (\<lambda>(u, a).
     bind_r (getb u b0) (\<lambda>(u, b).
     get_entries geta a0 getb b0 n u (d(a \<mapsto> b))))"

definition get_map :: "(unmarshall \<Rightarrow> 'k \<Rightarrow> (unmarshall \<times> 'k) result) \<Rightarrow> 'k \<Rightarrow>
    (unmarshall \<Rightarrow> 'v \<Rightarrow> (unmarshall \<times> 'v) result) \<Rightarrow> 'v \<Rightarrow>
    unmarshall \<Rightarrow> ('k \<rightharpoonup> 'v) \<Rightarrow> (unmarshall \<times> ('k \<rightharpoonup> 'v)) result" where
  "get_map geta a0 getb b0 u d =
     bind_r (get_uint u 0) (\<lambda>(u, n). get_entries geta a0 getb b0 (unat n) u Map.empty)"

definition unpack_req_header :: "unmarshall \<Rightarrow> (unmarshall \<times> req_header) result" where
  "unpack_req_header u =
     bind_r (unpack (u\<lparr>u_ind := sizeof_rpc_sz\<rparr>)) (\<lambda>(u, x).
     bind_r (unpack u) (\<lambda>(u, p).
     bind_r (unpack u) (\<lambda>(u, c).
     bind_r (unpack u) (\<lambda>(u, s).
     bind_r (unpack u) (\<lambda>(u, xi).
     Inr (u\<lparr>u_ind := RPC_HEADER_SZ\<rparr>,
          \<lparr>rq_xid = x, rq_proc = p, rq_clt_nonce = c, rq_srv_nonce = s, rq_xid_rep = xi\<rparr>))))))"

definition unpack_reply_header :: "unmarshall \<Rightarrow> (unmarshall \<times> reply_header) result" where
  "unpack_reply_header u =
     bind_r (unpack (u\<lparr>u_ind := sizeof_rpc_sz\<rparr>)) (\<lambda>(u, x).
     bind_r (unpack u) (\<lambda>(u, r).
     Inr (u\<lparr>u_ind := RPC_HEADER_SZ\<rparr>, \<lparr>rp_xid = x, rp_ret = r\<rparr>)))"

end
