(* ===== verification/Codec.thy ===== *)
theory Codec
  imports Marshal
begin

text \<open>
  What the operators of theory \<open>Marshal\<close> promise.  The invariant \<open>m_wf\<close> of a writer;
  \<open>writes f bs\<close>, the contract of an operation that appends the bytes \<open>bs\<close>; and
  \<open>reads g bs x\<close>, the contract of one that consumes \<open>bs\<close> and yields \<open>x\<close>.  Both
  compose.  The locale \<open>codec\<close> pairs them: a type with an encoding, a writer and a
  reader.  Its interpretations below are all the operator pairs of the sources; the
  vector template is the extension \<open>vector_codec\<close>, a codec again for every element type.
\<close>

section \<open>Writers\<close>

definition m_bytes :: "marshall \<Rightarrow> byte list" where
  "m_bytes m = (case m_buf m of None \<Rightarrow> [] | Some b \<Rightarrow> take (m_ind m) b)"

text \<open>
  The block is exactly the capacity, the write position is inside it and past the header,
  and the capacity is at most twice the bytes in use.  The last part bounds the doubling:
  a message of less than \<open>2\<^sup>3\<^sup>0\<close> bytes never overflows the \<open>int\<close> that holds the capacity.
\<close>

definition m_wf :: "marshall \<Rightarrow> bool" where
  "m_wf m \<longleftrightarrow>
     (case m_buf m of None \<Rightarrow> False
      | Some b \<Rightarrow> length b = m_capa m \<and> m_ind m \<le> m_capa m \<and> RPC_HEADER_SZ \<le> m_ind m \<and>
                  DEFAULT_RPC_SZ \<le> m_capa m \<and> m_capa m \<le> max DEFAULT_RPC_SZ (2 * m_ind m))"

lemma m_wfE:
  assumes "m_wf m"
  obtains b where "m_buf m = Some b" "length b = m_capa m" "m_ind m \<le> m_capa m" "24 \<le> m_ind m"
    "1024 \<le> m_capa m" "m_capa m \<le> max 1024 (2 * m_ind m)"
  using assms by (auto simp: m_wf_def split: option.splits)

lemma m_wf_new [simp]: "m_wf (marshall_new mem)"
  by (simp add: m_wf_def marshall_new_def)

lemma length_m_bytes [simp]: "m_wf m \<Longrightarrow> length (m_bytes m) = m_ind m"
  by (auto simp: m_bytes_def elim: m_wfE)

definition writes :: "(marshall \<Rightarrow> marshall result) \<Rightarrow> byte list \<Rightarrow> bool" where
  "writes f bs \<longleftrightarrow>
     (\<forall>m. m_wf m \<and> m_ind m + length bs < 2 ^ 30 \<longrightarrow>
        (\<exists>m'. f m = Inr m' \<and> m_wf m' \<and> m_bytes m' = m_bytes m @ bs))"

lemma writesI:
  "(\<And>m. m_wf m \<Longrightarrow> m_ind m + length bs < 2 ^ 30 \<Longrightarrow>
     \<exists>m'. f m = Inr m' \<and> m_wf m' \<and> m_bytes m' = m_bytes m @ bs) \<Longrightarrow> writes f bs"
  by (simp add: writes_def)

lemma writesE:
  assumes "writes f bs" "m_wf m" "m_ind m + length bs < 2 ^ 30"
  obtains m' where "f m = Inr m'" "m_wf m'" "m_bytes m' = m_bytes m @ bs"
    "m_ind m' = m_ind m + length bs"
proof -
  obtain m' where m': "f m = Inr m'" "m_wf m'" "m_bytes m' = m_bytes m @ bs"
    using assms unfolding writes_def by blast
  have "m_ind m' = length (m_bytes m')" using m'(2) by simp
  also have "\<dots> = m_ind m + length bs" using m'(3) assms(2) by simp
  finally show ?thesis using m' that by blast
qed

lemma writes_nothing: "writes Inr []"
  by (simp add: writes_def)

lemma writes_bind [writer_intros]:
  assumes f: "writes f bs" and g: "writes g cs"
  shows "writes (\<lambda>m. bind_r (f m) g) (bs @ cs)"
proof (rule writesI)
  fix m assume wf: "m_wf m" and len: "m_ind m + length (bs @ cs) < 2 ^ 30"
  then obtain m1 where m1: "f m = Inr m1" "m_wf m1" "m_bytes m1 = m_bytes m @ bs"
      "m_ind m1 = m_ind m + length bs"
    using writesE [OF f wf] by force
  then obtain m2 where "g m1 = Inr m2" "m_wf m2" "m_bytes m2 = m_bytes m1 @ cs"
    using writesE [OF g m1(2)] len by (metis add.assoc length_append)
  with m1 show "\<exists>m'. bind_r (f m) g = Inr m' \<and> m_wf m' \<and> m_bytes m' = m_bytes m @ bs @ cs"
    by simp
qed

lemma writes_rawbyte [writer_intros]: "writes (\<lambda>m. m_rawbyte mem m x) [x]"
proof (rule writesI)
  fix m assume wf: "m_wf m" and len: "m_ind m + length [x] < 2 ^ 30"
  from wf obtain b where b: "m_buf m = Some b" "length b = m_capa m" "m_ind m \<le> m_capa m"
    "24 \<le> m_ind m" "1024 \<le> m_capa m" "m_capa m \<le> max 1024 (2 * m_ind m)"
    by (rule m_wfE)
  show "\<exists>m'. m_rawbyte mem m x = Inr m' \<and> m_wf m' \<and> m_bytes m' = m_bytes m @ [x]"
  proof (cases "m_ind m < m_capa m")
    case True
    then show ?thesis using b
      by (auto simp: m_rawbyte_def m_wf_def m_bytes_def take_Suc_list_update)
  next
    case False
    then have "m_ind m = m_capa m" using b(3) by simp
    then show ?thesis using b len
      by (auto simp: m_rawbyte_def m_realloc_def fits_int_def m_wf_def m_bytes_def
          take_Suc_list_update)
  qed
qed

lemma writes_rawbytes [writer_intros]: "writes (\<lambda>m. m_rawbytes mem m p) p"
proof (rule writesI)
  fix m assume wf: "m_wf m" and len: "m_ind m + length p < 2 ^ 30"
  from wf obtain b where b: "m_buf m = Some b" "length b = m_capa m" "m_ind m \<le> m_capa m"
    "24 \<le> m_ind m" "1024 \<le> m_capa m" "m_capa m \<le> max 1024 (2 * m_ind m)"
    by (rule m_wfE)
  have fits: "fits_int (length p)" "fits_int (m_ind m + length p)"
    using len by (simp_all add: fits_int_def)
  define c where "c = (if m_capa m > length p then 2 * m_capa m else m_capa m + length p)"
  show "\<exists>m'. m_rawbytes mem m p = Inr m' \<and> m_wf m' \<and> m_bytes m' = m_bytes m @ p"
  proof (cases "m_ind m + length p \<le> m_capa m")
    case True
    then show ?thesis using b fits
      by (auto simp: m_rawbytes_def Let_def m_wf_def m_bytes_def)
  next
    case False
    then have c: "m_ind m + length p \<le> c" "c < 2 ^ 31" "c \<le> 2 * (m_ind m + length p)"
        "m_capa m \<le> c"
      using b len by (auto simp: c_def)
    then have "m_realloc mem c m =
        Inr (m\<lparr>m_capa := c, m_buf := Some (b @ map mem [length b..<c])\<rparr>)"
      using b by (simp add: m_realloc_def fits_int_def)
    moreover have "m_rawbytes mem m p =
        bind_r (m_realloc mem c m)
        (\<lambda>m. case m_buf m of
           None \<Rightarrow> Inl Null_Deref
         | Some b \<Rightarrow>
             if m_ind m + length p \<le> length b
             then Inr (m\<lparr>m_buf := Some (take (m_ind m) b @ p @ drop (m_ind m + length p) b),
                        m_ind := m_ind m + length p\<rparr>)
             else Inl Out_Of_Bounds)"
      using False fits unfolding m_rawbytes_def c_def Let_def by simp
    ultimately show ?thesis using b c
      by (auto simp: m_wf_def m_bytes_def)
  qed
qed

lemma writes_uint [writer_intros]: "writes (\<lambda>m. put_uint mem m x) (be32 x)"
proof -
  have x0: "ucast (x AND 255) = byte_at 0 x" by (simp add: byte_at_def)
  have "writes (\<lambda>m. put_uint mem m x) ([byte_at 24 x] @ [byte_at 16 x] @ [byte_at 8 x] @ [byte_at 0 x])"
    unfolding put_uint_def x0 byte_at_def [symmetric]
    by (intro writer_intros)
  then show ?thesis by (simp add: be32_def)
qed

lemma writes_ushort: "writes (\<lambda>m. put_ushort mem m x) (be16 x)"
proof -
  have x0: "ucast (x AND 255) = byte_at 0 x" by (simp add: byte_at_def)
  have "writes (\<lambda>m. put_ushort mem m x) ([byte_at 8 x] @ [byte_at 0 x])"
    unfolding put_ushort_def x0 byte_at_def [symmetric]
    by (intro writer_intros)
  then show ?thesis by (simp add: be16_def)
qed

lemma writes_all:
  "(\<And>x. x \<in> set xs \<Longrightarrow> writes (\<lambda>m. putc mem m x) (enc x)) \<Longrightarrow>
   writes (\<lambda>m. put_all putc mem m xs) (concat (map enc xs))"
  by (induction xs) (auto intro: writes_nothing writes_bind)

section \<open>Readers\<close>

text \<open>\<open>u_at u bs\<close>: the reader is good and the bytes from its position to its end are \<open>bs\<close>.\<close>

definition u_at :: "unmarshall \<Rightarrow> byte list \<Rightarrow> bool" where
  "u_at u bs \<longleftrightarrow> u_ok u \<and> u_sz u < 2 ^ 31 \<and>
     (case u_buf u of None \<Rightarrow> False
      | Some b \<Rightarrow> u_sz u \<le> length b \<and> u_ind u \<le> u_sz u \<and> drop (u_ind u) (take (u_sz u) b) = bs)"

definition advance :: "nat \<Rightarrow> unmarshall \<Rightarrow> unmarshall" where
  "advance n u = u\<lparr>u_ind := u_ind u + n\<rparr>"

lemma advance_simps [simp]:
  "advance 0 u = u" "advance n (advance m u) = advance (m + n) u"
  "u_ok (advance n u) = u_ok u" "u_sz (advance n u) = u_sz u" "u_buf (advance n u) = u_buf u"
  "u_ind (advance n u) = u_ind u + n"
  by (simp_all add: advance_def)

lemma u_at_length: "u_at u bs \<Longrightarrow> u_ind u + length bs = u_sz u"
  by (auto simp: u_at_def split: option.splits)

lemma u_at_advance: "u_at u (bs @ rest) \<Longrightarrow> u_at (advance (length bs) u) rest"
proof -
  assume at: "u_at u (bs @ rest)"
  then obtain b where b: "u_buf u = Some b" "u_sz u \<le> length b"
      "drop (u_ind u) (take (u_sz u) b) = bs @ rest"
    by (auto simp: u_at_def split: option.splits)
  have "drop (length bs + u_ind u) (take (u_sz u) b) = rest"
    using b(3) by (metis append_eq_conv_conj drop_drop)
  then show ?thesis using at b u_at_length [OF at]
    by (auto simp: u_at_def add.commute)
qed

lemma u_at_okdone: "u_at u [] \<Longrightarrow> okdone u"
  using u_at_length by (fastforce simp: okdone_def u_at_def)

lemma u_at_not_okdone: "u_at u (b # bs) \<Longrightarrow> \<not> okdone u"
  using u_at_length by (fastforce simp: okdone_def)

definition reads :: "(unmarshall \<Rightarrow> (unmarshall \<times> 'a) result) \<Rightarrow> byte list \<Rightarrow> 'a \<Rightarrow> bool" where
  "reads g bs x \<longleftrightarrow>
     (\<forall>u rest. u_at u (bs @ rest) \<longrightarrow> g u = Inr (advance (length bs) u, x))"

lemma readsI:
  "(\<And>u rest. u_at u (bs @ rest) \<Longrightarrow> g u = Inr (advance (length bs) u, x)) \<Longrightarrow> reads g bs x"
  by (simp add: reads_def)

lemma readsD: "reads g bs x \<Longrightarrow> u_at u (bs @ rest) \<Longrightarrow> g u = Inr (advance (length bs) u, x)"
  unfolding reads_def by blast

lemma reads_return: "reads (\<lambda>u. Inr (u, x)) [] x"
  by (simp add: reads_def)

lemma reads_bind:
  assumes g: "reads g bs x" and h: "reads (h x) cs y"
  shows "reads (\<lambda>u. bind_r (g u) (\<lambda>(u, x). h x u)) (bs @ cs) y"
proof (rule readsI)
  fix u rest assume "u_at u ((bs @ cs) @ rest)"
  then have at: "u_at u (bs @ cs @ rest)" by simp
  then have "u_at (advance (length bs) u) (cs @ rest)" by (rule u_at_advance)
  then have "h x (advance (length bs) u) = Inr (advance (length cs) (advance (length bs) u), y)"
    by (rule readsD [OF h])
  with readsD [OF g at]
  show "bind_r (g u) (\<lambda>(u, x). h x u) = Inr (advance (length (bs @ cs)) u, y)"
    by simp
qed

lemma reads_rawbyte: "reads u_rawbyte [x] (scast x)"
proof (rule readsI)
  fix u rest assume at: "u_at u ([x] @ rest)"
  then obtain b where b: "u_buf u = Some b" "drop (u_ind u) (take (u_sz u) b) = x # rest"
    by (auto simp: u_at_def split: option.splits)
  then show "u_rawbyte u = Inr (advance (length [x]) u, scast x)"
    using nth_drop_take_Cons [OF b(2)] by (simp add: u_rawbyte_def advance_def)
qed

lemma reads_rawbyte_bind:
  "reads (h (scast x)) cs y \<Longrightarrow>
   reads (\<lambda>u. bind_r (u_rawbyte u) (\<lambda>(u, c). h c u)) (x # cs) y"
  using reads_bind [OF reads_rawbyte] by fastforce

text \<open>The three copies of the four-byte read agree.\<close>

lemma get_uint_unpack: "get_uint u x = unpack u" "get_int u x = unpack u"
  by (simp_all add: get_uint_def get_int_def unpack_def)

lemma get_short_ushort: "get_short = get_ushort"
  by (simp add: get_ushort_def get_short_def fun_eq_iff)

lemma reads_unpack: "reads unpack (be32 x) x"
proof -
  have "reads unpack (be32 x)
          (push_bit 24 (scast (byte_at 24 x) AND 255) OR push_bit 16 (scast (byte_at 16 x) AND 255) OR
           push_bit 8 (scast (byte_at 8 x) AND 255) OR (scast (byte_at 0 x) AND 255))"
    unfolding unpack_def be32_def
    by (intro reads_rawbyte_bind reads_return)
  then show ?thesis by (simp only: scast_byte_and_255 join_be32)
qed

lemma reads_uint: "reads (\<lambda>u. get_uint u old) (be32 x) x"
  using reads_unpack by (simp add: get_uint_unpack)

lemma reads_ushort: "reads (\<lambda>u. get_ushort u old) (be16 x) x"
proof -
  have "reads (\<lambda>u. get_ushort u old) (be16 x)
          (ucast (push_bit 8 (scast (byte_at 8 x) AND 255 :: 32 word)) OR
           ucast (scast (byte_at 0 x) AND 255 :: 32 word))"
    unfolding get_ushort_def be16_def
    by (intro reads_rawbyte_bind reads_return)
  then show ?thesis by (simp only: scast_byte_and_255 join_be16)
qed

lemma reads_ullong: "reads (\<lambda>u. get_ullong u old) (be64 x) x"
proof -
  have "reads (\<lambda>u. get_ullong u old) (be64 x)
          (ucast (ucast x :: u32) OR push_bit 32 (ucast (ucast (drop_bit 32 x) :: u32)))"
    unfolding get_ullong_def be64_def
    using reads_bind [OF reads_uint reads_bind [OF reads_uint reads_return]]
    by fastforce
  then show ?thesis by (simp only: join_be64)
qed

lemma reads_rawbytes: "reads (\<lambda>u. u_rawbytes u old (of_nat (length s))) s s"
proof (rule readsI)
  fix u rest assume at: "u_at u (s @ rest)"
  then obtain b where b: "u_buf u = Some b" "u_sz u \<le> length b" "u_sz u < 2 ^ 31"
      "drop (u_ind u) (take (u_sz u) b) = s @ rest"
    by (auto simp: u_at_def split: option.splits)
  have len: "u_ind u + length s \<le> u_sz u" using u_at_length [OF at] by simp
  have n: "unat (of_nat (length s) :: u32) = length s"
    using len b(3) by (simp add: unat_of_nat_small)
  have "(of_nat (u_ind u) + of_nat (length s) :: u32) = of_nat (u_ind u + length s)" by simp
  also have "\<dots> \<le> of_nat (u_sz u)"
    using len b(3) by (intro of_nat_le_small) simp_all
  finally have "\<not> (of_nat (u_ind u) + of_nat (length s) :: u32) > of_nat (u_sz u)" by simp
  moreover have "take (length s) (drop (u_ind u) b) = s"
  proof -
    have "take (length s) (drop (u_ind u) (take (u_sz u) b)) = s" using b(4) by simp
    then show ?thesis using len by (simp add: drop_take min_def split: if_splits)
  qed
  ultimately show "u_rawbytes u old (of_nat (length s)) = Inr (advance (length s) u, s)"
    using b len n by (simp add: u_rawbytes_def advance_def)
qed

lemma reads_if_ok: "reads g bs x \<Longrightarrow> reads (\<lambda>u. if u_ok u then g u else h u) bs x"
  by (auto simp: reads_def u_at_def)

definition enc_string :: "byte list \<Rightarrow> byte list" where
  "enc_string s = be32 (of_nat (length s)) @ s"

lemma writes_string: "writes (\<lambda>m. put_string mem m s) (enc_string s)"
  unfolding put_string_def enc_string_def by (intro writer_intros)

lemma reads_string: "reads (\<lambda>u. get_string u old) (enc_string s) s"
  unfolding get_string_def enc_string_def
  by (intro reads_bind [OF reads_uint] reads_if_ok reads_rawbytes)

section \<open>The contract of a pair of operators\<close>

locale codec =
  fixes enc :: "'a \<Rightarrow> byte list"
    and okv :: "'a \<Rightarrow> bool"
    and fresh :: "'a \<Rightarrow> bool"
    and put :: "memory \<Rightarrow> marshall \<Rightarrow> 'a \<Rightarrow> marshall result"
    and get :: "unmarshall \<Rightarrow> 'a \<Rightarrow> (unmarshall \<times> 'a) result"
  assumes put_writes: "okv x \<Longrightarrow> writes (\<lambda>m. put mem m x) (enc x)"
    and get_reads: "okv x \<Longrightarrow> fresh old \<Longrightarrow> reads (\<lambda>u. get u old) (enc x) x"
begin

text \<open>A value written by \<open><<\<close> is what \<open>>>\<close> reads, at whatever position of the message.\<close>

lemma put_get:
  assumes "okv x" "fresh old" "m_wf m" "m_ind m + length (enc x) < 2 ^ 30"
  obtains m' where "put mem m x = Inr m'" "m_wf m'" "m_bytes m' = m_bytes m @ enc x"
    "\<And>u rest. u_at u (enc x @ rest) \<Longrightarrow>
       \<exists>u'. get u old = Inr (u', x) \<and> u_at u' rest"
proof -
  obtain m' where m': "put mem m x = Inr m'" "m_wf m'" "m_bytes m' = m_bytes m @ enc x"
    using writesE [OF put_writes [OF assms(1)] assms(3,4)] by metis
  moreover have "\<exists>u'. get u old = Inr (u', x) \<and> u_at u' rest" if "u_at u (enc x @ rest)" for u rest
    using readsD [OF get_reads [OF assms(1,2)] that] u_at_advance [OF that] by blast
  ultimately show ?thesis using that by blast
qed

text \<open>Two encodings of the same type never disagree on a common prefix: decoding is unambiguous.\<close>

lemma enc_prefix_free:
  assumes "okv x" "okv y" "fresh old" "enc x @ r = enc y @ s" "length (enc x @ r) < 2 ^ 31"
  shows "x = y \<and> r = s"
proof -
  define u where "u = \<lparr>u_buf = Some (enc x @ r), u_sz = length (enc x @ r), u_ind = 0, u_ok = True\<rparr>"
  have "u_at u (enc x @ r)" using assms(5) by (simp add: u_def u_at_def)
  then have "get u old = Inr (advance (length (enc x)) u, x)"
      "get u old = Inr (advance (length (enc y)) u, y)"
    using readsD [OF get_reads] assms by metis+
  then have "x = y" by simp
  then show ?thesis using assms(4) by simp
qed

end

interpretation bool_codec:
  codec "\<lambda>x. [if x then 1 else 0]" "\<lambda>_. True" "\<lambda>_. True" put_bool get_bool
proof
  show "writes (\<lambda>m. put_bool mem m x) [if x then 1 else 0]" for mem x
    unfolding put_bool_def by (rule writes_rawbyte)
  show "reads (\<lambda>u. get_bool u old) [if x then 1 else 0] x" for old x
    using reads_rawbyte_bind [OF reads_return, of "\<lambda>c. c \<noteq> 0" "if x then 1 else 0"]
    by (cases x) (simp_all add: get_bool_def)
qed

interpretation uchar_codec: codec "\<lambda>x. [x]" "\<lambda>_. True" "\<lambda>_. True" put_uchar get_uchar
proof
  show "writes (\<lambda>m. put_uchar mem m x) [x]" for mem x
    unfolding put_uchar_def by (rule writes_rawbyte)
  show "reads (\<lambda>u. get_uchar u old) [x] x" for old x
    using reads_rawbyte_bind [OF reads_return, of "ucast :: u32 \<Rightarrow> byte" x]
    by (simp add: get_uchar_def ucast_scast_byte)
qed

interpretation char_codec: codec "\<lambda>x. [x]" "\<lambda>_. True" "\<lambda>_. True" put_char get_char
proof
  show "writes (\<lambda>m. put_char mem m x) [x]" for mem x
    unfolding put_char_def put_uchar_def by (rule writes_rawbyte)
  show "reads (\<lambda>u. get_char u old) [x] x" for old x
    using reads_rawbyte_bind [OF reads_return, of "ucast :: u32 \<Rightarrow> byte" x]
    by (simp add: get_char_def ucast_scast_byte)
qed

interpretation ushort_codec: codec be16 "\<lambda>_. True" "\<lambda>_. True" put_ushort get_ushort
  by standard (rule writes_ushort reads_ushort)+

interpretation short_codec: codec be16 "\<lambda>_. True" "\<lambda>_. True" put_short get_short
  by standard (simp_all add: put_short_def writes_ushort get_short_ushort reads_ushort)

interpretation uint_codec: codec be32 "\<lambda>_. True" "\<lambda>_. True" put_uint get_uint
  by standard (rule writes_uint reads_uint)+

interpretation int_codec: codec be32 "\<lambda>_. True" "\<lambda>_. True" put_int get_int
  by standard (simp_all add: put_int_def writes_uint get_uint_unpack reads_unpack)

interpretation ullong_codec: codec be64 "\<lambda>_. True" "\<lambda>_. True" put_ullong get_ullong
proof
  show "writes (\<lambda>m. put_ullong mem m x) (be64 x)" for mem x
    unfolding put_ullong_def be64_def by (intro writer_intros)
qed (rule reads_ullong)

interpretation string_codec: codec enc_string "\<lambda>_. True" "\<lambda>_. True" put_string get_string
  by standard (rule writes_string reads_string)+

section \<open>The container templates\<close>

definition enc_vector :: "('c \<Rightarrow> byte list) \<Rightarrow> 'c list \<Rightarrow> byte list" where
  "enc_vector enc v = be32 (of_nat (length v)) @ concat (map enc v)"

definition ok_vector :: "('c \<Rightarrow> bool) \<Rightarrow> 'c list \<Rightarrow> bool" where
  "ok_vector okv v \<longleftrightarrow> length v < 2 ^ 32 \<and> list_all okv v"

text \<open>
  A vector of any element type that meets the contract meets it too, if the variable it
  is read into is empty: \<open>>>\<close> appends.
\<close>

locale vector_codec = codec +
  fixes z0 :: 'a
  assumes z0_fresh: "fresh z0"
begin

lemma reads_elems:
  "list_all okv xs \<Longrightarrow> reads (\<lambda>u. get_elems get z0 (length xs) u v) (concat (map enc xs)) (v @ xs)"
proof (induction xs arbitrary: v)
  case Nil
  then show ?case by (simp add: reads_return)
next
  case (Cons x xs)
  then have "reads (\<lambda>u. get u z0) (enc x) x" by (simp add: get_reads z0_fresh)
  moreover have "reads (\<lambda>u. get_elems get z0 (length xs) u (v @ [x])) (concat (map enc xs)) (v @ x # xs)"
    using Cons.IH [of "v @ [x]"] Cons.prems by simp
  ultimately show ?case by (simp add: reads_bind)
qed

lemma reads_vector:
  assumes "ok_vector okv xs"
  shows "reads (\<lambda>u. get_vector get z0 u v) (enc_vector enc xs) (v @ xs)"
proof -
  have "reads (\<lambda>u. get_elems get z0 (unat (of_nat (length xs) :: u32)) u v) (concat (map enc xs)) (v @ xs)"
    using assms reads_elems by (simp add: ok_vector_def unat_of_nat_small)
  then show ?thesis
    unfolding get_vector_def enc_vector_def by (rule reads_bind [OF reads_uint])
qed

lemma writes_vector: "ok_vector okv xs \<Longrightarrow> writes (\<lambda>m. put_vector put mem m xs) (enc_vector enc xs)"
  unfolding put_vector_def enc_vector_def
  by (intro writer_intros writes_all) (auto simp: ok_vector_def list_all_iff put_writes)

sublocale vec: codec "enc_vector enc" "ok_vector okv" "\<lambda>v. v = []" "put_vector put" "get_vector get z0"
  using reads_vector [where v = "[]"] by unfold_locales (auto simp: writes_vector)

end

interpretation string_vector: vector_codec enc_string "\<lambda>_. True" "\<lambda>_. True" put_string get_string "[]"
  by standard simp

interpretation int_vector: vector_codec be32 "\<lambda>_. True" "\<lambda>_. True" put_int get_int z0 for z0
  by standard simp

definition enc_map :: "('k \<Rightarrow> byte list) \<Rightarrow> ('v \<Rightarrow> byte list) \<Rightarrow> ('k \<times> 'v) list \<Rightarrow> byte list" where
  "enc_map enca encb d = be32 (of_nat (length d)) @ concat (map (\<lambda>(a, b). enca a @ encb b) d)"

locale map_codec =
  key: codec enca oka fresha puta geta + val: codec encb okb freshb putb getb
  for enca :: "'k \<Rightarrow> byte list" and oka fresha puta geta
    and encb :: "'v \<Rightarrow> byte list" and okb freshb putb getb +
  fixes a0 :: 'k and b0 :: 'v
  assumes a0_fresh: "fresha a0" and b0_fresh: "freshb b0"
begin

lemma reads_entries:
  "\<forall>(a, b) \<in> set d. oka a \<and> okb b \<Longrightarrow>
   reads (\<lambda>u. get_entries geta a0 getb b0 (length d) u e)
     (concat (map (\<lambda>(a, b). enca a @ encb b) d)) (e ++ map_of (rev d))"
proof (induction d arbitrary: e)
  case Nil
  then show ?case by (simp add: reads_return)
next
  case (Cons p d)
  obtain a b where p: "p = (a, b)" by (cases p)
  have ra: "reads (\<lambda>u. geta u a0) (enca a) a" and rb: "reads (\<lambda>u. getb u b0) (encb b) b"
    using Cons.prems by (auto simp: p a0_fresh b0_fresh key.get_reads val.get_reads)
  let ?rest = "\<lambda>a b u. get_entries geta a0 getb b0 (length d) u (e(a \<mapsto> b))"
  let ?cs = "concat (map (\<lambda>(a, b). enca a @ encb b) d)"
  have "reads (?rest a b) ?cs (e(a \<mapsto> b) ++ map_of (rev d))"
    using Cons by simp
  then have "reads (\<lambda>u. bind_r (getb u b0) (\<lambda>(u, b). ?rest a b u)) (encb b @ ?cs)
      (e(a \<mapsto> b) ++ map_of (rev d))"
    by (rule reads_bind [OF rb])
  then have "reads (\<lambda>u. bind_r (geta u a0) (\<lambda>(u, a). bind_r (getb u b0) (\<lambda>(u, b). ?rest a b u)))
      (enca a @ encb b @ ?cs) (e(a \<mapsto> b) ++ map_of (rev d))"
    by (rule reads_bind [OF ra])
  moreover have "e(a \<mapsto> b) ++ map_of (rev d) = e ++ map_of (rev (p # d))"
    by (rule ext) (simp add: p map_add_def split: option.split)
  ultimately show ?case by (simp add: p del: map_of_append)
qed

text \<open>What \<open>>>\<close> reads is the map that was written, whatever the variable held before.\<close>

lemma reads_map:
  assumes "\<forall>(a, b) \<in> set d. oka a \<and> okb b" "length d < 2 ^ 32" "distinct (map fst d)"
  shows "reads (\<lambda>u. get_map geta a0 getb b0 u old) (enc_map enca encb d) (map_of d)"
proof -
  have "Map.empty ++ map_of (rev d) = map_of d"
    using assms(3) map_of_inject_set [of "rev d" d] by (simp add: rev_map [symmetric])
  then have "reads (\<lambda>u. get_entries geta a0 getb b0 (unat (of_nat (length d) :: u32)) u Map.empty)
     (concat (map (\<lambda>(a, b). enca a @ encb b) d)) (map_of d)"
    using reads_entries [OF assms(1), of Map.empty] assms(2) by (simp add: unat_of_nat_small)
  then show ?thesis
    unfolding get_map_def enc_map_def by (rule reads_bind [OF reads_uint])
qed

lemma writes_map:
  assumes "\<forall>(a, b) \<in> set d. oka a \<and> okb b"
  shows "writes (\<lambda>m. put_map puta putb mem m d) (enc_map enca encb d)"
proof -
  have "writes (\<lambda>m. (\<lambda>mem m (a, b). bind_r (puta mem m a) (\<lambda>m. putb mem m b)) mem m p)
          ((\<lambda>(a, b). enca a @ encb b) p)" if "p \<in> set d" for p
    using assms that by (cases p) (auto intro!: writes_bind key.put_writes val.put_writes)
  then show ?thesis
    unfolding put_map_def enc_map_def by (intro writer_intros writes_all) blast
qed

end

interpretation int_string_map:
  map_codec be32 "\<lambda>_. True" "\<lambda>_. True" put_int get_int
    enc_string "\<lambda>_. True" "\<lambda>_. True" put_string get_string a0 "[]" for a0
  by unfold_locales simp_all

end
