(* ===== verification/Wire.thy ===== *)
theory Wire
  imports Codec
begin

text \<open>
  Messages as a whole.  The headers that \<open>pack_req_header\<close> and \<open>pack_reply_header\<close>
  write in place into the block of a writer, and that the other side unpacks; what the
  readers do on short input (\<open>total_read\<close>: an operation that consumes a fixed number
  of bytes never faults, and clears \<open>ok\<close> exactly when they are not there); and the
  complete behaviour of the string reader, whose bound check wraps around.
\<close>

section \<open>Writing in place\<close>

definition overwrite :: "nat \<Rightarrow> byte list \<Rightarrow> byte list \<Rightarrow> byte list" where
  "overwrite i p b = take i b @ p @ drop (i + length p) b"

lemma length_overwrite [simp]: "i + length p \<le> length b \<Longrightarrow> length (overwrite i p b) = length b"
  by (simp add: overwrite_def)

lemma overwrite_append:
  "i + length p + length q \<le> length b \<Longrightarrow>
   overwrite (i + length p) q (overwrite i p b) = overwrite i (p @ q) b"
  by (simp add: overwrite_def add.assoc add.commute add.left_commute)

lemma list_update_overwrite: "i < length b \<Longrightarrow> b[i := x] = overwrite i [x] b"
  by (simp add: overwrite_def upd_conv_take_nth_drop)

definition overwrites :: "(marshall \<Rightarrow> marshall result) \<Rightarrow> byte list \<Rightarrow> bool" where
  "overwrites f bs \<longleftrightarrow>
     (\<forall>m b. m_buf m = Some b \<and> length b = m_capa m \<and> m_ind m + length bs \<le> m_capa m \<longrightarrow>
        f m = Inr (m\<lparr>m_buf := Some (overwrite (m_ind m) bs b), m_ind := m_ind m + length bs\<rparr>))"

lemma overwritesD:
  "overwrites f bs \<Longrightarrow> m_buf m = Some b \<Longrightarrow> length b = m_capa m \<Longrightarrow>
   m_ind m + length bs \<le> m_capa m \<Longrightarrow>
   f m = Inr (m\<lparr>m_buf := Some (overwrite (m_ind m) bs b), m_ind := m_ind m + length bs\<rparr>)"
  unfolding overwrites_def by blast

lemma overwrites_rawbyte [writer_intros]: "overwrites (\<lambda>m. m_rawbyte mem m x) [x]"
  by (auto simp: overwrites_def m_rawbyte_def list_update_overwrite)

lemma overwrites_bind [writer_intros]:
  assumes f: "overwrites f bs" and g: "overwrites g cs"
  shows "overwrites (\<lambda>m. bind_r (f m) g) (bs @ cs)"
  unfolding overwrites_def
proof (intro allI impI, elim conjE)
  fix m :: marshall and b assume b: "m_buf m = Some b" "length b = m_capa m"
    and len: "m_ind m + length (bs @ cs) \<le> m_capa m"
  let ?m = "m\<lparr>m_buf := Some (overwrite (m_ind m) bs b), m_ind := m_ind m + length bs\<rparr>"
  have "f m = Inr ?m" using f b len by (intro overwritesD) auto
  moreover have "g ?m = Inr (?m\<lparr>m_buf := Some (overwrite (m_ind ?m) cs (overwrite (m_ind m) bs b)),
        m_ind := m_ind ?m + length cs\<rparr>)"
    using b len by (intro overwritesD [OF g]) auto
  moreover have "overwrite (m_ind m + length bs) cs (overwrite (m_ind m) bs b)
      = overwrite (m_ind m) (bs @ cs) b"
    using b len by (intro overwrite_append) simp
  ultimately show "bind_r (f m) g =
      Inr (m\<lparr>m_buf := Some (overwrite (m_ind m) (bs @ cs) b), m_ind := m_ind m + length (bs @ cs)\<rparr>)"
    by (simp add: add.assoc)
qed

lemma overwrites_pack [writer_intros]: "overwrites (\<lambda>m. pack mem m x) (be32 x)"
proof -
  have x0: "ucast (x AND 255) = byte_at 0 x" by (simp add: byte_at_def)
  have "overwrites (\<lambda>m. pack mem m x)
      ([byte_at 24 x] @ [byte_at 16 x] @ [byte_at 8 x] @ [byte_at 0 x])"
    unfolding pack_def x0
    by (simp only: signed_drop_bit_byte order_refl one_le_numeral numeral_le_iff semiring_norm)
      (intro writer_intros)
  then show ?thesis by (simp add: be32_def)
qed

section \<open>The headers\<close>

definition enc_req_header :: "req_header \<Rightarrow> byte list" where
  "enc_req_header h =
     be32 (rq_xid h) @ be32 (rq_proc h) @ be32 (rq_clt_nonce h) @ be32 (rq_srv_nonce h) @
     be32 (rq_xid_rep h)"

definition enc_reply_header :: "reply_header \<Rightarrow> byte list" where
  "enc_reply_header h = be32 (rp_xid h) @ be32 (rp_ret h)"

lemma length_enc_header [simp]:
  "length (enc_req_header h) = 20" "length (enc_reply_header r) = 8"
  by (simp_all add: enc_req_header_def enc_reply_header_def)

text \<open>Packing a header replaces the bytes from offset 4 and moves nothing else.\<close>

lemma in_place:
  assumes "overwrites f bs" "m_wf m" "m_buf m = Some b" "4 + length bs \<le> 24"
  shows "bind_r (f (m\<lparr>m_ind := 4\<rparr>)) (\<lambda>m'. Inr (m'\<lparr>m_ind := m_ind m\<rparr>)) =
         Inr (m\<lparr>m_buf := Some (overwrite 4 bs b)\<rparr>)"
proof -
  have "f (m\<lparr>m_ind := 4\<rparr>) = Inr (m\<lparr>m_ind := 4\<rparr>
      \<lparr>m_buf := Some (overwrite (m_ind (m\<lparr>m_ind := 4\<rparr>)) bs b), m_ind := m_ind (m\<lparr>m_ind := 4\<rparr>) + length bs\<rparr>)"
    using assms by (intro overwritesD) (auto elim!: m_wfE)
  then show ?thesis by simp
qed

lemma pack_req_header_eq:
  assumes "m_wf m" "m_buf m = Some b"
  shows "pack_req_header mem m h = Inr (m\<lparr>m_buf := Some (overwrite 4 (enc_req_header h) b)\<rparr>)"
proof -
  let ?f = "\<lambda>m. bind_r (pack mem m (rq_xid h)) (\<lambda>m. bind_r (pack mem m (rq_proc h)) (\<lambda>m.
      bind_r (pack mem m (rq_clt_nonce h)) (\<lambda>m. bind_r (pack mem m (rq_srv_nonce h)) (\<lambda>m.
      pack mem m (rq_xid_rep h)))))"
  have "overwrites ?f (enc_req_header h)"
    unfolding enc_req_header_def by (intro writer_intros)
  from in_place [OF this assms] show ?thesis
    by (simp add: pack_req_header_def bind_r_assoc)
qed

lemma pack_reply_header_eq:
  assumes "m_wf m" "m_buf m = Some b"
  shows "pack_reply_header mem m h = Inr (m\<lparr>m_buf := Some (overwrite 4 (enc_reply_header h) b)\<rparr>)"
proof -
  have "overwrites (\<lambda>m. bind_r (pack mem m (rp_xid h)) (\<lambda>m. pack mem m (rp_ret h)))
      (enc_reply_header h)"
    unfolding enc_reply_header_def by (intro writer_intros)
  from in_place [OF this assms] show ?thesis
    by (simp add: pack_reply_header_def bind_r_assoc)
qed

text \<open>A message: the four size bytes, twenty header bytes, the body.\<close>

definition m_body :: "marshall \<Rightarrow> byte list" where
  "m_body m = drop 24 (m_bytes m)"

lemma m_wf_overwrite:
  "m_wf m \<Longrightarrow> m_buf m = Some b \<Longrightarrow> 4 + length bs \<le> 24 \<Longrightarrow>
   m_wf (m\<lparr>m_buf := Some (overwrite 4 bs b)\<rparr>)"
  by (auto simp: m_wf_def)

lemma m_body_overwrite:
  assumes "m_wf m" "m_buf m = Some b" "4 + length bs \<le> 24"
  shows "m_body (m\<lparr>m_buf := Some (overwrite 4 bs b)\<rparr>) = m_body m"
proof -
  have "drop 24 (overwrite 4 bs b) = drop 24 b"
    using assms by (auto simp: overwrite_def elim!: m_wfE)
  then show ?thesis using assms by (simp add: m_body_def m_bytes_def drop_take)
qed

text \<open>A reader over the block that a writer hands over, with its position at \<open>i\<close>.\<close>

lemma u_at_message:
  assumes "m_wf m" "m_ind m < 2 ^ 31" "i \<le> m_ind m"
  shows "u_at ((unmarshall_new (m_buf m) (m_ind m))\<lparr>u_ind := i\<rparr>) (drop i (m_bytes m))"
  using assms by (auto simp: u_at_def unmarshall_new_def m_bytes_def elim!: m_wfE)

lemma drop4_overwrite:
  assumes "m_wf m" "m_buf m = Some b" "4 + length bs \<le> 24"
  shows "drop 4 (m_bytes (m\<lparr>m_buf := Some (overwrite 4 bs b)\<rparr>)) =
         bs @ drop (4 + length bs) (m_bytes m)"
proof -
  have "4 + length bs \<le> m_ind m" "m_ind m \<le> length b" using assms by (auto elim!: m_wfE)
  then show ?thesis using assms by (simp add: m_bytes_def overwrite_def drop_take)
qed

lemma reads_req_header:
  "reads (\<lambda>u. bind_r (unpack u) (\<lambda>(u, x). bind_r (unpack u) (\<lambda>(u, p). bind_r (unpack u) (\<lambda>(u, c).
      bind_r (unpack u) (\<lambda>(u, s). bind_r (unpack u) (\<lambda>(u, xi). Inr (u,
        \<lparr>rq_xid = x, rq_proc = p, rq_clt_nonce = c, rq_srv_nonce = s, rq_xid_rep = xi\<rparr>)))))))
     (enc_req_header h) h"
  unfolding enc_req_header_def
  by (rule reads_bind [OF reads_unpack], rule reads_bind [OF reads_unpack],
      rule reads_bind [OF reads_unpack], rule reads_bind [OF reads_unpack],
      subst append_Nil2 [symmetric], rule reads_bind [OF reads_unpack])
    (cases h, simp add: reads_return)

lemma reads_reply_header:
  "reads (\<lambda>u. bind_r (unpack u) (\<lambda>(u, x). bind_r (unpack u) (\<lambda>(u, r).
      Inr (u, \<lparr>rp_xid = x, rp_ret = r\<rparr>)))) (enc_reply_header h) h"
  unfolding enc_reply_header_def
  by (rule reads_bind [OF reads_unpack], subst append_Nil2 [symmetric],
      rule reads_bind [OF reads_unpack])
    (cases h, simp add: reads_return)

lemma unpack_req_header_bind:
  "unpack_req_header u =
   bind_r (bind_r (unpack (u\<lparr>u_ind := 4\<rparr>)) (\<lambda>(u, x). bind_r (unpack u) (\<lambda>(u, p). bind_r (unpack u) (\<lambda>(u, c).
      bind_r (unpack u) (\<lambda>(u, s). bind_r (unpack u) (\<lambda>(u, xi). Inr (u,
        \<lparr>rq_xid = x, rq_proc = p, rq_clt_nonce = c, rq_srv_nonce = s, rq_xid_rep = xi\<rparr>)))))))
     (\<lambda>(u, h). Inr (u\<lparr>u_ind := 24\<rparr>, h))"
  by (simp add: unpack_req_header_def bind_r_assoc split_def)

lemma unpack_reply_header_bind:
  "unpack_reply_header u =
   bind_r (bind_r (unpack (u\<lparr>u_ind := 4\<rparr>)) (\<lambda>(u, x). bind_r (unpack u) (\<lambda>(u, r).
      Inr (u, \<lparr>rp_xid = x, rp_ret = r\<rparr>))))
     (\<lambda>(u, h). Inr (u\<lparr>u_ind := 24\<rparr>, h))"
  by (simp add: unpack_reply_header_def bind_r_assoc split_def)

lemma req_header_transfer:
  assumes "m_wf m" "m_ind m < 2 ^ 31"
  obtains m' u' where "pack_req_header mem m h = Inr m'" "m_wf m'" "m_ind m' = m_ind m"
    "m_body m' = m_body m"
    "unpack_req_header (unmarshall_new (m_buf m') (m_ind m')) = Inr (u', h)"
    "u_at u' (m_body m)"
proof -
  from assms(1) obtain b where b: "m_buf m = Some b" by (rule m_wfE)
  define m' where "m' = m\<lparr>m_buf := Some (overwrite 4 (enc_req_header h) b)\<rparr>"
  have m': "pack_req_header mem m h = Inr m'" "m_wf m'" "m_ind m' = m_ind m" "m_body m' = m_body m"
    using assms(1) b pack_req_header_eq m_wf_overwrite m_body_overwrite by (simp_all add: m'_def)
  have len: "24 \<le> m_ind m'" using m'(2) by (auto elim: m_wfE)
  define u where "u = (unmarshall_new (m_buf m') (m_ind m'))\<lparr>u_ind := 4\<rparr>"
  have "u_at u (enc_req_header h @ m_body m)"
    using u_at_message [of m' 4] assms m' len drop4_overwrite [OF assms(1) b, of "enc_req_header h"]
    by (simp add: u_def m'_def m_body_def)
  from readsD [OF reads_req_header this] have
    "unpack_req_header (unmarshall_new (m_buf m') (m_ind m')) = Inr ((advance 20 u)\<lparr>u_ind := 24\<rparr>, h)"
    by (simp add: unpack_req_header_bind u_def)
  moreover have "u_at ((advance 20 u)\<lparr>u_ind := 24\<rparr>) (m_body m)"
    using u_at_message [of m' 24] assms m' len
    by (simp add: u_def advance_def m_body_def unmarshall_new_def)
  ultimately show ?thesis using m' that by blast
qed

lemma reply_header_transfer:
  assumes "m_wf m" "m_ind m < 2 ^ 31"
  obtains m' u' where "pack_reply_header mem m h = Inr m'" "m_wf m'" "m_ind m' = m_ind m"
    "m_body m' = m_body m"
    "unpack_reply_header (unmarshall_new (m_buf m') (m_ind m')) = Inr (u', h)"
    "u_at u' (m_body m)"
proof -
  from assms(1) obtain b where b: "m_buf m = Some b" by (rule m_wfE)
  define m' where "m' = m\<lparr>m_buf := Some (overwrite 4 (enc_reply_header h) b)\<rparr>"
  have m': "pack_reply_header mem m h = Inr m'" "m_wf m'" "m_ind m' = m_ind m" "m_body m' = m_body m"
    using assms(1) b pack_reply_header_eq m_wf_overwrite m_body_overwrite by (simp_all add: m'_def)
  have len: "24 \<le> m_ind m'" using m'(2) by (auto elim: m_wfE)
  define u where "u = (unmarshall_new (m_buf m') (m_ind m'))\<lparr>u_ind := 4\<rparr>"
  have "u_at u (enc_reply_header h @ drop 12 (m_bytes m))"
    using u_at_message [of m' 4] assms m' len drop4_overwrite [OF assms(1) b, of "enc_reply_header h"]
    by (simp add: u_def m'_def)
  from readsD [OF reads_reply_header this] have
    "unpack_reply_header (unmarshall_new (m_buf m') (m_ind m')) = Inr ((advance 8 u)\<lparr>u_ind := 24\<rparr>, h)"
    by (simp add: unpack_reply_header_bind u_def)
  moreover have "u_at ((advance 8 u)\<lparr>u_ind := 24\<rparr>) (m_body m)"
    using u_at_message [of m' 24] assms m' len
    by (simp add: u_def advance_def m_body_def unmarshall_new_def)
  ultimately show ?thesis using m' that by blast
qed

section \<open>Messages as byte strings\<close>

text \<open>
  What is on the wire: four size bytes, which the connection fills in, the header padded to twenty
  bytes, the body.  The reader may sit on a larger block.
\<close>

definition req_msg :: "req_header \<Rightarrow> byte list \<Rightarrow> byte list \<Rightarrow> bool" where
  "req_msg h body bs \<longleftrightarrow> 4 \<le> length bs \<and> drop 4 bs = enc_req_header h @ body"

definition reply_msg :: "reply_header \<Rightarrow> byte list \<Rightarrow> byte list \<Rightarrow> bool" where
  "reply_msg h body bs \<longleftrightarrow> 24 \<le> length bs \<and> take 8 (drop 4 bs) = enc_reply_header h \<and> drop 24 bs = body"

lemma m_bytes_packed_req:
  assumes "m_wf m" "pack_req_header mem m h = Inr m'"
  shows "m_wf m'" "m_bytes m' = take 4 (m_bytes m) @ enc_req_header h @ m_body m" "m_ind m' = m_ind m"
proof -
  from assms(1) obtain b where b: "m_buf m = Some b" "length b = m_capa m" "m_ind m \<le> m_capa m" "24 \<le> m_ind m" by (rule m_wfE)
  have m': "m' = m\<lparr>m_buf := Some (overwrite 4 (enc_req_header h) b)\<rparr>"
    using assms pack_req_header_eq [OF assms(1) b(1)] by simp
  show "m_wf m'" using m_wf_overwrite [OF assms(1) b(1), of "enc_req_header h"] m' by simp
  show "m_ind m' = m_ind m" using m' by simp
  show "m_bytes m' = take 4 (m_bytes m) @ enc_req_header h @ m_body m"
    using b m' by (simp add: m_bytes_def m_body_def overwrite_def drop_take min_def)
qed

lemma m_bytes_packed_reply:
  assumes "m_wf m" "pack_reply_header mem m h = Inr m'"
  shows "m_wf m'" "m_bytes m' = take 4 (m_bytes m) @ enc_reply_header h @ take 12 (drop 12 (m_bytes m)) @ m_body m" "m_ind m' = m_ind m"
proof -
  from assms(1) obtain b where b: "m_buf m = Some b" "length b = m_capa m" "m_ind m \<le> m_capa m" "24 \<le> m_ind m" by (rule m_wfE)
  have m': "m' = m\<lparr>m_buf := Some (overwrite 4 (enc_reply_header h) b)\<rparr>"
    using assms pack_reply_header_eq [OF assms(1) b(1)] by simp
  show "m_wf m'" using m_wf_overwrite [OF assms(1) b(1), of "enc_reply_header h"] m' by simp
  show "m_ind m' = m_ind m" using m' by simp
  have "m_bytes m' = take 4 (m_bytes m) @ enc_reply_header h @ drop 12 (m_bytes m)"
    using b m' by (simp add: m_bytes_def overwrite_def drop_take min_def)
  moreover have "drop 12 (m_bytes m) = take 12 (drop 12 (m_bytes m)) @ drop 12 (drop 12 (m_bytes m))"
    by (rule append_take_drop_id [symmetric])
  ultimately show "m_bytes m' = take 4 (m_bytes m) @ enc_reply_header h @ take 12 (drop 12 (m_bytes m)) @ m_body m"
    by (simp add: m_body_def)
qed

lemma u_at_block: "length bs < 2 ^ 31 \<Longrightarrow> i \<le> length bs \<Longrightarrow>
    u_at ((unmarshall_new (Some (bs @ slack)) (length bs))\<lparr>u_ind := i\<rparr>) (drop i bs)"
  by (simp add: u_at_def unmarshall_new_def)

lemma unpack_req_message:
  assumes "length s4 = 4" "length (s4 @ enc_req_header h @ body) < 2 ^ 31"
  obtains u where "unpack_req_header (unmarshall_new (Some ((s4 @ enc_req_header h @ body) @ slack)) (length (s4 @ enc_req_header h @ body))) = Inr (u, h)"
    "u_at u body"
proof -
  let ?bs = "s4 @ enc_req_header h @ body"
  let ?u = "\<lambda>i. (unmarshall_new (Some (?bs @ slack)) (length ?bs))\<lparr>u_ind := i\<rparr>"
  have "u_at (?u 4) (enc_req_header h @ body)" using u_at_block [OF assms(2), of 4 slack] assms(1) by simp
  from readsD [OF reads_req_header this]
  have "unpack_req_header (unmarshall_new (Some (?bs @ slack)) (length ?bs)) = Inr ((advance 20 (?u 4))\<lparr>u_ind := 24\<rparr>, h)"
    by (simp add: unpack_req_header_bind)
  moreover have "u_at ((advance 20 (?u 4))\<lparr>u_ind := 24\<rparr>) body"
    using u_at_block [OF assms(2), of 24 slack] assms(1) by (simp add: advance_def unmarshall_new_def)
  ultimately show ?thesis using that by blast
qed

lemma unpack_reply_message:
  assumes "length s4 = 4" "length pad = 12" "length (s4 @ enc_reply_header h @ pad @ body) < 2 ^ 31"
  obtains u where "unpack_reply_header (unmarshall_new (Some ((s4 @ enc_reply_header h @ pad @ body) @ slack))
      (length (s4 @ enc_reply_header h @ pad @ body))) = Inr (u, h)" "u_at u body"
proof -
  let ?bs = "s4 @ enc_reply_header h @ pad @ body"
  let ?u = "\<lambda>i. (unmarshall_new (Some (?bs @ slack)) (length ?bs))\<lparr>u_ind := i\<rparr>"
  have "u_at (?u 4) (enc_reply_header h @ pad @ body)" using u_at_block [OF assms(3), of 4 slack] assms(1) by simp
  from readsD [OF reads_reply_header this]
  have "unpack_reply_header (unmarshall_new (Some (?bs @ slack)) (length ?bs)) = Inr ((advance 8 (?u 4))\<lparr>u_ind := 24\<rparr>, h)"
    by (simp add: unpack_reply_header_bind)
  moreover have "u_at ((advance 8 (?u 4))\<lparr>u_ind := 24\<rparr>) body"
    using u_at_block [OF assms(3), of 24 slack] assms(1,2) by (simp add: advance_def unmarshall_new_def)
  ultimately show ?thesis using that by blast
qed

lemma req_msg_unpack:
  assumes "req_msg h body bs" "length bs < 2 ^ 31"
  obtains u where "unpack_req_header (unmarshall_new (Some (bs @ slack)) (length bs)) = Inr (u, h)" "u_at u body"
proof -
  have "bs = take 4 bs @ enc_req_header h @ body" "length (take 4 bs) = 4"
    using assms(1) by (metis append_take_drop_id req_msg_def, simp add: req_msg_def)
  then show ?thesis using unpack_req_message [of "take 4 bs" h body slack] assms(2) that by metis
qed

lemma reply_msg_unpack:
  assumes "reply_msg h body bs" "length bs < 2 ^ 31"
  obtains u where "unpack_reply_header (unmarshall_new (Some (bs @ slack)) (length bs)) = Inr (u, h)" "u_at u body"
proof -
  have l: "length (take 4 bs) = 4" "length (take 12 (drop 12 bs)) = 12" using assms(1) by (auto simp: reply_msg_def)
  have "bs = take 4 bs @ take 8 (drop 4 bs) @ take 12 (drop 8 (drop 4 bs)) @ drop 12 (drop 8 (drop 4 bs))"
    by (simp only: append_take_drop_id)
  then have "bs = take 4 bs @ enc_reply_header h @ take 12 (drop 12 bs) @ body"
    using assms(1) by (simp add: reply_msg_def)
  then show ?thesis using unpack_reply_message [OF l, of h body slack] assms(2) that by metis
qed

text \<open>The reader that is left after the header, explicitly.\<close>

lemma reply_msg_reader:
  assumes "reply_msg h body bs" "length bs < 2 ^ 31"
  shows "unpack_reply_header (unmarshall_new (Some (bs @ slack)) (length bs)) =
      Inr (\<lparr>u_buf = Some (bs @ slack), u_sz = length bs, u_ind = 24, u_ok = True\<rparr>, h)"
    and "u_at \<lparr>u_buf = Some (bs @ slack), u_sz = length bs, u_ind = 24, u_ok = True\<rparr> body"
proof -
  let ?u = "(unmarshall_new (Some (bs @ slack)) (length bs))\<lparr>u_ind := 4\<rparr>"
  have l: "24 \<le> length bs" "drop 24 bs = body" "take 8 (drop 4 bs) = enc_reply_header h" using assms(1) by (simp_all add: reply_msg_def)
  have "drop 4 bs = enc_reply_header h @ drop 12 bs" using append_take_drop_id [of 8 "drop 4 bs"] l(3) by simp
  then have "u_at ?u (enc_reply_header h @ drop 12 bs)" using u_at_block [OF assms(2), of 4 slack] l(1) by simp
  from readsD [OF reads_reply_header this]
  show "unpack_reply_header (unmarshall_new (Some (bs @ slack)) (length bs)) =
      Inr (\<lparr>u_buf = Some (bs @ slack), u_sz = length bs, u_ind = 24, u_ok = True\<rparr>, h)"
    by (simp add: unpack_reply_header_bind advance_def unmarshall_new_def)
  show "u_at \<lparr>u_buf = Some (bs @ slack), u_sz = length bs, u_ind = 24, u_ok = True\<rparr> body"
    using l assms(2) by (simp add: u_at_def)
qed

lemma packed_req_msg:
  assumes "m_wf m" "pack_req_header mem m h = Inr m'"
  shows "req_msg h (m_body m) (m_bytes m')"
proof -
  have "24 \<le> m_ind m" using assms(1) by (rule m_wfE)
  then show ?thesis using m_bytes_packed_req [OF assms] assms(1) by (simp add: req_msg_def)
qed

lemma packed_reply_msg:
  assumes "m_wf m" "pack_reply_header mem m h = Inr m'"
  shows "reply_msg h (m_body m) (m_bytes m')"
proof -
  have "24 \<le> m_ind m" using assms(1) by (rule m_wfE)
  then show ?thesis using m_bytes_packed_reply [OF assms] assms(1) by (simp add: reply_msg_def)
qed

section \<open>Short and malformed input\<close>

text \<open>The block covers the size the reader was told; a null block has size 0.\<close>

definition u_wf :: "unmarshall \<Rightarrow> bool" where
  "u_wf u \<longleftrightarrow> (case u_buf u of None \<Rightarrow> u_sz u = 0 | Some b \<Rightarrow> u_sz u \<le> length b)"

lemma u_at_wf: "u_at u bs \<Longrightarrow> u_wf u"
  by (auto simp: u_at_def u_wf_def split: option.splits)

definition total_read :: "(unmarshall \<Rightarrow> (unmarshall \<times> 'a) result) \<Rightarrow> nat \<Rightarrow> bool" where
  "total_read g n \<longleftrightarrow>
     (\<forall>u. u_wf u \<longrightarrow> (\<exists>u' x. g u = Inr (u', x) \<and> u_buf u' = u_buf u \<and> u_sz u' = u_sz u \<and>
        u_ok u' = (u_ok u \<and> u_ind u + n \<le> u_sz u) \<and>
        u_ind u' = (if u_ind u + n \<le> u_sz u then u_ind u + n else max (u_ind u) (u_sz u))))"

lemma total_readE:
  assumes "total_read g n" "u_wf u"
  obtains u' x where "g u = Inr (u', x)" "u_wf u'" "u_buf u' = u_buf u" "u_sz u' = u_sz u"
    "u_ok u' = (u_ok u \<and> u_ind u + n \<le> u_sz u)"
    "u_ind u' = (if u_ind u + n \<le> u_sz u then u_ind u + n else max (u_ind u) (u_sz u))"
  using assms unfolding total_read_def u_wf_def by metis

lemma total_read_rawbyte: "total_read u_rawbyte 1"
  by (auto simp: total_read_def u_rawbyte_def u_wf_def split: option.splits)

lemma total_read_map: "total_read g n \<Longrightarrow> total_read (\<lambda>u. bind_r (g u) (\<lambda>(u, x). Inr (u, f x))) n"
  unfolding total_read_def by fastforce

lemma total_read_bind:
  assumes g: "total_read g n" and h: "\<And>x. total_read (h x) k"
  shows "total_read (\<lambda>u. bind_r (g u) (\<lambda>(u, x). h x u)) (n + k)"
  unfolding total_read_def
proof (intro allI impI)
  fix u assume "u_wf u"
  then obtain u1 x where u1: "g u = Inr (u1, x)" "u_wf u1" "u_buf u1 = u_buf u" "u_sz u1 = u_sz u"
    "u_ok u1 = (u_ok u \<and> u_ind u + n \<le> u_sz u)"
    "u_ind u1 = (if u_ind u + n \<le> u_sz u then u_ind u + n else max (u_ind u) (u_sz u))"
    by (rule total_readE [OF g])
  obtain u2 y where "h x u1 = Inr (u2, y)" "u_buf u2 = u_buf u1" "u_sz u2 = u_sz u1"
    "u_ok u2 = (u_ok u1 \<and> u_ind u1 + k \<le> u_sz u1)"
    "u_ind u2 = (if u_ind u1 + k \<le> u_sz u1 then u_ind u1 + k else max (u_ind u1) (u_sz u1))"
    by (rule total_readE [OF h u1(2)])
  with u1 show "\<exists>u' y. bind_r (g u) (\<lambda>(u, x). h x u) = Inr (u', y) \<and> u_buf u' = u_buf u \<and>
      u_sz u' = u_sz u \<and> u_ok u' = (u_ok u \<and> u_ind u + (n + k) \<le> u_sz u) \<and>
      u_ind u' = (if u_ind u + (n + k) \<le> u_sz u then u_ind u + (n + k) else max (u_ind u) (u_sz u))"
    by (auto simp: max_def split: if_splits)
qed

lemma total_read_unpack: "total_read unpack 4"
proof -
  have "total_read unpack (1 + (1 + (1 + 1)))"
    unfolding unpack_def
    by (intro total_read_bind total_read_map total_read_rawbyte)
  then show ?thesis by (simp add: numeral_eq_Suc)
qed

lemma unpack_req_header_total:
  assumes "u_wf u"
  obtains u' h where "unpack_req_header u = Inr (u', h)" "u_ok u' \<longleftrightarrow> u_ok u \<and> 24 \<le> u_sz u"
    "u_ind u' = 24" "u_sz u' = u_sz u" "u_buf u' = u_buf u"
proof -
  let ?g = "\<lambda>u. bind_r (unpack u) (\<lambda>(u, x). bind_r (unpack u) (\<lambda>(u, p). bind_r (unpack u) (\<lambda>(u, c).
      bind_r (unpack u) (\<lambda>(u, s). bind_r (unpack u) (\<lambda>(u, xi). Inr (u,
        \<lparr>rq_xid = x, rq_proc = p, rq_clt_nonce = c, rq_srv_nonce = s, rq_xid_rep = xi\<rparr>))))))"
  have g: "total_read ?g (4 + (4 + (4 + (4 + 4))))"
    by (intro total_read_bind total_read_map total_read_unpack)
  have "u_wf (u\<lparr>u_ind := 4\<rparr>)" using assms by (simp add: u_wf_def split: option.splits)
  then obtain u1 h where "?g (u\<lparr>u_ind := 4\<rparr>) = Inr (u1, h)"
      "u_buf u1 = u_buf (u\<lparr>u_ind := 4\<rparr>)" "u_sz u1 = u_sz (u\<lparr>u_ind := 4\<rparr>)"
      "u_ok u1 = (u_ok (u\<lparr>u_ind := 4\<rparr>) \<and>
         u_ind (u\<lparr>u_ind := 4\<rparr>) + (4 + (4 + (4 + (4 + 4)))) \<le> u_sz (u\<lparr>u_ind := 4\<rparr>))"
    by (rule total_readE [OF g])
  then show ?thesis using that [of "u1\<lparr>u_ind := 24\<rparr>" h] by (simp add: unpack_req_header_bind)
qed

lemma unpack_reply_header_total:
  assumes "u_wf u"
  obtains u' h where "unpack_reply_header u = Inr (u', h)" "u_ok u' \<longleftrightarrow> u_ok u \<and> 12 \<le> u_sz u"
    "u_ind u' = 24" "u_sz u' = u_sz u" "u_buf u' = u_buf u"
proof -
  let ?g = "\<lambda>u. bind_r (unpack u) (\<lambda>(u, x). bind_r (unpack u) (\<lambda>(u, r).
      Inr (u, \<lparr>rp_xid = x, rp_ret = r\<rparr>)))"
  have g: "total_read ?g (4 + 4)"
    by (intro total_read_bind total_read_map total_read_unpack)
  have "u_wf (u\<lparr>u_ind := 4\<rparr>)" using assms by (simp add: u_wf_def split: option.splits)
  then obtain u1 h where "?g (u\<lparr>u_ind := 4\<rparr>) = Inr (u1, h)"
      "u_buf u1 = u_buf (u\<lparr>u_ind := 4\<rparr>)" "u_sz u1 = u_sz (u\<lparr>u_ind := 4\<rparr>)"
      "u_ok u1 = (u_ok (u\<lparr>u_ind := 4\<rparr>) \<and>
         u_ind (u\<lparr>u_ind := 4\<rparr>) + (4 + 4) \<le> u_sz (u\<lparr>u_ind := 4\<rparr>))"
    by (rule total_readE [OF g])
  then show ?thesis using that [of "u1\<lparr>u_ind := 24\<rparr>" h] by (simp add: unpack_reply_header_bind)
qed

text \<open>
  The comparison of \<open>unmarshall::rawbytes\<close>, read over the naturals: the sum is taken
  modulo \<open>2\<^sup>3\<^sup>2\<close>, so a count that wraps is below the size again.
\<close>

lemma rawbytes_check:
  fixes n :: u32
  assumes "i \<le> sz" "sz < 2 ^ 31"
  shows "(of_nat i + n > of_nat sz) \<longleftrightarrow> sz < i + unat n \<and> i + unat n < 2 ^ 32"
proof -
  have "unat (of_nat i + n) = (i + unat n) mod 2 ^ 32"
    using assms by (simp add: unat_word_ariths unat_of_nat_small)
  moreover have "unat (of_nat sz :: u32) = sz" using assms by (simp add: unat_of_nat_small)
  moreover have "unat n < 2 ^ 32" using unsigned_less [of n] by simp
  ultimately show ?thesis using assms
    by (auto simp: word_less_nat_alt mod_if)
qed

text \<open>a request header survives the wire. Packing the header of any request into a
  well-formed message and unpacking it on the other side yields the same header, without
  moving or changing a byte of the arguments behind it.\<close>

theorem req_header_roundtrip:
  assumes "m_wf m" "m_ind m < 2 ^ 31"
  shows "\<exists>m' u'. pack_req_header mem m h = Inr m' \<and> m_body m' = m_body m \<and> m_size m' = m_size m \<and>
           unpack_req_header (unmarshall_new (m_buf m') (m_size m')) = Inr (u', h) \<and>
           u_at u' (m_body m)"
  using req_header_transfer [OF assms] by (metis m_size_def)

theorem req_header_roundtrip_witness:
  "\<exists>m' u'. pack_req_header (\<lambda>_. 7) (marshall_new (\<lambda>_. 7))
       \<lparr>rq_xid = 1, rq_proc = 2, rq_clt_nonce = 3, rq_srv_nonce = 4, rq_xid_rep = 5\<rparr> = Inr m' \<and>
     unpack_req_header (unmarshall_new (m_buf m') (m_size m')) = Inr (u',
       \<lparr>rq_xid = 1, rq_proc = 2, rq_clt_nonce = 3, rq_srv_nonce = 4, rq_xid_rep = 5\<rparr>)"
proof -
  have "m_ind (marshall_new (\<lambda>_. 7)) < 2 ^ 31" by (simp add: marshall_new_def)
  from req_header_roundtrip [OF m_wf_new this] show ?thesis by blast
qed

text \<open>a reply header survives the wire, although it is shorter than the space kept for
  it: the reader skips to the body at the same offset as for a request.\<close>

theorem reply_header_roundtrip:
  assumes "m_wf m" "m_ind m < 2 ^ 31"
  shows "\<exists>m' u'. pack_reply_header mem m h = Inr m' \<and> m_body m' = m_body m \<and> m_size m' = m_size m \<and>
           unpack_reply_header (unmarshall_new (m_buf m') (m_size m')) = Inr (u', h) \<and>
           u_at u' (m_body m)"
  using reply_header_transfer [OF assms] by (metis m_size_def)

theorem reply_header_roundtrip_witness:
  "\<exists>m' u'. pack_reply_header (\<lambda>_. 7) (marshall_new (\<lambda>_. 7)) \<lparr>rp_xid = 9, rp_ret = -4\<rparr> = Inr m' \<and>
     unpack_reply_header (unmarshall_new (m_buf m') (m_size m')) = Inr (u', \<lparr>rp_xid = 9, rp_ret = -4\<rparr>)"
proof -
  have "m_ind (marshall_new (\<lambda>_. 7)) < 2 ^ 31" by (simp add: marshall_new_def)
  from reply_header_roundtrip [OF m_wf_new this] show ?thesis by blast
qed

text \<open>Header unpacking is total. On a block of any length and content the two header
  readers return, and \<open>ok\<close> says whether the header was there: 24 bytes for a request, 12 for
  a reply (its own 8 and the size).\<close>

theorem headers_of_any_block:
  "\<exists>u h v k. unpack_req_header (unmarshall_new (Some b) (length b)) = Inr (u, h) \<and>
     (u_ok u \<longleftrightarrow> RPC_HEADER_SZ \<le> length b) \<and>
     unpack_reply_header (unmarshall_new (Some b) (length b)) = Inr (v, k) \<and>
     (u_ok v \<longleftrightarrow> 12 \<le> length b)"
proof -
  let ?u = "unmarshall_new (Some b) (length b)"
  have wf: "u_wf ?u" "u_ok ?u" "u_sz ?u = length b" by (simp_all add: u_wf_def unmarshall_new_def)
  obtain u h where "unpack_req_header ?u = Inr (u, h)" "u_ok u \<longleftrightarrow> 24 \<le> length b"
    using unpack_req_header_total [OF wf(1)] wf by metis
  moreover obtain v k where "unpack_reply_header ?u = Inr (v, k)" "u_ok v \<longleftrightarrow> 12 \<le> length b"
    using unpack_reply_header_total [OF wf(1)] wf by metis
  ultimately show ?thesis by simp
qed

text \<open>C29: every outcome of reading a string, for a count \<open>n\<close> that the peer chose. If the bytes are
  there they are the string; if they are not, \<open>ok\<close> is cleared and the string keeps its old
  value, unless the count is so large that the bound check wraps around: then the reader is
  past the end of the block.\<close>

theorem get_string_outcome:
  assumes "u_at u (be32 n @ rest)" "u_buf u = Some b" "length b = u_sz u"
  shows "get_string u s =
     (if unat n \<le> length rest then Inr (advance (4 + unat n) u, take (unat n) rest)
      else if u_ind u + 4 + unat n < 2 ^ 32 then Inr ((advance 4 u)\<lparr>u_ok := False\<rparr>, s)
      else Inl Out_Of_Bounds)"
proof -
  let ?v = "advance 4 u"
  have get: "get_uint u 0 = Inr (?v, n)" using readsD [OF reads_uint assms(1)] by simp
  have at: "u_at ?v rest" using u_at_advance [OF assms(1)] by simp
  have len: "u_ind ?v + length rest = u_sz u" "u_sz u < 2 ^ 31" "u_ok ?v"
    using u_at_length [OF at] at by (simp_all add: u_at_def)
  have rest: "drop (u_ind ?v) b = rest"
    using at assms(2,3) by (simp add: u_at_def)
  have check: "(of_nat (u_ind ?v) + n > of_nat (u_sz ?v)) \<longleftrightarrow>
      length rest < unat n \<and> u_ind u + 4 + unat n < 2 ^ 32"
    using rawbytes_check [of "u_ind ?v" "u_sz u" n] len by auto
  have "u_rawbytes ?v s n =
     (if length rest < unat n \<and> u_ind u + 4 + unat n < 2 ^ 32 then Inr (?v\<lparr>u_ok := False\<rparr>, s)
      else if u_ind ?v + unat n \<le> length b
           then Inr (?v\<lparr>u_ind := u_ind ?v + unat n\<rparr>, take (unat n) (drop (u_ind ?v) b))
           else Inl Out_Of_Bounds)"
    unfolding u_rawbytes_def check using assms(2) by simp
  moreover have "(u_ind ?v + unat n \<le> length b) = (unat n \<le> length rest)"
    using len(1) assms(3) by auto
  moreover have "?v\<lparr>u_ind := u_ind ?v + unat n\<rparr> = advance (4 + unat n) u"
    by (simp add: advance_def)
  ultimately show ?thesis using get len(3) rest by (simp add: get_string_def)
qed

theorem get_string_outcome_witness:
  "get_string \<lparr>u_buf = Some (replicate 24 0 @ be32 0xFFFFFFFF), u_sz = 28, u_ind = 24, u_ok = True\<rparr> []
     = Inl Out_Of_Bounds"
proof -
  let ?u = "\<lparr>u_buf = Some (replicate 24 0 @ be32 0xFFFFFFFF), u_sz = 28, u_ind = 24, u_ok = True\<rparr>"
  have "u_at ?u (be32 0xFFFFFFFF @ [])" by (simp add: u_at_def)
  then show ?thesis
    by (subst get_string_outcome [of ?u "0xFFFFFFFF" "[]" "replicate 24 0 @ be32 0xFFFFFFFF"]) simp_all
qed

section \<open>Reading back what was written\<close>

text \<open>A reader of the message in a writer, at a position.\<close>

definition reader_at :: "nat \<Rightarrow> marshall \<Rightarrow> unmarshall" where
  "reader_at i m = (unmarshall_new (m_buf m) (m_size m))\<lparr>u_ind := i\<rparr>"

text \<open>
  The pair of operators is inverse on \<open>x\<close>, which takes \<open>n\<close> bytes: written behind any message and followed by
  anything, it is read back, and the reader stands behind it.  \<open>old\<close> is what the variable held that it is read into.
\<close>

definition inverse_on ::
    "(memory \<Rightarrow> marshall \<Rightarrow> 'a \<Rightarrow> marshall result) \<Rightarrow> (unmarshall \<Rightarrow> 'b \<Rightarrow> (unmarshall \<times> 'b) result) \<Rightarrow> nat \<Rightarrow> 'a \<Rightarrow> 'b \<Rightarrow> 'b \<Rightarrow> bool" where
  "inverse_on put get n x y old \<longleftrightarrow>
     (\<forall>mem m. m_wf m \<and> m_ind m + n < 2 ^ 30 \<longrightarrow>
        (\<exists>m'. put mem m x = Inr m' \<and> m_size m' = m_size m + n \<and>
           (\<forall>w. m_wf w \<and> m_size w < 2 ^ 31 \<and> take (m_size m') (m_bytes w) = m_bytes m' \<longrightarrow>
              get (reader_at (m_size m) w) old = Inr (reader_at (m_size m') w, y))))"

lemma inverse_onI:
  assumes "\<And>mem. writes (\<lambda>m. put mem m x) bs" "reads (\<lambda>u. get u old) bs y"
  shows "inverse_on put get (length bs) x y old"
  unfolding inverse_on_def
proof (intro allI impI)
  fix mem m assume m: "m_wf m \<and> m_ind m + length bs < 2 ^ 30"
  then obtain m' where m': "put mem m x = Inr m'" "m_wf m'" "m_bytes m' = m_bytes m @ bs" "m_ind m' = m_ind m + length bs"
    using writesE [OF assms(1)] by metis
  have "get (reader_at (m_size m) w) old = Inr (reader_at (m_size m') w, y)"
    if w: "m_wf w" "m_size w < 2 ^ 31" "take (m_size m') (m_bytes w) = m_bytes m'" for w
  proof -
    have len: "length (take (m_ind m') (m_bytes w)) = m_ind m'" using w(3) m'(2) by (simp add: m_size_def)
    then have le: "m_ind m \<le> m_ind w" using w(1) m'(4) by simp
    have "m_bytes w = m_bytes m' @ drop (m_ind m') (m_bytes w)" using w(3) by (metis append_take_drop_id m_size_def)
    then have "drop (m_ind m) (m_bytes w) = bs @ drop (m_ind m') (m_bytes w)" using m m'(3)
      by (metis append.assoc append_eq_conv_conj length_m_bytes)
    moreover have "u_at (reader_at (m_ind m) w) (drop (m_ind m) (m_bytes w))"
      using u_at_message [OF w(1) _ le] w(2) by (simp add: reader_at_def m_size_def)
    ultimately have "get (reader_at (m_ind m) w) old = Inr (advance (length bs) (reader_at (m_ind m) w), y)"
      using readsD [OF assms(2)] by simp
    then show ?thesis by (simp add: reader_at_def advance_def m_size_def m'(4))
  qed
  then show "\<exists>m'. put mem m x = Inr m' \<and> m_size m' = m_size m + length bs \<and>
      (\<forall>w. m_wf w \<and> m_size w < 2 ^ 31 \<and> take (m_size m') (m_bytes w) = m_bytes m' \<longrightarrow>
         get (reader_at (m_size m) w) old = Inr (reader_at (m_size m') w, y))"
    using m' by (auto simp: m_size_def)
qed

lemma codec_inverse:
  assumes "codec e f fr p g" "f x" "fr old"
  shows "inverse_on p g (length (e x)) x x old"
  by (rule inverse_onI) (use codec.put_writes [OF assms(1,2)] codec.get_reads [OF assms] in simp_all)

lemma vector_inverse:
  assumes "codec e f fr p g" "fr z" "\<forall>x\<in>set v. f x" "length v < 2 ^ 32"
  shows "inverse_on (put_vector p) (get_vector g z) (length (enc_vector e v)) v (old @ v) old"
proof -
  have ok: "ok_vector f v" using assms(3,4) by (simp add: ok_vector_def list_all_iff)
  have V: "vector_codec e f fr p g z" using assms(1,2) by (simp add: vector_codec_def vector_codec_axioms_def)
  show ?thesis by (rule inverse_onI) (rule vector_codec.writes_vector [OF V ok] vector_codec.reads_vector [OF V ok])+
qed

lemma map_inverse:
  assumes "codec e f fr p g" "fr a0" "codec e' f' fr' p' g'" "fr' b0" "\<forall>(a, b)\<in>set d. f a \<and> f' b" "length d < 2 ^ 32" "distinct (map fst d)"
  shows "inverse_on (put_map p p') (get_map g a0 g' b0) (length (enc_map e e' d)) d (map_of d) old"
proof -
  have M: "map_codec e f fr p g e' f' fr' p' g' a0 b0" using assms(1-4) by (simp add: map_codec_def map_codec_axioms_def)
  show ?thesis by (rule inverse_onI) (rule map_codec.writes_map [OF M assms(5)] map_codec.reads_map [OF M assms(5-7)])+
qed

text \<open>
  C25: the operators \<open><<\<close> and \<open>>>\<close> are inverse.  For \<open>bool\<close>, the characters, the integers of 16, 32 and 64 bits and
  strings: a value written behind any message and followed by anything else is read back, whatever the variable held
  before, and the reader stands at the byte behind it.  The template for vectors is inverse when the operators of its
  elements are -- it appends to the vector that it reads into -- and so is the one for maps, whose result is the map alone.
\<close>

theorem operators_inverse:
  shows "inverse_on put_bool get_bool 1 b b b0 \<and> inverse_on put_uchar get_uchar 1 c c c0 \<and> inverse_on put_char get_char 1 c c c0 \<and>
      inverse_on put_ushort get_ushort 2 s s s0 \<and> inverse_on put_short get_short 2 s s s0 \<and>
      inverse_on put_uint get_uint 4 i i i0 \<and> inverse_on put_int get_int 4 i i i0 \<and> inverse_on put_ullong get_ullong 8 l l l0 \<and>
      inverse_on put_string get_string (4 + length str) str str str0 \<and>
      (codec e f fr p g \<and> fr z \<and> (\<forall>x\<in>set v. f x) \<and> length v < 2 ^ 32 \<longrightarrow>
         inverse_on (put_vector p) (get_vector g z) (4 + (\<Sum>x\<leftarrow>v. length (e x))) v (v0 @ v) v0) \<and>
      (codec e f fr p g \<and> fr a0 \<and> codec e' f' fr' p' g' \<and> fr' d0 \<and> (\<forall>(a, d)\<in>set m. f a \<and> f' d) \<and> length m < 2 ^ 32 \<and> distinct (map fst m) \<longrightarrow>
         inverse_on (put_map p p') (get_map g a0 g' d0) (4 + (\<Sum>x\<leftarrow>m. length (e (fst x)) + length (e' (snd x)))) m (map_of m) m0)"
proof (intro conjI impI)
  show "inverse_on put_bool get_bool 1 b b b0" "inverse_on put_uchar get_uchar 1 c c c0" "inverse_on put_char get_char 1 c c c0"
    "inverse_on put_ushort get_ushort 2 s s s0" "inverse_on put_short get_short 2 s s s0" "inverse_on put_uint get_uint 4 i i i0"
    "inverse_on put_int get_int 4 i i i0" "inverse_on put_ullong get_ullong 8 l l l0" "inverse_on put_string get_string (4 + length str) str str str0"
    using codec_inverse [OF bool_codec.codec_axioms, of b b0] codec_inverse [OF uchar_codec.codec_axioms, of c c0]
      codec_inverse [OF char_codec.codec_axioms, of c c0] codec_inverse [OF ushort_codec.codec_axioms, of s s0]
      codec_inverse [OF short_codec.codec_axioms, of s s0] codec_inverse [OF uint_codec.codec_axioms, of i i0]
      codec_inverse [OF int_codec.codec_axioms, of i i0] codec_inverse [OF ullong_codec.codec_axioms, of l l0]
      codec_inverse [OF string_codec.codec_axioms, of str str0]
    by (simp_all add: enc_string_def)
qed (use vector_inverse map_inverse in \<open>auto simp: enc_vector_def enc_map_def length_concat o_def split_beta\<close>)

theorem operators_inverse_witness:
  "inverse_on (put_vector put_int) (get_vector get_int 0) 12 [7, 8] [5, 7, 8] [5] \<and>
   inverse_on (put_map put_int put_string) (get_map get_int 0 get_string []) 14 [(3, [65, 66])] [3 \<mapsto> [65, 66]] Map.empty"
  using operators_inverse [of True True 0 0 0 0 0 0 0 0 "[]" "[]" be32 "\<lambda>_. True" "\<lambda>_. True" put_int get_int 0 "[7, 8]" "[5]" 0 enc_string "\<lambda>_. True" "\<lambda>_. True"
      put_string get_string "[]" "[(3, [65, 66])]" Map.empty] int_codec.codec_axioms string_codec.codec_axioms
  by (simp add: enc_string_def)

end
