(* ===== verification/Stubs.thy ===== *)
theory Stubs
  imports Wire
begin

text \<open>
  The call and registration templates of \<^verbatim>\<open>rpc/rpc.h\<close>: the client stubs \<open>rpcc::call\<close> with zero to
  seven arguments, \<open>rpcc::call_m\<close>, and the handlers that \<open>rpcs::reg\<close> makes of a method with one to
  seven arguments.

  A template parameter is an operator pair of theory \<open>Codec\<close>.  \<open>z1\<close> to \<open>z7\<close> and \<open>r0\<close> are the values
  of the variables that the templates declare without initialising them.  \<open>call1\<close>, which sends the
  request and waits for the reply, is an argument: it gives the status, the reader it left in
  \<open>u\<close> and the new state.  A method is a function of its arguments and the state of its object; its result is
  the status and the value of \<open>r\<close>.

  Pairs of operators are operators on pairs (locale \<open>pair_codec\<close>), so that one proof serves
  every number of arguments.
\<close>

section \<open>Status codes\<close>

definition rpc_bind :: u32 where "rpc_bind = 1"
definition timeout_failure :: i32 where "timeout_failure = - 1"
definition unmarshal_args_failure :: i32 where "unmarshal_args_failure = - 2"
definition unmarshal_reply_failure :: i32 where "unmarshal_reply_failure = - 3"
definition atmostonce_failure :: i32 where "atmostonce_failure = - 4"
definition oldsrv_failure :: i32 where "oldsrv_failure = - 5"
definition bind_failure :: i32 where "bind_failure = - 6"
definition cancel_failure :: i32 where "cancel_failure = - 7"

lemmas rpc_const_defs = rpc_bind_def timeout_failure_def unmarshal_args_failure_def unmarshal_reply_failure_def
  atmostonce_failure_def oldsrv_failure_def bind_failure_def cancel_failure_def

section \<open>The client stubs\<close>

type_synonym 'a putter = "memory \<Rightarrow> marshall \<Rightarrow> 'a \<Rightarrow> marshall result"
type_synonym 'a getter = "unmarshall \<Rightarrow> 'a \<Rightarrow> (unmarshall \<times> 'a) result"
type_synonym 's caller1 = "u32 \<Rightarrow> marshall \<Rightarrow> 's \<Rightarrow> (i32 \<times> unmarshall \<times> 's) result"

definition call_m :: "'s caller1 \<Rightarrow> 'r getter \<Rightarrow> u32 \<Rightarrow> marshall \<Rightarrow> 'r \<Rightarrow> 's \<Rightarrow> (i32 \<times> 'r \<times> 's) result" where
  "call_m call1 get_r proc req r0 s =
     bind_r (call1 proc req s) (\<lambda>(intret, u, s).
     if sint intret < 0 then Inr (intret, r0, s)
     else bind_r (get_r u r0) (\<lambda>(u, r). bind_r (VERIFY (okdone u)) (\<lambda>_. Inr (intret, r, s))))"

definition call_0 :: "memory \<Rightarrow> 's caller1 \<Rightarrow> 'r getter \<Rightarrow> u32 \<Rightarrow> 'r \<Rightarrow> 's \<Rightarrow> (i32 \<times> 'r \<times> 's) result" where
  "call_0 mem call1 get_r proc r0 s = call_m call1 get_r proc (marshall_new mem) r0 s"

definition call_1 ::
    "memory \<Rightarrow> 's caller1 \<Rightarrow> 'a putter \<Rightarrow> 'r getter \<Rightarrow> u32 \<Rightarrow> 'a \<Rightarrow> 'r \<Rightarrow> 's \<Rightarrow> (i32 \<times> 'r \<times> 's) result" where
  "call_1 mem call1 p1 get_r proc a1 r0 s =
     (let m = marshall_new mem in
      bind_r (p1 mem m a1) (\<lambda>m.
      call_m call1 get_r proc m r0 s))"

definition call_2 ::
    "memory \<Rightarrow> 's caller1 \<Rightarrow> 'a putter \<Rightarrow> 'b putter \<Rightarrow> 'r getter \<Rightarrow> u32 \<Rightarrow> 'a \<Rightarrow> 'b \<Rightarrow> 'r \<Rightarrow> 's \<Rightarrow> (i32 \<times> 'r \<times> 's) result" where
  "call_2 mem call1 p1 p2 get_r proc a1 a2 r0 s =
     (let m = marshall_new mem in
      bind_r (p1 mem m a1) (\<lambda>m.
      bind_r (p2 mem m a2) (\<lambda>m.
      call_m call1 get_r proc m r0 s)))"

definition call_3 ::
    "memory \<Rightarrow> 's caller1 \<Rightarrow> 'a putter \<Rightarrow> 'b putter \<Rightarrow> 'c putter \<Rightarrow> 'r getter \<Rightarrow> u32 \<Rightarrow> 'a \<Rightarrow> 'b \<Rightarrow> 'c \<Rightarrow> 'r \<Rightarrow> 's \<Rightarrow> (i32 \<times> 'r \<times> 's) result" where
  "call_3 mem call1 p1 p2 p3 get_r proc a1 a2 a3 r0 s =
     (let m = marshall_new mem in
      bind_r (p1 mem m a1) (\<lambda>m.
      bind_r (p2 mem m a2) (\<lambda>m.
      bind_r (p3 mem m a3) (\<lambda>m.
      call_m call1 get_r proc m r0 s))))"

definition call_4 ::
    "memory \<Rightarrow> 's caller1 \<Rightarrow> 'a putter \<Rightarrow> 'b putter \<Rightarrow> 'c putter \<Rightarrow> 'd putter \<Rightarrow> 'r getter \<Rightarrow> u32 \<Rightarrow> 'a \<Rightarrow> 'b \<Rightarrow> 'c \<Rightarrow> 'd \<Rightarrow> 'r \<Rightarrow> 's \<Rightarrow> (i32 \<times> 'r \<times> 's) result" where
  "call_4 mem call1 p1 p2 p3 p4 get_r proc a1 a2 a3 a4 r0 s =
     (let m = marshall_new mem in
      bind_r (p1 mem m a1) (\<lambda>m.
      bind_r (p2 mem m a2) (\<lambda>m.
      bind_r (p3 mem m a3) (\<lambda>m.
      bind_r (p4 mem m a4) (\<lambda>m.
      call_m call1 get_r proc m r0 s)))))"

definition call_5 ::
    "memory \<Rightarrow> 's caller1 \<Rightarrow> 'a putter \<Rightarrow> 'b putter \<Rightarrow> 'c putter \<Rightarrow> 'd putter \<Rightarrow> 'e putter \<Rightarrow> 'r getter \<Rightarrow> u32 \<Rightarrow> 'a \<Rightarrow> 'b \<Rightarrow> 'c \<Rightarrow> 'd \<Rightarrow> 'e \<Rightarrow> 'r \<Rightarrow> 's \<Rightarrow> (i32 \<times> 'r \<times> 's) result" where
  "call_5 mem call1 p1 p2 p3 p4 p5 get_r proc a1 a2 a3 a4 a5 r0 s =
     (let m = marshall_new mem in
      bind_r (p1 mem m a1) (\<lambda>m.
      bind_r (p2 mem m a2) (\<lambda>m.
      bind_r (p3 mem m a3) (\<lambda>m.
      bind_r (p4 mem m a4) (\<lambda>m.
      bind_r (p5 mem m a5) (\<lambda>m.
      call_m call1 get_r proc m r0 s))))))"

definition call_6 ::
    "memory \<Rightarrow> 's caller1 \<Rightarrow> 'a putter \<Rightarrow> 'b putter \<Rightarrow> 'c putter \<Rightarrow> 'd putter \<Rightarrow> 'e putter \<Rightarrow> 'f putter \<Rightarrow> 'r getter \<Rightarrow> u32 \<Rightarrow> 'a \<Rightarrow> 'b \<Rightarrow> 'c \<Rightarrow> 'd \<Rightarrow> 'e \<Rightarrow> 'f \<Rightarrow> 'r \<Rightarrow> 's \<Rightarrow> (i32 \<times> 'r \<times> 's) result" where
  "call_6 mem call1 p1 p2 p3 p4 p5 p6 get_r proc a1 a2 a3 a4 a5 a6 r0 s =
     (let m = marshall_new mem in
      bind_r (p1 mem m a1) (\<lambda>m.
      bind_r (p2 mem m a2) (\<lambda>m.
      bind_r (p3 mem m a3) (\<lambda>m.
      bind_r (p4 mem m a4) (\<lambda>m.
      bind_r (p5 mem m a5) (\<lambda>m.
      bind_r (p6 mem m a6) (\<lambda>m.
      call_m call1 get_r proc m r0 s)))))))"

definition call_7 ::
    "memory \<Rightarrow> 's caller1 \<Rightarrow> 'a putter \<Rightarrow> 'b putter \<Rightarrow> 'c putter \<Rightarrow> 'd putter \<Rightarrow> 'e putter \<Rightarrow> 'f putter \<Rightarrow> 'g putter \<Rightarrow> 'r getter \<Rightarrow> u32 \<Rightarrow> 'a \<Rightarrow> 'b \<Rightarrow> 'c \<Rightarrow> 'd \<Rightarrow> 'e \<Rightarrow> 'f \<Rightarrow> 'g \<Rightarrow> 'r \<Rightarrow> 's \<Rightarrow> (i32 \<times> 'r \<times> 's) result" where
  "call_7 mem call1 p1 p2 p3 p4 p5 p6 p7 get_r proc a1 a2 a3 a4 a5 a6 a7 r0 s =
     (let m = marshall_new mem in
      bind_r (p1 mem m a1) (\<lambda>m.
      bind_r (p2 mem m a2) (\<lambda>m.
      bind_r (p3 mem m a3) (\<lambda>m.
      bind_r (p4 mem m a4) (\<lambda>m.
      bind_r (p5 mem m a5) (\<lambda>m.
      bind_r (p6 mem m a6) (\<lambda>m.
      bind_r (p7 mem m a7) (\<lambda>m.
      call_m call1 get_r proc m r0 s))))))))"

section \<open>The handlers of the server\<close>

type_synonym 's handler = "memory \<Rightarrow> unmarshall \<Rightarrow> marshall \<Rightarrow> 's \<Rightarrow> (i32 \<times> marshall \<times> 's) result"

definition h_fn1 ::
    "'a getter \<Rightarrow> 'a \<Rightarrow> 'r putter \<Rightarrow> ('a \<Rightarrow> 's \<Rightarrow> (i32 \<times> 'r \<times> 's) result) \<Rightarrow> 's handler" where
  "h_fn1 g1 z1 put_r meth mem args ret s =
     bind_r (g1 args z1) (\<lambda>(args, a1).
     if \<not> okdone args then Inr (unmarshal_args_failure, ret, s)
     else bind_r (meth a1 s) (\<lambda>(b, r, s). bind_r (put_r mem ret r) (\<lambda>ret. Inr (b, ret, s))))"

definition h_fn2 ::
    "'a getter \<Rightarrow> 'b getter \<Rightarrow> 'a \<Rightarrow> 'b \<Rightarrow> 'r putter \<Rightarrow> ('a \<Rightarrow> 'b \<Rightarrow> 's \<Rightarrow> (i32 \<times> 'r \<times> 's) result) \<Rightarrow> 's handler" where
  "h_fn2 g1 g2 z1 z2 put_r meth mem args ret s =
     bind_r (g1 args z1) (\<lambda>(args, a1).
     bind_r (g2 args z2) (\<lambda>(args, a2).
     if \<not> okdone args then Inr (unmarshal_args_failure, ret, s)
     else bind_r (meth a1 a2 s) (\<lambda>(b, r, s). bind_r (put_r mem ret r) (\<lambda>ret. Inr (b, ret, s)))))"

definition h_fn3 ::
    "'a getter \<Rightarrow> 'b getter \<Rightarrow> 'c getter \<Rightarrow> 'a \<Rightarrow> 'b \<Rightarrow> 'c \<Rightarrow> 'r putter \<Rightarrow> ('a \<Rightarrow> 'b \<Rightarrow> 'c \<Rightarrow> 's \<Rightarrow> (i32 \<times> 'r \<times> 's) result) \<Rightarrow> 's handler" where
  "h_fn3 g1 g2 g3 z1 z2 z3 put_r meth mem args ret s =
     bind_r (g1 args z1) (\<lambda>(args, a1).
     bind_r (g2 args z2) (\<lambda>(args, a2).
     bind_r (g3 args z3) (\<lambda>(args, a3).
     if \<not> okdone args then Inr (unmarshal_args_failure, ret, s)
     else bind_r (meth a1 a2 a3 s) (\<lambda>(b, r, s). bind_r (put_r mem ret r) (\<lambda>ret. Inr (b, ret, s))))))"

definition h_fn4 ::
    "'a getter \<Rightarrow> 'b getter \<Rightarrow> 'c getter \<Rightarrow> 'd getter \<Rightarrow> 'a \<Rightarrow> 'b \<Rightarrow> 'c \<Rightarrow> 'd \<Rightarrow> 'r putter \<Rightarrow> ('a \<Rightarrow> 'b \<Rightarrow> 'c \<Rightarrow> 'd \<Rightarrow> 's \<Rightarrow> (i32 \<times> 'r \<times> 's) result) \<Rightarrow> 's handler" where
  "h_fn4 g1 g2 g3 g4 z1 z2 z3 z4 put_r meth mem args ret s =
     bind_r (g1 args z1) (\<lambda>(args, a1).
     bind_r (g2 args z2) (\<lambda>(args, a2).
     bind_r (g3 args z3) (\<lambda>(args, a3).
     bind_r (g4 args z4) (\<lambda>(args, a4).
     if \<not> okdone args then Inr (unmarshal_args_failure, ret, s)
     else bind_r (meth a1 a2 a3 a4 s) (\<lambda>(b, r, s). bind_r (put_r mem ret r) (\<lambda>ret. Inr (b, ret, s)))))))"

definition h_fn5 ::
    "'a getter \<Rightarrow> 'b getter \<Rightarrow> 'c getter \<Rightarrow> 'd getter \<Rightarrow> 'e getter \<Rightarrow> 'a \<Rightarrow> 'b \<Rightarrow> 'c \<Rightarrow> 'd \<Rightarrow> 'e \<Rightarrow> 'r putter \<Rightarrow> ('a \<Rightarrow> 'b \<Rightarrow> 'c \<Rightarrow> 'd \<Rightarrow> 'e \<Rightarrow> 's \<Rightarrow> (i32 \<times> 'r \<times> 's) result) \<Rightarrow> 's handler" where
  "h_fn5 g1 g2 g3 g4 g5 z1 z2 z3 z4 z5 put_r meth mem args ret s =
     bind_r (g1 args z1) (\<lambda>(args, a1).
     bind_r (g2 args z2) (\<lambda>(args, a2).
     bind_r (g3 args z3) (\<lambda>(args, a3).
     bind_r (g4 args z4) (\<lambda>(args, a4).
     bind_r (g5 args z5) (\<lambda>(args, a5).
     if \<not> okdone args then Inr (unmarshal_args_failure, ret, s)
     else bind_r (meth a1 a2 a3 a4 a5 s) (\<lambda>(b, r, s). bind_r (put_r mem ret r) (\<lambda>ret. Inr (b, ret, s))))))))"

definition h_fn6 ::
    "'a getter \<Rightarrow> 'b getter \<Rightarrow> 'c getter \<Rightarrow> 'd getter \<Rightarrow> 'e getter \<Rightarrow> 'f getter \<Rightarrow> 'a \<Rightarrow> 'b \<Rightarrow> 'c \<Rightarrow> 'd \<Rightarrow> 'e \<Rightarrow> 'f \<Rightarrow> 'r putter \<Rightarrow> ('a \<Rightarrow> 'b \<Rightarrow> 'c \<Rightarrow> 'd \<Rightarrow> 'e \<Rightarrow> 'f \<Rightarrow> 's \<Rightarrow> (i32 \<times> 'r \<times> 's) result) \<Rightarrow> 's handler" where
  "h_fn6 g1 g2 g3 g4 g5 g6 z1 z2 z3 z4 z5 z6 put_r meth mem args ret s =
     bind_r (g1 args z1) (\<lambda>(args, a1).
     bind_r (g2 args z2) (\<lambda>(args, a2).
     bind_r (g3 args z3) (\<lambda>(args, a3).
     bind_r (g4 args z4) (\<lambda>(args, a4).
     bind_r (g5 args z5) (\<lambda>(args, a5).
     bind_r (g6 args z6) (\<lambda>(args, a6).
     if \<not> okdone args then Inr (unmarshal_args_failure, ret, s)
     else bind_r (meth a1 a2 a3 a4 a5 a6 s) (\<lambda>(b, r, s). bind_r (put_r mem ret r) (\<lambda>ret. Inr (b, ret, s)))))))))"

definition h_fn7 ::
    "'a getter \<Rightarrow> 'b getter \<Rightarrow> 'c getter \<Rightarrow> 'd getter \<Rightarrow> 'e getter \<Rightarrow> 'f getter \<Rightarrow> 'g getter \<Rightarrow> 'a \<Rightarrow> 'b \<Rightarrow> 'c \<Rightarrow> 'd \<Rightarrow> 'e \<Rightarrow> 'f \<Rightarrow> 'g \<Rightarrow> 'r putter \<Rightarrow> ('a \<Rightarrow> 'b \<Rightarrow> 'c \<Rightarrow> 'd \<Rightarrow> 'e \<Rightarrow> 'f \<Rightarrow> 'g \<Rightarrow> 's \<Rightarrow> (i32 \<times> 'r \<times> 's) result) \<Rightarrow> 's handler" where
  "h_fn7 g1 g2 g3 g4 g5 g6 g7 z1 z2 z3 z4 z5 z6 z7 put_r meth mem args ret s =
     bind_r (g1 args z1) (\<lambda>(args, a1).
     bind_r (g2 args z2) (\<lambda>(args, a2).
     bind_r (g3 args z3) (\<lambda>(args, a3).
     bind_r (g4 args z4) (\<lambda>(args, a4).
     bind_r (g5 args z5) (\<lambda>(args, a5).
     bind_r (g6 args z6) (\<lambda>(args, a6).
     bind_r (g7 args z7) (\<lambda>(args, a7).
     if \<not> okdone args then Inr (unmarshal_args_failure, ret, s)
     else bind_r (meth a1 a2 a3 a4 a5 a6 a7 s) (\<lambda>(b, r, s). bind_r (put_r mem ret r) (\<lambda>ret. Inr (b, ret, s))))))))))"

section \<open>Pairs of operators\<close>

definition put_pair :: "'a putter \<Rightarrow> 'b putter \<Rightarrow> ('a \<times> 'b) putter" where
  "put_pair p q mem m x = bind_r (p mem m (fst x)) (\<lambda>m. q mem m (snd x))"

definition get_pair :: "'a getter \<Rightarrow> 'b getter \<Rightarrow> ('a \<times> 'b) getter" where
  "get_pair g h u x = bind_r (g u (fst x)) (\<lambda>(u, a). bind_r (h u (snd x)) (\<lambda>(u, b). Inr (u, (a, b))))"

definition enc_pair :: "('a \<Rightarrow> byte list) \<Rightarrow> ('b \<Rightarrow> byte list) \<Rightarrow> 'a \<times> 'b \<Rightarrow> byte list" where
  "enc_pair e f x = e (fst x) @ f (snd x)"

definition both :: "('a \<Rightarrow> bool) \<Rightarrow> ('b \<Rightarrow> bool) \<Rightarrow> 'a \<times> 'b \<Rightarrow> bool" where
  "both P Q x \<longleftrightarrow> P (fst x) \<and> Q (snd x)"

locale pair_codec = one: codec enc1 okv1 fresh1 put1 get1 + two: codec enc2 okv2 fresh2 put2 get2
  for enc1 :: "'a \<Rightarrow> byte list" and okv1 fresh1 put1 get1 and enc2 :: "'b \<Rightarrow> byte list" and okv2 fresh2 put2 get2
begin

lemma put_pair_writes: "both okv1 okv2 x \<Longrightarrow> writes (\<lambda>m. put_pair put1 put2 mem m x) (enc_pair enc1 enc2 x)"
  unfolding put_pair_def enc_pair_def both_def
  by (intro writes_bind) (simp_all add: one.put_writes two.put_writes)

lemma get_pair_reads:
  assumes "both okv1 okv2 x" "both fresh1 fresh2 old"
  shows "reads (\<lambda>u. get_pair get1 get2 u old) (enc_pair enc1 enc2 x) x"
proof -
  have "reads (\<lambda>u. get2 u (snd old)) (enc2 (snd x)) (snd x)" "reads (\<lambda>u. get1 u (fst old)) (enc1 (fst x)) (fst x)"
    using assms by (auto simp: both_def intro: one.get_reads two.get_reads)
  from reads_bind [OF this(2), where h = "\<lambda>a u. bind_r (get2 u (snd old)) (\<lambda>(u, b). Inr (u, (a, b)))"]
    reads_bind [OF this(1), where h = "\<lambda>b u. Inr (u, (fst x, b))", OF reads_return]
  show ?thesis by (simp add: get_pair_def enc_pair_def)
qed

lemma pair_codec_here: "codec (enc_pair enc1 enc2) (both okv1 okv2) (both fresh1 fresh2) (put_pair put1 put2) (get_pair get1 get2)"
  by unfold_locales (auto simp: put_pair_writes get_pair_reads)

sublocale pair: codec "enc_pair enc1 enc2" "both okv1 okv2" "both fresh1 fresh2" "put_pair put1 put2" "get_pair get1 get2"
  by unfold_locales (auto simp: put_pair_writes get_pair_reads)

end

section \<open>One argument is enough\<close>

text \<open>A stub with several arguments is the stub with one argument that is a tuple, and so is a handler.\<close>

lemma call_2_pair: "call_2 mem call1 p1 p2 get_r proc a1 a2 = call_1 mem call1 (put_pair p1 p2) get_r proc (a1, a2)"
  by (intro ext) (simp add: call_2_def call_1_def put_pair_def bind_r_assoc Let_def)

lemma call_3_pair:
  "call_3 mem call1 p1 p2 p3 get_r proc a1 a2 a3 = call_2 mem call1 p1 (put_pair p2 p3) get_r proc a1 (a2, a3)"
  by (intro ext) (simp add: call_3_def call_2_def put_pair_def bind_r_assoc Let_def)

lemma call_4_pair:
  "call_4 mem call1 p1 p2 p3 p4 get_r proc a1 a2 a3 a4
     = call_3 mem call1 p1 p2 (put_pair p3 p4) get_r proc a1 a2 (a3, a4)"
  by (intro ext) (simp add: call_4_def call_3_def put_pair_def bind_r_assoc Let_def)

lemma call_5_pair:
  "call_5 mem call1 p1 p2 p3 p4 p5 get_r proc a1 a2 a3 a4 a5
     = call_4 mem call1 p1 p2 p3 (put_pair p4 p5) get_r proc a1 a2 a3 (a4, a5)"
  by (intro ext) (simp add: call_5_def call_4_def put_pair_def bind_r_assoc Let_def)

lemma call_6_pair:
  "call_6 mem call1 p1 p2 p3 p4 p5 p6 get_r proc a1 a2 a3 a4 a5 a6
     = call_5 mem call1 p1 p2 p3 p4 (put_pair p5 p6) get_r proc a1 a2 a3 a4 (a5, a6)"
  by (intro ext) (simp add: call_6_def call_5_def put_pair_def bind_r_assoc Let_def)

lemma call_7_pair:
  "call_7 mem call1 p1 p2 p3 p4 p5 p6 p7 get_r proc a1 a2 a3 a4 a5 a6 a7
     = call_6 mem call1 p1 p2 p3 p4 p5 (put_pair p6 p7) get_r proc a1 a2 a3 a4 a5 (a6, a7)"
  by (intro ext) (simp add: call_7_def call_6_def put_pair_def bind_r_assoc Let_def)

lemmas call_pairs = call_7_pair call_6_pair call_5_pair call_4_pair call_3_pair call_2_pair

lemma h_fn2_pair:
  "h_fn2 g1 g2 z1 z2 put_r meth = h_fn1 (get_pair g1 g2) (z1, z2) put_r (\<lambda>(a, b). meth a b)"
  by (intro ext) (auto simp: h_fn2_def h_fn1_def get_pair_def bind_r_assoc intro!: bind_r_cong)

lemma h_fn3_pair:
  "h_fn3 g1 g2 g3 z1 z2 z3 put_r meth = h_fn2 g1 (get_pair g2 g3) z1 (z2, z3) put_r (\<lambda>a (b, c). meth a b c)"
  by (intro ext) (auto simp: h_fn3_def h_fn2_def get_pair_def bind_r_assoc intro!: bind_r_cong)

lemma h_fn4_pair:
  "h_fn4 g1 g2 g3 g4 z1 z2 z3 z4 put_r meth
     = h_fn3 g1 g2 (get_pair g3 g4) z1 z2 (z3, z4) put_r (\<lambda>a b (c, d). meth a b c d)"
  by (intro ext) (auto simp: h_fn4_def h_fn3_def get_pair_def bind_r_assoc intro!: bind_r_cong)

lemma h_fn5_pair:
  "h_fn5 g1 g2 g3 g4 g5 z1 z2 z3 z4 z5 put_r meth
     = h_fn4 g1 g2 g3 (get_pair g4 g5) z1 z2 z3 (z4, z5) put_r (\<lambda>a b c (d, e). meth a b c d e)"
  by (intro ext) (auto simp: h_fn5_def h_fn4_def get_pair_def bind_r_assoc intro!: bind_r_cong)

lemma h_fn6_pair:
  "h_fn6 g1 g2 g3 g4 g5 g6 z1 z2 z3 z4 z5 z6 put_r meth
     = h_fn5 g1 g2 g3 g4 (get_pair g5 g6) z1 z2 z3 z4 (z5, z6) put_r (\<lambda>a b c d (e, f). meth a b c d e f)"
  by (intro ext) (auto simp: h_fn6_def h_fn5_def get_pair_def bind_r_assoc intro!: bind_r_cong)

lemma h_fn7_pair:
  "h_fn7 g1 g2 g3 g4 g5 g6 g7 z1 z2 z3 z4 z5 z6 z7 put_r meth
     = h_fn6 g1 g2 g3 g4 g5 (get_pair g6 g7) z1 z2 z3 z4 z5 (z6, z7) put_r (\<lambda>a b c d e (f, g). meth a b c d e f g)"
  by (intro ext) (auto simp: h_fn7_def h_fn6_def get_pair_def bind_r_assoc intro!: bind_r_cong)

lemmas h_fn_pairs = h_fn7_pair h_fn6_pair h_fn5_pair h_fn4_pair h_fn3_pair h_fn2_pair

lemma codec_pair: "codec e f fr p g \<Longrightarrow> codec e' f' fr' p' g' \<Longrightarrow>
    codec (enc_pair e e') (both f f') (both fr fr') (put_pair p p') (get_pair g g')"
  by (rule pair_codec.pair_codec_here [OF pair_codec.intro])

section \<open>What a stub sends is what the method gets\<close>

text \<open>What the handler of a registered method does once the arguments are read.\<close>

definition run_method :: "'r putter \<Rightarrow> memory \<Rightarrow> (i32 \<times> 'r \<times> 's) result \<Rightarrow> marshall \<Rightarrow> (i32 \<times> marshall \<times> 's) result" where
  "run_method put_r mem res ret = bind_r res (\<lambda>(b, r, s). bind_r (put_r mem ret r) (\<lambda>ret. Inr (b, ret, s)))"

lemma h_fn1_exact:
  assumes "codec e f fr p g" "f a" "fr z" "u_at u (e a)"
  shows "h_fn1 g z put_r meth mem u ret s = run_method put_r mem (meth a s) ret"
proof -
  have "g u z = Inr (advance (length (e a)) u, a)"
    using readsD [OF codec.get_reads [OF assms(1-3)], of u "[]"] assms(4) by simp
  moreover have "okdone (advance (length (e a)) u)"
    using u_at_advance [of u "e a" "[]"] assms(4) by (intro u_at_okdone) simp
  ultimately show ?thesis by (simp add: h_fn1_def run_method_def)
qed

lemma h_fn1_leftover:
  assumes "codec e f fr p g" "f a" "fr z" "u_at u (e a @ b # bs)"
  shows "h_fn1 g z put_r meth mem u ret s = Inr (unmarshal_args_failure, ret, s)"
proof -
  have "g u z = Inr (advance (length (e a)) u, a)"
    by (rule readsD [OF codec.get_reads [OF assms(1-3)] assms(4)])
  moreover have "\<not> okdone (advance (length (e a)) u)"
    using u_at_advance [OF assms(4)] by (rule u_at_not_okdone)
  ultimately show ?thesis by (simp add: h_fn1_def)
qed

lemma call_1_request:
  assumes "codec e f fr p g" "f a" "length (e a) < 2 ^ 29"
  obtains req where "p mem (marshall_new mem) a = Inr req"
    "m_wf req" "m_body req = e a" "m_ind req = 24 + length (e a)"
proof -
  have start: "m_ind (marshall_new mem) = 24" by (simp add: marshall_new_def)
  with assms(3) have room: "m_ind (marshall_new mem) + length (e a) < 2 ^ 30" by simp
  obtain req where req: "p mem (marshall_new mem) a = Inr req" "m_wf req" "m_bytes req = m_bytes (marshall_new mem) @ e a"
      "m_ind req = m_ind (marshall_new mem) + length (e a)"
    by (rule writesE [OF codec.put_writes [OF assms(1,2)] m_wf_new room])
  have "m_body req = e a" using req(3) start by (simp add: m_body_def)
  then show ?thesis using req start that [of req] by simp
qed

text \<open>The reply: the value that the handler appended is what \<open>call_m\<close> reads back.\<close>

lemma call_m_reply:
  assumes "codec e f fr p g" "f r" "fr r0" "call1 proc req s = Inr (ret, u, t)" "u_at u (e r)" "0 \<le> sint ret"
  shows "call_m call1 g proc req r0 s = Inr (ret, r, t)"
proof -
  have "g u r0 = Inr (advance (length (e r)) u, r)"
    using readsD [OF codec.get_reads [OF assms(1-3)], of u "[]"] assms(5) by simp
  moreover have "okdone (advance (length (e r)) u)"
    using u_at_advance [of u "e r" "[]"] assms(5) by (intro u_at_okdone) simp
  ultimately show ?thesis using assms(4,6) by (simp add: call_m_def)
qed

text \<open>The arguments of a remote call arrive.  For any seven operator pairs that keep the contract
  of theory \<open>Codec\<close>, the request that \<open>call\<close> marshals from seven arguments makes the handler that
  \<open>reg\<close> installs for a method with seven arguments of the same types call that method with exactly
  these arguments; what the handler does beyond that is append the result.\<close>

theorem stub_args_arrive:
  assumes "codec e1 f1 fr1 p1 g1" "codec e2 f2 fr2 p2 g2" "codec e3 f3 fr3 p3 g3" "codec e4 f4 fr4 p4 g4"
    "codec e5 f5 fr5 p5 g5" "codec e6 f6 fr6 p6 g6" "codec e7 f7 fr7 p7 g7"
    and "f1 a1" "f2 a2" "f3 a3" "f4 a4" "f5 a5" "f6 a6" "f7 a7"
    and "fr1 z1" "fr2 z2" "fr3 z3" "fr4 z4" "fr5 z5" "fr6 z6" "fr7 z7"
    and "length (e1 a1 @ e2 a2 @ e3 a3 @ e4 a4 @ e5 a5 @ e6 a6 @ e7 a7) < 2 ^ 29"
  shows "(\<exists>req. m_wf req \<and> m_body req = e1 a1 @ e2 a2 @ e3 a3 @ e4 a4 @ e5 a5 @ e6 a6 @ e7 a7 \<and>
            call_7 mem call1 p1 p2 p3 p4 p5 p6 p7 get_r proc a1 a2 a3 a4 a5 a6 a7 r0 s = call_m call1 get_r proc req r0 s) \<and>
         (u_at u (e1 a1 @ e2 a2 @ e3 a3 @ e4 a4 @ e5 a5 @ e6 a6 @ e7 a7) \<longrightarrow>
            h_fn7 g1 g2 g3 g4 g5 g6 g7 z1 z2 z3 z4 z5 z6 z7 put_r meth mem' u ret t
              = run_method put_r mem' (meth a1 a2 a3 a4 a5 a6 a7 t) ret)"
proof -
  note C = codec_pair [OF assms(1) codec_pair [OF assms(2) codec_pair [OF assms(3) codec_pair [OF assms(4)
        codec_pair [OF assms(5) codec_pair [OF assms(6,7)]]]]]]
  have ok: "both f1 (both f2 (both f3 (both f4 (both f5 (both f6 f7))))) (a1, a2, a3, a4, a5, a6, a7)"
    and fr: "both fr1 (both fr2 (both fr3 (both fr4 (both fr5 (both fr6 fr7))))) (z1, z2, z3, z4, z5, z6, z7)"
    and len: "length (enc_pair e1 (enc_pair e2 (enc_pair e3 (enc_pair e4 (enc_pair e5 (enc_pair e6 e7)))))
      (a1, a2, a3, a4, a5, a6, a7)) < 2 ^ 29"
    using assms by (simp_all add: both_def enc_pair_def)
  obtain req where "m_wf req" "m_body req = enc_pair e1 (enc_pair e2 (enc_pair e3 (enc_pair e4 (enc_pair e5 (enc_pair e6 e7)))))
      (a1, a2, a3, a4, a5, a6, a7)" "put_pair p1 (put_pair p2 (put_pair p3 (put_pair p4 (put_pair p5 (put_pair p6 p7)))))
      mem (marshall_new mem) (a1, a2, a3, a4, a5, a6, a7) = Inr req"
    by (rule call_1_request [OF C ok len]) blast
  then have "\<exists>req. m_wf req \<and> m_body req = e1 a1 @ e2 a2 @ e3 a3 @ e4 a4 @ e5 a5 @ e6 a6 @ e7 a7 \<and>
      call_7 mem call1 p1 p2 p3 p4 p5 p6 p7 get_r proc a1 a2 a3 a4 a5 a6 a7 r0 s = call_m call1 get_r proc req r0 s"
    by (intro exI [of _ req]) (simp add: call_pairs call_1_def enc_pair_def)
  moreover have "h_fn7 g1 g2 g3 g4 g5 g6 g7 z1 z2 z3 z4 z5 z6 z7 put_r meth mem' u ret t
      = run_method put_r mem' (meth a1 a2 a3 a4 a5 a6 a7 t) ret"
    if "u_at u (e1 a1 @ e2 a2 @ e3 a3 @ e4 a4 @ e5 a5 @ e6 a6 @ e7 a7)"
    using that by (simp add: h_fn_pairs h_fn1_exact [OF C ok fr] enc_pair_def)
  ultimately show ?thesis by blast
qed

theorem stub_args_arrive_witness:
  "(\<exists>req. m_body req = be32 0 @ be64 5 @ enc_string [65, 66] @ [1] @ [3] @ be16 3 @ be32 4 \<and>
     call_7 (\<lambda>_. 0) (\<lambda>proc m s. Inr (0, unmarshall_empty, m_size m)) put_int put_ullong put_string put_bool put_uchar
       put_ushort put_uint get_string 9 0 5 [65, 66] True 3 3 4 [] 0
       = call_m (\<lambda>proc m s. Inr (0, unmarshall_empty, m_size m)) get_string 9 req [] 0) \<and>
   h_fn7 get_int get_ullong get_string get_bool get_uchar get_ushort get_uint 0 0 [] False 0 0 0 put_int
       (\<lambda>a b c d e f g s. Inr (a, ucast b + of_nat (length c) + (if d then 1 else 0) + ucast e + ucast f + g, s))
       (\<lambda>_. 0) (unmarshall_new (Some (be32 0 @ be64 5 @ enc_string [65, 66] @ [1] @ [3] @ be16 3 @ be32 4)) 26) (marshall_new (\<lambda>_. 0)) ()
       = run_method put_int (\<lambda>_. 0) (Inr (0, 18, ())) (marshall_new (\<lambda>_. 0))"
proof -
  have at: "u_at (unmarshall_new (Some (be32 0 @ be64 5 @ enc_string [65, 66] @ [1] @ [3] @ be16 3 @ be32 4)) 26)
      (be32 0 @ be64 5 @ enc_string [65, 66] @ [1] @ [3] @ be16 3 @ be32 4)"
    by (simp add: unmarshall_new_def u_at_def enc_string_def)
  note T = stub_args_arrive [OF int_codec.codec_axioms ullong_codec.codec_axioms string_codec.codec_axioms
      bool_codec.codec_axioms uchar_codec.codec_axioms ushort_codec.codec_axioms uint_codec.codec_axioms
      TrueI TrueI TrueI TrueI TrueI TrueI TrueI TrueI TrueI TrueI TrueI TrueI TrueI TrueI,
      where ?a1.0 = 0 and ?a2.0 = 5 and ?a3.0 = "[65, 66]" and ?a4.0 = True and ?a5.0 = 3 and ?a6.0 = 3 and ?a7.0 = 4]
  have len: "length (be32 0 @ be64 5 @ enc_string [65, 66] @ [if True then 1 else 0] @ [3] @ be16 3 @ be32 4) < 2 ^ 29"
    by (simp add: enc_string_def)
  show ?thesis
    using T [OF len, where mem = "\<lambda>_. 0" and ?call1.0 = "\<lambda>proc m s. Inr (0, unmarshall_empty, m_size m)" and get_r = get_string
        and proc = 9 and ?r0.0 = "[]" and s = 0 and ?z1.0 = 0 and ?z2.0 = 0 and ?z3.0 = "[]" and ?z4.0 = False and ?z5.0 = 0
        and ?z6.0 = 0 and ?z7.0 = 0 and put_r = put_int and mem' = "\<lambda>_. 0" and ret = "marshall_new (\<lambda>_. 0)" and t = "()"
        and u = "unmarshall_new (Some (be32 0 @ be64 5 @ enc_string [65, 66] @ [1] @ [3] @ be16 3 @ be32 4)) 26"
        and meth = "\<lambda>a b c d e f g s. Inr (a, ucast b + of_nat (length c) + (if d then 1 else 0) + ucast e + ucast f + g, s)"]
      at by fastforce
qed

end
