(* ===== verification/Reply_Window.thy ===== *)
theory Reply_Window
  imports Rpc_Prelude
begin

text \<open>
  The server's at-most-once memory: \<open>reply_window_\<close>, \<open>reply_lower_bound_\<close> and
  \<open>reply_set_\<close> of class \<open>rpcs\<close>, with \<open>checkduplicate_and_update\<close>, \<open>add_reply\<close> and
  \<open>free_reply_window\<close> of \<^verbatim>\<open>rpc/rpc.cc\<close>.  All of them run under \<open>reply_window_m_\<close>, so each
  is one atomic operation.

  Reply buffers are blocks of an explicit heap, since the window shares them with the
  threads that send them: \<open>rt_buf\<close> is an address, \<open>free\<close> removes a block, and freeing
  twice is a fault.  A \<open>std::set\<close> of identifiers is a set; the iterator range that is
  erased from its beginning is the elements below the iterator.

  The locale \<open>once_filter\<close> is the contract that makes a duplicate filter out of a stateful
  component; the window is an interpretation of it.
\<close>

section \<open>Definitions\<close>

datatype rpcstate_t = NEW | INPROGRESS | DONE | FORGOTTEN

type_synonym heap = "nat \<rightharpoonup> byte list"

record reply_t =
  rt_xid :: u32
  rt_cb_present :: bool
  rt_buf :: "nat option"
  rt_sz :: nat

definition reply_t_new :: "u32 \<Rightarrow> reply_t" where
  "reply_t_new xid = \<lparr>rt_xid = xid, rt_cb_present = False, rt_buf = None, rt_sz = 0\<rparr>"

record rwindow =
  rw_heap :: heap
  reply_window :: "u32 \<rightharpoonup> reply_t list"
  reply_lower_bound :: "u32 \<rightharpoonup> u32"
  reply_set :: "u32 \<rightharpoonup> u32 set"

definition free_block :: "heap \<Rightarrow> nat option \<Rightarrow> heap result" where
  "free_block h p =
     (case p of None \<Rightarrow> Inr h
      | Some a \<Rightarrow> if h a = None then Inl Double_Free else Inr (h(a := None)))"

text \<open>The loop that drops acknowledged replies from the front of the sorted list.\<close>

fun drop_replies :: "u32 \<Rightarrow> heap \<Rightarrow> reply_t list \<Rightarrow> (heap \<times> reply_t list) result" where
  "drop_replies xid_rep h [] = Inr (h, [])"
| "drop_replies xid_rep h (r # rs) =
     (if rt_xid r < xid_rep
      then bind_r (free_block h (rt_buf r)) (\<lambda>h. drop_replies xid_rep h rs)
      else Inr (h, r # rs))"

text \<open>The first part of \<open>checkduplicate_and_update\<close>: raise the lower bound and forget.\<close>

definition update_lower_bound :: "u32 \<Rightarrow> u32 \<Rightarrow> rwindow \<Rightarrow> rwindow result" where
  "update_lower_bound clt_nonce xid_rep s =
     (case reply_lower_bound s clt_nonce of
        None \<Rightarrow> Inr (s\<lparr>reply_lower_bound := (reply_lower_bound s)(clt_nonce \<mapsto> xid_rep)\<rparr>)
      | Some lb \<Rightarrow>
          if lb < xid_rep then
            let s = s\<lparr>reply_lower_bound := (reply_lower_bound s)(clt_nonce \<mapsto> xid_rep)\<rparr> in
            (case reply_window s clt_nonce of
               None \<Rightarrow> Inl Verify_Failed
             | Some rs \<Rightarrow>
                 bind_r (drop_replies xid_rep (rw_heap s) rs) (\<lambda>(h, rs).
                 let s = s\<lparr>rw_heap := h, reply_window := (reply_window s)(clt_nonce \<mapsto> rs)\<rparr> in
                 (case reply_set s clt_nonce of
                    None \<Rightarrow> Inl Verify_Failed
                  | Some xids \<Rightarrow>
                      if xid_rep > 0 \<and> xid_rep \<in> xids
                      then Inr (s\<lparr>reply_set := (reply_set s)(clt_nonce \<mapsto> {x \<in> xids. \<not> x < xid_rep})\<rparr>)
                      else Inr s)))
          else Inr s)"

text \<open>The second part: remember the request; the flag is \<open>old\<close>.\<close>

definition remember_xid :: "u32 \<Rightarrow> u32 \<Rightarrow> rwindow \<Rightarrow> rwindow \<times> bool" where
  "remember_xid clt_nonce xid s =
     (case reply_set s clt_nonce of
        None \<Rightarrow> (s\<lparr>reply_set := (reply_set s)(clt_nonce \<mapsto> {xid})\<rparr>, False)
      | Some xids \<Rightarrow>
          if xid \<notin> xids then (s\<lparr>reply_set := (reply_set s)(clt_nonce \<mapsto> insert xid xids)\<rparr>, False)
          else (s, True))"

fun find_reply :: "u32 \<Rightarrow> reply_t list \<Rightarrow> reply_t option" where
  "find_reply xid [] = None"
| "find_reply xid (r # rs) = (if rt_xid r = xid then Some r else find_reply xid rs)"

text \<open>
  The result: the new state, the verdict, and what is stored through \<open>b\<close> and \<open>sz\<close>, which
  are written only when a reply is found.
\<close>

definition checkduplicate_and_update ::
    "u32 \<Rightarrow> u32 \<Rightarrow> u32 \<Rightarrow> rwindow \<Rightarrow> (rwindow \<times> rpcstate_t \<times> (nat option \<times> nat) option) result" where
  "checkduplicate_and_update clt_nonce xid xid_rep s =
     bind_r (update_lower_bound clt_nonce xid_rep s) (\<lambda>s.
     (case remember_xid clt_nonce xid s of (s, old) \<Rightarrow>
       (case (case reply_window s clt_nonce of None \<Rightarrow> None | Some rs \<Rightarrow> find_reply xid rs) of
          Some r \<Rightarrow> Inr (s, DONE, Some (rt_buf r, rt_sz r))
        | None \<Rightarrow>
            if old then Inr (s, INPROGRESS, None)
            else (case reply_lower_bound s clt_nonce of
                    None \<Rightarrow>
                      let s = s\<lparr>reply_lower_bound := (reply_lower_bound s)(clt_nonce \<mapsto> 0)\<rparr> in
                      if xid \<le> 0 then Inr (s, FORGOTTEN, None) else Inr (s, NEW, None)
                  | Some lb \<Rightarrow>
                      if xid \<le> lb then Inr (s, FORGOTTEN, None) else Inr (s, NEW, None)))))"

text \<open>\<open>dispatch\<close> creates the window of a client it does not know before it checks.\<close>

definition create_window :: "u32 \<Rightarrow> rwindow \<Rightarrow> rwindow" where
  "create_window clt_nonce s =
     (case reply_window s clt_nonce of
        None \<Rightarrow> s\<lparr>reply_window := (reply_window s)(clt_nonce \<mapsto> [])\<rparr>
      | Some rs \<Rightarrow> s)"

fun insert_reply :: "reply_t \<Rightarrow> reply_t list \<Rightarrow> reply_t list result" where
  "insert_reply rply [] = Inr [rply]"
| "insert_reply rply (r # rs) =
     (if rt_xid r < rt_xid rply then bind_r (insert_reply rply rs) (\<lambda>rs'. Inr (r # rs'))
      else bind_r (VERIFY (rt_xid r \<noteq> rt_xid rply)) (\<lambda>_. Inr (rply # r # rs)))"

definition add_reply :: "u32 \<Rightarrow> u32 \<Rightarrow> nat option \<Rightarrow> nat \<Rightarrow> rwindow \<Rightarrow> rwindow result" where
  "add_reply clt_nonce xid b sz s =
     (let rply = (reply_t_new xid)\<lparr>rt_buf := b, rt_sz := sz, rt_cb_present := True\<rparr> in
      case reply_window s clt_nonce of
        None \<Rightarrow> Inl Verify_Failed
      | Some rs \<Rightarrow>
          bind_r (insert_reply rply rs) (\<lambda>rs'.
          Inr (s\<lparr>reply_window := (reply_window s)(clt_nonce \<mapsto> rs')\<rparr>)))"

primrec free_replies :: "reply_t list \<Rightarrow> heap \<Rightarrow> heap result" where
  "free_replies [] h = Inr h"
| "free_replies (r # rs) h = bind_r (free_block h (rt_buf r)) (free_replies rs)"

text \<open>
  \<open>free_reply_window\<close> visits the clients in the order of their keys (\<open>clts\<close>) and clears
  the map.
\<close>

primrec free_clients :: "u32 list \<Rightarrow> rwindow \<Rightarrow> rwindow result" where
  "free_clients [] s = Inr s"
| "free_clients (clt # clts) s =
     (case reply_window s clt of
        None \<Rightarrow> free_clients clts s
      | Some rs \<Rightarrow>
          bind_r (free_replies rs (rw_heap s)) (\<lambda>h.
          free_clients clts (s\<lparr>rw_heap := h, reply_window := (reply_window s)(clt \<mapsto> [])\<rparr>)))"

definition free_reply_window :: "u32 list \<Rightarrow> rwindow \<Rightarrow> rwindow result" where
  "free_reply_window clts s =
     bind_r (free_clients clts s) (\<lambda>s. Inr (s\<lparr>reply_window := Map.empty\<rparr>))"

definition rwindow_init :: rwindow where
  "rwindow_init = \<lparr>rw_heap = Map.empty, reply_window = Map.empty,
     reply_lower_bound = Map.empty, reply_set = Map.empty\<rparr>"

section \<open>How the server uses the window\<close>

text \<open>
  The creation of a client's window or a check by any dispatch thread, or the \<open>add_reply\<close> of a thread
  whose check said \<open>NEW\<close>:
  \<open>pending\<close> are the requests whose handlers run.  The reply it adds is in a block that
  the allocator just returned, with the reply's bytes.
\<close>

record rwsys =
  rs_win :: rwindow
  rs_pending :: "(u32 \<times> u32) set"

datatype rwevent =
    Created u32
  | Checked u32 u32 u32 rpcstate_t "(nat option \<times> nat) option"
  | Replied u32 u32 "byte list"

inductive rw_step :: "rwsys \<Rightarrow> rwevent \<Rightarrow> rwsys \<Rightarrow> bool" where
  create: "rw_step \<lparr>rs_win = w, rs_pending = P\<rparr> (Created c) \<lparr>rs_win = create_window c w, rs_pending = P\<rparr>"
| check: "checkduplicate_and_update c x xr (create_window c w) = Inr (w', st, out) \<Longrightarrow>
     rw_step \<lparr>rs_win = w, rs_pending = P\<rparr> (Checked c x xr st out)
       \<lparr>rs_win = w', rs_pending = (if st = NEW then insert (c, x) P else P)\<rparr>"
| reply: "(c, x) \<in> P \<Longrightarrow> rw_heap w a = None \<Longrightarrow>
     add_reply c x (Some a) (length bs) (w\<lparr>rw_heap := (rw_heap w)(a \<mapsto> bs)\<rparr>) = Inr w' \<Longrightarrow>
     rw_step \<lparr>rs_win = w, rs_pending = P\<rparr> (Replied c x bs) \<lparr>rs_win = w', rs_pending = P - {(c, x)}\<rparr>"

inductive rw_run :: "rwevent list \<Rightarrow> rwsys \<Rightarrow> bool" where
  start: "rw_run [] \<lparr>rs_win = rwindow_init, rs_pending = {}\<rparr>"
| more: "rw_run es s \<Longrightarrow> rw_step s e s' \<Longrightarrow> rw_run (es @ [e]) s'"

inductive_cases rw_stepE: "rw_step s e s'"

section \<open>The contract of a duplicate filter\<close>

locale once_filter =
  fixes step :: "'s \<Rightarrow> 'e \<Rightarrow> 's \<Rightarrow> bool"
    and inv :: "'s \<Rightarrow> bool"
    and fresh_of :: "'e \<Rightarrow> 'k option"
    and seen :: "'s \<Rightarrow> 'k set"
  assumes inv_step: "inv s \<Longrightarrow> step s e s' \<Longrightarrow> inv s'"
    and seen_mono: "inv s \<Longrightarrow> step s e s' \<Longrightarrow> seen s \<subseteq> seen s'"
    and fresh_unseen: "inv s \<Longrightarrow> step s e s' \<Longrightarrow> fresh_of e = Some k \<Longrightarrow> k \<notin> seen s \<and> k \<in> seen s'"
begin

fun path :: "'s \<Rightarrow> 'e list \<Rightarrow> 's \<Rightarrow> bool" where
  "path s [] t \<longleftrightarrow> s = t"
| "path s (e # es) t \<longleftrightarrow> (\<exists>u. step s e u \<and> path u es t)"

lemma path_append: "path s (es @ fs) t \<longleftrightarrow> (\<exists>u. path s es u \<and> path u fs t)"
  by (induction es arbitrary: s) auto

lemma path_inv: "path s es t \<Longrightarrow> inv s \<Longrightarrow> inv t"
  by (induction es arbitrary: s) (auto dest: inv_step)

definition times_fresh :: "'k \<Rightarrow> 'e list \<Rightarrow> nat" where
  "times_fresh k es = length (filter (\<lambda>e. fresh_of e = Some k) es)"

lemma seen_never_fresh: "path s es t \<Longrightarrow> inv s \<Longrightarrow> k \<in> seen s \<Longrightarrow> times_fresh k es = 0"
proof (induction es arbitrary: s)
  case (Cons e es)
  then obtain u where u: "step s e u" "path u es t" by auto
  note inv_step [OF Cons.prems(2) u(1)]
  moreover have "k \<in> seen u" "fresh_of e \<noteq> Some k"
    using Cons.prems(2,3) u(1) seen_mono fresh_unseen by blast+
  ultimately show ?case using Cons.IH [OF u(2)] by (simp add: times_fresh_def)
qed (simp add: times_fresh_def)

lemma fresh_at_most_once: "path s es t \<Longrightarrow> inv s \<Longrightarrow> times_fresh k es \<le> 1"
proof (induction es arbitrary: s)
  case (Cons e es)
  then obtain u where u: "step s e u" "path u es t" by auto
  note inv = inv_step [OF Cons.prems(2) u(1)]
  show ?case
  proof (cases "fresh_of e = Some k")
    case True
    then have "times_fresh k es = 0"
      using fresh_unseen [OF Cons.prems(2) u(1)] seen_never_fresh [OF u(2) inv] by blast
    then show ?thesis using True by (simp add: times_fresh_def)
  next
    case False
    then show ?thesis using Cons.IH [OF u(2) inv] by (simp add: times_fresh_def)
  qed
qed (simp add: times_fresh_def)

end

section \<open>The check in closed form\<close>

definition entries :: "rwindow \<Rightarrow> u32 \<Rightarrow> reply_t list" where
  "entries w c = (case reply_window w c of None \<Rightarrow> [] | Some rs \<Rightarrow> rs)"

definition known :: "rwindow \<Rightarrow> u32 \<Rightarrow> u32 set" where
  "known w c = (case reply_set w c of None \<Rightarrow> {} | Some xids \<Rightarrow> xids)"

definition bufs :: "reply_t list \<Rightarrow> nat set" where
  "bufs rs = {a. \<exists>r\<in>set rs. rt_buf r = Some a}"

definition owned :: "heap \<Rightarrow> reply_t list \<Rightarrow> bool" where
  "owned h rs \<longleftrightarrow> distinct (map rt_buf rs) \<and> (\<forall>r\<in>set rs. \<exists>a. rt_buf r = Some a \<and> h a \<noteq> None)"

text \<open>Whether a check raises the bound, and what it leaves of bound, window and set.\<close>

definition raises :: "rwindow \<Rightarrow> u32 \<Rightarrow> u32 \<Rightarrow> bool" where
  "raises w c xr \<longleftrightarrow> (case reply_lower_bound w c of None \<Rightarrow> False | Some lb \<Rightarrow> lb < xr)"

definition bound_after :: "rwindow \<Rightarrow> u32 \<Rightarrow> u32 \<Rightarrow> u32" where
  "bound_after w c xr = (case reply_lower_bound w c of None \<Rightarrow> xr | Some lb \<Rightarrow> max lb xr)"

definition stale :: "rwindow \<Rightarrow> u32 \<Rightarrow> u32 \<Rightarrow> u32 \<Rightarrow> bool" where
  "stale w c xr x \<longleftrightarrow> raises w c xr \<and> x < xr"

definition known_after :: "rwindow \<Rightarrow> u32 \<Rightarrow> u32 \<Rightarrow> u32 set" where
  "known_after w c xr = {x \<in> known w c. \<not> (xr \<in> known w c \<and> stale w c xr x)}"

definition kept :: "rwindow \<Rightarrow> u32 \<Rightarrow> u32 \<Rightarrow> reply_t list" where
  "kept w c xr = filter (\<lambda>r. \<not> stale w c xr (rt_xid r)) (entries w c)"

definition dropped :: "rwindow \<Rightarrow> u32 \<Rightarrow> u32 \<Rightarrow> reply_t list" where
  "dropped w c xr = filter (\<lambda>r. stale w c xr (rt_xid r)) (entries w c)"

definition check_state :: "u32 \<Rightarrow> u32 \<Rightarrow> u32 \<Rightarrow> rwindow \<Rightarrow> rwindow" where
  "check_state c x xr w = w\<lparr>rw_heap := rw_heap w |` (- bufs (dropped w c xr)),
     reply_window := (reply_window w)(c \<mapsto> kept w c xr),
     reply_lower_bound := (reply_lower_bound w)(c \<mapsto> bound_after w c xr),
     reply_set := (reply_set w)(c \<mapsto> insert x (known_after w c xr))\<rparr>"

definition verdict :: "u32 \<Rightarrow> u32 \<Rightarrow> u32 \<Rightarrow> rwindow \<Rightarrow> rpcstate_t" where
  "verdict c x xr w =
     (if find_reply x (kept w c xr) \<noteq> None then DONE
      else if x \<in> known_after w c xr then INPROGRESS
      else if x \<le> bound_after w c xr then FORGOTTEN else NEW)"

definition found :: "u32 \<Rightarrow> u32 \<Rightarrow> u32 \<Rightarrow> rwindow \<Rightarrow> (nat option \<times> nat) option" where
  "found c x xr w = map_option (\<lambda>r. (rt_buf r, rt_sz r)) (find_reply x (kept w c xr))"

text \<open>What holds of the window of one client between operations.\<close>

definition client_ok :: "rwindow \<Rightarrow> u32 \<Rightarrow> bool" where
  "client_ok w c \<longleftrightarrow> (reply_lower_bound w c = None \<longleftrightarrow> reply_set w c = None)
     \<and> (reply_set w c \<noteq> None \<longrightarrow> reply_window w c \<noteq> None)
     \<and> (reply_set w c = None \<longrightarrow> entries w c = [])
     \<and> sorted_wrt (<) (map rt_xid (entries w c)) \<and> owned (rw_heap w) (entries w c)"

lemma restrict_map_UNIV [simp]: "m |` UNIV = m"
  by (simp add: restrict_map_def fun_eq_iff)

lemma free_replies_owned: "owned h rs \<Longrightarrow> free_replies rs h = Inr (h |` (- bufs rs))"
proof (induction rs arbitrary: h)
  case (Cons r rs)
  then obtain a where a: "rt_buf r = Some a" "h a \<noteq> None" by (auto simp: owned_def)
  have "owned (h(a := None)) rs"
    using Cons.prems a(1) by (auto simp: owned_def) (metis imageI option.inject)
  then have "free_replies rs (h(a := None)) = Inr (h(a := None) |` (- bufs rs))" by (rule Cons.IH)
  moreover have "h(a := None) |` (- bufs rs) = h |` (- bufs (r # rs))"
    using a(1) by (auto simp: bufs_def restrict_map_def fun_eq_iff)
  ultimately show ?case using a by (auto simp: free_block_def)
qed (simp add: bufs_def)

lemma drop_replies_eq:
  "drop_replies xr h rs = bind_r (free_replies (takeWhile (\<lambda>r. rt_xid r < xr) rs) h)
     (\<lambda>h. Inr (h, dropWhile (\<lambda>r. rt_xid r < xr) rs))"
  by (induction rs arbitrary: h) (auto simp: bind_r_assoc)

lemma takeWhile_sorted:
  "sorted_wrt (<) (map rt_xid rs) \<Longrightarrow>
   takeWhile (\<lambda>r. rt_xid r < xr) rs = filter (\<lambda>r. rt_xid r < xr) rs"
proof (induction rs)
  case (Cons r rs)
  have "filter (\<lambda>q. rt_xid q < xr) rs = []" if "\<not> rt_xid r < xr"
    using Cons.prems that by (auto simp: filter_empty_conv dest: order_less_trans)
  then show ?case using Cons by auto
qed simp

lemma dropWhile_sorted:
  "sorted_wrt (<) (map rt_xid rs) \<Longrightarrow>
   dropWhile (\<lambda>r. rt_xid r < xr) rs = filter (\<lambda>r. \<not> rt_xid r < xr) rs"
proof (induction rs)
  case (Cons r rs)
  have "filter (\<lambda>q. \<not> rt_xid q < xr) rs = rs" if "\<not> rt_xid r < xr"
    using Cons.prems that by (intro filter_True) (auto dest: order_less_trans)
  then show ?case using Cons by auto
qed simp

lemma owned_filter: "owned h rs \<Longrightarrow> owned h (filter P rs)"
  by (auto simp: owned_def distinct_map intro: inj_on_subset)

lemma drop_replies_sorted:
  assumes "sorted_wrt (<) (map rt_xid rs)" "owned h rs"
  shows "drop_replies xr h rs = Inr (h |` (- bufs (filter (\<lambda>r. rt_xid r < xr) rs)),
    filter (\<lambda>r. \<not> rt_xid r < xr) rs)"
  by (simp add: drop_replies_eq takeWhile_sorted [OF assms(1)] dropWhile_sorted [OF assms(1)]
      free_replies_owned [OF owned_filter [OF assms(2)]])

lemma create_window_eq: "create_window c w = w\<lparr>reply_window := (reply_window w)(c \<mapsto> entries w c)\<rparr>"
  by (auto simp: create_window_def entries_def fun_upd_idem split: option.split intro!: rwindow.equality)

lemma update_lower_bound_closed:
  assumes ok: "client_ok w c"
  shows "update_lower_bound c xr (create_window c w) =
    Inr (w\<lparr>rw_heap := rw_heap w |` (- bufs (dropped w c xr)),
      reply_window := (reply_window w)(c \<mapsto> kept w c xr),
      reply_lower_bound := (reply_lower_bound w)(c \<mapsto> bound_after w c xr),
      reply_set := (if reply_lower_bound w c = None then reply_set w
                    else (reply_set w)(c \<mapsto> known_after w c xr))\<rparr>)"
proof (cases "raises w c xr")
  case True
  then obtain lb X where lb: "reply_lower_bound w c = Some lb" "lb < xr" "reply_set w c = Some X"
    using ok by (auto simp: client_ok_def raises_def split: option.splits)
  have drop: "drop_replies xr (rw_heap w) (entries w c) =
    Inr (rw_heap w |` (- bufs (dropped w c xr)), kept w c xr)"
    using ok drop_replies_sorted [of "entries w c" "rw_heap w" xr] True
    by (simp add: client_ok_def dropped_def kept_def stale_def)
  have X: "known_after w c xr = (if xr \<in> X then {x \<in> X. \<not> x < xr} else X)"
    using True lb(3) by (auto simp: known_after_def known_def stale_def)
  have pos: "xr > 0" using lb(2) word_neq_0_conv by fastforce
  have "max lb xr = xr" using lb(2) by simp
  then show ?thesis
    using lb pos by (simp add: update_lower_bound_def create_window_eq drop X bound_after_def fun_upd_idem)
next
  case False
  then have nodrop: "dropped w c xr = []" "kept w c xr = entries w c" "known_after w c xr = known w c"
    by (simp_all add: dropped_def kept_def known_after_def stale_def)
  have b: "bufs [] = {}" by (simp add: bufs_def)
  show ?thesis
  proof (cases "reply_lower_bound w c")
    case None
    then show ?thesis
      by (auto simp: update_lower_bound_def create_window_eq nodrop bound_after_def b
          intro!: rwindow.equality)
  next
    case (Some lb)
    then obtain X where X: "reply_set w c = Some X" using ok by (auto simp: client_ok_def)
    have "\<not> lb < xr" using False Some by (simp add: raises_def)
    then show ?thesis using Some X
      by (auto simp: update_lower_bound_def create_window_eq nodrop bound_after_def b known_def
          fun_upd_idem max_def intro!: rwindow.equality)
  qed
qed

lemma checkduplicate_closed:
  assumes ok: "client_ok w c"
  shows "checkduplicate_and_update c x xr (create_window c w) =
    Inr (check_state c x xr w, verdict c x xr w, found c x xr w)"
proof -
  have none: "reply_lower_bound w c = None \<Longrightarrow> reply_set w c = None"
    "reply_lower_bound w c = None \<Longrightarrow> known_after w c xr = {}"
    using ok by (auto simp: client_ok_def known_after_def known_def)
  show ?thesis
    using none
    by (auto simp: checkduplicate_and_update_def update_lower_bound_closed [OF ok] remember_xid_def
        check_state_def verdict_def found_def insert_absorb fun_upd_idem split: option.split)
qed

section \<open>The invariant of the window\<close>

definition rw_seen :: "rwindow \<Rightarrow> (u32 \<times> u32) set" where
  "rw_seen w = {(c, x). x \<in> known w c \<or> (\<exists>lb. reply_lower_bound w c = Some lb \<and> x \<le> lb)}"

text \<open>
  Every client's window is sound, no two clients share a block, the window owns every
  allocated block (nothing leaks), and what has a reply or a running handler has been seen.
\<close>

definition rw_ok :: "rwsys \<Rightarrow> bool" where
  "rw_ok s \<longleftrightarrow> (\<forall>c. client_ok (rs_win s) c)
     \<and> (\<forall>c d. c \<noteq> d \<longrightarrow> bufs (entries (rs_win s) c) \<inter> bufs (entries (rs_win s) d) = {})
     \<and> dom (rw_heap (rs_win s)) = (\<Union>c. bufs (entries (rs_win s) c))
     \<and> (\<forall>c. \<forall>r\<in>set (entries (rs_win s) c). (c, rt_xid r) \<in> rw_seen (rs_win s))
     \<and> rs_pending s \<subseteq> rw_seen (rs_win s)
     \<and> (\<forall>(c, x)\<in>rs_pending s. x \<notin> rt_xid ` set (entries (rs_win s) c))"

lemma entries_check:
  "entries (check_state c x xr w) d = (if d = c then kept w c xr else entries w d)"
  by (simp add: entries_def check_state_def)

lemma known_check:
  "known (check_state c x xr w) d = (if d = c then insert x (known_after w c xr) else known w d)"
  by (simp add: known_def check_state_def)

lemma check_state_fields [simp]:
  "rw_heap (check_state c x xr w) = rw_heap w |` (- bufs (dropped w c xr))"
  "reply_lower_bound (check_state c x xr w) = (reply_lower_bound w)(c \<mapsto> bound_after w c xr)"
  "reply_set (check_state c x xr w) = (reply_set w)(c \<mapsto> insert x (known_after w c xr))"
  "reply_window (check_state c x xr w) = (reply_window w)(c \<mapsto> kept w c xr)"
  by (simp_all add: check_state_def)

lemma bound_after_ge: "reply_lower_bound w c = Some lb \<Longrightarrow> lb \<le> bound_after w c xr"
  by (simp add: bound_after_def)

lemma stale_bound: "stale w c xr x \<Longrightarrow> x \<le> bound_after w c xr"
  by (auto simp: stale_def raises_def bound_after_def less_imp_le max.coboundedI2 split: option.splits)

lemma known_or_bound: "x \<in> known w c \<Longrightarrow> x \<in> known_after w c xr \<or> x \<le> bound_after w c xr"
  by (auto simp: known_after_def stale_bound)

lemma set_kept: "set (kept w c xr) \<subseteq> set (entries w c)"
  by (auto simp: kept_def)

lemma bufs_kept: "bufs (kept w c xr) \<subseteq> bufs (entries w c)"
  by (auto simp: kept_def bufs_def)

lemma bufs_dropped: "bufs (dropped w c xr) \<subseteq> bufs (entries w c)"
  by (auto simp: dropped_def bufs_def)

lemma bufs_kept_dropped: "bufs (kept w c xr) \<union> bufs (dropped w c xr) = bufs (entries w c)"
  by (auto simp: dropped_def kept_def bufs_def)

lemma owned_inj: "owned h rs \<Longrightarrow> r \<in> set rs \<Longrightarrow> q \<in> set rs \<Longrightarrow> rt_buf r = rt_buf q \<Longrightarrow> r = q"
  by (auto simp: owned_def distinct_map dest: inj_onD)

lemma kept_dropped_disjoint: "owned h (entries w c) \<Longrightarrow> bufs (kept w c xr) \<inter> bufs (dropped w c xr) = {}"
  using owned_inj [of h "entries w c"] by (fastforce simp: bufs_def kept_def dropped_def)

lemma owned_restrict: "owned h rs \<Longrightarrow> bufs rs \<inter> A = {} \<Longrightarrow> owned (h |` (- A)) rs"
  by (fastforce simp: owned_def bufs_def restrict_map_def)

lemma seen_check: "rw_seen w \<subseteq> rw_seen (check_state c x xr w)"
proof
  fix p
  assume p: "p \<in> rw_seen w"
  obtain d y where dy: "p = (d, y)" by (cases p)
  show "p \<in> rw_seen (check_state c x xr w)"
  proof (cases "d = c")
    case True
    then have "y \<in> known w c \<or> (\<exists>lb. reply_lower_bound w c = Some lb \<and> y \<le> lb)"
      using p dy by (simp add: rw_seen_def)
    then have "y \<in> known_after w c xr \<or> y \<le> bound_after w c xr"
      using known_or_bound bound_after_ge order_trans by blast
    then show ?thesis using True dy by (auto simp: rw_seen_def known_check)
  next
    case False
    then show ?thesis using p dy by (simp add: rw_seen_def known_check)
  qed
qed

lemma seen_checked: "(c, x) \<in> rw_seen (check_state c x xr w)"
  by (simp add: rw_seen_def known_check)

lemma verdict_new: "verdict c x xr w = NEW \<Longrightarrow> (c, x) \<notin> rw_seen w"
proof -
  assume new: "verdict c x xr w = NEW"
  then have *: "x \<notin> known_after w c xr" "\<not> x \<le> bound_after w c xr"
    by (auto simp: verdict_def split: if_splits)
  have "x \<notin> known w c" using * known_or_bound by blast
  moreover have "\<not> x \<le> lb" if "reply_lower_bound w c = Some lb" for lb
    using *(2) bound_after_ge [OF that] order_trans by blast
  ultimately show ?thesis by (auto simp: rw_seen_def)
qed

lemma client_ok_check:
  assumes "\<forall>c. client_ok w c" "\<And>d. c \<noteq> d \<Longrightarrow> bufs (entries w c) \<inter> bufs (entries w d) = {}"
  shows "client_ok (check_state c x xr w) d"
proof (cases "d = c")
  case True
  have "owned (rw_heap w) (entries w c)" using assms(1) by (simp add: client_ok_def)
  then have "owned (rw_heap (check_state c x xr w)) (kept w c xr)"
    using owned_restrict owned_filter kept_dropped_disjoint by (simp add: check_state_def kept_def)
  moreover have "sorted_wrt (<) (map rt_xid (kept w c xr))"
    using assms(1) by (auto simp: client_ok_def kept_def sorted_wrt_map intro: sorted_wrt_filter)
  ultimately show ?thesis using True by (simp add: client_ok_def entries_check)
next
  case False
  then have "bufs (entries w d) \<inter> bufs (dropped w c xr) = {}"
    using assms(2) [of d] bufs_dropped [of w c xr] by blast
  moreover have "client_ok w d" using assms(1) by blast
  ultimately have "owned (rw_heap (check_state c x xr w)) (entries w d)"
    by (auto simp: check_state_def client_ok_def intro: owned_restrict)
  then show ?thesis using False \<open>client_ok w d\<close>
    by (simp add: client_ok_def entries_check)
qed

lemma heap_check:
  assumes "owned (rw_heap w) (entries w c)" "dom (rw_heap w) = (\<Union>d. bufs (entries w d))"
    "\<And>d. c \<noteq> d \<Longrightarrow> bufs (entries w c) \<inter> bufs (entries w d) = {}"
  shows "dom (rw_heap (check_state c x xr w)) = (\<Union>d. bufs (entries (check_state c x xr w) d))"
proof -
  have "dom (rw_heap (check_state c x xr w)) = (\<Union>d. bufs (entries w d)) - bufs (dropped w c xr)"
    using assms(2) by (auto simp: check_state_def)
  also have "\<dots> = (\<Union>d. bufs (entries (check_state c x xr w) d))"
  proof -
    have "bufs (entries w d) - bufs (dropped w c xr) = bufs (entries (check_state c x xr w) d)" for d
      using assms(3) [of d] bufs_dropped [of w c xr] kept_dropped_disjoint [OF assms(1), of xr]
        bufs_kept_dropped [of w c xr]
      by (auto simp: entries_check)
    then show ?thesis by blast
  qed
  finally show ?thesis .
qed

lemma find_reply_set: "find_reply x rs = Some r \<Longrightarrow> r \<in> set rs \<and> rt_xid r = x"
  by (induction rs) (auto split: if_splits)

lemma find_reply_None: "find_reply x rs = None \<longleftrightarrow> x \<notin> rt_xid ` set rs"
  by (induction rs) auto

lemma rw_ok_check:
  assumes "rw_ok \<lparr>rs_win = w, rs_pending = P\<rparr>"
  shows "rw_ok \<lparr>rs_win = check_state c x xr w,
    rs_pending = (if verdict c x xr w = NEW then insert (c, x) P else P)\<rparr>"
proof -
  have ok: "\<forall>c. client_ok w c" "\<And>c d. c \<noteq> d \<Longrightarrow> bufs (entries w c) \<inter> bufs (entries w d) = {}"
      "dom (rw_heap w) = (\<Union>d. bufs (entries w d))"
      "\<And>c r. r \<in> set (entries w c) \<Longrightarrow> (c, rt_xid r) \<in> rw_seen w" "P \<subseteq> rw_seen w"
      "\<And>c x. (c, x) \<in> P \<Longrightarrow> x \<notin> rt_xid ` set (entries w c)"
    using assms by (simp_all add: rw_ok_def split_beta) auto
  let ?w = "check_state c x xr w"
  have sub: "set (entries ?w d) \<subseteq> set (entries w d)" for d
    using set_kept by (simp add: entries_check)
  have subb: "bufs (entries ?w d) \<subseteq> bufs (entries w d)" for d
    using bufs_kept by (simp add: entries_check)
  have new: "x \<notin> rt_xid ` set (entries ?w c)" if "verdict c x xr w = NEW"
    using that by (auto simp: verdict_def find_reply_None entries_check split: if_splits)
  have own: "owned (rw_heap w) (entries w c)" using ok(1) by (simp add: client_ok_def)
  have dom: "dom (rw_heap ?w) = (\<Union>d. bufs (entries ?w d))"
    by (rule heap_check [OF own ok(3) ok(2)])
  show ?thesis
    unfolding rw_ok_def rwsys.simps
  proof (intro conjI allI impI ballI)
    show "client_ok ?w d" for d by (rule client_ok_check [OF ok(1,2)])
    show "bufs (entries ?w d) \<inter> bufs (entries ?w e) = {}" if "d \<noteq> e" for d e
      using ok(2) [OF that] subb by blast
    show "dom (rw_heap ?w) = (\<Union>d. bufs (entries ?w d))" by (rule dom)
    show "(d, rt_xid r) \<in> rw_seen ?w" if "r \<in> set (entries ?w d)" for d r
      using ok(4) [of r d] that sub [of d] seen_check [of w c x xr] by blast
    show "(if verdict c x xr w = NEW then insert (c, x) P else P) \<subseteq> rw_seen ?w"
      using ok(5) seen_check [of w c x xr] seen_checked [of c x xr w] by auto
    show "case q of (d, y) \<Rightarrow> y \<notin> rt_xid ` set (entries ?w d)"
      if "q \<in> (if verdict c x xr w = NEW then insert (c, x) P else P)" for q
    proof (cases q)
      case (Pair d y)
      then have "(d, y) \<in> P \<or> (d = c \<and> y = x \<and> verdict c x xr w = NEW)"
        using that by (auto split: if_splits)
      then have "y \<notin> rt_xid ` set (entries ?w d)" using new ok(6) [of d y] sub [of d] by blast
      then show ?thesis using Pair by simp
    qed
  qed
qed

lemma insert_reply_spec:
  "sorted_wrt (<) (map rt_xid rs) \<Longrightarrow> rt_xid q \<notin> rt_xid ` set rs \<Longrightarrow>
   \<exists>us vs. rs = us @ vs \<and> insert_reply q rs = Inr (us @ q # vs)
     \<and> (\<forall>u\<in>set us. rt_xid u < rt_xid q) \<and> (\<forall>v\<in>set vs. rt_xid q < rt_xid v)"
proof (induction rs)
  case (Cons r rs)
  show ?case
  proof (cases "rt_xid r < rt_xid q")
    case True
    obtain us vs where "rs = us @ vs" "insert_reply q rs = Inr (us @ q # vs)"
      "\<forall>u\<in>set us. rt_xid u < rt_xid q" "\<forall>v\<in>set vs. rt_xid q < rt_xid v"
      using Cons by auto
    then show ?thesis using True by (intro exI [of _ "r # us"] exI [of _ vs]) simp
  next
    case False
    then have "rt_xid q < rt_xid r" using Cons.prems(2) by auto
    then have "\<forall>v\<in>set (r # rs). rt_xid q < rt_xid v" using Cons.prems(1) by auto
    then show ?thesis using False Cons.prems(2)
      by (intro exI [of _ "[]"] exI [of _ "r # rs"]) (auto simp: VERIFY_def)
  qed
qed simp

definition new_reply :: "u32 \<Rightarrow> nat \<Rightarrow> byte list \<Rightarrow> reply_t" where
  "new_reply x a bs = \<lparr>rt_xid = x, rt_cb_present = True, rt_buf = Some a, rt_sz = length bs\<rparr>"

text \<open>A reply for a request whose handler runs goes to its place in the sorted list.\<close>

lemma add_reply_spec:
  assumes "client_ok w c" "reply_set w c \<noteq> None" "x \<notin> rt_xid ` set (entries w c)"
  obtains us vs where "entries w c = us @ vs"
    "add_reply c x (Some a) (length bs) (w\<lparr>rw_heap := h\<rparr>) =
       Inr (w\<lparr>rw_heap := h, reply_window := (reply_window w)(c \<mapsto> us @ new_reply x a bs # vs)\<rparr>)"
    "\<forall>u\<in>set us. rt_xid u < x" "\<forall>v\<in>set vs. x < rt_xid v"
proof -
  obtain rs where rs: "reply_window w c = Some rs" using assms(1,2) by (auto simp: client_ok_def)
  then have e: "entries w c = rs" by (simp add: entries_def)
  obtain us vs where *: "rs = us @ vs" "insert_reply (new_reply x a bs) rs = Inr (us @ new_reply x a bs # vs)"
    "\<forall>u\<in>set us. rt_xid u < x" "\<forall>v\<in>set vs. x < rt_xid v"
    using insert_reply_spec [of rs "new_reply x a bs"] assms(1,3) e
    by (auto simp: client_ok_def new_reply_def)
  moreover have "add_reply c x (Some a) (length bs) (w\<lparr>rw_heap := h\<rparr>) =
       Inr (w\<lparr>rw_heap := h, reply_window := (reply_window w)(c \<mapsto> us @ new_reply x a bs # vs)\<rparr>)"
    using rs *(2) by (simp add: add_reply_def reply_t_new_def new_reply_def)
  ultimately show thesis using that e by blast
qed

lemma bufs_simps [simp]:
  "bufs (xs @ ys) = bufs xs \<union> bufs ys" "bufs (new_reply x a bs # ys) = insert a (bufs ys)" "bufs [] = {}"
  by (auto simp: bufs_def new_reply_def)

lemma owned_bufs: "owned h rs \<Longrightarrow> bufs rs \<subseteq> dom h"
  by (auto simp: owned_def bufs_def)

lemma owned_update: "owned h rs \<Longrightarrow> h a = None \<Longrightarrow> owned (h(a \<mapsto> bs)) rs"
  by (fastforce simp: owned_def)

lemma owned_insert:
  assumes "owned h (us @ vs)" "h a = None"
  shows "owned (h(a \<mapsto> bs)) (us @ new_reply x a bs # vs)"
proof -
  have "rt_buf r \<noteq> Some a" if "r \<in> set (us @ vs)" for r
    using owned_bufs [OF assms(1)] assms(2) that by (force simp: bufs_def)
  then show ?thesis using assms by (fastforce simp: owned_def new_reply_def)
qed

definition reply_state :: "u32 \<Rightarrow> nat \<Rightarrow> byte list \<Rightarrow> reply_t list \<Rightarrow> rwindow \<Rightarrow> rwindow" where
  "reply_state c a bs rs w =
     w\<lparr>rw_heap := (rw_heap w)(a \<mapsto> bs), reply_window := (reply_window w)(c \<mapsto> rs)\<rparr>"

lemma reply_state_simps [simp]:
  "rw_heap (reply_state c a bs rs w) = (rw_heap w)(a \<mapsto> bs)"
  "reply_lower_bound (reply_state c a bs rs w) = reply_lower_bound w"
  "reply_set (reply_state c a bs rs w) = reply_set w"
  "reply_window (reply_state c a bs rs w) = (reply_window w)(c \<mapsto> rs)"
  "entries (reply_state c a bs rs w) d = (if d = c then rs else entries w d)"
  "known (reply_state c a bs rs w) = known w"
  "rw_seen (reply_state c a bs rs w) = rw_seen w"
  by (simp_all add: reply_state_def entries_def known_def rw_seen_def fun_eq_iff)

lemma rw_ok_reply:
  assumes ok: "rw_ok \<lparr>rs_win = w, rs_pending = P\<rparr>" and cx: "(c, x) \<in> P" and a: "rw_heap w a = None"
    and e: "entries w c = us @ vs" "\<forall>u\<in>set us. rt_xid u < x" "\<forall>v\<in>set vs. x < rt_xid v"
  shows "rw_ok \<lparr>rs_win = reply_state c a bs (us @ new_reply x a bs # vs) w, rs_pending = P - {(c, x)}\<rparr>"
proof -
  have o: "\<forall>c. client_ok w c" "\<And>c d. c \<noteq> d \<Longrightarrow> bufs (entries w c) \<inter> bufs (entries w d) = {}"
      "dom (rw_heap w) = (\<Union>d. bufs (entries w d))"
      "\<And>c r. r \<in> set (entries w c) \<Longrightarrow> (c, rt_xid r) \<in> rw_seen w" "P \<subseteq> rw_seen w"
      "\<And>c x. (c, x) \<in> P \<Longrightarrow> x \<notin> rt_xid ` set (entries w c)"
    using ok by (simp_all add: rw_ok_def split_beta) auto
  let ?rs = "us @ new_reply x a bs # vs"
  let ?w = "reply_state c a bs ?rs w"
  have cx': "(c, x) \<in> rw_seen w" using cx o(5) by blast
  have fresh: "a \<notin> bufs (entries w d)" for d using a o(3) by auto
  have key: "client_ok w c" "owned (rw_heap w) (us @ vs)" "sorted_wrt (<) (map rt_xid (us @ vs))"
    using o(1) e(1) unfolding client_ok_def by metis+
  have srt: "sorted_wrt (<) (map rt_xid ?rs)"
    using key(3) e(2,3) by (simp add: sorted_wrt_append new_reply_def)
  have some: "reply_set w c \<noteq> None"
    using cx' key(1) by (auto simp: client_ok_def rw_seen_def known_def split: option.splits)
  show ?thesis
    unfolding rw_ok_def rwsys.simps
  proof (intro conjI allI impI ballI)
    show "client_ok ?w d" for d
    proof (cases "d = c")
      case True
      then show ?thesis
        using key(1) srt some owned_insert [OF key(2) a] by (auto simp: client_ok_def)
    next
      case False
      then show ?thesis using o(1) owned_update [of "rw_heap w" _ a] a by (simp add: client_ok_def)
    qed
    show "bufs (entries ?w d) \<inter> bufs (entries ?w d') = {}" if "d \<noteq> d'" for d d'
      using o(2) [OF that] fresh [of d] fresh [of d'] e(1) that by auto
    show "dom (rw_heap ?w) = (\<Union>d. bufs (entries ?w d))"
    proof -
      have "bufs (entries ?w d) = (if d = c then insert a (bufs (entries w d)) else bufs (entries w d))" for d
        using e(1) by auto
      then have "(\<Union>d. bufs (entries ?w d)) = insert a (\<Union>d. bufs (entries w d))"
        by (auto split: if_splits) metis
      then show ?thesis using o(3) by simp
    qed
    show "(d, rt_xid r) \<in> rw_seen ?w" if "r \<in> set (entries ?w d)" for d r
      using that o(4) [of r d] cx' e(1) by (auto simp: new_reply_def split: if_splits)
    show "P - {(c, x)} \<subseteq> rw_seen ?w" using o(5) by auto
    show "case q of (d, y) \<Rightarrow> y \<notin> rt_xid ` set (entries ?w d)" if "q \<in> P - {(c, x)}" for q
    proof (cases q)
      case (Pair d y)
      then have "y \<notin> rt_xid ` set (entries w d)" "d = c \<longrightarrow> y \<noteq> x" using that o(6) [of d y] by auto
      then show ?thesis using Pair e(1) by (auto simp: new_reply_def)
    qed
  qed
qed

lemma rw_ok_client: "rw_ok s \<Longrightarrow> client_ok (rs_win s) c"
  by (simp add: rw_ok_def)

lemma rw_ok_seen: "rw_ok s \<Longrightarrow> r \<in> set (entries (rs_win s) c) \<Longrightarrow> (c, rt_xid r) \<in> rw_seen (rs_win s)"
  unfolding rw_ok_def by blast

lemma rw_ok_disjoint:
  "rw_ok s \<Longrightarrow> c \<noteq> d \<Longrightarrow> bufs (entries (rs_win s) c) \<inter> bufs (entries (rs_win s) d) = {}"
  unfolding rw_ok_def by blast

lemma rw_ok_heap: "rw_ok s \<Longrightarrow> dom (rw_heap (rs_win s)) = (\<Union>c. bufs (entries (rs_win s) c))"
  unfolding rw_ok_def by blast

lemma rw_ok_pending: "rw_ok s \<Longrightarrow> (c, x) \<in> rs_pending s \<Longrightarrow>
    reply_set (rs_win s) c \<noteq> None \<and> x \<notin> rt_xid ` set (entries (rs_win s) c)"
proof -
  assume ok: "rw_ok s" and cx: "(c, x) \<in> rs_pending s"
  then have "(c, x) \<in> rw_seen (rs_win s)" unfolding rw_ok_def by blast
  moreover have "reply_lower_bound (rs_win s) c = None \<longleftrightarrow> reply_set (rs_win s) c = None"
    using rw_ok_client [OF ok, of c] by (simp add: client_ok_def)
  ultimately have "reply_set (rs_win s) c \<noteq> None"
    by (auto simp: rw_seen_def known_def split: option.splits)
  then show ?thesis using ok cx unfolding rw_ok_def by blast
qed

text \<open>The creation of an empty window is invisible.\<close>

lemma create_window_same [simp]:
  "entries (create_window c w) = entries w" "known (create_window c w) = known w" "rw_heap (create_window c w) = rw_heap w"
  "reply_lower_bound (create_window c w) = reply_lower_bound w" "reply_set (create_window c w) = reply_set w"
  "rw_seen (create_window c w) = rw_seen w" "create_window c (create_window c w) = create_window c w"
  by (auto simp: create_window_def entries_def known_def rw_seen_def fun_eq_iff split: option.split)

lemma create_window_mono: "reply_window w d \<noteq> None \<Longrightarrow> reply_window (create_window c w) d \<noteq> None"
  by (simp add: create_window_def split: option.split)

lemma rw_ok_create: "rw_ok s \<Longrightarrow> rw_ok (s\<lparr>rs_win := create_window c (rs_win s)\<rparr>)"
  by (simp add: rw_ok_def client_ok_def create_window_mono)

text \<open>The kinds of steps in a state that satisfies the invariant.\<close>

lemma rw_step_cases:
  assumes "rw_ok s" "rw_step s e s'"
  obtains (check) c x xr where "e = Checked c x xr (verdict c x xr (rs_win s)) (found c x xr (rs_win s))"
      "s' = \<lparr>rs_win = check_state c x xr (rs_win s),
        rs_pending = (if verdict c x xr (rs_win s) = NEW then insert (c, x) (rs_pending s) else rs_pending s)\<rparr>"
  | (create) c where "e = Created c" "s' = s\<lparr>rs_win := create_window c (rs_win s)\<rparr>"
  | (reply) c x bs a us vs where "e = Replied c x bs" "(c, x) \<in> rs_pending s" "rw_heap (rs_win s) a = None"
      "entries (rs_win s) c = us @ vs" "\<forall>u\<in>set us. rt_xid u < x" "\<forall>v\<in>set vs. x < rt_xid v"
      "s' = \<lparr>rs_win = reply_state c a bs (us @ new_reply x a bs # vs) (rs_win s),
        rs_pending = rs_pending s - {(c, x)}\<rparr>"
  using assms(2)
proof cases
  case (check c x xr w w' st out P)
  then show thesis
    using that(1) [of c x xr] checkduplicate_closed [OF rw_ok_client [OF assms(1)], of c x xr] by simp
next
  case (create w P c)
  then show thesis using that(2) [of c] by simp
next
  case (reply c x P w a bs w')
  have "client_ok w c" "reply_set w c \<noteq> None" "x \<notin> rt_xid ` set (entries w c)"
    using rw_ok_client [OF assms(1)] rw_ok_pending [OF assms(1)] reply by auto
  then obtain us vs where "entries w c = us @ vs" "\<forall>u\<in>set us. rt_xid u < x" "\<forall>v\<in>set vs. x < rt_xid v"
    "add_reply c x (Some a) (length bs) (w\<lparr>rw_heap := (rw_heap w)(a \<mapsto> bs)\<rparr>) =
       Inr (w\<lparr>rw_heap := (rw_heap w)(a \<mapsto> bs), reply_window := (reply_window w)(c \<mapsto> us @ new_reply x a bs # vs)\<rparr>)"
    by (rule add_reply_spec)
  then show thesis using that(3) [of c x bs a us vs] reply by (simp add: reply_state_def)
qed

lemma rw_ok_step:
  assumes "rw_ok s" "rw_step s e s'"
  shows "rw_ok s'"
  using assms
proof (cases rule: rw_step_cases)
  case (check c x xr)
  then show ?thesis using assms(1) rw_ok_check [of "rs_win s" "rs_pending s" c x xr] by (cases s) simp
next
  case (create c)
  then show ?thesis using rw_ok_create [OF assms(1)] by simp
next
  case (reply c x bs a us vs)
  then show ?thesis
    using assms(1) rw_ok_reply [of "rs_win s" "rs_pending s" c x a us vs bs] by (cases s) simp
qed

primrec fresh_of :: "rwevent \<Rightarrow> (u32 \<times> u32) option" where
  "fresh_of (Checked c x xr st out) = (if st = NEW then Some (c, x) else None)"
| "fresh_of (Created c) = None"
| "fresh_of (Replied c x bs) = None"

interpretation window: once_filter rw_step rw_ok fresh_of "\<lambda>s. rw_seen (rs_win s)"
proof
  show "rw_ok s'" if "rw_ok s" "rw_step s e s'" for s e s' using that by (rule rw_ok_step)
  show "rw_seen (rs_win s) \<subseteq> rw_seen (rs_win s')" if "rw_ok s" "rw_step s e s'" for s e s'
    using that by (cases rule: rw_step_cases) (simp_all add: seen_check)
  show "k \<notin> rw_seen (rs_win s) \<and> k \<in> rw_seen (rs_win s')"
    if "rw_ok s" "rw_step s e s'" "fresh_of e = Some k" for s e s' k
    using that by (cases rule: rw_step_cases) (auto simp: verdict_new seen_checked split: if_splits)
qed

section \<open>Runs of the window\<close>

lemma rw_ok_init: "rw_ok \<lparr>rs_win = rwindow_init, rs_pending = {}\<rparr>"
  by (simp add: rw_ok_def rwindow_init_def client_ok_def entries_def owned_def)

lemma rw_run_path: "rw_run es s \<Longrightarrow> window.path \<lparr>rs_win = rwindow_init, rs_pending = {}\<rparr> es s"
  by (induction rule: rw_run.induct) (auto simp: window.path_append)

lemma rw_run_ok: "rw_run es s \<Longrightarrow> rw_ok s"
  using rw_run_path window.path_inv rw_ok_init by blast

text \<open>The replies of the window are those that the handlers made, and each request has one.\<close>

definition recorded :: "rwevent list \<Rightarrow> rwsys \<Rightarrow> bool" where
  "recorded es s \<longleftrightarrow>
     (\<forall>c. \<forall>r\<in>set (entries (rs_win s) c). \<exists>a bs. rt_buf r = Some a \<and> rw_heap (rs_win s) a = Some bs
        \<and> rt_sz r = length bs \<and> Replied c (rt_xid r) bs \<in> set es)
   \<and> (\<forall>c x bs. Replied c x bs \<in> set es \<longrightarrow> (c, x) \<in> rw_seen (rs_win s) \<and> (c, x) \<notin> rs_pending s)
   \<and> (\<forall>c x bs bs'. Replied c x bs \<in> set es \<longrightarrow> Replied c x bs' \<in> set es \<longrightarrow> bs = bs')"

lemma recorded_unique:
  "recorded es s \<Longrightarrow> Replied c x bs \<in> set es \<Longrightarrow> Replied c x bs' \<in> set es \<Longrightarrow> bs = bs'"
  unfolding recorded_def by blast

lemma recorded_entry:
  assumes "recorded es s" "r \<in> set (entries (rs_win s) c)"
  obtains a bs where "rt_buf r = Some a" "rw_heap (rs_win s) a = Some bs" "rt_sz r = length bs"
    "Replied c (rt_xid r) bs \<in> set es"
  using assms unfolding recorded_def by blast

lemma recorded_check:
  assumes ok: "rw_ok s" and rec: "recorded es s"
  shows "recorded (es @ [Checked c x xr st out]) \<lparr>rs_win = check_state c x xr (rs_win s),
    rs_pending = (if verdict c x xr (rs_win s) = NEW then insert (c, x) (rs_pending s) else rs_pending s)\<rparr>"
    (is "recorded ?es ?s")
proof -
  let ?w = "check_state c x xr (rs_win s)"
  have own: "owned (rw_heap (rs_win s)) (entries (rs_win s) c)"
    using rw_ok_client [OF ok] by (simp add: client_ok_def)
  have heap: "rw_heap ?w a = rw_heap (rs_win s) a" if "r \<in> set (entries ?w d)" "rt_buf r = Some a" for d r a
  proof -
    have "a \<in> bufs (entries ?w d)" using that by (auto simp: bufs_def)
    moreover have "bufs (entries ?w d) \<inter> bufs (dropped (rs_win s) c xr) = {}"
    proof (cases "d = c")
      case True
      then show ?thesis using kept_dropped_disjoint [OF own] by (simp add: entries_check)
    next
      case False
      then have "bufs (entries (rs_win s) d) \<inter> bufs (entries (rs_win s) c) = {}"
        using ok unfolding rw_ok_def by blast
      then show ?thesis using False bufs_dropped [of "rs_win s" c xr] by (auto simp: entries_check)
    qed
    ultimately have "a \<notin> bufs (dropped (rs_win s) c xr)" by blast
    then show ?thesis by simp
  qed
  have sub: "set (entries ?w d) \<subseteq> set (entries (rs_win s) d)" for d
    using set_kept by (simp add: entries_check)
  have "\<exists>a bs. rt_buf r = Some a \<and> rw_heap ?w a = Some bs \<and> rt_sz r = length bs \<and> Replied d (rt_xid r) bs \<in> set ?es"
    if "r \<in> set (entries ?w d)" for d r
  proof -
    have "r \<in> set (entries (rs_win s) d)" using that sub by blast
    then obtain a bs where "rt_buf r = Some a" "rw_heap (rs_win s) a = Some bs" "rt_sz r = length bs"
      "Replied d (rt_xid r) bs \<in> set es" using rec unfolding recorded_def by blast
    then show ?thesis using heap [OF that] by auto
  qed
  moreover have "(d, y) \<in> rw_seen ?w \<and> (d, y) \<notin> rs_pending ?s" if "Replied d y bs \<in> set ?es" for d y bs
  proof -
    have "Replied d y bs \<in> set es" using that by simp
    then have "(d, y) \<in> rw_seen (rs_win s)" "(d, y) \<notin> rs_pending s"
      using rec unfolding recorded_def by blast+
    then show ?thesis
      using seen_check [of "rs_win s" c x xr] verdict_new [of c x xr "rs_win s"] by auto
  qed
  moreover have "bs = bs'" if "Replied d y bs \<in> set ?es" "Replied d y bs' \<in> set ?es" for d y bs bs'
    using that rec unfolding recorded_def by auto
  ultimately show ?thesis unfolding recorded_def rwsys.simps by blast
qed

lemma recorded_create: "recorded es s \<Longrightarrow> recorded (es @ [Created c]) (s\<lparr>rs_win := create_window c (rs_win s)\<rparr>)"
  unfolding recorded_def by simp

lemma recorded_reply:
  assumes ok: "rw_ok s" and rec: "recorded es s" and cx: "(c, x) \<in> rs_pending s"
    and a: "rw_heap (rs_win s) a = None" and e: "entries (rs_win s) c = us @ vs"
  shows "recorded (es @ [Replied c x bs])
    \<lparr>rs_win = reply_state c a bs (us @ new_reply x a bs # vs) (rs_win s), rs_pending = rs_pending s - {(c, x)}\<rparr>"
    (is "recorded ?es ?s")
proof -
  let ?w = "reply_state c a bs (us @ new_reply x a bs # vs) (rs_win s)"
  have old: "\<exists>b cs. rt_buf r = Some b \<and> rw_heap ?w b = Some cs \<and> rt_sz r = length cs
      \<and> Replied d (rt_xid r) cs \<in> set ?es" if r: "r \<in> set (entries (rs_win s) d)" for d r
  proof -
    obtain b cs where "rt_buf r = Some b" "rw_heap (rs_win s) b = Some cs" "rt_sz r = length cs"
      "Replied d (rt_xid r) cs \<in> set es" using rec r unfolding recorded_def by blast
    then show ?thesis using a by (intro exI [of _ b] exI [of _ cs]) auto
  qed
  have "\<exists>b cs. rt_buf r = Some b \<and> rw_heap ?w b = Some cs \<and> rt_sz r = length cs
      \<and> Replied d (rt_xid r) cs \<in> set ?es" if "r \<in> set (entries ?w d)" for d r
  proof (cases "d = c \<and> r = new_reply x a bs")
    case True
    then show ?thesis by (auto simp: new_reply_def)
  next
    case False
    then have "r \<in> set (entries (rs_win s) d)" using that e by (auto split: if_splits)
    then show ?thesis by (rule old)
  qed
  moreover have none: "Replied c x bs' \<notin> set es" for bs' using rec cx unfolding recorded_def by blast
  moreover have "(c, x) \<in> rw_seen (rs_win s)" using ok cx unfolding rw_ok_def by blast
  then have "(d, y) \<in> rw_seen ?w \<and> (d, y) \<notin> rs_pending ?s" if "Replied d y bs' \<in> set ?es" for d y bs'
  proof -
    have "Replied d y bs' \<in> set es \<or> (d = c \<and> y = x)" using that by auto
    then have "(d, y) \<in> rw_seen (rs_win s)" "(d, y) \<notin> rs_pending s - {(c, x)}"
      using rec \<open>(c, x) \<in> rw_seen (rs_win s)\<close> unfolding recorded_def by blast+
    then show ?thesis by simp
  qed
  moreover have "bs1 = bs2" if "Replied d y bs1 \<in> set ?es" "Replied d y bs2 \<in> set ?es" for d y bs1 bs2
  proof -
    have "(Replied d y bs1 \<in> set es \<and> Replied d y bs2 \<in> set es) \<or> (bs1 = bs \<and> bs2 = bs)"
      using that none by auto
    then show ?thesis using rec unfolding recorded_def by blast
  qed
  ultimately show ?thesis unfolding recorded_def rwsys.simps by blast
qed

lemma rw_run_recorded: "rw_run es s \<Longrightarrow> recorded es s"
proof (induction rule: rw_run.induct)
  case start
  then show ?case by (simp add: recorded_def rwindow_init_def entries_def)
next
  case (more es s e s')
  note ok = rw_run_ok [OF more.hyps(1)]
  from ok more.hyps(2) show ?case
  proof (cases rule: rw_step_cases)
    case (check c x xr)
    then show ?thesis using recorded_check [OF ok more.IH] by simp
  next
    case (create c)
    then show ?thesis using recorded_create [OF more.IH] by simp
  next
    case (reply c x bs a us vs)
    then show ?thesis using recorded_reply [OF ok more.IH] by simp
  qed
qed

lemma verdict_unseen:
  assumes ok: "rw_ok s" and un: "(c, x) \<notin> rw_seen (rs_win s)" and "xr < x"
  shows "verdict c x xr (rs_win s) = NEW"
proof -
  have "x \<notin> rt_xid ` set (kept (rs_win s) c xr)"
    using rw_ok_seen [OF ok] un set_kept [of "rs_win s" c xr] by blast
  moreover have "x \<notin> known_after (rs_win s) c xr" using un by (simp add: rw_seen_def known_after_def)
  moreover have "\<not> x \<le> bound_after (rs_win s) c xr"
    using un \<open>xr < x\<close> by (auto simp: rw_seen_def bound_after_def max_def split: option.splits if_splits)
  ultimately show ?thesis by (simp add: verdict_def find_reply_None)
qed

lemma find_reply_here: "\<forall>u\<in>set us. rt_xid u < x \<Longrightarrow> rt_xid r = x \<Longrightarrow> find_reply x (us @ r # vs) = Some r"
  by (induction us) auto

text \<open>A request that is executed, answered and asked again with the same \<open>xid_rep\<close> gets the block of its reply.\<close>

lemma answered_again:
  assumes ok: "rw_ok \<lparr>rs_win = w, rs_pending = {}\<rparr>" and un: "(c, x) \<notin> rw_seen w" and "xr < x" and a: "rw_heap w a = None"
  defines "w1 \<equiv> check_state c x xr w"
  obtains w2 where "add_reply c x (Some a) (length bs) (w1\<lparr>rw_heap := (rw_heap w1)(a \<mapsto> bs)\<rparr>) = Inr w2"
    "rw_ok \<lparr>rs_win = w2, rs_pending = {}\<rparr>" "verdict c x xr w2 = DONE" "found c x xr w2 = Some (Some a, length bs)"
    "rw_heap w2 a = Some bs" "rw_heap (check_state c x xr w2) a = Some bs" "reply_window w2 c \<noteq> None"
    "\<forall>y. (c, y) \<in> rw_seen w2 \<longrightarrow> (c, y) \<in> rw_seen w \<or> y \<le> x" "dom (rw_heap w2) \<subseteq> insert a (dom (rw_heap w))"
proof -
  have new: "verdict c x xr w = NEW" using verdict_unseen [OF ok, of c x xr] un \<open>xr < x\<close> by simp
  have ok1: "rw_ok \<lparr>rs_win = w1, rs_pending = {(c, x)}\<rparr>"
    using rw_ok_check [OF ok, of c x xr] new by (simp add: w1_def)
  have a1: "rw_heap w1 a = None" using a by (simp add: w1_def restrict_map_def)
  have p: "reply_set w1 c \<noteq> None" "x \<notin> rt_xid ` set (entries w1 c)"
    using rw_ok_pending [OF ok1, of c x] by simp_all
  have c1: "client_ok w1 c" using rw_ok_client [OF ok1] by simp
  obtain us vs where uv: "entries w1 c = us @ vs"
    "add_reply c x (Some a) (length bs) (w1\<lparr>rw_heap := (rw_heap w1)(a \<mapsto> bs)\<rparr>) =
       Inr (w1\<lparr>rw_heap := (rw_heap w1)(a \<mapsto> bs), reply_window := (reply_window w1)(c \<mapsto> us @ new_reply x a bs # vs)\<rparr>)"
    "\<forall>u\<in>set us. rt_xid u < x" "\<forall>v\<in>set vs. x < rt_xid v"
    by (rule add_reply_spec [OF c1 p])
  define w2 where "w2 = reply_state c a bs (us @ new_reply x a bs # vs) w1"
  have ok2: "rw_ok \<lparr>rs_win = w2, rs_pending = {}\<rparr>"
    using rw_ok_reply [OF ok1 _ a1 uv(1,3,4), of bs] by (simp add: w2_def)
  have "\<not> raises w2 c xr" by (auto simp: raises_def w2_def w1_def bound_after_def max_def split: option.split)
  then have k: "kept w2 c xr = us @ new_reply x a bs # vs" "dropped w2 c xr = []"
    by (simp_all add: kept_def dropped_def stale_def w2_def)
  then have f: "find_reply x (kept w2 c xr) = Some (new_reply x a bs)"
    using uv(3) by (simp add: find_reply_here new_reply_def)
  have "(c, y) \<in> rw_seen w \<or> y \<le> x" if "(c, y) \<in> rw_seen w2" for y
  proof -
    have "rw_seen w2 = rw_seen w1" by (simp add: w2_def reply_state_def rw_seen_def known_def)
    then have "y = x \<or> y \<in> known_after w c xr \<or> y \<le> bound_after w c xr"
      using that by (simp add: w1_def rw_seen_def known_check)
    moreover have "y \<in> known w c" if "y \<in> known_after w c xr" using that by (simp add: known_after_def)
    moreover have "y \<le> xr \<or> (\<exists>lb. reply_lower_bound w c = Some lb \<and> y \<le> lb)" if "y \<le> bound_after w c xr"
      using that by (auto simp: bound_after_def max_def split: option.splits if_splits)
    ultimately show ?thesis using \<open>xr < x\<close> by (auto simp: rw_seen_def)
  qed
  moreover have "dom (rw_heap w2) \<subseteq> insert a (dom (rw_heap w))"
    by (auto simp: w2_def w1_def reply_state_def restrict_map_def split: if_splits)
  ultimately show thesis
    using that [of w2] uv(2) ok2 f k by (simp add: w2_def reply_state_def verdict_def found_def new_reply_def)
qed

section \<open>Properties\<close>

text \<open>A run in which a request is executed, answered, and asked for again.\<close>

definition demo_window :: rwindow where
  "demo_window = \<lparr>rw_heap = [0 \<mapsto> [7]],
     reply_window = [1 \<mapsto> [\<lparr>rt_xid = 1, rt_cb_present = True, rt_buf = Some 0, rt_sz = 1\<rparr>]],
     reply_lower_bound = [1 \<mapsto> 0], reply_set = [1 \<mapsto> {1}]\<rparr>"

lemma demo_executed:
  "rw_run [Checked 1 1 0 NEW None]
     \<lparr>rs_win = \<lparr>rw_heap = Map.empty, reply_window = [1 \<mapsto> []],
        reply_lower_bound = [1 \<mapsto> 0], reply_set = [1 \<mapsto> {1}]\<rparr>, rs_pending = {(1, 1)}\<rparr>"
proof -
  have "rw_step \<lparr>rs_win = rwindow_init, rs_pending = {}\<rparr> (Checked 1 1 0 NEW None)
    \<lparr>rs_win = \<lparr>rw_heap = Map.empty, reply_window = [1 \<mapsto> []],
        reply_lower_bound = [1 \<mapsto> 0], reply_set = [1 \<mapsto> {1}]\<rparr>,
     rs_pending = (if NEW = NEW then insert (1, 1) {} else {})\<rparr>"
    by (rule rw_step.check) (simp add: rwindow_init_def create_window_def checkduplicate_and_update_def
        update_lower_bound_def remember_xid_def)
  then show ?thesis using rw_run.more [OF rw_run.start] by force
qed

lemma demo_answered:
  "rw_run [Checked 1 1 0 NEW None, Replied 1 1 [7]] \<lparr>rs_win = demo_window, rs_pending = {}\<rparr>"
proof -
  let ?w = "\<lparr>rw_heap = Map.empty, reply_window = [1 \<mapsto> []],
        reply_lower_bound = [1 \<mapsto> 0], reply_set = [1 \<mapsto> {1}]\<rparr>"
  have "rw_step \<lparr>rs_win = ?w, rs_pending = {(1, 1)}\<rparr> (Replied 1 1 [7])
    \<lparr>rs_win = demo_window, rs_pending = {(1, 1)} - {(1, 1)}\<rparr>"
    by (rule rw_step.reply [where a = 0]) (simp_all add: add_reply_def reply_t_new_def demo_window_def)
  then show ?thesis using rw_run.more [OF demo_executed] by force
qed

lemma demo_repeat:
  "rw_step \<lparr>rs_win = demo_window, rs_pending = {}\<rparr> (Checked 1 1 0 DONE (Some (Some 0, 1)))
     \<lparr>rs_win = demo_window, rs_pending = {}\<rparr>"
proof -
  have "rw_step \<lparr>rs_win = demo_window, rs_pending = {}\<rparr> (Checked 1 1 0 DONE (Some (Some 0, 1)))
     \<lparr>rs_win = demo_window, rs_pending = (if DONE = NEW then insert (1, 1) {} else {})\<rparr>"
    by (rule rw_step.check) (simp add: demo_window_def create_window_def checkduplicate_and_update_def
        update_lower_bound_def remember_xid_def)
  then show ?thesis by simp
qed

lemma demo_asked_again:
  "rw_run [Checked 1 1 0 NEW None, Replied 1 1 [7], Checked 1 1 0 DONE (Some (Some 0, 1))]
     \<lparr>rs_win = demo_window, rs_pending = {}\<rparr>"
  using rw_run.more [OF demo_answered demo_repeat] by simp

text \<open>
  C9: at most once.  In every run, whatever the clients send and however the threads
  interleave, a request (client, xid) gets the verdict NEW, and so is executed, at most once.
\<close>

theorem window_at_most_once:
  assumes "rw_run es s"
  shows "length (filter (\<lambda>e. fresh_of e = Some (c, x)) es) \<le> 1"
  using window.fresh_at_most_once [OF rw_run_path [OF assms] rw_ok_init]
  by (simp add: window.times_fresh_def)

theorem window_at_most_once_witness:
  "length (filter (\<lambda>e. fresh_of e = Some (1, 1))
     [Checked 1 1 0 NEW None, Replied 1 1 [7], Checked 1 1 0 DONE (Some (Some 0, 1))]) \<le> 1"
  using window_at_most_once [OF demo_asked_again] .

text \<open>
  C13: in every reachable state \<open>checkduplicate_and_update\<close> does what its closed form says: it
  never fails a VERIFY and never frees a block twice; the verdict is DONE when a reply that
  the new bound does not make stale is kept, else INPROGRESS when the xid is still known,
  else FORGOTTEN up to the bound and NEW above it; exactly the stale replies are freed.
\<close>

theorem checkduplicate_refines_spec:
  assumes "rw_run es s"
  shows "checkduplicate_and_update c x xr (create_window c (rs_win s)) =
    Inr (check_state c x xr (rs_win s), verdict c x xr (rs_win s), found c x xr (rs_win s))"
  by (rule checkduplicate_closed [OF rw_ok_client [OF rw_run_ok [OF assms]]])

theorem checkduplicate_refines_spec_witness:
  "checkduplicate_and_update 1 1 2 (create_window 1 demo_window) =
     Inr (check_state 1 1 2 demo_window, verdict 1 1 2 demo_window, found 1 1 2 demo_window)"
  using checkduplicate_refines_spec [OF demo_answered, of 1 1 2] by simp

text \<open>
  a request is NEW exactly when it was never seen (neither remembered nor at or below
  the client's bound) and its xid is above the xid_rep it carries: a fresh request of a client
  whose xids grow is never refused.
\<close>

theorem new_iff_unseen:
  assumes "rw_run es s" "rw_step s (Checked c x xr st out) s'"
  shows "st = NEW \<longleftrightarrow> (c, x) \<notin> rw_seen (rs_win s) \<and> xr < x"
proof -
  note ok = rw_run_ok [OF assms(1)]
  have st: "st = verdict c x xr (rs_win s)"
    using ok assms(2) by (cases rule: rw_step_cases) auto
  have xr: "xr \<le> bound_after (rs_win s) c xr" by (simp add: bound_after_def split: option.split)
  have "verdict c x xr (rs_win s) = NEW" if "(c, x) \<notin> rw_seen (rs_win s)" "xr < x"
    using that by (rule verdict_unseen [OF ok])
  moreover have "xr < x" if "verdict c x xr (rs_win s) = NEW"
    using that xr by (auto simp: verdict_def split: if_splits)
  ultimately show ?thesis using st verdict_new [of c x xr "rs_win s"] by auto
qed

theorem new_iff_unseen_witness:
  "DONE = NEW \<longleftrightarrow> (1, 1) \<notin> rw_seen demo_window \<and> (0::u32) < 1"
  using new_iff_unseen [OF demo_answered demo_repeat] by simp

lemma done_recorded:
  assumes "rw_run es s" "rw_step s (Checked c x xr DONE out) s'"
  shows "\<exists>a bs. out = Some (Some a, length bs) \<and> rw_heap (rs_win s') a = Some bs
    \<and> Replied c x bs \<in> set es \<and> (\<forall>bs'. Replied c x bs' \<in> set es \<longrightarrow> bs' = bs)"
proof -
  have "rw_run (es @ [Checked c x xr DONE out]) s'" using assms by (rule rw_run.more)
  then have rec: "recorded (es @ [Checked c x xr DONE out]) s'" by (rule rw_run_recorded)
  from rw_run_ok [OF assms(1)] assms(2) obtain r where r: "r \<in> set (entries (rs_win s') c)" "rt_xid r = x"
    "out = Some (rt_buf r, rt_sz r)"
    by (cases rule: rw_step_cases)
      (auto simp: verdict_def found_def entries_check dest: find_reply_set split: if_splits)
  obtain a bs where "rt_buf r = Some a" "rw_heap (rs_win s') a = Some bs" "rt_sz r = length bs"
    "Replied c (rt_xid r) bs \<in> set (es @ [Checked c x xr DONE out])"
    using rec r(1) by (rule recorded_entry)
  then have b: "rt_buf r = Some a" "rw_heap (rs_win s') a = Some bs" "rt_sz r = length bs"
    "Replied c x bs \<in> set es" using r(2) by simp_all
  moreover have "out = Some (Some a, length bs)" using r(3) b by simp
  moreover have "\<forall>bs'. Replied c x bs' \<in> set es \<longrightarrow> bs' = bs"
    using recorded_unique [OF rw_run_recorded [OF assms(1)] _ b(4)] by blast
  ultimately show ?thesis by blast
qed

text \<open>
  a duplicate that is answered DONE gets the address and the size of a live block that
  holds exactly the bytes of the reply which the one execution of that request made.
\<close>

theorem done_returns_recorded_reply:
  assumes "rw_run es s" "rw_step s (Checked c x xr DONE out) s'"
  shows "\<exists>a bs. out = Some (Some a, length bs) \<and> rw_heap (rs_win s') a = Some bs
    \<and> Replied c x bs \<in> set es \<and> (\<forall>bs'. Replied c x bs' \<in> set es \<longrightarrow> bs' = bs)"
  using assms by (rule done_recorded)

theorem done_returns_recorded_reply_witness:
  "\<exists>a bs. Some (Some 0, 1) = Some (Some a, length bs) \<and> rw_heap demo_window a = Some bs
    \<and> Replied 1 1 bs \<in> set [Checked 1 1 0 NEW None, Replied 1 1 [7]]"
  using done_returns_recorded_reply [OF demo_answered demo_repeat] unfolding rwsys.simps by metis

text \<open>
  every reply a handler delivers is accepted: for a request that is being executed and
  a freshly allocated buffer, \<open>add_reply\<close> fails no VERIFY, keeps the client's list strictly sorted
  by xid and adds exactly that one entry.
\<close>

theorem add_reply_accepted:
  assumes "rw_run es s" "(c, x) \<in> rs_pending s" "rw_heap (rs_win s) a = None"
  shows "\<exists>w'. add_reply c x (Some a) (length bs) ((rs_win s)\<lparr>rw_heap := (rw_heap (rs_win s))(a \<mapsto> bs)\<rparr>) = Inr w'
    \<and> sorted_wrt (<) (map rt_xid (entries w' c))
    \<and> set (entries w' c) = insert (new_reply x a bs) (set (entries (rs_win s) c))
    \<and> (\<forall>d. d \<noteq> c \<longrightarrow> entries w' d = entries (rs_win s) d)"
proof -
  note ok = rw_run_ok [OF assms(1)]
  note pend = rw_ok_pending [OF ok assms(2)]
  obtain us vs where e: "entries (rs_win s) c = us @ vs" "\<forall>u\<in>set us. rt_xid u < x" "\<forall>v\<in>set vs. x < rt_xid v"
    "add_reply c x (Some a) (length bs) ((rs_win s)\<lparr>rw_heap := (rw_heap (rs_win s))(a \<mapsto> bs)\<rparr>) =
       Inr (reply_state c a bs (us @ new_reply x a bs # vs) (rs_win s))"
    using add_reply_spec [OF rw_ok_client [OF ok] conjunct1 [OF pend] conjunct2 [OF pend]]
    unfolding reply_state_def by metis
  have "sorted_wrt (<) (map rt_xid (us @ vs))"
    using rw_ok_client [OF ok, of c] e(1) by (simp add: client_ok_def)
  then have "sorted_wrt (<) (map rt_xid (us @ new_reply x a bs # vs))"
    using e(2,3) by (simp add: sorted_wrt_append new_reply_def)
  then show ?thesis using e(1,4) by auto
qed

theorem add_reply_accepted_witness:
  "\<exists>w'. add_reply 1 1 (Some 0) (length [7]) \<lparr>rw_heap = [0 \<mapsto> [7]], reply_window = [1 \<mapsto> []],
        reply_lower_bound = [1 \<mapsto> 0], reply_set = [1 \<mapsto> {1}]\<rparr> = Inr w'"
  using add_reply_accepted [OF demo_executed, of 1 1 0 "[7]"] by auto

text \<open>
  clients do not disturb each other: a check for one client leaves the bound, the
  remembered xids and the replies of every other client, and the bytes of those replies.
\<close>

theorem check_isolates_clients:
  assumes "rw_run es s" "rw_step s (Checked c x xr st out) s'" "d \<noteq> c"
  shows "entries (rs_win s') d = entries (rs_win s) d \<and> known (rs_win s') d = known (rs_win s) d
    \<and> reply_lower_bound (rs_win s') d = reply_lower_bound (rs_win s) d
    \<and> (\<forall>a\<in>bufs (entries (rs_win s) d). rw_heap (rs_win s') a = rw_heap (rs_win s) a)"
proof -
  note ok = rw_run_ok [OF assms(1)]
  have s': "rs_win s' = check_state c x xr (rs_win s)"
    using ok assms(2) by (cases rule: rw_step_cases) auto
  have "a \<notin> bufs (dropped (rs_win s) c xr)" if "a \<in> bufs (entries (rs_win s) d)" for a
    using rw_ok_disjoint [OF ok assms(3)] bufs_dropped [of "rs_win s" c xr] that by blast
  then show ?thesis using s' assms(3) by (simp add: entries_check known_check)
qed

lemma demo_other_client:
  "rw_step \<lparr>rs_win = demo_window, rs_pending = {}\<rparr> (Checked 2 1 0 NEW None)
     \<lparr>rs_win = check_state 2 1 0 demo_window, rs_pending = {(2, 1)}\<rparr>"
proof -
  have "verdict 2 1 0 demo_window = NEW" "found 2 1 0 demo_window = None"
    by (simp_all add: verdict_def found_def kept_def entries_def known_after_def known_def bound_after_def
        demo_window_def)
  moreover have "client_ok demo_window 2" using rw_ok_client [OF rw_run_ok [OF demo_answered]] by simp
  ultimately have "rw_step \<lparr>rs_win = demo_window, rs_pending = {}\<rparr> (Checked 2 1 0 NEW None)
     \<lparr>rs_win = check_state 2 1 0 demo_window, rs_pending = (if NEW = NEW then insert (2, 1) {} else {})\<rparr>"
    by (intro rw_step.check) (simp add: checkduplicate_closed)
  then show ?thesis by simp
qed

theorem check_isolates_clients_witness:
  "entries (check_state 2 1 0 demo_window) 1 = entries demo_window 1
    \<and> rw_heap (check_state 2 1 0 demo_window) 0 = Some [7]"
  using check_isolates_clients [OF demo_answered demo_other_client, of 1]
  by (simp add: entries_def bufs_def demo_window_def)

text \<open>A run that acknowledges the answered request, so that its reply is dropped.\<close>

definition demo_acked :: rwindow where
  "demo_acked = \<lparr>rw_heap = Map.empty, reply_window = [1 \<mapsto> []],
     reply_lower_bound = [1 \<mapsto> 2], reply_set = [1 \<mapsto> {1, 3}]\<rparr>"

lemma demo_ack:
  "rw_step \<lparr>rs_win = demo_window, rs_pending = {}\<rparr> (Checked 1 3 2 NEW None)
     \<lparr>rs_win = demo_acked, rs_pending = {(1, 3)}\<rparr>"
proof -
  have "rw_step \<lparr>rs_win = demo_window, rs_pending = {}\<rparr> (Checked 1 3 2 NEW None)
     \<lparr>rs_win = demo_acked, rs_pending = (if NEW = NEW then insert (1, 3) {} else {})\<rparr>"
    by (rule rw_step.check) (simp add: demo_window_def demo_acked_def create_window_def
        checkduplicate_and_update_def update_lower_bound_def remember_xid_def free_block_def insert_commute)
  then show ?thesis by simp
qed

lemma demo_forget:
  "rw_step \<lparr>rs_win = demo_acked, rs_pending = {(1, 3)}\<rparr> (Checked 1 2 2 FORGOTTEN None)
     \<lparr>rs_win = demo_acked\<lparr>reply_set := [1 \<mapsto> {1, 2, 3}]\<rparr>, rs_pending = {(1, 3)}\<rparr>"
proof -
  have "rw_step \<lparr>rs_win = demo_acked, rs_pending = {(1, 3)}\<rparr> (Checked 1 2 2 FORGOTTEN None)
     \<lparr>rs_win = demo_acked\<lparr>reply_set := [1 \<mapsto> {1, 2, 3}]\<rparr>,
      rs_pending = (if FORGOTTEN = NEW then insert (1, 2) {(1, 3)} else {(1, 3)})\<rparr>"
    by (rule rw_step.check) (simp add: demo_acked_def create_window_def
        checkduplicate_and_update_def update_lower_bound_def remember_xid_def insert_commute)
  then show ?thesis by simp
qed

lemma demo_forget_again:
  "rw_step \<lparr>rs_win = demo_acked\<lparr>reply_set := [1 \<mapsto> {1, 2, 3}]\<rparr>, rs_pending = {(1, 3)}\<rparr>
     (Checked 1 2 2 INPROGRESS None)
     \<lparr>rs_win = demo_acked\<lparr>reply_set := [1 \<mapsto> {1, 2, 3}]\<rparr>, rs_pending = {(1, 3)}\<rparr>"
proof -
  have "rw_step \<lparr>rs_win = demo_acked\<lparr>reply_set := [1 \<mapsto> {1, 2, 3}]\<rparr>, rs_pending = {(1, 3)}\<rparr>
     (Checked 1 2 2 INPROGRESS None)
     \<lparr>rs_win = demo_acked\<lparr>reply_set := [1 \<mapsto> {1, 2, 3}]\<rparr>,
      rs_pending = (if INPROGRESS = NEW then insert (1, 2) {(1, 3)} else {(1, 3)})\<rparr>"
    by (rule rw_step.check) (simp add: demo_acked_def create_window_def
        checkduplicate_and_update_def update_lower_bound_def remember_xid_def)
  then show ?thesis by simp
qed

lemma demo_acked_run:
  "rw_run [Checked 1 1 0 NEW None, Replied 1 1 [7], Checked 1 3 2 NEW None]
     \<lparr>rs_win = demo_acked, rs_pending = {(1, 3)}\<rparr>"
  using rw_run.more [OF demo_answered demo_ack] by simp

text \<open>
  the verdict FORGOTTEN is given only once.  The check that answers FORGOTTEN also
  remembers the xid, so the same request sent again is answered INPROGRESS, for which
  \<open>dispatch\<close> sends nothing, although no handler was started for it by the first check.
\<close>

theorem forgotten_then_in_progress:
  assumes "rw_run es s" "rw_step s (Checked c x xr FORGOTTEN out) s'"
    and "rw_step s' (Checked c x xr st out') s''"
  shows "st = INPROGRESS \<and> rs_pending s'' = rs_pending s"
proof -
  note ok = rw_run_ok [OF assms(1)]
  note ok' = rw_ok_step [OF ok assms(2)]
  have s': "s' = \<lparr>rs_win = check_state c x xr (rs_win s), rs_pending = rs_pending s\<rparr>"
    and v: "verdict c x xr (rs_win s) = FORGOTTEN"
    using ok assms(2) by (cases rule: rw_step_cases; simp)+
  let ?w = "check_state c x xr (rs_win s)"
  have "\<not> raises ?w c xr" by (auto simp: raises_def bound_after_def max_def split: option.split)
  then have "kept ?w c xr = kept (rs_win s) c xr" "known_after ?w c xr = known ?w c"
    by (simp_all add: kept_def [of ?w] stale_def known_after_def entries_check)
  then have "verdict c x xr ?w = INPROGRESS"
    using v by (auto simp: verdict_def known_check split: if_splits)
  then show ?thesis using s' by (rule_tac rw_step_cases [OF ok' assms(3)]) auto
qed

theorem forgotten_then_in_progress_witness:
  "INPROGRESS = INPROGRESS \<and> {(1::u32, 3::u32)} = {(1, 3)}"
  using forgotten_then_in_progress [OF demo_acked_run demo_forget demo_forget_again] by simp

text \<open>
  a reply that was handed out with DONE is freed by a later check of the same client
  whose xid_rep is above both the old bound and the reply's xid, so a thread that has not yet sent
  the buffer, which \<open>dispatch\<close> does outside the lock, reads freed memory.
\<close>

theorem done_reply_can_be_freed:
  assumes "rw_run es s" "rw_step s (Checked c x xr DONE (Some (Some a, n))) s'"
    and "rw_step s' (Checked c y yr st out) s''"
    and "reply_lower_bound (rs_win s') c = Some lb" "lb < yr" "x < yr"
  shows "rw_heap (rs_win s'') a = None"
proof -
  note ok = rw_run_ok [OF assms(1)]
  note ok' = rw_ok_step [OF ok assms(2)]
  from ok assms(2) obtain r where r: "r \<in> set (entries (rs_win s') c)" "rt_xid r = x" "rt_buf r = Some a"
    by (cases rule: rw_step_cases)
      (auto simp: verdict_def found_def entries_check dest: find_reply_set split: if_splits)
  then have "r \<in> set (dropped (rs_win s') c yr)"
    using assms(4-6) by (simp add: dropped_def stale_def raises_def)
  then have "a \<in> bufs (dropped (rs_win s') c yr)" using r(3) by (auto simp: bufs_def)
  moreover have "rs_win s'' = check_state c y yr (rs_win s')"
    using ok' assms(3) by (cases rule: rw_step_cases) auto
  ultimately show ?thesis by simp
qed

theorem done_reply_can_be_freed_witness: "rw_heap demo_acked 0 = None"
  using done_reply_can_be_freed [OF demo_answered demo_repeat demo_ack, of 0]
  by (simp add: demo_window_def)

text \<open>The server's destructor.\<close>

lemma free_clients_all:
  assumes "distinct clts" "\<forall>c\<in>set clts. owned (rw_heap w) (entries w c)"
    "\<forall>c d. c \<noteq> d \<longrightarrow> bufs (entries w c) \<inter> bufs (entries w d) = {}"
  shows "\<exists>w'. free_clients clts w = Inr w' \<and> rw_heap w' = rw_heap w |` (- (\<Union>c\<in>set clts. bufs (entries w c)))"
  using assms
proof (induction clts arbitrary: w)
  case (Cons c clts)
  show ?case
  proof (cases "reply_window w c")
    case None
    then have "bufs (entries w c) = {}" by (simp add: entries_def)
    then show ?thesis using Cons None by simp
  next
    case (Some rs)
    then have e: "entries w c = rs" by (simp add: entries_def)
    let ?w = "w\<lparr>rw_heap := rw_heap w |` (- bufs rs), reply_window := (reply_window w)(c \<mapsto> [])\<rparr>"
    have en: "entries ?w d = (if d = c then [] else entries w d)" for d by (simp add: entries_def)
    have "owned (rw_heap ?w) (entries ?w d)" if "d \<in> set clts" for d
    proof -
      have "d \<noteq> c" using Cons.prems(1) that by auto
      then have "bufs (entries w d) \<inter> bufs rs = {}" using Cons.prems(3) e by metis
      moreover have "owned (rw_heap w) (entries w d)" using Cons.prems(2) that by simp
      ultimately show ?thesis using \<open>d \<noteq> c\<close> en by (simp add: owned_restrict)
    qed
    moreover have "\<forall>d d'. d \<noteq> d' \<longrightarrow> bufs (entries ?w d) \<inter> bufs (entries ?w d') = {}"
      using Cons.prems(3) en by simp
    ultimately obtain w' where w': "free_clients clts ?w = Inr w'"
      "rw_heap w' = rw_heap ?w |` (- (\<Union>d\<in>set clts. bufs (entries ?w d)))"
      using Cons.IH [of ?w] Cons.prems(1) by auto
    have "(\<Union>d\<in>set clts. bufs (entries ?w d)) = (\<Union>d\<in>set clts. bufs (entries w d))"
      using Cons.prems(1) by (intro SUP_cong) (auto simp: en)
    moreover have "free_clients (c # clts) w = Inr w'"
      using Some w'(1) free_replies_owned [of "rw_heap w" rs] Cons.prems(2) e by simp
    ultimately show ?thesis using w'(2) e by (simp add: Int_commute)
  qed
qed simp

text \<open>
  \<open>free_reply_window\<close>, run over the clients of the map, frees every reply buffer exactly once:
  no block is freed twice and none is left.
\<close>

theorem free_reply_window_frees_all:
  assumes "rw_run es s" "distinct clts" "set clts = dom (reply_window (rs_win s))"
  shows "\<exists>w'. free_reply_window clts (rs_win s) = Inr w' \<and> rw_heap w' = Map.empty \<and> reply_window w' = Map.empty"
proof -
  note ok = rw_run_ok [OF assms(1)]
  have "\<forall>c\<in>set clts. owned (rw_heap (rs_win s)) (entries (rs_win s) c)"
    using rw_ok_client [OF ok] by (simp add: client_ok_def)
  then obtain w' where w': "free_clients clts (rs_win s) = Inr w'"
    "rw_heap w' = rw_heap (rs_win s) |` (- (\<Union>c\<in>set clts. bufs (entries (rs_win s) c)))"
    using free_clients_all [OF assms(2)] rw_ok_disjoint [OF ok] by metis
  have "bufs (entries (rs_win s) c) = {}" if "c \<notin> set clts" for c
    using that assms(3) by (simp add: entries_def domIff)
  then have "(\<Union>c. bufs (entries (rs_win s) c)) \<subseteq> (\<Union>c\<in>set clts. bufs (entries (rs_win s) c))" by blast
  then have "dom (rw_heap (rs_win s)) \<subseteq> (\<Union>c\<in>set clts. bufs (entries (rs_win s) c))"
    unfolding rw_ok_heap [OF ok] .
  then have "rw_heap w' = Map.empty" using w'(2) by (auto simp: restrict_map_def fun_eq_iff)
  then show ?thesis using w'(1) by (simp add: free_reply_window_def)
qed

theorem free_reply_window_frees_all_witness:
  "\<exists>w'. free_reply_window [1] demo_window = Inr w' \<and> rw_heap w' = Map.empty \<and> reply_window w' = Map.empty"
  using free_reply_window_frees_all [OF demo_answered, of "[1]"] by (simp add: demo_window_def)

end
