(* ===== verification/Poll_Mgr.thy ===== *)
theory Poll_Mgr
  imports Rpc_Prelude
begin

text \<open>
  The event loop of \<^verbatim>\<open>rpc/pollmgr.h\<close> and \<^verbatim>\<open>rpc/pollmgr.cc\<close>: the two implementations of
  \<open>aio_mgr\<close>, over \<open>select\<close> and over \<open>epoll\<close>, and \<open>PollMgr\<close>, which calls back the objects
  that registered for a file descriptor.

  A descriptor is a \<open>nat\<close>; an \<open>fd_set\<close> is a set of them with the fault of an access at or
  above \<open>FD_SETSIZE\<close>, which is outside the array.  \<open>select\<close>, \<open>epoll_ctl\<close> and the wake-up pipe are
  the operating system's: what \<open>select\<close> answers is an argument, the interest list of \<open>epoll\<close>
  and the bytes in the pipe are part of the state.

  The locale \<open>aio_manager\<close> is the abstract class \<open>aio_mgr\<close> with the laws that \<open>PollMgr\<close> relies
  on; both implementations are interpretations of it.  The law of \<open>is_watched\<close> is in the
  extension \<open>aio_query\<close>, which only the implementation over \<open>select\<close> satisfies.
\<close>

section \<open>The implementation over select\<close>

definition MAX_POLL_FDS :: nat where "MAX_POLL_FDS = 128"
definition FD_SETSIZE :: nat where "FD_SETSIZE = 1024"

datatype poll_flag = CB_NONE | CB_RDONLY | CB_WRONLY | CB_RDWR | CB_MASK

text \<open>The values of the enumeration.\<close>

primrec flag_val :: "poll_flag \<Rightarrow> i32" where
  "flag_val CB_NONE = 0x0"
| "flag_val CB_RDONLY = 0x1"
| "flag_val CB_WRONLY = 0x10"
| "flag_val CB_RDWR = 0x11"
| "flag_val CB_MASK = NOT 0x11"

record select_aio =
  sa_rfds :: "nat set"
  sa_wfds :: "nat set"
  sa_highfds :: nat
  sa_pipefd :: nat
  sa_pipe :: nat

text \<open>The constructor, given the read end of the pipe.\<close>

definition SelectAIO_new :: "nat \<Rightarrow> select_aio" where
  "SelectAIO_new p = \<lparr>sa_rfds = {p}, sa_wfds = {}, sa_highfds = p, sa_pipefd = p, sa_pipe = 0\<rparr>"

definition fd_ok :: "nat \<Rightarrow> unit result" where
  "fd_ok fd = (if fd < FD_SETSIZE then Inr () else Inl Out_Of_Bounds)"

definition sel_watch_fd :: "nat \<Rightarrow> poll_flag \<Rightarrow> select_aio \<Rightarrow> select_aio result" where
  "sel_watch_fd fd flag s =
     bind_r (fd_ok fd) (\<lambda>_.
     let s = (if sa_highfds s \<le> fd then s\<lparr>sa_highfds := fd\<rparr> else s);
         s = (if flag = CB_RDONLY then s\<lparr>sa_rfds := insert fd (sa_rfds s)\<rparr>
              else if flag = CB_WRONLY then s\<lparr>sa_wfds := insert fd (sa_wfds s)\<rparr>
              else s\<lparr>sa_rfds := insert fd (sa_rfds s), sa_wfds := insert fd (sa_wfds s)\<rparr>)
     in Inr (s\<lparr>sa_pipe := Suc (sa_pipe s)\<rparr>))"

definition sel_is_watched :: "nat \<Rightarrow> poll_flag \<Rightarrow> select_aio \<Rightarrow> bool result" where
  "sel_is_watched fd flag s =
     bind_r (fd_ok fd) (\<lambda>_.
     Inr (if flag = CB_RDONLY then fd \<in> sa_rfds s
          else if flag = CB_WRONLY then fd \<in> sa_wfds s
          else fd \<in> sa_rfds s \<and> fd \<in> sa_wfds s))"

text \<open>The loop that looks for the highest descriptor still set.\<close>

definition new_high :: "select_aio \<Rightarrow> nat" where
  "new_high s = foldl (\<lambda>newh i. if i \<in> sa_rfds s then i else if i \<in> sa_wfds s then i else newh)
     (sa_pipefd s) [0..<Suc (sa_highfds s)]"

definition sel_unwatch_fd :: "nat \<Rightarrow> poll_flag \<Rightarrow> select_aio \<Rightarrow> (bool \<times> select_aio) result" where
  "sel_unwatch_fd fd flag s =
     bind_r (fd_ok fd) (\<lambda>_.
     bind_r (if flag = CB_RDONLY then Inr (s\<lparr>sa_rfds := sa_rfds s - {fd}\<rparr>)
             else if flag = CB_WRONLY then Inr (s\<lparr>sa_wfds := sa_wfds s - {fd}\<rparr>)
             else if flag = CB_RDWR then Inr (s\<lparr>sa_wfds := sa_wfds s - {fd}, sa_rfds := sa_rfds s - {fd}\<rparr>)
             else Inl Verify_Failed) (\<lambda>s.
     let s = (if fd \<notin> sa_rfds s \<and> fd \<notin> sa_wfds s \<and> fd = sa_highfds s
              then s\<lparr>sa_highfds := new_high s\<rparr> else s);
         s = (if flag = CB_RDWR then s\<lparr>sa_pipe := Suc (sa_pipe s)\<rparr> else s)
     in Inr (fd \<notin> sa_rfds s \<and> fd \<notin> sa_wfds s, s)))"

text \<open>
  \<open>wait_ready\<close> copies the sets, calls \<open>select\<close> on the copies, and collects what is ready.  The
  answer of \<open>select\<close> is the two sets it leaves, or an error.
\<close>

datatype select_answer = Sel_Ready "nat set" "nat set" | Sel_EINTR | Sel_Error

primrec collect_ready ::
    "nat list \<Rightarrow> nat \<Rightarrow> nat set \<Rightarrow> nat set \<Rightarrow> nat \<Rightarrow> nat list \<times> nat list \<Rightarrow>
     (nat \<times> nat list \<times> nat list) result" where
  "collect_ready [] p R W bytes acc = Inr (bytes, acc)"
| "collect_ready (fd # fds) p R W bytes acc =
     (if fd = p \<and> fd \<in> R then
        (case bytes of 0 \<Rightarrow> Inl Verify_Failed | Suc n \<Rightarrow> collect_ready fds p R W n acc)
      else
        (case acc of (readable, writable) \<Rightarrow>
           let writable = (if fd \<in> W then writable @ [fd] else writable);
               readable = (if fd \<in> R then readable @ [fd] else readable)
           in collect_ready fds p R W bytes (readable, writable)))"

definition sel_wait_ready :: "select_answer \<Rightarrow> nat \<Rightarrow> select_aio \<Rightarrow> (select_aio \<times> nat list \<times> nat list) result" where
  "sel_wait_ready ans high s =
     (case ans of
        Sel_EINTR \<Rightarrow> Inr (s, [], [])
      | Sel_Error \<Rightarrow> Inl Verify_Failed
      | Sel_Ready R W \<Rightarrow>
          bind_r (collect_ready [0..<Suc high] (sa_pipefd s) R W (sa_pipe s) ([], [])) (\<lambda>(bytes, ready).
          Inr (s\<lparr>sa_pipe := bytes\<rparr>, ready)))"

section \<open>The implementation over epoll\<close>

record epoll_aio =
  ep_fdstatus :: "nat \<Rightarrow> i32"
  ep_kernel :: "nat \<rightharpoonup> bool \<times> bool"

definition EPollAIO_new :: epoll_aio where
  "EPollAIO_new = \<lparr>ep_fdstatus = (\<lambda>_. 0), ep_kernel = Map.empty\<rparr>"

datatype epoll_op = EPOLL_CTL_ADD | EPOLL_CTL_MOD | EPOLL_CTL_DEL

text \<open>\<open>epoll_ctl\<close>: adding what is there and changing or deleting what is not there are errors.\<close>

definition epoll_ctl :: "epoll_op \<Rightarrow> nat \<Rightarrow> bool \<times> bool \<Rightarrow> (nat \<rightharpoonup> bool \<times> bool) \<Rightarrow> (nat \<rightharpoonup> bool \<times> bool) result" where
  "epoll_ctl op fd ev k =
     (case op of
        EPOLL_CTL_ADD \<Rightarrow> bind_r (VERIFY (k fd = None)) (\<lambda>_. Inr (k(fd \<mapsto> ev)))
      | EPOLL_CTL_MOD \<Rightarrow> bind_r (VERIFY (k fd \<noteq> None)) (\<lambda>_. Inr (k(fd \<mapsto> ev)))
      | EPOLL_CTL_DEL \<Rightarrow> bind_r (VERIFY (k fd \<noteq> None)) (\<lambda>_. Inr (k(fd := None))))"

text \<open>The events for a status: whether \<open>EPOLLIN\<close> and \<open>EPOLLOUT\<close> are set.\<close>

definition ep_events :: "i32 \<Rightarrow> bool \<times> bool" where
  "ep_events st = (st AND flag_val CB_RDONLY \<noteq> 0, st AND flag_val CB_WRONLY \<noteq> 0)"

definition ep_watch_fd :: "nat \<Rightarrow> poll_flag \<Rightarrow> epoll_aio \<Rightarrow> epoll_aio result" where
  "ep_watch_fd fd flag s =
     bind_r (VERIFY (fd < MAX_POLL_FDS)) (\<lambda>_.
     let op = (if ep_fdstatus s fd \<noteq> 0 then EPOLL_CTL_MOD else EPOLL_CTL_ADD);
         st = ep_fdstatus s fd OR flag_val flag
     in bind_r (VERIFY (flag = CB_RDWR \<longrightarrow> ep_events st = (True, True))) (\<lambda>_.
        bind_r (epoll_ctl op fd (ep_events st) (ep_kernel s)) (\<lambda>k.
        Inr (s\<lparr>ep_fdstatus := (ep_fdstatus s)(fd := st), ep_kernel := k\<rparr>))))"

definition ep_unwatch_fd :: "nat \<Rightarrow> poll_flag \<Rightarrow> epoll_aio \<Rightarrow> (bool \<times> epoll_aio) result" where
  "ep_unwatch_fd fd flag s =
     bind_r (VERIFY (fd < MAX_POLL_FDS)) (\<lambda>_.
     let st = ep_fdstatus s fd AND NOT (flag_val flag);
         op = (if st \<noteq> 0 then EPOLL_CTL_MOD else EPOLL_CTL_DEL)
     in bind_r (VERIFY (flag = CB_RDWR \<longrightarrow> op = EPOLL_CTL_DEL)) (\<lambda>_.
        bind_r (epoll_ctl op fd (ep_events st) (ep_kernel s)) (\<lambda>k.
        Inr (op = EPOLL_CTL_DEL, s\<lparr>ep_fdstatus := (ep_fdstatus s)(fd := st), ep_kernel := k\<rparr>))))"

definition ep_is_watched :: "nat \<Rightarrow> poll_flag \<Rightarrow> epoll_aio \<Rightarrow> bool result" where
  "ep_is_watched fd flag s =
     bind_r (VERIFY (fd < MAX_POLL_FDS)) (\<lambda>_.
     Inr (ep_fdstatus s fd AND flag_val CB_MASK = flag_val flag))"

text \<open>\<open>wait_ready\<close>, given the descriptors and events that \<open>epoll_wait\<close> returns.\<close>

primrec ep_wait_ready :: "(nat \<times> bool \<times> bool) list \<Rightarrow> nat list \<times> nat list" where
  "ep_wait_ready [] = ([], [])"
| "ep_wait_ready (e # es) =
     (case e of (fd, i, o') \<Rightarrow> case ep_wait_ready es of (readable, writable) \<Rightarrow>
        (if i then fd # readable else readable, if o' then fd # writable else writable))"

section \<open>The poll manager\<close>

record 'c pollmgr =
  pm_callbacks :: "nat \<rightharpoonup> 'c"
  pm_aio :: select_aio
  pm_pending :: bool

definition PollMgr_new :: "nat \<Rightarrow> 'c pollmgr" where
  "PollMgr_new p = \<lparr>pm_callbacks = Map.empty, pm_aio = SelectAIO_new p, pm_pending = False\<rparr>"

definition cb_ok :: "nat \<Rightarrow> unit result" where
  "cb_ok fd = (if fd < MAX_POLL_FDS then Inr () else Inl Out_Of_Bounds)"

definition add_callback :: "nat \<Rightarrow> poll_flag \<Rightarrow> 'c \<Rightarrow> 'c pollmgr \<Rightarrow> 'c pollmgr result" where
  "add_callback fd flag ch p =
     bind_r (VERIFY (fd < MAX_POLL_FDS)) (\<lambda>_.
     bind_r (sel_watch_fd fd flag (pm_aio p)) (\<lambda>a.
     bind_r (VERIFY (pm_callbacks p fd = None \<or> pm_callbacks p fd = Some ch)) (\<lambda>_.
     Inr (p\<lparr>pm_aio := a, pm_callbacks := (pm_callbacks p)(fd \<mapsto> ch)\<rparr>))))"

text \<open>\<open>block_remove_fd\<close> up to its wait, and after it.\<close>

definition block_remove_begin :: "nat \<Rightarrow> 'c pollmgr \<Rightarrow> 'c pollmgr result" where
  "block_remove_begin fd p =
     bind_r (sel_unwatch_fd fd CB_RDWR (pm_aio p)) (\<lambda>(_, a).
     Inr (p\<lparr>pm_aio := a, pm_pending := True\<rparr>))"

definition block_remove_end :: "nat \<Rightarrow> 'c pollmgr \<Rightarrow> 'c pollmgr result" where
  "block_remove_end fd p =
     bind_r (cb_ok fd) (\<lambda>_. Inr (p\<lparr>pm_callbacks := (pm_callbacks p)(fd := None)\<rparr>))"

definition del_callback :: "nat \<Rightarrow> poll_flag \<Rightarrow> 'c pollmgr \<Rightarrow> 'c pollmgr result" where
  "del_callback fd flag p =
     bind_r (sel_unwatch_fd fd flag (pm_aio p)) (\<lambda>(gone, a).
     let p = p\<lparr>pm_aio := a\<rparr> in
     if gone then bind_r (cb_ok fd) (\<lambda>_. Inr (p\<lparr>pm_callbacks := (pm_callbacks p)(fd := None)\<rparr>))
     else Inr p)"

definition has_callback :: "nat \<Rightarrow> poll_flag \<Rightarrow> 'c \<Rightarrow> 'c pollmgr \<Rightarrow> bool result" where
  "has_callback fd flag c p =
     bind_r (cb_ok fd) (\<lambda>_.
     if pm_callbacks p fd = None \<or> pm_callbacks p fd \<noteq> Some c then Inr False
     else sel_is_watched fd flag (pm_aio p))"

text \<open>The first block of \<open>wait_loop\<close>: the flag tells whether the waiting removers are woken.\<close>

definition wait_loop_top :: "'c pollmgr \<Rightarrow> bool \<times> 'c pollmgr" where
  "wait_loop_top p = (if pm_pending p then (True, p\<lparr>pm_pending := False\<rparr>) else (False, p))"

section \<open>The loop and its clients\<close>

text \<open>
  The poll thread goes round \<open>wait_loop\<close>: the test of \<open>pending_change_\<close>, the copy of the sets at
  the start of \<open>wait_ready\<close>, the \<open>select\<close> on the copy, and the callbacks one by one, which run without a
  lock: \<open>callbacks_[fd]\<close> is read once for the test and once more for the call, and what it points to may be gone in between.  Other threads add, delete and remove callbacks in between; a remover waits for the
  broadcast of \<open>changedone_c_\<close>.  A callback that adds or deletes does so as any other thread.  The wake-up
  pipe is not a descriptor that a client registers.  The wait of \<open>block_remove_fd\<close> is not in a loop, so a remover goes on when it
  wakes for no reason, as a wait on a condition variable may (\<open>Spurious\<close>).
\<close>

datatype poll_phase =
    PTop
  | PCopy
  | PSelecting "nat set" "nat set" nat
  | PDispatch "nat list" "nat list"
  | PTested bool nat "nat list" "nat list"
  | PInCallback nat "nat list" "nat list"
  | PCrashed

datatype remover = RIdle | RWaiting nat | RWoken nat

record 'c pollsys =
  ps_mgr :: "'c pollmgr"
  ps_ph :: poll_phase
  ps_rem :: "nat \<Rightarrow> remover"

datatype 'c pollevent =
    Added nat
  | Removing nat nat
  | Removed nat nat
  | Cb_Read nat 'c
  | Cb_Write nat 'c
  | Cb_Null nat
  | Spurious nat
  | PTau

definition wake_removers :: "bool \<Rightarrow> (nat \<Rightarrow> remover) \<Rightarrow> nat \<Rightarrow> remover" where
  "wake_removers woken rem = (\<lambda>t. case rem t of RWaiting fd \<Rightarrow> if woken then RWoken fd else RWaiting fd | r \<Rightarrow> r)"

inductive poll_step :: "'c pollsys \<Rightarrow> 'c pollevent \<Rightarrow> 'c pollsys \<Rightarrow> bool" where
  add: "fd \<noteq> sa_pipefd (pm_aio p) \<Longrightarrow> add_callback fd flag ch p = Inr p' \<Longrightarrow>
     poll_step \<lparr>ps_mgr = p, ps_ph = ph, ps_rem = rem\<rparr> (Added fd) \<lparr>ps_mgr = p', ps_ph = ph, ps_rem = rem\<rparr>"
| del: "fd \<noteq> sa_pipefd (pm_aio p) \<Longrightarrow> del_callback fd flag p = Inr p' \<Longrightarrow>
     poll_step \<lparr>ps_mgr = p, ps_ph = ph, ps_rem = rem\<rparr> PTau \<lparr>ps_mgr = p', ps_ph = ph, ps_rem = rem\<rparr>"
| remove_begin: "fd \<noteq> sa_pipefd (pm_aio p) \<Longrightarrow> rem t = RIdle \<Longrightarrow> block_remove_begin fd p = Inr p' \<Longrightarrow>
     poll_step \<lparr>ps_mgr = p, ps_ph = ph, ps_rem = rem\<rparr> (Removing t fd)
       \<lparr>ps_mgr = p', ps_ph = ph, ps_rem = rem(t := RWaiting fd)\<rparr>"
| remove_end: "rem t = RWoken fd \<Longrightarrow> block_remove_end fd p = Inr p' \<Longrightarrow>
     poll_step \<lparr>ps_mgr = p, ps_ph = ph, ps_rem = rem\<rparr> (Removed t fd)
       \<lparr>ps_mgr = p', ps_ph = ph, ps_rem = rem(t := RIdle)\<rparr>"
| top: "wait_loop_top p = (woken, p') \<Longrightarrow>
     poll_step \<lparr>ps_mgr = p, ps_ph = PTop, ps_rem = rem\<rparr> PTau
       \<lparr>ps_mgr = p', ps_ph = PCopy, ps_rem = wake_removers woken rem\<rparr>"
| copy: "poll_step \<lparr>ps_mgr = p, ps_ph = PCopy, ps_rem = rem\<rparr> PTau
       \<lparr>ps_mgr = p, ps_ph = PSelecting (sa_rfds (pm_aio p)) (sa_wfds (pm_aio p)) (sa_highfds (pm_aio p)), ps_rem = rem\<rparr>"
| ready: "(case ans of Sel_Ready R' W' \<Rightarrow> R' \<subseteq> R \<and> W' \<subseteq> W | Sel_EINTR \<Rightarrow> True | Sel_Error \<Rightarrow> False) \<Longrightarrow>
     sel_wait_ready ans h (pm_aio p) = Inr (a, rd, wr) \<Longrightarrow>
     poll_step \<lparr>ps_mgr = p, ps_ph = PSelecting R W h, ps_rem = rem\<rparr> PTau
       \<lparr>ps_mgr = p\<lparr>pm_aio := a\<rparr>, ps_ph = PDispatch rd wr, ps_rem = rem\<rparr>"
| test_read: "pm_callbacks p fd \<noteq> None \<Longrightarrow>
     poll_step \<lparr>ps_mgr = p, ps_ph = PDispatch (fd # rd) wr, ps_rem = rem\<rparr> PTau
       \<lparr>ps_mgr = p, ps_ph = PTested True fd rd wr, ps_rem = rem\<rparr>"
| read_none: "pm_callbacks p fd = None \<Longrightarrow>
     poll_step \<lparr>ps_mgr = p, ps_ph = PDispatch (fd # rd) wr, ps_rem = rem\<rparr> PTau
       \<lparr>ps_mgr = p, ps_ph = PDispatch rd wr, ps_rem = rem\<rparr>"
| call_read: "pm_callbacks p fd = Some c \<Longrightarrow>
     poll_step \<lparr>ps_mgr = p, ps_ph = PTested True fd rd wr, ps_rem = rem\<rparr> (Cb_Read fd c)
       \<lparr>ps_mgr = p, ps_ph = PInCallback fd rd wr, ps_rem = rem\<rparr>"
| test_write: "pm_callbacks p fd \<noteq> None \<Longrightarrow>
     poll_step \<lparr>ps_mgr = p, ps_ph = PDispatch [] (fd # wr), ps_rem = rem\<rparr> PTau
       \<lparr>ps_mgr = p, ps_ph = PTested False fd [] wr, ps_rem = rem\<rparr>"
| write_none: "pm_callbacks p fd = None \<Longrightarrow>
     poll_step \<lparr>ps_mgr = p, ps_ph = PDispatch [] (fd # wr), ps_rem = rem\<rparr> PTau
       \<lparr>ps_mgr = p, ps_ph = PDispatch [] wr, ps_rem = rem\<rparr>"
| call_write: "pm_callbacks p fd = Some c \<Longrightarrow>
     poll_step \<lparr>ps_mgr = p, ps_ph = PTested False fd rd wr, ps_rem = rem\<rparr> (Cb_Write fd c)
       \<lparr>ps_mgr = p, ps_ph = PInCallback fd rd wr, ps_rem = rem\<rparr>"
| call_null: "pm_callbacks p fd = None \<Longrightarrow>
     poll_step \<lparr>ps_mgr = p, ps_ph = PTested reading fd rd wr, ps_rem = rem\<rparr> (Cb_Null fd)
       \<lparr>ps_mgr = p, ps_ph = PCrashed, ps_rem = rem\<rparr>"
| spurious: "rem t = RWaiting fd \<Longrightarrow>
     poll_step \<lparr>ps_mgr = p, ps_ph = ph, ps_rem = rem\<rparr> (Spurious t) \<lparr>ps_mgr = p, ps_ph = ph, ps_rem = rem(t := RWoken fd)\<rparr>"
| callback_returns: "poll_step \<lparr>ps_mgr = p, ps_ph = PInCallback fd rd wr, ps_rem = rem\<rparr> PTau
       \<lparr>ps_mgr = p, ps_ph = PDispatch rd wr, ps_rem = rem\<rparr>"
| round_again: "poll_step \<lparr>ps_mgr = p, ps_ph = PDispatch [] [], ps_rem = rem\<rparr> PTau
       \<lparr>ps_mgr = p, ps_ph = PTop, ps_rem = rem\<rparr>"

inductive poll_path :: "'c pollsys \<Rightarrow> 'c pollevent list \<Rightarrow> 'c pollsys \<Rightarrow> bool" for s where
  path_here: "poll_path s [] s"
| path_step: "poll_path s es u \<Longrightarrow> poll_step u e t \<Longrightarrow> poll_path s (es @ [e]) t"

definition poll_start :: "nat \<Rightarrow> 'c pollsys" where
  "poll_start p = \<lparr>ps_mgr = PollMgr_new p, ps_ph = PTop, ps_rem = (\<lambda>_. RIdle)\<rparr>"

inductive_cases poll_stepE: "poll_step s e s'"

section \<open>The contract of an aio manager\<close>

definition flag_rd :: "poll_flag \<Rightarrow> bool" where "flag_rd f \<longleftrightarrow> f = CB_RDONLY \<or> f = CB_RDWR"
definition flag_wr :: "poll_flag \<Rightarrow> bool" where "flag_wr f \<longleftrightarrow> f = CB_WRONLY \<or> f = CB_RDWR"
definition io_flag :: "poll_flag \<Rightarrow> bool" where "io_flag f \<longleftrightarrow> flag_rd f \<or> flag_wr f"

lemmas flag_defs = flag_rd_def flag_wr_def io_flag_def

text \<open>
  \<open>rd\<close> and \<open>wr\<close> are the descriptors watched for reading and for writing, \<open>ok\<close> the invariant, and
  \<open>usable\<close> the descriptors that a client may register.
\<close>

locale aio_manager =
  fixes watch :: "nat \<Rightarrow> poll_flag \<Rightarrow> 's \<Rightarrow> 's result"
    and unwatch :: "nat \<Rightarrow> poll_flag \<Rightarrow> 's \<Rightarrow> (bool \<times> 's) result"
    and rd :: "'s \<Rightarrow> nat set" and wr :: "'s \<Rightarrow> nat set"
    and ok :: "'s \<Rightarrow> bool" and usable :: "'s \<Rightarrow> nat \<Rightarrow> bool"
  assumes watch_law: "ok s \<Longrightarrow> usable s fd \<Longrightarrow> io_flag f \<Longrightarrow>
      \<exists>s'. watch fd f s = Inr s' \<and> ok s' \<and> usable s' = usable s
        \<and> rd s' = (if flag_rd f then insert fd (rd s) else rd s)
        \<and> wr s' = (if flag_wr f then insert fd (wr s) else wr s)"
    and unwatch_law: "ok s \<Longrightarrow> usable s fd \<Longrightarrow> io_flag f \<Longrightarrow> fd \<in> rd s \<union> wr s \<Longrightarrow>
      \<exists>s'. unwatch fd f s = Inr (fd \<notin> rd s' \<union> wr s', s') \<and> ok s' \<and> usable s' = usable s
        \<and> rd s' = (if flag_rd f then rd s - {fd} else rd s)
        \<and> wr s' = (if flag_wr f then wr s - {fd} else wr s)"
begin

text \<open>Watching and unwatching a descriptor that was not watched brings back what was watched.\<close>

lemma watch_unwatch:
  assumes "ok s" "usable s fd" "io_flag f" "fd \<notin> rd s \<union> wr s"
  shows "\<exists>s1 s2. watch fd f s = Inr s1 \<and> unwatch fd f s1 = Inr (True, s2) \<and> rd s2 = rd s \<and> wr s2 = wr s"
proof -
  obtain s1 where s1: "watch fd f s = Inr s1" "ok s1" "usable s1 = usable s"
    "rd s1 = (if flag_rd f then insert fd (rd s) else rd s)"
    "wr s1 = (if flag_wr f then insert fd (wr s) else wr s)"
    using watch_law [OF assms(1-3)] by blast
  have "fd \<in> rd s1 \<union> wr s1" using s1(4,5) assms(3) by (auto simp: io_flag_def)
  then obtain s2 where s2: "unwatch fd f s1 = Inr (fd \<notin> rd s2 \<union> wr s2, s2)"
    "rd s2 = (if flag_rd f then rd s1 - {fd} else rd s1)" "wr s2 = (if flag_wr f then wr s1 - {fd} else wr s1)"
    using unwatch_law [of s1 fd f] s1(2,3) assms(2,3) by auto
  then have "rd s2 = rd s" "wr s2 = wr s" using s1(4,5) assms(4) by auto
  then show ?thesis using s1(1) s2(1) assms(4) by auto
qed

text \<open>After a removal for reading and writing the descriptor is not watched, whatever it was watched for.\<close>

lemma unwatch_rdwr:
  assumes "ok s" "usable s fd" "fd \<in> rd s \<union> wr s"
  shows "\<exists>s'. unwatch fd CB_RDWR s = Inr (True, s') \<and> rd s' = rd s - {fd} \<and> wr s' = wr s - {fd}"
  using unwatch_law [OF assms(1,2) _ assms(3), of CB_RDWR] by (auto simp: flag_defs)

end

locale aio_query = aio_manager +
  fixes is_watched :: "nat \<Rightarrow> poll_flag \<Rightarrow> 's \<Rightarrow> bool result"
  assumes is_watched_law: "ok s \<Longrightarrow> usable s fd \<Longrightarrow> io_flag f \<Longrightarrow>
      is_watched fd f s = Inr ((flag_rd f \<longrightarrow> fd \<in> rd s) \<and> (flag_wr f \<longrightarrow> fd \<in> wr s))"
begin

lemma watch_is_watched:
  assumes "ok s" "usable s fd" "io_flag f"
  shows "\<exists>s'. watch fd f s = Inr s' \<and> is_watched fd f s' = Inr True"
proof -
  obtain s' where "watch fd f s = Inr s'" "ok s'" "usable s' = usable s"
    "rd s' = (if flag_rd f then insert fd (rd s) else rd s)" "wr s' = (if flag_wr f then insert fd (wr s) else wr s)"
    using watch_law [OF assms] by blast
  then show ?thesis using is_watched_law [of s' fd f] assms by auto
qed

end

section \<open>Both implementations satisfy it\<close>

definition sel_ok :: "select_aio \<Rightarrow> bool" where
  "sel_ok s \<longleftrightarrow> sa_pipefd s \<in> sa_rfds s \<and> (\<forall>i \<in> sa_rfds s \<union> sa_wfds s. i \<le> sa_highfds s) \<and> sa_highfds s < FD_SETSIZE"

definition sel_usable :: "select_aio \<Rightarrow> nat \<Rightarrow> bool" where
  "sel_usable s fd \<longleftrightarrow> fd < FD_SETSIZE \<and> fd \<noteq> sa_pipefd s"

lemma foldl_last:
  fixes P :: "nat \<Rightarrow> bool"
  shows "(\<forall>i<n. P i \<longrightarrow> i \<le> foldl (\<lambda>h i. if P i then i else h) a [0..<n])
    \<and> (foldl (\<lambda>h i. if P i then i else h) a [0..<n] = a \<or> foldl (\<lambda>h i. if P i then i else h) a [0..<n] < n)"
  by (induction n) (auto simp: less_Suc_eq)

lemma new_high_eq: "new_high s = foldl (\<lambda>h i. if i \<in> sa_rfds s \<union> sa_wfds s then i else h) (sa_pipefd s) [0..<Suc (sa_highfds s)]"
proof -
  have "(\<lambda>newh i. if i \<in> sa_rfds s then i else if i \<in> sa_wfds s then i else newh) =
      (\<lambda>h i. if i \<in> sa_rfds s \<union> sa_wfds s then i else h)" by (auto simp: fun_eq_iff)
  then show ?thesis unfolding new_high_def by presburger
qed

lemma new_high_bounds:
  assumes "sa_pipefd s \<in> sa_rfds s" "\<forall>i \<in> sa_rfds s \<union> sa_wfds s. i \<le> sa_highfds s"
  shows "\<forall>i \<in> sa_rfds s \<union> sa_wfds s. i \<le> new_high s" "new_high s \<le> sa_highfds s"
proof -
  note last = foldl_last [of "Suc (sa_highfds s)" "\<lambda>i. i \<in> sa_rfds s \<union> sa_wfds s" "sa_pipefd s",
      folded new_high_eq]
  show "\<forall>i \<in> sa_rfds s \<union> sa_wfds s. i \<le> new_high s" using last assms(2) le_imp_less_Suc by blast
  have "sa_pipefd s \<le> sa_highfds s" using assms by blast
  then show "new_high s \<le> sa_highfds s" using last by auto
qed

lemma sel_watch_spec:
  "fd < FD_SETSIZE \<Longrightarrow> sel_watch_fd fd f s =
    Inr (s\<lparr>sa_highfds := max (sa_highfds s) fd,
      sa_rfds := (if f \<noteq> CB_WRONLY then insert fd (sa_rfds s) else sa_rfds s),
      sa_wfds := (if f \<noteq> CB_RDONLY then insert fd (sa_wfds s) else sa_wfds s),
      sa_pipe := Suc (sa_pipe s)\<rparr>)"
  by (auto simp: sel_watch_fd_def fd_ok_def max_def Let_def intro!: select_aio.equality)

text \<open>What \<open>unwatch_fd\<close> leaves of the sets, and its new bound.\<close>

definition sel_left :: "nat \<Rightarrow> poll_flag \<Rightarrow> select_aio \<Rightarrow> select_aio" where
  "sel_left fd f s = s\<lparr>sa_rfds := (if flag_rd f then sa_rfds s - {fd} else sa_rfds s),
     sa_wfds := (if flag_wr f then sa_wfds s - {fd} else sa_wfds s)\<rparr>"

lemma sel_left_simps [simp]:
  "sa_rfds (sel_left fd f s) = (if flag_rd f then sa_rfds s - {fd} else sa_rfds s)"
  "sa_wfds (sel_left fd f s) = (if flag_wr f then sa_wfds s - {fd} else sa_wfds s)"
  "sa_highfds (sel_left fd f s) = sa_highfds s" "sa_pipefd (sel_left fd f s) = sa_pipefd s"
  "sa_pipe (sel_left fd f s) = sa_pipe s"
  by (simp_all add: sel_left_def)

lemma sel_unwatch_spec:
  "fd < FD_SETSIZE \<Longrightarrow> io_flag f \<Longrightarrow> sel_unwatch_fd fd f s =
    Inr (fd \<notin> sa_rfds (sel_left fd f s) \<union> sa_wfds (sel_left fd f s),
      (sel_left fd f s)\<lparr>sa_highfds :=
         (if fd \<notin> sa_rfds (sel_left fd f s) \<union> sa_wfds (sel_left fd f s) \<and> fd = sa_highfds s
          then new_high (sel_left fd f s) else sa_highfds s),
       sa_pipe := (if f = CB_RDWR then Suc (sa_pipe s) else sa_pipe s)\<rparr>)"
  by (cases f) (auto simp: sel_unwatch_fd_def fd_ok_def Let_def flag_defs sel_left_def new_high_eq
      intro!: select_aio.equality)

lemma sel_ok_left:
  "sel_ok s \<Longrightarrow> fd \<noteq> sa_pipefd s \<Longrightarrow>
   sa_pipefd s \<in> sa_rfds (sel_left fd f s) \<and>
   (\<forall>i \<in> sa_rfds (sel_left fd f s) \<union> sa_wfds (sel_left fd f s). i \<le> sa_highfds s)"
  by (auto simp: sel_ok_def)

lemma sel_unwatch_ok:
  assumes "sel_ok s" "sel_usable s fd" "io_flag f"
  shows "\<exists>s'. sel_unwatch_fd fd f s = Inr (fd \<notin> sa_rfds s' \<union> sa_wfds s', s') \<and> sel_ok s'
    \<and> sel_usable s' = sel_usable s \<and> sa_rfds s' = sa_rfds (sel_left fd f s) \<and> sa_wfds s' = sa_wfds (sel_left fd f s)
    \<and> sa_pipefd s' = sa_pipefd s \<and> sa_pipe s' = (if f = CB_RDWR then Suc (sa_pipe s) else sa_pipe s)"
proof -
  have fd: "fd < FD_SETSIZE" "fd \<noteq> sa_pipefd s" using assms(2) by (auto simp: sel_usable_def)
  let ?s = "sel_left fd f s"
  have left: "sa_pipefd ?s \<in> sa_rfds ?s" "\<forall>i \<in> sa_rfds ?s \<union> sa_wfds ?s. i \<le> sa_highfds ?s"
    using sel_ok_left [OF assms(1) fd(2), of f] by auto
  note high = new_high_bounds [OF left]
  have "sel_ok (?s\<lparr>sa_highfds := h, sa_pipe := n\<rparr>)" if "h = sa_highfds s \<or> h = new_high ?s" for h n
    using left high that assms(1) by (auto simp: sel_ok_def simp del: sel_left_simps(1,2))
  then show ?thesis unfolding sel_unwatch_spec [OF fd(1) assms(3)]
    by (auto simp: sel_usable_def fun_eq_iff simp del: sel_left_simps(1,2))
qed

interpretation sel: aio_query sel_watch_fd sel_unwatch_fd sa_rfds sa_wfds sel_ok sel_usable sel_is_watched
proof
  fix s fd f
  assume "sel_ok s" "sel_usable s fd" "io_flag f"
  then show "\<exists>s'. sel_watch_fd fd f s = Inr s' \<and> sel_ok s' \<and> sel_usable s' = sel_usable s
        \<and> sa_rfds s' = (if flag_rd f then insert fd (sa_rfds s) else sa_rfds s)
        \<and> sa_wfds s' = (if flag_wr f then insert fd (sa_wfds s) else sa_wfds s)"
    by (cases f) (auto simp: sel_watch_spec sel_usable_def sel_ok_def flag_defs fun_eq_iff ball_Un
        intro: max.coboundedI1)
next
  fix s fd f
  assume "sel_ok s" "sel_usable s fd" "io_flag f"
  then show "\<exists>s'. sel_unwatch_fd fd f s = Inr (fd \<notin> sa_rfds s' \<union> sa_wfds s', s') \<and> sel_ok s'
        \<and> sel_usable s' = sel_usable s
        \<and> sa_rfds s' = (if flag_rd f then sa_rfds s - {fd} else sa_rfds s)
        \<and> sa_wfds s' = (if flag_wr f then sa_wfds s - {fd} else sa_wfds s)"
    using sel_unwatch_ok [of s fd f] by auto
next
  fix s fd f
  assume "sel_ok s" "sel_usable s fd" "io_flag f"
  then show "sel_is_watched fd f s = Inr ((flag_rd f \<longrightarrow> fd \<in> sa_rfds s) \<and> (flag_wr f \<longrightarrow> fd \<in> sa_wfds s))"
    by (cases f) (auto simp: sel_is_watched_def fd_ok_def sel_usable_def flag_defs)
qed

definition ep_ok :: "epoll_aio \<Rightarrow> bool" where
  "ep_ok s \<longleftrightarrow> (\<forall>fd. ep_fdstatus s fd \<in> {0, 0x1, 0x10, 0x11} \<and>
     ep_kernel s fd = (if ep_fdstatus s fd = 0 then None else Some (ep_events (ep_fdstatus s fd))))"

definition ep_rd :: "epoll_aio \<Rightarrow> nat set" where "ep_rd s = {fd. fst (ep_events (ep_fdstatus s fd))}"
definition ep_wr :: "epoll_aio \<Rightarrow> nat set" where "ep_wr s = {fd. snd (ep_events (ep_fdstatus s fd))}"
definition ep_usable :: "epoll_aio \<Rightarrow> nat \<Rightarrow> bool" where "ep_usable s fd \<longleftrightarrow> fd < MAX_POLL_FDS"

lemma ep_status_or:
  "st \<in> {0, 0x1, 0x10, 0x11} \<Longrightarrow> io_flag f \<Longrightarrow>
   st OR flag_val f \<in> {0x1, 0x10, 0x11} \<and>
   ep_events (st OR flag_val f) = (fst (ep_events st) \<or> flag_rd f, snd (ep_events st) \<or> flag_wr f)"
  by (cases f) (auto simp: ep_events_def flag_defs)

lemma ep_status_andnot:
  "st \<in> {0, 0x1, 0x10, 0x11} \<Longrightarrow> io_flag f \<Longrightarrow>
   st AND NOT (flag_val f) \<in> {0, 0x1, 0x10, 0x11} \<and>
   ep_events (st AND NOT (flag_val f)) = (fst (ep_events st) \<and> \<not> flag_rd f, snd (ep_events st) \<and> \<not> flag_wr f)"
  by (cases f) (auto simp: ep_events_def flag_defs)

lemma ep_events_zero: "st \<in> {0, 0x1, 0x10, 0x11} \<Longrightarrow> st = 0 \<longleftrightarrow> \<not> fst (ep_events st) \<and> \<not> snd (ep_events st)"
  by (auto simp: ep_events_def)

lemma ep_watch_ok:
  assumes "ep_ok s" "ep_usable s fd" "io_flag f"
  shows "ep_watch_fd fd f s = Inr (s\<lparr>ep_fdstatus := (ep_fdstatus s)(fd := ep_fdstatus s fd OR flag_val f),
    ep_kernel := (ep_kernel s)(fd \<mapsto> ep_events (ep_fdstatus s fd OR flag_val f))\<rparr>)"
proof -
  have st: "ep_fdstatus s fd \<in> {0, 0x1, 0x10, 0x11}" using assms(1) unfolding ep_ok_def by blast
  note ev = ep_status_or [OF st assms(3)]
  have k: "ep_kernel s fd = None \<longleftrightarrow> ep_fdstatus s fd = 0" using assms(1) by (simp add: ep_ok_def)
  have "f = CB_RDWR \<longrightarrow> ep_events (ep_fdstatus s fd OR flag_val f) = (True, True)"
    using ev by (cases f) (auto simp: flag_defs)
  then show ?thesis using assms(2) k
    by (auto simp: ep_watch_fd_def Let_def ep_usable_def epoll_ctl_def)
qed

lemma ep_unwatch_ok:
  assumes "ep_ok s" "ep_usable s fd" "io_flag f" "fd \<in> ep_rd s \<union> ep_wr s"
  defines "st \<equiv> ep_fdstatus s fd AND NOT (flag_val f)"
  shows "ep_unwatch_fd fd f s = Inr (st = 0, s\<lparr>ep_fdstatus := (ep_fdstatus s)(fd := st),
    ep_kernel := (ep_kernel s)(fd := if st = 0 then None else Some (ep_events st))\<rparr>)"
proof -
  have old: "ep_fdstatus s fd \<in> {0, 0x1, 0x10, 0x11}" using assms(1) unfolding ep_ok_def by blast
  note ev = ep_status_andnot [OF old assms(3), folded st_def]
  have "ep_fdstatus s fd \<noteq> 0" using assms(4) ep_events_zero [OF old] by (auto simp: ep_rd_def ep_wr_def)
  then have k: "ep_kernel s fd \<noteq> None" using assms(1) by (simp add: ep_ok_def)
  have "f = CB_RDWR \<longrightarrow> st = 0" using ev ep_events_zero [of st] by (simp add: flag_defs)
  then show ?thesis using assms(2) k
    by (auto simp: ep_unwatch_fd_def Let_def ep_usable_def epoll_ctl_def st_def [symmetric])
qed

interpretation ep: aio_manager ep_watch_fd ep_unwatch_fd ep_rd ep_wr ep_ok ep_usable
proof
  fix s fd f
  assume a: "ep_ok s" "ep_usable s fd" "io_flag f"
  then have st: "ep_fdstatus s fd \<in> {0, 0x1, 0x10, 0x11}" unfolding ep_ok_def by blast
  note ev = ep_status_or [OF st a(3)]
  let ?st = "ep_fdstatus s fd OR flag_val f"
  let ?s = "s\<lparr>ep_fdstatus := (ep_fdstatus s)(fd := ?st), ep_kernel := (ep_kernel s)(fd \<mapsto> ep_events ?st)\<rparr>"
  have "?st \<noteq> 0" using ev by auto
  then have "ep_ok ?s" using a(1) ev by (auto simp: ep_ok_def)
  moreover have "ep_rd ?s = (if flag_rd f then insert fd (ep_rd s) else ep_rd s)"
    "ep_wr ?s = (if flag_wr f then insert fd (ep_wr s) else ep_wr s)"
    using ev by (auto simp: ep_rd_def ep_wr_def split: if_splits)
  ultimately show "\<exists>s'. ep_watch_fd fd f s = Inr s' \<and> ep_ok s' \<and> ep_usable s' = ep_usable s
        \<and> ep_rd s' = (if flag_rd f then insert fd (ep_rd s) else ep_rd s)
        \<and> ep_wr s' = (if flag_wr f then insert fd (ep_wr s) else ep_wr s)"
    using ep_watch_ok [OF a] by (auto simp: ep_usable_def fun_eq_iff)
next
  fix s fd f
  assume a: "ep_ok s" "ep_usable s fd" "io_flag f" "fd \<in> ep_rd s \<union> ep_wr s"
  then have st: "ep_fdstatus s fd \<in> {0, 0x1, 0x10, 0x11}" unfolding ep_ok_def by blast
  note ev = ep_status_andnot [OF st a(3)]
  let ?st = "ep_fdstatus s fd AND NOT (flag_val f)"
  let ?s = "s\<lparr>ep_fdstatus := (ep_fdstatus s)(fd := ?st),
    ep_kernel := (ep_kernel s)(fd := if ?st = 0 then None else Some (ep_events ?st))\<rparr>"
  have "ep_ok ?s" using a(1) ev by (auto simp: ep_ok_def)
  moreover have sets: "ep_rd ?s = (if flag_rd f then ep_rd s - {fd} else ep_rd s)"
    "ep_wr ?s = (if flag_wr f then ep_wr s - {fd} else ep_wr s)"
    using ev by (auto simp: ep_rd_def ep_wr_def split: if_splits)
  moreover have "?st = 0 \<longleftrightarrow> fd \<notin> ep_rd ?s \<union> ep_wr ?s"
    using ep_events_zero [of ?st] ev by (simp add: ep_rd_def ep_wr_def)
  ultimately show "\<exists>s'. ep_unwatch_fd fd f s = Inr (fd \<notin> ep_rd s' \<union> ep_wr s', s') \<and> ep_ok s'
        \<and> ep_usable s' = ep_usable s
        \<and> ep_rd s' = (if flag_rd f then ep_rd s - {fd} else ep_rd s)
        \<and> ep_wr s' = (if flag_wr f then ep_wr s - {fd} else ep_wr s)"
    using ep_unwatch_ok [OF a] by (intro exI [of _ ?s]) (simp add: ep_usable_def fun_eq_iff)
qed

section \<open>Removal\<close>

text \<open>Where the poll thread has no business with a descriptor left.\<close>

fun quiet :: "poll_phase \<Rightarrow> nat \<Rightarrow> bool" where
  "quiet PTop fd \<longleftrightarrow> True"
| "quiet PCopy fd \<longleftrightarrow> True"
| "quiet (PSelecting R W h) fd \<longleftrightarrow> fd \<notin> R \<union> W"
| "quiet (PDispatch rd wr) fd \<longleftrightarrow> fd \<notin> set rd \<union> set wr"
| "quiet (PTested reading f rd wr) fd \<longleftrightarrow> fd \<noteq> f \<and> fd \<notin> set rd \<union> set wr"
| "quiet (PInCallback f rd wr) fd \<longleftrightarrow> fd \<noteq> f \<and> fd \<notin> set rd \<union> set wr"
| "quiet PCrashed fd \<longleftrightarrow> True"

definition unwatched :: "'c pollsys \<Rightarrow> nat \<Rightarrow> bool" where
  "unwatched s fd \<longleftrightarrow> fd \<notin> sa_rfds (pm_aio (ps_mgr s)) \<union> sa_wfds (pm_aio (ps_mgr s))"

lemma collect_ready_sub:
  "collect_ready fds p R W b (rd, wr) = Inr (b', rd', wr') \<Longrightarrow>
   set rd' \<subseteq> set rd \<union> R \<and> set wr' \<subseteq> set wr \<union> W"
proof (induction fds arbitrary: b rd wr)
  case (Cons fd fds)
  show ?case
  proof (cases "fd = p \<and> fd \<in> R")
    case True
    then obtain n where "collect_ready fds p R W n (rd, wr) = Inr (b', rd', wr')"
      using Cons.prems by (cases b) auto
    then show ?thesis by (rule Cons.IH)
  next
    case False
    then have "collect_ready fds p R W b (if fd \<in> R then rd @ [fd] else rd, if fd \<in> W then wr @ [fd] else wr)
        = Inr (b', rd', wr')"
      using Cons.prems by (auto simp: Let_def split: if_splits)
    from Cons.IH [OF this] show ?thesis by (auto split: if_splits)
  qed
qed simp

lemma sel_wait_ready_sub:
  "sel_wait_ready ans h a = Inr (a', rd, wr) \<Longrightarrow>
   (case ans of Sel_Ready R' W' \<Rightarrow> R' \<subseteq> R \<and> W' \<subseteq> W | Sel_EINTR \<Rightarrow> True | Sel_Error \<Rightarrow> False) \<Longrightarrow>
   set rd \<subseteq> R \<and> set wr \<subseteq> W \<and> sa_rfds a' = sa_rfds a \<and> sa_wfds a' = sa_wfds a
     \<and> sa_pipefd a' = sa_pipefd a \<and> sa_highfds a' = sa_highfds a"
  by (cases ans) (auto simp: sel_wait_ready_def bind_r_eq_Inr dest!: collect_ready_sub)

lemma sel_unwatch_sets:
  "sel_unwatch_fd fd f a = Inr (g, a') \<Longrightarrow>
   fd < FD_SETSIZE \<and> io_flag f \<and> sa_rfds a' \<subseteq> sa_rfds a \<and> sa_wfds a' \<subseteq> sa_wfds a \<and> sa_pipefd a' = sa_pipefd a
     \<and> sa_pipe a \<le> sa_pipe a' \<and> (f = CB_RDWR \<longrightarrow> fd \<notin> sa_rfds a' \<union> sa_wfds a' \<and> sa_pipe a' = Suc (sa_pipe a))"
proof -
  assume u: "sel_unwatch_fd fd f a = Inr (g, a')"
  then have "fd < FD_SETSIZE" "io_flag f"
    by (auto simp: sel_unwatch_fd_def fd_ok_def flag_defs split: if_splits)
  then show ?thesis using u by (auto simp: sel_unwatch_spec flag_defs)
qed

lemma sel_watch_sets:
  "sel_watch_fd fd f a = Inr a' \<Longrightarrow>
   fd < FD_SETSIZE \<and> sa_rfds a' \<subseteq> insert fd (sa_rfds a) \<and> sa_wfds a' \<subseteq> insert fd (sa_wfds a)
     \<and> sa_pipefd a' = sa_pipefd a \<and> sa_pipe a' = Suc (sa_pipe a)
     \<and> sa_rfds a \<subseteq> sa_rfds a' \<and> sa_highfds a' = max (sa_highfds a) fd"
proof -
  assume w: "sel_watch_fd fd f a = Inr a'"
  then have "fd < FD_SETSIZE" by (auto simp: sel_watch_fd_def fd_ok_def split: if_splits)
  then show ?thesis using w by (auto simp: sel_watch_spec split: if_splits)
qed

text \<open>A descriptor that is not watched and that the poll thread has finished with stays so until it is added.\<close>

lemma quiet_step:
  assumes "poll_step s e s'" "unwatched s fd" "e \<noteq> Added fd"
  shows "unwatched s' fd" and "quiet (ps_ph s) fd \<Longrightarrow> quiet (ps_ph s') fd"
proof -
  show "unwatched s' fd" using assms
    by (cases rule: poll_step.cases)
      (auto simp: unwatched_def add_callback_def del_callback_def block_remove_begin_def block_remove_end_def
        wait_loop_top_def bind_r_eq_Inr Let_def split: if_splits
        dest!: sel_watch_sets sel_unwatch_sets sel_wait_ready_sub)
  show "quiet (ps_ph s') fd" if "quiet (ps_ph s) fd"
    using assms(1)
  proof cases
    case (ready ans R W h p a rd wr rem)
    then show ?thesis using sel_wait_ready_sub [OF ready(5,4)] that by auto
  qed (use assms(2,3) that in \<open>auto simp: unwatched_def\<close>)
qed

inductive_simps poll_path_snoc: "poll_path s (es @ [e]) t"
inductive_simps poll_path_nil: "poll_path s [] t"

lemma poll_path_append: "poll_path s (es @ fs) t \<longleftrightarrow> (\<exists>u. poll_path s es u \<and> poll_path u fs t)"
proof (induction fs arbitrary: t rule: rev_induct)
  case (snoc f fs)
  have "poll_path s (es @ fs @ [f]) t \<longleftrightarrow> (\<exists>v. poll_path s (es @ fs) v \<and> poll_step v f t)"
    using poll_path_snoc [of s "es @ fs" f t] by auto
  also have "\<dots> \<longleftrightarrow> (\<exists>u. poll_path s es u \<and> poll_path u (fs @ [f]) t)"
    unfolding snoc.IH using poll_path_snoc [of _ fs f t] by auto
  finally show ?case .
qed (auto simp: poll_path_nil)

lemma poll_path_Cons: "poll_path s (e # es) t \<longleftrightarrow> (\<exists>u. poll_step s e u \<and> poll_path u es t)"
  using poll_path_append [of s "[e]" es t] poll_path_snoc [of s "[]" e] by (auto simp: poll_path_nil)

lemma quiet_path:
  "poll_path s es t \<Longrightarrow> unwatched s fd \<Longrightarrow> quiet (ps_ph s) fd \<Longrightarrow> Added fd \<notin> set es \<Longrightarrow>
   unwatched t fd \<and> quiet (ps_ph t) fd \<and> Cb_Null fd \<notin> set es \<and> (\<forall>c. Cb_Read fd c \<notin> set es \<and> Cb_Write fd c \<notin> set es)"
proof (induction es arbitrary: s)
  case Nil
  then show ?case by (simp add: poll_path_nil)
next
  case (Cons e es)
  obtain u where u: "poll_step s e u" "poll_path u es t" using Cons.prems(1) by (auto simp: poll_path_Cons)
  have e: "e \<noteq> Added fd" using Cons.prems(4) by auto
  have "e \<noteq> Cb_Read fd c \<and> e \<noteq> Cb_Write fd c \<and> e \<noteq> Cb_Null fd" for c
    using u(1) Cons.prems(3) by (cases rule: poll_step.cases) auto
  then show ?case
    using Cons.IH [OF u(2)] quiet_step [OF u(1) Cons.prems(2) e] Cons.prems(3,4) by auto
qed

text \<open>A remover that does not wake for no reason sleeps until the poll thread starts a new round after the descriptor was taken out.\<close>

lemma waiting_step:
  assumes "poll_step s e s'" "ps_rem s t = RWaiting fd" "e \<noteq> Spurious t"
  shows "ps_rem s' t = RWaiting fd \<or> ps_rem s' t = RWoken fd \<and> quiet (ps_ph s') g"
  using assms by (cases rule: poll_step.cases) (auto simp: wake_removers_def)

lemma woken_step:
  assumes "poll_step s e s'" "ps_rem s t = RWoken fd" "e \<noteq> Removed t fd"
  shows "ps_rem s' t = RWoken fd"
  using assms by (cases rule: poll_step.cases) (auto simp: wake_removers_def)

definition removal_inv :: "nat \<Rightarrow> nat \<Rightarrow> 'c pollsys \<Rightarrow> bool" where
  "removal_inv t fd s \<longleftrightarrow> unwatched s fd \<and>
     (ps_rem s t = RWaiting fd \<or> ps_rem s t = RWoken fd \<and> quiet (ps_ph s) fd)"

lemma removal_inv_step:
  assumes "poll_step s e s'" "removal_inv t fd s" "e \<noteq> Added fd" "e \<noteq> Removed t fd" "e \<noteq> Spurious t"
  shows "removal_inv t fd s'"
  using assms waiting_step [OF assms(1)] woken_step [OF assms(1)] quiet_step [OF assms(1)]
  unfolding removal_inv_def by metis

lemma removal_inv_path:
  "poll_path s es u \<Longrightarrow> removal_inv t fd s \<Longrightarrow> Added fd \<notin> set es \<Longrightarrow> Removed t fd \<notin> set es \<Longrightarrow> Spurious t \<notin> set es \<Longrightarrow>
   removal_inv t fd u"
proof (induction es arbitrary: s)
  case (Cons e es)
  then show ?case using removal_inv_step by (fastforce simp: poll_path_Cons)
qed (simp add: poll_path_nil)

section \<open>Properties\<close>

text \<open>
  C24: the promise of \<open>block_remove_fd\<close>: once it has returned because the poll thread woke it, and as long as nobody registers the
  descriptor again, no callback for the descriptor is called, none is running and none is about to be called,
  although the poll thread tests and calls \<open>callbacks_[fd]\<close> without a lock.  The wait of \<open>block_remove_fd\<close> must not end
  for no reason: there is no loop around it.
\<close>

theorem block_remove_fd_final:
  assumes "poll_path s (es @ Removing t fd # fs @ Removed t fd # gs) s'"
    and "Added fd \<notin> set fs" "Added fd \<notin> set gs" "Removed t fd \<notin> set fs" "Spurious t \<notin> set fs"
  shows "Cb_Read fd c \<notin> set gs \<and> Cb_Write fd c \<notin> set gs \<and> Cb_Null fd \<notin> set gs \<and> quiet (ps_ph s') fd"
proof -
  obtain u v w x where p: "poll_step u (Removing t fd) v" "poll_path v fs w" "poll_step w (Removed t fd) x"
    "poll_path x gs s'"
    using assms(1) by (auto simp: poll_path_append poll_path_Cons)
  have "removal_inv t fd v" using p(1)
    by (cases rule: poll_step.cases)
      (auto simp: removal_inv_def unwatched_def block_remove_begin_def bind_r_eq_Inr dest!: sel_unwatch_sets)
  then have w: "removal_inv t fd w" using p(2) assms(2,4,5) removal_inv_path by blast
  moreover have "ps_rem w t = RWoken fd" using p(3) by (cases rule: poll_step.cases) auto
  ultimately have "unwatched w fd" "quiet (ps_ph w) fd" by (auto simp: removal_inv_def)
  then have "unwatched x fd" "quiet (ps_ph x) fd" using quiet_step [OF p(3)] by auto
  then show ?thesis using quiet_path [OF p(4)] assms(3) by blast
qed

lemma demo_removal:
  "\<exists>s. poll_path (poll_start 3) [Added 5, Removing 1 5, PTau, Removed 1 5] (s :: nat pollsys)"
proof -
  let ?p0 = "PollMgr_new 3 :: nat pollmgr"
  obtain p1 where p1: "add_callback 5 CB_RDONLY 7 ?p0 = Inr p1" "sa_pipefd (pm_aio p1) = 3"
    by (auto simp: add_callback_def sel_watch_fd_def fd_ok_def Let_def PollMgr_new_def SelectAIO_new_def
        MAX_POLL_FDS_def FD_SETSIZE_def)
  obtain p2 where p2: "block_remove_begin 5 p1 = Inr p2" "pm_pending p2"
    by (auto simp: block_remove_begin_def sel_unwatch_spec FD_SETSIZE_def flag_defs)
  obtain p3 where p3: "wait_loop_top p2 = (True, p3)" using p2(2) by (simp add: wait_loop_top_def)
  obtain p4 where p4: "block_remove_end 5 p3 = Inr p4"
    by (simp add: block_remove_end_def cb_ok_def MAX_POLL_FDS_def)
  have a: "poll_step (poll_start 3) (Added 5) \<lparr>ps_mgr = p1, ps_ph = PTop, ps_rem = (\<lambda>_. RIdle)\<rparr>"
    unfolding poll_start_def by (rule poll_step.add [OF _ p1(1)]) (simp add: PollMgr_new_def SelectAIO_new_def)
  have b: "poll_step \<lparr>ps_mgr = p1, ps_ph = PTop, ps_rem = (\<lambda>_. RIdle)\<rparr> (Removing 1 5)
      \<lparr>ps_mgr = p2, ps_ph = PTop, ps_rem = (\<lambda>_. RIdle)(1 := RWaiting 5)\<rparr>"
    by (rule poll_step.remove_begin [OF _ _ p2(1)]) (simp_all add: p1(2))
  have c: "poll_step \<lparr>ps_mgr = p2, ps_ph = PTop, ps_rem = (\<lambda>_. RIdle)(1 := RWaiting 5)\<rparr> PTau
      \<lparr>ps_mgr = p3, ps_ph = PCopy, ps_rem = wake_removers True ((\<lambda>_. RIdle)(1 := RWaiting 5))\<rparr>"
    by (rule poll_step.top [OF p3])
  have d: "\<exists>s. poll_step \<lparr>ps_mgr = p3, ps_ph = PCopy, ps_rem = wake_removers True ((\<lambda>_. RIdle)(1 := RWaiting 5))\<rparr>
      (Removed 1 5) s"
    by (rule exI, rule poll_step.remove_end [OF _ p4]) (simp add: wake_removers_def)
  show ?thesis using a b c d by (auto simp: poll_path_Cons poll_path_nil)
qed

theorem block_remove_fd_final_witness:
  "\<exists>s :: nat pollsys. poll_path (poll_start 3) [Added 5, Removing 1 5, PTau, Removed 1 5] s \<and> quiet (ps_ph s) 5"
proof -
  obtain s :: "nat pollsys" where s: "poll_path (poll_start 3) [Added 5, Removing 1 5, PTau, Removed 1 5] s"
    using demo_removal by blast
  then have "poll_path (poll_start 3) ([Added 5] @ Removing 1 5 # [PTau] @ Removed 1 5 # []) s" by simp
  from block_remove_fd_final [OF this] show ?thesis using s by auto
qed

text \<open>
  What a wake-up for no reason does to \<open>block_remove_fd\<close>.  Descriptor 5 is ready and the poll thread has found its callback; a thread removes
  the descriptor, its wait ends although nobody has signalled, and it clears the callback and returns; the poll thread reads \<open>callbacks_[5]\<close> again for the call and goes through
  the null pointer.
\<close>

theorem spurious_wakeup_null_call:
  "\<exists>s :: nat pollsys. poll_path (poll_start 3) [Added 5, PTau, PTau, PTau, PTau, Removing 1 5, Spurious 1, Removed 1 5, Cb_Null 5] s"
proof -
  let ?p0 = "PollMgr_new 3 :: nat pollmgr"
  obtain p1 where p1: "add_callback 5 CB_RDONLY 7 ?p0 = Inr p1" "pm_aio p1 = \<lparr>sa_rfds = {3, 5}, sa_wfds = {}, sa_highfds = 5, sa_pipefd = 3, sa_pipe = 1\<rparr>"
    "pm_callbacks p1 5 = Some 7" "\<not> pm_pending p1"
    by (auto simp: add_callback_def sel_watch_fd_def fd_ok_def Let_def PollMgr_new_def SelectAIO_new_def MAX_POLL_FDS_def FD_SETSIZE_def)
  let ?ans = "Sel_Ready {5} {}"
  have rdy: "sel_wait_ready ?ans 5 (pm_aio p1) = Inr (pm_aio p1, [5], [])"
    by (simp add: sel_wait_ready_def p1(2) upt_rec numeral_eq_Suc)
  obtain p2 where p2: "block_remove_begin 5 p1 = Inr p2" "pm_callbacks p2 = pm_callbacks p1"
    by (auto simp: block_remove_begin_def sel_unwatch_spec FD_SETSIZE_def flag_defs)
  obtain p3 where p3: "block_remove_end 5 p2 = Inr p3" "pm_callbacks p3 5 = None"
    by (simp add: block_remove_end_def cb_ok_def MAX_POLL_FDS_def)
  let ?idle = "\<lambda>_ :: nat. RIdle" and ?sel = "PSelecting {3, 5} {} 5" and ?tested = "PTested True 5 [] []"
  have a: "poll_step (poll_start 3) (Added 5) \<lparr>ps_mgr = p1, ps_ph = PTop, ps_rem = ?idle\<rparr>"
    unfolding poll_start_def by (rule poll_step.add [OF _ p1(1)]) (simp add: PollMgr_new_def SelectAIO_new_def)
  have b: "poll_step \<lparr>ps_mgr = p1, ps_ph = PTop, ps_rem = ?idle\<rparr> PTau \<lparr>ps_mgr = p1, ps_ph = PCopy, ps_rem = ?idle\<rparr>"
    using poll_step.top [of p1 False p1 ?idle] p1(4) by (simp add: wait_loop_top_def wake_removers_def)
  have c: "poll_step \<lparr>ps_mgr = p1, ps_ph = PCopy, ps_rem = ?idle\<rparr> PTau \<lparr>ps_mgr = p1, ps_ph = ?sel, ps_rem = ?idle\<rparr>"
    using poll_step.copy [of p1 ?idle] by (simp add: p1(2))
  have d: "poll_step \<lparr>ps_mgr = p1, ps_ph = ?sel, ps_rem = ?idle\<rparr> PTau \<lparr>ps_mgr = p1, ps_ph = PDispatch [5] [], ps_rem = ?idle\<rparr>"
    using poll_step.ready [where ans = ?ans and R = "{3, 5}" and W = "{}" and h = 5 and p = p1 and a = "pm_aio p1" and rd = "[5]" and wr = "[]" and rem = ?idle] rdy by simp
  have e: "poll_step \<lparr>ps_mgr = p1, ps_ph = PDispatch [5] [], ps_rem = ?idle\<rparr> PTau \<lparr>ps_mgr = p1, ps_ph = ?tested, ps_rem = ?idle\<rparr>"
    by (rule poll_step.test_read) (simp add: p1(3))
  have f: "poll_step \<lparr>ps_mgr = p1, ps_ph = ?tested, ps_rem = ?idle\<rparr> (Removing 1 5) \<lparr>ps_mgr = p2, ps_ph = ?tested, ps_rem = ?idle(1 := RWaiting 5)\<rparr>"
    by (rule poll_step.remove_begin [OF _ _ p2(1)]) (simp_all add: p1(2))
  have g: "poll_step \<lparr>ps_mgr = p2, ps_ph = ?tested, ps_rem = ?idle(1 := RWaiting 5)\<rparr> (Spurious 1)
      \<lparr>ps_mgr = p2, ps_ph = ?tested, ps_rem = ?idle(1 := RWoken 5)\<rparr>"
    using poll_step.spurious [of "?idle(1 := RWaiting 5)" 1 5 p2 ?tested] by simp
  have h: "poll_step \<lparr>ps_mgr = p2, ps_ph = ?tested, ps_rem = ?idle(1 := RWoken 5)\<rparr> (Removed 1 5) \<lparr>ps_mgr = p3, ps_ph = ?tested, ps_rem = ?idle\<rparr>"
    using poll_step.remove_end [of "?idle(1 := RWoken 5)" 1 5 p2 p3 ?tested] p3(1) by (simp add: fun_upd_idem)
  have i: "poll_step \<lparr>ps_mgr = p3, ps_ph = ?tested, ps_rem = ?idle\<rparr> (Cb_Null 5) \<lparr>ps_mgr = p3, ps_ph = PCrashed, ps_rem = ?idle\<rparr>"
    by (rule poll_step.call_null [OF p3(2)])
  show ?thesis unfolding poll_path_Cons poll_path_nil using a b c d e f g h i by blast
qed

text \<open>The invariant behind the wake-up pipe.\<close>

definition wake_ok :: "'c pollsys \<Rightarrow> bool" where
  "wake_ok s \<longleftrightarrow> sel_ok (pm_aio (ps_mgr s))
     \<and> (\<forall>t fd. ps_rem s t = RWaiting fd \<longrightarrow> pm_pending (ps_mgr s))
     \<and> (case ps_ph s of
          PCopy \<Rightarrow> pm_pending (ps_mgr s) \<longrightarrow> 0 < sa_pipe (pm_aio (ps_mgr s))
        | PSelecting R W h \<Rightarrow> (pm_pending (ps_mgr s) \<longrightarrow> 0 < sa_pipe (pm_aio (ps_mgr s)))
            \<and> sa_pipefd (pm_aio (ps_mgr s)) \<in> R \<and> sa_pipefd (pm_aio (ps_mgr s)) \<le> h
        | _ \<Rightarrow> True)"

lemma add_callback_keeps:
  assumes "add_callback fd f ch p = Inr p'" "sel_ok (pm_aio p)"
  shows "sel_ok (pm_aio p') \<and> pm_pending p' = pm_pending p \<and> sa_pipefd (pm_aio p') = sa_pipefd (pm_aio p)
    \<and> sa_pipe (pm_aio p) \<le> sa_pipe (pm_aio p')"
proof -
  obtain a where a: "sel_watch_fd fd f (pm_aio p) = Inr a" "p' = p\<lparr>pm_aio := a, pm_callbacks := (pm_callbacks p)(fd \<mapsto> ch)\<rparr>"
    using assms(1) by (auto simp: add_callback_def bind_r_eq_Inr)
  note sets = sel_watch_sets [OF a(1)]
  have "i \<le> max (sa_highfds (pm_aio p)) fd" if "i \<in> sa_rfds a \<union> sa_wfds a" for i
  proof -
    have "i = fd \<or> i \<in> sa_rfds (pm_aio p) \<union> sa_wfds (pm_aio p)" using that sets by blast
    then show ?thesis using assms(2) unfolding sel_ok_def by (auto intro: max.coboundedI1)
  qed
  then have "sel_ok a" using sets assms(2) unfolding sel_ok_def by auto
  then show ?thesis using a(2) sel_watch_sets [OF a(1)] by simp
qed

lemma sel_unwatch_keeps:
  assumes "sel_unwatch_fd fd f a = Inr (g, a')" "sel_ok a" "fd \<noteq> sa_pipefd a"
  shows "sel_ok a'"
proof -
  have "sel_usable a fd" "io_flag f" using sel_unwatch_sets [OF assms(1)] assms(3) by (auto simp: sel_usable_def)
  then show ?thesis using sel_unwatch_ok [OF assms(2), of fd f] assms(1) by auto
qed

lemma wake_removers_waiting:
  "wake_removers woken rem t = RWaiting fd \<longleftrightarrow> \<not> woken \<and> rem t = RWaiting fd"
  by (cases "rem t") (auto simp: wake_removers_def)

lemma wake_ok_step:
  assumes "poll_step s e s'" "wake_ok s"
  shows "wake_ok s'"
  using assms(1)
proof cases
  case (add fd p f ch p' ph rem)
  then show ?thesis using assms(2) add_callback_keeps [OF add(5)]
    by (auto simp: wake_ok_def split: poll_phase.splits)
next
  case (del fd p f p' ph rem)
  then obtain g a where a: "sel_unwatch_fd fd f (pm_aio p) = Inr (g, a)" "pm_aio p' = a" "pm_pending p' = pm_pending p"
    by (auto simp: del_callback_def bind_r_eq_Inr Let_def cb_ok_def split: if_splits)
  then show ?thesis using assms(2) del sel_unwatch_keeps [OF a(1)] sel_unwatch_sets [OF a(1)]
    by (auto simp: wake_ok_def split: poll_phase.splits)
next
  case (remove_begin fd p rem t p' ph)
  then obtain g a where a: "sel_unwatch_fd fd CB_RDWR (pm_aio p) = Inr (g, a)" "p' = p\<lparr>pm_aio := a, pm_pending := True\<rparr>"
    by (auto simp: block_remove_begin_def bind_r_eq_Inr)
  then show ?thesis using assms(2) remove_begin sel_unwatch_keeps [OF a(1)] sel_unwatch_sets [OF a(1)]
    by (auto simp: wake_ok_def split: poll_phase.splits)
next
  case (remove_end rem t fd p p' ph)
  then have "pm_aio p' = pm_aio p" "pm_pending p' = pm_pending p"
    by (auto simp: block_remove_end_def bind_r_eq_Inr)
  then show ?thesis using assms(2) remove_end by (auto simp: wake_ok_def split: poll_phase.splits)
next
  case (top p woken p' rem)
  then show ?thesis using assms(2)
    by (auto simp: wake_ok_def wait_loop_top_def wake_removers_waiting split: if_splits)
next
  case (copy p rem)
  then show ?thesis using assms(2) by (auto simp: wake_ok_def sel_ok_def)
next
  case (ready ans R W h p a rd wr rem)
  then show ?thesis using assms(2) sel_wait_ready_sub [OF ready(5,4)] by (auto simp: wake_ok_def sel_ok_def)
next
  case (spurious rem t fd p ph)
  then show ?thesis using assms(2) by (cases ph) (auto simp: wake_ok_def split: if_splits)
qed (use assms(2) in \<open>auto simp: wake_ok_def\<close>)

text \<open>
  C34: a remover never waits for a poll thread that sleeps: whenever \<open>block_remove_fd\<close> waits while
  the poll thread is in \<open>select\<close>, the wake-up pipe is among the descriptors it selects on and holds a
  byte, so \<open>select\<close> returns and the next round wakes the remover.
\<close>

theorem block_remove_fd_wakes_poll_thread:
  assumes "poll_path (poll_start p) es s" "p < FD_SETSIZE" "ps_rem s t = RWaiting fd" "ps_ph s = PSelecting R W h"
  shows "sa_pipefd (pm_aio (ps_mgr s)) \<in> R \<and> sa_pipefd (pm_aio (ps_mgr s)) \<le> h \<and> 0 < sa_pipe (pm_aio (ps_mgr s))"
proof -
  have "wake_ok (poll_start p :: 'a pollsys)"
    using assms(2) by (simp add: wake_ok_def poll_start_def PollMgr_new_def SelectAIO_new_def sel_ok_def)
  with assms(1) have "wake_ok s"
    by (induction rule: poll_path.induct) (auto intro: wake_ok_step)
  then show ?thesis using assms(3,4) by (auto simp: wake_ok_def)
qed

lemma demo_remove_in_select:
  "\<exists>s. poll_path (poll_start 3) [PTau, PTau, Removing 1 5] (s :: nat pollsys)
     \<and> ps_rem s 1 = RWaiting 5 \<and> ps_ph s = PSelecting {3} {} 3"
proof -
  let ?p = "PollMgr_new 3 :: nat pollmgr"
  have a: "poll_step (poll_start 3) PTau \<lparr>ps_mgr = ?p, ps_ph = PCopy, ps_rem = wake_removers False (\<lambda>_. RIdle)\<rparr>"
    unfolding poll_start_def by (rule poll_step.top) (simp add: wait_loop_top_def PollMgr_new_def)
  have b: "poll_step \<lparr>ps_mgr = ?p, ps_ph = PCopy, ps_rem = wake_removers False (\<lambda>_. RIdle)\<rparr> PTau
      \<lparr>ps_mgr = ?p, ps_ph = PSelecting {3} {} 3, ps_rem = wake_removers False (\<lambda>_. RIdle)\<rparr>"
    using poll_step.copy [of ?p "wake_removers False (\<lambda>_. RIdle)"] by (simp add: PollMgr_new_def SelectAIO_new_def)
  obtain p' where p': "block_remove_begin 5 ?p = Inr p'"
    by (auto simp: block_remove_begin_def sel_unwatch_spec FD_SETSIZE_def flag_defs)
  have "poll_step \<lparr>ps_mgr = ?p, ps_ph = PSelecting {3} {} 3, ps_rem = wake_removers False (\<lambda>_. RIdle)\<rparr> (Removing 1 5)
      \<lparr>ps_mgr = p', ps_ph = PSelecting {3} {} 3, ps_rem = (wake_removers False (\<lambda>_. RIdle))(1 := RWaiting 5)\<rparr>"
    by (rule poll_step.remove_begin [OF _ _ p'])
      (simp_all add: PollMgr_new_def SelectAIO_new_def wake_removers_def)
  then show ?thesis using a b by (auto simp: poll_path_Cons poll_path_nil intro!: exI)
qed

theorem block_remove_fd_wakes_poll_thread_witness:
  "\<exists>s :: nat pollsys. poll_path (poll_start 3) [PTau, PTau, Removing 1 5] s
     \<and> sa_pipefd (pm_aio (ps_mgr s)) \<in> {3} \<and> 0 < sa_pipe (pm_aio (ps_mgr s))"
proof -
  obtain s :: "nat pollsys" where s: "poll_path (poll_start 3) [PTau, PTau, Removing 1 5] s"
    "ps_rem s 1 = RWaiting 5" "ps_ph s = PSelecting {3} {} 3"
    using demo_remove_in_select by blast
  show ?thesis using block_remove_fd_wakes_poll_thread [OF s(1) _ s(2,3)] s(1) by (auto simp: FD_SETSIZE_def)
qed

text \<open>Sequences of calls on an aio manager, for both implementations.\<close>

datatype aio_op = Watch nat poll_flag | Unwatch nat poll_flag

primrec run_ops :: "(nat \<Rightarrow> poll_flag \<Rightarrow> 's \<Rightarrow> 's result) \<Rightarrow> (nat \<Rightarrow> poll_flag \<Rightarrow> 's \<Rightarrow> (bool \<times> 's) result) \<Rightarrow>
    aio_op list \<Rightarrow> 's \<Rightarrow> (bool list \<times> 's) result" where
  "run_ops w u [] s = Inr ([], s)"
| "run_ops w u (x # xs) s =
     (case x of
        Watch fd f \<Rightarrow> bind_r (w fd f s) (\<lambda>s. run_ops w u xs s)
      | Unwatch fd f \<Rightarrow> bind_r (u fd f s) (\<lambda>(g, s). bind_r (run_ops w u xs s) (\<lambda>(gs, s). Inr (g # gs, s))))"

text \<open>The calls respect the interface: known flags, descriptors in range, unwatching only what is watched.\<close>

primrec ops_ok :: "nat \<Rightarrow> aio_op list \<Rightarrow> nat set \<Rightarrow> nat set \<Rightarrow> bool" where
  "ops_ok p [] R W \<longleftrightarrow> True"
| "ops_ok p (x # xs) R W \<longleftrightarrow>
     (case x of
        Watch fd f \<Rightarrow> fd < MAX_POLL_FDS \<and> fd \<noteq> p \<and> io_flag f \<and>
          ops_ok p xs (if flag_rd f then insert fd R else R) (if flag_wr f then insert fd W else W)
      | Unwatch fd f \<Rightarrow> fd < MAX_POLL_FDS \<and> fd \<noteq> p \<and> io_flag f \<and> fd \<in> R \<union> W \<and>
          ops_ok p xs (if flag_rd f then R - {fd} else R) (if flag_wr f then W - {fd} else W))"

definition aio_rel :: "nat \<Rightarrow> select_aio \<Rightarrow> epoll_aio \<Rightarrow> bool" where
  "aio_rel p s e \<longleftrightarrow> sel_ok s \<and> ep_ok e \<and> sa_pipefd s = p \<and> p \<notin> ep_rd e \<union> ep_wr e
     \<and> sa_rfds s = insert p (ep_rd e) \<and> sa_wfds s = ep_wr e"

lemma aio_rel_watch:
  assumes "aio_rel p s e" "fd < MAX_POLL_FDS" "fd \<noteq> p" "io_flag f"
  shows "\<exists>s' e'. sel_watch_fd fd f s = Inr s' \<and> ep_watch_fd fd f e = Inr e' \<and> aio_rel p s' e'
    \<and> ep_rd e' = (if flag_rd f then insert fd (ep_rd e) else ep_rd e)
    \<and> ep_wr e' = (if flag_wr f then insert fd (ep_wr e) else ep_wr e)"
proof -
  have us: "sel_usable s fd" "ep_usable e fd"
    using assms(1-3) by (auto simp: aio_rel_def sel_usable_def ep_usable_def MAX_POLL_FDS_def FD_SETSIZE_def)
  obtain e' where e': "ep_watch_fd fd f e = Inr e'" "ep_ok e'"
    "ep_rd e' = (if flag_rd f then insert fd (ep_rd e) else ep_rd e)"
    "ep_wr e' = (if flag_wr f then insert fd (ep_wr e) else ep_wr e)"
    using ep.watch_law [OF _ us(2) assms(4)] assms(1) by (auto simp: aio_rel_def)
  obtain s' where s': "sel_watch_fd fd f s = Inr s'" "sel_ok s'"
    "sa_rfds s' = (if flag_rd f then insert fd (sa_rfds s) else sa_rfds s)"
    "sa_wfds s' = (if flag_wr f then insert fd (sa_wfds s) else sa_wfds s)"
    using sel.watch_law [OF _ us(1) assms(4)] assms(1) by (auto simp: aio_rel_def)
  have "aio_rel p s' e'" using assms(1,3) e' s' sel_watch_sets [OF s'(1)] by (auto simp: aio_rel_def)
  then show ?thesis using e' s' by blast
qed

lemma aio_rel_unwatch:
  assumes "aio_rel p s e" "fd < MAX_POLL_FDS" "fd \<noteq> p" "io_flag f" "fd \<in> ep_rd e \<union> ep_wr e"
  shows "\<exists>g s' e'. sel_unwatch_fd fd f s = Inr (g, s') \<and> ep_unwatch_fd fd f e = Inr (g, e') \<and> aio_rel p s' e'
    \<and> ep_rd e' = (if flag_rd f then ep_rd e - {fd} else ep_rd e)
    \<and> ep_wr e' = (if flag_wr f then ep_wr e - {fd} else ep_wr e)"
proof -
  have us: "sel_usable s fd" "ep_usable e fd"
    using assms(1-3) by (auto simp: aio_rel_def sel_usable_def ep_usable_def MAX_POLL_FDS_def FD_SETSIZE_def)
  obtain e' where e': "ep_unwatch_fd fd f e = Inr (fd \<notin> ep_rd e' \<union> ep_wr e', e')" "ep_ok e'"
    "ep_rd e' = (if flag_rd f then ep_rd e - {fd} else ep_rd e)"
    "ep_wr e' = (if flag_wr f then ep_wr e - {fd} else ep_wr e)"
    using ep.unwatch_law [OF _ us(2) assms(4,5)] assms(1) by (auto simp: aio_rel_def)
  have "fd \<in> sa_rfds s \<union> sa_wfds s" using assms(1,5) by (auto simp: aio_rel_def)
  then obtain s' where s': "sel_unwatch_fd fd f s = Inr (fd \<notin> sa_rfds s' \<union> sa_wfds s', s')" "sel_ok s'"
    "sa_rfds s' = (if flag_rd f then sa_rfds s - {fd} else sa_rfds s)"
    "sa_wfds s' = (if flag_wr f then sa_wfds s - {fd} else sa_wfds s)"
    using sel.unwatch_law [OF _ us(1) assms(4)] assms(1) by (auto simp: aio_rel_def)
  have "aio_rel p s' e'" using assms(1,3) e' s' sel_unwatch_sets [OF s'(1)] by (auto simp: aio_rel_def)
  moreover from this have "(fd \<notin> sa_rfds s' \<union> sa_wfds s') = (fd \<notin> ep_rd e' \<union> ep_wr e')"
    using assms(3) by (auto simp: aio_rel_def)
  ultimately have "sel_unwatch_fd fd f s = Inr (fd \<notin> ep_rd e' \<union> ep_wr e', s')" "aio_rel p s' e'"
    using s'(1) by auto
  then show ?thesis using e'(1,3,4) by blast
qed

lemma aio_rel_ops:
  "aio_rel p s e \<Longrightarrow> ops_ok p xs (ep_rd e) (ep_wr e) \<Longrightarrow>
   \<exists>gs s' e'. run_ops sel_watch_fd sel_unwatch_fd xs s = Inr (gs, s') \<and>
     run_ops ep_watch_fd ep_unwatch_fd xs e = Inr (gs, e') \<and> aio_rel p s' e'"
proof (induction xs arbitrary: s e)
  case (Cons x xs)
  show ?case
  proof (cases x)
    case (Watch fd f)
    then have o: "fd < MAX_POLL_FDS" "fd \<noteq> p" "io_flag f" using Cons.prems(2) by auto
    obtain s' e' where *: "sel_watch_fd fd f s = Inr s'" "ep_watch_fd fd f e = Inr e'" "aio_rel p s' e'"
      "ep_rd e' = (if flag_rd f then insert fd (ep_rd e) else ep_rd e)"
      "ep_wr e' = (if flag_wr f then insert fd (ep_wr e) else ep_wr e)"
      using aio_rel_watch [OF Cons.prems(1) o] by blast
    then have "ops_ok p xs (ep_rd e') (ep_wr e')" using Cons.prems(2) Watch by simp
    then show ?thesis using Cons.IH [OF *(3)] * Watch by simp
  next
    case (Unwatch fd f)
    then have o: "fd < MAX_POLL_FDS" "fd \<noteq> p" "io_flag f" "fd \<in> ep_rd e \<union> ep_wr e" using Cons.prems(2) by auto
    obtain g s' e' where *: "sel_unwatch_fd fd f s = Inr (g, s')" "ep_unwatch_fd fd f e = Inr (g, e')" "aio_rel p s' e'"
      "ep_rd e' = (if flag_rd f then ep_rd e - {fd} else ep_rd e)"
      "ep_wr e' = (if flag_wr f then ep_wr e - {fd} else ep_wr e)"
      using aio_rel_unwatch [OF Cons.prems(1) o] by blast
    then have "ops_ok p xs (ep_rd e') (ep_wr e')" using Cons.prems(2) Unwatch by simp
    then obtain gs s2 e2 where "run_ops sel_watch_fd sel_unwatch_fd xs s' = Inr (gs, s2)"
      "run_ops ep_watch_fd ep_unwatch_fd xs e' = Inr (gs, e2)" "aio_rel p s2 e2"
      using Cons.IH [OF *(3)] by blast
    then show ?thesis using * Unwatch by simp
  qed
qed simp

text \<open>
  \<open>EPollAIO::is_watched\<close> masks the status with \<open>CB_MASK\<close>, the complement of the flags, so
  it denies every flag of every descriptor, also of one that was just watched.
\<close>

lemma epoll_is_watched_denies:
  assumes "ep_ok s" "fd < MAX_POLL_FDS" "io_flag f"
  shows "ep_is_watched fd f s = Inr False"
proof -
  have "ep_fdstatus s fd \<in> {0, 0x1, 0x10, 0x11}" using assms(1) unfolding ep_ok_def by blast
  then have "ep_fdstatus s fd AND flag_val CB_MASK = 0" by auto
  moreover have "flag_val f \<noteq> 0" using assms(3) by (cases f) (auto simp: flag_defs)
  ultimately show ?thesis using assms(2) by (simp add: ep_is_watched_def)
qed

lemma epoll_is_watched_denies_witness:
  "bind_r (ep_watch_fd 5 CB_RDONLY EPollAIO_new) (ep_is_watched 5 CB_RDONLY) = Inr False"
proof -
  have "ep_ok EPollAIO_new" by (simp add: ep_ok_def EPollAIO_new_def)
  then obtain s where "ep_watch_fd 5 CB_RDONLY EPollAIO_new = Inr s" "ep_ok s"
    using ep.watch_law [of EPollAIO_new 5 CB_RDONLY] by (auto simp: ep_usable_def MAX_POLL_FDS_def flag_defs)
  then show ?thesis using epoll_is_watched_denies [of s 5 CB_RDONLY] by (simp add: MAX_POLL_FDS_def flag_defs)
qed

text \<open>
  C35: the two implementations of \<open>aio_mgr\<close> agree on \<open>watch_fd\<close> and \<open>unwatch_fd\<close>: on every sequence of these
  calls that respects the interface, both succeed, their \<open>unwatch_fd\<close> return the same answers, and
  they end up watching the same descriptors for reading and for writing.  They do not agree on \<open>is_watched\<close>: over
  \<open>select\<close> it answers what is watched, over \<open>epoll\<close> it denies every flag.
\<close>

theorem select_epoll_equivalent:
  assumes "p < FD_SETSIZE" "ops_ok p xs {} {}"
  shows "\<exists>gs s e. run_ops sel_watch_fd sel_unwatch_fd xs (SelectAIO_new p) = Inr (gs, s)
    \<and> run_ops ep_watch_fd ep_unwatch_fd xs EPollAIO_new = Inr (gs, e)
    \<and> sa_rfds s = insert p (ep_rd e) \<and> sa_wfds s = ep_wr e
    \<and> (\<forall>fd f. fd < MAX_POLL_FDS \<and> fd \<noteq> p \<and> io_flag f \<longrightarrow>
        sel_is_watched fd f s = Inr ((flag_rd f \<longrightarrow> fd \<in> ep_rd e) \<and> (flag_wr f \<longrightarrow> fd \<in> ep_wr e)) \<and> ep_is_watched fd f e = Inr False)"
proof -
  have e: "ep_rd EPollAIO_new = {}" "ep_wr EPollAIO_new = {}"
    by (simp_all add: ep_rd_def ep_wr_def EPollAIO_new_def ep_events_def)
  have "aio_rel p (SelectAIO_new p) EPollAIO_new"
    using assms(1) e by (auto simp: aio_rel_def sel_ok_def ep_ok_def SelectAIO_new_def EPollAIO_new_def)
  then obtain gs s e' where r: "run_ops sel_watch_fd sel_unwatch_fd xs (SelectAIO_new p) = Inr (gs, s)"
    "run_ops ep_watch_fd ep_unwatch_fd xs EPollAIO_new = Inr (gs, e')" "aio_rel p s e'"
    using aio_rel_ops [of p "SelectAIO_new p" EPollAIO_new xs] assms(2) e by auto
  have sets: "sel_ok s" "ep_ok e'" "sa_pipefd s = p" "sa_rfds s = insert p (ep_rd e')" "sa_wfds s = ep_wr e'" using r(3) by (auto simp: aio_rel_def)
  have "sel_is_watched fd f s = Inr ((flag_rd f \<longrightarrow> fd \<in> ep_rd e') \<and> (flag_wr f \<longrightarrow> fd \<in> ep_wr e')) \<and> ep_is_watched fd f e' = Inr False"
    if "fd < MAX_POLL_FDS" "fd \<noteq> p" "io_flag f" for fd f
  proof -
    have "sel_usable s fd" using that sets(3) by (auto simp: sel_usable_def MAX_POLL_FDS_def FD_SETSIZE_def)
    then show ?thesis using sel.is_watched_law [OF sets(1) _ that(3), of fd] epoll_is_watched_denies [OF sets(2) that(1,3)] sets(4,5) that(2) by simp
  qed
  then show ?thesis using r sets(4,5) by blast
qed

theorem select_epoll_equivalent_witness:
  "\<exists>gs s e. run_ops sel_watch_fd sel_unwatch_fd [Watch 5 CB_RDONLY, Watch 5 CB_WRONLY, Unwatch 5 CB_WRONLY]
       (SelectAIO_new 3) = Inr (gs, s)
    \<and> run_ops ep_watch_fd ep_unwatch_fd [Watch 5 CB_RDONLY, Watch 5 CB_WRONLY, Unwatch 5 CB_WRONLY]
       EPollAIO_new = Inr (gs, e)
    \<and> sa_rfds s = insert 3 (ep_rd e) \<and> sa_wfds s = ep_wr e"
proof -
  have "ops_ok 3 [Watch 5 CB_RDONLY, Watch 5 CB_WRONLY, Unwatch 5 CB_WRONLY] {} {}" "(3 :: nat) < FD_SETSIZE"
    by (simp_all add: flag_defs MAX_POLL_FDS_def FD_SETSIZE_def)
  from select_epoll_equivalent [OF this(2,1)] show ?thesis by blast
qed

end
