(* ===== verification/Connection.thy ===== *)
theory Connection
  imports Poll_Mgr "HOL-Library.Sublist"
begin

text \<open>
  Class \<open>connection\<close> of \<^verbatim>\<open>rpc/connection.h\<close> and \<^verbatim>\<open>rpc/connection.cc\<close>: framing of messages on a byte
  stream, the turn-taking of sending threads, reference counts and closing.

  The answers of \<open>read\<close> and \<open>write\<close> are arguments.  A \<open>read\<close> that meets the end of the stream does
  not set \<open>errno\<close>, which the code tests all the same, so that answer carries whether the
  previous value of \<open>errno\<close> is \<open>EAGAIN\<close>.  What an operation asks of the poll manager is part
  of its result.  \<open>send\<close> is cut where it gives up the mutex; \<open>conn_step\<close> puts the pieces together
  for any number of sending threads, the poll thread's callbacks and a thread that closes.
\<close>

section \<open>State\<close>

record charbuf =
  cb_buf :: "byte list option"
  cb_sz :: int
  cb_solong :: int

definition charbuf_empty :: charbuf where
  "charbuf_empty = \<lparr>cb_buf = None, cb_sz = 0, cb_solong = 0\<rparr>"

record conn =
  cn_fd :: nat
  cn_dead :: bool
  cn_wpdu :: charbuf
  cn_rpdu :: charbuf
  cn_create :: "int \<times> int"
  cn_waiters :: nat
  cn_refno :: int
  cn_lossy :: int

datatype poll_req = Req_Add poll_flag | Req_Del poll_flag | Req_Block_Remove | Req_Shutdown

definition MAX_PDU :: int where "MAX_PDU = 10485760"

text \<open>The constructor, with the time of creation; it asks to be called back for reading.\<close>

definition conn_new :: "nat \<Rightarrow> int \<times> int \<Rightarrow> int \<Rightarrow> conn \<times> poll_req list" where
  "conn_new fd now lossy =
     (\<lparr>cn_fd = fd, cn_dead = False, cn_wpdu = charbuf_empty, cn_rpdu = charbuf_empty, cn_create = now,
       cn_waiters = 0, cn_refno = 1, cn_lossy = lossy\<rparr>, [Req_Add CB_RDONLY])"

section \<open>References\<close>

definition incref :: "conn \<Rightarrow> conn" where
  "incref c = c\<lparr>cn_refno := cn_refno c + 1\<rparr>"

definition conn_delete :: "conn \<Rightarrow> unit result" where
  "conn_delete c = bind_r (VERIFY (cn_dead c)) (\<lambda>_. VERIFY (cb_buf (cn_wpdu c) = None))"

text \<open>\<open>decref\<close>: the result is the connection, or nothing when it was deleted.\<close>

definition decref :: "conn \<Rightarrow> conn option result" where
  "decref c =
     (let c = c\<lparr>cn_refno := cn_refno c - 1\<rparr> in
      bind_r (VERIFY (cn_refno c \<ge> 0)) (\<lambda>_.
      if cn_refno c = 0 \<and> cn_dead c then bind_r (conn_delete c) (\<lambda>_. Inr None) else Inr (Some c)))"

definition closeconn :: "conn \<Rightarrow> conn \<times> poll_req list" where
  "closeconn c =
     (if \<not> cn_dead c then (c\<lparr>cn_dead := True\<rparr>, [Req_Shutdown, Req_Block_Remove]) else (c, []))"

definition conn_compare :: "conn \<Rightarrow> conn \<Rightarrow> int" where
  "conn_compare c another =
     (if fst (cn_create c) > fst (cn_create another) then 1
      else if fst (cn_create c) < fst (cn_create another) then - 1
      else if snd (cn_create c) > snd (cn_create another) then 1
      else if snd (cn_create c) < snd (cn_create another) then - 1
      else 0)"

section \<open>Writing\<close>

datatype write_answer = Wrote nat | W_EAGAIN | W_Error

text \<open>\<open>writepdu\<close>: its result, the connection and the bytes that the system took.\<close>

definition writepdu :: "write_answer \<Rightarrow> conn \<Rightarrow> (bool \<times> conn \<times> byte list) result" where
  "writepdu a c =
     (let w = cn_wpdu c in
      bind_r (VERIFY (cb_solong w \<ge> 0)) (\<lambda>_.
      if cb_solong w = cb_sz w then Inr (True, c, [])
      else case cb_buf w of
        None \<Rightarrow> Inl Null_Deref
      | Some b \<Rightarrow>
          bind_r (if cb_solong w = 0 then
                    if length b < 4 then Inl Out_Of_Bounds
                    else Inr (be32 (word_of_int (cb_sz w)) @ drop 4 b)
                  else Inr b) (\<lambda>b.
          let w = w\<lparr>cb_buf := Some b\<rparr> in
          case a of
            W_Error \<Rightarrow> Inr (False, c\<lparr>cn_wpdu := w\<lparr>cb_solong := - 1, cb_sz := 0\<rparr>\<rparr>, [])
          | W_EAGAIN \<Rightarrow> Inr (True, c\<lparr>cn_wpdu := w\<rparr>, [])
          | Wrote n \<Rightarrow> Inr (True, c\<lparr>cn_wpdu := w\<lparr>cb_solong := cb_solong w + int n\<rparr>\<rparr>,
                          take n (drop (nat (cb_solong w)) b)))))"

text \<open>\<open>send\<close>: the test before it waits for its turn, the first write, and the end.\<close>

definition send_must_wait :: "conn \<Rightarrow> bool" where
  "send_must_wait c \<longleftrightarrow> \<not> cn_dead c \<and> cb_buf (cn_wpdu c) \<noteq> None"

datatype send_next = Send_Remove | Send_Wait | Send_Finish

definition send_incomplete :: "conn \<Rightarrow> bool" where
  "send_incomplete c \<longleftrightarrow> \<not> cn_dead c \<and> cb_solong (cn_wpdu c) \<ge> 0 \<and> cb_solong (cn_wpdu c) < cb_sz (cn_wpdu c)"

definition send_start ::
    "write_answer \<Rightarrow> byte list \<Rightarrow> int \<Rightarrow> conn \<Rightarrow> (send_next \<times> conn \<times> byte list \<times> poll_req list) result" where
  "send_start a b sz c =
     bind_r (writepdu a (c\<lparr>cn_wpdu := \<lparr>cb_buf = Some b, cb_sz = sz, cb_solong = 0\<rparr>\<rparr>)) (\<lambda>(succ, c, out).
     if \<not> succ then Inr (Send_Remove, c\<lparr>cn_dead := True\<rparr>, out, [Req_Block_Remove])
     else if cb_solong (cn_wpdu c) = cb_sz (cn_wpdu c) then Inr (Send_Finish, c, out, [])
     else Inr (if send_incomplete c then Send_Wait else Send_Finish, c, out, [Req_Add CB_WRONLY]))"

text \<open>The end of \<open>send\<close>: its result, and whether the senders that wait for their turn are woken.\<close>

definition send_finish :: "conn \<Rightarrow> bool \<times> conn \<times> bool" where
  "send_finish c =
     (\<not> cn_dead c \<and> cb_solong (cn_wpdu c) = cb_sz (cn_wpdu c), c\<lparr>cn_wpdu := charbuf_empty\<rparr>, cn_waiters c > 0)"

text \<open>\<open>write_cb\<close>: the connection, the bytes taken, the requests, and whether \<open>send_complete_\<close> is signalled.\<close>

definition write_cb :: "write_answer \<Rightarrow> nat \<Rightarrow> conn \<Rightarrow> (conn \<times> byte list \<times> poll_req list \<times> bool) result" where
  "write_cb a s c =
     bind_r (VERIFY (\<not> cn_dead c)) (\<lambda>_.
     bind_r (VERIFY (cn_fd c = s)) (\<lambda>_.
     if cb_sz (cn_wpdu c) = 0 then Inr (c, [], [Req_Del CB_WRONLY], False)
     else bind_r (writepdu a c) (\<lambda>(succ, c, out).
       if \<not> succ then Inr (c\<lparr>cn_dead := True\<rparr>, out, [Req_Del CB_RDWR], True)
       else bind_r (VERIFY (cb_solong (cn_wpdu c) \<ge> 0)) (\<lambda>_.
         Inr (c, out, [], \<not> cb_solong (cn_wpdu c) < cb_sz (cn_wpdu c))))))"

section \<open>Reading\<close>

datatype read_answer = Got "byte list" | R_EOF bool | R_EAGAIN | R_Error

fun ntohl_bytes :: "byte list \<Rightarrow> u32" where
  "ntohl_bytes [a, b, c, d] =
     push_bit 24 (ucast a) OR push_bit 16 (ucast b) OR push_bit 8 (ucast c) OR ucast d"
| "ntohl_bytes _ = 0"

text \<open>
  The first part of \<open>readpdu\<close>, for a new message; \<open>None\<close> is \<open>return false\<close>.  A negative size is
  converted to an unsigned one: below \<open>-4\<close> the allocation fails, from there up the block is
  smaller than the four bytes copied into it.
\<close>

definition readpdu_size :: "read_answer \<Rightarrow> (nat \<Rightarrow> byte) \<Rightarrow> conn \<Rightarrow> conn option result" where
  "readpdu_size r junk c =
     (case r of
        R_EOF _ \<Rightarrow> Inr None
      | R_EAGAIN \<Rightarrow> Inl Verify_Failed
      | R_Error \<Rightarrow> Inr None
      | Got bs \<Rightarrow>
          if length bs \<noteq> 4 then Inr None
          else let sz = sint (ntohl_bytes bs) in
            if sz > MAX_PDU then Inr None
            else if cb_buf (cn_rpdu c) \<noteq> None then Inl Verify_Failed
            else if sz < - 4 then Inl Verify_Failed
            else if sz < 0 then Inl Out_Of_Bounds
            else Inr (Some (c\<lparr>cn_rpdu := \<lparr>cb_buf = Some (bs @ map junk [4..<nat sz + 4]),
                                        cb_sz = sz, cb_solong = 4\<rparr>\<rparr>)))"

text \<open>The second part, for the bytes of the message.\<close>

definition readpdu_rest :: "read_answer \<Rightarrow> conn \<Rightarrow> (bool \<times> conn) result" where
  "readpdu_rest r c =
     (case cb_buf (cn_rpdu c) of
        None \<Rightarrow> Inl Null_Deref
      | Some b \<Rightarrow>
          let i = nat (cb_solong (cn_rpdu c)) in
          (case r of
             Got bs \<Rightarrow>
               if i + length bs \<le> length b
               then Inr (True, c\<lparr>cn_rpdu := (cn_rpdu c)\<lparr>
                      cb_buf := Some (take i b @ bs @ drop (i + length bs) b),
                      cb_solong := cb_solong (cn_rpdu c) + int (length bs)\<rparr>\<rparr>)
               else Inl Out_Of_Bounds
           | R_EAGAIN \<Rightarrow> Inr (True, c)
           | R_EOF stale \<Rightarrow>
               if stale then Inr (True, c) else Inr (False, c\<lparr>cn_rpdu := charbuf_empty\<rparr>)
           | R_Error \<Rightarrow> Inr (False, c\<lparr>cn_rpdu := charbuf_empty\<rparr>)))"

definition readpdu :: "read_answer \<Rightarrow> read_answer \<Rightarrow> (nat \<Rightarrow> byte) \<Rightarrow> conn \<Rightarrow> (bool \<times> conn) result" where
  "readpdu r1 r2 junk c =
     bind_r (if cb_sz (cn_rpdu c) = 0 then readpdu_size r1 junk c else Inr (Some c)) (\<lambda>oc.
     case oc of None \<Rightarrow> Inr (False, c) | Some c \<Rightarrow> readpdu_rest r2 c)"

text \<open>
  \<open>read_cb\<close>; \<open>accept\<close> is what \<open>got_pdu\<close> of the manager returns.  The result is the connection,
  the requests, whether \<open>send_complete_\<close> is signalled, and the message handed to \<open>got_pdu\<close>.
\<close>

definition read_cb ::
    "bool \<Rightarrow> read_answer \<Rightarrow> read_answer \<Rightarrow> (nat \<Rightarrow> byte) \<Rightarrow> nat \<Rightarrow> conn \<Rightarrow>
     (conn \<times> poll_req list \<times> bool \<times> (byte list \<times> int) option) result" where
  "read_cb accept r1 r2 junk s c =
     bind_r (VERIFY (cn_fd c = s)) (\<lambda>_.
     if cn_dead c then Inr (c, [], False, None)
     else bind_r (if cb_buf (cn_rpdu c) = None \<or> cb_solong (cn_rpdu c) < cb_sz (cn_rpdu c)
                  then readpdu r1 r2 junk c else Inr (True, c)) (\<lambda>(succ, c).
       let (c, reqs, sig) = (if \<not> succ then (c\<lparr>cn_dead := True\<rparr>, [Req_Del CB_RDWR], True) else (c, [], False)) in
       (case cb_buf (cn_rpdu c) of
          None \<Rightarrow> Inr (c, reqs, sig, None)
        | Some b \<Rightarrow>
            if cb_sz (cn_rpdu c) = cb_solong (cn_rpdu c)
            then Inr (if accept then c\<lparr>cn_rpdu := charbuf_empty\<rparr> else c, reqs, sig, Some (b, cb_sz (cn_rpdu c)))
            else Inr (c, reqs, sig, None))))"

section \<open>The threads around a connection\<close>

datatype sphase =
    SIdle
  | STest "byte list" int
  | SWaitTurn "byte list" int
  | SRetest "byte list" int
  | SWaitWritten "byte list" int
  | SRemoving "byte list" int

text \<open>
  \<open>cs_out\<close> are the bytes the system has taken from this connection, \<open>cs_sent\<close> the messages whose
  \<open>send\<close> has returned true, in that order.
\<close>

record connsys =
  cs_conn :: conn
  cs_out :: "byte list"
  cs_ph :: "nat \<Rightarrow> sphase"
  cs_sent :: "(byte list \<times> int) list"

datatype cevent = CSendReturns nat bool | CClosed | CSpurious | CTau

text \<open>What a finished \<open>send\<close> does to the phases, given whether it wakes the senders in line.\<close>

definition wake_turn :: "bool \<Rightarrow> (nat \<Rightarrow> sphase) \<Rightarrow> nat \<Rightarrow> sphase" where
  "wake_turn wake ph = (\<lambda>t. case ph t of SWaitTurn b sz \<Rightarrow> if wake then STest b sz else SWaitTurn b sz | p \<Rightarrow> p)"

text \<open>\<open>pthread_cond_signal(&send_complete_)\<close>: at most one thread waits there, the one whose message is being written.\<close>

definition wake_written :: "bool \<Rightarrow> (nat \<Rightarrow> sphase) \<Rightarrow> nat \<Rightarrow> sphase" where
  "wake_written sig ph = (\<lambda>t. case ph t of SWaitWritten b sz \<Rightarrow> if sig then SRetest b sz else SWaitWritten b sz | p \<Rightarrow> p)"

text \<open>The system takes at most the bytes it is offered.\<close>

definition write_fits :: "write_answer \<Rightarrow> int \<Rightarrow> bool" where
  "write_fits a n \<longleftrightarrow> (case a of Wrote k \<Rightarrow> int k \<le> n | _ \<Rightarrow> True)"

definition finished :: "nat \<Rightarrow> byte list \<Rightarrow> int \<Rightarrow> connsys \<Rightarrow> bool \<times> connsys" where
  "finished t b sz s =
     (case send_finish (cs_conn s) of (ret, c, wake) \<Rightarrow>
        (ret, s\<lparr>cs_conn := c, cs_ph := wake_turn wake ((cs_ph s)(t := SIdle)),
                cs_sent := (if ret then cs_sent s @ [(b, sz)] else cs_sent s)\<rparr>))"

inductive conn_step :: "connsys \<Rightarrow> cevent \<Rightarrow> connsys \<Rightarrow> bool" where
  call_send: "cs_ph s t = SIdle \<Longrightarrow> 4 < sz \<Longrightarrow> sz \<le> int (length b) \<Longrightarrow> sz < 2 ^ 31 \<Longrightarrow>
     conn_step s CTau (s\<lparr>cs_conn := (cs_conn s)\<lparr>cn_waiters := Suc (cn_waiters (cs_conn s))\<rparr>,
                         cs_ph := (cs_ph s)(t := STest b sz)\<rparr>)"
| wait_turn: "cs_ph s t = STest b sz \<Longrightarrow> send_must_wait (cs_conn s) \<Longrightarrow>
     conn_step s CTau (s\<lparr>cs_ph := (cs_ph s)(t := SWaitTurn b sz)\<rparr>)"
| refused: "cs_ph s t = STest b sz \<Longrightarrow> cn_dead (cs_conn s) \<Longrightarrow>
     conn_step s (CSendReturns t False)
       (s\<lparr>cs_conn := (cs_conn s)\<lparr>cn_waiters := cn_waiters (cs_conn s) - 1\<rparr>, cs_ph := (cs_ph s)(t := SIdle)\<rparr>)"
| start_finish: "cs_ph s t = STest b sz \<Longrightarrow> \<not> send_must_wait (cs_conn s) \<Longrightarrow> \<not> cn_dead (cs_conn s) \<Longrightarrow>
     write_fits a sz \<Longrightarrow>
     send_start a b sz ((cs_conn s)\<lparr>cn_waiters := cn_waiters (cs_conn s) - 1\<rparr>) = Inr (Send_Finish, c, out, reqs) \<Longrightarrow>
     finished t b sz (s\<lparr>cs_conn := c, cs_out := cs_out s @ out\<rparr>) = (ret, s') \<Longrightarrow>
     conn_step s (CSendReturns t ret) s'"
| start_wait: "cs_ph s t = STest b sz \<Longrightarrow> \<not> send_must_wait (cs_conn s) \<Longrightarrow> \<not> cn_dead (cs_conn s) \<Longrightarrow>
     write_fits a sz \<Longrightarrow>
     send_start a b sz ((cs_conn s)\<lparr>cn_waiters := cn_waiters (cs_conn s) - 1\<rparr>) = Inr (Send_Wait, c, out, reqs) \<Longrightarrow>
     conn_step s CTau (s\<lparr>cs_conn := c, cs_out := cs_out s @ out, cs_ph := (cs_ph s)(t := SWaitWritten b sz)\<rparr>)"
| start_remove: "cs_ph s t = STest b sz \<Longrightarrow> \<not> send_must_wait (cs_conn s) \<Longrightarrow> \<not> cn_dead (cs_conn s) \<Longrightarrow>
     write_fits a sz \<Longrightarrow>
     send_start a b sz ((cs_conn s)\<lparr>cn_waiters := cn_waiters (cs_conn s) - 1\<rparr>) = Inr (Send_Remove, c, out, reqs) \<Longrightarrow>
     conn_step s CTau (s\<lparr>cs_conn := c, cs_out := cs_out s @ out, cs_ph := (cs_ph s)(t := SRemoving b sz)\<rparr>)"
| retest_wait: "cs_ph s t = SRetest b sz \<Longrightarrow> send_incomplete (cs_conn s) \<Longrightarrow>
     conn_step s CTau (s\<lparr>cs_ph := (cs_ph s)(t := SWaitWritten b sz)\<rparr>)"
| retest_finish: "cs_ph s t = SRetest b sz \<Longrightarrow> \<not> send_incomplete (cs_conn s) \<Longrightarrow> finished t b sz s = (ret, s') \<Longrightarrow>
     conn_step s (CSendReturns t ret) s'"
| remove_finish: "cs_ph s t = SRemoving b sz \<Longrightarrow> finished t b sz s = (ret, s') \<Longrightarrow>
     conn_step s (CSendReturns t ret) s'"
| writable: "write_fits a (cb_sz (cn_wpdu (cs_conn s)) - cb_solong (cn_wpdu (cs_conn s))) \<Longrightarrow>
     write_cb a (cn_fd (cs_conn s)) (cs_conn s) = Inr (c, out, reqs, sig) \<Longrightarrow>
     conn_step s CTau (s\<lparr>cs_conn := c, cs_out := cs_out s @ out, cs_ph := wake_written sig (cs_ph s)\<rparr>)"
| readable: "read_cb accept r1 r2 junk (cn_fd (cs_conn s)) (cs_conn s) = Inr (c, reqs, sig, pdu) \<Longrightarrow>
     conn_step s CTau (s\<lparr>cs_conn := c, cs_ph := wake_written sig (cs_ph s)\<rparr>)"
| closing: "closeconn (cs_conn s) = (c, reqs) \<Longrightarrow> conn_step s CClosed (s\<lparr>cs_conn := c\<rparr>)"
| spurious_turn: "cs_ph s t = SWaitTurn b sz \<Longrightarrow> conn_step s CSpurious (s\<lparr>cs_ph := (cs_ph s)(t := STest b sz)\<rparr>)"
| spurious_written: "cs_ph s t = SWaitWritten b sz \<Longrightarrow>
     conn_step s CSpurious (s\<lparr>cs_ph := (cs_ph s)(t := SRetest b sz)\<rparr>)"

definition conn_start :: "nat \<Rightarrow> int \<times> int \<Rightarrow> int \<Rightarrow> connsys" where
  "conn_start fd now lossy =
     \<lparr>cs_conn = fst (conn_new fd now lossy), cs_out = [], cs_ph = (\<lambda>_. SIdle), cs_sent = []\<rparr>"

inductive conn_path :: "connsys \<Rightarrow> cevent list \<Rightarrow> connsys \<Rightarrow> bool" for s where
  conn_here: "conn_path s [] s"
| conn_more: "conn_path s es u \<Longrightarrow> conn_step u e t \<Longrightarrow> conn_path s (es @ [e]) t"

text \<open>
  The receiving side: the bytes taken from the stream so far and the messages that the manager
  accepted.  A \<open>read\<close> gives at least one byte and at most what was asked for.
\<close>

definition read_bytes :: "read_answer \<Rightarrow> byte list" where
  "read_bytes r = (case r of Got bs \<Rightarrow> bs | _ \<Rightarrow> [])"

definition read_cb_takes :: "read_answer \<Rightarrow> read_answer \<Rightarrow> conn \<Rightarrow> byte list" where
  "read_cb_takes r1 r2 c =
     (if cb_buf (cn_rpdu c) = None \<or> cb_solong (cn_rpdu c) < cb_sz (cn_rpdu c)
      then (if cb_sz (cn_rpdu c) = 0 then read_bytes r1 else []) @ read_bytes r2 else [])"

definition read_fits :: "read_answer \<Rightarrow> read_answer \<Rightarrow> conn \<Rightarrow> bool" where
  "read_fits r1 r2 c \<longleftrightarrow>
     (case r2 of Got bs \<Rightarrow> bs \<noteq> [] \<and>
        int (length bs) \<le> (if cb_sz (cn_rpdu c) = 0 then sint (ntohl_bytes (read_bytes r1)) - 4
                            else cb_sz (cn_rpdu c) - cb_solong (cn_rpdu c)) | _ \<Rightarrow> True)"

inductive recv_run :: "conn \<Rightarrow> byte list \<Rightarrow> byte list list \<Rightarrow> conn \<Rightarrow> bool" for c0 where
  recv_start: "recv_run c0 [] [] c0"
| recv_more: "recv_run c0 S ps c \<Longrightarrow> read_fits r1 r2 c \<Longrightarrow>
     read_cb accept r1 r2 junk (cn_fd c) c = Inr (c', reqs, sig, pdu) \<Longrightarrow> \<not> cn_dead c' \<Longrightarrow>
     recv_run c0 (S @ read_cb_takes r1 r2 c)
       (case pdu of Some (b, sz) \<Rightarrow> if accept then ps @ [take (nat sz) b] else ps | None \<Rightarrow> ps) c'"

section \<open>What goes out\<close>

text \<open>A message as it appears on the stream: its size in network order over its first four bytes.\<close>

definition frame :: "byte list \<Rightarrow> int \<Rightarrow> byte list" where
  "frame b sz = be32 (word_of_int sz) @ take (nat sz - 4) (drop 4 b)"

definition frames :: "(byte list \<times> int) list \<Rightarrow> byte list" where
  "frames ms = concat (map (\<lambda>(b, sz). frame b sz) ms)"

definition msg_ok :: "byte list \<Rightarrow> int \<Rightarrow> bool" where
  "msg_ok b sz \<longleftrightarrow> 4 < sz \<and> sz \<le> int (length b) \<and> sz < 2 ^ 31"

lemma length_frame: "msg_ok b sz \<Longrightarrow> length (frame b sz) = nat sz"
  by (auto simp: frame_def msg_ok_def)

lemma frames_snoc [simp]: "frames (ms @ [(b, sz)]) = frames ms @ frame b sz"
  by (simp add: frames_def)

lemma frames_Nil [simp]: "frames [] = []"
  by (simp add: frames_def)

text \<open>The buffer of a message being written: once something is written its first four bytes are the size.\<close>

definition wbuf_ok :: "byte list \<Rightarrow> int \<Rightarrow> int \<Rightarrow> byte list \<Rightarrow> bool" where
  "wbuf_ok b sz i w \<longleftrightarrow> length w = length b \<and> drop 4 w = drop 4 b \<and> (0 < i \<longrightarrow> take 4 w = be32 (word_of_int sz))"

lemma wbuf_frame:
  assumes "wbuf_ok b sz i w" "msg_ok b sz" "take 4 w = be32 (word_of_int sz)"
  shows "take (nat sz) w = frame b sz"
proof -
  have "take (nat sz) (take 4 w @ drop 4 w) = frame b sz"
    using assms by (auto simp: wbuf_ok_def frame_def msg_ok_def simp del: append_take_drop_id)
  then show ?thesis by simp
qed

definition writing :: "byte list \<Rightarrow> int \<Rightarrow> conn \<Rightarrow> bool" where
  "writing b sz c \<longleftrightarrow> msg_ok b sz \<and> cb_sz (cn_wpdu c) = sz \<and> 0 \<le> cb_solong (cn_wpdu c) \<and> cb_solong (cn_wpdu c) \<le> sz
     \<and> (\<exists>w. cb_buf (cn_wpdu c) = Some w \<and> wbuf_ok b sz (cb_solong (cn_wpdu c)) w)"

lemma writepdu_spec:
  assumes wr: "writing b sz c" and fits: "write_fits a (sz - cb_solong (cn_wpdu c))"
  shows "\<exists>succ w' out. writepdu a c = Inr (succ, c\<lparr>cn_wpdu := w'\<rparr>, out) \<and> cb_buf w' \<noteq> None
    \<and> (succ \<longrightarrow> writing b sz (c\<lparr>cn_wpdu := w'\<rparr>) \<and>
        take (nat (cb_solong (cn_wpdu c))) (frame b sz) @ out = take (nat (cb_solong w')) (frame b sz))
    \<and> (\<not> succ \<longrightarrow> out = [])"
proof -
  define i where "i = cb_solong (cn_wpdu c)"
  obtain w where w: "cb_buf (cn_wpdu c) = Some w" "wbuf_ok b sz i w" "msg_ok b sz" "cb_sz (cn_wpdu c) = sz"
    "0 \<le> i" "i \<le> sz"
    using wr unfolding writing_def i_def by blast
  show ?thesis
  proof (cases "i = sz")
    case True
    then have "writepdu a c = Inr (True, c\<lparr>cn_wpdu := cn_wpdu c\<rparr>, [])"
      using w(4,5) by (simp add: writepdu_def i_def)
    then show ?thesis using wr w(1) by (intro exI [of _ True] exI [of _ "cn_wpdu c"] exI [of _ "[]"]) simp
  next
    case False
    define w1 where "w1 = (if i = 0 then be32 (word_of_int sz) @ drop 4 w else w)"
    have len: "4 < length w" using w(2,3) by (auto simp: wbuf_ok_def msg_ok_def)
    have w1: "take 4 w1 = be32 (word_of_int sz)" "wbuf_ok b sz j w1" for j
      using w(2,5) len by (auto simp: w1_def wbuf_ok_def)
    have fr: "take (nat sz) w1 = frame b sz" by (rule wbuf_frame [OF w1(2) w(3) w1(1)])
    have step: "writepdu a c = (let v = (cn_wpdu c)\<lparr>cb_buf := Some w1\<rparr> in
        case a of
            W_Error \<Rightarrow> Inr (False, c\<lparr>cn_wpdu := v\<lparr>cb_solong := - 1, cb_sz := 0\<rparr>\<rparr>, [])
          | W_EAGAIN \<Rightarrow> Inr (True, c\<lparr>cn_wpdu := v\<rparr>, [])
          | Wrote n \<Rightarrow> Inr (True, c\<lparr>cn_wpdu := v\<lparr>cb_solong := i + int n\<rparr>\<rparr>, take n (drop (nat i) w1)))"
      using w False len by (auto simp: writepdu_def Let_def i_def [symmetric] w1_def split: write_answer.split)
    show ?thesis
    proof (cases a)
      case (Wrote n)
      have n: "int n \<le> sz - i" using fits Wrote by (simp add: write_fits_def i_def)
      have "take n (drop (nat i) w1) = take n (drop (nat i) (frame b sz))"
        using n w(5) by (simp add: fr [symmetric] take_drop min_def)
      then have "take (nat i) (frame b sz) @ take n (drop (nat i) w1) = take (nat (i + int n)) (frame b sz)"
        using w(5) by (simp add: nat_add_distrib take_add)
      moreover have "writing b sz (c\<lparr>cn_wpdu := (cn_wpdu c)\<lparr>cb_buf := Some w1, cb_solong := i + int n\<rparr>\<rparr>)"
        using n w w1(2) by (simp add: writing_def)
      ultimately show ?thesis using step Wrote i_def
        by (intro exI [of _ True] exI [of _ "(cn_wpdu c)\<lparr>cb_buf := Some w1, cb_solong := i + int n\<rparr>"]
            exI [of _ "take n (drop (nat i) w1)"]) simp
    next
      case W_EAGAIN
      have "writing b sz (c\<lparr>cn_wpdu := (cn_wpdu c)\<lparr>cb_buf := Some w1\<rparr>\<rparr>)"
        using w w1(2) by (simp add: writing_def i_def)
      then show ?thesis using step W_EAGAIN
        by (intro exI [of _ True] exI [of _ "(cn_wpdu c)\<lparr>cb_buf := Some w1\<rparr>"] exI [of _ "[]"]) simp
    next
      case W_Error
      then show ?thesis using step
        by (intro exI [of _ False] exI [of _ "(cn_wpdu c)\<lparr>cb_buf := Some w1, cb_solong := - 1, cb_sz := 0\<rparr>"]
            exI [of _ "[]"]) simp
    qed
  qed
qed

text \<open>Which message a thread owns, that is, is having written.\<close>

fun owns :: "sphase \<Rightarrow> (byte list \<times> int) option" where
  "owns (SRetest b sz) = Some (b, sz)"
| "owns (SWaitWritten b sz) = Some (b, sz)"
| "owns (SRemoving b sz) = Some (b, sz)"
| "owns _ = None"

fun asks :: "sphase \<Rightarrow> (byte list \<times> int) option" where
  "asks SIdle = None"
| "asks (STest b sz) = Some (b, sz)"
| "asks (SWaitTurn b sz) = Some (b, sz)"
| "asks (SRetest b sz) = Some (b, sz)"
| "asks (SWaitWritten b sz) = Some (b, sz)"
| "asks (SRemoving b sz) = Some (b, sz)"

definition is_removing :: "sphase \<Rightarrow> bool" where
  "is_removing p \<longleftrightarrow> (case p of SRemoving b sz \<Rightarrow> True | _ \<Rightarrow> False)"

definition progress :: "connsys \<Rightarrow> bool" where
  "progress s \<longleftrightarrow>
     (case cb_buf (cn_wpdu (cs_conn s)) of
        None \<Rightarrow> (\<forall>t. owns (cs_ph s t) = None) \<and> (\<not> cn_dead (cs_conn s) \<longrightarrow> cs_out s = frames (cs_sent s))
      | Some w \<Rightarrow> \<exists>t b sz. owns (cs_ph s t) = Some (b, sz) \<and> (\<forall>u. u \<noteq> t \<longrightarrow> owns (cs_ph s u) = None) \<and>
          (\<not> cn_dead (cs_conn s) \<longrightarrow> writing b sz (cs_conn s) \<and>
             cs_out s = frames (cs_sent s) @ take (nat (cb_solong (cn_wpdu (cs_conn s)))) (frame b sz)))"

definition conn_inv :: "connsys \<Rightarrow> bool" where
  "conn_inv s \<longleftrightarrow> progress s
     \<and> (\<forall>t b sz. asks (cs_ph s t) = Some (b, sz) \<longrightarrow> msg_ok b sz)
     \<and> (\<forall>t. is_removing (cs_ph s t) \<longrightarrow> cn_dead (cs_conn s))
     \<and> (\<exists>k b sz. msg_ok b sz \<and> cs_out s = frames (cs_sent s) @ take k (frame b sz))"

lemma owns_asks: "owns p = Some m \<Longrightarrow> asks p = Some m"
  by (cases p) auto

lemma wake_turn_simps [simp]:
  "owns (wake_turn wake ph t) = owns (ph t)" "asks (wake_turn wake ph t) = asks (ph t)"
  "is_removing (wake_turn wake ph t) = is_removing (ph t)"
  by (cases "ph t"; simp add: wake_turn_def is_removing_def)+

lemma wake_written_simps [simp]:
  "owns (wake_written sig ph t) = owns (ph t)" "asks (wake_written sig ph t) = asks (ph t)"
  "is_removing (wake_written sig ph t) = is_removing (ph t)"
  by (cases "ph t"; simp add: wake_written_def is_removing_def)+

lemma removing_simps [simp]:
  "is_removing (SRemoving b sz)" "\<not> is_removing SIdle" "\<not> is_removing (STest b sz)" "\<not> is_removing (SWaitTurn b sz)"
  "\<not> is_removing (SRetest b sz)" "\<not> is_removing (SWaitWritten b sz)"
  by (simp_all add: is_removing_def)

text \<open>The owner of the connection, and what it has written, from the invariant.\<close>

lemma conn_inv_owner:
  assumes "conn_inv s" "owns (cs_ph s t) = Some (b, sz)"
  shows "cb_buf (cn_wpdu (cs_conn s)) \<noteq> None" "u \<noteq> t \<Longrightarrow> owns (cs_ph s u) = None"
    "\<not> cn_dead (cs_conn s) \<Longrightarrow> writing b sz (cs_conn s) \<and>
       cs_out s = frames (cs_sent s) @ take (nat (cb_solong (cn_wpdu (cs_conn s)))) (frame b sz)"
proof -
  have p: "progress s" using assms(1) by (simp add: conn_inv_def)
  then show buf: "cb_buf (cn_wpdu (cs_conn s)) \<noteq> None" using assms(2) by (auto simp: progress_def split: option.splits)
  then obtain t' b' sz' where o: "owns (cs_ph s t') = Some (b', sz')" "\<forall>u. u \<noteq> t' \<longrightarrow> owns (cs_ph s u) = None"
    "\<not> cn_dead (cs_conn s) \<longrightarrow> writing b' sz' (cs_conn s) \<and>
       cs_out s = frames (cs_sent s) @ take (nat (cb_solong (cn_wpdu (cs_conn s)))) (frame b' sz')"
    using p by (auto simp: progress_def)
  then have "t' = t" using assms(2) by (metis option.distinct(1))
  then show "u \<noteq> t \<Longrightarrow> owns (cs_ph s u) = None"
    "\<not> cn_dead (cs_conn s) \<Longrightarrow> writing b sz (cs_conn s) \<and>
       cs_out s = frames (cs_sent s) @ take (nat (cb_solong (cn_wpdu (cs_conn s)))) (frame b sz)"
    using o assms(2) by auto
qed

lemma progress_owned:
  assumes "cb_buf (cn_wpdu (cs_conn s)) \<noteq> None" "owns (cs_ph s t) = Some (b, sz)"
    "\<And>u. u \<noteq> t \<Longrightarrow> owns (cs_ph s u) = None"
    "\<not> cn_dead (cs_conn s) \<Longrightarrow> writing b sz (cs_conn s) \<and>
       cs_out s = frames (cs_sent s) @ take (nat (cb_solong (cn_wpdu (cs_conn s)))) (frame b sz)"
  shows "progress s"
  using assms unfolding progress_def by (auto split: option.split)

lemma conn_inv_free:
  assumes "conn_inv s" "cb_buf (cn_wpdu (cs_conn s)) = None"
  shows "owns (cs_ph s t) = None" "\<not> cn_dead (cs_conn s) \<Longrightarrow> cs_out s = frames (cs_sent s)"
  using assms by (auto simp: conn_inv_def progress_def)

text \<open>The end of a \<open>send\<close> by the thread that owns the connection.\<close>

lemma conn_inv_finished:
  assumes inv: "conn_inv s" and own: "owns (cs_ph s t) = Some (b, sz)"
    and stop: "\<not> send_incomplete (cs_conn s)" and fin: "finished t b sz s = (ret, s')"
  shows "conn_inv s'"
proof -
  note o = conn_inv_owner [OF inv own]
  let ?c = "cs_conn s"
  have ret: "ret \<longleftrightarrow> \<not> cn_dead ?c \<and> cb_solong (cn_wpdu ?c) = cb_sz (cn_wpdu ?c)"
    and s': "s' = s\<lparr>cs_conn := ?c\<lparr>cn_wpdu := charbuf_empty\<rparr>, cs_ph := wake_turn (cn_waiters ?c > 0) ((cs_ph s)(t := SIdle)),
      cs_sent := (if ret then cs_sent s @ [(b, sz)] else cs_sent s)\<rparr>"
    using fin by (auto simp: finished_def send_finish_def)
  have none: "owns (cs_ph s' u) = None" for u using o(2) [of u] s' by (cases "u = t") simp_all
  have alive: "ret \<and> cs_out s = frames (cs_sent s) @ frame b sz" if "\<not> cn_dead ?c"
  proof -
    have w: "writing b sz ?c" "cs_out s = frames (cs_sent s) @ take (nat (cb_solong (cn_wpdu ?c))) (frame b sz)"
      using o(3) that by auto
    then have full: "cb_solong (cn_wpdu ?c) = sz" "cb_sz (cn_wpdu ?c) = sz"
      using stop that by (auto simp: send_incomplete_def writing_def)
    then have "take (nat (cb_solong (cn_wpdu ?c))) (frame b sz) = frame b sz"
      using length_frame [of b sz] w(1) by (simp add: writing_def)
    then show ?thesis using ret full w(2) that by simp
  qed
  have "progress s'" using none alive s' by (auto simp: progress_def charbuf_empty_def)
  moreover have "\<exists>k b sz. msg_ok b sz \<and> cs_out s' = frames (cs_sent s') @ take k (frame b sz)"
  proof (cases "cn_dead ?c")
    case True
    then have "cs_out s' = cs_out s" "cs_sent s' = cs_sent s" using s' ret by auto
    then show ?thesis using inv by (simp add: conn_inv_def)
  next
    case False
    then have "cs_out s' = frames (cs_sent s') @ take 0 (frame b sz)" using alive s' by simp
    moreover have "msg_ok b sz" using o(3) False by (simp add: writing_def)
    ultimately show ?thesis by blast
  qed
  moreover have "msg_ok b' sz'" if "asks (cs_ph s' u) = Some (b', sz')" for u b' sz'
    using that inv s' by (cases "u = t") (auto simp: conn_inv_def)
  moreover have "cn_dead (cs_conn s')" if "is_removing (cs_ph s' u)" for u
    using that inv s' by (cases "u = t") (auto simp: conn_inv_def)
  ultimately show ?thesis unfolding conn_inv_def by blast
qed

lemma not_must_wait: "\<not> send_must_wait c \<Longrightarrow> \<not> cn_dead c \<Longrightarrow> cb_buf (cn_wpdu c) = None"
  by (simp add: send_must_wait_def)

lemma conn_inv_start:
  assumes inv: "conn_inv s" and t: "cs_ph s t = STest b sz" and free: "\<not> send_must_wait (cs_conn s)" "\<not> cn_dead (cs_conn s)"
    and fits: "write_fits a sz"
    and start: "send_start a b sz ((cs_conn s)\<lparr>cn_waiters := n\<rparr>) = Inr (next, c, out, reqs)"
    and p: "owns p = Some (b, sz)" "is_removing p \<longrightarrow> next = Send_Remove"
  shows "conn_inv (s\<lparr>cs_conn := c, cs_out := cs_out s @ out, cs_ph := (cs_ph s)(t := p)\<rparr>)"
    and "next = Send_Finish \<Longrightarrow> \<not> send_incomplete c"
proof -
  let ?c0 = "(cs_conn s)\<lparr>cn_waiters := n, cn_wpdu := \<lparr>cb_buf = Some b, cb_sz = sz, cb_solong = 0\<rparr>\<rparr>"
  have ok: "msg_ok b sz" using inv t by (auto simp: conn_inv_def dest: spec [of _ t])
  then have w0: "writing b sz ?c0" by (simp add: writing_def wbuf_ok_def msg_ok_def)
  have out: "cs_out s = frames (cs_sent s)" and none: "owns (cs_ph s u) = None" for u
    using conn_inv_free [OF inv not_must_wait [OF free]] free(2) by auto
  obtain succ w' out' where w': "writepdu a ?c0 = Inr (succ, ?c0\<lparr>cn_wpdu := w'\<rparr>, out')" "cb_buf w' \<noteq> None"
    "succ \<longrightarrow> writing b sz (?c0\<lparr>cn_wpdu := w'\<rparr>) \<and> out' = take (nat (cb_solong w')) (frame b sz)"
    "\<not> succ \<longrightarrow> out' = []"
    using writepdu_spec [OF w0, of a] fits by auto
  have c: "out = out'" "c = ?c0\<lparr>cn_wpdu := w', cn_dead := \<not> succ \<or> cn_dead ?c0\<rparr>" "next = Send_Remove \<longleftrightarrow> \<not> succ"
    using start w'(1) free(2) by (auto simp: send_start_def split: if_splits)
  have dead: "cn_dead c \<longleftrightarrow> \<not> succ" using c(2) free(2) by simp
  have wr: "writing b sz c" if succ using w'(3) that c(2) by (simp add: writing_def)
  let ?s = "s\<lparr>cs_conn := c, cs_out := cs_out s @ out, cs_ph := (cs_ph s)(t := p)\<rparr>"
  have "progress ?s"
  proof (rule progress_owned [of _ t b sz])
    show "owns (cs_ph ?s u) = None" if "u \<noteq> t" for u using that none by simp
    show "writing b sz (cs_conn ?s) \<and> cs_out ?s = frames (cs_sent ?s) @
        take (nat (cb_solong (cn_wpdu (cs_conn ?s)))) (frame b sz)" if "\<not> cn_dead (cs_conn ?s)"
      using that dead wr w'(3) c(1,2) out by auto
  qed (use w'(2) c(2) p(1) in auto)
  moreover have "\<exists>k. cs_out ?s = frames (cs_sent s) @ take k (frame b sz)"
    using w'(3,4) c(1) out by (cases succ) (auto intro: exI [of _ 0])
  then have "\<exists>k b sz. msg_ok b sz \<and> cs_out ?s = frames (cs_sent ?s) @ take k (frame b sz)" using ok by auto
  moreover have "cn_dead (cs_conn ?s)" if "is_removing (cs_ph ?s u)" for u
    using that inv p(2) c(3) dead free(2) by (cases "u = t") (auto simp: conn_inv_def)
  moreover have "msg_ok b' sz'" if "asks (cs_ph ?s u) = Some (b', sz')" for u b' sz'
    using that inv ok owns_asks [OF p(1)] by (cases "u = t") (auto simp: conn_inv_def)
  ultimately show "conn_inv ?s" unfolding conn_inv_def by blast
  show "\<not> send_incomplete c" if "next = Send_Finish"
  proof -
    have succ using that c(3) by auto
    then show ?thesis using start that w'(1) c(2) by (auto simp: send_start_def send_incomplete_def split: if_splits)
  qed
qed

text \<open>Steps that leave the message being written and the stream alone.\<close>

lemma conn_inv_other:
  assumes inv: "conn_inv s" and same: "cn_wpdu c = cn_wpdu (cs_conn s)" "cn_dead (cs_conn s) \<longrightarrow> cn_dead c"
    and ph: "\<And>t. owns (ph t) = owns (cs_ph s t)" "\<And>t b sz. asks (ph t) = Some (b, sz) \<Longrightarrow> msg_ok b sz"
      "\<And>t. is_removing (ph t) \<Longrightarrow> is_removing (cs_ph s t)"
  shows "conn_inv (s\<lparr>cs_conn := c, cs_ph := ph\<rparr>)"
proof -
  have "progress (s\<lparr>cs_conn := c, cs_ph := ph\<rparr>)"
  proof (cases "cb_buf (cn_wpdu (cs_conn s))")
    case None
    then show ?thesis using inv same ph(1) by (auto simp: conn_inv_def progress_def)
  next
    case (Some w)
    then obtain t b sz where o: "owns (cs_ph s t) = Some (b, sz)" "\<forall>u. u \<noteq> t \<longrightarrow> owns (cs_ph s u) = None"
      "\<not> cn_dead (cs_conn s) \<longrightarrow> writing b sz (cs_conn s) \<and>
         cs_out s = frames (cs_sent s) @ take (nat (cb_solong (cn_wpdu (cs_conn s)))) (frame b sz)"
      using inv by (auto simp: conn_inv_def progress_def)
    then show ?thesis using Some same ph(1)
      by (intro progress_owned [of _ t b sz]) (auto simp: writing_def)
  qed
  moreover have "cn_dead c" if "is_removing (ph t)" for t
    using inv same(2) ph(3) [OF that] by (auto simp: conn_inv_def)
  ultimately show ?thesis using inv ph(2) by (simp add: conn_inv_def)
qed

lemma readpdu_size_keeps:
  "readpdu_size r junk c = Inr (Some c') \<Longrightarrow> cn_wpdu c' = cn_wpdu c \<and> cn_dead c' = cn_dead c"
  by (auto simp: readpdu_size_def Let_def split: read_answer.splits if_splits)

lemma readpdu_keeps:
  assumes "readpdu r1 r2 junk c = Inr (succ, c')"
  shows "cn_wpdu c' = cn_wpdu c \<and> cn_dead c' = cn_dead c"
proof -
  obtain oc where oc: "(if cb_sz (cn_rpdu c) = 0 then readpdu_size r1 junk c else Inr (Some c)) = Inr oc"
    using assms by (auto simp: readpdu_def bind_r_eq_Inr)
  show ?thesis
  proof (cases oc)
    case None
    then show ?thesis using assms oc by (simp add: readpdu_def)
  next
    case (Some d)
    then have "cn_wpdu d = cn_wpdu c \<and> cn_dead d = cn_dead c"
      using oc readpdu_size_keeps by (auto split: if_splits)
    moreover have "cn_wpdu c' = cn_wpdu d \<and> cn_dead c' = cn_dead d"
      using assms oc Some
      by (auto simp: readpdu_def readpdu_rest_def Let_def split: option.splits read_answer.splits if_splits)
    ultimately show ?thesis by simp
  qed
qed

lemma read_cb_keeps:
  assumes "read_cb accept r1 r2 junk fd c = Inr (c', reqs, sig, pdu)"
  shows "cn_wpdu c' = cn_wpdu c \<and> (cn_dead c \<longrightarrow> cn_dead c')"
proof (cases "cn_dead c")
  case True
  then show ?thesis using assms by (auto simp: read_cb_def bind_r_eq_Inr)
next
  case False
  then obtain succ d where d: "(if cb_buf (cn_rpdu c) = None \<or> cb_solong (cn_rpdu c) < cb_sz (cn_rpdu c)
      then readpdu r1 r2 junk c else Inr (True, c)) = Inr (succ, d)"
    using assms by (auto simp: read_cb_def bind_r_eq_Inr)
  then have "cn_wpdu d = cn_wpdu c" using readpdu_keeps by (auto split: if_splits)
  moreover have "cn_wpdu c' = cn_wpdu d"
    using assms d False by (auto simp: read_cb_def bind_r_eq_Inr Let_def split: option.splits if_splits)
  ultimately show ?thesis using False by simp
qed

lemma write_cb_cases:
  assumes "write_cb a fd c = Inr (c', out, reqs, sig)"
  obtains (idle) "c' = c" "out = []"
    | (wrote) succ d where "\<not> cn_dead c" "writepdu a c = Inr (succ, d, out)"
        "c' = (if succ then d else d\<lparr>cn_dead := True\<rparr>)"
proof (cases "cb_sz (cn_wpdu c) = 0")
  case True
  then show thesis using assms idle by (auto simp: write_cb_def bind_r_eq_Inr)
next
  case False
  then obtain succ d o' where w: "\<not> cn_dead c" "writepdu a c = Inr (succ, d, o')"
    using assms by (auto simp: write_cb_def bind_r_eq_Inr)
  then have "o' = out" "c' = (if succ then d else d\<lparr>cn_dead := True\<rparr>)"
    using assms False by (auto simp: write_cb_def bind_r_eq_Inr split: if_splits)
  with w show thesis using wrote by simp
qed

lemma conn_inv_writable:
  assumes inv: "conn_inv s" and fits: "write_fits a (cb_sz (cn_wpdu (cs_conn s)) - cb_solong (cn_wpdu (cs_conn s)))"
    and cb: "write_cb a (cn_fd (cs_conn s)) (cs_conn s) = Inr (c, out, reqs, sig)"
  shows "conn_inv (s\<lparr>cs_conn := c, cs_out := cs_out s @ out, cs_ph := wake_written sig (cs_ph s)\<rparr>)"
  using cb
proof (cases rule: write_cb_cases)
  case idle
  then show ?thesis using conn_inv_other [OF inv, of c "wake_written sig (cs_ph s)"] inv
    by (auto simp: conn_inv_def)
next
  case (wrote succ d)
  show ?thesis
  proof (cases "cb_buf (cn_wpdu (cs_conn s))")
    case None
    then have "writepdu a (cs_conn s) = Inr (True, cs_conn s, [])"
      using wrote(2) by (auto simp: writepdu_def Let_def bind_r_eq_Inr split: if_splits)
    then show ?thesis using wrote conn_inv_other [OF inv, of c "wake_written sig (cs_ph s)"] inv
      by (auto simp: conn_inv_def)
  next
    case (Some w)
    then obtain t b sz where o: "owns (cs_ph s t) = Some (b, sz)"
      using inv by (auto simp: conn_inv_def progress_def)
    note owner = conn_inv_owner [OF inv o]
    have wr: "writing b sz (cs_conn s)" using owner(3) wrote(1) by simp
    then have fit: "write_fits a (sz - cb_solong (cn_wpdu (cs_conn s)))" using fits by (simp add: writing_def)
    obtain w' where w': "d = (cs_conn s)\<lparr>cn_wpdu := w'\<rparr>" "cb_buf w' \<noteq> None"
      "succ \<longrightarrow> writing b sz d \<and>
        take (nat (cb_solong (cn_wpdu (cs_conn s)))) (frame b sz) @ out = take (nat (cb_solong w')) (frame b sz)"
      "\<not> succ \<longrightarrow> out = []"
      using writepdu_spec [OF wr fit] wrote(2) by auto
    let ?s = "s\<lparr>cs_conn := c, cs_out := cs_out s @ out, cs_ph := wake_written sig (cs_ph s)\<rparr>"
    have out: "succ \<Longrightarrow> cs_out ?s = frames (cs_sent s) @ take (nat (cb_solong w')) (frame b sz)"
      using owner(3) wrote(1) w'(3) by simp
    have "progress ?s"
      using w' wrote(3) o owner(2) out by (intro progress_owned [of _ t b sz]) (auto split: if_splits)
    moreover have "\<exists>k b sz. msg_ok b sz \<and> cs_out ?s = frames (cs_sent s) @ take k (frame b sz)"
    proof (cases succ)
      case True
      then show ?thesis using out wr by (auto simp: writing_def)
    next
      case False
      then show ?thesis using inv w'(4) by (simp add: conn_inv_def)
    qed
    ultimately show ?thesis using inv wrote(1,3) w'(1) by (auto simp: conn_inv_def)
  qed
qed

lemma conn_inv_step:
  assumes "conn_step s e s'" "conn_inv s"
  shows "conn_inv s'"
  using assms(1)
proof cases
  case (call_send t sz b)
  have "conn_inv (s\<lparr>cs_conn := (cs_conn s)\<lparr>cn_waiters := Suc (cn_waiters (cs_conn s))\<rparr>, cs_ph := (cs_ph s)(t := STest b sz)\<rparr>)"
    using assms(2) call_send(3-6)
    by (intro conn_inv_other) (auto simp: conn_inv_def msg_ok_def split: if_splits)
  then show ?thesis using call_send(2) by simp
next
  case (wait_turn t b sz)
  then have "conn_inv (s\<lparr>cs_conn := cs_conn s, cs_ph := (cs_ph s)(t := SWaitTurn b sz)\<rparr>)"
    using assms(2) by (intro conn_inv_other) (auto simp: conn_inv_def split: if_splits dest: spec [of _ t])
  then show ?thesis using wait_turn by simp
next
  case (refused t b sz)
  then have "conn_inv (s\<lparr>cs_conn := (cs_conn s)\<lparr>cn_waiters := cn_waiters (cs_conn s) - 1\<rparr>, cs_ph := (cs_ph s)(t := SIdle)\<rparr>)"
    using assms(2) by (intro conn_inv_other) (auto simp: conn_inv_def split: if_splits)
  then show ?thesis using refused(2) by simp
next
  case (start_finish t b sz a c out reqs ret)
  let ?s = "s\<lparr>cs_conn := c, cs_out := cs_out s @ out, cs_ph := (cs_ph s)(t := SRetest b sz)\<rparr>"
  have "conn_inv ?s" "\<not> send_incomplete c"
    using conn_inv_start [OF assms(2) start_finish(2-6), of "SRetest b sz"] by auto
  moreover have "finished t b sz ?s = finished t b sz (s\<lparr>cs_conn := c, cs_out := cs_out s @ out\<rparr>)"
    unfolding finished_def split_beta by simp
  then have "finished t b sz ?s = (ret, s')" using start_finish(7) by (rule trans)
  ultimately show ?thesis using conn_inv_finished [of ?s t b sz ret s'] by simp
next
  case (start_wait t b sz a c out reqs)
  then show ?thesis using conn_inv_start(1) [OF assms(2) start_wait(3-7), of "SWaitWritten b sz"] by simp
next
  case (start_remove t b sz a c out reqs)
  then show ?thesis using conn_inv_start(1) [OF assms(2) start_remove(3-7), of "SRemoving b sz"] by simp
next
  case (retest_wait t b sz)
  then have "conn_inv (s\<lparr>cs_conn := cs_conn s, cs_ph := (cs_ph s)(t := SWaitWritten b sz)\<rparr>)"
    using assms(2) by (intro conn_inv_other) (auto simp: conn_inv_def split: if_splits dest: spec [of _ t])
  then show ?thesis using retest_wait by simp
next
  case (retest_finish t b sz ret)
  then show ?thesis by (intro conn_inv_finished [OF assms(2)]) auto
next
  case (remove_finish t b sz ret)
  then have "is_removing (cs_ph s t)" by simp
  then have "cn_dead (cs_conn s)" using assms(2) unfolding conn_inv_def by blast
  then have "\<not> send_incomplete (cs_conn s)" by (simp add: send_incomplete_def)
  then show ?thesis using remove_finish by (intro conn_inv_finished [OF assms(2)]) auto
next
  case (writable a c out reqs sig)
  then show ?thesis using conn_inv_writable [OF assms(2)] by blast
next
  case (readable accept r1 r2 junk c reqs sig pdu)
  have "conn_inv (s\<lparr>cs_conn := c, cs_ph := wake_written sig (cs_ph s)\<rparr>)"
    using read_cb_keeps [OF readable(3)] assms(2) by (intro conn_inv_other) (auto simp: conn_inv_def)
  then show ?thesis using readable(2) by simp
next
  case (closing c reqs)
  then have "conn_inv (s\<lparr>cs_conn := c, cs_ph := cs_ph s\<rparr>)"
    using assms(2) by (intro conn_inv_other) (auto simp: closeconn_def conn_inv_def split: if_splits)
  then show ?thesis using closing by simp
next
  case (spurious_turn t b sz)
  then have "conn_inv (s\<lparr>cs_conn := cs_conn s, cs_ph := (cs_ph s)(t := STest b sz)\<rparr>)"
    using assms(2) by (intro conn_inv_other) (auto simp: conn_inv_def split: if_splits dest: spec [of _ t])
  then show ?thesis using spurious_turn by simp
next
  case (spurious_written t b sz)
  then have "conn_inv (s\<lparr>cs_conn := cs_conn s, cs_ph := (cs_ph s)(t := SRetest b sz)\<rparr>)"
    using assms(2) by (intro conn_inv_other) (auto simp: conn_inv_def split: if_splits dest: spec [of _ t])
  then show ?thesis using spurious_written by simp
qed

lemma conn_inv_start_state: "conn_inv (conn_start fd now lossy)"
proof -
  have "msg_ok (replicate 5 0) 5" by (simp add: msg_ok_def)
  then show ?thesis
    by (auto simp: conn_inv_def progress_def conn_start_def conn_new_def charbuf_empty_def intro: exI [of _ 0])
qed

lemma conn_inv_path: "conn_path s es t \<Longrightarrow> conn_inv s \<Longrightarrow> conn_inv t"
  by (induction rule: conn_path.induct) (auto intro: conn_inv_step)

section \<open>What comes in\<close>

text \<open>A well-formed message on the stream.\<close>

definition wf_frame :: "byte list \<Rightarrow> bool" where
  "wf_frame p \<longleftrightarrow> 4 < length p \<and> int (length p) \<le> MAX_PDU \<and> take 4 p = be32 (of_nat (length p))"

lemma wf_frame_frame: "msg_ok b sz \<Longrightarrow> sz \<le> MAX_PDU \<Longrightarrow> wf_frame (frame b sz)"
  by (auto simp: wf_frame_def length_frame) (auto simp: frame_def msg_ok_def)

lemma ntohl_be32: "ntohl_bytes (be32 x) = x"
  unfolding be32_def ntohl_bytes.simps by (rule join_be32)

lemma sint_small: "n < 2 ^ 31 \<Longrightarrow> sint (of_nat n :: u32) = int n"
  by (simp add: signed_of_nat signed_take_bit_int_eq_self)

lemma wf_frame_size: "wf_frame p \<Longrightarrow> sint (ntohl_bytes (take 4 p)) = int (length p)"
  using sint_small [of "length p"] by (simp add: wf_frame_def ntohl_be32 MAX_PDU_def)

text \<open>A message of which the first \<open>i\<close> bytes have been read.\<close>

definition reading :: "byte list \<Rightarrow> nat \<Rightarrow> conn \<Rightarrow> bool" where
  "reading p i c \<longleftrightarrow> cb_sz (cn_rpdu c) = int (length p) \<and> cb_solong (cn_rpdu c) = int i \<and> 4 \<le> i \<and> i \<le> length p
     \<and> (\<exists>b. cb_buf (cn_rpdu c) = Some b \<and> length b = length p + 4 \<and> take i b = take i p)"

lemma prefix_front: "prefix bs (xs @ ys) \<Longrightarrow> length bs \<le> length xs \<Longrightarrow> bs = take (length bs) xs"
proof -
  assume "prefix bs (xs @ ys)" and len: "length bs \<le> length xs"
  then obtain zs where "xs @ ys = bs @ zs" by (auto simp: prefix_def)
  then have "take (length bs) (xs @ ys) = bs" by simp
  then show ?thesis using len by simp
qed

lemma prefix_concat_Cons:
  "prefix (concat xs @ ys) (concat (xs @ zs)) \<Longrightarrow> prefix ys (concat zs)"
  by (simp add: prefix_def)

lemma readpdu_size_reading:
  assumes "readpdu_size r junk c = Inr (Some c')" "prefix (read_bytes r) (p @ q)" "wf_frame p"
  shows "reading p 4 c' \<and> read_bytes r = take 4 p"
proof -
  obtain bs where bs: "r = Got bs" "length bs = 4"
    using assms(1) by (auto simp: readpdu_size_def split: read_answer.splits if_splits)
  then have "prefix bs (p @ q)" using assms(2) by (simp add: read_bytes_def)
  then have eq: "bs = take 4 p" using prefix_front [of bs p q] bs(2) assms(3) by (simp add: wf_frame_def)
  have sz: "sint (ntohl_bytes bs) = int (length p)" using wf_frame_size [OF assms(3)] eq by simp
  then have "c' = c\<lparr>cn_rpdu := \<lparr>cb_buf = Some (bs @ map junk [4..<length p + 4]), cb_sz = int (length p), cb_solong = 4\<rparr>\<rparr>"
    using assms(1) bs by (auto simp: readpdu_size_def Let_def split: if_splits)
  then show ?thesis using eq bs assms(3) by (simp add: reading_def wf_frame_def read_bytes_def)
qed

lemma readpdu_rest_reading:
  assumes "readpdu_rest r c = Inr (True, c')" "reading p i c" "prefix (read_bytes r) (drop i p @ q)"
    "case r of Got bs \<Rightarrow> length bs \<le> length p - i | _ \<Rightarrow> True"
  shows "reading p (i + length (read_bytes r)) c' \<and> take i p @ read_bytes r = take (i + length (read_bytes r)) p"
proof -
  obtain b where b: "cb_buf (cn_rpdu c) = Some b" "length b = length p + 4" "take i b = take i p"
    "cb_sz (cn_rpdu c) = int (length p)" "cb_solong (cn_rpdu c) = int i" "4 \<le> i" "i \<le> length p"
    using assms(2) by (auto simp: reading_def)
  show ?thesis
  proof (cases r)
    case (Got bs)
    then have len: "length bs \<le> length p - i" using assms(4) by simp
    have "prefix bs (drop i p @ q)" using assms(3) Got by (simp add: read_bytes_def)
    then have bs: "bs = take (length bs) (drop i p)" using prefix_front [of bs "drop i p" q] len by simp
    have tk: "take i p @ bs = take (i + length bs) p" using bs by (metis take_add)
    have "c' = c\<lparr>cn_rpdu := (cn_rpdu c)\<lparr>cb_buf := Some (take i b @ bs @ drop (i + length bs) b),
        cb_solong := int i + int (length bs)\<rparr>\<rparr>"
      using assms(1) Got b by (auto simp: readpdu_rest_def Let_def split: if_splits)
    then have "reading p (i + length bs) c'" using b len tk by (simp add: reading_def)
    then show ?thesis using Got tk by (simp add: read_bytes_def)
  qed (use assms(1,2) b in \<open>auto simp: readpdu_rest_def Let_def read_bytes_def split: if_splits\<close>)
qed

text \<open>What the receiver has done with the messages \<open>fs\<close> of the stream.\<close>

definition recv_inv :: "byte list list \<Rightarrow> byte list \<Rightarrow> byte list list \<Rightarrow> conn \<Rightarrow> bool" where
  "recv_inv fs S ps c \<longleftrightarrow> (\<exists>k \<le> length fs. ps = take k fs \<and>
     (cn_rpdu c = charbuf_empty \<and> S = concat ps \<or>
      (\<exists>i. k < length fs \<and> reading (fs ! k) i c \<and> S = concat ps @ take i (fs ! k))))"

text \<open>The end of \<open>read_cb\<close> for a message that is being read.\<close>

lemma read_cb_alive:
  assumes "read_cb accept r1 r2 junk (cn_fd c) c = Inr (c', reqs, sig, pdu)" "\<not> cn_dead c'" "\<not> cn_dead c"
  obtains d where "(if cb_buf (cn_rpdu c) = None \<or> cb_solong (cn_rpdu c) < cb_sz (cn_rpdu c)
      then readpdu r1 r2 junk c else Inr (True, c)) = Inr (True, d)"
    "(c', pdu) = (case cb_buf (cn_rpdu d) of
        None \<Rightarrow> (d, None)
      | Some b \<Rightarrow> if cb_sz (cn_rpdu d) = cb_solong (cn_rpdu d)
          then (if accept then d\<lparr>cn_rpdu := charbuf_empty\<rparr> else d, Some (b, cb_sz (cn_rpdu d))) else (d, None))"
proof -
  obtain succ d where d: "(if cb_buf (cn_rpdu c) = None \<or> cb_solong (cn_rpdu c) < cb_sz (cn_rpdu c)
      then readpdu r1 r2 junk c else Inr (True, c)) = Inr (succ, d)"
    using assms(1,3) by (auto simp: read_cb_def bind_r_eq_Inr)
  have succ
  proof (rule ccontr)
    assume "\<not> succ"
    then have "cn_dead c'" using assms(1,3) d
      by (auto simp: read_cb_def bind_r_eq_Inr Let_def split: option.splits if_splits)
    then show False using assms(2) by simp
  qed
  then show thesis using that [of d] assms(1,3) d
    by (auto simp: read_cb_def bind_r_eq_Inr Let_def split: option.splits if_splits)
qed

lemma recv_deliver:
  assumes r: "reading p i d" and p: "p = fs ! k" "k < length fs" "ps = take k fs" "S = concat ps @ take i p"
    and out: "(c', pdu) = (case cb_buf (cn_rpdu d) of
        None \<Rightarrow> (d, None)
      | Some b \<Rightarrow> if cb_sz (cn_rpdu d) = cb_solong (cn_rpdu d)
          then (if accept then d\<lparr>cn_rpdu := charbuf_empty\<rparr> else d, Some (b, cb_sz (cn_rpdu d))) else (d, None))"
  shows "recv_inv fs S (case pdu of Some (b, sz) \<Rightarrow> if accept then ps @ [take (nat sz) b] else ps | None \<Rightarrow> ps) c'"
proof -
  obtain b where b: "cb_buf (cn_rpdu d) = Some b" "take i b = take i p" "cb_sz (cn_rpdu d) = int (length p)"
    "cb_solong (cn_rpdu d) = int i" "i \<le> length p"
    using r by (auto simp: reading_def)
  have "k < length fs \<and> reading (fs ! k) i d \<and> S = concat ps @ take i (fs ! k)" using r p by simp
  then have keep: "recv_inv fs S ps d" unfolding recv_inv_def using p(3) less_imp_le by blast
  show ?thesis
  proof (cases "i = length p \<and> accept")
    case True
    then have "c' = d\<lparr>cn_rpdu := charbuf_empty\<rparr>" "pdu = Some (b, int (length p))" using out b by auto
    moreover have "take (length p) b = p" using b(2) True by simp
    moreover have "ps @ [p] = take (Suc k) fs" using p(1-3) by (simp add: take_Suc_conv_app_nth)
    moreover have "concat (ps @ [p]) = S" using True p(4) by simp
    ultimately have "recv_inv fs S (ps @ [p]) c'" unfolding recv_inv_def using p(2)
      by (intro exI [of _ "Suc k"] conjI disjI1) simp_all
    then show ?thesis using \<open>pdu = _\<close> True \<open>take (length p) b = p\<close> by simp
  next
    case False
    then have "c' = d" "(case pdu of Some (b, sz) \<Rightarrow> if accept then ps @ [take (nat sz) b] else ps | None \<Rightarrow> ps) = ps"
      using out b by (auto split: if_splits)
    then show ?thesis using keep by simp
  qed
qed

lemma recv_inv_step:
  assumes inv: "recv_inv fs S ps c" and alive: "\<not> cn_dead c" "\<not> cn_dead c'"
    and fits: "read_fits r1 r2 c" and cb: "read_cb accept r1 r2 junk (cn_fd c) c = Inr (c', reqs, sig, pdu)"
    and wf: "\<forall>f\<in>set fs. wf_frame f" and pre: "prefix (S @ read_cb_takes r1 r2 c) (concat fs)"
  shows "recv_inv fs (S @ read_cb_takes r1 r2 c)
    (case pdu of Some (b, sz) \<Rightarrow> if accept then ps @ [take (nat sz) b] else ps | None \<Rightarrow> ps) c'"
proof -
  obtain k where k: "k \<le> length fs" "ps = take k fs"
    "cn_rpdu c = charbuf_empty \<and> S = concat ps \<or>
      (\<exists>i. k < length fs \<and> reading (fs ! k) i c \<and> S = concat ps @ take i (fs ! k))"
    using inv by (auto simp: recv_inv_def)
  obtain d where d: "(if cb_buf (cn_rpdu c) = None \<or> cb_solong (cn_rpdu c) < cb_sz (cn_rpdu c)
      then readpdu r1 r2 junk c else Inr (True, c)) = Inr (True, d)"
    "(c', pdu) = (case cb_buf (cn_rpdu d) of
        None \<Rightarrow> (d, None)
      | Some b \<Rightarrow> if cb_sz (cn_rpdu d) = cb_solong (cn_rpdu d)
          then (if accept then d\<lparr>cn_rpdu := charbuf_empty\<rparr> else d, Some (b, cb_sz (cn_rpdu d))) else (d, None))"
    using read_cb_alive [OF cb alive(2,1)] .
  have split: "concat fs = concat ps @ concat (drop k fs)"
    using k(2) by (metis append_take_drop_id concat_append)
  from k(3) show ?thesis
  proof (elim disjE exE conjE)
    assume e: "cn_rpdu c = charbuf_empty" "S = concat ps"
    then obtain c1 where c1: "readpdu_size r1 junk c = Inr (Some c1)" "readpdu_rest r2 c1 = Inr (True, d)"
      using d(1) by (auto simp: readpdu_def charbuf_empty_def bind_r_eq_Inr split: option.splits)
    have takes: "read_cb_takes r1 r2 c = read_bytes r1 @ read_bytes r2"
      using e(1) by (simp add: read_cb_takes_def charbuf_empty_def)
    have pre2: "prefix (read_bytes r1 @ read_bytes r2) (concat (drop k fs))"
      using pre takes e(2) split by simp
    have "read_bytes r1 \<noteq> []"
      using c1(1) by (auto simp: readpdu_size_def read_bytes_def split: read_answer.splits if_splits)
    then have "drop k fs \<noteq> []" using pre2 by auto
    then have kl: "k < length fs" by simp
    define p where "p = fs ! k"
    define q where "q = concat (drop (Suc k) fs)"
    have pq: "concat (drop k fs) = p @ q" using kl by (simp add: p_def q_def Cons_nth_drop_Suc [symmetric])
    have wfp: "wf_frame p" using wf kl by (simp add: p_def)
    have "prefix (read_bytes r1) (p @ q)" using pre2 pq by (metis append_prefixD)
    then have h: "reading p 4 c1" "read_bytes r1 = take 4 p" using readpdu_size_reading [OF c1(1) _ wfp] by auto
    have "prefix (read_bytes r2) (drop 4 p @ q)"
    proof -
      have "p @ q = take 4 p @ drop 4 p @ q" by simp
      then show ?thesis using pre2 pq h(2) by (metis append.assoc same_prefix_prefix append_take_drop_id)
    qed
    moreover have "case r2 of Got bs \<Rightarrow> length bs \<le> length p - 4 | _ \<Rightarrow> True"
      using fits e(1) h(2) wf_frame_size [OF wfp] wfp
      by (auto simp: read_fits_def charbuf_empty_def wf_frame_def split: read_answer.splits)
    ultimately have r: "reading p (4 + length (read_bytes r2)) d"
      "take 4 p @ read_bytes r2 = take (4 + length (read_bytes r2)) p"
      using readpdu_rest_reading [OF c1(2) h(1)] by auto
    have "S @ read_cb_takes r1 r2 c = concat ps @ take (4 + length (read_bytes r2)) p"
      using e(2) takes h(2) r(2) by simp
    then show ?thesis using recv_deliver [OF r(1) p_def kl k(2) _ d(2)] by simp
  next
    fix i
    assume i: "k < length fs" "reading (fs ! k) i c" "S = concat ps @ take i (fs ! k)"
    define p where "p = fs ! k"
    have rd: "cb_buf (cn_rpdu c) \<noteq> None" "cb_sz (cn_rpdu c) = int (length p)" "cb_solong (cn_rpdu c) = int i" "i \<le> length p" "4 \<le> i"
      using i(2) by (auto simp: reading_def p_def)
    show ?thesis
    proof (cases "i = length p")
      case True
      then have "d = c" and takes: "read_cb_takes r1 r2 c = []" using d(1) rd by (auto simp: read_cb_takes_def)
      then have "reading (fs ! k) i d" using i(2) by simp
      then show ?thesis using recv_deliver [OF _ refl i(1) k(2) i(3) d(2)] takes by simp
    next
      case False
      define q where "q = concat (drop (Suc k) fs)"
      have pq: "concat (drop k fs) = p @ q" using i(1) by (simp add: p_def q_def Cons_nth_drop_Suc [symmetric])
      have rest: "readpdu_rest r2 c = Inr (True, d)" and takes: "read_cb_takes r1 r2 c = read_bytes r2"
        using d(1) rd False by (cases p; auto simp: readpdu_def read_cb_takes_def)+
      have "prefix (take i p @ read_bytes r2) (p @ q)"
        using pre takes i(3) split pq by (simp add: p_def)
      then have "prefix (read_bytes r2) (drop i p @ q)"
        by (metis append.assoc append_take_drop_id same_prefix_prefix)
      moreover have "case r2 of Got bs \<Rightarrow> length bs \<le> length p - i | _ \<Rightarrow> True"
        using fits rd by (cases p) (auto simp: read_fits_def split: read_answer.splits)
      ultimately have r: "reading p (i + length (read_bytes r2)) d"
        "take i p @ read_bytes r2 = take (i + length (read_bytes r2)) p"
        using readpdu_rest_reading [OF rest i(2) [folded p_def]] by blast+
      have "S @ read_cb_takes r1 r2 c = concat ps @ take (i + length (read_bytes r2)) p"
        using i(3) takes r(2) by (simp add: p_def)
      then show ?thesis using recv_deliver [OF r(1) p_def i(1) k(2) _ d(2)] by simp
    qed
  qed
qed

lemma recv_inv_run:
  assumes "recv_run c0 S ps c" "cn_rpdu c0 = charbuf_empty" "\<not> cn_dead c0"
    "\<forall>f\<in>set fs. wf_frame f" "prefix S (concat fs)"
  shows "recv_inv fs S ps c \<and> \<not> cn_dead c"
  using assms
proof (induction rule: recv_run.induct)
  case recv_start
  then show ?case by (auto simp: recv_inv_def intro: exI [of _ 0])
next
  case (recv_more S ps c r1 r2 accept junk c' reqs sig pdu)
  then have "recv_inv fs S ps c \<and> \<not> cn_dead c" using append_prefixD by blast
  then show ?case using recv_inv_step [of fs S ps c c' r1 r2 accept junk reqs sig pdu] recv_more by blast
qed

section \<open>Properties\<close>

text \<open>
  C22: messages do not mix on the wire.  However many threads send and however the system splits
  the writes, what has left the connection is the frames of the messages whose \<open>send\<close> returned
  true, in that order, followed by the beginning of at most one more frame; and when the
  connection is alive and no message is being written there is nothing after them.
\<close>

theorem send_frames_whole:
  assumes "conn_path (conn_start fd now lossy) es s"
  shows "(\<exists>k b sz. msg_ok b sz \<and> cs_out s = frames (cs_sent s) @ take k (frame b sz))
    \<and> (\<not> cn_dead (cs_conn s) \<and> cb_buf (cn_wpdu (cs_conn s)) = None \<longrightarrow> cs_out s = frames (cs_sent s))"
  using conn_inv_path [OF assms conn_inv_start_state] by (auto simp: conn_inv_def progress_def)

lemma demo_send:
  "conn_path (conn_start 5 (0, 0) 0) [CTau, CSendReturns 1 True]
     \<lparr>cs_conn = fst (conn_new 5 (0, 0) 0), cs_out = frame [0, 0, 0, 0, 7, 8] 6, cs_ph = (\<lambda>_. SIdle),
      cs_sent = [([0, 0, 0, 0, 7, 8], 6)]\<rparr>"
proof -
  let ?b = "[0, 0, 0, 0, 7, 8] :: byte list"
  let ?c = "fst (conn_new 5 (0, 0) 0)"
  let ?s = "(conn_start 5 (0, 0) 0)\<lparr>cs_conn := ?c\<lparr>cn_waiters := 1\<rparr>, cs_ph := (\<lambda>_. SIdle)(1 := STest ?b 6)\<rparr>"
  have a: "conn_step (conn_start 5 (0, 0) 0) CTau ?s"
    using conn_step.call_send [of "conn_start 5 (0, 0) 0" 1 6 ?b] by (simp add: conn_start_def conn_new_def)
  obtain c where c: "send_start (Wrote 6) ?b 6 ((cs_conn ?s)\<lparr>cn_waiters := cn_waiters (cs_conn ?s) - 1\<rparr>) =
      Inr (Send_Finish, c, frame ?b 6, [])" "c = ?c\<lparr>cn_wpdu := \<lparr>cb_buf = Some (frame ?b 6), cb_sz = 6, cb_solong = 6\<rparr>\<rparr>"
    by (simp add: send_start_def writepdu_def conn_new_def frame_def Let_def)
  have "conn_step ?s (CSendReturns 1 True) (snd (finished 1 ?b 6 (?s\<lparr>cs_conn := c, cs_out := cs_out ?s @ frame ?b 6\<rparr>)))"
    by (rule conn_step.start_finish [OF _ _ _ _ c(1)])
      (simp_all add: send_must_wait_def conn_new_def charbuf_empty_def write_fits_def finished_def send_finish_def c(2))
  moreover have "snd (finished 1 ?b 6 (?s\<lparr>cs_conn := c, cs_out := cs_out ?s @ frame ?b 6\<rparr>)) =
      \<lparr>cs_conn = ?c, cs_out = frame ?b 6, cs_ph = (\<lambda>_. SIdle), cs_sent = [(?b, 6)]\<rparr>"
    by (simp add: finished_def send_finish_def c(2) conn_start_def conn_new_def charbuf_empty_def wake_turn_def fun_eq_iff)
  ultimately show ?thesis using conn_more [OF conn_more [OF conn_here a]] by simp
qed

theorem send_frames_whole_witness:
  "\<exists>k b sz. msg_ok b sz \<and> frame [0, 0, 0, 0, 7, 8] 6 = frames [([0, 0, 0, 0, 7, 8], 6)] @ take k (frame b sz)"
  using send_frames_whole [OF demo_send] by simp

text \<open>
  C23: and the receiver takes them apart again.  Reading a stream of well-formed frames, in whatever
  pieces it arrives, a live connection hands its manager exactly the frames, in order, none
  twice and none mixed; what it has read beyond the accepted ones is the beginning of the next frame.
\<close>

theorem receive_frames_in_order:
  assumes "recv_run (fst (conn_new fd now lossy)) S ps c" "\<forall>f\<in>set fs. wf_frame f" "prefix S (concat fs)"
  shows "\<exists>k \<le> length fs. ps = take k fs \<and>
    (S = concat ps \<or> k < length fs \<and> (\<exists>i \<le> length (fs ! k). S = concat ps @ take i (fs ! k)))"
proof -
  have "recv_inv fs S ps c"
    using recv_inv_run [OF assms(1) _ _ assms(2,3)] by (simp add: conn_new_def)
  then show ?thesis by (auto simp: recv_inv_def reading_def)
qed

lemma demo_recv:
  "recv_run (fst (conn_new 5 (0, 0) 0)) (be32 6 @ [7] @ [8]) [be32 6 @ [7, 8]] (fst (conn_new 5 (0, 0) 0))"
proof -
  let ?c = "fst (conn_new 5 (0, 0) 0)"
  let ?d = "?c\<lparr>cn_rpdu := \<lparr>cb_buf = Some (be32 6 @ [7, 0, 0, 0, 0, 0]), cb_sz = 6, cb_solong = 5\<rparr>\<rparr>"
  have six: "sint (ntohl_bytes (be32 6)) = 6" by (simp add: ntohl_be32)
  have a: "read_cb True (Got (be32 6)) (Got [7]) (\<lambda>_. 0) (cn_fd ?c) ?c = Inr (?d, [], False, None)"
    using six by (simp add: read_cb_def readpdu_def readpdu_size_def readpdu_rest_def conn_new_def charbuf_empty_def
        MAX_PDU_def Let_def upt_rec)
  have "read_cb_takes (Got (be32 6)) (Got [7]) ?c = be32 6 @ [7]" "read_fits (Got (be32 6)) (Got [7]) ?c"
    using six by (simp_all add: read_cb_takes_def read_fits_def read_bytes_def conn_new_def charbuf_empty_def)
  then have one: "recv_run ?c (be32 6 @ [7]) [] ?d"
    using recv_more [OF recv_start _ a] by (simp add: conn_new_def)
  have b: "read_cb True R_EAGAIN (Got [8]) (\<lambda>_. 0) (cn_fd ?d) ?d =
      Inr (?c, [], False, Some (be32 6 @ [7, 8, 0, 0, 0, 0], 6))"
    by (simp add: read_cb_def readpdu_def readpdu_rest_def conn_new_def charbuf_empty_def Let_def)
  have "read_cb_takes R_EAGAIN (Got [8]) ?d = [8]" "read_fits R_EAGAIN (Got [8]) ?d"
    by (simp_all add: read_cb_takes_def read_fits_def read_bytes_def)
  then show ?thesis using recv_more [OF one _ b] by (simp add: conn_new_def)
qed

theorem receive_frames_in_order_witness:
  "\<exists>k \<le> length [be32 6 @ [7, 8 :: byte]]. [be32 6 @ [7, 8]] = take k [be32 6 @ [7, 8]]"
proof -
  have "wf_frame (be32 6 @ [7, 8])" by (simp add: wf_frame_def MAX_PDU_def)
  then show ?thesis
    using receive_frames_in_order [OF demo_recv, of "[be32 6 @ [7, 8]]"] by auto
qed

text \<open>On a dead connection nothing wakes a thread that waits for its message to be written.\<close>

lemma stranded:
  assumes "conn_path s es s'" "cn_dead (cs_conn s)" "cs_ph s t = SWaitWritten b sz" "CSpurious \<notin> set es"
  shows "cn_dead (cs_conn s') \<and> cs_ph s' t = SWaitWritten b sz \<and> (\<forall>ret. CSendReturns t ret \<notin> set es)"
  using assms
proof (induction rule: conn_path.induct)
  case (conn_more es u e v)
  then have u: "cn_dead (cs_conn u)" "cs_ph u t = SWaitWritten b sz" "e \<noteq> CSpurious" "\<forall>ret. CSendReturns t ret \<notin> set es" by auto
  from conn_more.hyps(2) show ?case
  proof cases
    case (writable a c out reqs sig)
    then show ?thesis using u by (simp add: write_cb_def)
  next
    case (readable accept r1 r2 junk c reqs sig pdu)
    then have "c = cs_conn u" "\<not> sig" using u(1) by (auto simp: read_cb_def)
    then show ?thesis using readable(1,2) u by (simp add: wake_written_def)
  next
    case (start_finish t' b' sz' a c out reqs ret)
    then show ?thesis using u(1) by simp
  qed (use u in \<open>auto simp: finished_def send_finish_def wake_turn_def closeconn_def split: if_splits\<close>)
qed simp

lemma demo_stranded:
  "\<exists>s s1. conn_path (conn_start 5 (0, 0) 0) [CTau, CTau] s \<and> cs_ph s 1 = SWaitWritten [0, 0, 0, 0, 7, 8] 6 \<and> conn_step s CClosed s1"
proof -
  let ?b = "[0, 0, 0, 0, 7, 8] :: byte list"
  let ?c = "fst (conn_new 5 (0, 0) 0)"
  let ?s = "(conn_start 5 (0, 0) 0)\<lparr>cs_conn := ?c\<lparr>cn_waiters := 1\<rparr>, cs_ph := (\<lambda>_. SIdle)(1 := STest ?b 6)\<rparr>"
  have a: "conn_step (conn_start 5 (0, 0) 0) CTau ?s"
    using conn_step.call_send [of "conn_start 5 (0, 0) 0" 1 6 ?b] by (simp add: conn_start_def conn_new_def)
  obtain c out reqs where c: "send_start (Wrote 2) ?b 6 ((cs_conn ?s)\<lparr>cn_waiters := cn_waiters (cs_conn ?s) - 1\<rparr>) =
      Inr (Send_Wait, c, out, reqs)" "\<not> cn_dead c"
    by (simp add: send_start_def writepdu_def conn_new_def send_incomplete_def Let_def)
  let ?u = "?s\<lparr>cs_conn := c, cs_out := cs_out ?s @ out, cs_ph := (cs_ph ?s)(1 := SWaitWritten ?b 6)\<rparr>"
  have b: "conn_step ?s CTau ?u"
    by (rule conn_step.start_wait [OF _ _ _ _ c(1)])
      (simp_all add: send_must_wait_def conn_new_def charbuf_empty_def write_fits_def)
  have "conn_step ?u CClosed (?u\<lparr>cs_conn := c\<lparr>cn_dead := True\<rparr>\<rparr>)"
    by (rule conn_step.closing) (simp add: closeconn_def c(2))
  moreover have "conn_path (conn_start 5 (0, 0) 0) [CTau, CTau] ?u" using conn_more [OF conn_more [OF conn_here a] b] by simp
  moreover have "cs_ph ?u 1 = SWaitWritten ?b 6" by simp
  ultimately show ?thesis by blast
qed

text \<open>
  C33: \<open>closeconn\<close> strands a sender.  It marks the connection dead without signalling \<open>send_complete_\<close>, and on
  a dead connection no callback signals it any more.  So when a thread waits there for its message to be written and any thread closes
  the connection, then whatever the threads do afterwards the sender still waits and its \<open>send\<close> has not returned,
  unless the condition variable wakes it for no reason.
\<close>

theorem closeconn_strands_sender:
  assumes "cs_ph s t = SWaitWritten b sz" "conn_step s CClosed s1" "conn_path s1 es s'" "CSpurious \<notin> set es"
  shows "cn_dead (cs_conn s') \<and> cs_ph s' t = SWaitWritten b sz \<and> (\<forall>ret. CSendReturns t ret \<notin> set es)"
proof (rule stranded [OF assms(3) _ _ assms(4)])
  show "cn_dead (cs_conn s1)" "cs_ph s1 t = SWaitWritten b sz"
    using assms(2) by (cases; use assms(1) in \<open>auto simp: closeconn_def split: if_splits\<close>)+
qed

theorem closeconn_strands_sender_witness:
  "\<exists>s s1 s'. conn_path (conn_start 5 (0, 0) 0) [CTau, CTau] s \<and> conn_step s CClosed s1 \<and> conn_path s1 [CClosed] s'
     \<and> cs_ph s' 1 = SWaitWritten [0, 0, 0, 0, 7, 8] 6"
proof -
  obtain s s1 where s: "conn_path (conn_start 5 (0, 0) 0) [CTau, CTau] s" "cs_ph s 1 = SWaitWritten [0, 0, 0, 0, 7, 8] 6" "conn_step s CClosed s1"
    using demo_stranded by blast
  obtain c reqs where "closeconn (cs_conn s1) = (c, reqs)" by fastforce
  then have "conn_path s1 [CClosed] (s1\<lparr>cs_conn := c\<rparr>)" using conn_more [OF conn_here conn_step.closing] by fastforce
  then show ?thesis using closeconn_strands_sender [OF s(2,3)] s(1,3) by fastforce
qed

text \<open>
  reference counting.  A connection is deleted exactly when the last reference is given up after it has
  died, giving up more references than were taken fails the VERIFY, and taking and giving up one
  reference changes nothing.
\<close>

theorem decref_deletes_last:
  "(decref c = Inr None \<longleftrightarrow> cn_refno c = 1 \<and> cn_dead c \<and> cb_buf (cn_wpdu c) = None)
   \<and> (cn_refno c \<le> 0 \<longrightarrow> decref c = Inl Verify_Failed)
   \<and> (0 \<le> cn_refno c \<and> (cn_refno c = 0 \<longrightarrow> \<not> cn_dead c) \<longrightarrow> decref (incref c) = Inr (Some c))"
  by (auto simp: decref_def incref_def conn_delete_def Let_def VERIFY_def)

theorem decref_deletes_last_witness:
  "decref ((fst (conn_new 5 (0, 0) 0))\<lparr>cn_dead := True\<rparr>) = Inr None"
  using decref_deletes_last [of "(fst (conn_new 5 (0, 0) 0))\<lparr>cn_dead := True\<rparr>"]
  by (simp add: conn_new_def charbuf_empty_def)

end
