(* ===== verification/Conn_Store.thy ===== *)
theory Conn_Store
  imports Connection "HOL-Library.Multiset"
begin

text \<open>
  The connections of a process, by address, and who holds references to them.  Using a deleted
  connection is a fault.  \<open>counted\<close> is the discipline that makes this impossible: whoever takes a
  reference is entered as a holder and whoever gives one up is struck off.  The server
  endpoint, the client endpoint and the listener all keep it.

  The second part is the listener, class \<open>tcpsconn\<close> of \<^verbatim>\<open>rpc/connection.cc\<close>.
\<close>

section \<open>The store\<close>

type_synonym conn_store = "nat \<rightharpoonup> conn"

definition st_get :: "conn_store \<Rightarrow> nat \<Rightarrow> conn result" where
  "st_get st cid = (case st cid of None \<Rightarrow> Inl Use_After_Free | Some c \<Rightarrow> Inr c)"

definition st_ref :: "nat \<Rightarrow> conn_store \<Rightarrow> conn_store result" where
  "st_ref cid st = bind_r (st_get st cid) (\<lambda>c. Inr (st(cid \<mapsto> incref c)))"

definition st_unref :: "nat \<Rightarrow> conn_store \<Rightarrow> conn_store result" where
  "st_unref cid st = bind_r (st_get st cid) (\<lambda>c. bind_r (decref c) (\<lambda>oc. Inr (st(cid := oc))))"

definition st_unref_opt :: "nat option \<Rightarrow> conn_store \<Rightarrow> conn_store result" where
  "st_unref_opt ch st = (case ch of None \<Rightarrow> Inr st | Some d \<Rightarrow> st_unref d st)"

lemmas st_ops = st_get_def st_ref_def st_unref_def

section \<open>Holders of references\<close>

text \<open>
  \<open>counted\<close>: a connection that somebody holds exists, and its count covers everybody who
  holds it.
\<close>

definition counted :: "(nat \<rightharpoonup> conn) \<Rightarrow> ('k \<rightharpoonup> nat) \<Rightarrow> bool" where
  "counted st ow \<longleftrightarrow>
     (\<forall>cid. finite {k. ow k = Some cid}
        \<and> (st cid = None \<longrightarrow> {k. ow k = Some cid} = {})
        \<and> (\<forall>c. st cid = Some c \<longrightarrow> int (card {k. ow k = Some cid}) \<le> cn_refno c))"

lemma countedD:
  assumes "counted st ow"
  shows "finite {k. ow k = Some cid}" "ow k = Some cid \<Longrightarrow> \<exists>c. st cid = Some c"
    "st cid = Some c \<Longrightarrow> int (card {k. ow k = Some cid}) \<le> cn_refno c"
  using assms unfolding counted_def by (blast, fastforce, blast)

lemma holders_update:
  "{j. (ow(k := v)) j = Some cid} = (if v = Some cid then insert k {j. ow j = Some cid} else {j. ow j = Some cid} - {k})"
  by auto

lemma counted_forget:
  assumes "counted st ow"
  shows "counted st (ow(k := None))"
  unfolding counted_def
proof (intro allI conjI impI)
  fix cid
  let ?H = "{j. ow j = Some cid}" and ?I = "{j. (ow(k := None)) j = Some cid}"
  have sub: "?I \<subseteq> ?H" by auto
  show "finite ?I" using sub countedD(1) [OF assms] by (rule finite_subset)
  show "?I = {}" if "st cid = None" using sub that assms unfolding counted_def by blast
  show "int (card ?I) \<le> cn_refno c" if "st cid = Some c" for c
    using card_mono [OF countedD(1) [OF assms] sub] countedD(3) [OF assms that] by linarith
qed

lemma counted_take:
  assumes "counted st ow" "st cid = Some c" "ow k = None"
  shows "counted (st(cid \<mapsto> incref c)) (ow(k \<mapsto> cid))"
  using assms unfolding counted_def holders_update by (auto simp: incref_def)

lemma counted_drop:
  assumes c: "counted st ow" and st: "st cid = Some c" and k: "ow k = Some cid" and d: "decref c = Inr oc"
  shows "counted (st(cid := oc)) (ow(k := None))"
proof -
  let ?H = "{j. ow j = Some cid}"
  have H: "finite ?H" "int (card ?H) \<le> cn_refno c" "k \<in> ?H" using countedD [OF c] st k by auto
  have less: "card (?H - {k}) = card ?H - 1" "0 < card ?H"
    using H(1,3) by (simp_all add: card_gt_0_iff) blast
  have oc: "oc = None \<and> cn_refno c = 1 \<or> oc = Some (c\<lparr>cn_refno := cn_refno c - 1\<rparr>)"
    using d by (auto simp: decref_def Let_def bind_r_eq_Inr split: if_splits)
  have "?H - {k} = {}" if "cn_refno c = 1" using that H less by (metis card_eq_0_iff diff_is_0_eq' finite_Diff of_nat_1 of_nat_le_iff)
  then show ?thesis using c oc H less unfolding counted_def holders_update by (auto simp: of_nat_diff)
qed

lemma counted_new:
  assumes "counted st ow" "st cid = None" "ow k = None"
  shows "counted (st(cid \<mapsto> fst (conn_new fd now lossy))) (ow(k \<mapsto> cid))"
proof -
  have "{j. ow j = Some cid} = {}" using assms unfolding counted_def by blast
  then show ?thesis using assms unfolding counted_def holders_update by (auto simp: conn_new_def)
qed

lemma counted_alter: "counted st ow \<Longrightarrow> st cid = Some c \<Longrightarrow> cn_refno c' = cn_refno c \<Longrightarrow> counted (st(cid \<mapsto> c')) ow"
  unfolding counted_def by auto

lemma st_ref_counted:
  assumes "st_ref cid st = Inr st'" "counted st ow" "ow k = None"
  shows "counted st' (ow(k \<mapsto> cid))"
  using assms counted_take by (auto simp: st_ops bind_r_eq_Inr split: option.splits)

lemma st_unref_counted:
  assumes "st_unref cid st = Inr st'" "counted st ow" "ow k = Some cid"
  shows "counted st' (ow(k := None))"
  using assms counted_drop by (auto simp: st_ops bind_r_eq_Inr split: option.splits)

text \<open>A holder can always take another reference, and read its connection.\<close>

text \<open>A reference that is taken and given up at once changes no count.\<close>

lemma counted_delete:
  assumes "counted st ow" "st cid = Some c" "cn_refno c = 0"
  shows "counted (st(cid := None)) ow"
proof -
  have "{k. ow k = Some cid} = {}" using countedD(1,3) [OF assms(1)] assms(2,3) by (fastforce simp: card_eq_0_iff)
  then show ?thesis using assms(1) unfolding counted_def by simp
qed

lemma st_ref_unref_counted:
  assumes "st_ref cid st = Inr st1" "st_unref cid st1 = Inr st2" "counted st ow"
  shows "counted st2 ow"
proof -
  obtain c where c: "st cid = Some c" "st1 = st(cid \<mapsto> incref c)"
    using assms(1) by (auto simp: st_ops bind_r_eq_Inr split: option.splits)
  obtain oc where oc: "decref (incref c) = Inr oc" "st2 = st(cid := oc)" using assms(2) c by (auto simp: st_ops bind_r_eq_Inr)
  have "incref c\<lparr>cn_refno := cn_refno c\<rparr> = c" by (simp add: incref_def)
  then have "oc = Some c \<or> oc = None \<and> cn_refno c = 0"
    using oc(1) by (auto simp: decref_def incref_def Let_def bind_r_eq_Inr split: if_splits)
  then show ?thesis using oc(2) assms(3) c(1) counted_delete [OF assms(3) c(1)] by (auto simp: fun_upd_idem)
qed

lemma counted_get: "counted st ow \<Longrightarrow> ow k = Some cid \<Longrightarrow> \<exists>c. st_get st cid = Inr c"
  using countedD(2) by (fastforce simp: st_get_def)

section \<open>The listener\<close>

text \<open>\<open>conns_\<close> of class \<open>tcpsconn\<close>: a map from descriptors to connections, in the order of its keys.\<close>

type_synonym conn_table = "(nat \<times> nat) list"

fun table_set :: "nat \<Rightarrow> nat \<Rightarrow> conn_table \<Rightarrow> conn_table" where
  "table_set fd cid [] = [(fd, cid)]"
| "table_set fd cid ((fd', cid') # cs) =
     (if fd < fd' then (fd, cid) # (fd', cid') # cs
      else if fd = fd' then (fd, cid) # cs
      else (fd', cid') # table_set fd cid cs)"

text \<open>The loop that collects the dead connections that only the listener holds.\<close>

fun gc_conns :: "conn_table \<Rightarrow> conn_store \<Rightarrow> (conn_table \<times> conn_store) result" where
  "gc_conns [] st = Inr ([], st)"
| "gc_conns ((fd, cid) # cs) st =
     bind_r (st_get st cid) (\<lambda>c.
     if cn_dead c \<and> cn_refno c = 1
     then bind_r (st_unref cid st) (\<lambda>st. gc_conns cs st)
     else bind_r (gc_conns cs st) (\<lambda>(cs, st). Inr ((fd, cid) # cs, st)))"

text \<open>
  \<open>process_accept\<close>: \<open>s1\<close> is what \<open>accept\<close> answers, none for an error, which ends the thread; \<open>cid\<close> is the
  address of the new connection.
\<close>

definition process_accept ::
    "nat option \<Rightarrow> nat \<Rightarrow> int \<times> int \<Rightarrow> int \<Rightarrow> conn_table \<Rightarrow> conn_store \<Rightarrow> (conn_table \<times> conn_store) option result" where
  "process_accept s1 cid now lossy cs st =
     (case s1 of
        None \<Rightarrow> Inr None
      | Some fd \<Rightarrow>
          bind_r (gc_conns cs (st(cid \<mapsto> fst (conn_new fd now lossy)))) (\<lambda>(cs, st).
          bind_r (st_get st cid) (\<lambda>ch.
          Inr (Some (table_set (cn_fd ch) cid cs, st)))))"

text \<open>The destructor of the listener, after its thread has been joined.\<close>

fun close_all :: "conn_table \<Rightarrow> conn_store \<Rightarrow> conn_store result" where
  "close_all [] st = Inr st"
| "close_all ((fd, cid) # cs) st =
     bind_r (st_get st cid) (\<lambda>c.
     bind_r (st_unref cid (st(cid \<mapsto> fst (closeconn c)))) (\<lambda>st.
     close_all cs st))"

text \<open>
  One round of \<open>accept_conn\<close>: what \<open>select\<close> reports decides; the flag says whether the loop goes on.
\<close>

datatype accept_answer = Acc_EINTR | Acc_Error | Acc_Ready bool bool

definition accept_round ::
    "accept_answer \<Rightarrow> nat option \<Rightarrow> nat \<Rightarrow> int \<times> int \<Rightarrow> int \<Rightarrow> conn_table \<Rightarrow> conn_store \<Rightarrow> (bool \<times> conn_table \<times> conn_store) result" where
  "accept_round a s1 cid now lossy cs st =
     (case a of
        Acc_EINTR \<Rightarrow> Inr (True, cs, st)
      | Acc_Error \<Rightarrow> Inl Verify_Failed
      | Acc_Ready pipe tcp \<Rightarrow>
          if pipe then Inr (False, cs, st)
          else if tcp then
            bind_r (process_accept s1 cid now lossy cs st) (\<lambda>r.
            case r of None \<Rightarrow> Inr (False, cs, st) | Some (cs, st) \<Rightarrow> Inr (True, cs, st))
          else Inl Verify_Failed)"

text \<open>\<open>connect_to_dst\<close>: \<open>connected\<close> is what the system call \<open>connect\<close> on the new socket \<open>fd\<close> answers.\<close>

definition connect_to_dst :: "nat \<Rightarrow> bool \<Rightarrow> int \<times> int \<Rightarrow> int \<Rightarrow> conn option" where
  "connect_to_dst fd connected now lossy = (if \<not> connected then None else Some (fst (conn_new fd now lossy)))"

section \<open>The listener's table\<close>

definition listener_ok :: "conn_table \<Rightarrow> conn_store \<Rightarrow> bool" where
  "listener_ok cs st \<longleftrightarrow> sorted_wrt (<) (map fst cs) \<and> distinct (map snd cs)
     \<and> (\<forall>(fd, cid)\<in>set cs. \<exists>c. st cid = Some c \<and> cn_fd c = fd \<and> 1 \<le> cn_refno c)"

definition garbage :: "conn_store \<Rightarrow> nat \<Rightarrow> bool" where
  "garbage st cid \<longleftrightarrow> (\<exists>c. st cid = Some c \<and> cn_dead c \<and> cn_refno c = 1)"

text \<open>No dead connection has a message half sent, which its destructor would refuse.\<close>

definition sent_all :: "conn_table \<Rightarrow> conn_store \<Rightarrow> bool" where
  "sent_all cs st \<longleftrightarrow> (\<forall>(fd, cid)\<in>set cs. \<forall>c. st cid = Some c \<longrightarrow> cn_dead c \<longrightarrow> cb_buf (cn_wpdu c) = None)"

lemma st_unref_last:
  "st cid = Some c \<Longrightarrow> cn_dead c \<Longrightarrow> cn_refno c = 1 \<Longrightarrow> cb_buf (cn_wpdu c) = None \<Longrightarrow> st_unref cid st = Inr (st(cid := None))"
  by (simp add: st_ops decref_def conn_delete_def)

lemma gc_conns_spec:
  assumes "distinct (map snd cs)" "\<forall>(fd, cid)\<in>set cs. \<exists>c. st cid = Some c" "sent_all cs st"
  shows "gc_conns cs st = Inr (filter (\<lambda>(fd, cid). \<not> garbage st cid) cs,
    \<lambda>d. if d \<in> snd ` set cs \<and> garbage st d then None else st d)"
  using assms
proof (induction cs arbitrary: st)
  case (Cons e cs)
  obtain fd cid where e: "e = (fd, cid)" by (cases e)
  obtain c where c: "st cid = Some c" using Cons.prems(2) e by auto
  have new: "cid \<notin> snd ` set cs" "distinct (map snd cs)" using Cons.prems(1) e by auto
  show ?case
  proof (cases "garbage st cid")
    case True
    let ?st = "st(cid := None)"
    have same: "garbage ?st d = garbage st d" if "d \<in> snd ` set cs" for d
      using that new(1) by (auto simp: garbage_def)
    have "\<forall>(fd, cid)\<in>set cs. \<exists>c. ?st cid = Some c" "sent_all cs ?st"
      using Cons.prems(2,3) new(1) by (force simp: sent_all_def)+
    note ih = Cons.IH [OF new(2) this]
    have "filter (\<lambda>(fd, cid). \<not> garbage ?st cid) cs = filter (\<lambda>(fd, cid). \<not> garbage st cid) cs"
      by (rule filter_cong) (use same in force)+
    with ih have "gc_conns cs ?st = Inr (filter (\<lambda>(fd, cid). \<not> garbage st cid) cs,
        \<lambda>d. if d \<in> snd ` set cs \<and> garbage ?st d then None else ?st d)"
      by (simp only:)
    moreover have "(\<lambda>d. if d \<in> snd ` set cs \<and> garbage ?st d then None else ?st d)
        = (\<lambda>d. if d \<in> snd ` set (e # cs) \<and> garbage st d then None else st d)"
      using True same new(1) e by (intro ext) auto
    moreover have "cn_dead c" "cn_refno c = 1" using True c by (auto simp: garbage_def)
    moreover from this have "st_unref cid st = Inr ?st"
      using st_unref_last [of st cid c] Cons.prems(3) c e by (auto simp: sent_all_def)
    ultimately show ?thesis using True c e by (simp add: st_get_def)
  next
    case False
    have "\<forall>(fd, cid)\<in>set cs. \<exists>c. st cid = Some c" "sent_all cs st" using Cons.prems(2,3) by (auto simp: sent_all_def)
    from Cons.IH [OF new(2) this] show ?thesis using False c e by (auto simp: st_get_def garbage_def fun_eq_iff)
  qed
qed simp

lemma table_set_new:
  assumes "fd \<notin> fst ` set cs" "sorted_wrt (<) (map fst cs)"
  shows "set (table_set fd cid cs) = insert (fd, cid) (set cs)" "sorted_wrt (<) (map fst (table_set fd cid cs))"
    "mset (map snd (table_set fd cid cs)) = add_mset cid (mset (map snd cs))"
proof -
  show *: "set (table_set fd cid cs) = insert (fd, cid) (set cs)" using assms
    by (induction fd cid cs rule: table_set.induct) auto
  show "sorted_wrt (<) (map fst (table_set fd cid cs))" using assms
  proof (induction fd cid cs rule: table_set.induct)
    case (2 fd cid fd' cid' cs)
    have "set (table_set fd cid cs) = insert (fd, cid) (set cs)" if "fd \<notin> fst ` set cs"
      using that by (induction fd cid cs rule: table_set.induct) auto
    then show ?case using 2 by auto
  qed simp
  show "mset (map snd (table_set fd cid cs)) = add_mset cid (mset (map snd cs))" using assms
    by (induction fd cid cs rule: table_set.induct) auto
qed

text \<open>A connection that the listener shares with somebody else outlives the listener, dead and with one reference less.\<close>

lemma close_all_other: "cid \<notin> snd ` set cs \<Longrightarrow> close_all cs st = Inr st' \<Longrightarrow> st' cid = st cid"
proof (induction cs arbitrary: st)
  case (Cons e cs)
  obtain fd d where e: "e = (fd, d)" by (cases e)
  obtain st1 where "close_all cs st1 = Inr st'" "st1 cid = st cid"
    using Cons.prems e by (auto simp: bind_r_eq_Inr st_ops)
  then show ?case using Cons.IH Cons.prems(1) by simp
qed simp

lemma close_all_kept:
  assumes "distinct (map snd cs)" "cid \<in> snd ` set cs" "st cid = Some c" "2 \<le> cn_refno c" "close_all cs st = Inr st'"
  shows "\<exists>c'. st' cid = Some c' \<and> cn_dead c' \<and> cn_refno c' = cn_refno c - 1"
  using assms
proof (induction cs arbitrary: st)
  case (Cons e cs)
  obtain fd d where e: "e = (fd, d)" by (cases e)
  obtain st1 where st1: "close_all cs st1 = Inr st'"
    "bind_r (st_get st d) (\<lambda>c. st_unref d (st(d \<mapsto> fst (closeconn c)))) = Inr st1"
    using Cons.prems(5) e by (auto simp: bind_r_eq_Inr)
  show ?case
  proof (cases "d = cid")
    case True
    then have "st1 cid = Some ((fst (closeconn c))\<lparr>cn_refno := cn_refno c - 1\<rparr>)" "cn_dead (fst (closeconn c))"
      using st1(2) Cons.prems(3,4) by (auto simp: bind_r_eq_Inr st_ops closeconn_def decref_def Let_def split: if_splits)
    then show ?thesis using close_all_other [OF _ st1(1), of cid] True Cons.prems(1) e by auto
  next
    case False
    then have "st1 cid = Some c" using st1(2) Cons.prems(3) by (auto simp: bind_r_eq_Inr st_ops)
    then show ?thesis using Cons.IH [OF _ _ _ Cons.prems(4) st1(1)] Cons.prems(1,2) False e by auto
  qed
qed simp

section \<open>Properties\<close>

text \<open>
  accepting a connection.  Given that the system returns a descriptor that no existing connection has,
  \<open>process_accept\<close> enters the new connection under its descriptor without displacing another one,
  keeps the table sorted and every entry pointing to a live connection with that descriptor, and
  deletes exactly the dead connections that only the listener held.
\<close>

theorem process_accept_collects:
  assumes "listener_ok cs st" "sent_all cs st" "st cid = None" "\<And>d c. st d = Some c \<Longrightarrow> cn_fd c \<noteq> fd"
  shows "\<exists>cs' st'. process_accept (Some fd) cid now lossy cs st = Inr (Some (cs', st')) \<and> listener_ok cs' st'
    \<and> set cs' = insert (fd, cid) {(f, d) \<in> set cs. \<not> garbage st d}
    \<and> st' = (\<lambda>d. if d = cid then Some (fst (conn_new fd now lossy)) else if d \<in> snd ` set cs \<and> garbage st d then None else st d)"
proof -
  let ?n = "fst (conn_new fd now lossy)"
  let ?st = "st(cid \<mapsto> ?n)"
  let ?cs = "filter (\<lambda>(f, d). \<not> garbage st d) cs"
  let ?st' = "\<lambda>d. if d = cid then Some ?n else if d \<in> snd ` set cs \<and> garbage st d then None else st d"
  have ok: "sorted_wrt (<) (map fst cs)" "distinct (map snd cs)" "\<And>f d. (f, d) \<in> set cs \<Longrightarrow> \<exists>c. st d = Some c \<and> cn_fd c = f \<and> 1 \<le> cn_refno c"
    using assms(1) unfolding listener_ok_def by auto
  have cid: "cid \<notin> snd ` set cs" using ok(3) assms(3) by force
  have fd: "fd \<notin> fst ` set cs" using ok(3) assms(4) by force
  have g: "garbage ?st d = garbage st d" if "d \<noteq> cid" for d using that by (simp add: garbage_def)
  have g0: "\<not> garbage ?st cid" "\<not> garbage st cid" using assms(3) by (simp_all add: garbage_def conn_new_def)
  have "\<forall>(f, d)\<in>set cs. \<exists>c. ?st d = Some c" "sent_all cs ?st"
    using ok(3) cid assms(2) by (force simp: sent_all_def)+
  from gc_conns_spec [OF ok(2) this]
  have gc: "gc_conns cs ?st = Inr (?cs, ?st')"
  proof -
    have "filter (\<lambda>(f, d). \<not> garbage ?st d) cs = ?cs" by (rule filter_cong) (use g cid in force)+
    moreover have "(\<lambda>d. if d \<in> snd ` set cs \<and> garbage ?st d then None else ?st d) = ?st'"
      using g cid by (intro ext) auto
    ultimately show ?thesis using gc_conns_spec [OF ok(2) \<open>\<forall>(f, d)\<in>set cs. \<exists>c. ?st d = Some c\<close> \<open>sent_all cs ?st\<close>] by (simp only:)
  qed
  have acc: "process_accept (Some fd) cid now lossy cs st = Inr (Some (table_set fd cid ?cs, ?st'))"
    using gc by (simp add: process_accept_def st_get_def conn_new_def)
  have srt: "sorted_wrt (<) (map fst ?cs)" using ok(1) by (simp add: sorted_wrt_map sorted_wrt_filter)
  have "fd \<notin> fst ` set ?cs" using fd by auto
  note T = table_set_new [OF this srt, of cid]
  have "distinct (map snd (table_set fd cid ?cs))"
  proof -
    have "distinct (cid # map snd ?cs)" using ok(2) cid by (auto simp: distinct_map inj_on_def)
    moreover have "mset (map snd (table_set fd cid ?cs)) = mset (cid # map snd ?cs)" using T(3) by simp
    ultimately show ?thesis by (metis mset_eq_imp_distinct_iff)
  qed
  moreover have "\<exists>c. ?st' d = Some c \<and> cn_fd c = f \<and> 1 \<le> cn_refno c" if "(f, d) \<in> insert (fd, cid) (set ?cs)" for f d
  proof -
    have "(f, cid) \<notin> set cs" using cid by force
    then show ?thesis using that ok(3) by (cases "d = cid") (auto simp: conn_new_def)
  qed
  ultimately have "listener_ok (table_set fd cid ?cs) ?st'" unfolding listener_ok_def using T(1,2) by blast
  moreover have "set ?cs = {(f, d) \<in> set cs. \<not> garbage st d}" by auto
  ultimately show ?thesis using acc T(1) by (intro exI [of _ "table_set fd cid ?cs"] exI [of _ ?st']) simp
qed

theorem process_accept_collects_witness:
  "\<exists>cs' st'. process_accept (Some 5) 2 (0, 0) 0 [(4, 1)] [1 \<mapsto> (fst (conn_new 4 (0, 0) 0))\<lparr>cn_dead := True\<rparr>] = Inr (Some (cs', st'))
     \<and> set cs' = {(5, 2)} \<and> st' 1 = None"
proof -
  let ?c = "(fst (conn_new 4 (0, 0) 0))\<lparr>cn_dead := True\<rparr>"
  have "listener_ok [(4, 1)] [1 \<mapsto> ?c]" "sent_all [(4, 1)] [1 \<mapsto> ?c]" "garbage [1 \<mapsto> ?c] 1"
    by (simp_all add: listener_ok_def sent_all_def garbage_def conn_new_def charbuf_empty_def)
  moreover have "cn_fd c \<noteq> 5" if "[1 \<mapsto> ?c] d = Some c" for d c using that by (auto simp: conn_new_def split: if_splits)
  ultimately obtain cs' st' where *: "process_accept (Some 5) 2 (0, 0) 0 [(4, 1)] [1 \<mapsto> ?c] = Inr (Some (cs', st'))"
    "set cs' = insert (5, 2) {(f, d) \<in> set [(4, 1)]. \<not> garbage [1 \<mapsto> ?c] d}"
    "st' = (\<lambda>d. if d = 2 then Some (fst (conn_new 5 (0, 0) 0)) else if d \<in> snd ` set [(4 :: nat, 1)] \<and> garbage [1 \<mapsto> ?c] d then None else [1 \<mapsto> ?c] d)"
    using process_accept_collects [of "[(4, 1)]" "[1 \<mapsto> ?c]" 2 5 "(0, 0)" 0] by fastforce
  then have "set cs' = {(5, 2)}" "st' 1 = None" using \<open>garbage [1 \<mapsto> ?c] 1\<close> by auto
  then show ?thesis using *(1) by blast
qed

end
