(* ===== verification/Rpcs.thy ===== *)
theory Rpcs
  imports Stubs Reply_Window Conn_Store
begin

text \<open>
  The server endpoint: class \<open>rpcs\<close> of \<^verbatim>\<open>rpc/rpc.h\<close> and \<^verbatim>\<open>rpc/rpc.cc\<close>.  It owns the table of
  procedures, the at-most-once window of theory \<open>Reply_Window\<close>, the latest connection of every client
  and some statistics; \<open>dispatch\<close> runs one request in a thread of the dispatch pool.

  Connections are objects of a store, named by their addresses: using one that was deleted is a
  fault.  \<open>'o\<close> is the state of the objects whose methods are registered.  \<open>mem\<close> is what freshly
  allocated memory holds, and the address of the buffer of a reply is an argument.  What
  \<open>dispatch\<close> sends is its result, as a list of connections and messages; the four size bytes of
  a message are filled in by \<open>connection::send\<close>.

  \<open>dispatch\<close> is defined twice from the same pieces: as a function, for one request at a time,
  and cut at the places where it takes or gives up a mutex, as the step relation \<open>srv_step\<close> of
  any number of threads.
\<close>

section \<open>State\<close>

record 'o rpcs =
  sv_nonce :: u32
  sv_counting :: int
  sv_curr_counts :: int
  sv_counts :: "i32 \<rightharpoonup> int"
  sv_procs :: "i32 \<rightharpoonup> 'o handler"
  sv_win :: rwindow
  sv_conns :: "u32 \<rightharpoonup> nat"
  sv_reachable :: bool
  sv_store :: "nat \<rightharpoonup> conn"
  sv_obj :: 'o

record djob =
  dj_conn :: nat
  dj_buf :: "byte list"
  dj_sz :: nat

section \<open>Connections by address\<close>

definition get_conn :: "'o rpcs \<Rightarrow> nat \<Rightarrow> conn result" where
  "get_conn s cid = st_get (sv_store s) cid"

definition ref_conn :: "nat \<Rightarrow> 'o rpcs \<Rightarrow> 'o rpcs result" where
  "ref_conn cid s = bind_r (st_ref cid (sv_store s)) (\<lambda>st. Inr (s\<lparr>sv_store := st\<rparr>))"

definition unref_conn :: "nat \<Rightarrow> 'o rpcs \<Rightarrow> 'o rpcs result" where
  "unref_conn cid s = bind_r (st_unref cid (sv_store s)) (\<lambda>st. Inr (s\<lparr>sv_store := st\<rparr>))"

section \<open>Registration and statistics\<close>

definition reg1 :: "i32 \<Rightarrow> 'o handler \<Rightarrow> 'o rpcs \<Rightarrow> 'o rpcs result" where
  "reg1 proc h s =
     bind_r (VERIFY (sv_procs s proc = None)) (\<lambda>_. Inr (s\<lparr>sv_procs := (sv_procs s)(proc \<mapsto> h)\<rparr>))"

definition rpcbind :: "u32 \<Rightarrow> i32 \<Rightarrow> 'o \<Rightarrow> (i32 \<times> i32 \<times> 'o) result" where
  "rpcbind nonce a obj = Inr (0, nonce, obj)"

text \<open>The constructor: the random nonce is an argument; \<open>z\<close> is the uninitialised argument of the handler.\<close>

definition rpcs_new :: "u32 \<Rightarrow> int \<Rightarrow> i32 \<Rightarrow> 'o \<Rightarrow> 'o rpcs result" where
  "rpcs_new nonce counting z obj =
     reg1 rpc_bind (h_fn1 get_int z put_int (rpcbind nonce))
       \<lparr>sv_nonce = nonce, sv_counting = counting, sv_curr_counts = counting, sv_counts = Map.empty, sv_procs = Map.empty,
        sv_win = rwindow_init, sv_conns = Map.empty, sv_reachable = True, sv_store = Map.empty, sv_obj = obj\<rparr>"

definition rpcs_set_reachable :: "bool \<Rightarrow> 'o rpcs \<Rightarrow> 'o rpcs" where
  "rpcs_set_reachable r s = s\<lparr>sv_reachable := r\<rparr>"

definition updatestat :: "i32 \<Rightarrow> 'o rpcs \<Rightarrow> 'o rpcs result" where
  "updatestat proc s =
     (let n = (case sv_counts s proc of None \<Rightarrow> 0 | Some n \<Rightarrow> n) in
      if n = 2 ^ 31 - 1 \<or> sv_curr_counts s = - (2 ^ 31) then Inl Signed_Overflow
      else let s = s\<lparr>sv_counts := (sv_counts s)(proc \<mapsto> n + 1), sv_curr_counts := sv_curr_counts s - 1\<rparr> in
        if sv_curr_counts s = 0 then Inr (s\<lparr>sv_curr_counts := sv_counting s\<rparr>) else Inr s)"

text \<open>
  \<open>got_pdu\<close>: \<open>succ\<close> is what the pool answers, \<open>later\<close> the second reading of \<open>reachable_\<close>.  The last
  result is what the pool holds: nothing, the job, or the pointer to a job that is already deleted.
\<close>

datatype queued = Not_Queued | Queued djob | Queued_Freed

definition rpcs_got_pdu :: "bool \<Rightarrow> bool \<Rightarrow> nat \<Rightarrow> byte list \<Rightarrow> nat \<Rightarrow> 'o rpcs \<Rightarrow> (bool \<times> 'o rpcs \<times> queued) result" where
  "rpcs_got_pdu succ later cid b sz s =
     (if \<not> sv_reachable s then Inr (True, s, Not_Queued)
      else bind_r (ref_conn cid s) (\<lambda>s.
        if \<not> succ \<or> \<not> later
        then bind_r (unref_conn cid s) (\<lambda>s. Inr (succ, s, if succ then Queued_Freed else Not_Queued))
        else Inr (succ, s, Queued \<lparr>dj_conn = cid, dj_buf = b, dj_sz = sz\<rparr>)))"

section \<open>The pieces of dispatch\<close>

datatype 'o arrival = Bad_Header | Old_Server "byte list" | Request req_header unmarshall "'o handler"

definition failure_reply :: "memory \<Rightarrow> u32 \<Rightarrow> i32 \<Rightarrow> byte list result" where
  "failure_reply mem xid ret =
     bind_r (pack_reply_header mem (marshall_new mem) \<lparr>rp_xid = xid, rp_ret = ret\<rparr>) (\<lambda>rep. Inr (m_bytes rep))"

text \<open>The header, the test for an old server, and the search for the procedure.\<close>

definition dispatch_begin :: "memory \<Rightarrow> byte list \<Rightarrow> nat \<Rightarrow> 'o rpcs \<Rightarrow> 'o arrival result" where
  "dispatch_begin mem buf sz s =
     bind_r (unpack_req_header (unmarshall_new (Some buf) sz)) (\<lambda>(req, h).
     if \<not> u_ok req then Inr Bad_Header
     else if rq_srv_nonce h \<noteq> 0 \<and> rq_srv_nonce h \<noteq> sv_nonce s
     then bind_r (failure_reply mem (rq_xid h) oldsrv_failure) (\<lambda>bs. Inr (Old_Server bs))
     else case sv_procs s (rq_proc h) of
       None \<Rightarrow> Inl Verify_Failed
     | Some f \<Rightarrow> Inr (Request h req f))"

text \<open>Keep the latest connection to the client.\<close>

definition save_conn :: "u32 \<Rightarrow> nat \<Rightarrow> 'o rpcs \<Rightarrow> 'o rpcs result" where
  "save_conn clt cid s =
     (case sv_conns s clt of
        None \<Rightarrow>
          bind_r (ref_conn cid s) (\<lambda>s. Inr (s\<lparr>sv_conns := (sv_conns s)(clt \<mapsto> cid)\<rparr>))
      | Some old \<Rightarrow>
          bind_r (get_conn s old) (\<lambda>co.
          bind_r (get_conn s cid) (\<lambda>c.
          if conn_compare co c < 0
          then bind_r (unref_conn old s) (\<lambda>s. bind_r (ref_conn cid s) (\<lambda>s.
                 Inr (s\<lparr>sv_conns := (sv_conns s)(clt \<mapsto> cid)\<rparr>)))
          else Inr s)))"

text \<open>The verdict on the request; clients with nonce 0 do not ask for at-most-once.\<close>

definition classify ::
    "req_header \<Rightarrow> nat \<Rightarrow> 'o rpcs \<Rightarrow> ('o rpcs \<times> rpcstate_t \<times> (nat option \<times> nat) option) result" where
  "classify h cid s =
     (if rq_clt_nonce h \<noteq> 0 then
        bind_r (save_conn (rq_clt_nonce h) cid (s\<lparr>sv_win := create_window (rq_clt_nonce h) (sv_win s)\<rparr>)) (\<lambda>s.
        bind_r (checkduplicate_and_update (rq_clt_nonce h) (rq_xid h) (rq_xid_rep h) (sv_win s)) (\<lambda>(w, stat, out).
        Inr (s\<lparr>sv_win := w\<rparr>, stat, out)))
      else Inr (s, NEW, None))"

text \<open>Case \<open>NEW\<close>: the statistics and the handler.\<close>

definition execute ::
    "memory \<Rightarrow> i32 \<Rightarrow> unmarshall \<Rightarrow> 'o handler \<Rightarrow> 'o rpcs \<Rightarrow> (i32 \<times> marshall \<times> 'o rpcs) result" where
  "execute mem proc req f s =
     bind_r (if sv_counting s \<noteq> 0 then updatestat proc s else Inr s) (\<lambda>s.
     bind_r (f mem req (marshall_new mem) (sv_obj s)) (\<lambda>(ret, rep, obj). Inr (ret, rep, s\<lparr>sv_obj := obj\<rparr>)))"

text \<open>The reply message of a handler that returned \<open>ret\<close>: the bytes of its buffer up to its size.\<close>

definition finish_reply :: "memory \<Rightarrow> u32 \<Rightarrow> i32 \<Rightarrow> marshall \<Rightarrow> byte list result" where
  "finish_reply mem xid ret rep =
     bind_r (VERIFY (ret \<noteq> unmarshal_args_failure)) (\<lambda>_.
     bind_r (VERIFY (sint ret \<ge> 0)) (\<lambda>_.
     bind_r (pack_reply_header mem rep \<lparr>rp_xid = xid, rp_ret = ret\<rparr>) (\<lambda>rep.
     case m_take_buf rep of (_, b, sz) \<Rightarrow> (case b of None \<Rightarrow> Inl Null_Deref | Some b \<Rightarrow> Inr (take sz b)))))"

definition record_reply :: "u32 \<Rightarrow> u32 \<Rightarrow> nat \<Rightarrow> byte list \<Rightarrow> 'o rpcs \<Rightarrow> 'o rpcs result" where
  "record_reply clt xid a bs s =
     (if clt > 0
      then bind_r (add_reply clt xid (Some a) (length bs) ((sv_win s)\<lparr>rw_heap := (rw_heap (sv_win s))(a \<mapsto> bs)\<rparr>)) (\<lambda>w.
        Inr (s\<lparr>sv_win := w\<rparr>))
      else Inr s)"

text \<open>A dead connection is exchanged for the latest one; \<open>conns_[0]\<close> is a null pointer.\<close>

definition latest_conn :: "u32 \<Rightarrow> nat \<Rightarrow> 'o rpcs \<Rightarrow> (nat \<times> 'o rpcs) result" where
  "latest_conn clt cid s =
     bind_r (get_conn s cid) (\<lambda>c.
     if cn_dead c \<and> sv_conns s clt \<noteq> Some cid
     then bind_r (unref_conn cid s) (\<lambda>s.
       case sv_conns s clt of
         None \<Rightarrow> Inl Null_Deref
       | Some d \<Rightarrow> bind_r (ref_conn d s) (\<lambda>s. Inr (d, s)))
     else Inr (cid, s))"

text \<open>A message is a buffer of the thread's own, or a block of the window.\<close>

datatype src = Local "byte list" | Block nat nat

definition src_bytes :: "src \<Rightarrow> 'o rpcs \<Rightarrow> byte list result" where
  "src_bytes b s =
     (case b of
        Local bs \<Rightarrow> Inr bs
      | Block a sz \<Rightarrow> (case rw_heap (sv_win s) a of None \<Rightarrow> Inl Use_After_Free | Some bs \<Rightarrow> Inr (take sz bs)))"

definition reply_src :: "u32 \<Rightarrow> nat \<Rightarrow> byte list \<Rightarrow> src" where
  "reply_src clt a bs = (if clt > 0 then Block a (length bs) else Local bs)"

definition done_src :: "(nat option \<times> nat) option \<Rightarrow> src result" where
  "done_src out = (case out of Some (Some a, sz) \<Rightarrow> Inr (Block a sz) | _ \<Rightarrow> Inl Null_Deref)"

definition send_on :: "nat \<Rightarrow> src \<Rightarrow> 'o rpcs \<Rightarrow> (nat \<times> byte list) result" where
  "send_on cid b s = bind_r (get_conn s cid) (\<lambda>_. bind_r (src_bytes b s) (\<lambda>bs. Inr (cid, bs)))"

section \<open>dispatch\<close>

text \<open>The switch over the verdict: the connection in use at its end, the state and what was sent.\<close>

definition dispatch_switch ::
    "memory \<Rightarrow> nat \<Rightarrow> req_header \<Rightarrow> unmarshall \<Rightarrow> 'o handler \<Rightarrow> rpcstate_t \<Rightarrow> (nat option \<times> nat) option \<Rightarrow> nat \<Rightarrow> 'o rpcs \<Rightarrow>
     (nat \<times> 'o rpcs \<times> (nat \<times> byte list) list) result" where
  "dispatch_switch mem a h req f stat out cid s =
     (case stat of
        NEW \<Rightarrow>
          bind_r (execute mem (rq_proc h) req f s) (\<lambda>(ret, rep, s).
          bind_r (finish_reply mem (rq_xid h) ret rep) (\<lambda>bs.
          bind_r (record_reply (rq_clt_nonce h) (rq_xid h) a bs s) (\<lambda>s.
          bind_r (latest_conn (rq_clt_nonce h) cid s) (\<lambda>(cid, s).
          bind_r (send_on cid (reply_src (rq_clt_nonce h) a bs) s) (\<lambda>m. Inr (cid, s, [m]))))))
      | INPROGRESS \<Rightarrow> Inr (cid, s, [])
      | DONE \<Rightarrow> bind_r (done_src out) (\<lambda>b. bind_r (send_on cid b s) (\<lambda>m. Inr (cid, s, [m])))
      | FORGOTTEN \<Rightarrow>
          bind_r (failure_reply mem (rq_xid h) atmostonce_failure) (\<lambda>bs.
          bind_r (send_on cid (Local bs) s) (\<lambda>m. Inr (cid, s, [m]))))"

definition dispatch :: "memory \<Rightarrow> nat \<Rightarrow> nat \<Rightarrow> byte list \<Rightarrow> nat \<Rightarrow> 'o rpcs \<Rightarrow> ('o rpcs \<times> (nat \<times> byte list) list) result" where
  "dispatch mem a cid buf sz s =
     bind_r (dispatch_begin mem buf sz s) (\<lambda>arr.
     case arr of
       Bad_Header \<Rightarrow> bind_r (unref_conn cid s) (\<lambda>s. Inr (s, []))
     | Old_Server bs \<Rightarrow> bind_r (send_on cid (Local bs) s) (\<lambda>m. Inr (s, [m]))
     | Request h req f \<Rightarrow>
         bind_r (classify h cid s) (\<lambda>(s, stat, out).
         bind_r (dispatch_switch mem a h req f stat out cid s) (\<lambda>(cid, s, ms).
         bind_r (unref_conn cid s) (\<lambda>s. Inr (s, ms)))))"

text \<open>
  The destructor, after the listener's thread and the pool have been joined: \<open>cs\<close> is the table of the listener and
  \<open>clts\<close> the clients of the window in order.  The references in \<open>conns_\<close> are not given up.
\<close>

definition rpcs_delete :: "conn_table \<Rightarrow> u32 list \<Rightarrow> 'o rpcs \<Rightarrow> 'o rpcs result" where
  "rpcs_delete cs clts s =
     bind_r (close_all cs (sv_store s)) (\<lambda>st.
     bind_r (free_reply_window clts (sv_win s)) (\<lambda>w.
     Inr (s\<lparr>sv_store := st, sv_win := w\<rparr>)))"

lemma rpcs_delete_leaks:
  assumes "rpcs_delete cs clts s = Inr s'" "distinct (map snd cs)" "cid \<in> snd ` set cs"
    and "sv_store s cid = Some c" "2 \<le> cn_refno c"
  shows "\<exists>c'. sv_store s' cid = Some c' \<and> cn_dead c' \<and> cn_refno c' = cn_refno c - 1"
  using close_all_kept [where st = "sv_store s", OF assms(2-5)] assms(1) by (auto simp: rpcs_delete_def bind_r_eq_Inr)

section \<open>The threads of the server\<close>

text \<open>
  Where a thread of the pool is inside \<open>dispatch\<close>.  Between two phases it holds no mutex of the
  server.  A handler is one step; the mutex inside a handler is the subject of theory
  \<open>Lock_Server\<close>.  A thread in \<open>DDeleted\<close> took a job from the pool that \<open>got_pdu\<close> had deleted; what it does with it
  is undefined, and it has no further step.
\<close>

datatype 'o dphase =
    DIdle
  | DArrived nat "byte list" nat
  | DFound nat req_header unmarshall "'o handler"
  | DCreated nat req_header unmarshall "'o handler"
  | DSaved nat req_header unmarshall "'o handler"
  | DRun nat req_header unmarshall "'o handler"
  | DReturned nat req_header i32 marshall
  | DRecorded nat u32 src
  | DSend nat src
  | DEnd nat
  | DDeleted

text \<open>\<open>ss_listed\<close>: the connections that the listener keeps a reference to.\<close>

record 'o srvsys =
  ss_srv :: "'o rpcs"
  ss_ph :: "nat \<Rightarrow> 'o dphase"
  ss_listed :: "nat set"

datatype sevent = S_Window rwevent | S_Exec u32 u32 | S_Send nat "byte list" | S_Reachable bool | S_Tau

definition after_check ::
    "memory \<Rightarrow> rpcstate_t \<Rightarrow> (nat option \<times> nat) option \<Rightarrow> nat \<Rightarrow> req_header \<Rightarrow> unmarshall \<Rightarrow> 'o handler \<Rightarrow> 'o dphase result" where
  "after_check mem stat out cid h req f =
     (case stat of
        NEW \<Rightarrow> Inr (DRun cid h req f)
      | INPROGRESS \<Rightarrow> Inr (DEnd cid)
      | DONE \<Rightarrow> bind_r (done_src out) (\<lambda>b. Inr (DSend cid b))
      | FORGOTTEN \<Rightarrow> bind_r (failure_reply mem (rq_xid h) atmostonce_failure) (\<lambda>bs. Inr (DSend cid (Local bs))))"

text \<open>
  The first three rules are the outcomes of \<open>got_pdu\<close> with the pool: the job is queued; \<open>reachable_\<close> is cleared between its
  two readings, so that the job is deleted although the pool has it; nothing is queued, because the server is not reachable or
  the pool refuses.  Then come the parts of \<open>dispatch\<close>; the last four rules are the rest of the
  process: \<open>set_reachable\<close>, the listener accepts a connection, a connection changes (it dies, say), the listener
  gives up its reference.
\<close>

inductive srv_step :: "'o srvsys \<Rightarrow> sevent \<Rightarrow> 'o srvsys \<Rightarrow> bool" where
  arrive: "ph t = DIdle \<Longrightarrow> rpcs_got_pdu True True cid buf sz v = Inr (True, v', Queued j) \<Longrightarrow>
     srv_step \<lparr>ss_srv = v, ss_ph = ph, ss_listed = L\<rparr> S_Tau
       \<lparr>ss_srv = v', ss_ph = ph(t := DArrived (dj_conn j) (dj_buf j) (dj_sz j)), ss_listed = L\<rparr>"
| deleted: "ph t = DIdle \<Longrightarrow> rpcs_got_pdu True False cid buf sz v = Inr (True, v', Queued_Freed) \<Longrightarrow>
     srv_step \<lparr>ss_srv = v, ss_ph = ph, ss_listed = L\<rparr> (S_Reachable False)
       \<lparr>ss_srv = rpcs_set_reachable False v', ss_ph = ph(t := DDeleted), ss_listed = L\<rparr>"
| refused: "rpcs_got_pdu succ later cid buf sz v = Inr (r, v', Not_Queued) \<Longrightarrow>
     srv_step \<lparr>ss_srv = v, ss_ph = ph, ss_listed = L\<rparr> S_Tau \<lparr>ss_srv = v', ss_ph = ph, ss_listed = L\<rparr>"
| bad: "ph t = DArrived cid buf sz \<Longrightarrow> dispatch_begin mem buf sz v = Inr Bad_Header \<Longrightarrow>
     srv_step \<lparr>ss_srv = v, ss_ph = ph, ss_listed = L\<rparr> S_Tau \<lparr>ss_srv = v, ss_ph = ph(t := DEnd cid), ss_listed = L\<rparr>"
| old: "ph t = DArrived cid buf sz \<Longrightarrow> dispatch_begin mem buf sz v = Inr (Old_Server bs) \<Longrightarrow>
     send_on cid (Local bs) v = Inr (d, bs') \<Longrightarrow>
     srv_step \<lparr>ss_srv = v, ss_ph = ph, ss_listed = L\<rparr> (S_Send d bs') \<lparr>ss_srv = v, ss_ph = ph(t := DIdle), ss_listed = L\<rparr>"
| found: "ph t = DArrived cid buf sz \<Longrightarrow> dispatch_begin mem buf sz v = Inr (Request h req f) \<Longrightarrow>
     srv_step \<lparr>ss_srv = v, ss_ph = ph, ss_listed = L\<rparr> S_Tau
       \<lparr>ss_srv = v, ss_ph = ph(t := if rq_clt_nonce h \<noteq> 0 then DFound cid h req f else DRun cid h req f), ss_listed = L\<rparr>"
| creating: "ph t = DFound cid h req f \<Longrightarrow>
     srv_step \<lparr>ss_srv = v, ss_ph = ph, ss_listed = L\<rparr> (S_Window (Created (rq_clt_nonce h)))
       \<lparr>ss_srv = v\<lparr>sv_win := create_window (rq_clt_nonce h) (sv_win v)\<rparr>, ss_ph = ph(t := DCreated cid h req f), ss_listed = L\<rparr>"
| saving: "ph t = DCreated cid h req f \<Longrightarrow> save_conn (rq_clt_nonce h) cid v = Inr v' \<Longrightarrow>
     srv_step \<lparr>ss_srv = v, ss_ph = ph, ss_listed = L\<rparr> S_Tau \<lparr>ss_srv = v', ss_ph = ph(t := DSaved cid h req f), ss_listed = L\<rparr>"
| checked: "ph t = DSaved cid h req f \<Longrightarrow>
     checkduplicate_and_update (rq_clt_nonce h) (rq_xid h) (rq_xid_rep h) (sv_win v) = Inr (w, stat, out) \<Longrightarrow>
     after_check mem stat out cid h req f = Inr p \<Longrightarrow>
     srv_step \<lparr>ss_srv = v, ss_ph = ph, ss_listed = L\<rparr>
       (S_Window (Checked (rq_clt_nonce h) (rq_xid h) (rq_xid_rep h) stat out))
       \<lparr>ss_srv = v\<lparr>sv_win := w\<rparr>, ss_ph = ph(t := p), ss_listed = L\<rparr>"
| running: "ph t = DRun cid h req f \<Longrightarrow> execute mem (rq_proc h) req f v = Inr (ret, rep, v') \<Longrightarrow>
     srv_step \<lparr>ss_srv = v, ss_ph = ph, ss_listed = L\<rparr> (S_Exec (rq_clt_nonce h) (rq_xid h))
       \<lparr>ss_srv = v', ss_ph = ph(t := DReturned cid h ret rep), ss_listed = L\<rparr>"
| recording: "ph t = DReturned cid h ret rep \<Longrightarrow> rw_heap (sv_win v) a = None \<Longrightarrow>
     finish_reply mem (rq_xid h) ret rep = Inr bs \<Longrightarrow> record_reply (rq_clt_nonce h) (rq_xid h) a bs v = Inr v' \<Longrightarrow>
     srv_step \<lparr>ss_srv = v, ss_ph = ph, ss_listed = L\<rparr>
       (if rq_clt_nonce h > 0 then S_Window (Replied (rq_clt_nonce h) (rq_xid h) bs) else S_Tau)
       \<lparr>ss_srv = v', ss_ph = ph(t := DRecorded cid (rq_clt_nonce h) (reply_src (rq_clt_nonce h) a bs)), ss_listed = L\<rparr>"
| choosing: "ph t = DRecorded cid clt b \<Longrightarrow> latest_conn clt cid v = Inr (d, v') \<Longrightarrow>
     srv_step \<lparr>ss_srv = v, ss_ph = ph, ss_listed = L\<rparr> S_Tau \<lparr>ss_srv = v', ss_ph = ph(t := DSend d b), ss_listed = L\<rparr>"
| sending: "ph t = DSend cid b \<Longrightarrow> send_on cid b v = Inr (d, bs) \<Longrightarrow>
     srv_step \<lparr>ss_srv = v, ss_ph = ph, ss_listed = L\<rparr> (S_Send d bs) \<lparr>ss_srv = v, ss_ph = ph(t := DEnd cid), ss_listed = L\<rparr>"
| ending: "ph t = DEnd cid \<Longrightarrow> unref_conn cid v = Inr v' \<Longrightarrow>
     srv_step \<lparr>ss_srv = v, ss_ph = ph, ss_listed = L\<rparr> S_Tau \<lparr>ss_srv = v', ss_ph = ph(t := DIdle), ss_listed = L\<rparr>"
| setting: "srv_step \<lparr>ss_srv = v, ss_ph = ph, ss_listed = L\<rparr> (S_Reachable r) \<lparr>ss_srv = rpcs_set_reachable r v, ss_ph = ph, ss_listed = L\<rparr>"
| accepted: "sv_store v cid = None \<Longrightarrow> cid \<notin> L \<Longrightarrow>
     srv_step \<lparr>ss_srv = v, ss_ph = ph, ss_listed = L\<rparr> S_Tau
       \<lparr>ss_srv = v\<lparr>sv_store := (sv_store v)(cid \<mapsto> fst (conn_new fd now lossy))\<rparr>, ss_ph = ph, ss_listed = insert cid L\<rparr>"
| altered: "sv_store v cid = Some c \<Longrightarrow> cn_refno c' = cn_refno c \<Longrightarrow>
     srv_step \<lparr>ss_srv = v, ss_ph = ph, ss_listed = L\<rparr> S_Tau
       \<lparr>ss_srv = v\<lparr>sv_store := (sv_store v)(cid \<mapsto> c')\<rparr>, ss_ph = ph, ss_listed = L\<rparr>"
| unlisted: "cid \<in> L \<Longrightarrow> unref_conn cid v = Inr v' \<Longrightarrow>
     srv_step \<lparr>ss_srv = v, ss_ph = ph, ss_listed = L\<rparr> S_Tau \<lparr>ss_srv = v', ss_ph = ph, ss_listed = L - {cid}\<rparr>"

text \<open>A server that has started: no thread is busy and it has no connection yet.\<close>

definition srv_start :: "'o rpcs \<Rightarrow> 'o srvsys" where
  "srv_start v = \<lparr>ss_srv = v\<lparr>sv_win := rwindow_init, sv_conns := Map.empty, sv_store := Map.empty\<rparr>,
     ss_ph = (\<lambda>_. DIdle), ss_listed = {}\<rparr>"

inductive srv_run :: "'o rpcs \<Rightarrow> sevent list \<Rightarrow> 'o srvsys \<Rightarrow> bool" for v where
  srv_begin: "srv_run v [] (srv_start v)"
| srv_more: "srv_run v es s \<Longrightarrow> srv_step s e s' \<Longrightarrow> srv_run v (es @ [e]) s'"

inductive_cases srv_stepE: "srv_step s e s'"

section \<open>The window inside the server\<close>

text \<open>The operations on connections leave the window alone.\<close>

lemma conn_ops_win [keeps]:
  "ref_conn cid v = Inr v' \<Longrightarrow> sv_win v' = sv_win v"
  "unref_conn cid v = Inr v' \<Longrightarrow> sv_win v' = sv_win v"
  by (auto simp: ref_conn_def unref_conn_def bind_r_eq_Inr)

lemma set_reachable_fields [simp]:
  "sv_win (rpcs_set_reachable r v) = sv_win v" "sv_store (rpcs_set_reachable r v) = sv_store v"
  "sv_conns (rpcs_set_reachable r v) = sv_conns v" "sv_obj (rpcs_set_reachable r v) = sv_obj v"
  "sv_procs (rpcs_set_reachable r v) = sv_procs v"
  by (simp_all add: rpcs_set_reachable_def)

lemma got_pdu_win [keeps]: "rpcs_got_pdu succ later cid b sz v = Inr (r, v', q) \<Longrightarrow> sv_win v' = sv_win v"
  by (auto simp: rpcs_got_pdu_def bind_r_eq_Inr keeps split: if_splits)

lemma save_conn_win [keeps]: "save_conn clt cid v = Inr v' \<Longrightarrow> sv_win v' = sv_win v"
  by (auto simp: save_conn_def bind_r_eq_Inr keeps split: option.splits if_splits)

lemma updatestat_win [keeps]: "updatestat proc v = Inr v' \<Longrightarrow> sv_win v' = sv_win v"
  by (auto simp: updatestat_def Let_def split: if_splits)

lemma execute_win [keeps]: "execute mem proc req f v = Inr (ret, rep, v') \<Longrightarrow> sv_win v' = sv_win v"
  by (auto simp: execute_def bind_r_eq_Inr keeps split: if_splits)

lemma latest_conn_win [keeps]: "latest_conn clt cid v = Inr (d, v') \<Longrightarrow> sv_win v' = sv_win v"
  by (auto simp: latest_conn_def bind_r_eq_Inr keeps split: option.splits if_splits)

text \<open>The request that a thread is executing, and the client whose window it has created.\<close>

primrec executing :: "'o dphase \<Rightarrow> (u32 \<times> u32) option" where
  "executing DIdle = None"
| "executing (DArrived cid buf sz) = None"
| "executing (DFound cid h req f) = None"
| "executing (DCreated cid h req f) = None"
| "executing (DSaved cid h req f) = None"
| "executing (DRun cid h req f) = (if rq_clt_nonce h = 0 then None else Some (rq_clt_nonce h, rq_xid h))"
| "executing (DReturned cid h ret rep) = (if rq_clt_nonce h = 0 then None else Some (rq_clt_nonce h, rq_xid h))"
| "executing (DRecorded cid clt b) = None"
| "executing (DSend cid b) = None"
| "executing (DEnd cid) = None"
| "executing DDeleted = None"

primrec prepared :: "'o dphase \<Rightarrow> u32 option" where
  "prepared DIdle = None"
| "prepared (DArrived cid buf sz) = None"
| "prepared (DFound cid h req f) = None"
| "prepared (DCreated cid h req f) = Some (rq_clt_nonce h)"
| "prepared (DSaved cid h req f) = Some (rq_clt_nonce h)"
| "prepared (DRun cid h req f) = None"
| "prepared (DReturned cid h ret rep) = None"
| "prepared (DRecorded cid clt b) = None"
| "prepared (DSend cid b) = None"
| "prepared (DEnd cid) = None"
| "prepared DDeleted = None"

definition pending :: "(nat \<Rightarrow> 'o dphase) \<Rightarrow> (u32 \<times> u32) set" where
  "pending ph = {k. \<exists>t. executing (ph t) = Some k}"

definition srv_window :: "'o srvsys \<Rightarrow> rwsys" where
  "srv_window s = \<lparr>rs_win = sv_win (ss_srv s), rs_pending = pending (ss_ph s)\<rparr>"

definition win_inv :: "'o srvsys \<Rightarrow> bool" where
  "win_inv s \<longleftrightarrow> rw_ok (srv_window s)
     \<and> (\<forall>t u k. executing (ss_ph s t) = Some k \<longrightarrow> executing (ss_ph s u) = Some k \<longrightarrow> t = u)
     \<and> (\<forall>t c. prepared (ss_ph s t) = Some c \<longrightarrow> c \<noteq> 0 \<and> reply_window (sv_win (ss_srv s)) c \<noteq> None)
     \<and> (\<forall>t cid h req f. ss_ph s t = DFound cid h req f \<longrightarrow> rq_clt_nonce h \<noteq> 0)"

lemma create_window_present: "reply_window w c \<noteq> None \<Longrightarrow> create_window c w = w"
  by (auto simp: create_window_def)

lemma create_window_creates: "reply_window (create_window c w) c \<noteq> None"
  by (simp add: create_window_def split: option.split)

lemma rw_step_window_mono:
  assumes "rw_ok s" "rw_step s e s'" "reply_window (rs_win s) c \<noteq> None"
  shows "reply_window (rs_win s') c \<noteq> None"
  using assms(1,2) by (cases rule: rw_step_cases) (use assms(3) in \<open>auto simp: create_window_mono reply_state_def\<close>)

lemma pending_same: "executing p = executing (ph t) \<Longrightarrow> pending (ph(t := p)) = pending ph"
  unfolding pending_def by (intro Collect_cong) (metis fun_upd_apply)

lemma pending_start:
  assumes "executing (ph t) = None" "executing p = Some k"
  shows "pending (ph(t := p)) = insert k (pending ph)"
proof -
  have "j \<in> pending (ph(t := p)) \<longleftrightarrow> j = k \<or> j \<in> pending ph" for j
    using assms unfolding pending_def mem_Collect_eq by (metis fun_upd_apply option.distinct(1) option.inject)
  then show ?thesis by blast
qed

lemma pending_end:
  assumes "executing (ph t) = Some k" "executing p = None" "\<And>u. executing (ph u) = Some k \<Longrightarrow> u = t"
  shows "pending (ph(t := p)) = pending ph - {k}"
proof -
  have "j \<in> pending (ph(t := p)) \<longleftrightarrow> j \<in> pending ph \<and> j \<noteq> k" for j
    using assms unfolding pending_def mem_Collect_eq by (metis fun_upd_apply option.distinct(1) option.inject)
  then show ?thesis by blast
qed

lemma after_check_phase:
  assumes "after_check mem stat out cid h req f = Inr p" "rq_clt_nonce h \<noteq> 0"
  shows "executing p = (if stat = NEW then Some (rq_clt_nonce h, rq_xid h) else None)" "prepared p = None"
    "p \<noteq> DFound cid' h' req' f'"
  using assms by (auto simp: after_check_def bind_r_eq_Inr split: rpcstate_t.splits)

text \<open>A step of the server is a step of the window, or invisible to it.\<close>

primrec window_event :: "sevent \<Rightarrow> rwevent list" where
  "window_event (S_Window e) = [e]"
| "window_event (S_Exec c x) = []"
| "window_event (S_Send d bs) = []"
| "window_event (S_Reachable r) = []"
| "window_event S_Tau = []"

lemma srv_step_window:
  assumes inv: "win_inv s" and step: "srv_step s e s'"
  shows "(\<exists>we. window_event e = [we] \<and> rw_step (srv_window s) we (srv_window s'))
    \<or> window_event e = [] \<and> srv_window s' = srv_window s"
  using step
proof cases
  case (checked ph t cid h req f v w stat out mem p L)
  let ?P = "pending ph"
  have p: "prepared (ph t) = Some (rq_clt_nonce h)" "executing (ph t) = None" using checked by simp_all
  then have c: "rq_clt_nonce h \<noteq> 0" "reply_window (sv_win v) (rq_clt_nonce h) \<noteq> None"
    using inv checked(1) unfolding win_inv_def by fastforce+
  have "checkduplicate_and_update (rq_clt_nonce h) (rq_xid h) (rq_xid_rep h) (create_window (rq_clt_nonce h) (sv_win v))
      = Inr (w, stat, out)"
    using checked create_window_present [OF c(2)] by simp
  from rw_step.check [OF this, of ?P]
  have "rw_step (srv_window s) (Checked (rq_clt_nonce h) (rq_xid h) (rq_xid_rep h) stat out)
      \<lparr>rs_win = w, rs_pending = (if stat = NEW then insert (rq_clt_nonce h, rq_xid h) ?P else ?P)\<rparr>"
    using checked(1) by (simp add: srv_window_def)
  moreover have "srv_window s' = \<lparr>rs_win = w, rs_pending = (if stat = NEW then insert (rq_clt_nonce h, rq_xid h) ?P else ?P)\<rparr>"
    using checked(3) p(2) after_check_phase(1) [OF checked(6) c(1)]
      pending_start [of ph t p "(rq_clt_nonce h, rq_xid h)"] pending_same [of p ph t]
    by (cases "stat = NEW") (simp_all add: srv_window_def)
  ultimately show ?thesis using checked(2) by simp
next
  case (recording ph t cid h ret rep v a mem bs v' L)
  show ?thesis
  proof (cases "rq_clt_nonce h = 0")
    case True
    then show ?thesis using recording by (simp add: srv_window_def record_reply_def pending_same)
  next
    case False
    let ?k = "(rq_clt_nonce h, rq_xid h)"
    have k: "executing (ph t) = Some ?k" using recording False by simp
    have u: "u = t" if "executing (ph u) = Some ?k" for u
      using inv recording(1) k that unfolding win_inv_def by fastforce
    obtain w where w: "add_reply (rq_clt_nonce h) (rq_xid h) (Some a) (length bs)
        ((sv_win v)\<lparr>rw_heap := (rw_heap (sv_win v))(a \<mapsto> bs)\<rparr>) = Inr w" "v' = v\<lparr>sv_win := w\<rparr>"
      using recording(7) False by (auto simp: record_reply_def bind_r_eq_Inr word_greater_zero_iff)
    have "rw_step (srv_window s) (Replied (rq_clt_nonce h) (rq_xid h) bs)
        \<lparr>rs_win = w, rs_pending = pending ph - {?k}\<rparr>"
      unfolding srv_window_def using recording(1,5) k w(1) by (auto simp: pending_def intro!: rw_step.reply)
    moreover have "srv_window s' = \<lparr>rs_win = w, rs_pending = pending ph - {?k}\<rparr>"
    proof -
      have "executing (DRecorded cid (rq_clt_nonce h) (reply_src (rq_clt_nonce h) a bs) :: 'a dphase) = None" by simp
      then have "pending (ph(t := DRecorded cid (rq_clt_nonce h) (reply_src (rq_clt_nonce h) a bs))) = pending ph - {?k}"
        by (rule pending_end [of ph t ?k, OF k _ u])
      then show ?thesis using recording(3) w(2) by (simp add: srv_window_def)
    qed
    ultimately show ?thesis using recording(2) False by (simp add: word_greater_zero_iff)
  qed
next
  case (creating ph t cid h req f v L)
  then show ?thesis by (simp add: srv_window_def pending_same rw_step.create)
qed (auto simp: srv_window_def pending_same dest: keeps)

lemma rw_pending_seen: "rw_ok s \<Longrightarrow> k \<in> rs_pending s \<Longrightarrow> k \<in> rw_seen (rs_win s)"
  unfolding rw_ok_def by blast

lemma win_inv_ok: "win_inv s \<Longrightarrow> rw_ok (srv_window s)"
  by (simp add: win_inv_def)

lemma win_inv_unique: "win_inv s \<Longrightarrow> executing (ss_ph s t) = Some k \<Longrightarrow> executing (ss_ph s u) = Some k \<Longrightarrow> t = u"
  unfolding win_inv_def by blast

lemma win_inv_prepared:
  "win_inv s \<Longrightarrow> prepared (ss_ph s t) = Some c \<Longrightarrow> c \<noteq> 0 \<and> reply_window (sv_win (ss_srv s)) c \<noteq> None"
  unfolding win_inv_def by blast

lemma srv_step_window_mono:
  assumes "win_inv s" "srv_step s e s'" "reply_window (sv_win (ss_srv s)) c \<noteq> None"
  shows "reply_window (sv_win (ss_srv s')) c \<noteq> None"
proof -
  have "reply_window (rs_win (srv_window s)) c \<noteq> None" using assms(3) by (simp add: srv_window_def)
  then have "reply_window (rs_win (srv_window s')) c \<noteq> None"
    using srv_step_window [OF assms(1,2)] rw_step_window_mono [OF win_inv_ok [OF assms(1)]] by metis
  then show ?thesis by (simp add: srv_window_def)
qed

text \<open>One phase changes in a step; the new one starts or prepares a request only as the rules say.\<close>

definition phase_ok :: "'o srvsys \<Rightarrow> 'o srvsys \<Rightarrow> nat \<Rightarrow> bool" where
  "phase_ok s s' t \<longleftrightarrow>
     (executing (ss_ph s' t) = executing (ss_ph s t) \<or> executing (ss_ph s' t) = None
        \<or> (\<exists>k. executing (ss_ph s' t) = Some k \<and> k \<notin> pending (ss_ph s)))
   \<and> (\<forall>c. prepared (ss_ph s' t) = Some c \<longrightarrow> c \<noteq> 0 \<and> reply_window (sv_win (ss_srv s')) c \<noteq> None)
   \<and> (\<forall>cid h req f. ss_ph s' t = DFound cid h req f \<longrightarrow> rq_clt_nonce h \<noteq> 0)"

lemma srv_step_phase:
  assumes inv: "win_inv s" and step: "srv_step s e s'"
  obtains t where "\<And>u. u \<noteq> t \<Longrightarrow> ss_ph s' u = ss_ph s u" "phase_ok s s' t"
  using step
proof cases
  case (checked ph t cid h req f v w stat out mem p L)
  have p: "prepared (ss_ph s t) = Some (rq_clt_nonce h)" using checked by simp
  then have c: "rq_clt_nonce h \<noteq> 0" using win_inv_prepared [OF inv p] by simp
  have "(rq_clt_nonce h, rq_xid h) \<notin> pending ph" if "stat = NEW"
  proof -
    obtain we where "window_event e = [we]" "rw_step (srv_window s) we (srv_window s')"
      using srv_step_window [OF inv step] checked(2) by auto
    then have "(rq_clt_nonce h, rq_xid h) \<notin> rw_seen (rs_win (srv_window s))"
      using window.fresh_unseen [OF win_inv_ok [OF inv]] checked(2) that by fastforce
    then show ?thesis using rw_pending_seen [OF win_inv_ok [OF inv]] checked(1) by (auto simp: srv_window_def)
  qed
  then have "phase_ok s s' t" using checked(1,3) after_check_phase [OF checked(6) c] by (auto simp: phase_ok_def)
  then show thesis using that [of t] checked(1,3) by simp
next
  case (saving ph t cid h req f v v' L)
  then have "prepared (ss_ph s t) = Some (rq_clt_nonce h)" by simp
  from win_inv_prepared [OF inv this] show thesis
    using that [of t] saving by (simp add: phase_ok_def save_conn_win)
next
  case (creating ph t cid h req f v L)
  then have "rq_clt_nonce h \<noteq> 0" using inv unfolding win_inv_def by fastforce
  then show thesis using that [of t] creating create_window_creates by (simp add: phase_ok_def)
next
  case (found ph t cid buf sz mem v h req f L)
  then show thesis using that [of t] by (simp add: phase_ok_def)
next
  case (refused succ later cid buf sz v r v' ph L)
  then show thesis using that [of 0] inv by (auto simp: phase_ok_def win_inv_def keeps)
next
  case (setting v ph L r)
  then show thesis using that [of 0] inv by (auto simp: phase_ok_def win_inv_def)
next
  case (accepted v cid L ph fd now lossy)
  then show thesis using that [of 0] inv by (auto simp: phase_ok_def win_inv_def)
next
  case (altered v cid c c' ph L)
  then show thesis using that [of 0] inv by (auto simp: phase_ok_def win_inv_def)
next
  case (unlisted cid L v v' ph)
  then show thesis using that [of 0] inv by (auto simp: phase_ok_def win_inv_def keeps)
qed (auto simp: phase_ok_def intro!: that)

lemma win_inv_step:
  assumes inv: "win_inv s" and step: "srv_step s e s'"
  shows "win_inv s'"
proof -
  obtain t where other: "\<And>u. u \<noteq> t \<Longrightarrow> ss_ph s' u = ss_ph s u" and t: "phase_ok s s' t"
    using srv_step_phase [OF inv step] by blast
  have "rw_ok (srv_window s')" using srv_step_window [OF inv step] win_inv_ok [OF inv] rw_ok_step by metis
  moreover have "u = u'" if k: "executing (ss_ph s' u) = Some k" "executing (ss_ph s' u') = Some k" for u u' k
  proof -
    have old: "executing (ss_ph s x) = Some k" if "x \<noteq> t" "executing (ss_ph s' x) = Some k" for x
      using that other by simp
    then have "u = t \<or> executing (ss_ph s u) = Some k" "u' = t \<or> executing (ss_ph s u') = Some k"
      using k by blast+
    moreover have "executing (ss_ph s t) = Some k \<or> k \<notin> pending (ss_ph s)" if "u = t \<or> u' = t"
      using t that k unfolding phase_ok_def by auto
    ultimately show ?thesis using win_inv_unique [OF inv] unfolding pending_def by blast
  qed
  moreover have "c \<noteq> 0 \<and> reply_window (sv_win (ss_srv s')) c \<noteq> None" if "prepared (ss_ph s' u) = Some c" for u c
  proof (cases "u = t")
    case True
    then show ?thesis using t that unfolding phase_ok_def by blast
  next
    case False
    then have "prepared (ss_ph s u) = Some c" using that other by simp
    then show ?thesis using win_inv_prepared [OF inv] srv_step_window_mono [OF inv step] by blast
  qed
  moreover have "rq_clt_nonce h \<noteq> 0" if "ss_ph s' u = DFound cid h req f" for u cid h req f
    using that other t inv unfolding phase_ok_def win_inv_def by metis
  ultimately show ?thesis unfolding win_inv_def by blast
qed

lemma win_inv_start: "win_inv (srv_start v)"
  using rw_ok_init by (simp add: win_inv_def srv_start_def srv_window_def pending_def)

lemma srv_run_inv: "srv_run v es s \<Longrightarrow> win_inv s"
  by (induction rule: srv_run.induct) (auto intro: win_inv_start win_inv_step)

lemma srv_run_window: "srv_run v es s \<Longrightarrow> rw_run (concat (map window_event es)) (srv_window s)"
proof (induction rule: srv_run.induct)
  case srv_begin
  then show ?case using rw_run.start by (simp add: srv_start_def srv_window_def pending_def)
next
  case (srv_more es s e s')
  then show ?case using srv_step_window [OF srv_run_inv [OF srv_more.hyps(1)] srv_more.hyps(2)] rw_run.more by fastforce
qed

section \<open>Handlers run at most once\<close>

text \<open>A handler that is about to run was seen by the window but has not run.\<close>

primrec about_to_run :: "'o dphase \<Rightarrow> (u32 \<times> u32) option" where
  "about_to_run DIdle = None"
| "about_to_run (DArrived cid buf sz) = None"
| "about_to_run (DFound cid h req f) = None"
| "about_to_run (DCreated cid h req f) = None"
| "about_to_run (DSaved cid h req f) = None"
| "about_to_run (DRun cid h req f) = (if rq_clt_nonce h = 0 then None else Some (rq_clt_nonce h, rq_xid h))"
| "about_to_run (DReturned cid h ret rep) = None"
| "about_to_run (DRecorded cid clt b) = None"
| "about_to_run (DSend cid b) = None"
| "about_to_run (DEnd cid) = None"
| "about_to_run DDeleted = None"

definition has_run :: "'o srvsys \<Rightarrow> (u32 \<times> u32) set" where
  "has_run s = rw_seen (sv_win (ss_srv s)) - {k. \<exists>t. about_to_run (ss_ph s t) = Some k}"

primrec exec_of :: "sevent \<Rightarrow> (u32 \<times> u32) option" where
  "exec_of (S_Window e) = None"
| "exec_of (S_Exec c x) = (if c = 0 then None else Some (c, x))"
| "exec_of (S_Send d bs) = None"
| "exec_of (S_Reachable r) = None"
| "exec_of S_Tau = None"

lemma about_to_run_executing: "about_to_run p = Some k \<Longrightarrow> executing p = Some k"
  by (cases p) (auto split: if_splits)

lemma after_check_run: "after_check mem stat out cid h req f = Inr p \<Longrightarrow> about_to_run p = Some k \<Longrightarrow> k = (rq_clt_nonce h, rq_xid h) \<and> stat = NEW"
  by (auto simp: after_check_def bind_r_eq_Inr split: rpcstate_t.splits if_splits)

lemma srv_seen_mono:
  assumes "win_inv s" "srv_step s e s'"
  shows "rw_seen (sv_win (ss_srv s)) \<subseteq> rw_seen (sv_win (ss_srv s'))"
  using srv_step_window [OF assms] window.seen_mono [OF win_inv_ok [OF assms(1)]]
  by (fastforce simp: srv_window_def)

lemma starts_unseen:
  assumes inv: "win_inv s" and step: "srv_step s e s'"
    and k: "about_to_run (ss_ph s' t) = Some k"
  shows "about_to_run (ss_ph s t) = Some k \<or> k \<notin> rw_seen (sv_win (ss_srv s))"
  using step
proof cases
  case (checked ph u cid h req f v w stat out mem p L)
  show ?thesis
  proof (cases "u = t")
    case True
    then have p: "k = (rq_clt_nonce h, rq_xid h)" "stat = NEW" using k checked(3) after_check_run [OF checked(6)] by auto
    obtain we where "window_event e = [we]" "rw_step (srv_window s) we (srv_window s')"
      using srv_step_window [OF inv step] checked(2) by auto
    then have "k \<notin> rw_seen (rs_win (srv_window s))"
      using window.fresh_unseen [OF win_inv_ok [OF inv]] checked(2) p by fastforce
    then show ?thesis by (simp add: srv_window_def)
  next
    case False
    then show ?thesis using k checked by simp
  qed
qed (use k in \<open>auto split: if_splits\<close>)

interpretation handlers: once_filter srv_step win_inv exec_of has_run
proof
  fix s e s' assume inv: "win_inv s" and step: "srv_step (s :: 'a srvsys) e s'"
  show "win_inv s'" using inv step by (rule win_inv_step)
  show "has_run s \<subseteq> has_run s'"
    using starts_unseen [OF inv step] srv_seen_mono [OF inv step] unfolding has_run_def by blast
  show "k \<notin> has_run s \<and> k \<in> has_run s'" if "exec_of e = Some k" for k
    using step
  proof cases
    case (running ph t cid h req f mem v ret rep v' L)
    then have c: "rq_clt_nonce h \<noteq> 0" "k = (rq_clt_nonce h, rq_xid h)" using that by (auto split: if_splits)
    then have a: "about_to_run (ss_ph s t) = Some k" using running by simp
    have ex: "executing (ss_ph s t) = Some k" using a by (rule about_to_run_executing)
    then have "k \<in> pending (ss_ph s)" unfolding pending_def by blast
    then have "k \<in> rw_seen (sv_win (ss_srv s))" using rw_pending_seen [OF win_inv_ok [OF inv]] by (simp add: srv_window_def)
    then have "k \<in> rw_seen (sv_win (ss_srv s'))" using srv_seen_mono [OF inv step] by blast
    moreover have "about_to_run (ss_ph s' u) \<noteq> Some k" for u
    proof (cases "u = t")
      case True
      then show ?thesis using running by simp
    next
      case False
      then have "executing (ss_ph s u) \<noteq> Some k" using win_inv_unique [OF inv ex] by blast
      then show ?thesis using running False about_to_run_executing by fastforce
    qed
    ultimately show ?thesis using a unfolding has_run_def by blast
  next
    case (recording ph t cid h ret rep v a mem bs v' L)
    then show ?thesis using that by (auto split: if_splits)
  qed (use that in auto)
qed

lemma srv_run_path: "srv_run v es s \<Longrightarrow> handlers.path (srv_start v) es s"
  by (induction rule: srv_run.induct) (auto simp: handlers.path_append)

section \<open>References to connections\<close>

datatype holder = By_Thread nat | By_Client u32 | By_Listener nat

text \<open>The connection that a thread holds a reference to.\<close>

primrec holds :: "'o dphase \<Rightarrow> nat option" where
  "holds DIdle = None"
| "holds (DArrived cid buf sz) = Some cid"
| "holds (DFound cid h req f) = Some cid"
| "holds (DCreated cid h req f) = Some cid"
| "holds (DSaved cid h req f) = Some cid"
| "holds (DRun cid h req f) = Some cid"
| "holds (DReturned cid h ret rep) = Some cid"
| "holds (DRecorded cid clt b) = Some cid"
| "holds (DSend cid b) = Some cid"
| "holds (DEnd cid) = Some cid"
| "holds DDeleted = None"

primrec owner :: "(u32 \<rightharpoonup> nat) \<Rightarrow> (nat \<Rightarrow> 'o dphase) \<Rightarrow> nat set \<Rightarrow> holder \<Rightarrow> nat option" where
  "owner conns ph L (By_Thread t) = holds (ph t)"
| "owner conns ph L (By_Client c) = conns c"
| "owner conns ph L (By_Listener cid) = (if cid \<in> L then Some cid else None)"

definition refs_ok :: "'o srvsys \<Rightarrow> bool" where
  "refs_ok s \<longleftrightarrow> counted (sv_store (ss_srv s)) (owner (sv_conns (ss_srv s)) (ss_ph s) (ss_listed s))"

lemma owner_thread: "owner conns (ph(t := p)) L = (owner conns ph L)(By_Thread t := holds p)"
proof
  show "owner conns (ph(t := p)) L k = ((owner conns ph L)(By_Thread t := holds p)) k" for k by (cases k) auto
qed

lemma owner_client: "owner (conns(c := v)) ph L = (owner conns ph L)(By_Client c := v)"
proof
  show "owner (conns(c := v)) ph L k = ((owner conns ph L)(By_Client c := v)) k" for k by (cases k) auto
qed

lemma owner_listener:
  "owner conns ph (insert cid L) = (owner conns ph L)(By_Listener cid \<mapsto> cid)"
  "owner conns ph (L - {cid}) = (owner conns ph L)(By_Listener cid := None)"
proof -
  show "owner conns ph (insert cid L) = (owner conns ph L)(By_Listener cid \<mapsto> cid)"
  proof
    show "owner conns ph (insert cid L) k = ((owner conns ph L)(By_Listener cid \<mapsto> cid)) k" for k by (cases k) auto
  qed
  show "owner conns ph (L - {cid}) = (owner conns ph L)(By_Listener cid := None)"
  proof
    show "owner conns ph (L - {cid}) k = ((owner conns ph L)(By_Listener cid := None)) k" for k by (cases k) auto
  qed
qed

lemmas owner_updates = owner_thread owner_client owner_listener

lemma owner_same_holds: "holds p = holds (ph t) \<Longrightarrow> owner conns (ph(t := p)) L = owner conns ph L"
  unfolding owner_thread by (rule ext) (auto simp: fun_upd_def)

text \<open>What taking and giving up a reference does to the store.\<close>

lemma ref_conn_counted:
  assumes "ref_conn cid v = Inr v'" "counted (sv_store v) ow" "ow k = None"
  shows "counted (sv_store v') (ow(k \<mapsto> cid))" "sv_conns v' = sv_conns v"
  using assms st_ref_counted by (auto simp: ref_conn_def bind_r_eq_Inr)

lemma unref_conn_counted:
  assumes "unref_conn cid v = Inr v'" "counted (sv_store v) ow" "ow k = Some cid"
  shows "counted (sv_store v') (ow(k := None))" "sv_conns v' = sv_conns v"
  using assms st_unref_counted by (auto simp: unref_conn_def bind_r_eq_Inr)

lemma save_conn_counted:
  assumes "save_conn c cid v = Inr v'" "counted (sv_store v) (owner (sv_conns v) ph L)"
  shows "counted (sv_store v') (owner (sv_conns v') ph L)"
proof (cases "sv_conns v c")
  case None
  then obtain u where u: "ref_conn cid v = Inr u" "v' = u\<lparr>sv_conns := (sv_conns u)(c \<mapsto> cid)\<rparr>"
    using assms(1) by (auto simp: save_conn_def bind_r_eq_Inr)
  then show ?thesis using ref_conn_counted [OF u(1) assms(2), of "By_Client c"] None by (simp add: owner_client)
next
  case (Some old)
  show ?thesis
  proof (cases "v' = v")
    case True
    then show ?thesis using assms(2) by simp
  next
    case False
    then obtain u w where u: "unref_conn old v = Inr u" "ref_conn cid u = Inr w" "v' = w\<lparr>sv_conns := (sv_conns w)(c \<mapsto> cid)\<rparr>"
      using assms(1) Some by (auto simp: save_conn_def bind_r_eq_Inr split: if_splits)
    have 1: "counted (sv_store u) ((owner (sv_conns v) ph L)(By_Client c := None))" "sv_conns u = sv_conns v"
      using unref_conn_counted [OF u(1) assms(2), of "By_Client c"] Some by simp_all
    show ?thesis using ref_conn_counted [OF u(2) 1(1), of "By_Client c"] u(3) 1(2) by (simp add: owner_client)
  qed
qed

lemma latest_conn_counted:
  assumes "latest_conn clt cid v = Inr (d, v')" "counted (sv_store v) ow" "ow k = Some cid"
  shows "counted (sv_store v') (ow(k \<mapsto> d))" "sv_conns v' = sv_conns v"
proof -
  have "counted (sv_store v') (ow(k \<mapsto> d)) \<and> sv_conns v' = sv_conns v"
  proof (cases "v' = v \<and> d = cid")
    case True
    then show ?thesis using assms(2,3) by (simp add: fun_upd_idem)
  next
    case False
    then obtain u where u: "unref_conn cid v = Inr u" "ref_conn d u = Inr v'"
      using assms(1) by (auto simp: latest_conn_def bind_r_eq_Inr split: if_splits option.splits)
    note 1 = unref_conn_counted [OF u(1) assms(2,3)]
    show ?thesis using ref_conn_counted [OF u(2) 1(1), of k] 1(2) by simp
  qed
  then show "counted (sv_store v') (ow(k \<mapsto> d))" "sv_conns v' = sv_conns v" by simp_all
qed

lemma execute_store:
  "execute mem proc req f v = Inr (ret, rep, v') \<Longrightarrow> sv_store v' = sv_store v \<and> sv_conns v' = sv_conns v"
  by (auto simp: execute_def updatestat_def Let_def bind_r_eq_Inr split: if_splits)

lemma record_reply_store:
  "record_reply c x a bs v = Inr v' \<Longrightarrow> sv_store v' = sv_store v \<and> sv_conns v' = sv_conns v"
  by (auto simp: record_reply_def bind_r_eq_Inr split: if_splits)

lemma after_check_holds: "after_check mem stat out cid h req f = Inr p \<Longrightarrow> holds p = Some cid"
  by (auto simp: after_check_def bind_r_eq_Inr split: rpcstate_t.splits)

lemma got_pdu_gave_up:
  assumes "rpcs_got_pdu succ later cid buf sz v = Inr (r, v', q)" "q = Queued_Freed \<or> q = Not_Queued" "counted (sv_store v) ow"
  shows "counted (sv_store v') ow" "sv_conns v' = sv_conns v"
proof -
  have "counted (sv_store v') ow \<and> sv_conns v' = sv_conns v"
  proof (cases "v' = v")
    case True
    then show ?thesis using assms(3) by simp
  next
    case False
    then obtain u where "ref_conn cid v = Inr u" "unref_conn cid u = Inr v'"
      using assms(1,2) by (auto simp: rpcs_got_pdu_def bind_r_eq_Inr split: if_splits)
    then show ?thesis using st_ref_unref_counted [OF _ _ assms(3)] by (auto simp: ref_conn_def unref_conn_def bind_r_eq_Inr)
  qed
  then show "counted (sv_store v') ow" "sv_conns v' = sv_conns v" by simp_all
qed

lemma refs_ok_step:
  assumes ok: "refs_ok s" and step: "srv_step s e s'"
  shows "refs_ok s'"
  using step
proof cases
  case (arrive ph t cid buf sz v v' j L)
  have r: "ref_conn cid v = Inr v'" "dj_conn j = cid"
    using arrive(5) by (auto simp: rpcs_got_pdu_def bind_r_eq_Inr split: if_splits)
  show ?thesis using ref_conn_counted [OF r(1), of "owner (sv_conns v) ph L" "By_Thread t"] ok arrive(1,3,4) r(2)
    by (simp add: refs_ok_def owner_thread)
next
  case (deleted ph t cid buf sz v v' L)
  then show ?thesis using ok got_pdu_gave_up [OF deleted(5), of "owner (sv_conns v) ph L"] by (simp add: refs_ok_def owner_same_holds)
next
  case (refused succ later cid buf sz v r v' ph L)
  then show ?thesis using ok got_pdu_gave_up [OF refused(4), of "owner (sv_conns v) ph L"] by (simp add: refs_ok_def)
next
  case (old ph t cid buf sz mem v bs d bs' L)
  then show ?thesis using ok by (simp add: refs_ok_def owner_thread counted_forget)
next
  case (saving ph t cid h req f v v' L)
  then show ?thesis using save_conn_counted [OF saving(5)] ok by (simp add: refs_ok_def owner_same_holds)
next
  case (checked ph t cid h req f v w stat out mem p L)
  then show ?thesis using ok after_check_holds [OF checked(6)] by (simp add: refs_ok_def owner_same_holds)
next
  case (running ph t cid h req f mem v ret rep v' L)
  then show ?thesis using ok execute_store [OF running(5)] by (simp add: refs_ok_def owner_same_holds)
next
  case (recording ph t cid h ret rep v a mem bs v' L)
  then show ?thesis using ok record_reply_store [OF recording(7)] by (simp add: refs_ok_def owner_same_holds)
next
  case (choosing ph t cid clt b v d v' L)
  then show ?thesis using ok latest_conn_counted [OF choosing(5), of "owner (sv_conns v) ph L" "By_Thread t"]
    by (simp add: refs_ok_def owner_thread)
next
  case (ending ph t cid v v' L)
  then show ?thesis using ok unref_conn_counted [OF ending(5), of "owner (sv_conns v) ph L" "By_Thread t"]
    by (simp add: refs_ok_def owner_thread)
next
  case (accepted v cid L ph fd now lossy)
  then show ?thesis using ok counted_new [of "sv_store v" "owner (sv_conns v) ph L" cid "By_Listener cid"]
    by (simp add: refs_ok_def owner_listener)
next
  case (altered v cid c c' ph L)
  then show ?thesis using ok counted_alter by (simp add: refs_ok_def)
next
  case (unlisted cid L v v' ph)
  then show ?thesis using ok unref_conn_counted [OF unlisted(5), of "owner (sv_conns v) ph L" "By_Listener cid"]
    by (simp add: refs_ok_def owner_listener)
qed (use ok in \<open>simp_all add: refs_ok_def owner_same_holds\<close>)

lemma srv_run_refs: "srv_run v es s \<Longrightarrow> refs_ok s"
proof (induction rule: srv_run.induct)
  case srv_begin
  have "owner Map.empty (\<lambda>_. DIdle :: 'a dphase) {} k = None" for k by (cases k) auto
  then show ?case by (simp add: refs_ok_def srv_start_def counted_def)
qed (rule refs_ok_step)

text \<open>A thread has a deleted job only if the server was made unreachable; then it can have one.\<close>

lemma srv_step_deleted:
  assumes "srv_step s e s'" "ss_ph s' t = DDeleted"
  shows "ss_ph s t = DDeleted \<or> e = S_Reachable False"
  using assms(1)
proof cases
  case (checked ph u cid h req f v w stat out mem p L)
  then show ?thesis using assms(2) after_check_holds [OF checked(6)] by (cases "u = t") auto
qed (use assms(2) in \<open>auto split: if_splits\<close>)

lemma srv_run_deleted: "srv_run v es s \<Longrightarrow> ss_ph s t = DDeleted \<Longrightarrow> S_Reachable False \<in> set es"
proof (induction rule: srv_run.induct)
  case (srv_more es s e s')
  then show ?case using srv_step_deleted [OF srv_more.hyps(2) srv_more.prems] by auto
qed (simp add: srv_start_def)

lemma srvsys_eta [simp]: "\<lparr>ss_srv = ss_srv s, ss_ph = ss_ph s, ss_listed = ss_listed s\<rparr> = s"
  by simp

lemma deleted_job_reachable:
  assumes "srv_run v es s" "sv_reachable (ss_srv s)" "ss_ph s t = DIdle" "sv_store (ss_srv s) cid = Some c" "0 < cn_refno c"
  shows "\<exists>s'. srv_run v (es @ [S_Reachable False]) s' \<and> ss_ph s' t = DDeleted \<and> sv_store (ss_srv s') = sv_store (ss_srv s)"
proof -
  have "incref c\<lparr>cn_refno := cn_refno c\<rparr> = c" by (simp add: incref_def)
  then have "rpcs_got_pdu True False cid buf sz (ss_srv s) = Inr (True, ss_srv s, Queued_Freed)" for buf sz
    using assms(2,4,5) by (simp add: rpcs_got_pdu_def ref_conn_def unref_conn_def st_ops decref_def incref_def Let_def VERIFY_def fun_upd_idem)
  from srv_step.deleted [where ph = "ss_ph s" and L = "ss_listed s", OF assms(3) this] have "srv_step s (S_Reachable False)
      \<lparr>ss_srv = rpcs_set_reachable False (ss_srv s), ss_ph = (ss_ph s)(t := DDeleted), ss_listed = ss_listed s\<rparr>"
    by simp
  from srv_more [OF assms(1) this] show ?thesis by (intro exI conjI) (assumption | simp)+
qed

section \<open>One request at a time\<close>

lemma dispatch_begin_request:
  assumes "req_msg h body bs" "length bs < 2 ^ 31" "rq_srv_nonce h = 0 \<or> rq_srv_nonce h = sv_nonce s"
    "sv_procs s (rq_proc h) = Some f"
  obtains u where "dispatch_begin mem (bs @ slack) (length bs) s = Inr (Request h u f)" "u_at u body"
proof -
  obtain u where "unpack_req_header (unmarshall_new (Some (bs @ slack)) (length bs)) = Inr (u, h)" "u_at u body"
    using req_msg_unpack [OF assms(1,2)] by blast
  moreover from this have "u_ok u" by (simp add: u_at_def)
  ultimately show ?thesis using assms(3,4) that by (auto simp: dispatch_begin_def)
qed

lemma finish_reply_msg:
  assumes "m_wf rep" "0 \<le> sint ret"
  obtains bs where "finish_reply mem xid ret rep = Inr bs" "reply_msg \<lparr>rp_xid = xid, rp_ret = ret\<rparr> (m_body rep) bs"
    "length bs = m_ind rep"
proof -
  from assms(1) obtain b where b: "m_buf rep = Some b" by (rule m_wfE)
  define rep' where "rep' = rep\<lparr>m_buf := Some (overwrite 4 (enc_reply_header \<lparr>rp_xid = xid, rp_ret = ret\<rparr>) b)\<rparr>"
  have pk: "pack_reply_header mem rep \<lparr>rp_xid = xid, rp_ret = ret\<rparr> = Inr rep'"
    using pack_reply_header_eq [OF assms(1) b] by (simp add: rep'_def)
  have "ret \<noteq> unmarshal_args_failure" using assms(2) by (auto simp: unmarshal_args_failure_def)
  then have "finish_reply mem xid ret rep = Inr (m_bytes rep')"
    using assms(2) pk by (simp add: finish_reply_def m_take_buf_def m_bytes_def rep'_def)
  then show ?thesis
    using that packed_reply_msg [OF assms(1) pk] m_bytes_packed_reply(1,3) [OF assms(1) pk] by simp
qed

lemma failure_reply_msg:
  obtains bs where "failure_reply mem xid ret = Inr bs" "reply_msg \<lparr>rp_xid = xid, rp_ret = ret\<rparr> [] bs"
proof -
  obtain b where b: "m_buf (marshall_new mem) = Some b" by (rule m_wfE [OF m_wf_new])
  note pk = pack_reply_header_eq [OF m_wf_new b, of mem "\<lparr>rp_xid = xid, rp_ret = ret\<rparr>"]
  have "m_body (marshall_new mem) = []" by (simp add: m_body_def m_bytes_def marshall_new_def)
  then show ?thesis using that packed_reply_msg [OF m_wf_new pk] by (simp add: failure_reply_def pk)
qed

text \<open>The state of a server between requests: the window is sound and nothing is being executed.\<close>

definition srv_ready :: "'o rpcs \<Rightarrow> bool" where
  "srv_ready s \<longleftrightarrow> rw_ok \<lparr>rs_win = sv_win s, rs_pending = {}\<rparr>"

text \<open>A client that is new, or whose latest connection is this one.\<close>

definition knows_conn :: "u32 \<Rightarrow> nat \<Rightarrow> 'o rpcs \<Rightarrow> bool" where
  "knows_conn clt cid s \<longleftrightarrow> sv_conns s clt = None \<or> sv_conns s clt = Some cid"

text \<open>A connection that is open and that somebody other than the thread holds.\<close>

definition open_conn :: "nat \<Rightarrow> int \<Rightarrow> 'o rpcs \<Rightarrow> bool" where
  "open_conn cid n s \<longleftrightarrow> (\<exists>c. sv_store s cid = Some c \<and> \<not> cn_dead c \<and> n \<le> cn_refno c)"

lemma open_connE:
  assumes "open_conn cid n s"
  obtains c where "sv_store s cid = Some c" "\<not> cn_dead c" "n \<le> cn_refno c"
  using assms by (auto simp: open_conn_def)

lemma ref_open:
  assumes "open_conn cid n s"
  obtains st where "ref_conn cid s = Inr (s\<lparr>sv_store := st\<rparr>)" "open_conn cid (n + 1) (s\<lparr>sv_store := st\<rparr>)"
  using assms by (auto simp: open_conn_def ref_conn_def get_conn_def st_ops incref_def)

lemma unref_open:
  assumes "open_conn cid n s" "2 \<le> n"
  obtains st where "unref_conn cid s = Inr (s\<lparr>sv_store := st\<rparr>)" "open_conn cid (n - 1) (s\<lparr>sv_store := st\<rparr>)"
  using assms by (auto simp: open_conn_def unref_conn_def get_conn_def st_ops decref_def Let_def VERIFY_def)

lemma save_open:
  assumes "open_conn cid n s" "knows_conn clt cid s"
  obtains st where "save_conn clt cid s = Inr (s\<lparr>sv_store := st, sv_conns := (sv_conns s)(clt \<mapsto> cid)\<rparr>)"
    "open_conn cid n (s\<lparr>sv_store := st, sv_conns := (sv_conns s)(clt \<mapsto> cid)\<rparr>)"
proof (cases "sv_conns s clt")
  case None
  obtain st where "ref_conn cid s = Inr (s\<lparr>sv_store := st\<rparr>)" "open_conn cid (n + 1) (s\<lparr>sv_store := st\<rparr>)"
    by (rule ref_open [OF assms(1)])
  then show ?thesis using that [of st] None by (auto simp: save_conn_def open_conn_def)
next
  case (Some old)
  obtain c where c: "sv_store s cid = Some c" by (rule open_connE [OF assms(1)])
  have "old = cid" using Some assms(2) by (simp add: knows_conn_def)
  then have "save_conn clt cid s = Inr s" using Some c by (simp add: save_conn_def get_conn_def st_ops conn_compare_def)
  moreover have "s\<lparr>sv_store := sv_store s, sv_conns := (sv_conns s)(clt \<mapsto> cid)\<rparr> = s"
    using Some \<open>old = cid\<close> by (simp add: fun_upd_idem)
  ultimately show ?thesis using that [of "sv_store s"] assms(1) by simp
qed

lemma latest_open: "open_conn cid n s \<Longrightarrow> latest_conn clt cid s = Inr (cid, s)"
  by (auto simp: open_conn_def latest_conn_def get_conn_def st_ops)

lemma send_open: "open_conn cid n s \<Longrightarrow> send_on cid b s = bind_r (src_bytes b s) (\<lambda>bs. Inr (cid, bs))"
  by (auto simp: open_conn_def send_on_def get_conn_def st_ops)

lemma classify_open:
  assumes "open_conn cid n s" "knows_conn (rq_clt_nonce h) cid s" "client_ok (sv_win s) (rq_clt_nonce h)" "rq_clt_nonce h \<noteq> 0"
  obtains st where "classify h cid s =
      Inr (s\<lparr>sv_win := check_state (rq_clt_nonce h) (rq_xid h) (rq_xid_rep h) (sv_win s), sv_store := st,
             sv_conns := (sv_conns s)(rq_clt_nonce h \<mapsto> cid)\<rparr>,
           verdict (rq_clt_nonce h) (rq_xid h) (rq_xid_rep h) (sv_win s), found (rq_clt_nonce h) (rq_xid h) (rq_xid_rep h) (sv_win s))"
    "\<And>w. open_conn cid n (s\<lparr>sv_win := w, sv_store := st, sv_conns := (sv_conns s)(rq_clt_nonce h \<mapsto> cid)\<rparr>)"
proof -
  let ?s = "s\<lparr>sv_win := create_window (rq_clt_nonce h) (sv_win s)\<rparr>"
  have "open_conn cid n ?s" "knows_conn (rq_clt_nonce h) cid ?s"
    using assms(1,2) by (simp_all add: open_conn_def knows_conn_def)
  then obtain st where st: "save_conn (rq_clt_nonce h) cid ?s = Inr (?s\<lparr>sv_store := st, sv_conns := (sv_conns ?s)(rq_clt_nonce h \<mapsto> cid)\<rparr>)"
    "open_conn cid n (?s\<lparr>sv_store := st, sv_conns := (sv_conns ?s)(rq_clt_nonce h \<mapsto> cid)\<rparr>)"
    by (rule save_open)
  show ?thesis
    using that [of st] st assms(4) checkduplicate_closed [OF assms(3)] by (simp add: classify_def open_conn_def)
qed

text \<open>A request from the connection to the reply: \<open>got_pdu\<close>, the pool, \<open>dispatch\<close>.\<close>

definition serve :: "memory \<Rightarrow> nat \<Rightarrow> nat \<Rightarrow> byte list \<Rightarrow> nat \<Rightarrow> 'o rpcs \<Rightarrow> ('o rpcs \<times> (nat \<times> byte list) list) result" where
  "serve mem a cid b sz s =
     bind_r (rpcs_got_pdu True (sv_reachable s) cid b sz s) (\<lambda>(_, s, q).
     case q of Queued j \<Rightarrow> dispatch mem a (dj_conn j) (dj_buf j) (dj_sz j) s | _ \<Rightarrow> Inr (s, []))"

text \<open>What stays the same while requests are served.\<close>

definition same_service :: "'o rpcs \<Rightarrow> 'o rpcs \<Rightarrow> bool" where
  "same_service s s' \<longleftrightarrow> sv_nonce s' = sv_nonce s \<and> sv_procs s' = sv_procs s \<and> sv_reachable s' = sv_reachable s
     \<and> sv_counting s' = sv_counting s"

lemma serve_start:
  assumes "sv_reachable s" "open_conn cid n s"
  obtains st where "serve mem a cid b sz s = dispatch mem a cid b sz (s\<lparr>sv_store := st\<rparr>)" "open_conn cid (n + 1) (s\<lparr>sv_store := st\<rparr>)"
proof -
  obtain st where "ref_conn cid s = Inr (s\<lparr>sv_store := st\<rparr>)" "open_conn cid (n + 1) (s\<lparr>sv_store := st\<rparr>)"
    by (rule ref_open [OF assms(2)])
  then show ?thesis using that assms(1) by (simp add: serve_def rpcs_got_pdu_def)
qed

lemma srv_ready_client: "srv_ready s \<Longrightarrow> client_ok (sv_win s) c"
  using rw_ok_client [of "\<lparr>rs_win = sv_win s, rs_pending = {}\<rparr>" c] by (simp add: srv_ready_def)

text \<open>A request for this server, from a client that asks for at-most-once, on an open connection.\<close>

definition arriving :: "req_header \<Rightarrow> byte list \<Rightarrow> byte list \<Rightarrow> nat \<Rightarrow> 'o handler \<Rightarrow> 'o rpcs \<Rightarrow> bool" where
  "arriving h body bs cid f s \<longleftrightarrow> req_msg h body bs \<and> length bs < 2 ^ 31
     \<and> (rq_srv_nonce h = 0 \<or> rq_srv_nonce h = sv_nonce s) \<and> sv_procs s (rq_proc h) = Some f
     \<and> rq_clt_nonce h \<noteq> 0 \<and> sv_reachable s \<and> open_conn cid 1 s \<and> knows_conn (rq_clt_nonce h) cid s"

lemma serve_classified:
  fixes s :: "'o rpcs"
  assumes ar: "arriving h body bs cid f s" and ready: "srv_ready s"
  defines "w \<equiv> check_state (rq_clt_nonce h) (rq_xid h) (rq_xid_rep h) (sv_win s)"
  obtains u and s1 :: "'o rpcs" where "u_at u body" "same_service s s1" "sv_obj s1 = sv_obj s" "sv_win s1 = w"
    "open_conn cid 2 s1" "knows_conn (rq_clt_nonce h) cid s1" "sv_curr_counts s1 = sv_curr_counts s" "sv_counts s1 = sv_counts s"
    "serve mem a cid (bs @ slack) (length bs) s =
       bind_r (dispatch_switch mem a h u f (verdict (rq_clt_nonce h) (rq_xid h) (rq_xid_rep h) (sv_win s))
                 (found (rq_clt_nonce h) (rq_xid h) (rq_xid_rep h) (sv_win s)) cid s1)
         (\<lambda>(cid, s, ms). bind_r (unref_conn cid s) (\<lambda>s. Inr (s, ms)))"
proof -
  have A: "req_msg h body bs" "length bs < 2 ^ 31" "rq_srv_nonce h = 0 \<or> rq_srv_nonce h = sv_nonce s"
    "sv_procs s (rq_proc h) = Some f" "rq_clt_nonce h \<noteq> 0" "sv_reachable s" "open_conn cid 1 s" "knows_conn (rq_clt_nonce h) cid s"
    using ar by (simp_all add: arriving_def)
  obtain st where st: "serve mem a cid (bs @ slack) (length bs) s = dispatch mem a cid (bs @ slack) (length bs) (s\<lparr>sv_store := st\<rparr>)"
    "open_conn cid (1 + 1) (s\<lparr>sv_store := st\<rparr>)"
    by (rule serve_start [OF A(6,7)])
  have "rq_srv_nonce h = 0 \<or> rq_srv_nonce h = sv_nonce (s\<lparr>sv_store := st\<rparr>)" "sv_procs (s\<lparr>sv_store := st\<rparr>) (rq_proc h) = Some f"
    using A(3,4) by simp_all
  then obtain u where u: "dispatch_begin mem (bs @ slack) (length bs) (s\<lparr>sv_store := st\<rparr>) = Inr (Request h u f)" "u_at u body"
    by (rule dispatch_begin_request [OF A(1,2)])
  have "client_ok (sv_win (s\<lparr>sv_store := st\<rparr>)) (rq_clt_nonce h)" "knows_conn (rq_clt_nonce h) cid (s\<lparr>sv_store := st\<rparr>)"
    using srv_ready_client [OF ready] A(8) by (simp_all add: knows_conn_def)
  then obtain st' where st': "classify h cid (s\<lparr>sv_store := st\<rparr>) =
      Inr (s\<lparr>sv_store := st\<rparr>\<lparr>sv_win := check_state (rq_clt_nonce h) (rq_xid h) (rq_xid_rep h) (sv_win (s\<lparr>sv_store := st\<rparr>)), sv_store := st',
             sv_conns := (sv_conns (s\<lparr>sv_store := st\<rparr>))(rq_clt_nonce h \<mapsto> cid)\<rparr>,
           verdict (rq_clt_nonce h) (rq_xid h) (rq_xid_rep h) (sv_win (s\<lparr>sv_store := st\<rparr>)),
           found (rq_clt_nonce h) (rq_xid h) (rq_xid_rep h) (sv_win (s\<lparr>sv_store := st\<rparr>)))"
    "\<And>w. open_conn cid (1 + 1) (s\<lparr>sv_store := st\<rparr>\<lparr>sv_win := w, sv_store := st', sv_conns := (sv_conns (s\<lparr>sv_store := st\<rparr>))(rq_clt_nonce h \<mapsto> cid)\<rparr>)"
    using classify_open [OF st(2) _ _ A(5)] by metis
  show ?thesis
    using that [of u "s\<lparr>sv_win := w, sv_store := st', sv_conns := (sv_conns s)(rq_clt_nonce h \<mapsto> cid)\<rparr>"]
      u st(1) st'(1) st'(2) [of w]
    by (simp add: dispatch_def w_def same_service_def knows_conn_def)
qed

lemma send_local: "open_conn cid n s \<Longrightarrow> send_on cid (Local bs) s = Inr (cid, bs)"
  by (simp add: send_open src_bytes_def)

lemma serve_new:
  assumes ar: "arriving h body bs cid f s" and ready: "srv_ready s" and counting: "sv_counting s = 0"
    and fresh: "(rq_clt_nonce h, rq_xid h) \<notin> rw_seen (sv_win s)" "rq_xid_rep h < rq_xid h" "rw_heap (sv_win s) a = None"
    and handler: "\<And>u. u_at u body \<Longrightarrow> f mem u (marshall_new mem) (sv_obj s) = Inr (ret, rep, obj)" "m_wf rep" "0 \<le> sint ret"
  obtains s1 rb where "serve mem a cid (bs @ slack) (length bs) s = Inr (s1, [(cid, rb)])"
    "reply_msg \<lparr>rp_xid = rq_xid h, rp_ret = ret\<rparr> (m_body rep) rb" "length rb = m_ind rep" "sv_obj s1 = obj" "same_service s s1"
    "arriving h body bs cid f s1" "srv_ready s1"
    "verdict (rq_clt_nonce h) (rq_xid h) (rq_xid_rep h) (sv_win s1) = DONE"
    "found (rq_clt_nonce h) (rq_xid h) (rq_xid_rep h) (sv_win s1) = Some (Some a, length rb)"
    "rw_heap (check_state (rq_clt_nonce h) (rq_xid h) (rq_xid_rep h) (sv_win s1)) a = Some rb"
    "\<forall>y. (rq_clt_nonce h, y) \<in> rw_seen (sv_win s1) \<longrightarrow> (rq_clt_nonce h, y) \<in> rw_seen (sv_win s) \<or> y \<le> rq_xid h"
    "dom (rw_heap (sv_win s1)) \<subseteq> insert a (dom (rw_heap (sv_win s)))"
proof -
  obtain u s0 where s0: "u_at u body" "same_service s s0" "sv_obj s0 = sv_obj s"
    "sv_win s0 = check_state (rq_clt_nonce h) (rq_xid h) (rq_xid_rep h) (sv_win s)" "open_conn cid 2 s0" "knows_conn (rq_clt_nonce h) cid s0"
    "serve mem a cid (bs @ slack) (length bs) s =
       bind_r (dispatch_switch mem a h u f (verdict (rq_clt_nonce h) (rq_xid h) (rq_xid_rep h) (sv_win s))
                 (found (rq_clt_nonce h) (rq_xid h) (rq_xid_rep h) (sv_win s)) cid s0)
         (\<lambda>(cid, s, ms). bind_r (unref_conn cid s) (\<lambda>s. Inr (s, ms)))"
    by (rule serve_classified [OF ar ready])
  have ok: "rw_ok \<lparr>rs_win = sv_win s, rs_pending = {}\<rparr>" using ready by (simp add: srv_ready_def)
  have new: "verdict (rq_clt_nonce h) (rq_xid h) (rq_xid_rep h) (sv_win s) = NEW"
    using verdict_unseen [OF ok] fresh by simp
  obtain rb where rb: "finish_reply mem (rq_xid h) ret rep = Inr rb"
    "reply_msg \<lparr>rp_xid = rq_xid h, rp_ret = ret\<rparr> (m_body rep) rb" "length rb = m_ind rep"
    by (rule finish_reply_msg [OF handler(2,3)])
  obtain w2 where w2: "add_reply (rq_clt_nonce h) (rq_xid h) (Some a) (length rb)
       ((sv_win s0)\<lparr>rw_heap := (rw_heap (sv_win s0))(a \<mapsto> rb)\<rparr>) = Inr w2"
    "rw_ok \<lparr>rs_win = w2, rs_pending = {}\<rparr>" "verdict (rq_clt_nonce h) (rq_xid h) (rq_xid_rep h) w2 = DONE"
    "found (rq_clt_nonce h) (rq_xid h) (rq_xid_rep h) w2 = Some (Some a, length rb)" "rw_heap w2 a = Some rb"
    "rw_heap (check_state (rq_clt_nonce h) (rq_xid h) (rq_xid_rep h) w2) a = Some rb" "reply_window w2 (rq_clt_nonce h) \<noteq> None"
    "\<forall>y. (rq_clt_nonce h, y) \<in> rw_seen w2 \<longrightarrow> (rq_clt_nonce h, y) \<in> rw_seen (sv_win s) \<or> y \<le> rq_xid h"
    "dom (rw_heap w2) \<subseteq> insert a (dom (rw_heap (sv_win s)))"
    unfolding s0(4) by (rule answered_again [OF ok fresh])
  have clt: "0 < rq_clt_nonce h" using ar by (simp add: arriving_def word_greater_zero_iff)
  define s1 where "s1 = s0\<lparr>sv_obj := obj, sv_win := w2\<rparr>"
  have open1: "open_conn cid 2 s1" using s0(5) by (simp add: s1_def open_conn_def)
  obtain st where st: "unref_conn cid s1 = Inr (s1\<lparr>sv_store := st\<rparr>)" "open_conn cid (2 - 1) (s1\<lparr>sv_store := st\<rparr>)"
    by (rule unref_open [OF open1]) simp
  have ex: "execute mem (rq_proc h) u f s0 = Inr (ret, rep, s0\<lparr>sv_obj := obj\<rparr>)"
    using handler(1) [OF s0(1)] s0(2,3) counting by (simp add: execute_def same_service_def)
  have rc: "record_reply (rq_clt_nonce h) (rq_xid h) a rb (s0\<lparr>sv_obj := obj\<rparr>) = Inr s1"
    using w2(1) clt by (simp add: record_reply_def s1_def)
  have sd: "send_on cid (reply_src (rq_clt_nonce h) a rb) s1 = Inr (cid, rb)"
  proof -
    have "rw_heap (sv_win s1) a = Some rb" using w2(5) by (simp add: s1_def)
    then show ?thesis using clt by (simp add: send_open [OF open1] src_bytes_def reply_src_def)
  qed
  have "dispatch_switch mem a h u f NEW (found (rq_clt_nonce h) (rq_xid h) (rq_xid_rep h) (sv_win s)) cid s0 = Inr (cid, s1, [(cid, rb)])"
    by (simp add: dispatch_switch_def ex rb(1) rc latest_open [OF open1] sd)
  then have "serve mem a cid (bs @ slack) (length bs) s = Inr (s1\<lparr>sv_store := st\<rparr>, [(cid, rb)])"
    using s0(7) new st(1) by simp
  moreover have "arriving h body bs cid f (s1\<lparr>sv_store := st\<rparr>)"
    using ar st(2) s0(2,6) by (simp add: arriving_def s1_def same_service_def knows_conn_def)
  ultimately show ?thesis
    using that [of "s1\<lparr>sv_store := st\<rparr>" rb] rb(2,3) w2 s0(2) by (simp add: s1_def srv_ready_def same_service_def)
qed

lemma serve_done:
  assumes ar: "arriving h body bs cid f s" and ready: "srv_ready s"
    and v: "verdict (rq_clt_nonce h) (rq_xid h) (rq_xid_rep h) (sv_win s) = DONE"
    "found (rq_clt_nonce h) (rq_xid h) (rq_xid_rep h) (sv_win s) = Some (Some a, length rb)"
    "rw_heap (check_state (rq_clt_nonce h) (rq_xid h) (rq_xid_rep h) (sv_win s)) a = Some rb"
  obtains s1 where "serve mem a' cid (bs @ slack) (length bs) s = Inr (s1, [(cid, rb)])" "sv_obj s1 = sv_obj s"
proof -
  obtain u s0 where s0: "sv_obj s0 = sv_obj s"
    "sv_win s0 = check_state (rq_clt_nonce h) (rq_xid h) (rq_xid_rep h) (sv_win s)" "open_conn cid 2 s0"
    "serve mem a' cid (bs @ slack) (length bs) s =
       bind_r (dispatch_switch mem a' h u f (verdict (rq_clt_nonce h) (rq_xid h) (rq_xid_rep h) (sv_win s))
                 (found (rq_clt_nonce h) (rq_xid h) (rq_xid_rep h) (sv_win s)) cid s0)
         (\<lambda>(cid, s, ms). bind_r (unref_conn cid s) (\<lambda>s. Inr (s, ms)))"
    by (rule serve_classified [OF ar ready])
  obtain st where st: "unref_conn cid s0 = Inr (s0\<lparr>sv_store := st\<rparr>)" by (rule unref_open [OF s0(3)]) simp
  have "send_on cid (Block a (length rb)) s0 = Inr (cid, rb)"
    using v(3) s0(2) by (simp add: send_open [OF s0(3)] src_bytes_def)
  then have "serve mem a' cid (bs @ slack) (length bs) s = Inr (s0\<lparr>sv_store := st\<rparr>, [(cid, rb)])"
    using s0(4) v(1,2) st by (simp add: dispatch_switch_def done_src_def)
  then show ?thesis using that s0(1) by simp
qed

lemma serve_in_progress:
  assumes "arriving h body bs cid f s" "srv_ready s" "verdict (rq_clt_nonce h) (rq_xid h) (rq_xid_rep h) (sv_win s) = INPROGRESS"
  obtains s1 where "serve mem a cid (bs @ slack) (length bs) s = Inr (s1, [])" "sv_obj s1 = sv_obj s"
proof -
  obtain u s0 where s0: "sv_obj s0 = sv_obj s" "open_conn cid 2 s0"
    "serve mem a cid (bs @ slack) (length bs) s =
       bind_r (dispatch_switch mem a h u f (verdict (rq_clt_nonce h) (rq_xid h) (rq_xid_rep h) (sv_win s))
                 (found (rq_clt_nonce h) (rq_xid h) (rq_xid_rep h) (sv_win s)) cid s0)
         (\<lambda>(cid, s, ms). bind_r (unref_conn cid s) (\<lambda>s. Inr (s, ms)))"
    by (rule serve_classified [OF assms(1,2)])
  obtain st where "unref_conn cid s0 = Inr (s0\<lparr>sv_store := st\<rparr>)" by (rule unref_open [OF s0(2)]) simp
  then show ?thesis using that s0 assms(3) by (simp add: dispatch_switch_def)
qed

lemma serve_forgotten:
  assumes "arriving h body bs cid f s" "srv_ready s" "verdict (rq_clt_nonce h) (rq_xid h) (rq_xid_rep h) (sv_win s) = FORGOTTEN"
  obtains s1 rb where "serve mem a cid (bs @ slack) (length bs) s = Inr (s1, [(cid, rb)])" "sv_obj s1 = sv_obj s"
    "reply_msg \<lparr>rp_xid = rq_xid h, rp_ret = atmostonce_failure\<rparr> [] rb"
proof -
  obtain u s0 where s0: "sv_obj s0 = sv_obj s" "open_conn cid 2 s0"
    "serve mem a cid (bs @ slack) (length bs) s =
       bind_r (dispatch_switch mem a h u f (verdict (rq_clt_nonce h) (rq_xid h) (rq_xid_rep h) (sv_win s))
                 (found (rq_clt_nonce h) (rq_xid h) (rq_xid_rep h) (sv_win s)) cid s0)
         (\<lambda>(cid, s, ms). bind_r (unref_conn cid s) (\<lambda>s. Inr (s, ms)))"
    by (rule serve_classified [OF assms(1,2)])
  obtain st where st: "unref_conn cid s0 = Inr (s0\<lparr>sv_store := st\<rparr>)" by (rule unref_open [OF s0(2)]) simp
  obtain rb where rb: "failure_reply mem (rq_xid h) atmostonce_failure = Inr rb"
    "reply_msg \<lparr>rp_xid = rq_xid h, rp_ret = atmostonce_failure\<rparr> [] rb"
    by (rule failure_reply_msg)
  have "serve mem a cid (bs @ slack) (length bs) s = Inr (s0\<lparr>sv_store := st\<rparr>, [(cid, rb)])"
    using s0(3) assms(3) st rb(1) by (simp add: dispatch_switch_def send_local [OF s0(2)])
  then show ?thesis using that s0(1) rb(2) by simp
qed

section \<open>A first request\<close>

text \<open>A client with nonce 5 binds to a server with nonce 7: its first request, with xid 1.\<close>

definition demo_srv :: "unit rpcs" where
  "demo_srv = \<lparr>sv_nonce = 7, sv_counting = 0, sv_curr_counts = 0, sv_counts = Map.empty,
     sv_procs = [1 \<mapsto> h_fn1 get_int 0 put_int (rpcbind 7)], sv_win = rwindow_init, sv_conns = Map.empty,
     sv_reachable = True, sv_store = [3 \<mapsto> fst (conn_new 4 (0, 0) 0)], sv_obj = ()\<rparr>"

definition demo_hdr :: req_header where
  "demo_hdr = \<lparr>rq_xid = 1, rq_proc = 1, rq_clt_nonce = 5, rq_srv_nonce = 0, rq_xid_rep = 0\<rparr>"

definition demo_msg :: "byte list" where
  "demo_msg = [0, 0, 0, 0] @ enc_req_header demo_hdr @ be32 0"

lemma demo_server_made: "rpcs_new 7 0 0 () = Inr (demo_srv\<lparr>sv_store := Map.empty\<rparr>)"
  by (simp add: rpcs_new_def reg1_def demo_srv_def rpc_bind_def)

lemma demo_msg_ok: "req_msg demo_hdr (be32 0) demo_msg" "length demo_msg = 28"
  by (simp_all add: req_msg_def demo_msg_def)

lemma demo_arriving: "arriving demo_hdr (be32 0) demo_msg 3 (h_fn1 get_int 0 put_int (rpcbind 7)) demo_srv"
  using demo_msg_ok by (simp add: arriving_def demo_srv_def demo_hdr_def open_conn_def knows_conn_def conn_new_def)

lemma demo_ready: "srv_ready demo_srv"
  using rw_ok_init by (simp add: srv_ready_def demo_srv_def)

lemma demo_handler:
  obtains rep where "\<And>u. u_at u (be32 0) \<Longrightarrow> h_fn1 get_int 0 put_int (rpcbind 7) mem u (marshall_new mem) () = Inr (0, rep, ())"
    "m_wf rep" "m_body rep = be32 7" "m_ind rep = 28"
proof -
  obtain rep where rep: "put_int mem (marshall_new mem) 7 = Inr rep" "m_wf rep" "m_body rep = be32 7" "m_ind rep = 24 + length (be32 7)"
    by (rule call_1_request [OF int_codec.codec_axioms, where a = 7 and mem = mem]) simp_all
  have "h_fn1 get_int 0 put_int (rpcbind 7) mem u (marshall_new mem) () = Inr (0, rep, ())" if "u_at u (be32 0)" for u
    using rep(1) by (simp add: h_fn1_exact [OF int_codec.codec_axioms _ _ that] run_method_def rpcbind_def)
  then show ?thesis using that rep by simp
qed

text \<open>
  The same request in the concurrent server: the states of the server on the way, with one thread at work, and the
  steps between them, for a message \<open>b\<close> with this request and its reply \<open>rb\<close>.
\<close>

definition demo_at :: "unit rpcs \<Rightarrow> unit dphase \<Rightarrow> unit srvsys" where
  "demo_at v p = \<lparr>ss_srv = v, ss_ph = (\<lambda>_. DIdle)(0 := p), ss_listed = {3}\<rparr>"

definition demo_store :: "int \<Rightarrow> unit rpcs \<Rightarrow> unit rpcs" where
  "demo_store n v = v\<lparr>sv_store := [3 \<mapsto> (fst (conn_new 4 (0, 0) 0))\<lparr>cn_refno := n\<rparr>]\<rparr>"

definition demo_created :: rwindow where
  "demo_created = \<lparr>rw_heap = Map.empty, reply_window = [5 \<mapsto> []], reply_lower_bound = Map.empty, reply_set = Map.empty\<rparr>"

definition demo_checked :: "heap \<Rightarrow> reply_t list \<Rightarrow> rwindow" where
  "demo_checked h rs = \<lparr>rw_heap = h, reply_window = [5 \<mapsto> rs], reply_lower_bound = [5 \<mapsto> 0], reply_set = [5 \<mapsto> {1}]\<rparr>"

definition demo_saved :: "unit rpcs" where
  "demo_saved = (demo_store 3 demo_srv)\<lparr>sv_conns := [5 \<mapsto> 3]\<rparr>"

definition demo_recorded :: "byte list \<Rightarrow> unit rpcs" where
  "demo_recorded rb = demo_saved\<lparr>sv_win := demo_checked [0 \<mapsto> rb] [\<lparr>rt_xid = 1, rt_cb_present = True, rt_buf = Some 0, rt_sz = length rb\<rparr>]\<rparr>"

lemmas demo_defs = demo_at_def demo_store_def demo_created_def demo_checked_def demo_saved_def demo_recorded_def demo_srv_def demo_hdr_def

abbreviation demo_f :: "unit handler" where
  "demo_f \<equiv> h_fn1 get_int 0 put_int (rpcbind 7)"

lemma demo_ref: "incref (fst (conn_new 4 (0, 0) 0)) = (fst (conn_new 4 (0, 0) 0))\<lparr>cn_refno := 2\<rparr>"
  by (simp add: incref_def conn_new_def)

lemma demo_steps_arrive:
  assumes "req_msg demo_hdr (be32 0) b" "length b < 2 ^ 31"
  obtains u where "srv_step (srv_start demo_srv) S_Tau (demo_at demo_srv DIdle)"
    "srv_step (demo_at demo_srv DIdle) S_Tau (demo_at (demo_store 2 demo_srv) (DArrived 3 b (length b)))"
    "srv_step (demo_at (demo_store 2 demo_srv) (DArrived 3 b (length b))) S_Tau (demo_at (demo_store 2 demo_srv) (DFound 3 demo_hdr u demo_f))"
    "u_at u (be32 0)"
proof -
  let ?v = "demo_store 2 demo_srv"
  obtain u where u: "dispatch_begin (\<lambda>_. 0) (b @ []) (length b) ?v = Inr (Request demo_hdr u demo_f)" "u_at u (be32 0)"
    by (rule dispatch_begin_request [OF assms, of ?v demo_f "\<lambda>_. 0" "[]"]) (simp_all add: demo_defs)
  show thesis
  proof (rule that [OF _ _ _ u(2)])
    show "srv_step (srv_start demo_srv) S_Tau (demo_at demo_srv DIdle)"
      using srv_step.accepted [of "demo_srv\<lparr>sv_store := Map.empty\<rparr>" 3 "{}" "\<lambda>_. DIdle" 4 "(0, 0)" 0]
      by (simp add: srv_start_def demo_defs fun_upd_idem)
    show "srv_step (demo_at demo_srv DIdle) S_Tau (demo_at ?v (DArrived 3 b (length b)))"
      using srv_step.arrive [of "\<lambda>_. DIdle" 0 3 b "length b" demo_srv ?v "\<lparr>dj_conn = 3, dj_buf = b, dj_sz = length b\<rparr>" "{3}"]
      by (simp add: rpcs_got_pdu_def ref_conn_def get_conn_def st_ops demo_ref demo_defs fun_upd_idem)
    show "srv_step (demo_at ?v (DArrived 3 b (length b))) S_Tau (demo_at ?v (DFound 3 demo_hdr u demo_f))"
      using srv_step.found [of "(\<lambda>_. DIdle)(0 := DArrived 3 b (length b))" 0, OF _ u(1) [simplified]]
      by (simp add: demo_at_def demo_hdr_def)
  qed
qed

lemma demo_steps_check:
  "srv_step (demo_at (demo_store 2 demo_srv) (DFound 3 demo_hdr u demo_f)) (S_Window (Created 5))
     (demo_at ((demo_store 2 demo_srv)\<lparr>sv_win := demo_created\<rparr>) (DCreated 3 demo_hdr u demo_f))"
  "srv_step (demo_at ((demo_store 2 demo_srv)\<lparr>sv_win := demo_created\<rparr>) (DCreated 3 demo_hdr u demo_f)) S_Tau
     (demo_at (demo_saved\<lparr>sv_win := demo_created\<rparr>) (DSaved 3 demo_hdr u demo_f))"
  "srv_step (demo_at (demo_saved\<lparr>sv_win := demo_created\<rparr>) (DSaved 3 demo_hdr u demo_f)) (S_Window (Checked 5 1 0 NEW None))
     (demo_at (demo_saved\<lparr>sv_win := demo_checked Map.empty []\<rparr>) (DRun 3 demo_hdr u demo_f))"
proof -
  show "srv_step (demo_at (demo_store 2 demo_srv) (DFound 3 demo_hdr u demo_f)) (S_Window (Created 5))
     (demo_at ((demo_store 2 demo_srv)\<lparr>sv_win := demo_created\<rparr>) (DCreated 3 demo_hdr u demo_f))"
    using srv_step.creating [of "(\<lambda>_. DIdle)(0 := DFound 3 demo_hdr u demo_f)" 0 3 demo_hdr u demo_f "demo_store 2 demo_srv" "{3}"]
    by (simp add: demo_defs create_window_def rwindow_init_def)
  show "srv_step (demo_at ((demo_store 2 demo_srv)\<lparr>sv_win := demo_created\<rparr>) (DCreated 3 demo_hdr u demo_f)) S_Tau
     (demo_at (demo_saved\<lparr>sv_win := demo_created\<rparr>) (DSaved 3 demo_hdr u demo_f))"
    using srv_step.saving [of "(\<lambda>_. DIdle)(0 := DCreated 3 demo_hdr u demo_f)" 0 3 demo_hdr u demo_f
        "(demo_store 2 demo_srv)\<lparr>sv_win := demo_created\<rparr>" "demo_saved\<lparr>sv_win := demo_created\<rparr>" "{3}"]
    by (simp add: demo_defs save_conn_def ref_conn_def get_conn_def st_ops incref_def conn_new_def)
  show "srv_step (demo_at (demo_saved\<lparr>sv_win := demo_created\<rparr>) (DSaved 3 demo_hdr u demo_f)) (S_Window (Checked 5 1 0 NEW None))
     (demo_at (demo_saved\<lparr>sv_win := demo_checked Map.empty []\<rparr>) (DRun 3 demo_hdr u demo_f))"
    using srv_step.checked [of "(\<lambda>_. DIdle)(0 := DSaved 3 demo_hdr u demo_f)" 0 3 demo_hdr u demo_f "demo_saved\<lparr>sv_win := demo_created\<rparr>"
        "demo_checked Map.empty []" NEW None "\<lambda>_. 0" "DRun 3 demo_hdr u demo_f" "{3}"]
    by (simp add: demo_defs checkduplicate_and_update_def update_lower_bound_def remember_xid_def after_check_def)
qed

lemma demo_steps_reply:
  assumes "u_at u (be32 0)"
  obtains rep rb where "srv_step (demo_at (demo_saved\<lparr>sv_win := demo_checked Map.empty []\<rparr>) (DRun 3 demo_hdr u demo_f)) (S_Exec 5 1)
      (demo_at (demo_saved\<lparr>sv_win := demo_checked Map.empty []\<rparr>) (DReturned 3 demo_hdr 0 rep))"
    "srv_step (demo_at (demo_saved\<lparr>sv_win := demo_checked Map.empty []\<rparr>) (DReturned 3 demo_hdr 0 rep)) (S_Window (Replied 5 1 rb))
      (demo_at (demo_recorded rb) (DRecorded 3 5 (Block 0 (length rb))))"
    "srv_step (demo_at (demo_recorded rb) (DRecorded 3 5 (Block 0 (length rb)))) S_Tau (demo_at (demo_recorded rb) (DSend 3 (Block 0 (length rb))))"
    "srv_step (demo_at (demo_recorded rb) (DSend 3 (Block 0 (length rb)))) (S_Send 3 rb) (demo_at (demo_recorded rb) (DEnd 3))"
    "reply_msg \<lparr>rp_xid = 1, rp_ret = 0\<rparr> (be32 7) rb" "length rb = 28"
proof -
  let ?v = "demo_saved\<lparr>sv_win := demo_checked Map.empty []\<rparr>"
  obtain rep where rep: "\<And>u. u_at u (be32 0) \<Longrightarrow> demo_f (\<lambda>_. 0) u (marshall_new (\<lambda>_. 0)) () = Inr (0, rep, ())"
      "m_wf rep" "m_body rep = be32 7" "m_ind rep = 28"
    using demo_handler [where mem = "\<lambda>_. 0"] by metis
  obtain rb where rb: "finish_reply (\<lambda>_. 0) 1 0 rep = Inr rb" "reply_msg \<lparr>rp_xid = 1, rp_ret = 0\<rparr> (be32 7) rb" "length rb = 28"
    using finish_reply_msg [OF rep(2), of 0 "\<lambda>_. 0" 1] rep(3,4) by auto
  show thesis
  proof (rule that [OF _ _ _ _ rb(2,3)])
    show "srv_step (demo_at ?v (DRun 3 demo_hdr u demo_f)) (S_Exec 5 1) (demo_at ?v (DReturned 3 demo_hdr 0 rep))"
      using srv_step.running [of "(\<lambda>_. DIdle)(0 := DRun 3 demo_hdr u demo_f)" 0 3 demo_hdr u demo_f "\<lambda>_. 0" ?v 0 rep ?v "{3}"]
        rep(1) [OF assms] by (simp add: demo_defs execute_def)
    show "srv_step (demo_at ?v (DReturned 3 demo_hdr 0 rep)) (S_Window (Replied 5 1 rb)) (demo_at (demo_recorded rb) (DRecorded 3 5 (Block 0 (length rb))))"
      using srv_step.recording [of "(\<lambda>_. DIdle)(0 := DReturned 3 demo_hdr 0 rep)" 0 3 demo_hdr 0 rep ?v 0 "\<lambda>_. 0" rb "demo_recorded rb" "{3}"] rb(1)
      by (simp add: demo_defs record_reply_def add_reply_def reply_t_new_def reply_src_def Let_def)
    show "srv_step (demo_at (demo_recorded rb) (DRecorded 3 5 (Block 0 (length rb)))) S_Tau (demo_at (demo_recorded rb) (DSend 3 (Block 0 (length rb))))"
      using srv_step.choosing [of "(\<lambda>_. DIdle)(0 := DRecorded 3 5 (Block 0 (length rb)))" 0 3 5 "Block 0 (length rb)" "demo_recorded rb" 3 "demo_recorded rb" "{3}"]
      by (simp add: demo_defs latest_conn_def get_conn_def st_ops conn_new_def)
    show "srv_step (demo_at (demo_recorded rb) (DSend 3 (Block 0 (length rb)))) (S_Send 3 rb) (demo_at (demo_recorded rb) (DEnd 3))"
      using srv_step.sending [of "(\<lambda>_. DIdle)(0 := DSend 3 (Block 0 (length rb)))" 0 3 "Block 0 (length rb)" "demo_recorded rb" 3 rb "{3}"]
      by (simp add: demo_defs send_on_def src_bytes_def get_conn_def st_ops)
  qed
qed

lemma demo_run:
  "\<exists>s. srv_run demo_srv [S_Tau, S_Tau, S_Tau, S_Window (Created 5), S_Tau, S_Window (Checked 5 1 0 NEW None), S_Exec 5 1] s
     \<and> holds (ss_ph s 0) = Some 3"
proof -
  obtain u where 1: "srv_step (srv_start demo_srv) S_Tau (demo_at demo_srv DIdle)"
    "srv_step (demo_at demo_srv DIdle) S_Tau (demo_at (demo_store 2 demo_srv) (DArrived 3 demo_msg (length demo_msg)))"
    "srv_step (demo_at (demo_store 2 demo_srv) (DArrived 3 demo_msg (length demo_msg))) S_Tau (demo_at (demo_store 2 demo_srv) (DFound 3 demo_hdr u demo_f))"
    "u_at u (be32 0)" by (rule demo_steps_arrive [OF demo_msg_ok(1)]) (simp add: demo_msg_ok(2))
  obtain rep rb where 2: "srv_step (demo_at (demo_saved\<lparr>sv_win := demo_checked Map.empty []\<rparr>) (DRun 3 demo_hdr u demo_f)) (S_Exec 5 1)
      (demo_at (demo_saved\<lparr>sv_win := demo_checked Map.empty []\<rparr>) (DReturned 3 demo_hdr 0 rep))"
    by (rule demo_steps_reply [OF 1(4)])
  show ?thesis
    using srv_more [OF srv_more [OF srv_more [OF srv_more [OF srv_more [OF srv_more [OF srv_more [OF srv_begin 1(1)] 1(2)] 1(3)]
      demo_steps_check(1)] demo_steps_check(2)] demo_steps_check(3)] 2]
    by (intro exI conjI) (assumption | simp add: demo_at_def)+
qed

section \<open>Properties\<close>

text \<open>
  C11: the concurrent server is a run of the duplicate filter.  However the dispatch threads
  interleave, the window and the requests being executed are what the sequence of window
  operations alone leads to; so everything shown of the filter holds inside the server.
\<close>

theorem server_refines_window:
  assumes "srv_run v es s"
  shows "rw_run (concat (map window_event es)) (srv_window s)"
  using assms by (rule srv_run_window)

theorem server_refines_window_witness:
  "\<exists>s. rw_run [Created 5, Checked 5 1 0 NEW None] (srv_window (s :: unit srvsys))"
  using demo_run server_refines_window by fastforce

text \<open>
  C4: at most once, end to end in the server: for a client with a nonce, the handler of a request
  (nonce, xid) runs at most once, however often the request arrives, over whichever
  connections, and however the dispatch threads interleave.
\<close>

theorem handler_at_most_once:
  assumes "srv_run v es s" "c \<noteq> 0"
  shows "length (filter (\<lambda>e. e = S_Exec c x) es) \<le> 1"
proof -
  have "(e = S_Exec c x) = (exec_of e = Some (c, x))" for e using assms(2) by (cases e) auto
  then show ?thesis
    using handlers.fresh_at_most_once [OF srv_run_path [OF assms(1)] win_inv_start] by (simp add: handlers.times_fresh_def)
qed

theorem handler_at_most_once_witness:
  "length (filter (\<lambda>e. e = S_Exec 5 1)
     [S_Tau, S_Tau, S_Tau, S_Window (Created 5), S_Tau, S_Window (Checked 5 1 0 NEW None), S_Exec 5 1]) \<le> 1"
  using demo_run handler_at_most_once [of demo_srv _ _ 5 1] by fastforce

text \<open>
  C26: no dispatch thread uses a deleted connection.  In every reachable state, whatever holds a
  connection -- a thread in the middle of a request, the table of latest connections, the
  listener -- the connection exists and its reference count covers all of its holders; this includes the requests that
  the pool refuses and those that come when the server is not reachable.  The one way for a thread to work on what is
  deleted is a call of \<open>set_reachable(false)\<close> between the two readings of \<open>got_pdu\<close>: a server that
  is never made unreachable has no thread with a deleted job.
\<close>

theorem server_references_safe:
  assumes "srv_run v es s"
  shows "(\<forall>k cid. owner (sv_conns (ss_srv s)) (ss_ph s) (ss_listed s) k = Some cid \<longrightarrow>
      (\<exists>c. sv_store (ss_srv s) cid = Some c \<and> 0 < cn_refno c
        \<and> int (card {j. owner (sv_conns (ss_srv s)) (ss_ph s) (ss_listed s) j = Some cid}) \<le> cn_refno c))
    \<and> (\<forall>t. ss_ph s t = DDeleted \<longrightarrow> S_Reachable False \<in> set es)"
proof (intro conjI allI impI)
  fix k cid assume k: "owner (sv_conns (ss_srv s)) (ss_ph s) (ss_listed s) k = Some cid"
  let ?H = "{j. owner (sv_conns (ss_srv s)) (ss_ph s) (ss_listed s) j = Some cid}"
  have ok: "counted (sv_store (ss_srv s)) (owner (sv_conns (ss_srv s)) (ss_ph s) (ss_listed s))"
    using srv_run_refs [OF assms] by (simp add: refs_ok_def)
  obtain c where c: "sv_store (ss_srv s) cid = Some c" using countedD(2) [OF ok k] by blast
  have "card ?H > 0" using countedD(1) [OF ok] k by (auto simp: card_gt_0_iff)
  then show "\<exists>c. sv_store (ss_srv s) cid = Some c \<and> 0 < cn_refno c \<and> int (card ?H) \<le> cn_refno c"
    using c countedD(3) [OF ok c] by (intro exI [of _ c]) simp
next
  fix t assume "ss_ph s t = DDeleted"
  then show "S_Reachable False \<in> set es" by (rule srv_run_deleted [OF assms])
qed

theorem server_references_safe_witness:
  "\<exists>(s :: unit srvsys) c. sv_store (ss_srv s) 3 = Some c \<and> 0 < cn_refno c"
proof -
  obtain s es where s: "srv_run demo_srv es s" "holds (ss_ph s 0) = Some 3" using demo_run by blast
  then have "owner (sv_conns (ss_srv s)) (ss_ph s) (ss_listed s) (By_Thread 0) = Some 3" by simp
  then show ?thesis using server_references_safe [OF s(1)] by blast
qed

text \<open>
  C12: a request is executed, answered, and answered again.  For a request that the server has not
  seen, \<open>dispatch\<close> runs the handler once on exactly the body of the message and sends one reply that carries the
  request's xid, the handler's status and the handler's output; when the same message arrives
  again, the same bytes are sent and the handler is not run.
\<close>

theorem request_executed_then_replayed:
  assumes "arriving h body bs cid f s" "srv_ready s" "sv_counting s = 0"
    and "(rq_clt_nonce h, rq_xid h) \<notin> rw_seen (sv_win s)" "rq_xid_rep h < rq_xid h" "rw_heap (sv_win s) a = None"
    and "\<And>u. u_at u body \<Longrightarrow> f mem u (marshall_new mem) (sv_obj s) = Inr (ret, rep, obj)" "m_wf rep" "0 \<le> sint ret"
  shows "\<exists>s1 s2 rb. serve mem a cid (bs @ slack) (length bs) s = Inr (s1, [(cid, rb)]) \<and> sv_obj s1 = obj
    \<and> reply_msg \<lparr>rp_xid = rq_xid h, rp_ret = ret\<rparr> (m_body rep) rb
    \<and> serve mem' a' cid (bs @ slack') (length bs) s1 = Inr (s2, [(cid, rb)]) \<and> sv_obj s2 = obj"
proof -
  obtain s1 rb where 1: "serve mem a cid (bs @ slack) (length bs) s = Inr (s1, [(cid, rb)])" "sv_obj s1 = obj"
    "reply_msg \<lparr>rp_xid = rq_xid h, rp_ret = ret\<rparr> (m_body rep) rb"
    and ar: "arriving h body bs cid f s1" "srv_ready s1" "verdict (rq_clt_nonce h) (rq_xid h) (rq_xid_rep h) (sv_win s1) = DONE"
    "found (rq_clt_nonce h) (rq_xid h) (rq_xid_rep h) (sv_win s1) = Some (Some a, length rb)"
    "rw_heap (check_state (rq_clt_nonce h) (rq_xid h) (rq_xid_rep h) (sv_win s1)) a = Some rb"
    using serve_new [OF assms, of slack] by metis
  obtain s2 where "serve mem' a' cid (bs @ slack') (length bs) s1 = Inr (s2, [(cid, rb)])" "sv_obj s2 = sv_obj s1"
    by (rule serve_done [OF ar])
  then show ?thesis using 1 by auto
qed

theorem request_executed_then_replayed_witness:
  "\<exists>s1 s2 rb. serve (\<lambda>_. 0) 9 3 demo_msg 28 demo_srv = Inr (s1, [(3, rb)])
    \<and> reply_msg \<lparr>rp_xid = 1, rp_ret = 0\<rparr> (be32 7) rb \<and> serve (\<lambda>_. 1) 10 3 demo_msg 28 s1 = Inr (s2, [(3, rb)])"
proof -
  obtain rep where rep: "\<And>u. u_at u (be32 0) \<Longrightarrow> h_fn1 get_int 0 put_int (rpcbind 7) (\<lambda>_. 0) u (marshall_new (\<lambda>_. 0)) () = Inr (0, rep, ())"
    "m_wf rep" "m_body rep = be32 7"
    using demo_handler by metis
  show ?thesis
    using request_executed_then_replayed [OF demo_arriving demo_ready, of 9 "\<lambda>_. 0" 0 rep "()" "[]" "\<lambda>_. 1" 10 "[]"] rep
    by (simp add: demo_msg_ok(2) demo_srv_def demo_hdr_def rw_seen_def known_def rwindow_init_def)
qed

lemma classify_anonymous: "rq_clt_nonce h = 0 \<Longrightarrow> classify h cid s = Inr (s, NEW, None)"
  by (simp add: classify_def)

lemma old_instance_reply:
  assumes "req_msg h body bs" "length bs < 2 ^ 31" "sv_store s cid = Some c" "rq_srv_nonce h \<noteq> 0" "rq_srv_nonce h \<noteq> sv_nonce s"
  shows "\<exists>rb. dispatch mem a cid (bs @ slack) (length bs) s = Inr (s, [(cid, rb)])
        \<and> reply_msg \<lparr>rp_xid = rq_xid h, rp_ret = oldsrv_failure\<rparr> [] rb"
proof -
  obtain u where u: "unpack_req_header (unmarshall_new (Some (bs @ slack)) (length bs)) = Inr (u, h)" "u_at u body"
    by (rule req_msg_unpack [OF assms(1,2)])
  obtain rb where "failure_reply mem (rq_xid h) oldsrv_failure = Inr rb"
    "reply_msg \<lparr>rp_xid = rq_xid h, rp_ret = oldsrv_failure\<rparr> [] rb" by (rule failure_reply_msg)
  moreover have "u_ok u" using u(2) by (simp add: u_at_def)
  ultimately show ?thesis using u assms(3-5)
    by (simp add: dispatch_def dispatch_begin_def send_on_def get_conn_def st_ops src_bytes_def)
qed

lemma unknown_proc_aborts:
  assumes "req_msg h body bs" "length bs < 2 ^ 31" "rq_srv_nonce h = 0 \<or> rq_srv_nonce h = sv_nonce s" "sv_procs s (rq_proc h) = None"
  shows "dispatch mem a cid (bs @ slack) (length bs) s = Inl Verify_Failed"
proof -
  obtain u where "unpack_req_header (unmarshall_new (Some (bs @ slack)) (length bs)) = Inr (u, h)" "u_at u body"
    by (rule req_msg_unpack [OF assms(1,2)])
  moreover from this have "u_ok u" by (simp add: u_at_def)
  ultimately show ?thesis using assms(3,4) by (auto simp: dispatch_def dispatch_begin_def)
qed

lemma anonymous_dead_null:
  assumes "req_msg h body bs" "length bs < 2 ^ 31" "rq_srv_nonce h = 0 \<or> rq_srv_nonce h = sv_nonce s"
    "sv_procs s (rq_proc h) = Some f" "rq_clt_nonce h = 0" "sv_store s cid = Some c" "sv_conns s 0 = None" "cn_dead c" "2 \<le> cn_refno c"
    "sv_counting s = 0" "\<And>u. u_at u body \<Longrightarrow> f mem u (marshall_new mem) (sv_obj s) = Inr (ret, rep, obj)" "m_wf rep" "0 \<le> sint ret"
  shows "dispatch mem a cid (bs @ slack) (length bs) s = Inl Null_Deref"
proof -
  obtain v where v: "dispatch_begin mem (bs @ slack) (length bs) s = Inr (Request h v f)" "u_at v body"
    by (rule dispatch_begin_request [OF assms(1-4)])
  obtain rb where rb: "finish_reply mem (rq_xid h) ret rep = Inr rb"
    by (rule finish_reply_msg [OF assms(12,13)])
  have "execute mem (rq_proc h) v f s = Inr (ret, rep, s\<lparr>sv_obj := obj\<rparr>)"
    using assms(10) assms(11) [OF v(2)] by (simp add: execute_def)
  moreover have "latest_conn 0 cid (s\<lparr>sv_obj := obj\<rparr>) = Inl Null_Deref"
    using assms(6-9) by (simp add: latest_conn_def get_conn_def st_ops unref_conn_def decref_def Let_def VERIFY_def)
  ultimately show ?thesis
    using v rb assms(5) by (simp add: dispatch_def classify_anonymous dispatch_switch_def record_reply_def)
qed

text \<open>
  C28: what \<open>dispatch\<close> does with requests it cannot run.  A request for another instance of the server gets
  one reply with \<open>oldsrv_failure\<close>, and the server is unchanged -- the reference that \<open>got_pdu\<close> took for
  the request is never given up.  A request for an unknown procedure aborts the server.
  The reply to a client without a nonce whose connection has died meanwhile goes through the null
  pointer \<open>conns_[0]\<close>.
\<close>

theorem dispatch_error_paths:
  assumes "req_msg h body bs" "length bs < 2 ^ 31" "sv_store s cid = Some c"
  shows "(rq_srv_nonce h \<noteq> 0 \<and> rq_srv_nonce h \<noteq> sv_nonce s \<longrightarrow>
      (\<exists>rb. dispatch mem a cid (bs @ slack) (length bs) s = Inr (s, [(cid, rb)])
        \<and> reply_msg \<lparr>rp_xid = rq_xid h, rp_ret = oldsrv_failure\<rparr> [] rb))
    \<and> ((rq_srv_nonce h = 0 \<or> rq_srv_nonce h = sv_nonce s) \<and> sv_procs s (rq_proc h) = None \<longrightarrow>
      dispatch mem a cid (bs @ slack) (length bs) s = Inl Verify_Failed)
    \<and> ((rq_srv_nonce h = 0 \<or> rq_srv_nonce h = sv_nonce s) \<and> sv_procs s (rq_proc h) = Some f \<and> rq_clt_nonce h = 0
        \<and> sv_conns s 0 = None \<and> cn_dead c \<and> 2 \<le> cn_refno c \<and> sv_counting s = 0
        \<and> (\<forall>u. u_at u body \<longrightarrow> f mem u (marshall_new mem) (sv_obj s) = Inr (ret, rep, obj)) \<and> m_wf rep \<and> 0 \<le> sint ret \<longrightarrow>
      dispatch mem a cid (bs @ slack) (length bs) s = Inl Null_Deref)"
  using old_instance_reply [OF assms] unknown_proc_aborts [OF assms(1,2)] anonymous_dead_null [OF assms(1,2) _ _ _ assms(3)]
  by (intro conjI impI) (blast, blast, metis)

theorem dispatch_error_paths_witness:
  "(\<exists>rb. dispatch (\<lambda>_. 0) 9 3 demo_msg 28 (demo_srv\<lparr>sv_procs := Map.empty\<rparr>) = Inl Verify_Failed
    \<and> dispatch (\<lambda>_. 0) 9 3 ([0, 0, 0, 0] @ enc_req_header (demo_hdr\<lparr>rq_srv_nonce := 8\<rparr>) @ be32 0) 28 demo_srv
        = Inr (demo_srv, [(3, rb)]) \<and> reply_msg \<lparr>rp_xid = 1, rp_ret = oldsrv_failure\<rparr> [] rb)"
proof -
  let ?h = "demo_hdr\<lparr>rq_srv_nonce := 8\<rparr>"
  let ?m = "[0, 0, 0, 0] @ enc_req_header ?h @ be32 0"
  have m: "req_msg ?h (be32 0) ?m" "length ?m = 28" "length ?m < 2 ^ 31" by (simp_all add: req_msg_def)
  have c: "sv_store demo_srv 3 = Some (fst (conn_new 4 (0, 0) 0))" "sv_store (demo_srv\<lparr>sv_procs := Map.empty\<rparr>) 3 = Some (fst (conn_new 4 (0, 0) 0))"
    by (simp_all add: demo_srv_def)
  have n: "rq_srv_nonce ?h \<noteq> 0" "rq_srv_nonce ?h \<noteq> sv_nonce demo_srv" "rq_xid ?h = 1" by (simp_all add: demo_hdr_def demo_srv_def)
  have "\<exists>rb. dispatch (\<lambda>_. 0) 9 3 (?m @ []) (length ?m) demo_srv = Inr (demo_srv, [(3, rb)])
      \<and> reply_msg \<lparr>rp_xid = rq_xid ?h, rp_ret = oldsrv_failure\<rparr> [] rb"
    using dispatch_error_paths [OF m(1,3) c(1), of "\<lambda>_. 0" 9 "[]"] n(1,2) by blast
  moreover have "dispatch (\<lambda>_. 0) 9 3 (demo_msg @ []) (length demo_msg) (demo_srv\<lparr>sv_procs := Map.empty\<rparr>) = Inl Verify_Failed"
    using dispatch_error_paths [OF demo_msg_ok(1) _ c(2), of "\<lambda>_. 0" 9 "[]"] by (simp add: demo_msg_ok(2) demo_hdr_def)
  ultimately show ?thesis using m(2) n(3) by (simp add: demo_msg_ok(2))
qed

end
