(* ===== verification/Xid_Window.thy ===== *)
theory Xid_Window
  imports Rpc_Prelude
begin

text \<open>
  The window in which a client remembers which of its calls are over:
  \<open>rpcc::update_xid_rep\<close> of \<^verbatim>\<open>rpc/rpc.cc\<close> on the list \<open>xid_rep_window_\<close>.  The front of
  the list is what the client reports to the server as \<open>xid_rep\<close>.

  The list is sorted but may hold an identifier more than once: \<open>call1\<close> and \<open>got_pdu\<close>
  both report the end of the same call.  The abstract meaning of a window is a set of
  identifiers, \<open>xid_abs\<close>; \<open>update_xid_rep\<close> is insertion into it.
\<close>

section \<open>Definitions\<close>

text \<open>The insertion loop: before the first larger element, else at the end.\<close>

fun insert_xid :: "u32 \<Rightarrow> u32 list \<Rightarrow> u32 list" where
  "insert_xid xid [] = [xid]"
| "insert_xid xid (x # xs) = (if x > xid then xid # x # xs else x # insert_xid xid xs)"

text \<open>
  The compressing loop.  \<open>pre\<close> are the elements from the front to the iterator, the second
  argument those from the iterator on.  The inner loop pops the front as long as its
  successor is the element at the iterator; it stops there at the latest, since an element
  is not its own successor.
\<close>

fun compress_loop :: "u32 list \<Rightarrow> u32 list \<Rightarrow> u32 list" where
  "compress_loop pre [] = pre"
| "compress_loop pre (x # rest) = compress_loop (dropWhile (\<lambda>front. front + 1 = x) pre @ [x]) rest"

definition update_xid_rep :: "u32 \<Rightarrow> u32 list \<Rightarrow> u32 list result" where
  "update_xid_rep xid w =
     (case w of
        [] \<Rightarrow> Inl Out_Of_Bounds
      | front # _ \<Rightarrow>
          if xid \<le> front then Inr w
          else case insert_xid xid w of
            [] \<Rightarrow> Inl Out_Of_Bounds
          | x # xs \<Rightarrow> Inr (compress_loop [x] xs))"

text \<open>A sequence of calls.\<close>

primrec update_all :: "u32 list \<Rightarrow> u32 list \<Rightarrow> u32 list result" where
  "update_all [] w = Inr w"
| "update_all (x # xs) w = bind_r (update_xid_rep x w) (update_all xs)"

section \<open>Invariant and meaning\<close>

definition xid_inv :: "u32 list \<Rightarrow> bool" where
  "xid_inv w \<longleftrightarrow> w \<noteq> [] \<and> sorted w \<and> hd w + 1 \<notin> set w"

definition xid_abs :: "u32 list \<Rightarrow> u32 set" where
  "xid_abs w = {..hd w} \<union> set w"

lemma word_between_succ: "(x :: u32) < y \<Longrightarrow> y \<le> x + 1 \<Longrightarrow> y = x + 1"
  using inc_le [of x y] by (rule order.antisym [rotated])

lemma set_insert_xid [simp]: "set (insert_xid xid w) = insert xid (set w)"
  by (induction w) auto

lemma sorted_insert_xid: "sorted w \<Longrightarrow> sorted (insert_xid xid w)"
  by (induction w) (auto simp: not_less)

lemma hd_insert_xid: "w \<noteq> [] \<Longrightarrow> hd w < xid \<Longrightarrow> insert_xid xid w = hd w # insert_xid xid (tl w)"
  by (cases w) (auto simp: not_less less_imp_le)

text \<open>
  One pass of the compressing loop.  Before it, no element in front of the iterator is the
  successor of the front; if the element at the iterator is, everything before it is
  dropped, and otherwise nothing is.
\<close>

lemma compress_pass:
  fixes pre :: "u32 list"
  assumes "pre \<noteq> []" "sorted (pre @ [x])" "hd pre + 1 \<notin> set pre"
  shows "dropWhile (\<lambda>front. front + 1 = x) pre = (if hd pre + 1 = x then [] else pre)"
proof (cases "hd pre + 1 = x")
  case True
  have "f + 1 = x" if f: "f \<in> set pre" for f
  proof -
    have "hd pre \<le> f" using assms(1,2) f by (cases pre) auto
    moreover have "f \<le> hd pre + 1" using assms(2) f True by (auto simp: sorted_append)
    moreover have "f \<noteq> hd pre + 1" using assms(3) f by blast
    ultimately have "f = hd pre" using word_between_succ [of "hd pre" f] by fastforce
    then show ?thesis using True by simp
  qed
  then have "dropWhile (\<lambda>front. front + 1 = x) pre = []" by (simp add: dropWhile_eq_Nil_conv)
  then show ?thesis using True by simp
next
  case False
  then show ?thesis using assms(1) by (cases pre) auto
qed

lemma compress_loop_spec:
  "pre \<noteq> [] \<Longrightarrow> sorted (pre @ rest) \<Longrightarrow> hd pre + 1 \<notin> set pre \<Longrightarrow>
   xid_inv (compress_loop pre rest) \<and> xid_abs (compress_loop pre rest) = {..hd pre} \<union> set pre \<union> set rest"
proof (induction rest arbitrary: pre)
  case Nil
  then show ?case by (simp add: xid_inv_def xid_abs_def)
next
  case (Cons x rest)
  have s: "sorted (pre @ [x])" using Cons.prems(2) by (simp add: sorted_append)
  have drop: "dropWhile (\<lambda>front. front + 1 = x) pre = (if hd pre + 1 = x then [] else pre)"
    by (rule compress_pass [OF Cons.prems(1) s Cons.prems(3)])
  show ?case
  proof (cases "hd pre + 1 = x")
    case True
    have sub: "{..x} = insert x ({..hd pre} \<union> set pre)"
    proof -
      have "y = x \<or> y \<le> hd pre" if "y \<le> x" for y
        using that True word_between_succ [of "hd pre" y] by fastforce
      moreover have "y \<le> x" if "y \<in> set pre" for y using s that by (simp add: sorted_append)
      moreover have "hd pre \<le> x" using s Cons.prems(1) by (simp add: sorted_append)
      ultimately show ?thesis by (auto intro: order.trans)
    qed
    have eq: "compress_loop pre (x # rest) = compress_loop [x] rest"
      using drop True by (simp only: compress_loop.simps if_True append_Nil simp_thms)
    have "xid_inv (compress_loop [x] rest) \<and>
        xid_abs (compress_loop [x] rest) = {..hd [x]} \<union> set [x] \<union> set rest"
      using Cons.prems(2) by (intro Cons.IH) (auto simp: sorted_append)
    with sub show ?thesis unfolding eq by auto
  next
    case False
    have "xid_inv (compress_loop (pre @ [x]) rest) \<and>
        xid_abs (compress_loop (pre @ [x]) rest) = {..hd (pre @ [x])} \<union> set (pre @ [x]) \<union> set rest"
      using Cons.prems False by (intro Cons.IH) auto
    with False drop Cons.prems(1) show ?thesis by auto
  qed
qed

lemma update_xid_rep_spec:
  assumes "xid_inv w"
  obtains w' where "update_xid_rep xid w = Inr w'" "xid_inv w'" "xid_abs w' = insert xid (xid_abs w)"
proof -
  from assms obtain f xs where w: "w = f # xs" by (cases w) (auto simp: xid_inv_def)
  show ?thesis
  proof (cases "xid \<le> f")
    case True
    then have "update_xid_rep xid w = Inr w" "xid_abs w = insert xid (xid_abs w)"
      by (auto simp: update_xid_rep_def w xid_abs_def)
    with assms that show ?thesis by metis
  next
    case False
    then have ins: "insert_xid xid w = f # insert_xid xid xs" by (auto simp: w)
    have "sorted (f # insert_xid xid xs)"
      using sorted_insert_xid [of w xid] assms ins by (simp add: xid_inv_def)
    then have "xid_inv (compress_loop [f] (insert_xid xid xs)) \<and>
        xid_abs (compress_loop [f] (insert_xid xid xs)) = {..hd [f]} \<union> set [f] \<union> set (insert_xid xid xs)"
      by (intro compress_loop_spec) auto
    moreover have "update_xid_rep xid w = Inr (compress_loop [f] (insert_xid xid xs))"
      using False ins by (simp add: update_xid_rep_def w)
    ultimately show ?thesis using that by (auto simp: xid_abs_def w)
  qed
qed

lemma update_all_spec:
  "xid_inv w \<Longrightarrow> \<exists>w'. update_all xs w = Inr w' \<and> xid_inv w' \<and> xid_abs w' = set xs \<union> xid_abs w"
proof (induction xs arbitrary: w)
  case (Cons x xs)
  then obtain w1 where w1: "update_xid_rep x w = Inr w1" "xid_inv w1" "xid_abs w1 = insert x (xid_abs w)"
    using update_xid_rep_spec by blast
  then show ?case using Cons.IH [OF w1(2)] by auto
qed simp

lemma front_iff:
  assumes "xid_inv w"
  shows "n \<le> hd w \<longleftrightarrow> {..n} \<subseteq> xid_abs w"
proof
  assume sub: "{..n} \<subseteq> xid_abs w"
  show "n \<le> hd w"
  proof (rule ccontr)
    assume "\<not> n \<le> hd w"
    then have lt: "hd w < n" by simp
    then have "hd w + 1 \<in> xid_abs w" using sub inc_le by blast
    moreover have "\<not> hd w + 1 \<le> hd w" using lt inc_less_eq_self_iff_eq [of "hd w"] by auto
    ultimately show False using assms by (auto simp: xid_abs_def xid_inv_def)
  qed
qed (auto simp: xid_abs_def)

section \<open>Properties\<close>

text \<open>\<open>update_xid_rep\<close> is insertion into a set. On a window that satisfies its invariant
  (non-empty, sorted, compressed) the call returns, keeps the invariant, and adds exactly the
  reported identifier to the set the window stands for, also when it is already there.\<close>

theorem update_xid_rep_refines_insert:
  assumes "xid_inv w"
  shows "\<exists>w'. update_xid_rep xid w = Inr w' \<and> xid_inv w' \<and> xid_abs w' = insert xid (xid_abs w)"
  using update_xid_rep_spec [OF assms] by metis

theorem update_xid_rep_refines_insert_witness:
  "\<exists>w'. update_xid_rep 1 [0, 2, 2, 5] = Inr w' \<and> xid_inv w' \<and> xid_abs w' = insert 1 (xid_abs [0, 2, 2, 5])"
  by (rule update_xid_rep_refines_insert) (simp add: xid_inv_def)

text \<open>C21: what a client tells its server is exact. After any sequence of reports, in any order and
  with repetitions, starting from the window of the constructor, the front of the window, which
  every request carries as \<open>xid_rep\<close>, is at least \<open>n\<close> if and only if every call from 1 to \<open>n\<close>
  has been reported over.\<close>

theorem xid_rep_exact:
  "\<exists>w. update_all xs [0] = Inr w \<and> w \<noteq> [] \<and> (\<forall>n. n \<le> hd w \<longleftrightarrow> {1..n} \<subseteq> set xs)"
proof -
  have "xid_inv [0]" by (simp add: xid_inv_def)
  from update_all_spec [OF this] obtain w where w: "update_all xs [0] = Inr w" "xid_inv w"
      "xid_abs w = set xs \<union> xid_abs [0]" by blast
  have abs: "xid_abs w = insert 0 (set xs)" using w(3) by (auto simp: xid_abs_def)
  have "{..n} \<subseteq> insert 0 (set xs) \<longleftrightarrow> {1..n} \<subseteq> set xs" for n :: u32
  proof -
    have "x \<in> {..n} \<longleftrightarrow> x \<in> insert 0 {1..n}" for x :: u32
      using inc_le [of 0 x] by (cases "x = 0") (simp_all add: word_gt_0)
    then have "{..n} = insert 0 {1..n}" by blast
    then show ?thesis by auto
  qed
  then have "\<forall>n. n \<le> hd w \<longleftrightarrow> {1..n} \<subseteq> set xs" using front_iff [OF w(2)] abs by simp
  then show ?thesis using w(1,2) by (auto simp: xid_inv_def)
qed

end
