(* ===== verification/Timespec.thy ===== *)
theory Timespec
  imports Rpc_Prelude "HOL-Library.Signed_Division"
begin

text \<open>
  The time arithmetic and the address order at the end of \<^verbatim>\<open>rpc/rpc.cc\<close>:
  \<open>cmp_timespec\<close>, \<open>add_timespec\<close>, \<open>diff_timespec\<close> and \<open>operator<\<close> on socket
  addresses.  \<open>time_t\<close> and \<open>long\<close> are 64 bits wide and hold times of day, far from their
  bounds: they are \<open>int\<close>.  The results of type \<open>int\<close> are truncated to 32 bits where the
  code converts.  C's division and remainder round towards zero: \<open>sdiv\<close> and \<open>smod\<close>.
\<close>

section \<open>Definitions\<close>

datatype timespec = Timespec (tv_sec: int) (tv_nsec: int)

definition to_int32 :: "int \<Rightarrow> int" where
  "to_int32 k = sint (word_of_int k :: 32 word)"

definition cmp_timespec :: "timespec \<Rightarrow> timespec \<Rightarrow> int" where
  "cmp_timespec a b =
     (if tv_sec a > tv_sec b then 1
      else if tv_sec a < tv_sec b then -1
      else if tv_nsec a > tv_nsec b then 1
      else if tv_nsec a < tv_nsec b then -1
      else 0)"

function carry_nsec :: "int \<Rightarrow> int \<Rightarrow> int \<times> int" where
  "carry_nsec sec nsec =
     (if nsec > 1000000000 then carry_nsec (sec + 1) (nsec - 1000000000) else (sec, nsec))"
  by pat_completeness auto
termination
  by (relation "measure (\<lambda>(sec, nsec). nat nsec)") auto

declare carry_nsec.simps [simp del]

definition add_timespec :: "timespec \<Rightarrow> int \<Rightarrow> timespec result" where
  "add_timespec a b =
     (let sec = tv_sec a + b sdiv 1000;
          nsec = tv_nsec a + (b smod 1000) * 1000000
      in bind_r (VERIFY (nsec \<ge> 0)) (\<lambda>_.
         Inr (case carry_nsec sec nsec of (s, n) \<Rightarrow> Timespec s n)))"

definition diff_timespec :: "timespec \<Rightarrow> timespec \<Rightarrow> int result" where
  "diff_timespec end start =
     (let diff = (if tv_sec end > tv_sec start
                  then to_int32 ((tv_sec end - tv_sec start) * 1000) else 0)
      in bind_r (VERIFY (diff \<noteq> 0 \<or> tv_sec end = tv_sec start)) (\<lambda>_.
         Inr (if tv_nsec end > tv_nsec start
              then to_int32 (diff + (tv_nsec end - tv_nsec start) sdiv 1000000)
              else to_int32 (diff - (tv_nsec start - tv_nsec end) sdiv 1000000))))"

datatype sockaddr_in = Sockaddr_in (sin_family: u16) (sin_port: u16) (s_addr: u32)

definition sockaddr_less :: "sockaddr_in \<Rightarrow> sockaddr_in \<Rightarrow> bool" where
  "sockaddr_less a b \<longleftrightarrow>
     s_addr a < s_addr b \<or> (s_addr a = s_addr b \<and> sin_port a < sin_port b)"

section \<open>The order of times\<close>

text \<open>The order that \<open>cmp_timespec\<close> decides makes the type a linear order of the library.\<close>

instantiation timespec :: linorder
begin

definition less_eq_timespec :: "timespec \<Rightarrow> timespec \<Rightarrow> bool" where
  "less_eq_timespec a b \<longleftrightarrow> cmp_timespec a b \<le> 0"

definition less_timespec :: "timespec \<Rightarrow> timespec \<Rightarrow> bool" where
  "less_timespec a b \<longleftrightarrow> cmp_timespec a b < 0"

instance
proof
  fix x y z :: timespec
  show "x < y \<longleftrightarrow> x \<le> y \<and> \<not> y \<le> x"
    by (simp add: less_timespec_def less_eq_timespec_def cmp_timespec_def)
  show "x \<le> x" by (simp add: less_eq_timespec_def cmp_timespec_def)
  show "x \<le> y \<Longrightarrow> y \<le> z \<Longrightarrow> x \<le> z"
    by (auto simp: less_eq_timespec_def cmp_timespec_def split: if_splits)
  show "x \<le> y \<Longrightarrow> y \<le> x \<Longrightarrow> x = y"
    by (cases x; cases y) (auto simp: less_eq_timespec_def cmp_timespec_def split: if_splits)
  show "x \<le> y \<or> y \<le> x" by (simp add: less_eq_timespec_def cmp_timespec_def)
qed

end

text \<open>The instant a time denotes, in nanoseconds, and the form the system calls accept.\<close>

definition total_ns :: "timespec \<Rightarrow> int" where
  "total_ns t = tv_sec t * 1000000000 + tv_nsec t"

definition normalised :: "timespec \<Rightarrow> bool" where
  "normalised t \<longleftrightarrow> 0 \<le> tv_nsec t \<and> tv_nsec t < 1000000000"

lemma carry_nsec_total: "carry_nsec s n = (s', n') \<Longrightarrow> s' * 1000000000 + n' = s * 1000000000 + n"
proof (induction s n rule: carry_nsec.induct)
  case (1 s n)
  then show ?case by (subst (asm) carry_nsec.simps) (auto split: if_splits)
qed

lemma carry_nsec_bound: "carry_nsec s n = (s', n') \<Longrightarrow> 0 \<le> n \<Longrightarrow> 0 \<le> n' \<and> n' \<le> 1000000000"
proof (induction s n rule: carry_nsec.induct)
  case (1 s n)
  then show ?case by (subst (asm) (2) carry_nsec.simps) (auto split: if_splits)
qed

lemma carry_nsec_once:
  "n \<le> 2000000000 \<Longrightarrow>
   carry_nsec s n = (if n > 1000000000 then (s + 1, n - 1000000000) else (s, n))"
  using carry_nsec.simps [of s n] carry_nsec.simps [of "s + 1" "n - 1000000000"] by simp

lemma add_timespec_nonneg:
  assumes "normalised a" "0 \<le> b"
  shows "add_timespec a b =
     (let n = tv_nsec a + b mod 1000 * 1000000 in
      Inr (if n > 1000000000 then Timespec (tv_sec a + b div 1000 + 1) (n - 1000000000)
           else Timespec (tv_sec a + b div 1000) n))"
proof -
  have "b sdiv 1000 = b div 1000" "b smod 1000 = b mod 1000"
    using assms(2) by (simp_all add: signed_divide_int_def signed_modulo_int_def sgn_if)
  moreover have "0 \<le> b mod 1000" "b mod 1000 \<le> 999" by simp_all
  ultimately show ?thesis using assms(1)
    by (simp add: add_timespec_def normalised_def Let_def carry_nsec_once)
qed

lemma add_timespec_total:
  assumes "normalised a" "0 \<le> b"
  shows "\<exists>r. add_timespec a b = Inr r \<and> total_ns r = total_ns a + b * 1000000 \<and>
           0 \<le> tv_nsec r \<and> tv_nsec r \<le> 1000000000 \<and>
           (normalised r \<longleftrightarrow> tv_nsec a + b mod 1000 * 1000000 \<noteq> 1000000000)"
proof -
  obtain q r where qr: "b div 1000 = q" "b mod 1000 = r" by blast
  have b: "b = 1000 * q + r" unfolding qr [symmetric] by simp
  have r: "0 \<le> r" "r \<le> 999" unfolding qr [symmetric] by simp_all
  have n: "0 \<le> tv_nsec a" "tv_nsec a < 1000000000" using assms(1) by (simp_all add: normalised_def)
  have eq: "add_timespec a b =
     Inr (if tv_nsec a + r * 1000000 > 1000000000
          then Timespec (tv_sec a + q + 1) (tv_nsec a + r * 1000000 - 1000000000)
          else Timespec (tv_sec a + q) (tv_nsec a + r * 1000000))" (is "_ = Inr ?t")
    using add_timespec_nonneg [OF assms] unfolding qr Let_def .
  have "total_ns ?t = total_ns a + b * 1000000"
    by (subst b) (simp add: total_ns_def)
  moreover have "0 \<le> tv_nsec ?t \<and> tv_nsec ?t \<le> 1000000000" using r n by simp
  moreover have "normalised ?t \<longleftrightarrow> tv_nsec a + r * 1000000 \<noteq> 1000000000"
    using r n by (auto simp: normalised_def)
  ultimately show ?thesis unfolding eq qr(2) by blast
qed

lemma cmp_timespec_later:
  assumes "total_ns b < total_ns a" "tv_nsec a \<le> 1000000000" "0 \<le> tv_nsec b"
  shows "cmp_timespec a b > 0"
  using assms by (auto simp: cmp_timespec_def total_ns_def)

section \<open>Properties\<close>

text \<open>the deadline arithmetic is exact. Adding a non-negative number of milliseconds to a
  time of day never fails and moves the instant by exactly that much; the nanoseconds of the
  result are at most \<open>10\<^sup>9\<close>, and they are exactly \<open>10\<^sup>9\<close>, outside the range that the timed wait
  accepts, precisely when the sum of the nanoseconds is.\<close>

theorem add_timespec_exact:
  assumes "normalised a" "0 \<le> b"
  shows "\<exists>r. add_timespec a b = Inr r \<and> total_ns r = total_ns a + b * 1000000 \<and>
           0 \<le> tv_nsec r \<and> tv_nsec r \<le> 1000000000 \<and>
           (normalised r \<longleftrightarrow> tv_nsec a + b mod 1000 * 1000000 \<noteq> 1000000000)"
  by (rule add_timespec_total [OF assms])

theorem add_timespec_exact_witness:
  "\<exists>r. add_timespec (Timespec 5 999000000) 1 = Inr r \<and> total_ns r = 6000000000 \<and> \<not> normalised r"
proof -
  have "normalised (Timespec 5 999000000)" by (simp add: normalised_def)
  from add_timespec_exact [OF this, of 1] show ?thesis by (auto simp: total_ns_def)
qed

text \<open>\<open>cmp_timespec\<close> compares instants: on normalised times its sign is the sign of the
  difference, so the order of deadlines in the retransmission loop is the order of time.\<close>

theorem cmp_timespec_instants:
  assumes "normalised a" "normalised b"
  shows "cmp_timespec a b = sgn (total_ns a - total_ns b)"
  using assms by (auto simp: cmp_timespec_def normalised_def total_ns_def sgn_if)

theorem cmp_timespec_instants_witness:
  "cmp_timespec (Timespec 2 1) (Timespec 1 999999999) = sgn (total_ns (Timespec 2 1) - total_ns (Timespec 1 999999999))"
  by (rule cmp_timespec_instants) (simp_all add: normalised_def)

text \<open>the elapsed time that the tests print is right to the millisecond. For an interval of
  less than 2000000 seconds that does not run backwards, \<open>diff_timespec\<close> returns, and its result
  differs from the true interval by less than a millisecond.\<close>

theorem diff_timespec_accuracy:
  assumes "normalised e" "normalised s" "total_ns s \<le> total_ns e" "tv_sec e - tv_sec s < 2000000"
  shows "\<exists>d. diff_timespec e s = Inr d \<and> \<bar>d * 1000000 - (total_ns e - total_ns s)\<bar> < 1000000"
proof -
  have id: "to_int32 k = k" if "- (2 ^ 31) \<le> k" "k < 2 ^ 31" for k
    using that by (simp add: to_int32_def sint_sbintrunc' signed_take_bit_int_eq_self)
  define D where "D = tv_sec e - tv_sec s"
  have D: "0 \<le> D" "D < 2000000"
    using assms by (auto simp: D_def total_ns_def normalised_def)
  define x where "x = tv_nsec e - tv_nsec s"
  have x: "-1000000000 < x" "x < 1000000000" using assms(1,2) by (auto simp: normalised_def x_def)
  have pos: "k sdiv 1000000 = k div 1000000" if "0 \<le> k" for k :: int
    using that by (simp add: signed_divide_int_def sgn_if)
  define d where "d = (if x > 0 then D * 1000 + x div 1000000 else D * 1000 - (- x) div 1000000)"
  have diff: "diff_timespec e s = Inr (to_int32 d)"
    using D by (auto simp: diff_timespec_def d_def x_def D_def Let_def pos id)
  have "\<bar>d * 1000000 - (D * 1000000000 + x)\<bar> < 1000000"
    unfolding d_def by (auto simp: abs_less_iff)
  moreover have "- (2 ^ 31) \<le> d" "d < 2 ^ 31" using D x unfolding d_def by auto
  ultimately show ?thesis using diff by (simp add: id total_ns_def D_def x_def algebra_simps)
qed

theorem diff_timespec_accuracy_witness:
  "\<exists>d. diff_timespec (Timespec 2 0) (Timespec 1 999999999) = Inr d \<and> \<bar>d * 1000000 - 1\<bar> < 1000000"
proof -
  have "normalised (Timespec 2 0)" "normalised (Timespec 1 999999999)"
    by (simp_all add: normalised_def)
  from diff_timespec_accuracy [OF this] show ?thesis by (simp add: total_ns_def)
qed

text \<open>\<open>operator<\<close> on socket addresses is the strict order by address and then port that a
  \<open>std::map\<close> key needs: never reflexive, transitive, and two addresses it does not order agree
  in both.\<close>

theorem sockaddr_less_strict_weak:
  "\<not> sockaddr_less a a \<and> (sockaddr_less a b \<and> sockaddr_less b c \<longrightarrow> sockaddr_less a c) \<and>
   ((\<not> sockaddr_less a b \<and> \<not> sockaddr_less b a) \<longleftrightarrow> (s_addr a = s_addr b \<and> sin_port a = sin_port b))"
  by (auto simp: sockaddr_less_def)

theorem sockaddr_less_strict_weak_witness:
  "sockaddr_less (Sockaddr_in 2 80 1) (Sockaddr_in 2 81 1) \<and>
   sockaddr_less (Sockaddr_in 2 81 1) (Sockaddr_in 2 1 2) \<and>
   sockaddr_less (Sockaddr_in 2 80 1) (Sockaddr_in 2 1 2)"
proof -
  have "sockaddr_less (Sockaddr_in 2 80 1) (Sockaddr_in 2 81 1)"
    "sockaddr_less (Sockaddr_in 2 81 1) (Sockaddr_in 2 1 2)"
    by (simp_all add: sockaddr_less_def)
  with sockaddr_less_strict_weak [of "Sockaddr_in 2 80 1" "Sockaddr_in 2 81 1" "Sockaddr_in 2 1 2"]
  show ?thesis by simp
qed

end
