(* ===== verification/Rpcc.thy ===== *)
theory Rpcc
  imports Stubs Xid_Window Timespec Conn_Store
begin

text \<open>
  The client endpoint: class \<open>rpcc\<close> of \<^verbatim>\<open>rpc/rpc.h\<close> and \<^verbatim>\<open>rpc/rpc.cc\<close>.  \<open>call1\<close> registers a call,
  sends its request, waits with growing timeouts until \<open>got_pdu\<close> delivers the reply, and
  takes the call off the list; the front of the window of theory \<open>Xid_Window\<close> travels in every request.

  A caller object lives on the stack of the thread that calls, and \<open>calls_\<close> holds its
  address: callers are named by their threads.  The answers of \<open>connect_to_dst\<close>, the clock and
  what other threads do while one waits are arguments.
\<close>

section \<open>State\<close>

record caller =
  ca_xid :: u32
  ca_un :: unmarshall
  ca_intret :: i32
  ca_done :: bool

text \<open>\<open>intret\<close> is not initialised.\<close>

definition caller_new :: "u32 \<Rightarrow> i32 \<Rightarrow> caller" where
  "caller_new xid junk = \<lparr>ca_xid = xid, ca_un = unmarshall_empty, ca_intret = junk, ca_done = False\<rparr>"

record request =
  dr_buf :: "byte list"
  dr_xid :: i32

definition request_clear :: request where
  "request_clear = \<lparr>dr_buf = [], dr_xid = - 1\<rparr>"

definition isvalid :: "request \<Rightarrow> bool" where
  "isvalid r \<longleftrightarrow> dr_xid r \<noteq> - 1"

record rpcc =
  cl_clt_nonce :: u32
  cl_srv_nonce :: u32
  cl_bind_done :: bool
  cl_xid :: u32
  cl_lossytest :: int
  cl_retrans :: bool
  cl_reachable :: bool
  cl_chan :: "nat option"
  cl_destroy_wait :: bool
  cl_calls :: "i32 \<rightharpoonup> nat"
  cl_callers :: "nat \<Rightarrow> caller"
  cl_window :: "u32 list"
  cl_dup_req :: request
  cl_xid_rep_done :: i32
  cl_store :: conn_store

definition to_max :: int where "to_max = 120000"

definition to_min :: int where "to_min = 1000"

definition rpcc_new :: "bool \<Rightarrow> u32 \<Rightarrow> int \<Rightarrow> i32 \<Rightarrow> rpcc" where
  "rpcc_new retrans rand lossy junk =
     \<lparr>cl_clt_nonce = (if retrans then rand else 0), cl_srv_nonce = 0, cl_bind_done = False, cl_xid = 1, cl_lossytest = lossy,
      cl_retrans = retrans, cl_reachable = True, cl_chan = None, cl_destroy_wait = False, cl_calls = Map.empty,
      cl_callers = (\<lambda>_. caller_new 0 junk), cl_window = [0], cl_dup_req = request_clear, cl_xid_rep_done = - 1,
      cl_store = Map.empty\<rparr>"

definition rpcc_set_reachable :: "bool \<Rightarrow> rpcc \<Rightarrow> rpcc" where
  "rpcc_set_reachable r s = s\<lparr>cl_reachable := r\<rparr>"

definition rpcc_id :: "rpcc \<Rightarrow> u32" where
  "rpcc_id s = cl_clt_nonce s"

definition islossy :: "rpcc \<Rightarrow> bool" where
  "islossy s \<longleftrightarrow> cl_lossytest s > 0"

section \<open>The start of a call\<close>

datatype begun = Refused i32 | Begun marshall i32 rpcc

text \<open>The first part of \<open>call1\<close>, under \<open>m_\<close>, in thread \<open>t\<close>: a status, or the packed request and its \<open>xid_rep\<close>.\<close>

definition call1_begin :: "memory \<Rightarrow> i32 \<Rightarrow> nat \<Rightarrow> u32 \<Rightarrow> marshall \<Rightarrow> rpcc \<Rightarrow> begun result" where
  "call1_begin mem junk t proc req s =
     (if proc \<noteq> rpc_bind \<and> \<not> cl_bind_done s \<or> proc = rpc_bind \<and> cl_bind_done s then Inr (Refused bind_failure)
      else if cl_destroy_wait s then Inr (Refused cancel_failure)
      else
        let xid = cl_xid s;
            s = s\<lparr>cl_xid := xid + 1, cl_calls := (cl_calls s)(xid \<mapsto> t), cl_callers := (cl_callers s)(t := caller_new xid junk)\<rparr>
        in case cl_window s of
             [] \<Rightarrow> Inl Out_Of_Bounds
           | front # _ \<Rightarrow>
               bind_r (pack_req_header mem req
                 \<lparr>rq_xid = xid, rq_proc = proc, rq_clt_nonce = cl_clt_nonce s, rq_srv_nonce = cl_srv_nonce s, rq_xid_rep = front\<rparr>) (\<lambda>req.
               Inr (Begun req front s)))"

section \<open>The channel\<close>

text \<open>
  \<open>get_refconn\<close>: a dead channel is replaced, \<open>new\<close> being what \<open>connect_to_dst\<close> returns, and the caller
  gets a reference in exchange for the one it had.
\<close>

definition gone :: "nat option \<Rightarrow> rpcc \<Rightarrow> bool result" where
  "gone ch s = (case ch of None \<Rightarrow> Inr True | Some d \<Rightarrow> bind_r (st_get (cl_store s) d) (\<lambda>c. Inr (cn_dead c)))"

definition install_chan :: "(nat \<times> conn) option \<Rightarrow> conn_store \<Rightarrow> rpcc \<Rightarrow> rpcc" where
  "install_chan new st s =
     (case new of
        None \<Rightarrow> s\<lparr>cl_chan := None, cl_store := st\<rparr>
      | Some (d, c) \<Rightarrow> s\<lparr>cl_chan := Some d, cl_store := st(d \<mapsto> c)\<rparr>)"

definition refresh_chan :: "(nat \<times> conn) option \<Rightarrow> rpcc \<Rightarrow> rpcc result" where
  "refresh_chan new s =
     bind_r (gone (cl_chan s) s) (\<lambda>g.
     if g then bind_r (st_unref_opt (cl_chan s) (cl_store s)) (\<lambda>st. Inr (install_chan new st s)) else Inr s)"

definition share_chan :: "nat option \<Rightarrow> rpcc \<Rightarrow> (nat option \<times> rpcc) result" where
  "share_chan ch s =
     (case cl_chan s of
        None \<Rightarrow> Inr (ch, s)
      | Some d \<Rightarrow>
          bind_r (st_unref_opt ch (cl_store s)) (\<lambda>st.
          bind_r (st_ref d st) (\<lambda>st. Inr (Some d, s\<lparr>cl_store := st\<rparr>))))"

definition get_refconn :: "(nat \<times> conn) option \<Rightarrow> nat option \<Rightarrow> rpcc \<Rightarrow> (nat option \<times> rpcc) result" where
  "get_refconn new ch s = bind_r (refresh_chan new s) (share_chan ch)"

text \<open>The saved duplicate that is sent again to test the server, once.\<close>

definition take_forgotten :: "rpcc \<Rightarrow> byte list option \<times> rpcc" where
  "take_forgotten s =
     (if isvalid (cl_dup_req s) \<and> sint (cl_xid_rep_done s) > sint (dr_xid (cl_dup_req s))
      then (Some (dr_buf (cl_dup_req s)), s\<lparr>cl_dup_req := request_clear\<rparr>)
      else (None, s))"

definition transmit :: "marshall \<Rightarrow> (nat \<times> conn) option \<Rightarrow> nat option \<Rightarrow> rpcc \<Rightarrow> (nat option \<times> rpcc \<times> (nat \<times> byte list) list) result" where
  "transmit req new ch s =
     bind_r (get_refconn new ch s) (\<lambda>(ch, s).
     case ch of
       None \<Rightarrow> Inr (None, s, [])
     | Some d \<Rightarrow>
         if cl_reachable s
         then (case take_forgotten s of (forgot, s) \<Rightarrow>
           bind_r (st_get (cl_store s) d) (\<lambda>_.
           Inr (Some d, s, (case forgot of None \<Rightarrow> [] | Some b \<Rightarrow> [(d, b)]) @ [(d, m_bytes req)])))
         else Inr (Some d, s, []))"

section \<open>The timed loop\<close>

record cloop =
  lo_final :: timespec
  lo_curr :: int
  lo_transmit :: bool
  lo_ch :: "nat option"

definition call1_start_loop :: "timespec \<Rightarrow> int \<Rightarrow> cloop result" where
  "call1_start_loop now to =
     bind_r (add_timespec now to) (\<lambda>final. Inr \<lparr>lo_final = final, lo_curr = to_min, lo_transmit = True, lo_ch = None\<rparr>)"

text \<open>The next deadline; the last one clears \<open>finaldeadline.tv_sec\<close>.\<close>

definition call1_deadline :: "timespec \<Rightarrow> cloop \<Rightarrow> (timespec \<times> cloop) result" where
  "call1_deadline now l =
     bind_r (add_timespec now (lo_curr l)) (\<lambda>next.
     if cmp_timespec next (lo_final l) > 0
     then Inr (lo_final l, l\<lparr>lo_final := Timespec 0 (tv_nsec (lo_final l))\<rparr>)
     else Inr (next, l))"

text \<open>After a timeout: send again if the connection is gone, and double the timeout.\<close>

definition call1_retry :: "bool \<Rightarrow> bool \<Rightarrow> cloop \<Rightarrow> cloop result" where
  "call1_retry retrans lost l =
     (let l = (if retrans \<and> lost then l\<lparr>lo_transmit := True\<rparr> else l) in
      if lo_curr l * 2 \<ge> 2 ^ 31 then Inl Signed_Overflow else Inr (l\<lparr>lo_curr := lo_curr l * 2\<rparr>))"

text \<open>
  One round of the loop per input: the answer of \<open>connect_to_dst\<close>, the clock, what the other threads do before
  the mutex of the call is taken, and the waits: each iteration of the inner loop waits once more unless the call is done, the
  other threads act meanwhile, and only \<open>ETIMEDOUT\<close> leaves the loop; when the wait is woken, by a
  signal or for no reason, or refuses its deadline, the loop goes on.  The result is none when the inputs are used up.
\<close>

datatype wait_result = Woken | ETIMEDOUT | EINVAL

record round_in =
  ri_new :: "(nat \<times> conn) option"
  ri_now :: timespec
  ri_rest :: "rpcc \<Rightarrow> rpcc"
  ri_waits :: "(wait_result \<times> (rpcc \<Rightarrow> rpcc)) list"

fun wait_reply :: "nat \<Rightarrow> (wait_result \<times> (rpcc \<Rightarrow> rpcc)) list \<Rightarrow> rpcc \<Rightarrow> rpcc option" where
  "wait_reply t [] s = (if ca_done (cl_callers s t) then Some s else None)"
| "wait_reply t ((w, rest) # ws) s =
     (if ca_done (cl_callers s t) then Some s
      else if w = ETIMEDOUT then Some (rest s) else wait_reply t ws (rest s))"

fun call1_loop ::
    "nat \<Rightarrow> marshall \<Rightarrow> round_in list \<Rightarrow> cloop \<Rightarrow> rpcc \<Rightarrow> (cloop \<times> rpcc \<times> (nat \<times> byte list) list) result option" where
  "call1_loop t req [] l s = None"
| "call1_loop t req (i # is) l s =
     (case (if lo_transmit l then transmit req (ri_new i) (lo_ch l) s else Inr (lo_ch l, s, [])) of
        Inl e \<Rightarrow> Some (Inl e)
      | Inr (ch, s, out) \<Rightarrow>
          let l = l\<lparr>lo_ch := ch, lo_transmit := False\<rparr> in
          if tv_sec (lo_final l) = 0 then Some (Inr (l, s, out))
          else case call1_deadline (ri_now i) l of
            Inl e \<Rightarrow> Some (Inl e)
          | Inr (_, l) \<Rightarrow>
              (case wait_reply t (ri_waits i) (ri_rest i s) of
                 None \<Rightarrow> None
               | Some s \<Rightarrow>
                   if ca_done (cl_callers s t) then Some (Inr (l, s, out))
                   else case bind_r (gone (lo_ch l) s) (\<lambda>g. call1_retry (cl_retrans s) g l) of
                     Inl e \<Rightarrow> Some (Inl e)
                   | Inr l \<Rightarrow>
                       (case call1_loop t req is l s of
                          None \<Rightarrow> None
                        | Some (Inl e) \<Rightarrow> Some (Inl e)
                        | Some (Inr (l, s, out')) \<Rightarrow> Some (Inr (l, s, out @ out')))))"

text \<open>
  What the platform promises of the inputs.  A timed wait refuses a deadline whose nanoseconds are not below \<open>10\<^sup>9\<close>, at once and always; with
  any other deadline it times out in the end, after finitely many other wake-ups, and not before the deadline by the clock that the next round reads.
\<close>

definition timed_waits :: "timespec \<Rightarrow> (wait_result \<times> (rpcc \<Rightarrow> rpcc)) list \<Rightarrow> bool" where
  "timed_waits d ws \<longleftrightarrow> (if normalised d then ETIMEDOUT \<in> fst ` set ws \<and> EINVAL \<notin> fst ` set ws else \<forall>w\<in>set ws. fst w = EINVAL)"

fun platform :: "round_in list \<Rightarrow> cloop \<Rightarrow> bool" where
  "platform [] l \<longleftrightarrow> True"
| "platform (i # is) l \<longleftrightarrow> normalised (ri_now i) \<and> (tv_sec (lo_final l) = 0 \<or>
     (case call1_deadline (ri_now i) l of
        Inl e \<Rightarrow> True
      | Inr (d, l) \<Rightarrow> timed_waits d (ri_waits i) \<and> (is \<noteq> [] \<longrightarrow> total_ns d \<le> total_ns (ri_now (hd is)))
          \<and> platform is (l\<lparr>lo_curr := lo_curr l * 2\<rparr>)))"

definition platform_from :: "timespec \<Rightarrow> int \<Rightarrow> round_in list \<Rightarrow> bool" where
  "platform_from now to is \<longleftrightarrow> normalised now \<and> (is \<noteq> [] \<longrightarrow> total_ns now \<le> total_ns (ri_now (hd is)))
     \<and> (case call1_start_loop now to of Inl e \<Rightarrow> True | Inr l \<Rightarrow> platform is l)"

section \<open>The end of a call\<close>

text \<open>
  The last part: the call is struck off and reported to the window, a cancelling thread is
  signalled (the flag), the request is kept as a duplicate in a lossy test, and the connection given up.
\<close>

definition call1_end :: "nat \<Rightarrow> marshall \<Rightarrow> i32 \<Rightarrow> nat option \<Rightarrow> rpcc \<Rightarrow> (i32 \<times> unmarshall \<times> bool \<times> rpcc) result" where
  "call1_end t req xid_rep ch s =
     (let ca = cl_callers s t;
          s = s\<lparr>cl_calls := (cl_calls s)(ca_xid ca := None)\<rparr>
      in bind_r (update_xid_rep (ca_xid ca) (cl_window s)) (\<lambda>w.
         let s = s\<lparr>cl_window := w\<rparr>;
             s = (if ca_done ca \<and> cl_lossytest s \<noteq> 0 then
                    let s = (if \<not> isvalid (cl_dup_req s) then s\<lparr>cl_dup_req := \<lparr>dr_buf = m_bytes req, dr_xid = ca_xid ca\<rparr>\<rparr> else s) in
                    if sint xid_rep > sint (cl_xid_rep_done s) then s\<lparr>cl_xid_rep_done := xid_rep\<rparr> else s
                  else s)
         in bind_r (st_unref_opt ch (cl_store s)) (\<lambda>st.
            Inr (if ca_done ca then ca_intret ca else timeout_failure, ca_un ca, cl_destroy_wait s, s\<lparr>cl_store := st\<rparr>))))"

text \<open>The whole of \<open>call1\<close>, with the inputs of its rounds: the status, the reader of the reply, and what was sent.\<close>

definition rpcc_call1 ::
    "memory \<Rightarrow> i32 \<Rightarrow> nat \<Rightarrow> timespec \<Rightarrow> int \<Rightarrow> round_in list \<Rightarrow> u32 \<Rightarrow> marshall \<Rightarrow> rpcc \<Rightarrow>
     (i32 \<times> unmarshall \<times> (nat \<times> byte list) list \<times> rpcc) result option" where
  "rpcc_call1 mem junk t now to ins proc req s =
     (case call1_begin mem junk t proc req s of
        Inl e \<Rightarrow> Some (Inl e)
      | Inr (Refused ret) \<Rightarrow> Some (Inr (ret, unmarshall_empty, [], s))
      | Inr (Begun m xr s) \<Rightarrow>
          (case call1_start_loop now to of
             Inl e \<Rightarrow> Some (Inl e)
           | Inr l \<Rightarrow>
               (case call1_loop t m ins l s of
                  None \<Rightarrow> None
                | Some (Inl e) \<Rightarrow> Some (Inl e)
                | Some (Inr (l, s, out)) \<Rightarrow>
                    Some (bind_r (call1_end t m xr (lo_ch l) s) (\<lambda>(ret, u, sig, s). Inr (ret, u, out, s))))))"

section \<open>Replies and cancellation\<close>

definition rpcc_got_pdu :: "byte list \<Rightarrow> nat \<Rightarrow> rpcc \<Rightarrow> rpcc result" where
  "rpcc_got_pdu b sz s =
     bind_r (unpack_reply_header (unmarshall_new (Some b) sz)) (\<lambda>(rep, h).
     if \<not> u_ok rep then Inr s
     else bind_r (update_xid_rep (rp_xid h) (cl_window s)) (\<lambda>w.
       let s = s\<lparr>cl_window := w\<rparr> in
       case cl_calls s (rp_xid h) of
         None \<Rightarrow> Inr s
       | Some t \<Rightarrow>
           let ca = cl_callers s t in
           if \<not> ca_done ca
           then Inr (s\<lparr>cl_callers := (cl_callers s)(t := ca\<lparr>ca_un := fst (take_in (ca_un ca) rep), ca_intret := rp_ret h, ca_done := True\<rparr>)\<rparr>)
           else Inr s))"

text \<open>\<open>cancel\<close>: every caller fails; then the thread waits, with \<open>destroy_wait_\<close> set, until no call is left.\<close>

definition cancel_mark :: "rpcc \<Rightarrow> rpcc" where
  "cancel_mark s =
     s\<lparr>cl_callers := (\<lambda>t. if t \<in> ran (cl_calls s) then (cl_callers s t)\<lparr>ca_done := True, ca_intret := cancel_failure\<rparr> else cl_callers s t)\<rparr>"

definition cancel_test :: "rpcc \<Rightarrow> bool \<times> rpcc" where
  "cancel_test s = (if cl_calls s \<noteq> Map.empty then (False, s\<lparr>cl_destroy_wait := True\<rparr>) else (True, s))"

text \<open>\<open>bind\<close>: the call of the reserved procedure, then the nonce of the server is kept.\<close>

definition rpcc_bind :: "memory \<Rightarrow> rpcc caller1 \<Rightarrow> i32 \<Rightarrow> rpcc \<Rightarrow> (i32 \<times> rpcc) result" where
  "rpcc_bind mem call1 junk s =
     bind_r (call_1 mem call1 put_int get_int rpc_bind 0 junk s) (\<lambda>(ret, r, s).
     if ret = 0 then Inr (ret, s\<lparr>cl_bind_done := True, cl_srv_nonce := r\<rparr>) else Inr (ret, s))"

text \<open>The destructor.\<close>

definition rpcc_delete :: "rpcc \<Rightarrow> conn_store result" where
  "rpcc_delete s =
     bind_r (case cl_chan s of
               None \<Rightarrow> Inr (cl_store s)
             | Some d \<Rightarrow> bind_r (st_get (cl_store s) d) (\<lambda>c. st_unref d ((cl_store s)(d \<mapsto> fst (closeconn c))))) (\<lambda>st.
     bind_r (VERIFY (cl_calls s = Map.empty)) (\<lambda>_. Inr st))"

section \<open>The loop ends\<close>

lemma st_no_overflow: "st_ref d st \<noteq> Inl Signed_Overflow" "st_unref d st \<noteq> Inl Signed_Overflow" "st_get st d \<noteq> Inl Signed_Overflow"
  by (auto simp: st_ops decref_def conn_delete_def Let_def VERIFY_def bind_r_eq_Inl split: option.splits)

lemma get_refconn_no_overflow: "get_refconn new ch s \<noteq> Inl Signed_Overflow"
proof -
  have "st_unref_opt ch st \<noteq> Inl Signed_Overflow" for ch st by (simp add: st_unref_opt_def st_no_overflow split: option.split)
  moreover have "gone ch s \<noteq> Inl Signed_Overflow" for ch s
    by (auto simp: gone_def bind_r_eq_Inl st_no_overflow split: option.splits)
  ultimately have "refresh_chan new s \<noteq> Inl Signed_Overflow" "share_chan ch u \<noteq> Inl Signed_Overflow" for u
    by (auto simp: refresh_chan_def share_chan_def bind_r_eq_Inl st_no_overflow split: option.splits if_splits)
  then show ?thesis by (simp add: get_refconn_def bind_r_eq_Inl)
qed

lemma transmit_no_overflow: "transmit req new ch s \<noteq> Inl Signed_Overflow"
  by (auto simp: transmit_def bind_r_eq_Inl get_refconn_no_overflow st_no_overflow split: option.splits if_splits prod.splits)

lemma gone_no_overflow: "gone ch s \<noteq> Inl Signed_Overflow"
  by (auto simp: gone_def bind_r_eq_Inl st_no_overflow split: option.splits)

lemma wait_reply_times_out: "ETIMEDOUT \<in> fst ` set ws \<Longrightarrow> \<exists>s'. wait_reply t ws s = Some s'"
proof (induction ws arbitrary: s)
  case (Cons w ws)
  then show ?case by (cases w) auto
qed simp

lemma platform_cong: "lo_final l = lo_final k \<Longrightarrow> lo_curr l = lo_curr k \<Longrightarrow> platform is l = platform is k"
proof (induction "is" arbitrary: l k)
  case (Cons i "is")
  have d: "call1_deadline (ri_now i) l = Inl e \<longleftrightarrow> call1_deadline (ri_now i) k = Inl e" for e
    using Cons.prems by (auto simp: call1_deadline_def bind_r_eq_Inl split: if_splits)
  show ?case
  proof (cases "call1_deadline (ri_now i) l")
    case (Inl e)
    then show ?thesis using d [of e] Cons.prems by simp
  next
    case (Inr x)
    obtain dl l' where x: "x = (dl, l')" by (cases x)
    obtain r where r: "add_timespec (ri_now i) (lo_curr l) = Inr r" using Inr by (auto simp: call1_deadline_def bind_r_eq_Inr)
    then obtain k' where k': "call1_deadline (ri_now i) k = Inr (dl, k')" "lo_final k' = lo_final l'" "lo_curr k' = lo_curr l'"
      using Inr x Cons.prems by (auto simp: call1_deadline_def split: if_splits)
    have "platform is (l'\<lparr>lo_curr := lo_curr l' * 2\<rparr>) = platform is (k'\<lparr>lo_curr := lo_curr k' * 2\<rparr>)"
      by (rule Cons.IH) (simp_all add: k')
    then show ?thesis using Inr x k' Cons.prems by simp
  qed
qed simp

lemma timeout_double_bound: "k < n \<Longrightarrow> n \<le> 21 \<Longrightarrow> 1000 * 2 ^ k * 2 < (2 ^ 31 :: int)"
proof -
  assume "k < n" "n \<le> 21"
  then have "(2 :: int) ^ k \<le> 2 ^ 20" by (intro power_increasing) auto
  then show ?thesis by simp
qed

text \<open>The wait of round \<open>k\<close> lasts at least its timeout, so at the start of round \<open>k\<close> at least \<open>1000 (2\<^sup>k - 1)\<close> milliseconds have passed.\<close>

lemma call1_deadline_step:
  assumes now: "normalised now" "start + 1000000 * (1000 * (2 ^ k - 1)) \<le> total_ns now" and cur: "lo_curr l = 1000 * 2 ^ k"
    and fin: "total_ns (lo_final l) < start + 1000000 * (1000 * (2 ^ n - 1))" "normalised (lo_final l)"
  obtains d l' where "call1_deadline now l = Inr (d, l')" "lo_curr l' = lo_curr l" "lo_ch l' = lo_ch l" "normalised d"
    "tv_sec (lo_final l') = 0 \<or> lo_final l' = lo_final l \<and> Suc k \<noteq> n \<and> start + 1000000 * (1000 * (2 ^ Suc k - 1)) \<le> total_ns d"
proof -
  have whole: "lo_curr l mod 1000 = 0" using cur by simp
  have "tv_nsec now \<noteq> 1000000000" using now(1) by (simp add: normalised_def)
  then obtain r where r: "add_timespec now (lo_curr l) = Inr r" "total_ns r = total_ns now + lo_curr l * 1000000" "tv_nsec r \<le> 1000000000" "normalised r"
    using add_timespec_total [OF now(1), of "lo_curr l"] whole cur by auto
  have more: "start + 1000000 * (1000 * (2 ^ Suc k - 1)) \<le> total_ns r" using r(2) now(2) cur by (simp add: algebra_simps)
  have "cmp_timespec r (lo_final l) > 0" if n: "Suc k = n"
    using more r(3) fin unfolding n by (intro cmp_timespec_later) (simp_all add: normalised_def)
  then show ?thesis using that r(1,4) more fin(2) by (cases "cmp_timespec r (lo_final l) > 0") (auto simp: call1_deadline_def)
qed

lemma call1_loop_ends:
  assumes "platform is l" "lo_curr l = 1000 * 2 ^ k" "n \<le> 21" "is \<noteq> []"
    "tv_sec (lo_final l) \<noteq> 0 \<Longrightarrow> k < n \<and> n - k < length is \<and> start + 1000000 * (1000 * (2 ^ k - 1)) \<le> total_ns (ri_now (hd is))
       \<and> total_ns (lo_final l) < start + 1000000 * (1000 * (2 ^ n - 1)) \<and> normalised (lo_final l)"
  shows "\<exists>r. call1_loop t req is l s = Some r \<and> r \<noteq> Inl Signed_Overflow"
  using assms
proof (induction "is" arbitrary: k l s)
  case (Cons i "is")
  show ?case
  proof (cases "if lo_transmit l then transmit req (ri_new i) (lo_ch l) s else Inr (lo_ch l, s, [])")
    case (Inl e)
    then show ?thesis using transmit_no_overflow by (auto split: if_splits)
  next
    case (Inr x)
    obtain ch s1 out where x: "x = (ch, s1, out)" by (cases x)
    define l1 where "l1 = l\<lparr>lo_ch := ch, lo_transmit := False\<rparr>"
    have l1: "lo_final l1 = lo_final l" "lo_curr l1 = 1000 * 2 ^ k" using Cons.prems(2) by (simp_all add: l1_def)
    show ?thesis
    proof (cases "tv_sec (lo_final l) = 0")
      case True
      then show ?thesis using Inr x by (simp add: Let_def)
    next
      case False
      note F = Cons.prems(5) [OF False]
      have p1: "platform (i # is) l1" using Cons.prems(1) platform_cong [of l1 l] l1 Cons.prems(2) by metis
      then have now: "normalised (ri_now i)" by simp
      obtain d l2 where l2: "call1_deadline (ri_now i) l1 = Inr (d, l2)" "lo_curr l2 = lo_curr l1" "lo_ch l2 = lo_ch l1" "normalised d"
        "tv_sec (lo_final l2) = 0 \<or> lo_final l2 = lo_final l1 \<and> Suc k \<noteq> n \<and> start + 1000000 * (1000 * (2 ^ Suc k - 1)) \<le> total_ns d"
        by (rule call1_deadline_step [OF now _ l1(2), of start n]) (use F l1(1) in auto)
      have P: "timed_waits d (ri_waits i)" "is \<noteq> [] \<Longrightarrow> total_ns d \<le> total_ns (ri_now (hd is))" "platform is (l2\<lparr>lo_curr := lo_curr l2 * 2\<rparr>)"
        using p1 False l1(1) l2(1) by simp_all
      obtain s2 where s2: "wait_reply t (ri_waits i) (ri_rest i s1) = Some s2"
        using wait_reply_times_out [of "ri_waits i" t "ri_rest i s1"] P(1) l2(4) unfolding timed_waits_def by (metis (no_types))
      show ?thesis
      proof (cases "ca_done (cl_callers s2 t)")
        case True
        then show ?thesis using Inr x l2(1) False s2 by (simp add: Let_def flip: l1_def)
      next
        case not_done: False
        show ?thesis
        proof (cases "bind_r (gone (lo_ch l2) s2) (\<lambda>g. call1_retry (cl_retrans s2) g l2)")
          case (Inl e)
          have "e \<noteq> Signed_Overflow"
            using Inl gone_no_overflow [of "lo_ch l2" s2] timeout_double_bound [of k n] F Cons.prems(3) l2(2) l1(2)
            by (auto simp: bind_r_eq_Inl call1_retry_def Let_def split: if_splits)
          then show ?thesis using Inr x l2(1) False s2 not_done Inl by (simp add: Let_def flip: l1_def)
        next
          case (Inr l3)
          have l3: "lo_curr l3 = 1000 * 2 ^ Suc k" "lo_final l3 = lo_final l2" "lo_curr l3 = lo_curr l2 * 2"
            using Inr l2(2) l1(2) by (auto simp: bind_r_eq_Inr call1_retry_def Let_def split: if_splits)
          have p3: "platform is l3" using P(3) platform_cong [of l3 "l2\<lparr>lo_curr := lo_curr l2 * 2\<rparr>"] l3 by simp
          have len: "is \<noteq> []" using F by (cases "is") auto
          have "\<exists>r. call1_loop t req is l3 s2 = Some r \<and> r \<noteq> Inl Signed_Overflow"
            by (rule Cons.IH [OF p3 l3(1) Cons.prems(3) len]) (use F l3(2) l2(5) l1(1) P(2) [OF len] in auto)
          then show ?thesis using \<open>_ = Inr x\<close> x l2(1) False s2 not_done Inr
            by (auto simp: Let_def l1_def [symmetric] split: sum.splits prod.splits option.splits)
        qed
      qed
    qed
  qed
qed simp

text \<open>With a final deadline that the wait refuses, and no reply, the loop does not come to an end.\<close>

definition silent :: "nat \<Rightarrow> round_in \<Rightarrow> bool" where
  "silent t i \<longleftrightarrow> (\<forall>s. \<not> ca_done (cl_callers s t) \<longrightarrow> \<not> ca_done (cl_callers (ri_rest i s) t))
     \<and> (\<forall>(w, rest)\<in>set (ri_waits i). \<forall>s. \<not> ca_done (cl_callers s t) \<longrightarrow> \<not> ca_done (cl_callers (rest s) t))"

lemma wait_reply_silent:
  assumes "\<forall>(w, rest)\<in>set ws. \<forall>s. \<not> ca_done (cl_callers s t) \<longrightarrow> \<not> ca_done (cl_callers (rest s) t)" "\<not> ca_done (cl_callers s t)"
    "wait_reply t ws s = Some s'"
  shows "\<not> ca_done (cl_callers s' t)" "ETIMEDOUT \<in> fst ` set ws"
proof -
  have "\<not> ca_done (cl_callers s' t) \<and> ETIMEDOUT \<in> fst ` set ws"
    using assms
  proof (induction ws arbitrary: s)
    case (Cons a ws)
    obtain w rest where a: "a = (w, rest)" by (cases a)
    have still: "\<not> ca_done (cl_callers (rest s) t)" using Cons.prems(1,2) a by simp
    show ?case
    proof (cases "w = ETIMEDOUT")
      case True
      then show ?thesis using Cons.prems(2,3) a still by auto
    next
      case False
      then have "wait_reply t ws (rest s) = Some s'" using Cons.prems(2,3) a by simp
      moreover have "\<forall>(w, rest)\<in>set ws. \<forall>s. \<not> ca_done (cl_callers s t) \<longrightarrow> \<not> ca_done (cl_callers (rest s) t)"
        using Cons.prems(1) by simp
      ultimately show ?thesis using Cons.IH [of "rest s"] still by simp
    qed
  qed simp
  then show "\<not> ca_done (cl_callers s' t)" "ETIMEDOUT \<in> fst ` set ws" by simp_all
qed

lemma refresh_chan_callers:
  assumes "refresh_chan new s = Inr s'"
  shows "cl_callers s' = cl_callers s"
proof -
  obtain g where g: "gone (cl_chan s) s = Inr g" using assms by (auto simp: refresh_chan_def bind_r_eq_Inr)
  show ?thesis
  proof (cases g)
    case True
    then obtain st where "s' = install_chan new st s" using assms g by (auto simp: refresh_chan_def bind_r_eq_Inr)
    then show ?thesis by (simp add: install_chan_def split: option.split)
  qed (use assms g in \<open>simp add: refresh_chan_def\<close>)
qed

lemma share_chan_callers:
  assumes "share_chan ch s = Inr (ch', s')"
  shows "cl_callers s' = cl_callers s"
proof (cases "cl_chan s")
  case (Some d)
  then obtain st where "s' = s\<lparr>cl_store := st\<rparr>" using assms unfolding share_chan_def by (auto simp only: option.case bind_r_eq_Inr sum.inject prod.inject)
  then show ?thesis by simp
qed (use assms in \<open>simp add: share_chan_def\<close>)

lemma get_refconn_callers:
  assumes "get_refconn new ch s = Inr (ch', s')"
  shows "cl_callers s' = cl_callers s"
proof -
  obtain u where "refresh_chan new s = Inr u" "share_chan ch u = Inr (ch', s')"
    using assms unfolding get_refconn_def bind_r_eq_Inr by blast
  then show ?thesis using refresh_chan_callers share_chan_callers by metis
qed

lemma transmit_keeps_callers:
  assumes "transmit req new ch s = Inr (ch', s', out)"
  shows "cl_callers s' = cl_callers s"
proof -
  obtain c u where u: "get_refconn new ch s = Inr (c, u)" using assms by (auto simp: transmit_def bind_r_eq_Inr)
  have "cl_callers s' = cl_callers u"
    using assms u by (auto simp: transmit_def take_forgotten_def bind_r_eq_Inr split: option.splits if_splits)
  then show ?thesis using get_refconn_callers [OF u] by simp
qed

lemma call1_loop_spins:
  assumes "platform is l" "tv_sec (lo_final l) \<noteq> 0" "\<not> normalised (lo_final l)" "\<forall>i\<in>set is. silent t i" "\<not> ca_done (cl_callers s t)"
  shows "call1_loop t req is l s \<noteq> Some (Inr x)"
  using assms
proof (induction "is" arbitrary: l s x)
  case (Cons i "is")
  show ?case
  proof (cases "if lo_transmit l then transmit req (ri_new i) (lo_ch l) s else Inr (lo_ch l, s, [])")
    case (Inl e)
    then show ?thesis by (simp split: if_splits)
  next
    case (Inr y)
    obtain ch s1 out where y: "y = (ch, s1, out)" by (cases y)
    define l1 where "l1 = l\<lparr>lo_ch := ch, lo_transmit := False\<rparr>"
    have l1: "lo_final l1 = lo_final l" "lo_curr l1 = lo_curr l" by (simp_all add: l1_def)
    have s1: "\<not> ca_done (cl_callers s1 t)" using Inr y Cons.prems(5) transmit_keeps_callers by (auto split: if_splits)
    have p1: "platform (i # is) l1" using Cons.prems(1) platform_cong [of l1 l] l1 by metis
    show ?thesis
    proof (cases "call1_deadline (ri_now i) l1")
      case (Inl e)
      then show ?thesis using \<open>_ = Inr y\<close> y Cons.prems(2) by (simp add: Let_def flip: l1_def)
    next
      case (Inr z)
      obtain d l2 where z: "z = (d, l2)" by (cases z)
      have P: "timed_waits d (ri_waits i)" "platform is (l2\<lparr>lo_curr := lo_curr l2 * 2\<rparr>)"
        using p1 Cons.prems(2) l1(1) Inr z by simp_all
      have i: "silent t i" using Cons.prems(4) by simp
      show ?thesis
      proof (cases "wait_reply t (ri_waits i) (ri_rest i s1)")
        case None
        then show ?thesis using \<open>_ = Inr y\<close> y Inr z Cons.prems(2) by (simp add: Let_def flip: l1_def)
      next
        case (Some s2)
        have s2: "\<not> ca_done (cl_callers s2 t)" "ETIMEDOUT \<in> fst ` set (ri_waits i)"
          using wait_reply_silent [OF _ _ Some] i s1 unfolding silent_def by blast+
        then have "normalised d" using P(1) by (auto simp: timed_waits_def split: if_splits)
        then have l2: "lo_final l2 = lo_final l" using Inr z Cons.prems(3) l1(1) by (auto simp: call1_deadline_def bind_r_eq_Inr split: if_splits)
        show ?thesis
        proof (cases "bind_r (gone (lo_ch l2) s2) (\<lambda>g. call1_retry (cl_retrans s2) g l2)")
          case (Inl e)
          then show ?thesis using \<open>_ = Inr y\<close> y Inr z Cons.prems(2) Some s2(1) by (simp add: Let_def flip: l1_def)
        next
          case retry: (Inr l3)
          then have l3: "lo_final l3 = lo_final l" "lo_curr l3 = lo_curr l2 * 2"
            using l2 by (auto simp: bind_r_eq_Inr call1_retry_def Let_def split: if_splits)
          have "platform is l3" using P(2) platform_cong [of l3 "l2\<lparr>lo_curr := lo_curr l2 * 2\<rparr>"] l3 l2 by simp
          then have "call1_loop t req is l3 s2 \<noteq> Some (Inr x')" for x'
            by (rule Cons.IH) (use Cons.prems(2-4) l3 s2 in auto)
          then show ?thesis using \<open>_ = Inr y\<close> y Inr z Cons.prems(2) Some s2(1) retry
            by (auto simp: Let_def l1_def [symmetric] split: sum.splits prod.splits option.splits)
        qed
      qed
    qed
  qed
qed simp

section \<open>The threads of a client\<close>

text \<open>Where a thread is inside \<open>call1\<close>: its xid, packed request, \<open>xid_rep\<close> and connection.\<close>

datatype cphase = CIdle | CCalling u32 marshall i32 "nat option"

record clsys =
  cy_cl :: rpcc
  cy_ph :: "nat \<Rightarrow> cphase"

datatype clevent =
    C_Begin nat u32 u32
  | C_Refused nat i32
  | C_Send "(nat \<times> byte list) list"
  | C_Pdu u32 i32
  | C_Return nat u32 i32
  | C_Cancel
  | C_Tau

text \<open>
  A thread leaves the loop when its call is done or its time is up, which may happen at any moment;
  how the loop measures time is the subject of the previous section.
\<close>

inductive cl_step :: "clsys \<Rightarrow> clevent \<Rightarrow> clsys \<Rightarrow> bool" where
  begins: "ph t = CIdle \<Longrightarrow> call1_begin mem junk t proc req s = Inr (Begun req' xr s') \<Longrightarrow>
     cl_step \<lparr>cy_cl = s, cy_ph = ph\<rparr> (C_Begin t (cl_xid s) xr) \<lparr>cy_cl = s', cy_ph = ph(t := CCalling (cl_xid s) req' xr None)\<rparr>"
| refused: "ph t = CIdle \<Longrightarrow> call1_begin mem junk t proc req s = Inr (Refused ret) \<Longrightarrow>
     cl_step \<lparr>cy_cl = s, cy_ph = ph\<rparr> (C_Refused t ret) \<lparr>cy_cl = s, cy_ph = ph\<rparr>"
| sends: "ph t = CCalling x req xr ch \<Longrightarrow>
     (\<And>d c. new = Some (d, c) \<Longrightarrow> cl_store s d = None \<and> (\<exists>fd now lossy. c = fst (conn_new fd now lossy))) \<Longrightarrow>
     transmit req new ch s = Inr (ch', s', out) \<Longrightarrow>
     cl_step \<lparr>cy_cl = s, cy_ph = ph\<rparr> (C_Send out) \<lparr>cy_cl = s', cy_ph = ph(t := CCalling x req xr ch')\<rparr>"
| pdu: "unpack_reply_header (unmarshall_new (Some b) sz) = Inr (rep, h) \<Longrightarrow> rpcc_got_pdu b sz s = Inr s' \<Longrightarrow>
     cl_step \<lparr>cy_cl = s, cy_ph = ph\<rparr> (if u_ok rep then C_Pdu (rp_xid h) (rp_ret h) else C_Tau) \<lparr>cy_cl = s', cy_ph = ph\<rparr>"
| returns: "ph t = CCalling x req xr ch \<Longrightarrow> call1_end t req xr ch s = Inr (ret, u, sig, s') \<Longrightarrow>
     cl_step \<lparr>cy_cl = s, cy_ph = ph\<rparr> (C_Return t x ret) \<lparr>cy_cl = s', cy_ph = ph(t := CIdle)\<rparr>"
| cancels: "cl_step \<lparr>cy_cl = s, cy_ph = ph\<rparr> C_Cancel \<lparr>cy_cl = cancel_mark s, cy_ph = ph\<rparr>"
| cancel_waits: "cl_step \<lparr>cy_cl = s, cy_ph = ph\<rparr> C_Tau \<lparr>cy_cl = snd (cancel_test s), cy_ph = ph\<rparr>"
| conn_changes: "cl_store s d = Some c \<Longrightarrow> cn_refno c' = cn_refno c \<Longrightarrow>
     cl_step \<lparr>cy_cl = s, cy_ph = ph\<rparr> C_Tau \<lparr>cy_cl = s\<lparr>cl_store := (cl_store s)(d \<mapsto> c')\<rparr>, cy_ph = ph\<rparr>"
| bound: "cl_step \<lparr>cy_cl = s, cy_ph = ph\<rparr> C_Tau \<lparr>cy_cl = s\<lparr>cl_bind_done := True, cl_srv_nonce := r\<rparr>, cy_ph = ph\<rparr>"
| reach: "cl_step \<lparr>cy_cl = s, cy_ph = ph\<rparr> C_Tau \<lparr>cy_cl = rpcc_set_reachable r s, cy_ph = ph\<rparr>"

inductive cl_run :: "rpcc \<Rightarrow> clevent list \<Rightarrow> clsys \<Rightarrow> bool" for s0 where
  cl_start: "cl_run s0 [] \<lparr>cy_cl = s0, cy_ph = (\<lambda>_. CIdle)\<rparr>"
| cl_more: "cl_run s0 es s \<Longrightarrow> cl_step s e s' \<Longrightarrow> cl_run s0 (es @ [e]) s'"

section \<open>What a client knows\<close>

text \<open>The calls that a sequence of events reports over.\<close>

definition reported :: "clevent list \<Rightarrow> u32 set" where
  "reported es = {x. (\<exists>r. C_Pdu x r \<in> set es) \<or> (\<exists>t r. C_Return t x r \<in> set es)}"

primrec calls_begun :: "clevent list \<Rightarrow> nat" where
  "calls_begun [] = 0"
| "calls_begun (e # es) = (case e of C_Begin t x xr \<Rightarrow> 1 | _ \<Rightarrow> 0) + calls_begun es"

lemma calls_begun_snoc: "calls_begun (es @ [e]) = calls_begun es + (case e of C_Begin t x xr \<Rightarrow> 1 | _ \<Rightarrow> 0)"
  by (induction es) auto

lemma reported_snoc: "reported (es @ [e]) = reported es \<union> (case e of C_Pdu x r \<Rightarrow> {x} | C_Return t x r \<Rightarrow> {x} | _ \<Rightarrow> {})"
  by (auto simp: reported_def split: clevent.splits)

text \<open>What \<open>transmit\<close> leaves alone.\<close>

definition same_calls :: "rpcc \<Rightarrow> rpcc \<Rightarrow> bool" where
  "same_calls s s' \<longleftrightarrow> cl_calls s' = cl_calls s \<and> cl_callers s' = cl_callers s \<and> cl_window s' = cl_window s \<and> cl_xid s' = cl_xid s"

lemma refresh_chan_calls: "refresh_chan new s = Inr s' \<Longrightarrow> same_calls s s'"
  by (auto simp: refresh_chan_def install_chan_def same_calls_def bind_r_eq_Inr split: option.splits if_splits)

lemma share_chan_calls: "share_chan ch s = Inr (ch', s') \<Longrightarrow> same_calls s s'"
  by (auto simp: share_chan_def same_calls_def bind_r_eq_Inr split: option.splits)

lemma get_refconn_calls: "get_refconn new ch s = Inr (ch', s') \<Longrightarrow> same_calls s s'"
  using refresh_chan_calls share_chan_calls by (fastforce simp: get_refconn_def same_calls_def bind_r_eq_Inr)

lemma transmit_calls:
  assumes "transmit req new ch s = Inr (ch', s', out)"
  shows "same_calls s s'"
proof -
  obtain ch1 s1 where 1: "get_refconn new ch s = Inr (ch1, s1)" using assms by (auto simp: transmit_def bind_r_eq_Inr)
  then have "same_calls s1 s'" using assms
    by (auto simp: transmit_def bind_r_eq_Inr same_calls_def take_forgotten_def split: option.splits if_splits prod.splits)
  then show ?thesis using get_refconn_calls [OF 1] by (simp add: same_calls_def)
qed

text \<open>
  The invariant: the window represents exactly the calls reported over; the outstanding calls
  are the ones on the list, under xids already given out; and a call that is done got its status from a
  reply with its own xid or from \<open>cancel\<close>.
\<close>

definition cl_ok :: "clevent list \<Rightarrow> clsys \<Rightarrow> bool" where
  "cl_ok es s \<longleftrightarrow>
     xid_inv (cl_window (cy_cl s)) \<and> xid_abs (cl_window (cy_cl s)) = insert 0 (reported es)
   \<and> unat (cl_xid (cy_cl s)) = 1 + calls_begun es
   \<and> (\<forall>t x req xr ch. cy_ph s t = CCalling x req xr ch \<longrightarrow>
        cl_calls (cy_cl s) x = Some t \<and> ca_xid (cl_callers (cy_cl s) t) = x \<and> unat x \<le> calls_begun es)
   \<and> (\<forall>x t. cl_calls (cy_cl s) x = Some t \<longrightarrow> (\<exists>req xr ch. cy_ph s t = CCalling x req xr ch))
   \<and> (\<forall>t x req xr ch. cy_ph s t = CCalling x req xr ch \<and> ca_done (cl_callers (cy_cl s) t) \<longrightarrow>
        C_Pdu x (ca_intret (cl_callers (cy_cl s) t)) \<in> set es
        \<or> ca_intret (cl_callers (cy_cl s) t) = cancel_failure \<and> C_Cancel \<in> set es)"

lemma cl_okD:
  assumes "cl_ok es s"
  shows "xid_inv (cl_window (cy_cl s))" "xid_abs (cl_window (cy_cl s)) = insert 0 (reported es)"
    "unat (cl_xid (cy_cl s)) = 1 + calls_begun es"
    "\<And>t x req xr ch. cy_ph s t = CCalling x req xr ch \<Longrightarrow>
        cl_calls (cy_cl s) x = Some t \<and> ca_xid (cl_callers (cy_cl s) t) = x \<and> unat x \<le> calls_begun es"
    "\<And>x t. cl_calls (cy_cl s) x = Some t \<Longrightarrow> \<exists>req xr ch. cy_ph s t = CCalling x req xr ch"
    "\<And>t x req xr ch. cy_ph s t = CCalling x req xr ch \<Longrightarrow> ca_done (cl_callers (cy_cl s) t) \<Longrightarrow>
        C_Pdu x (ca_intret (cl_callers (cy_cl s) t)) \<in> set es
        \<or> ca_intret (cl_callers (cy_cl s) t) = cancel_failure \<and> C_Cancel \<in> set es"
  using assms unfolding cl_ok_def by blast+

lemma cl_okI:
  assumes "xid_inv (cl_window (cy_cl s))" "xid_abs (cl_window (cy_cl s)) = insert 0 (reported es)"
    "unat (cl_xid (cy_cl s)) = 1 + calls_begun es"
    "\<And>t x req xr ch. cy_ph s t = CCalling x req xr ch \<Longrightarrow>
        cl_calls (cy_cl s) x = Some t \<and> ca_xid (cl_callers (cy_cl s) t) = x \<and> unat x \<le> calls_begun es"
    "\<And>x t. cl_calls (cy_cl s) x = Some t \<Longrightarrow> \<exists>req xr ch. cy_ph s t = CCalling x req xr ch"
    "\<And>t x req xr ch. cy_ph s t = CCalling x req xr ch \<Longrightarrow> ca_done (cl_callers (cy_cl s) t) \<Longrightarrow>
        C_Pdu x (ca_intret (cl_callers (cy_cl s) t)) \<in> set es
        \<or> ca_intret (cl_callers (cy_cl s) t) = cancel_failure \<and> C_Cancel \<in> set es"
  shows "cl_ok es s"
  unfolding cl_ok_def using assms by (intro conjI allI impI) auto

text \<open>Steps that change neither calls nor window.\<close>

lemma cl_ok_quiet:
  assumes ok: "cl_ok es s" and same: "same_calls (cy_cl s) (cy_cl s')"
    and ph: "\<And>t x. (\<exists>req xr ch. cy_ph s' t = CCalling x req xr ch) \<longleftrightarrow> (\<exists>req xr ch. cy_ph s t = CCalling x req xr ch)"
    and e: "reported (es @ [e]) = reported es" "calls_begun (es @ [e]) = calls_begun es"
  shows "cl_ok (es @ [e]) s'"
proof (rule cl_okI)
  note D = cl_okD [OF ok]
  show "xid_inv (cl_window (cy_cl s'))" "xid_abs (cl_window (cy_cl s')) = insert 0 (reported (es @ [e]))"
    "unat (cl_xid (cy_cl s')) = 1 + calls_begun (es @ [e])"
    using D(1-3) same e by (simp_all add: same_calls_def)
  fix t x req xr ch assume c: "cy_ph s' t = CCalling x req xr ch"
  then obtain r y h where p: "cy_ph s t = CCalling x r y h" using ph by blast
  show "cl_calls (cy_cl s') x = Some t \<and> ca_xid (cl_callers (cy_cl s') t) = x \<and> unat x \<le> calls_begun (es @ [e])"
    using D(4) [OF p] same e(2) by (simp add: same_calls_def)
  show "C_Pdu x (ca_intret (cl_callers (cy_cl s') t)) \<in> set (es @ [e])
      \<or> ca_intret (cl_callers (cy_cl s') t) = cancel_failure \<and> C_Cancel \<in> set (es @ [e])" if "ca_done (cl_callers (cy_cl s') t)"
    using D(6) [OF p] that same by (auto simp: same_calls_def)
next
  fix x t assume "cl_calls (cy_cl s') x = Some t"
  then show "\<exists>req xr ch. cy_ph s' t = CCalling x req xr ch" using cl_okD(5) [OF ok] same ph by (simp add: same_calls_def)
qed

lemma call1_begin_front: "call1_begin mem junk t proc req s = Inr (Begun req' xr s') \<Longrightarrow> xr = hd (cl_window s)"
  by (auto simp: call1_begin_def Let_def bind_r_eq_Inr split: if_splits list.splits)

lemma cl_ok_begin:
  assumes ok: "cl_ok es \<lparr>cy_cl = s, cy_ph = ph\<rparr>" and few: "calls_begun es + 2 < 2 ^ 32"
    and t: "ph t = CIdle" and b: "call1_begin mem junk t proc req s = Inr (Begun req' xr s')"
  shows "cl_ok (es @ [C_Begin t (cl_xid s) xr]) \<lparr>cy_cl = s', cy_ph = ph(t := CCalling (cl_xid s) req' xr None)\<rparr>"
proof -
  note D = cl_okD [OF ok, simplified]
  have s': "s' = s\<lparr>cl_xid := cl_xid s + 1, cl_calls := (cl_calls s)(cl_xid s \<mapsto> t), cl_callers := (cl_callers s)(t := caller_new (cl_xid s) junk)\<rparr>"
    using b by (auto simp: call1_begin_def Let_def bind_r_eq_Inr split: if_splits list.splits)
  have up: "unat (cl_xid s + 1) = unat (cl_xid s) + 1"
    using D(3) few by (simp add: unat_word_ariths)
  have fresh: "cl_calls s (cl_xid s) = None"
  proof (rule ccontr)
    assume "cl_calls s (cl_xid s) \<noteq> None"
    then obtain u where "cl_calls s (cl_xid s) = Some u" by blast
    then obtain r y h where "ph u = CCalling (cl_xid s) r y h" using D(5) by blast
    then show False using D(3) D(4) by fastforce
  qed
  show "cl_ok (es @ [C_Begin t (cl_xid s) xr]) \<lparr>cy_cl = s', cy_ph = ph(t := CCalling (cl_xid s) req' xr None)\<rparr>"
  proof (rule cl_okI, goal_cases)
    case (4 u x r y h)
    then show ?case
    proof (cases "u = t")
      case False
      then have "ph u = CCalling x r y h" using 4 by simp
      then have "cl_calls s x = Some u" "ca_xid (cl_callers s u) = x" "unat x \<le> calls_begun es" using D(4) by blast+
      moreover from this have "x \<noteq> cl_xid s" using fresh by auto
      ultimately show ?thesis using False s' by (simp add: calls_begun_snoc)
    qed (use 4 s' D(3) in \<open>auto simp: calls_begun_snoc caller_new_def\<close>)
  next
    case (5 x u)
    then show ?case using s' t D(5) by (force split: if_splits)
  next
    case (6 u x r y h)
    then show ?case using s' D(6) by (auto simp: caller_new_def split: if_splits)
  qed (use s' D up in \<open>simp_all add: reported_snoc calls_begun_snoc\<close>)
qed

text \<open>What \<open>got_pdu\<close> does, by cases.\<close>

lemma got_pdu_cases:
  assumes "unpack_reply_header (unmarshall_new (Some b) sz) = Inr (rep, h)" "rpcc_got_pdu b sz s = Inr s'" "xid_inv (cl_window s)"
  obtains (bad) "\<not> u_ok rep" "s' = s"
  | (news) w where "u_ok rep" "xid_inv w" "xid_abs w = insert (rp_xid h) (xid_abs (cl_window s))" "s' = s\<lparr>cl_window := w\<rparr>"
  | (answer) w t where "u_ok rep" "xid_inv w" "xid_abs w = insert (rp_xid h) (xid_abs (cl_window s))" "cl_calls s (rp_xid h) = Some t"
      "\<not> ca_done (cl_callers s t)" "s' = s\<lparr>cl_window := w, cl_callers := (cl_callers s)(t := (cl_callers s t)
         \<lparr>ca_un := fst (take_in (ca_un (cl_callers s t)) rep), ca_intret := rp_ret h, ca_done := True\<rparr>)\<rparr>"
proof -
  obtain w where w: "update_xid_rep (rp_xid h) (cl_window s) = Inr w" "xid_inv w" "xid_abs w = insert (rp_xid h) (xid_abs (cl_window s))"
    by (rule update_xid_rep_spec [OF assms(3)])
  have "\<not> u_ok rep \<and> s' = s \<or> u_ok rep \<and> s' = s\<lparr>cl_window := w\<rparr>
    \<or> (\<exists>t. u_ok rep \<and> cl_calls s (rp_xid h) = Some t \<and> \<not> ca_done (cl_callers s t) \<and> s' = s\<lparr>cl_window := w, cl_callers := (cl_callers s)(t := (cl_callers s t)
         \<lparr>ca_un := fst (take_in (ca_un (cl_callers s t)) rep), ca_intret := rp_ret h, ca_done := True\<rparr>)\<rparr>)"
    using assms(1,2) w(1) by (auto simp: rpcc_got_pdu_def Let_def split: if_splits option.splits)
  then show ?thesis using that w(2,3) by blast
qed

lemma cl_ok_pdu:
  assumes ok: "cl_ok es \<lparr>cy_cl = s, cy_ph = ph\<rparr>"
    and h: "unpack_reply_header (unmarshall_new (Some b) sz) = Inr (rep, h)" and g: "rpcc_got_pdu b sz s = Inr s'"
  shows "cl_ok (es @ [if u_ok rep then C_Pdu (rp_xid h) (rp_ret h) else C_Tau]) \<lparr>cy_cl = s', cy_ph = ph\<rparr>"
proof -
  note D = cl_okD [OF ok, simplified]
  from h g D(1) show ?thesis
  proof (cases rule: got_pdu_cases)
    case bad
    then show ?thesis using cl_ok_quiet [OF ok, of "\<lparr>cy_cl = s', cy_ph = ph\<rparr>" C_Tau]
      by (simp add: same_calls_def reported_snoc calls_begun_snoc)
  next
    case (news w)
    show ?thesis
    proof (rule cl_okI, goal_cases)
      case (6 u x r y h)
      then show ?case using news D(6) by fastforce
    qed (use news D in \<open>simp_all add: reported_snoc calls_begun_snoc insert_commute\<close>)
  next
    case (answer w t)
    show ?thesis
    proof (rule cl_okI, goal_cases)
      case (4 u x r y h')
      then show ?case using answer D(4) by (auto simp: calls_begun_snoc)
    next
      case (6 u x r y h')
      then show ?case
      proof (cases "u = t")
        case True
        obtain r' y' h'' where "ph t = CCalling (rp_xid h) r' y' h''" using D(5) answer(4) by blast
        then have "x = rp_xid h" using 6(1) True by simp
        then show ?thesis using True answer by simp
      next
        case False
        then show ?thesis using 6 answer D(6) by fastforce
      qed
    qed (use answer D in \<open>simp_all add: reported_snoc calls_begun_snoc insert_commute\<close>)
  qed
qed

lemma call1_endE:
  assumes "call1_end t req xr ch s = Inr (ret, u, sig, s')" "xid_inv (cl_window s)"
  obtains w where "xid_inv w" "xid_abs w = insert (ca_xid (cl_callers s t)) (xid_abs (cl_window s))" "cl_window s' = w"
    "cl_calls s' = (cl_calls s)(ca_xid (cl_callers s t) := None)" "cl_callers s' = cl_callers s" "cl_xid s' = cl_xid s"
    "ret = (if ca_done (cl_callers s t) then ca_intret (cl_callers s t) else timeout_failure)" "u = ca_un (cl_callers s t)"
    "\<exists>st. st_unref_opt ch (cl_store s) = Inr st \<and> cl_store s' = st" "cl_chan s' = cl_chan s"
proof -
  obtain w where w: "update_xid_rep (ca_xid (cl_callers s t)) (cl_window s) = Inr w" "xid_inv w"
    "xid_abs w = insert (ca_xid (cl_callers s t)) (xid_abs (cl_window s))"
    by (rule update_xid_rep_spec [OF assms(2)])
  then show ?thesis using assms(1) that [of w] by (auto simp: call1_end_def Let_def bind_r_eq_Inr split: if_splits)
qed

lemma cl_ok_return:
  assumes ok: "cl_ok es \<lparr>cy_cl = s, cy_ph = ph\<rparr>" and t: "ph t = CCalling x req xr ch"
    and e: "call1_end t req xr ch s = Inr (ret, u, sig, s')"
  shows "cl_ok (es @ [C_Return t x ret]) \<lparr>cy_cl = s', cy_ph = ph(t := CIdle)\<rparr>"
proof -
  note D = cl_okD [OF ok, simplified]
  have x: "ca_xid (cl_callers s t) = x" "cl_calls s x = Some t" using D(4) [OF t] by simp_all
  obtain w where w: "xid_inv w" "xid_abs w = insert x (xid_abs (cl_window s))" "cl_window s' = w"
    "cl_calls s' = (cl_calls s)(x := None)" "cl_callers s' = cl_callers s" "cl_xid s' = cl_xid s"
    using call1_endE [OF e D(1)] x(1) by metis
  show ?thesis
  proof (rule cl_okI, goal_cases)
    case (4 v y r z h)
    then have "v \<noteq> t" "ph v = CCalling y r z h" by (auto split: if_splits)
    moreover from this have "y \<noteq> x" using D(4) x(2) by fastforce
    ultimately show ?case using D(4) w by (simp add: calls_begun_snoc)
  next
    case (5 y v)
    then have y: "y \<noteq> x" "cl_calls s y = Some v" using w(4) by (auto split: if_splits)
    then obtain r z h where v: "ph v = CCalling y r z h" using D(5) by blast
    moreover have "v \<noteq> t" using v t y(1) by auto
    ultimately show ?case by simp
  next
    case (6 v y r z h)
    then show ?case using w D(6) by (auto split: if_splits)
  qed (use w D in \<open>simp_all add: reported_snoc calls_begun_snoc insert_commute\<close>)
qed

lemma cl_ok_cancel:
  assumes ok: "cl_ok es \<lparr>cy_cl = s, cy_ph = ph\<rparr>"
  shows "cl_ok (es @ [C_Cancel]) \<lparr>cy_cl = cancel_mark s, cy_ph = ph\<rparr>"
proof -
  note D = cl_okD [OF ok, simplified]
  show ?thesis
  proof (rule cl_okI, goal_cases)
    case (6 v y r z h)
    then have "v \<in> ran (cl_calls s)" using D(4) [of v y] by (auto simp: ran_def)
    then show ?case by (simp add: cancel_mark_def)
  qed (use D in \<open>auto simp: cancel_mark_def reported_snoc calls_begun_snoc\<close>)
qed

lemma cl_ok_step:
  assumes ok: "cl_ok es s" and step: "cl_step s e s'" and few: "calls_begun es + 2 < 2 ^ 32"
  shows "cl_ok (es @ [e]) s'"
  using step
proof cases
  case (begins ph t mem junk proc req s req' xr s')
  then show ?thesis using cl_ok_begin [OF _ few] ok by simp
next
  case (sends ph t x req xr ch new s ch' s' out)
  then show ?thesis using ok transmit_calls [OF sends(6)]
    by (intro cl_ok_quiet [OF ok]) (auto simp: reported_snoc calls_begun_snoc)
next
  case (pdu b sz rep h s s' ph)
  then show ?thesis using cl_ok_pdu ok by simp
next
  case (returns ph t x req xr ch s ret u sig s')
  then show ?thesis using cl_ok_return ok by simp
next
  case (cancels s ph)
  then show ?thesis using cl_ok_cancel ok by simp
qed (use ok in \<open>auto intro!: cl_ok_quiet [OF ok] simp: same_calls_def reported_snoc calls_begun_snoc cancel_test_def rpcc_set_reachable_def\<close>)

lemma cl_ok_start: "cl_ok [] \<lparr>cy_cl = rpcc_new retrans rand lossy junk, cy_ph = (\<lambda>_. CIdle)\<rparr>"
  by (rule cl_okI) (auto simp: rpcc_new_def xid_inv_def xid_abs_def reported_def)

lemma cl_run_ok:
  assumes "cl_run s0 es s" "s0 = rpcc_new retrans rand lossy junk" "calls_begun es + 2 < 2 ^ 32"
  shows "cl_ok es s"
  using assms
proof (induction rule: cl_run.induct)
  case cl_start
  then show ?case using cl_ok_start by simp
next
  case (cl_more es s e s')
  then have "calls_begun es + 2 < 2 ^ 32" by (simp add: calls_begun_snoc)
  then show ?case using cl_more cl_ok_step by blast
qed

section \<open>The references of a client\<close>

datatype cl_holder = Of_Chan | Of_Call nat

primrec call_conn :: "cphase \<Rightarrow> nat option" where
  "call_conn CIdle = None"
| "call_conn (CCalling x req xr ch) = ch"

primrec cl_owner :: "nat option \<Rightarrow> (nat \<Rightarrow> cphase) \<Rightarrow> cl_holder \<Rightarrow> nat option" where
  "cl_owner chan ph Of_Chan = chan"
| "cl_owner chan ph (Of_Call t) = call_conn (ph t)"

definition cl_counted :: "clsys \<Rightarrow> bool" where
  "cl_counted s \<longleftrightarrow> counted (cl_store (cy_cl s)) (cl_owner (cl_chan (cy_cl s)) (cy_ph s))"

lemma cl_owner_call: "cl_owner chan (ph(t := p)) = (cl_owner chan ph)(Of_Call t := call_conn p)"
proof
  show "cl_owner chan (ph(t := p)) k = ((cl_owner chan ph)(Of_Call t := call_conn p)) k" for k by (cases k) auto
qed

lemma cl_owner_chan: "cl_owner c ph = (cl_owner chan ph)(Of_Chan := c)"
proof
  show "cl_owner c ph k = ((cl_owner chan ph)(Of_Chan := c)) k" for k by (cases k) auto
qed

lemma st_unref_opt_counted:
  assumes "st_unref_opt ch st = Inr st'" "counted st ow" "ow k = ch"
  shows "counted st' (ow(k := None))"
  using assms by (cases ch) (auto simp: st_unref_opt_def fun_upd_idem intro: st_unref_counted)

lemma refresh_chan_counted:
  assumes r: "refresh_chan new s = Inr s'" and ok: "counted (cl_store s) (cl_owner (cl_chan s) ph)"
    and new: "\<And>d c. new = Some (d, c) \<Longrightarrow> cl_store s d = None \<and> (\<exists>fd now lossy. c = fst (conn_new fd now lossy))"
  shows "counted (cl_store s') (cl_owner (cl_chan s') ph)"
proof (cases "s' = s")
  case False
  then obtain st where st: "st_unref_opt (cl_chan s) (cl_store s) = Inr st" "s' = install_chan new st s"
    using r by (auto simp: refresh_chan_def bind_r_eq_Inr split: if_splits)
  have drop: "counted st ((cl_owner (cl_chan s) ph)(Of_Chan := None))"
    by (rule st_unref_opt_counted [OF st(1) ok]) simp
  show ?thesis
  proof (cases new)
    case None
    then show ?thesis using st(2) drop cl_owner_chan [of None ph "cl_chan s"] by (simp add: install_chan_def)
  next
    case (Some p)
    obtain d c where p: "p = (d, c)" by (cases p)
    then obtain fd now lossy where c: "c = fst (conn_new fd now lossy)" "cl_store s d = None" using new Some by blast
    have "st d = None" using st(1) c(2)
      by (auto simp: st_unref_opt_def st_ops bind_r_eq_Inr split: option.splits)
    from counted_new [OF drop this, of Of_Chan] show ?thesis
      using st(2) Some p c(1) cl_owner_chan [of "Some d" ph "cl_chan s"] by (simp add: install_chan_def)
  qed
qed (use ok in simp)

lemma transmit_counted:
  assumes tr: "transmit req new ch s = Inr (ch', s', out)" and ok: "counted (cl_store s) (cl_owner (cl_chan s) ph)"
    and new: "\<And>d c. new = Some (d, c) \<Longrightarrow> cl_store s d = None \<and> (\<exists>fd now lossy. c = fst (conn_new fd now lossy))"
    and t: "ph t = CCalling x req0 xr ch"
  shows "counted (cl_store s') (cl_owner (cl_chan s') (ph(t := CCalling x req0 xr ch')))"
proof -
  obtain s1 s2 ch1 where 1: "refresh_chan new s = Inr s1" and 2: "share_chan ch s1 = Inr (ch1, s2)"
    using tr by (auto simp: transmit_def get_refconn_def bind_r_eq_Inr)
  then have g: "get_refconn new ch s = Inr (ch1, s2)" by (simp add: get_refconn_def)
  have 3: "ch' = ch1 \<and> cl_store s' = cl_store s2 \<and> cl_chan s' = cl_chan s2"
  proof (cases ch1)
    case None
    then show ?thesis using tr g by (simp add: transmit_def)
  next
    case (Some d)
    then show ?thesis using tr g by (auto simp: transmit_def bind_r_eq_Inr take_forgotten_def split: if_splits)
  qed
  note ok1 = refresh_chan_counted [OF 1 ok new]
  have "counted (cl_store s2) (cl_owner (cl_chan s2) (ph(t := CCalling x req0 xr ch1)))"
  proof (cases "cl_chan s1")
    case None
    then have "s2 = s1" "ch1 = ch" using 2 by (simp_all add: share_chan_def)
    then show ?thesis using ok1 t by (simp add: cl_owner_call fun_upd_idem)
  next
    case (Some d)
    then obtain st st' where st: "st_unref_opt ch (cl_store s1) = Inr st" "st_ref d st = Inr st'" "ch1 = Some d" "s2 = s1\<lparr>cl_store := st'\<rparr>"
      using 2 by (auto simp: share_chan_def bind_r_eq_Inr)
    have "counted st ((cl_owner (cl_chan s1) ph)(Of_Call t := None))"
      by (rule st_unref_opt_counted [OF st(1) ok1]) (use new t in auto)
    from st_ref_counted [OF st(2) this, of "Of_Call t"] show ?thesis using st(3,4) by (simp add: cl_owner_call)
  qed
  then show ?thesis using 3 by simp
qed

lemma cl_counted_step:
  assumes ok: "cl_counted s" and win: "xid_inv (cl_window (cy_cl s))" and step: "cl_step s e s'"
  shows "cl_counted s'"
  using step
proof cases
  case (begins ph t mem junk proc req s req' xr s')
  then have "cl_store s' = cl_store s" "cl_chan s' = cl_chan s"
    by (auto simp: call1_begin_def Let_def bind_r_eq_Inr split: if_splits list.splits)
  then show ?thesis using ok begins by (simp add: cl_counted_def cl_owner_call fun_upd_idem)
next
  case (sends ph t x req xr ch new s ch' s' out)
  have "counted (cl_store s') (cl_owner (cl_chan s') (ph(t := CCalling x req xr ch')))"
    by (rule transmit_counted [OF sends(6), of ph t]) (use ok sends(1,4,5) in \<open>auto simp: cl_counted_def\<close>)
  then show ?thesis using sends(3) by (simp add: cl_counted_def)
next
  case (pdu b sz rep h s s' ph)
  have "cl_store s' = cl_store s \<and> cl_chan s' = cl_chan s"
    using pdu(4,5) win pdu(1) by (auto elim: got_pdu_cases)
  then show ?thesis using ok pdu by (simp add: cl_counted_def)
next
  case (returns ph t x req xr ch s ret u sig s')
  obtain st where st: "st_unref_opt ch (cl_store s) = Inr st" "cl_store s' = st" "cl_chan s' = cl_chan s"
    using call1_endE [OF returns(5)] win returns(1) by (metis clsys.select_convs(1))
  have "counted st ((cl_owner (cl_chan s) ph)(Of_Call t := None))"
    by (rule st_unref_opt_counted [OF st(1)]) (use ok returns in \<open>simp_all add: cl_counted_def\<close>)
  then show ?thesis using returns st by (simp add: cl_counted_def cl_owner_call)
next
  case (conn_changes s d c c' ph)
  then show ?thesis using ok counted_alter by (simp add: cl_counted_def)
qed (use ok in \<open>simp_all add: cl_counted_def cancel_mark_def cancel_test_def rpcc_set_reachable_def\<close>)

lemma cl_run_counted:
  assumes "cl_run s0 es s" "s0 = rpcc_new retrans rand lossy junk" "calls_begun es + 2 < 2 ^ 32"
  shows "cl_counted s"
  using assms
proof (induction rule: cl_run.induct)
  case cl_start
  have "cl_owner None (\<lambda>_. CIdle) k = None" for k by (cases k) auto
  then show ?case using cl_start by (simp add: cl_counted_def counted_def rpcc_new_def)
next
  case (cl_more es s e s')
  then have few: "calls_begun es + 2 < 2 ^ 32" by (simp add: calls_begun_snoc)
  then show ?case using cl_more cl_counted_step cl_okD(1) [OF cl_run_ok [OF cl_more.hyps(1) cl_more.prems(1) few]] by blast
qed

section \<open>A first call\<close>

text \<open>The call that binds a client: it is sent, the reply with its xid arrives, it returns.\<close>

definition demo_reply :: "byte list" where
  "demo_reply = replicate 4 0 @ enc_reply_header \<lparr>rp_xid = 1, rp_ret = 0\<rparr> @ replicate 12 0 @ be32 7"

lemma demo_reply_msg: "reply_msg \<lparr>rp_xid = 1, rp_ret = 0\<rparr> (be32 7) demo_reply" "length demo_reply = 28"
  by (simp_all add: demo_reply_def reply_msg_def)

text \<open>The packed request of that call, and the states of the client after each step.\<close>

definition demo_req_header :: req_header where
  "demo_req_header = \<lparr>rq_xid = 1, rq_proc = rpc_bind, rq_clt_nonce = 5, rq_srv_nonce = 0, rq_xid_rep = 0\<rparr>"

definition demo_cl1 :: rpcc where
  "demo_cl1 = (rpcc_new True 5 0 0)\<lparr>cl_xid := 2, cl_calls := [1 \<mapsto> 0], cl_callers := (\<lambda>_. caller_new 0 0)(0 := caller_new 1 0)\<rparr>"

lemma demo_cl_begin:
  obtains req where "cl_step \<lparr>cy_cl = rpcc_new True 5 0 0, cy_ph = (\<lambda>_. CIdle)\<rparr> (C_Begin 0 1 0)
    \<lparr>cy_cl = demo_cl1, cy_ph = (\<lambda>_. CIdle)(0 := CCalling 1 req 0 None)\<rparr>"
proof -
  obtain b where b: "m_buf (marshall_new (\<lambda>_. 0)) = Some b" by (rule m_wfE [OF m_wf_new])
  note pk = pack_req_header_eq [OF m_wf_new b, of "\<lambda>_. 0" demo_req_header]
  define req where "req = (marshall_new (\<lambda>_. 0))\<lparr>m_buf := Some (overwrite 4 (enc_req_header demo_req_header) b)\<rparr>"
  have "call1_begin (\<lambda>_. 0) 0 0 rpc_bind (marshall_new (\<lambda>_. 0)) (rpcc_new True 5 0 0) = Inr (Begun req 0 demo_cl1)"
    using pk by (simp add: call1_begin_def rpcc_new_def req_def demo_cl1_def demo_req_header_def Let_def)
  from cl_step.begins [of "\<lambda>_. CIdle", OF _ this] show ?thesis using that by (simp add: rpcc_new_def)
qed

lemma demo_cl_run:
  "\<exists>s. cl_run (rpcc_new True 5 0 0) [C_Begin 0 1 0, C_Pdu 1 0, C_Return 0 1 0] s \<and> cl_xid (cy_cl s) = 2
     \<and> cl_window (cy_cl s) = [1] \<and> cy_ph s 0 = CIdle \<and> \<not> cl_bind_done (cy_cl s) \<and> \<not> cl_destroy_wait (cy_cl s)"
proof -
  let ?ph = "\<lambda>req. (\<lambda>_. CIdle)(0 := CCalling 1 req 0 None)"
  obtain req where 1: "cl_step \<lparr>cy_cl = rpcc_new True 5 0 0, cy_ph = (\<lambda>_. CIdle)\<rparr> (C_Begin 0 1 0) \<lparr>cy_cl = demo_cl1, cy_ph = ?ph req\<rparr>"
    by (rule demo_cl_begin)
  have len: "length demo_reply < 2 ^ 31" by (simp add: demo_reply_msg(2))
  obtain u where u: "unpack_reply_header (unmarshall_new (Some (demo_reply @ [])) (length demo_reply)) = Inr (u, \<lparr>rp_xid = 1, rp_ret = 0\<rparr>)"
    "u_at u (be32 7)" by (rule reply_msg_unpack [OF demo_reply_msg(1) len])
  define s2 where "s2 = demo_cl1\<lparr>cl_window := [1], cl_callers := (cl_callers demo_cl1)(0 := (caller_new 1 0)\<lparr>ca_un := fst (take_in unmarshall_empty u), ca_intret := 0, ca_done := True\<rparr>)\<rparr>"
  have ok: "u_ok u" using u(2) by (simp add: u_at_def)
  have up: "update_xid_rep 1 [0] = Inr [1]" "update_xid_rep 1 [1] = Inr [1]" by (simp_all add: update_xid_rep_def)
  have "rpcc_got_pdu demo_reply (length demo_reply) demo_cl1 = Inr s2"
    using u(1) ok up(1) by (simp add: rpcc_got_pdu_def demo_cl1_def s2_def rpcc_new_def Let_def caller_new_def)
  from cl_step.pdu [OF u(1) [simplified] this, of "?ph req"]
  have 2: "cl_step \<lparr>cy_cl = demo_cl1, cy_ph = ?ph req\<rparr> (C_Pdu 1 0) \<lparr>cy_cl = s2, cy_ph = ?ph req\<rparr>"
    using ok by simp
  define s3 where "s3 = s2\<lparr>cl_calls := (cl_calls s2)(1 := None)\<rparr>"
  have "call1_end 0 req 0 None s2 = Inr (0, ca_un (cl_callers s2 0), False, s3)"
    using up(2) by (simp add: call1_end_def s3_def s2_def demo_cl1_def rpcc_new_def Let_def st_unref_opt_def caller_new_def)
  from cl_step.returns [of "?ph req" 0, OF _ this]
  have 3: "cl_step \<lparr>cy_cl = s2, cy_ph = ?ph req\<rparr> (C_Return 0 1 0) \<lparr>cy_cl = s3, cy_ph = (?ph req)(0 := CIdle)\<rparr>"
    by simp
  show ?thesis using cl_more [OF cl_more [OF cl_more [OF cl_start 1] 2] 3]
    by (intro exI [of _ "\<lparr>cy_cl = s3, cy_ph = (?ph req)(0 := CIdle)\<rparr>"])
      (simp add: s3_def s2_def demo_cl1_def rpcc_new_def)
qed

text \<open>The next call tells the server that the first one is over.\<close>

lemma demo_cl_next:
  "\<exists>s. cl_run (rpcc_new True 5 0 0) [C_Begin 0 1 0, C_Pdu 1 0, C_Return 0 1 0, C_Begin 0 2 1] s"
proof -
  obtain s where s: "cl_run (rpcc_new True 5 0 0) [C_Begin 0 1 0, C_Pdu 1 0, C_Return 0 1 0] s" "cl_xid (cy_cl s) = 2"
    "cl_window (cy_cl s) = [1]" "cy_ph s 0 = CIdle" "\<not> cl_bind_done (cy_cl s)" "\<not> cl_destroy_wait (cy_cl s)"
    using demo_cl_run by blast
  obtain b where b: "m_buf (marshall_new (\<lambda>_. 0)) = Some b" by (rule m_wfE [OF m_wf_new])
  have "\<exists>req' s'. call1_begin (\<lambda>_. 0) 0 0 rpc_bind (marshall_new (\<lambda>_. 0)) (cy_cl s) = Inr (Begun req' 1 s')"
    using s(3,5,6) pack_req_header_eq [OF m_wf_new b] by (simp add: call1_begin_def Let_def)
  then obtain req' s' where "call1_begin (\<lambda>_. 0) 0 0 rpc_bind (marshall_new (\<lambda>_. 0)) (cy_cl s) = Inr (Begun req' 1 s')" by blast
  from cl_step.begins [of "cy_ph s", OF s(4) this] s(2)
  have "cl_step s (C_Begin 0 2 1) \<lparr>cy_cl = s', cy_ph = (cy_ph s)(0 := CCalling 2 req' 1 None)\<rparr>" by (cases s) simp
  from cl_more [OF s(1) this] show ?thesis by auto
qed

text \<open>A call that has connected and sent its request.\<close>

lemma demo_cl_sent:
  "\<exists>out s. cl_run (rpcc_new True 5 0 0) [C_Begin 0 1 0, C_Send out] s \<and> cl_owner (cl_chan (cy_cl s)) (cy_ph s) (Of_Call 0) = Some 3"
proof -
  obtain req where 1: "cl_step \<lparr>cy_cl = rpcc_new True 5 0 0, cy_ph = (\<lambda>_. CIdle)\<rparr> (C_Begin 0 1 0)
    \<lparr>cy_cl = demo_cl1, cy_ph = (\<lambda>_. CIdle)(0 := CCalling 1 req 0 None)\<rparr>"
    by (rule demo_cl_begin)
  let ?c = "fst (conn_new 4 (0, 0) 0)"
  have "\<exists>s'. transmit req (Some (3, ?c)) None demo_cl1 = Inr (Some 3, s', [(3, m_bytes req)])"
    by (simp add: transmit_def get_refconn_def refresh_chan_def share_chan_def gone_def install_chan_def st_unref_opt_def st_ops
        take_forgotten_def isvalid_def request_clear_def demo_cl1_def rpcc_new_def)
  then obtain s' where s': "transmit req (Some (3, ?c)) None demo_cl1 = Inr (Some 3, s', [(3, m_bytes req)])" by blast
  have "cl_step \<lparr>cy_cl = demo_cl1, cy_ph = (\<lambda>_. CIdle)(0 := CCalling 1 req 0 None)\<rparr> (C_Send [(3, m_bytes req)])
    \<lparr>cy_cl = s', cy_ph = ((\<lambda>_. CIdle)(0 := CCalling 1 req 0 None))(0 := CCalling 1 req 0 (Some 3))\<rparr>"
    by (rule cl_step.sends [OF _ _ s']) (auto simp: demo_cl1_def rpcc_new_def)
  from cl_more [OF cl_more [OF cl_start 1] this] show ?thesis by fastforce
qed

section \<open>Properties\<close>

lemma update_xid_rep_no_overflow: "update_xid_rep x w \<noteq> Inl Signed_Overflow"
  by (auto simp: update_xid_rep_def split: list.split)

lemma call1_end_no_overflow: "call1_end t req xr ch s \<noteq> Inl Signed_Overflow"
  by (simp add: call1_end_def Let_def bind_r_eq_Inl update_xid_rep_no_overflow st_unref_opt_def st_no_overflow split: option.split)

lemma call1_begin_no_overflow:
  assumes "m_wf req"
  shows "call1_begin mem junk t proc req s \<noteq> Inl Signed_Overflow"
proof -
  obtain b where "m_buf req = Some b" by (rule m_wfE [OF assms])
  then show ?thesis using pack_req_header_eq [OF assms] by (simp add: call1_begin_def Let_def split: list.split)
qed

lemma call1_loop_from_start:
  assumes "platform_from now to ins" "0 \<le> to" "to < 1000 * (2 ^ n - 1)" "n \<le> 21" "n < length ins"
    "tv_nsec now + to mod 1000 * 1000000 \<noteq> 1000000000"
  shows "\<exists>l. call1_start_loop now to = Inr l \<and> (\<exists>r. call1_loop t req ins l s = Some r \<and> r \<noteq> Inl Signed_Overflow)"
proof -
  have now: "normalised now" using assms(1) by (simp add: platform_from_def)
  obtain f where f: "add_timespec now to = Inr f" "total_ns f = total_ns now + to * 1000000" "normalised f"
    using add_timespec_total [OF now assms(2)] assms(6) by auto
  define l where "l = \<lparr>lo_final = f, lo_curr = to_min, lo_transmit = True, lo_ch = None\<rparr>"
  have l: "call1_start_loop now to = Inr l" "lo_curr l = 1000 * 2 ^ 0" "lo_final l = f"
    using f(1) by (simp_all add: call1_start_loop_def l_def to_min_def)
  have ne: "ins \<noteq> []" using assms(5) by auto
  have p: "platform ins l" "total_ns now \<le> total_ns (ri_now (hd ins))" using assms(1) l(1) ne by (simp_all add: platform_from_def)
  have n: "0 < n" using assms(2,3) by (cases n) auto
  have "\<exists>r. call1_loop t req ins l s = Some r \<and> r \<noteq> Inl Signed_Overflow"
    by (rule call1_loop_ends [OF p(1) l(2) assms(4) ne, where start = "total_ns now"]) (use assms(3,5) n f l(3) p(2) in auto)
  then show ?thesis using l(1) by blast
qed

text \<open>
  C17: a call ends.  A call with a timeout of less than \<open>1000 (2\<^sup>n - 1)\<close> milliseconds returns after at
  most \<open>n\<close> rounds of its loop, for \<open>n\<close> up to 21, whatever happens to its connections and however often its waits are woken; and the
  doubling of the timeout does not overflow.  This rests on what the platform promises of timed waits -- a wait with a deadline in range times out in the end, and
  not before its deadline -- and on the nanoseconds of the final deadline being in range: with the default timeout of two minutes they always are, and there are at most seven rounds.
\<close>

theorem call1_terminates:
  assumes "platform_from now to ins" "0 \<le> to" "to < 1000 * (2 ^ n - 1)" "n \<le> 21" "n < length ins" "m_wf req"
    and "tv_nsec now + to mod 1000 * 1000000 \<noteq> 1000000000"
  shows "\<exists>r. rpcc_call1 mem junk t now to ins proc req s = Some r \<and> r \<noteq> Inl Signed_Overflow"
proof (cases "call1_begin mem junk t proc req s")
  case (Inl e)
  then show ?thesis using call1_begin_no_overflow [OF assms(6)] by (auto simp: rpcc_call1_def)
next
  case (Inr b)
  show ?thesis
  proof (cases b)
    case (Begun m xr s1)
    obtain l r where l: "call1_start_loop now to = Inr l" "call1_loop t m ins l s1 = Some r" "r \<noteq> Inl Signed_Overflow"
      using call1_loop_from_start [OF assms(1-5,7)] by blast
    then show ?thesis using Inr Begun call1_end_no_overflow
      by (cases r) (auto simp: rpcc_call1_def bind_r_eq_Inl split: prod.splits)
  qed (simp add: rpcc_call1_def Inr)
qed

definition demo_rounds :: "nat \<Rightarrow> round_in list" where
  "demo_rounds n = map (\<lambda>k. \<lparr>ri_new = None, ri_now = Timespec (99 + 2 ^ k) 0, ri_rest = id, ri_waits = [(Woken, id), (ETIMEDOUT, id)]\<rparr>) [0..<n]"

lemma demo_platform: "platform_from (Timespec 100 0) 3000 (demo_rounds 4)"
proof -
  have add: "add_timespec (Timespec k 0) b = Inr (Timespec (k + b div 1000) 0)" if "0 \<le> b" "b mod 1000 = 0" for k b
    using add_timespec_nonneg [of "Timespec k 0" b] that by (simp add: normalised_def)
  have "demo_rounds 4 = map (\<lambda>k. \<lparr>ri_new = None, ri_now = Timespec k 0, ri_rest = id, ri_waits = [(Woken, id), (ETIMEDOUT, id)]\<rparr>) [100, 101, 103, 107]"
    by (simp add: demo_rounds_def upt_rec)
  then show ?thesis
    by (simp add: platform_from_def call1_start_loop_def call1_deadline_def to_min_def add cmp_timespec_def timed_waits_def normalised_def total_ns_def)
qed

theorem call1_terminates_witness:
  "\<exists>r. rpcc_call1 (\<lambda>_. 0) 0 0 (Timespec 100 0) 3000 (demo_rounds 4) rpc_bind (marshall_new (\<lambda>_. 0)) (rpcc_new True 5 0 0) = Some r \<and> r \<noteq> Inl Signed_Overflow"
  by (rule call1_terminates [where n = 3, OF demo_platform]) (simp_all add: normalised_def m_wf_new demo_rounds_def)

text \<open>
  A call that spins.  When the nanoseconds of the final deadline come out as exactly \<open>10\<^sup>9\<close>, which \<open>add_timespec\<close> does not carry, the timed
  wait refuses the deadline and the loop around it goes round without waiting: a call that has begun and gets no reply never returns, however long it
  goes on, although its timeout is over.
\<close>

theorem call1_spins:
  assumes "platform_from now to ins" "0 \<le> to" "0 \<le> tv_sec now" "tv_nsec now + to mod 1000 * 1000000 = 1000000000" "\<forall>i\<in>set ins. silent t i"
    and "call1_begin mem junk t proc req s = Inr (Begun m xr s1)" "tv_sec now + to div 1000 \<noteq> 0"
  shows "rpcc_call1 mem junk t now to ins proc req s \<noteq> Some (Inr x)"
proof -
  have now: "normalised now" using assms(1) by (simp add: platform_from_def)
  define l where "l = \<lparr>lo_final = Timespec (tv_sec now + to div 1000) 1000000000, lo_curr = to_min, lo_transmit = True, lo_ch = None\<rparr>"
  have l: "call1_start_loop now to = Inr l"
    using add_timespec_nonneg [OF now assms(2)] assms(4) by (simp add: call1_start_loop_def l_def)
  have "platform ins l" using assms(1) l by (simp add: platform_from_def)
  moreover have "\<not> ca_done (cl_callers s1 t)"
    using assms(6) by (auto simp: call1_begin_def Let_def bind_r_eq_Inr caller_new_def split: if_splits list.splits)
  ultimately have "call1_loop t m ins l s1 \<noteq> Some (Inr y)" for y
    by (intro call1_loop_spins) (use assms(5,7) in \<open>simp_all add: l_def normalised_def\<close>)
  then show ?thesis using assms(6) l by (auto simp: rpcc_call1_def split: option.splits sum.splits)
qed

definition demo_spin :: round_in where
  "demo_spin = \<lparr>ri_new = None, ri_now = Timespec 100 999000000, ri_rest = id, ri_waits = [(EINVAL, id), (EINVAL, id)]\<rparr>"

theorem call1_spins_witness:
  "(\<exists>b. call1_begin (\<lambda>_. 0) 0 0 rpc_bind (marshall_new (\<lambda>_. 0)) (rpcc_new True 5 0 0) = Inr b)
   \<and> (\<forall>x. rpcc_call1 (\<lambda>_. 0) 0 0 (Timespec 100 999000000) 1 [demo_spin] rpc_bind (marshall_new (\<lambda>_. 0)) (rpcc_new True 5 0 0) \<noteq> Some (Inr x))"
proof -
  obtain b where b: "m_buf (marshall_new (\<lambda>_. 0)) = Some b" by (rule m_wfE [OF m_wf_new])
  obtain m xr s1 where m: "call1_begin (\<lambda>_. 0) 0 0 rpc_bind (marshall_new (\<lambda>_. 0)) (rpcc_new True 5 0 0) = Inr (Begun m xr s1)"
    using pack_req_header_eq [OF m_wf_new b] by (simp add: call1_begin_def rpcc_new_def Let_def)
  have "platform_from (Timespec 100 999000000) 1 [demo_spin]"
    by (simp add: platform_from_def demo_spin_def call1_start_loop_def call1_deadline_def to_min_def add_timespec_nonneg cmp_timespec_def
        timed_waits_def normalised_def total_ns_def)
  then have "rpcc_call1 (\<lambda>_. 0) 0 0 (Timespec 100 999000000) 1 [demo_spin] rpc_bind (marshall_new (\<lambda>_. 0)) (rpcc_new True 5 0 0) \<noteq> Some (Inr x)" for x
    by (rule call1_spins) (use m in \<open>simp_all add: demo_spin_def silent_def\<close>)
  then show ?thesis using m by blast
qed

text \<open>
  C15: a call gets its own reply.  As long as the client has begun fewer than \<open>2\<^sup>3\<^sup>2 - 2\<close> calls, the status
  that a call returns is a timeout, or the status in a reply that carries the call's xid, or the
  failure that \<open>cancel\<close> gives; never the status of another call.
\<close>

theorem call_returns_own_reply:
  assumes "cl_run (rpcc_new retrans rand lossy junk) (es @ [C_Return t x ret]) s" "calls_begun es + 2 < 2 ^ 32"
  shows "ret = timeout_failure \<or> C_Pdu x ret \<in> set es \<or> ret = cancel_failure \<and> C_Cancel \<in> set es"
proof -
  obtain s' where r: "cl_run (rpcc_new retrans rand lossy junk) es s'" "cl_step s' (C_Return t x ret) s"
    using assms(1) by (cases rule: cl_run.cases) auto
  note ok = cl_run_ok [OF r(1) refl assms(2)]
  from r(2) show ?thesis
  proof cases
    case (returns ph req xr ch s u sig s')
    note D = cl_okD [OF ok, unfolded returns(1), simplified]
    have "ret = (if ca_done (cl_callers s t) then ca_intret (cl_callers s t) else timeout_failure)"
      using call1_endE [OF returns(4) D(1)] by metis
    then show ?thesis using D(6) [OF returns(3)] by auto
  next
    case (pdu b sz rep h s s' ph)
    then show ?thesis by (simp split: if_splits)
  qed
qed

theorem call_returns_own_reply_witness:
  "(0::i32) = timeout_failure \<or> C_Pdu 1 0 \<in> set [C_Begin 0 1 0, C_Pdu 1 0] \<or> (0::i32) = cancel_failure \<and> C_Cancel \<in> set [C_Begin 0 1 0, C_Pdu 1 0]"
  using demo_cl_run call_returns_own_reply [of True 5 0 0 "[C_Begin 0 1 0, C_Pdu 1 0]" 0 1 0] by auto

text \<open>
  C18: what a client acknowledges.  Every request carries a new xid, larger than those of all calls before
  it, and an \<open>xid_rep\<close> up to which every call is over: a reply with its xid has arrived or it has
  returned.  So the server is never told to forget the reply of a call that still waits for it.
\<close>

theorem client_acknowledges_finished:
  assumes "cl_run (rpcc_new retrans rand lossy junk) (es @ [C_Begin t x xr]) s" "calls_begun es + 2 < 2 ^ 32"
  shows "unat x = Suc (calls_begun es) \<and> (\<forall>y. 0 < y \<and> y \<le> xr \<longrightarrow> y \<in> reported es)"
proof -
  obtain s' where r: "cl_run (rpcc_new retrans rand lossy junk) es s'" "cl_step s' (C_Begin t x xr) s"
    using assms(1) by (cases rule: cl_run.cases) auto
  note ok = cl_run_ok [OF r(1) refl assms(2)]
  from r(2) show ?thesis
  proof cases
    case (begins ph mem junk' proc req s1 req' s2)
    note D = cl_okD [OF ok, unfolded begins(1), simplified]
    have "xr = hd (cl_window s1)"
      using begins(5) by (rule call1_begin_front)
    then have "{..xr} \<subseteq> insert 0 (reported es)" using front_iff [OF D(1), of xr] D(2) by simp
    then show ?thesis using D(3) begins(2) by auto
  next
    case (pdu b sz rep h s s' ph)
    then show ?thesis by (simp split: if_splits)
  qed
qed

theorem client_acknowledges_finished_witness:
  "unat (2::u32) = Suc (calls_begun [C_Begin 0 1 0, C_Pdu 1 0, C_Return 0 1 0]) \<and> 1 \<in> reported [C_Begin 0 1 0, C_Pdu 1 0, C_Return 0 1 0]"
proof -
  obtain s where "cl_run (rpcc_new True 5 0 0) ([C_Begin 0 1 0, C_Pdu 1 0, C_Return 0 1 0] @ [C_Begin 0 2 1]) s" using demo_cl_next by auto
  from client_acknowledges_finished [OF this] show ?thesis by simp
qed

text \<open>
  C27: no thread of a client uses a deleted connection: the channel and the connection of every
  outstanding call exist and their reference counts cover all of their holders.
\<close>

theorem client_references_safe:
  assumes "cl_run (rpcc_new retrans rand lossy junk) es s" "calls_begun es + 2 < 2 ^ 32"
    and "cl_owner (cl_chan (cy_cl s)) (cy_ph s) k = Some d"
  shows "\<exists>c. cl_store (cy_cl s) d = Some c \<and> int (card {j. cl_owner (cl_chan (cy_cl s)) (cy_ph s) j = Some d}) \<le> cn_refno c"
proof -
  have ok: "counted (cl_store (cy_cl s)) (cl_owner (cl_chan (cy_cl s)) (cy_ph s))"
    using cl_run_counted [OF assms(1) refl assms(2)] by (simp add: cl_counted_def)
  then show ?thesis using countedD(2) [OF ok assms(3)] countedD(3) [OF ok] by blast
qed

theorem client_references_safe_witness:
  "\<exists>(s :: clsys) c. cl_store (cy_cl s) 3 = Some c \<and> cl_owner (cl_chan (cy_cl s)) (cy_ph s) (Of_Call 0) = Some 3"
proof -
  obtain out s where s: "cl_run (rpcc_new True 5 0 0) [C_Begin 0 1 0, C_Send out] s" "cl_owner (cl_chan (cy_cl s)) (cy_ph s) (Of_Call 0) = Some 3"
    using demo_cl_sent by blast
  have "\<exists>c. cl_store (cy_cl s) 3 = Some c" using client_references_safe [OF s(1) _ s(2)] by auto
  then show ?thesis using s(2) by blast
qed

end
