(* ===== verification/Lock_Server.thy ===== *)
theory Lock_Server
  imports Rpc_Prelude
begin

text \<open>
  The lock service: \<^verbatim>\<open>lock_protocol.h\<close> and class \<open>lock_server\<close> of
  \<^verbatim>\<open>lock_server.cc\<close>.

  \<open>get_lock\<close> and \<open>drop_lock\<close> are the critical sections on \<open>lock_map_\<close>.  \<open>acquire_pass\<close> is one
  pass of \<open>acquire\<close> under \<open>lock_map_mutex_\<close>: it ends the call or waits on \<open>lock_cond_\<close>.
  \<open>lock_step\<close> is the server with any number of threads inside its handlers: the mutex
  makes each pass atomic, \<open>pthread_cond_signal\<close> moves one waiter, whichever the system
  chooses, back to the loop, and a waiter may also wake for no reason.

  The locale \<open>lock_table\<close> states what the two critical sections promise; the proofs about
  the threads use only its laws.
\<close>

section \<open>Definitions\<close>

type_synonym lockid_t = u64

definition lp_OK :: i32 where "lp_OK = 0"
definition lp_RETRY :: i32 where "lp_RETRY = 1"
definition lp_RPCERR :: i32 where "lp_RPCERR = 2"
definition lp_NOENT :: i32 where "lp_NOENT = 3"
definition lp_IOERR :: i32 where "lp_IOERR = 4"

lemmas lp_status_defs = lp_OK_def lp_RETRY_def lp_RPCERR_def lp_NOENT_def lp_IOERR_def

definition lp_acquire :: u32 where "lp_acquire = 0x7001"
definition lp_release :: u32 where "lp_release = 0x7002"
definition lp_stat :: u32 where "lp_stat = 0x7003"

record lock_server =
  nacquire :: i32
  lock_map :: "lockid_t \<rightharpoonup> i32"

definition lock_server_new :: lock_server where
  "lock_server_new = \<lparr>nacquire = 0, lock_map = Map.empty\<rparr>"

text \<open>\<open>stat\<close>: the status and what is stored in \<open>r\<close>.\<close>

definition ls_stat :: "i32 \<Rightarrow> lockid_t \<Rightarrow> lock_server \<Rightarrow> i32 \<times> i32" where
  "ls_stat clt lid s = (lp_OK, nacquire s)"

definition get_lock :: "i32 \<Rightarrow> lockid_t \<Rightarrow> lock_server \<Rightarrow> bool \<times> lock_server" where
  "get_lock clt lid s =
     (case lock_map s lid of
        None \<Rightarrow> (True, s\<lparr>lock_map := (lock_map s)(lid \<mapsto> clt)\<rparr>)
      | Some _ \<Rightarrow> (False, s))"

definition drop_lock :: "i32 \<Rightarrow> lockid_t \<Rightarrow> lock_server \<Rightarrow> bool \<times> lock_server" where
  "drop_lock clt lid s =
     (case lock_map s lid of
        None \<Rightarrow> (False, s)
      | Some c \<Rightarrow> if c = clt then (True, s\<lparr>lock_map := (lock_map s)(lid := None)\<rparr>) else (False, s))"

text \<open>One pass of \<open>acquire\<close>: \<open>None\<close> is the wait, else the status and \<open>r\<close>.\<close>

definition acquire_pass :: "i32 \<Rightarrow> lockid_t \<Rightarrow> lock_server \<Rightarrow> (i32 \<times> i32) option \<times> lock_server" where
  "acquire_pass clt lid s =
     (case get_lock clt lid s of (rst, s) \<Rightarrow> if rst then (Some (lp_OK, 0), s) else (None, s))"

text \<open>\<open>release\<close>: the status, \<open>r\<close>, and whether \<open>lock_cond_\<close> is signalled.\<close>

definition ls_release :: "i32 \<Rightarrow> lockid_t \<Rightarrow> lock_server \<Rightarrow> (i32 \<times> i32 \<times> bool) \<times> lock_server" where
  "ls_release clt lid s =
     (case drop_lock clt lid s of (rst, s) \<Rightarrow>
        if rst then ((lp_OK, 0, True), s) else ((lp_RETRY, - 1, False), s))"

section \<open>The threads of the server\<close>

datatype lphase = LIdle | LAcq i32 lockid_t | LWait i32 lockid_t | LRel i32 lockid_t

record lock_sys =
  lk_server :: lock_server
  lk_ph :: "nat \<Rightarrow> lphase"

datatype levent =
    Granted i32 lockid_t i32 i32
  | Dropped i32 lockid_t i32 i32
  | Stated i32 lockid_t i32 i32
  | LTau

definition signal_lock :: "(nat \<Rightarrow> lphase) \<Rightarrow> (nat \<Rightarrow> lphase) \<Rightarrow> bool" where
  "signal_lock ph ph' \<longleftrightarrow>
     (\<forall>t c l. ph t \<noteq> LWait c l) \<and> ph' = ph \<or>
     (\<exists>t c l. ph t = LWait c l \<and> ph' = ph(t := LAcq c l))"

inductive lock_step :: "lock_sys \<Rightarrow> levent \<Rightarrow> lock_sys \<Rightarrow> bool" where
  call_acquire: "ph t = LIdle \<Longrightarrow>
     lock_step \<lparr>lk_server = s, lk_ph = ph\<rparr> LTau \<lparr>lk_server = s, lk_ph = ph(t := LAcq c l)\<rparr>"
| call_release: "ph t = LIdle \<Longrightarrow>
     lock_step \<lparr>lk_server = s, lk_ph = ph\<rparr> LTau \<lparr>lk_server = s, lk_ph = ph(t := LRel c l)\<rparr>"
| acquired: "ph t = LAcq c l \<Longrightarrow> acquire_pass c l s = (Some (ret, r), s') \<Longrightarrow>
     lock_step \<lparr>lk_server = s, lk_ph = ph\<rparr> (Granted c l ret r) \<lparr>lk_server = s', lk_ph = ph(t := LIdle)\<rparr>"
| waits: "ph t = LAcq c l \<Longrightarrow> acquire_pass c l s = (None, s') \<Longrightarrow>
     lock_step \<lparr>lk_server = s, lk_ph = ph\<rparr> LTau \<lparr>lk_server = s', lk_ph = ph(t := LWait c l)\<rparr>"
| released: "ph t = LRel c l \<Longrightarrow> ls_release c l s = ((ret, r, sig), s') \<Longrightarrow>
     (if sig then signal_lock (ph(t := LIdle)) ph' else ph' = ph(t := LIdle)) \<Longrightarrow>
     lock_step \<lparr>lk_server = s, lk_ph = ph\<rparr> (Dropped c l ret r) \<lparr>lk_server = s', lk_ph = ph'\<rparr>"
| stated: "ph t = LIdle \<Longrightarrow> ls_stat c l s = (ret, r) \<Longrightarrow>
     lock_step \<lparr>lk_server = s, lk_ph = ph\<rparr> (Stated c l ret r) \<lparr>lk_server = s, lk_ph = ph\<rparr>"
| spurious: "ph t = LWait c l \<Longrightarrow>
     lock_step \<lparr>lk_server = s, lk_ph = ph\<rparr> LTau \<lparr>lk_server = s, lk_ph = ph(t := LAcq c l)\<rparr>"

inductive lock_run :: "levent list \<Rightarrow> lock_sys \<Rightarrow> bool" where
  start: "lock_run [] \<lparr>lk_server = lock_server_new, lk_ph = (\<lambda>_. LIdle)\<rparr>"
| more: "lock_run es s \<Longrightarrow> lock_step s e s' \<Longrightarrow> lock_run (es @ [e]) s'"

inductive_cases lock_stepE: "lock_step s e s'"

section \<open>The contract of a lock table\<close>

locale lock_table =
  fixes empty :: 's
    and get :: "'c \<Rightarrow> 'l \<Rightarrow> 's \<Rightarrow> bool \<times> 's"
    and drop :: "'c \<Rightarrow> 'l \<Rightarrow> 's \<Rightarrow> bool \<times> 's"
    and holder :: "'s \<Rightarrow> 'l \<Rightarrow> 'c option"
  assumes holder_empty: "holder empty l = None"
    and get_free: "holder s l = None \<Longrightarrow> \<exists>s'. get c l s = (True, s') \<and> holder s' = (holder s)(l \<mapsto> c)"
    and get_held: "holder s l \<noteq> None \<Longrightarrow> get c l s = (False, s)"
    and drop_own: "holder s l = Some c \<Longrightarrow> \<exists>s'. drop c l s = (True, s') \<and> holder s' = (holder s)(l := None)"
    and drop_other: "holder s l \<noteq> Some c \<Longrightarrow> drop c l s = (False, s)"
begin

lemma get_iff: "fst (get c l s) \<longleftrightarrow> holder s l = None"
  using get_free [of s l c] get_held [of s l c] by (cases "holder s l") auto

lemma drop_iff: "fst (drop c l s) \<longleftrightarrow> holder s l = Some c"
  using drop_own [of s l c] drop_other [of s l c] by (cases "holder s l = Some c") auto

lemma holder_get: "holder (snd (get c l s)) = (if holder s l = None then (holder s)(l \<mapsto> c) else holder s)"
  using get_free [of s l c] get_held [of s l c] by auto

lemma holder_drop: "holder (snd (drop c l s)) = (if holder s l = Some c then (holder s)(l := None) else holder s)"
  using drop_own [of s l c] drop_other [of s l c] by auto

text \<open>What one client gets, another neither gets nor drops.\<close>

lemma get_excludes: "fst (get c l s) \<Longrightarrow> \<not> fst (get d l (snd (get c l s)))"
  by (simp add: get_iff holder_get)

lemma get_then_drop_other: "fst (get c l s) \<Longrightarrow> d \<noteq> c \<Longrightarrow> \<not> fst (drop d l (snd (get c l s)))"
  by (simp add: get_iff drop_iff holder_get)

lemma get_then_drop:
  assumes "fst (get c l s)"
  shows "fst (drop c l (snd (get c l s))) \<and> holder (snd (drop c l (snd (get c l s)))) = holder s"
  using assms by (auto simp: get_iff drop_iff holder_get holder_drop fun_eq_iff)

end

interpretation locks: lock_table lock_server_new get_lock drop_lock lock_map
  by unfold_locales (auto simp: lock_server_new_def get_lock_def drop_lock_def split: option.split)

text \<open>
  The abstract lock service: a sequential object whose state is who holds what.  A grant needs a
  free lock, a release succeeds for the holder only, \<open>stat\<close> reports zero.
\<close>

fun lk_after :: "(lockid_t \<rightharpoonup> i32) \<Rightarrow> levent \<Rightarrow> (lockid_t \<rightharpoonup> i32)" where
  "lk_after m (Granted c l ret r) = m(l \<mapsto> c)"
| "lk_after m (Dropped c l ret r) = (if ret = lp_OK then m(l := None) else m)"
| "lk_after m _ = m"

fun lk_allows :: "(lockid_t \<rightharpoonup> i32) \<Rightarrow> levent \<Rightarrow> bool" where
  "lk_allows m (Granted c l ret r) \<longleftrightarrow> m l = None \<and> ret = lp_OK \<and> r = 0"
| "lk_allows m (Dropped c l ret r) \<longleftrightarrow>
     (if m l = Some c then ret = lp_OK \<and> r = 0 else ret = lp_RETRY \<and> r = - 1)"
| "lk_allows m (Stated c l ret r) \<longleftrightarrow> ret = lp_OK \<and> r = 0"
| "lk_allows m LTau \<longleftrightarrow> True"

fun lk_legal :: "(lockid_t \<rightharpoonup> i32) \<Rightarrow> levent list \<Rightarrow> bool" where
  "lk_legal m [] \<longleftrightarrow> True"
| "lk_legal m (e # es) \<longleftrightarrow> lk_allows m e \<and> lk_legal (lk_after m e) es"

section \<open>The server refines the lock service\<close>

lemma lp_distinct [simp]: "lp_RETRY \<noteq> lp_OK" "lp_OK \<noteq> lp_RETRY"
  by (simp_all add: lp_status_defs)

lemma nacquire_kept [simp]:
  "nacquire (snd (get_lock c l s)) = nacquire s" "nacquire (snd (drop_lock c l s)) = nacquire s"
  by (simp_all add: get_lock_def drop_lock_def split: option.split)

lemma acquire_pass_cases:
  "acquire_pass c l s = (if lock_map s l = None then (Some (lp_OK, 0), snd (get_lock c l s)) else (None, s))"
  using locks.get_iff [of c l s] locks.get_held [of s l c]
  by (auto simp: acquire_pass_def split_beta)

lemma ls_release_cases:
  "ls_release c l s = (if lock_map s l = Some c then ((lp_OK, 0, True), snd (drop_lock c l s))
     else ((lp_RETRY, - 1, False), s))"
  using locks.drop_iff [of c l s] locks.drop_other [of s l c]
  by (auto simp: ls_release_def split_beta)

lemma lk_legal_append: "lk_legal m (es @ fs) \<longleftrightarrow> lk_legal m es \<and> lk_legal (foldl lk_after m es) fs"
  by (induction es arbitrary: m) auto

lemma lock_step_spec:
  assumes "lock_step s e s'" "nacquire (lk_server s) = 0"
  shows "lk_allows (lock_map (lk_server s)) e \<and> lock_map (lk_server s') = lk_after (lock_map (lk_server s)) e
    \<and> nacquire (lk_server s') = 0"
  using assms
  by cases (auto simp: acquire_pass_cases ls_release_cases locks.holder_get locks.holder_drop ls_stat_def
      split: if_splits)

lemma lock_run_spec:
  "lock_run es s \<Longrightarrow> lk_legal Map.empty es \<and> lock_map (lk_server s) = foldl lk_after Map.empty es
     \<and> nacquire (lk_server s) = 0"
proof (induction rule: lock_run.induct)
  case (more es s e s')
  then show ?case using lock_step_spec [OF more.hyps(2)] by (simp add: lk_legal_append)
qed (simp add: lock_server_new_def)

lemma lk_held_until_drop:
  "lk_legal m es \<Longrightarrow> m l = Some c \<Longrightarrow> (\<forall>r. Dropped c l lp_OK r \<notin> set es) \<Longrightarrow>
   foldl lk_after m es l = Some c"
proof (induction es arbitrary: m)
  case (Cons e es)
  have "lk_after m e l = Some c"
    using Cons.prems by (cases e) (auto split: if_splits)
  then show ?case using Cons by auto
qed simp

section \<open>Wakeups\<close>

definition wants :: "lphase \<Rightarrow> lockid_t option" where
  "wants p = (case p of LAcq c l \<Rightarrow> Some l | LWait c l \<Rightarrow> Some l | _ \<Rightarrow> None)"

definition is_wait :: "lphase \<Rightarrow> bool" where
  "is_wait p = (case p of LWait c l \<Rightarrow> True | _ \<Rightarrow> False)"

definition is_acq :: "lphase \<Rightarrow> bool" where
  "is_acq p = (case p of LAcq c l \<Rightarrow> True | _ \<Rightarrow> False)"

lemmas phase_defs = wants_def is_wait_def is_acq_def

lemma wait_phase_simps [simp]:
  "wants (LAcq c l) = Some l" "wants (LWait c l) = Some l" "wants LIdle = None" "wants (LRel c l) = None"
  "is_wait (LWait c l)" "\<not> is_wait (LAcq c l)" "\<not> is_wait LIdle" "\<not> is_wait (LRel c l)"
  "is_acq (LAcq c l)" "\<not> is_acq (LWait c l)" "\<not> is_acq LIdle" "\<not> is_acq (LRel c l)"
  by (simp_all add: phase_defs)

text \<open>
  What holds while every acquire is for the one lock \<open>l\<close>: if it is free and somebody waits,
  somebody is on the way to take it.
\<close>

definition awake :: "(nat \<Rightarrow> lphase) \<Rightarrow> bool" where
  "awake ph \<longleftrightarrow> ((\<exists>t. is_wait (ph t)) \<longrightarrow> (\<exists>t. is_acq (ph t)))"

definition wake_inv :: "lockid_t \<Rightarrow> lock_sys \<Rightarrow> bool" where
  "wake_inv l s \<longleftrightarrow> (lock_map (lk_server s) l = None \<longrightarrow> awake (lk_ph s))"

definition only_lock :: "lockid_t \<Rightarrow> lock_sys \<Rightarrow> bool" where
  "only_lock l s \<longleftrightarrow> (\<forall>t. wants (lk_ph s t) \<in> {None, Some l})"

inductive lock_run1 :: "lockid_t \<Rightarrow> levent list \<Rightarrow> lock_sys \<Rightarrow> bool" for l where
  start1: "lock_run1 l [] \<lparr>lk_server = lock_server_new, lk_ph = (\<lambda>_. LIdle)\<rparr>"
| more1: "lock_run1 l es s \<Longrightarrow> lock_step s e s' \<Longrightarrow> only_lock l s' \<Longrightarrow> lock_run1 l (es @ [e]) s'"

lemma awake_signal: "signal_lock ph ph' \<Longrightarrow> awake ph'"
proof (unfold signal_lock_def, elim disjE exE conjE)
  assume none: "\<forall>t c l. ph t \<noteq> LWait c l" and "ph' = ph"
  then have "\<not> is_wait (ph' t)" for t by (cases "ph t") auto
  then show "awake ph'" by (simp add: awake_def)
next
  fix t c l
  assume "ph' = ph(t := LAcq c l)"
  then have "is_acq (ph' t)" by simp
  then show "awake ph'" unfolding awake_def by blast
qed

lemma awake_acq: "awake (ph(t := LAcq c l))"
  unfolding awake_def by (metis fun_upd_same wait_phase_simps(9))

lemma awake_upd: "awake ph \<Longrightarrow> \<not> is_acq (ph t) \<Longrightarrow> \<not> is_wait p \<Longrightarrow> awake (ph(t := p))"
  unfolding awake_def by (metis fun_upd_apply)

lemma only_lockD: "only_lock l s \<Longrightarrow> lk_ph s t = LAcq c m \<Longrightarrow> m = l"
  by (auto simp: only_lock_def dest!: spec [of _ t])

lemma wake_inv_step:
  assumes "lock_step s e s'" "wake_inv l s" "only_lock l s"
  shows "wake_inv l s'"
  using assms
proof cases
  case (acquired ph t c m)
  then have "m = l" using only_lockD [OF assms(3)] by simp
  then show ?thesis using acquired
    by (auto simp: wake_inv_def acquire_pass_cases locks.holder_get split: if_splits)
next
  case (waits ph t c m)
  then have "m = l" using only_lockD [OF assms(3)] by simp
  then show ?thesis using waits by (auto simp: wake_inv_def acquire_pass_cases split: if_splits)
next
  case (released ph t c m s0 ret r sig s1 ph')
  show ?thesis
  proof (cases sig)
    case True
    then show ?thesis using released awake_signal by (simp add: wake_inv_def)
  next
    case False
    then have "s1 = s0" "ph' = ph(t := LIdle)" using released by (auto simp: ls_release_cases split: if_splits)
    then show ?thesis using released assms(2) awake_upd [of ph t LIdle] by (simp add: wake_inv_def)
  qed
qed (auto simp: wake_inv_def awake_acq awake_upd)

lemma wake_inv_run: "lock_run1 l es s \<Longrightarrow> only_lock l s \<and> wake_inv l s"
proof (induction rule: lock_run1.induct)
  case start1
  then show ?case by (simp add: only_lock_def wake_inv_def awake_def)
next
  case (more1 es s e s')
  then show ?case using wake_inv_step by blast
qed

section \<open>Properties\<close>

text \<open>A run: client 10 takes lock 1 while client 20 waits, releases it, and client 20 gets it.\<close>

definition held_by :: "i32 \<Rightarrow> lock_server" where
  "held_by c = \<lparr>nacquire = 0, lock_map = [1 \<mapsto> c]\<rparr>"

lemma demo_first:
  "lock_run1 1 [LTau, Granted 10 1 lp_OK 0] \<lparr>lk_server = held_by 10, lk_ph = \<lambda>_. LIdle\<rparr>"
proof -
  have "lock_run1 1 ([] @ [LTau]) \<lparr>lk_server = lock_server_new, lk_ph = (\<lambda>_. LIdle)(0 := LAcq 10 1)\<rparr>"
    by (rule more1 [OF start1 lock_step.call_acquire]) (simp_all add: only_lock_def)
  then have "lock_run1 1 (([] @ [LTau]) @ [Granted 10 1 lp_OK 0])
      \<lparr>lk_server = held_by 10, lk_ph = (\<lambda>_. LIdle)(0 := LAcq 10 1, 0 := LIdle)\<rparr>"
    by (rule more1 [OF _ lock_step.acquired])
      (simp_all add: only_lock_def acquire_pass_def get_lock_def lock_server_new_def held_by_def)
  then show ?thesis by (simp add: fun_upd_idem)
qed

lemma demo_waiting:
  "lock_run1 1 [LTau, Granted 10 1 lp_OK 0, LTau, LTau, LTau]
     \<lparr>lk_server = held_by 10, lk_ph = (\<lambda>_. LIdle)(1 := LWait 20 1, 0 := LRel 10 1)\<rparr>"
proof -
  have "lock_run1 1 ([LTau, Granted 10 1 lp_OK 0] @ [LTau])
      \<lparr>lk_server = held_by 10, lk_ph = (\<lambda>_. LIdle)(1 := LAcq 20 1)\<rparr>"
    by (rule more1 [OF demo_first lock_step.call_acquire]) (simp_all add: only_lock_def)
  then have "lock_run1 1 (([LTau, Granted 10 1 lp_OK 0] @ [LTau]) @ [LTau])
      \<lparr>lk_server = held_by 10, lk_ph = (\<lambda>_. LIdle)(1 := LAcq 20 1, 1 := LWait 20 1)\<rparr>"
    by (rule more1 [OF _ lock_step.waits])
      (simp_all add: only_lock_def acquire_pass_def get_lock_def held_by_def)
  then have "lock_run1 1 ((([LTau, Granted 10 1 lp_OK 0] @ [LTau]) @ [LTau]) @ [LTau])
      \<lparr>lk_server = held_by 10, lk_ph = (\<lambda>_. LIdle)(1 := LAcq 20 1, 1 := LWait 20 1, 0 := LRel 10 1)\<rparr>"
    by (rule more1 [OF _ lock_step.call_release]) (simp_all add: only_lock_def)
  then show ?thesis by simp
qed

lemma demo_released:
  "lock_run1 1 [LTau, Granted 10 1 lp_OK 0, LTau, LTau, LTau, Dropped 10 1 lp_OK 0]
     \<lparr>lk_server = lock_server_new, lk_ph = (\<lambda>_. LIdle)(1 := LAcq 20 1)\<rparr>"
proof -
  have "signal_lock ((\<lambda>_. LIdle)(1 := LWait 20 1, 0 := LRel 10 1, 0 := LIdle))
      ((\<lambda>_. LIdle)(1 := LWait 20 1, 0 := LRel 10 1, 0 := LIdle, 1 := LAcq 20 1))"
    unfolding signal_lock_def by (intro disjI2 exI [of _ 1] exI [of _ 20]) simp
  then have "lock_run1 1 ([LTau, Granted 10 1 lp_OK 0, LTau, LTau, LTau] @ [Dropped 10 1 lp_OK 0])
     \<lparr>lk_server = lock_server_new,
      lk_ph = (\<lambda>_. LIdle)(1 := LWait 20 1, 0 := LRel 10 1, 0 := LIdle, 1 := LAcq 20 1)\<rparr>"
    by (intro more1 [OF demo_waiting lock_step.released [where t = 0 and sig = True]])
      (simp_all add: only_lock_def ls_release_def drop_lock_def held_by_def lock_server_new_def)
  moreover have "(\<lambda>_::nat. LIdle)(1 := LWait 20 1, 0 := LRel 10 1, 0 := LIdle, 1 := LAcq 20 1) =
      (\<lambda>_. LIdle)(1 := LAcq 20 1)" by (auto simp: fun_eq_iff)
  ultimately show ?thesis by simp
qed

lemma demo_second:
  "lock_run1 1 [LTau, Granted 10 1 lp_OK 0, LTau, LTau, LTau, Dropped 10 1 lp_OK 0, Granted 20 1 lp_OK 0]
     \<lparr>lk_server = held_by 20, lk_ph = \<lambda>_. LIdle\<rparr>"
proof -
  have "lock_run1 1 ([LTau, Granted 10 1 lp_OK 0, LTau, LTau, LTau, Dropped 10 1 lp_OK 0] @ [Granted 20 1 lp_OK 0])
     \<lparr>lk_server = held_by 20, lk_ph = (\<lambda>_. LIdle)(1 := LAcq 20 1, 1 := LIdle)\<rparr>"
    by (rule more1 [OF demo_released lock_step.acquired])
      (simp_all add: only_lock_def acquire_pass_def get_lock_def lock_server_new_def held_by_def)
  then show ?thesis by (simp add: fun_upd_idem)
qed

lemma demo_two_waiters:
  "lock_run1 1 [LTau, Granted 10 1 lp_OK 0, LTau, LTau, LTau, LTau, LTau, Dropped 10 1 lp_OK 0]
     \<lparr>lk_server = lock_server_new, lk_ph = (\<lambda>_. LIdle)(1 := LAcq 20 1, 2 := LWait 30 1)\<rparr>"
proof -
  let ?ph = "(\<lambda>_::nat. LIdle)(1 := LWait 20 1, 0 := LRel 10 1)"
  have "lock_run1 1 ([LTau, Granted 10 1 lp_OK 0, LTau, LTau, LTau] @ [LTau])
      \<lparr>lk_server = held_by 10, lk_ph = ?ph(2 := LAcq 30 1)\<rparr>"
    by (rule more1 [OF demo_waiting lock_step.call_acquire]) (simp_all add: only_lock_def)
  then have "lock_run1 1 (([LTau, Granted 10 1 lp_OK 0, LTau, LTau, LTau] @ [LTau]) @ [LTau])
      \<lparr>lk_server = held_by 10, lk_ph = ?ph(2 := LAcq 30 1, 2 := LWait 30 1)\<rparr>"
    by (rule more1 [OF _ lock_step.waits])
      (simp_all add: only_lock_def acquire_pass_def get_lock_def held_by_def)
  moreover have "signal_lock (?ph(2 := LAcq 30 1, 2 := LWait 30 1, 0 := LIdle))
      (?ph(2 := LAcq 30 1, 2 := LWait 30 1, 0 := LIdle, 1 := LAcq 20 1))"
    unfolding signal_lock_def by (intro disjI2 exI [of _ 1] exI [of _ 20]) simp
  ultimately have "lock_run1 1 ((([LTau, Granted 10 1 lp_OK 0, LTau, LTau, LTau] @ [LTau]) @ [LTau]) @
      [Dropped 10 1 lp_OK 0])
     \<lparr>lk_server = lock_server_new, lk_ph = ?ph(2 := LAcq 30 1, 2 := LWait 30 1, 0 := LIdle, 1 := LAcq 20 1)\<rparr>"
    by (elim more1 [OF _ lock_step.released [where t = 0 and sig = True]])
      (simp_all add: only_lock_def ls_release_def drop_lock_def held_by_def lock_server_new_def)
  moreover have "?ph(2 := LAcq 30 1, 2 := LWait 30 1, 0 := LIdle, 1 := LAcq 20 1) =
      (\<lambda>_. LIdle)(1 := LAcq 20 1, 2 := LWait 30 1)" by (auto simp: fun_eq_iff)
  ultimately show ?thesis by simp
qed

text \<open>Whole calls, for building runs.\<close>

definition reach :: "lock_sys \<Rightarrow> bool" where
  "reach s \<longleftrightarrow> (\<exists>es. lock_run es s)"

lemma reach_step: "reach s \<Longrightarrow> lock_step s e s' \<Longrightarrow> reach s'"
  unfolding reach_def by (blast intro: lock_run.more)

lemma reach_acquired:
  assumes "reach \<lparr>lk_server = s, lk_ph = ph\<rparr>" "ph t = LIdle" "acquire_pass c l s = (Some (ret, r), s')"
  shows "reach \<lparr>lk_server = s', lk_ph = ph\<rparr>"
proof -
  have "reach \<lparr>lk_server = s, lk_ph = ph(t := LAcq c l)\<rparr>"
    using reach_step [OF assms(1) lock_step.call_acquire] assms(2) by blast
  then have "reach \<lparr>lk_server = s', lk_ph = ph(t := LAcq c l, t := LIdle)\<rparr>"
    by (rule reach_step [OF _ lock_step.acquired [OF _ assms(3)]]) simp_all
  then show ?thesis using assms(2) by (simp add: fun_upd_idem)
qed

lemma reach_waits:
  assumes "reach \<lparr>lk_server = s, lk_ph = ph\<rparr>" "ph t = LIdle" "acquire_pass c l s = (None, s)"
  shows "reach \<lparr>lk_server = s, lk_ph = ph(t := LWait c l)\<rparr>"
proof -
  have "reach \<lparr>lk_server = s, lk_ph = ph(t := LAcq c l)\<rparr>"
    using reach_step [OF assms(1) lock_step.call_acquire] assms(2) by blast
  then have "reach \<lparr>lk_server = s, lk_ph = ph(t := LAcq c l, t := LWait c l)\<rparr>"
    by (rule reach_step [OF _ lock_step.waits]) (simp_all add: assms(3))
  then show ?thesis by simp
qed

lemma reach_released:
  assumes "reach \<lparr>lk_server = s, lk_ph = ph\<rparr>" "ph t = LIdle" "ls_release c l s = ((ret, r, True), s')"
    "signal_lock ph ph'"
  shows "reach \<lparr>lk_server = s', lk_ph = ph'\<rparr>"
proof -
  have "reach \<lparr>lk_server = s, lk_ph = ph(t := LRel c l)\<rparr>"
    using reach_step [OF assms(1) lock_step.call_release] assms(2) by blast
  moreover have "ph(t := LRel c l, t := LIdle) = ph" using assms(2) by (simp add: fun_upd_idem)
  ultimately show ?thesis
    using assms(4) by (elim reach_step [OF _ lock_step.released [where t = t, OF _ assms(3)]]) simp_all
qed

lemma lock_run1_run: "lock_run1 l es s \<Longrightarrow> lock_run es s"
  by (induction rule: lock_run1.induct) (auto intro: lock_run.intros)

text \<open>
  C7: the lock server, with any number of threads blocked and running in its handlers,
  implements the sequential lock service: its observable events in order form a legal history (a
  grant only of a free lock, a successful release only by the holder, everything else refused
  with RETRY and \<open>r = -1\<close>), and \<open>lock_map_\<close> is the state the history leads to.
\<close>

theorem lock_server_refines_service:
  assumes "lock_run es s"
  shows "lk_legal Map.empty es \<and> lock_map (lk_server s) = foldl lk_after Map.empty es"
  using lock_run_spec [OF assms] by simp

theorem lock_server_refines_service_witness:
  "lk_legal Map.empty [LTau, Granted 10 1 lp_OK 0] \<and>
   lock_map (held_by 10) = foldl lk_after Map.empty [LTau, Granted 10 1 lp_OK 0]"
  using lock_server_refines_service [OF lock_run1_run [OF demo_first]] by simp

text \<open>
  C14: mutual exclusion.  Between two grants of the same lock the client that got it first
  has released it.
\<close>

theorem lock_mutual_exclusion:
  assumes "lock_run (es @ Granted c l ret r # fs @ Granted d l ret' r' # gs) s"
  shows "\<exists>q. Dropped c l lp_OK q \<in> set fs"
proof (rule ccontr)
  assume no: "\<nexists>q. Dropped c l lp_OK q \<in> set fs"
  let ?m = "lk_after (foldl lk_after Map.empty es) (Granted c l ret r)"
  have "lk_legal ?m (fs @ Granted d l ret' r' # gs)"
    using lock_run_spec [OF assms] by (simp add: lk_legal_append)
  then have "lk_legal ?m fs" "foldl lk_after ?m fs l = None" by (simp_all add: lk_legal_append)
  moreover have "?m l = Some c" by simp
  ultimately show False using lk_held_until_drop [of ?m fs l c] no by auto
qed

theorem lock_mutual_exclusion_witness:
  "\<exists>q. Dropped 10 1 lp_OK q \<in> set [LTau, LTau, LTau, Dropped 10 1 lp_OK 0]"
  using lock_mutual_exclusion [of "[LTau]" 10 1 lp_OK 0 "[LTau, LTau, LTau, Dropped 10 1 lp_OK 0]" 20 lp_OK 0 "[]"]
    lock_run1_run [OF demo_second] by simp

text \<open>
  C38: while all calls are about one lock, no wakeup is lost: whenever that lock is free and a
  client waits for it, some thread is on its way to take it.
\<close>

theorem one_lock_no_lost_wakeup:
  assumes "lock_run1 l es s" "lock_map (lk_server s) l = None" "lk_ph s t = LWait c l"
  shows "\<exists>u d. lk_ph s u = LAcq d l"
proof -
  have "is_wait (lk_ph s t)" using assms(3) by simp
  then obtain u where u: "is_acq (lk_ph s u)"
    using wake_inv_run [OF assms(1)] assms(2) unfolding wake_inv_def awake_def by blast
  then obtain d m where m: "lk_ph s u = LAcq d m" by (cases "lk_ph s u") auto
  then have "m = l" using wake_inv_run [OF assms(1)] only_lockD m by blast
  then show ?thesis using m by blast
qed

theorem one_lock_no_lost_wakeup_witness:
  "\<exists>u d. ((\<lambda>_. LIdle)(1 := LAcq 20 1, 2 := LWait 30 1)) (u::nat) = LAcq d 1"
  using one_lock_no_lost_wakeup [OF demo_two_waiters, of 2 30] by (simp add: lock_server_new_def)

text \<open>
  C36: with several locks a wakeup can be lost.  All waiters share one condition variable and
  \<open>release\<close> signals it once, so the signal can go to a client that waits for another lock: there is
  a run to a state in which a lock is free, a client waits for it, and no thread is
  active in the server, so that nothing but a spurious wakeup or a later release moves that client.
\<close>

theorem lost_wakeup_reachable:
  "\<exists>es s t c l. lock_run es s \<and> lk_ph s t = LWait c l \<and> lock_map (lk_server s) l = None
     \<and> (\<forall>u. lk_ph s u = LIdle \<or> is_wait (lk_ph s u))"
proof -
  define s1 where "s1 = \<lparr>nacquire = 0, lock_map = [1 \<mapsto> 10, 2 \<mapsto> (10::i32)]\<rparr>"
  define s2 where "s2 = \<lparr>nacquire = 0, lock_map = [1 \<mapsto> (10::i32)]\<rparr>"
  define ph where "ph = (\<lambda>_::nat. LIdle)(1 := LWait 20 1, 2 := LWait 30 2)"
  have one: "reach \<lparr>lk_server = held_by 10, lk_ph = \<lambda>_. LIdle\<rparr>"
    using lock_run1_run [OF demo_first] unfolding reach_def by blast
  have two: "reach \<lparr>lk_server = s1, lk_ph = \<lambda>_. LIdle\<rparr>"
    by (rule reach_acquired [OF one, where c = 10 and l = 2 and ret = lp_OK and r = 0])
      (simp_all add: acquire_pass_def get_lock_def held_by_def s1_def)
  have "reach \<lparr>lk_server = s1, lk_ph = (\<lambda>_. LIdle)(1 := LWait 20 1)\<rparr>"
    by (rule reach_waits [OF two]) (simp_all add: acquire_pass_def get_lock_def s1_def)
  then have wait: "reach \<lparr>lk_server = s1, lk_ph = ph\<rparr>"
    unfolding ph_def by (rule reach_waits) (simp_all add: acquire_pass_def get_lock_def s1_def)
  have sig: "signal_lock ph (ph(1 := LAcq 20 1))"
    unfolding signal_lock_def ph_def by (intro disjI2 exI [of _ 1] exI [of _ 20]) simp
  have rel: "ls_release 10 2 s1 = ((lp_OK, 0, True), s2)"
    by (auto simp: ls_release_def drop_lock_def s1_def s2_def fun_eq_iff)
  have "reach \<lparr>lk_server = s2, lk_ph = ph(1 := LAcq 20 1)\<rparr>"
    by (rule reach_released [OF wait _ rel sig, where t = 0]) (simp add: ph_def)
  then have "reach \<lparr>lk_server = s2, lk_ph = ph(1 := LAcq 20 1, 1 := LWait 20 1)\<rparr>"
    by (rule reach_step [OF _ lock_step.waits]) (simp_all add: acquire_pass_def get_lock_def s2_def)
  then obtain es where "lock_run es \<lparr>lk_server = s2, lk_ph = ph(1 := LWait 20 1)\<rparr>"
    unfolding reach_def by auto
  then show ?thesis
    by (intro exI [of _ es] exI [of _ "\<lparr>lk_server = s2, lk_ph = ph(1 := LWait 20 1)\<rparr>"]
        exI [of _ 2] exI [of _ 30] exI) (simp add: ph_def s2_def)
qed

end
