(* ===== verification/Lock_Client.thy ===== *)
theory Lock_Client
  imports Lock_Server
begin

text \<open>
  The client stubs of the lock service, class \<open>lock_client\<close> of \<^verbatim>\<open>lock_client.cc\<close>.

  The remote call \<open>cl->call(proc, cl->id(), lid, r)\<close> is an argument: it takes the procedure and
  the lock, and gives the status, the value of \<open>r\<close> and the new state of the world.
  \<open>acquire\<close> repeats the call while the status is \<open>RETRY\<close>, doubling an \<open>int\<close> before each
  repetition; the doubling is undefined behaviour once it leaves the range of \<open>int\<close>.  The
  loop may run long, so it is a partial function whose result \<open>None\<close> would mean that it
  never returns; the theorem of this theory shows that it always returns.
\<close>

section \<open>Definitions\<close>

type_synonym 's rpc_call = "u32 \<Rightarrow> lockid_t \<Rightarrow> 's \<Rightarrow> (i32 \<times> i32) \<times> 's"

definition lc_stat :: "'s rpc_call \<Rightarrow> lockid_t \<Rightarrow> 's \<Rightarrow> (i32 \<times> 's) result" where
  "lc_stat call lid s =
     (case call lp_stat lid s of ((ret, r), s) \<Rightarrow>
        bind_r (VERIFY (ret = lp_OK)) (\<lambda>_. Inr (r, s)))"

partial_function (option) acquire_loop ::
    "'s rpc_call \<Rightarrow> lockid_t \<Rightarrow> int \<Rightarrow> i32 \<Rightarrow> 's \<Rightarrow> (i32 \<times> 's) result option" where
  "acquire_loop call lid interval ret s =
     (if ret = lp_RETRY then
        if 2 * interval > 2147483647 then Some (Inl Signed_Overflow)
        else (case call lp_acquire lid s of ((ret, r), s) \<Rightarrow> acquire_loop call lid (2 * interval) ret s)
      else Some (bind_r (VERIFY (ret = lp_OK)) (\<lambda>_. Inr (ret, s))))"

definition lc_acquire :: "'s rpc_call \<Rightarrow> lockid_t \<Rightarrow> 's \<Rightarrow> (i32 \<times> 's) result option" where
  "lc_acquire call lid s =
     (case call lp_acquire lid s of ((ret, r), s) \<Rightarrow> acquire_loop call lid 1 ret s)"

definition lc_release :: "'s rpc_call \<Rightarrow> lockid_t \<Rightarrow> 's \<Rightarrow> i32 \<times> 's" where
  "lc_release call lid s = (case call lp_release lid s of ((ret, r), s) \<Rightarrow> (ret, s))"

text \<open>The state before, and the status of, the \<open>k\<close>-th call to \<open>acquire\<close>, for stating what the loop does.\<close>

primrec nth_state :: "'s rpc_call \<Rightarrow> lockid_t \<Rightarrow> 's \<Rightarrow> nat \<Rightarrow> 's" where
  "nth_state call lid s 0 = s"
| "nth_state call lid s (Suc k) = nth_state call lid (snd (call lp_acquire lid s)) k"

definition nth_ret :: "'s rpc_call \<Rightarrow> lockid_t \<Rightarrow> 's \<Rightarrow> nat \<Rightarrow> i32" where
  "nth_ret call lid s k = fst (fst (call lp_acquire lid (nth_state call lid s k)))"

section \<open>The loop always ends\<close>

lemma nth_ret_Suc: "nth_ret call lid s (Suc k) = nth_ret call lid (snd (call lp_acquire lid s)) k"
  by (simp add: nth_ret_def)

lemma nth_ret_0: "nth_ret call lid s 0 = fst (fst (call lp_acquire lid s))"
  by (simp add: nth_ret_def)

lemma acquire_loop_stops:
  "ret \<noteq> lp_RETRY \<Longrightarrow>
   acquire_loop call lid i ret s = Some (if ret = lp_OK then Inr (ret, s) else Inl Verify_Failed)"
  by (subst acquire_loop.simps) simp

lemma acquire_loop_again:
  "2 * i \<le> 2147483647 \<Longrightarrow>
   acquire_loop call lid i lp_RETRY s =
     acquire_loop call lid (2 * i) (fst (fst (call lp_acquire lid s))) (snd (call lp_acquire lid s))"
  by (subst acquire_loop.simps) (simp add: split_beta)

lemma double_bound: "n < 30 \<Longrightarrow> 2 * (2 ^ n :: int) \<le> 2147483647"
proof -
  assume "n < 30"
  then have "(2 ^ Suc n :: int) \<le> 2 ^ 30" by (intro power_increasing) auto
  then show ?thesis by simp
qed

lemma acquire_loop_found:
  "n + k < 30 \<Longrightarrow> (\<forall>i<k. nth_ret call lid s i = lp_RETRY) \<Longrightarrow> nth_ret call lid s k \<noteq> lp_RETRY \<Longrightarrow>
   acquire_loop call lid (2 ^ n) lp_RETRY s =
     Some (if nth_ret call lid s k = lp_OK then Inr (lp_OK, nth_state call lid s (Suc k)) else Inl Verify_Failed)"
proof (induction k arbitrary: n s)
  case 0
  then show ?case using acquire_loop_again [OF double_bound [of n], of call lid s]
    by (simp add: acquire_loop_stops nth_ret_0)
next
  case (Suc k)
  let ?s = "snd (call lp_acquire lid s)"
  have "\<forall>i<k. nth_ret call lid ?s i = lp_RETRY"
    using Suc.prems(2) nth_ret_Suc [of call lid s] by (metis Suc_mono)
  moreover have "fst (fst (call lp_acquire lid s)) = lp_RETRY"
    using Suc.prems(2) by (auto simp flip: nth_ret_0)
  ultimately show ?case
    using Suc.IH [of "Suc n" ?s] Suc.prems acquire_loop_again [OF double_bound [of n], of call lid s]
    by (simp add: nth_ret_Suc)
qed

lemma acquire_loop_overflow:
  "n \<le> 30 \<Longrightarrow> (\<forall>i<30 - n. nth_ret call lid s i = lp_RETRY) \<Longrightarrow>
   acquire_loop call lid (2 ^ n) lp_RETRY s = Some (Inl Signed_Overflow)"
proof (induction "30 - n" arbitrary: n s)
  case 0
  then have "n = 30" by simp
  then show ?case by (subst acquire_loop.simps) simp
next
  case (Suc m)
  let ?s = "snd (call lp_acquire lid s)"
  have n: "n < 30" "m = 30 - Suc n" using Suc.hyps(2) by simp_all
  then have "30 - n = Suc m" by simp
  then have "\<forall>i<m. nth_ret call lid ?s i = lp_RETRY" and "fst (fst (call lp_acquire lid s)) = lp_RETRY"
    using Suc.prems(2) nth_ret_Suc [of call lid s] by (metis Suc_mono) (simp flip: nth_ret_0 add: Suc.prems(2) n(1))
  then show ?case
    using Suc.hyps(1) [of "Suc n" ?s] n acquire_loop_again [OF double_bound [of n], of call lid s] by simp
qed

section \<open>Property\<close>

text \<open>
  C37: \<open>lock_client::acquire\<close> always returns or aborts: it calls the server until the first
  status other than RETRY, returns OK if that status is OK and fails its VERIFY otherwise, and
  after thirty-one RETRY in a row the doubled sleep interval overflows its \<open>int\<close>.
\<close>

theorem lock_client_acquire_outcome:
  "((\<forall>i<k. nth_ret call lid s i = lp_RETRY) \<and> nth_ret call lid s k \<noteq> lp_RETRY \<and> k \<le> 30 \<longrightarrow>
      lc_acquire call lid s = Some (if nth_ret call lid s k = lp_OK
        then Inr (lp_OK, nth_state call lid s (Suc k)) else Inl Verify_Failed))
   \<and> ((\<forall>i<31. nth_ret call lid s i = lp_RETRY) \<longrightarrow> lc_acquire call lid s = Some (Inl Signed_Overflow))
   \<and> lc_acquire call lid s \<noteq> None"
proof -
  let ?s = "snd (call lp_acquire lid s)"
  have acq: "lc_acquire call lid s = acquire_loop call lid (2 ^ 0) (nth_ret call lid s 0) ?s"
    by (simp add: lc_acquire_def nth_ret_0 split_beta)
  have first: "lc_acquire call lid s = Some (if nth_ret call lid s k = lp_OK
        then Inr (lp_OK, nth_state call lid s (Suc k)) else Inl Verify_Failed)"
    if k: "\<forall>i<k. nth_ret call lid s i = lp_RETRY" "nth_ret call lid s k \<noteq> lp_RETRY" "k \<le> 30" for k
  proof (cases k)
    case 0
    then show ?thesis using k(2) acq by (simp add: acquire_loop_stops)
  next
    case (Suc j)
    then have "nth_ret call lid s 0 = lp_RETRY" using k(1) by simp
    moreover have "\<forall>i<j. nth_ret call lid ?s i = lp_RETRY"
      using k(1) Suc nth_ret_Suc [of call lid s] by (metis Suc_mono)
    ultimately show ?thesis
      using acquire_loop_found [of 0 j call lid ?s] k(2,3) acq Suc by (simp add: nth_ret_Suc)
  qed
  have last: "lc_acquire call lid s = Some (Inl Signed_Overflow)"
    if all: "\<forall>i<31. nth_ret call lid s i = lp_RETRY"
  proof -
    have "nth_ret call lid ?s i = lp_RETRY" if "i < 30" for i
      using all that nth_ret_Suc [of call lid s i] by simp
    then show ?thesis using acquire_loop_overflow [of 0 call lid ?s] all acq by simp
  qed
  have "lc_acquire call lid s \<noteq> None"
  proof (cases "\<forall>i<31. nth_ret call lid s i = lp_RETRY")
    case False
    define j where "j = (LEAST i. nth_ret call lid s i \<noteq> lp_RETRY)"
    obtain i where "i < 31" "nth_ret call lid s i \<noteq> lp_RETRY" using False by blast
    then have "nth_ret call lid s j \<noteq> lp_RETRY" "j \<le> 30"
      using LeastI [of "\<lambda>i. nth_ret call lid s i \<noteq> lp_RETRY" i]
        Least_le [of "\<lambda>i. nth_ret call lid s i \<noteq> lp_RETRY" i] by (simp_all add: j_def)
    moreover have "\<forall>i<j. nth_ret call lid s i = lp_RETRY" using not_less_Least j_def by blast
    ultimately show ?thesis using first [of j] by simp
  qed (use last in simp)
  then show ?thesis using first last by blast
qed

theorem lock_client_acquire_outcome_witness:
  "lc_acquire (\<lambda>p l n. ((if n < 3 then lp_RETRY else lp_OK, 0), Suc n)) 7 0 = Some (Inr (lp_OK, 4))"
proof -
  let ?call = "\<lambda>(p::u32) (l::lockid_t) n. ((if n < 3 then lp_RETRY else lp_OK, 0::i32), Suc n)"
  have st: "nth_state ?call 7 n k = n + k" for n k by (induction k arbitrary: n) simp_all
  show ?thesis
    using lock_client_acquire_outcome [of 3 ?call 7 0] by (simp add: nth_ret_def st)
qed

end
