(* ===== verification/Remote_Call.thy ===== *)
theory Remote_Call
  imports Rpcs Rpcc Lock_Client
begin

text \<open>
  Remote calls over a connection that works: the stub of the client marshals the arguments,
  \<open>call1\<close> registers the call, packs the header and sends, the connection frames the message, \<open>dispatch\<close>
  of the server runs the handler, and the framed reply goes through \<open>got_pdu\<close> of the client to the thread
  that waits.  \<open>exchange\<close> composes the definitions of the two endpoints in this order, as the argument
  \<open>call1\<close> of the stubs, and \<open>exchange_is_call1\<close> shows that the client's part of it is the
  whole of \<open>call1\<close> when the reply arrives during the first wait.

  \<open>linked\<close> is the state of a client and a server between two calls.  Every exchange keeps it, so that
  a sequence of remote calls is the same sequence of calls of the methods on the object in the server.
\<close>

section \<open>One exchange\<close>

text \<open>A message as the receiver sees it: the size bytes are filled in.\<close>

definition wire :: "byte list \<Rightarrow> byte list" where
  "wire b = frame b (int (length b))"

text \<open>The server works on the messages of the client, with a new block for the reply to each.\<close>

fun serve_all :: "memory \<Rightarrow> nat \<Rightarrow> nat \<Rightarrow> (nat \<times> byte list) list \<Rightarrow> 'o rpcs \<Rightarrow> ('o rpcs \<times> (nat \<times> byte list) list) result" where
  "serve_all mem adr cid [] s = Inr (s, [])"
| "serve_all mem adr cid ((d, b) # out) s =
     bind_r (serve mem adr cid (wire b) (length b) s) (\<lambda>(s, ms).
     bind_r (serve_all mem (Suc adr) cid out s) (\<lambda>(s, ms'). Inr (s, ms @ ms')))"

fun deliver :: "(nat \<times> byte list) list \<Rightarrow> rpcc \<Rightarrow> rpcc result" where
  "deliver [] c = Inr c"
| "deliver ((d, b) # ms) c = bind_r (rpcc_got_pdu (wire b) (length b) c) (deliver ms)"

definition exchange :: "memory \<Rightarrow> i32 \<Rightarrow> nat \<Rightarrow> nat \<Rightarrow> nat \<Rightarrow> (nat \<times> conn) option \<Rightarrow> (rpcc \<times> 'o rpcs) caller1" where
  "exchange mem junk t adr cid new proc req cs =
     (case cs of (c, s) \<Rightarrow>
      bind_r (call1_begin mem junk t proc req c) (\<lambda>b.
      case b of
        Refused ret \<Rightarrow> Inr (ret, unmarshall_empty, (c, s))
      | Begun m xr c \<Rightarrow>
          bind_r (transmit m new None c) (\<lambda>(ch, c, out).
          bind_r (serve_all mem adr cid out s) (\<lambda>(s, ms).
          bind_r (deliver ms c) (\<lambda>c.
          bind_r (call1_end t m xr ch c) (\<lambda>(ret, u, sig, c). Inr (ret, u, (c, s))))))))"

lemma wire_eq: "4 \<le> length b \<Longrightarrow> wire b = be32 (word_of_int (int (length b))) @ drop 4 b"
  by (simp add: wire_def frame_def)

lemma length_wire: "4 \<le> length b \<Longrightarrow> length (wire b) = length b"
  by (simp add: wire_eq)

lemma wire_req: "req_msg h body b \<Longrightarrow> req_msg h body (wire b)"
  by (simp add: req_msg_def wire_eq)

lemma wire_reply: "reply_msg h body b \<Longrightarrow> reply_msg h body (wire b)"
  by (simp add: reply_msg_def wire_eq)

section \<open>The client's side\<close>

definition may_call :: "u32 \<Rightarrow> rpcc \<Rightarrow> bool" where
  "may_call proc c \<longleftrightarrow> (proc = rpc_bind \<longleftrightarrow> \<not> cl_bind_done c) \<and> \<not> cl_destroy_wait c \<and> xid_inv (cl_window c)"

definition call_header :: "u32 \<Rightarrow> rpcc \<Rightarrow> req_header" where
  "call_header proc c = \<lparr>rq_xid = cl_xid c, rq_proc = proc, rq_clt_nonce = cl_clt_nonce c, rq_srv_nonce = cl_srv_nonce c,
     rq_xid_rep = hd (cl_window c)\<rparr>"

definition calling :: "nat \<Rightarrow> i32 \<Rightarrow> rpcc \<Rightarrow> rpcc" where
  "calling t junk c = c\<lparr>cl_xid := cl_xid c + 1, cl_calls := (cl_calls c)(cl_xid c \<mapsto> t),
     cl_callers := (cl_callers c)(t := caller_new (cl_xid c) junk)\<rparr>"

lemma call1_begin_ok:
  assumes "may_call proc c" "m_wf req"
  obtains m where "call1_begin mem junk t proc req c = Inr (Begun m (hd (cl_window c)) (calling t junk c))" "m_wf m" "m_ind m = m_ind req"
    "req_msg (call_header proc c) (m_body req) (m_bytes m)"
proof -
  obtain b where b: "m_buf req = Some b" by (rule m_wfE [OF assms(2)])
  note pk = pack_req_header_eq [OF assms(2) b, of mem "call_header proc c"]
  obtain x xs where w: "cl_window c = x # xs" using assms(1) by (cases "cl_window c") (auto simp: may_call_def xid_inv_def)
  show ?thesis
    using that [of "req\<lparr>m_buf := Some (overwrite 4 (enc_req_header (call_header proc c)) b)\<rparr>"]
      m_bytes_packed_req [OF assms(2) pk] packed_req_msg [OF assms(2) pk] pk assms(1) w
    by (auto simp: call1_begin_def may_call_def Let_def call_header_def calling_def)
qed

text \<open>The channel is open, or \<open>connect_to_dst\<close> opens it, in place of one that has been closed.\<close>

definition quiet_conn :: "conn \<Rightarrow> bool" where
  "quiet_conn k \<longleftrightarrow> cn_refno k = 1 \<and> cb_buf (cn_wpdu k) = None"

definition connects :: "(nat \<times> conn) option \<Rightarrow> bool" where
  "connects new \<longleftrightarrow> (case new of None \<Rightarrow> False | Some (d, k) \<Rightarrow> \<not> cn_dead k \<and> quiet_conn k)"

definition chan_ready :: "(nat \<times> conn) option \<Rightarrow> rpcc \<Rightarrow> bool" where
  "chan_ready new c \<longleftrightarrow>
     (case cl_chan c of
        None \<Rightarrow> connects new
      | Some d \<Rightarrow> (case cl_store c d of None \<Rightarrow> False
                 | Some k \<Rightarrow> quiet_conn k \<and> (cn_dead k \<longrightarrow> connects new)))"

lemma transmit_ok:
  assumes "chan_ready new c" "cl_reachable c" "\<not> isvalid (cl_dup_req c)"
  obtains d k st where "transmit m new None c = Inr (Some d, c\<lparr>cl_chan := Some d, cl_store := st\<rparr>, [(d, m_bytes m)])"
    "st d = Some k" "\<not> cn_dead k" "cn_refno k = 2" "cb_buf (cn_wpdu k) = None"
proof (cases "cl_chan c")
  case None
  then obtain d k where k: "new = Some (d, k)" "\<not> cn_dead k" "cn_refno k = 1" "cb_buf (cn_wpdu k) = None"
    using assms(1) by (auto simp: chan_ready_def connects_def quiet_conn_def split: option.splits)
  show ?thesis
    using that [of d "(cl_store c)(d \<mapsto> incref k)" "incref k"] None k assms(2,3)
    by (simp add: transmit_def get_refconn_def refresh_chan_def share_chan_def gone_def install_chan_def st_unref_opt_def st_ops
        take_forgotten_def incref_def)
next
  case (Some d)
  then consider k where "cl_store c d = Some k" "\<not> cn_dead k" "cn_refno k = 1" "cb_buf (cn_wpdu k) = None"
    | k where "cl_store c d = Some k" "cn_dead k" "cn_refno k = 1" "cb_buf (cn_wpdu k) = None" "connects new"
    using assms(1) by (auto simp: chan_ready_def quiet_conn_def split: option.splits)
  then show ?thesis
  proof cases
    case (1 k)
    have "c\<lparr>cl_store := st\<rparr> = c\<lparr>cl_chan := Some d, cl_store := st\<rparr>" for st using Some by (intro rpcc.equality) simp_all
    then show ?thesis
      using that [of d "(cl_store c)(d \<mapsto> incref k)" "incref k"] Some 1 assms(2,3)
      by (simp add: transmit_def get_refconn_def refresh_chan_def share_chan_def gone_def st_unref_opt_def st_ops take_forgotten_def incref_def)
  next
    case (2 k)
    obtain d' k' where new: "new = Some (d', k')" "\<not> cn_dead k'" "cn_refno k' = 1" "cb_buf (cn_wpdu k') = None"
      using 2(5) by (auto simp: connects_def quiet_conn_def split: option.splits)
    have "st_unref d (cl_store c) = Inr ((cl_store c)(d := None))"
      using st_unref_last [of "cl_store c" d k] 2(1-4) by simp
    then show ?thesis
      using that [of d' "(cl_store c)(d := None, d' \<mapsto> incref k')" "incref k'"] Some 2(1,2) new assms(2,3)
      by (simp add: transmit_def get_refconn_def refresh_chan_def share_chan_def gone_def install_chan_def st_unref_opt_def
          st_get_def st_ref_def take_forgotten_def incref_def)
  qed
qed

lemma chan_ready_cong: "cl_chan c' = cl_chan c \<Longrightarrow> cl_store c' = cl_store c \<Longrightarrow> chan_ready new c' = chan_ready new c"
  by (simp only: chan_ready_def)

lemma calling_ready: "chan_ready new (calling t junk c) = chan_ready new c"
  by (rule chan_ready_cong) (simp_all add: calling_def)

text \<open>The reply of a registered call reaches its caller, which then returns it.\<close>

lemma deliver_reply:
  assumes call: "cl_calls c x = Some t" "cl_callers c t = caller_new x junk"
    and msg: "reply_msg \<lparr>rp_xid = x, rp_ret = ret\<rparr> body b" "length b < 2 ^ 31" and w: "update_xid_rep x (cl_window c) = Inr w"
  obtains u where "deliver [(d, b)] c = Inr (c\<lparr>cl_window := w,
      cl_callers := (cl_callers c)(t := \<lparr>ca_xid = x, ca_un = u, ca_intret = ret, ca_done = True\<rparr>)\<rparr>)" "u_at u body"
proof -
  let ?u = "\<lparr>u_buf = Some (wire b), u_sz = length b, u_ind = 24, u_ok = True\<rparr>"
  have len: "24 \<le> length b" "length (wire b) = length b" using msg(1) by (simp_all add: reply_msg_def length_wire)
  have u: "unpack_reply_header (unmarshall_new (Some (wire b)) (length b)) = Inr (?u, \<lparr>rp_xid = x, rp_ret = ret\<rparr>)" "u_at ?u body"
    using reply_msg_reader [OF wire_reply [OF msg(1)], of "[]"] msg(2) len(2) by simp_all
  have t: "fst (take_in v ?u) = ?u" for v using len(1) by (simp add: take_in_def)
  show ?thesis
    using that [OF _ u(2)] u(1) w call t by (simp add: rpcc_got_pdu_def Let_def caller_new_def)
qed

lemma st_unref_live:
  assumes "st d = Some k" "\<not> cn_dead k" "1 \<le> cn_refno k"
  shows "st_unref d st = Inr (st(d \<mapsto> k\<lparr>cn_refno := cn_refno k - 1\<rparr>))"
  using assms by (simp add: st_ops decref_def Let_def)

lemma call1_end_done:
  assumes "cl_callers c t = \<lparr>ca_xid = x, ca_un = u, ca_intret = ret, ca_done = True\<rparr>" "cl_lossytest c = 0"
    and "update_xid_rep x (cl_window c) = Inr w" "cl_store c d = Some k" "\<not> cn_dead k" "1 \<le> cn_refno k"
  shows "call1_end t m xr (Some d) c = Inr (ret, u, cl_destroy_wait c,
     c\<lparr>cl_calls := (cl_calls c)(x := None), cl_window := w, cl_store := (cl_store c)(d \<mapsto> k\<lparr>cn_refno := cn_refno k - 1\<rparr>)\<rparr>)"
  using assms by (simp add: call1_end_def Let_def st_unref_opt_def st_unref_live)

section \<open>A client and its server between two calls\<close>

definition client_side :: "(nat \<times> conn) option \<Rightarrow> rpcc \<Rightarrow> bool" where
  "client_side new c \<longleftrightarrow> cl_calls c = Map.empty \<and> \<not> cl_destroy_wait c \<and> cl_reachable c \<and> cl_lossytest c = 0 \<and> \<not> isvalid (cl_dup_req c) \<and> chan_ready new c
     \<and> xid_inv (cl_window c) \<and> (\<forall>y\<in>xid_abs (cl_window c). y < cl_xid c) \<and> cl_clt_nonce c \<noteq> 0"

definition server_side :: "nat \<Rightarrow> rpcc \<Rightarrow> 'o rpcs \<Rightarrow> bool" where
  "server_side cid c s \<longleftrightarrow> srv_ready s \<and> sv_counting s = 0 \<and> sv_reachable s \<and> open_conn cid 1 s \<and> knows_conn (cl_clt_nonce c) cid s
     \<and> (cl_srv_nonce c = 0 \<or> cl_srv_nonce c = sv_nonce s) \<and> (\<forall>y. (cl_clt_nonce c, y) \<in> rw_seen (sv_win s) \<longrightarrow> y < cl_xid c)"

definition linked :: "nat \<Rightarrow> (nat \<times> conn) option \<Rightarrow> rpcc \<Rightarrow> 'o rpcs \<Rightarrow> bool" where
  "linked cid new c s \<longleftrightarrow> client_side new c \<and> server_side cid c s"

text \<open>What a call leaves as it is in its client.\<close>

definition same_client :: "rpcc \<Rightarrow> rpcc \<Rightarrow> bool" where
  "same_client c c' \<longleftrightarrow> cl_clt_nonce c' = cl_clt_nonce c \<and> cl_srv_nonce c' = cl_srv_nonce c \<and> cl_bind_done c' = cl_bind_done c"

lemma word_less_Suc: "(x :: u32) \<noteq> - 1 \<Longrightarrow> y < x \<or> y = x \<Longrightarrow> y < x + 1"
  using inc_less_eq_self_iff_eq [of x] by (meson not_le order.strict_trans)

lemma client_part:
  assumes side: "client_side new c" and x: "cl_xid c \<noteq> - 1"
    and msg: "reply_msg \<lparr>rp_xid = cl_xid c, rp_ret = ret\<rparr> body b" "length b < 2 ^ 31"
  obtains d c1 c2 u c' where "transmit m new None (calling t junk c) = Inr (Some d, c1, [(d, m_bytes m)])"
    "deliver [(d', b)] c1 = Inr c2" "ca_done (cl_callers c2 t)"
    "call1_end t m xr (Some d) c2 = Inr (ret, u, False, c')" "u_at u body"
    "client_side new' c'" "same_client c c'" "cl_xid c' = cl_xid c + 1"
proof -
  have C: "\<not> cl_destroy_wait c" "cl_reachable c" "cl_lossytest c = 0" "\<not> isvalid (cl_dup_req c)" "chan_ready new c"
     "xid_inv (cl_window c)" "\<forall>y\<in>xid_abs (cl_window c). y < cl_xid c" "cl_clt_nonce c \<noteq> 0" "cl_calls c = Map.empty"
    using side by (simp_all add: client_side_def)
  have "chan_ready new (calling t junk c)" "cl_reachable (calling t junk c)" "\<not> isvalid (cl_dup_req (calling t junk c))"
    using C(2,4,5) by (simp_all add: calling_ready) (simp_all add: calling_def)
  then obtain d k st where d: "transmit m new None (calling t junk c) =
      Inr (Some d, (calling t junk c)\<lparr>cl_chan := Some d, cl_store := st\<rparr>, [(d, m_bytes m)])"
    "st d = Some k" "\<not> cn_dead k" "cn_refno k = 2" "cb_buf (cn_wpdu k) = None"
    by (rule transmit_ok)
  define c1 where "c1 = (calling t junk c)\<lparr>cl_chan := Some d, cl_store := st\<rparr>"
  obtain w where w: "update_xid_rep (cl_xid c) (cl_window c) = Inr w" "xid_inv w" "xid_abs w = insert (cl_xid c) (xid_abs (cl_window c))"
    by (rule update_xid_rep_spec [OF C(6)])
  obtain w' where w': "update_xid_rep (cl_xid c) w = Inr w'" "xid_inv w'" "xid_abs w' = insert (cl_xid c) (xid_abs w)"
    by (rule update_xid_rep_spec [OF w(2)])
  have c1: "cl_calls c1 (cl_xid c) = Some t" "cl_callers c1 t = caller_new (cl_xid c) junk" "update_xid_rep (cl_xid c) (cl_window c1) = Inr w"
    using w(1) by (simp_all add: c1_def calling_def)
  obtain u where u: "deliver [(d', b)] c1 = Inr (c1\<lparr>cl_window := w,
      cl_callers := (cl_callers c1)(t := \<lparr>ca_xid = cl_xid c, ca_un = u, ca_intret = ret, ca_done = True\<rparr>)\<rparr>)" "u_at u body"
    by (rule deliver_reply [OF c1(1,2) msg c1(3)])
  define c2 where "c2 = c1\<lparr>cl_window := w,
      cl_callers := (cl_callers c1)(t := \<lparr>ca_xid = cl_xid c, ca_un = u, ca_intret = ret, ca_done = True\<rparr>)\<rparr>"
  define c' where "c' = c2\<lparr>cl_calls := (cl_calls c2)(cl_xid c := None), cl_window := w',
      cl_store := (cl_store c2)(d \<mapsto> k\<lparr>cn_refno := cn_refno k - 1\<rparr>)\<rparr>"
  have c2: "cl_callers c2 t = \<lparr>ca_xid = cl_xid c, ca_un = u, ca_intret = ret, ca_done = True\<rparr>" "cl_lossytest c2 = 0"
    "update_xid_rep (cl_xid c) (cl_window c2) = Inr w'" "cl_store c2 d = Some k"
    using C(3) w'(1) d(2) by (simp_all add: c2_def c1_def calling_def)
  have "call1_end t m xr (Some d) c2 = Inr (ret, u, cl_destroy_wait c2, c')"
    using call1_end_done [OF c2 d(3)] d(4) by (simp add: c'_def)
  moreover have "cl_destroy_wait c2 = False" using C(1) by (simp add: c2_def c1_def calling_def)
  moreover have "client_side new' c'"
    using C w'(2,3) w(3) d(3-5) word_less_Suc [OF x]
    by (auto simp: client_side_def c'_def c2_def c1_def calling_def chan_ready_def quiet_conn_def)
  moreover have "same_client c c'" "cl_xid c' = cl_xid c + 1"
    by (simp_all add: same_client_def c'_def c2_def c1_def calling_def)
  ultimately show ?thesis
    using that [of d c1 c2 u c'] d(1) u c2(1) by (simp flip: c1_def c2_def)
qed

text \<open>One call: the handler runs once on the object, and the client gets what it returned.\<close>

lemma exchange_step:
  fixes s :: "'o rpcs"
  assumes link: "linked cid new c s" and proc: "proc = rpc_bind \<longleftrightarrow> \<not> cl_bind_done c" "sv_procs s proc = Some f"
    and req: "m_wf req" "m_ind req < 2 ^ 31" and adr: "rw_heap (sv_win s) adr = None" and x: "cl_xid c \<noteq> - 1"
    and handler: "\<And>u. u_at u (m_body req) \<Longrightarrow> f mem u (marshall_new mem) (sv_obj s) = Inr (ret, rep, obj)" "m_wf rep" "m_ind rep < 2 ^ 31"
      "0 \<le> sint ret"
  obtains u c' and s' :: "'o rpcs" where "exchange mem junk t adr cid new proc req (c, s) = Inr (ret, u, (c', s'))" "u_at u (m_body rep)"
    "sv_obj s' = obj" "linked cid new' c' s'" "same_client c c'" "cl_xid c' = cl_xid c + 1" "same_service s s'"
    "dom (rw_heap (sv_win s')) \<subseteq> insert adr (dom (rw_heap (sv_win s)))"
proof -
  have side: "client_side new c" and S: "srv_ready s" "sv_counting s = 0" "sv_reachable s" "open_conn cid 1 s" "knows_conn (cl_clt_nonce c) cid s"
    "cl_srv_nonce c = 0 \<or> cl_srv_nonce c = sv_nonce s" "\<forall>y. (cl_clt_nonce c, y) \<in> rw_seen (sv_win s) \<longrightarrow> y < cl_xid c"
    using link by (simp_all add: linked_def server_side_def)
  have may: "may_call proc c" and front: "hd (cl_window c) < cl_xid c" and nz: "cl_clt_nonce c \<noteq> 0"
    using side proc(1) by (auto simp: may_call_def client_side_def xid_abs_def)
  obtain m where m: "call1_begin mem junk t proc req c = Inr (Begun m (hd (cl_window c)) (calling t junk c))" "m_wf m" "m_ind m = m_ind req"
    "req_msg (call_header proc c) (m_body req) (m_bytes m)"
    by (rule call1_begin_ok [OF may req(1)])
  have len: "length (m_bytes m) = m_ind req" "4 \<le> m_ind req" "length (wire (m_bytes m)) = m_ind req"
    using m(2,3) by (auto simp: m_bytes_def length_wire elim!: m_wfE)
  let ?h = "call_header proc c"
  have ar: "arriving ?h (m_body req) (wire (m_bytes m)) cid f s"
    using wire_req [OF m(4)] len req(2) S nz proc(2) by (simp add: arriving_def call_header_def)
  have un: "(rq_clt_nonce ?h, rq_xid ?h) \<notin> rw_seen (sv_win s)" "rq_xid_rep ?h < rq_xid ?h"
    using S(7) front by (auto simp: call_header_def)
  obtain s' rb where s': "serve mem adr cid (wire (m_bytes m) @ []) (length (wire (m_bytes m))) s = Inr (s', [(cid, rb)])"
    "reply_msg \<lparr>rp_xid = rq_xid ?h, rp_ret = ret\<rparr> (m_body rep) rb" "length rb = m_ind rep" "sv_obj s' = obj" "same_service s s'"
    "arriving ?h (m_body req) (wire (m_bytes m)) cid f s'" "srv_ready s'"
    "\<forall>y. (rq_clt_nonce ?h, y) \<in> rw_seen (sv_win s') \<longrightarrow> (rq_clt_nonce ?h, y) \<in> rw_seen (sv_win s) \<or> y \<le> rq_xid ?h"
    "dom (rw_heap (sv_win s')) \<subseteq> insert adr (dom (rw_heap (sv_win s)))"
    by (rule serve_new [OF ar S(1,2) un adr handler(1,2,4)]) assumption
  have rb: "reply_msg \<lparr>rp_xid = cl_xid c, rp_ret = ret\<rparr> (m_body rep) rb" "length rb < 2 ^ 31"
    using s'(2,3) handler(3) by (simp_all add: call_header_def)
  obtain d c1 c2 u c' where c: "transmit m new None (calling t junk c) = Inr (Some d, c1, [(d, m_bytes m)])"
    "deliver [(cid, rb)] c1 = Inr c2" "call1_end t m (hd (cl_window c)) (Some d) c2 = Inr (ret, u, False, c')" "u_at u (m_body rep)"
    "client_side new' c'" "same_client c c'" "cl_xid c' = cl_xid c + 1"
    by (rule client_part [OF side x rb]) assumption
  have "exchange mem junk t adr cid new proc req (c, s) = Inr (ret, u, (c', s'))"
    using m(1) c(1-3) s'(1) len by (simp add: exchange_def)
  moreover have "server_side cid c' s'"
    using s'(5-8) S c(6,7) word_less_Suc [OF x]
    by (auto simp: server_side_def same_service_def same_client_def arriving_def call_header_def le_less)
  ultimately show ?thesis using that [of u c' s'] c s' by (simp add: linked_def)
qed

text \<open>A call of a client that is bound to another instance of the server: nothing runs, and the call fails.\<close>

lemma exchange_old_server:
  fixes s :: "'o rpcs"
  assumes side: "client_side new c" and bound: "cl_bind_done c" "proc \<noteq> rpc_bind" "cl_srv_nonce c \<noteq> 0" "cl_srv_nonce c \<noteq> sv_nonce s"
    and srv: "sv_reachable s" "open_conn cid 1 s" and req: "m_wf req" "m_ind req < 2 ^ 31" and x: "cl_xid c \<noteq> - 1"
  obtains u c' and s' :: "'o rpcs" where "exchange mem junk t adr cid new proc req (c, s) = Inr (oldsrv_failure, u, (c', s'))"
    "client_side new c'" "same_client c c'" "cl_xid c' = cl_xid c + 1" "sv_obj s' = sv_obj s" "sv_win s' = sv_win s" "same_service s s'"
    "sv_conns s' = sv_conns s"
proof -
  have may: "may_call proc c" using side bound by (simp add: may_call_def client_side_def)
  obtain m where m: "call1_begin mem junk t proc req c = Inr (Begun m (hd (cl_window c)) (calling t junk c))" "m_wf m" "m_ind m = m_ind req"
    "req_msg (call_header proc c) (m_body req) (m_bytes m)"
    by (rule call1_begin_ok [OF may req(1)])
  have len: "length (wire (m_bytes m)) = m_ind req" "length (m_bytes m) = m_ind req"
    using m(2,3) by (auto simp: m_bytes_def length_wire elim!: m_wfE)
  obtain st where st: "serve mem adr cid (wire (m_bytes m)) (m_ind req) s = dispatch mem adr cid (wire (m_bytes m)) (m_ind req) (s\<lparr>sv_store := st\<rparr>)"
    "open_conn cid (1 + 1) (s\<lparr>sv_store := st\<rparr>)"
    by (rule serve_start [OF srv])
  obtain k where k: "sv_store (s\<lparr>sv_store := st\<rparr>) cid = Some k" using st(2) by (rule open_connE)
  have nonce: "rq_srv_nonce (call_header proc c) \<noteq> 0" "rq_srv_nonce (call_header proc c) \<noteq> sv_nonce (s\<lparr>sv_store := st\<rparr>)"
    using bound(3,4) by (simp_all add: call_header_def)
  obtain rb where rb: "dispatch mem adr cid (wire (m_bytes m)) (m_ind req) (s\<lparr>sv_store := st\<rparr>) = Inr (s\<lparr>sv_store := st\<rparr>, [(cid, rb)])"
    "reply_msg \<lparr>rp_xid = cl_xid c, rp_ret = oldsrv_failure\<rparr> [] rb"
    using old_instance_reply [OF wire_req [OF m(4)] _ k nonce, of mem adr "[]"] len req(2) by (auto simp: call_header_def)
  have "length rb < 2 ^ 31" using rb(2) by (simp add: reply_msg_def)
  from client_part [OF side x rb(2) this, of m t junk cid "hd (cl_window c)"]
  obtain d c1 c2 u c' where c: "transmit m new None (calling t junk c) = Inr (Some d, c1, [(d, m_bytes m)])"
    "deliver [(cid, rb)] c1 = Inr c2" "call1_end t m (hd (cl_window c)) (Some d) c2 = Inr (oldsrv_failure, u, False, c')"
    "client_side new c'" "same_client c c'" "cl_xid c' = cl_xid c + 1" by metis
  have "exchange mem junk t adr cid new proc req (c, s) = Inr (oldsrv_failure, u, (c', s\<lparr>sv_store := st\<rparr>))"
    using m(1) c(1-3) st(1) rb(1) len by (simp add: exchange_def)
  then show ?thesis by (rule that) (use c in \<open>simp_all add: same_service_def\<close>)
qed

text \<open>What the client does in an exchange is the whole of \<open>call1\<close>, when the reply comes during the first wait.\<close>

lemma exchange_is_call1:
  assumes ex: "exchange mem junk t adr cid new proc req (c, s) = Inr (ret, u, (c', s'))"
    and l: "call1_start_loop now to = Inr l" "tv_sec (lo_final l) \<noteq> 0" and in_time: "normalised now'" "ret \<noteq> timeout_failure"
  shows "\<exists>rest out. rpcc_call1 mem junk t now to [\<lparr>ri_new = new, ri_now = now', ri_rest = rest, ri_waits = []\<rparr>] proc req c = Some (Inr (ret, u, out, c'))"
proof (cases "call1_begin mem junk t proc req c")
  case (Inr b)
  show ?thesis
  proof (cases b)
    case (Refused r)
    then show ?thesis using Inr ex by (simp add: exchange_def rpcc_call1_def)
  next
    case (Begun m xr c1)
    obtain ch c2 out ms c3 sig where E: "transmit m new None c1 = Inr (ch, c2, out)" "deliver ms c2 = Inr c3"
        "call1_end t m xr ch c3 = Inr (ret, u, sig, c')"
      using Inr Begun ex by (auto simp: exchange_def bind_r_eq_Inr)
    have "ca_done (cl_callers c3 t)"
      using E(3) in_time(2) by (auto simp: call1_end_def Let_def bind_r_eq_Inr split: if_splits)
    moreover obtain r where "add_timespec now' to_min = Inr r"
      using add_timespec_total [OF in_time(1), of to_min] by (auto simp: to_min_def)
    moreover have "lo_transmit l" "lo_ch l = None" "lo_curr l = to_min" using l(1) by (auto simp: call1_start_loop_def bind_r_eq_Inr)
    ultimately show ?thesis
      using Inr Begun E l
      by (intro exI [of _ "\<lambda>c. projr (deliver ms c)"] exI [of _ out])
        (simp add: rpcc_call1_def Let_def call1_deadline_def split: if_splits)
  qed
qed (use ex in \<open>simp add: exchange_def\<close>)

section \<open>Sessions\<close>

text \<open>
  A sequence of calls by one thread of the client; each comes with the address of the block that
  will hold the reply.  The same sequence as calls of the methods on the object.
\<close>

fun session ::
    "memory \<Rightarrow> i32 \<Rightarrow> nat \<Rightarrow> nat \<Rightarrow> (nat \<times> conn) option \<Rightarrow> 'a putter \<Rightarrow> 'r getter \<Rightarrow> 'r \<Rightarrow> (nat \<times> u32 \<times> 'a) list \<Rightarrow>
     rpcc \<times> 'o rpcs \<Rightarrow> ((i32 \<times> 'r) list \<times> rpcc \<times> 'o rpcs) result" where
  "session mem junk t cid new p g r0 [] cs = Inr ([], cs)"
| "session mem junk t cid new p g r0 ((adr, proc, a) # qs) cs =
     bind_r (call_1 mem (exchange mem junk t adr cid new) p g proc a r0 cs) (\<lambda>(b, r, cs).
     bind_r (session mem junk t cid new p g r0 qs cs) (\<lambda>(rs, cs). Inr ((b, r) # rs, cs)))"

fun local_calls :: "(u32 \<Rightarrow> 'a \<Rightarrow> 'o \<Rightarrow> (i32 \<times> 'r \<times> 'o) result) \<Rightarrow> (u32 \<times> 'a) list \<Rightarrow> 'o \<Rightarrow> ((i32 \<times> 'r) list \<times> 'o) result" where
  "local_calls meth [] obj = Inr ([], obj)"
| "local_calls meth ((proc, a) # qs) obj =
     bind_r (meth proc a obj) (\<lambda>(b, r, obj). bind_r (local_calls meth qs obj) (\<lambda>(rs, obj). Inr ((b, r) # rs, obj)))"

text \<open>The server offers the procedures as the registered methods, with one reader and one writer.\<close>

definition offers :: "u32 set \<Rightarrow> 'a getter \<Rightarrow> 'a \<Rightarrow> 'r putter \<Rightarrow> (u32 \<Rightarrow> 'a \<Rightarrow> 'o \<Rightarrow> (i32 \<times> 'r \<times> 'o) result) \<Rightarrow> 'o rpcs \<Rightarrow> bool" where
  "offers P g z p meth s \<longleftrightarrow> (\<forall>proc\<in>P. sv_procs s proc = Some (h_fn1 g z p (meth proc)))"

definition sendable :: "('a \<Rightarrow> byte list) \<Rightarrow> ('a \<Rightarrow> bool) \<Rightarrow> 'a \<Rightarrow> bool" where
  "sendable e f a \<longleftrightarrow> f a \<and> length (e a) < 2 ^ 29"

lemma one_call:
  fixes s :: "'o rpcs"
  assumes arg: "codec e f fr p g" "sendable e f a" "fr z" and res: "codec e' f' fr' p' g'" "sendable e' f' r" "fr' r0"
    and link: "linked cid new c s" and proc: "proc = rpc_bind \<longleftrightarrow> \<not> cl_bind_done c" "sv_procs s proc = Some (h_fn1 g z p' meth)"
    and adr: "rw_heap (sv_win s) adr = None" and x: "cl_xid c \<noteq> - 1" and meth: "meth a (sv_obj s) = Inr (b, r, obj)" "0 \<le> sint b"
  obtains c' and s' :: "'o rpcs" where "call_1 mem (exchange mem junk t adr cid new) p g' proc a r0 (c, s) = Inr (b, r, (c', s'))"
    "sv_obj s' = obj" "linked cid new c' s'" "same_client c c'" "cl_xid c' = cl_xid c + 1" "same_service s s'"
    "dom (rw_heap (sv_win s')) \<subseteq> insert adr (dom (rw_heap (sv_win s)))"
proof -
  have fa: "f a" "length (e a) < 2 ^ 29" "f' r" "length (e' r) < 2 ^ 29" using arg(2) res(2) by (simp_all add: sendable_def)
  obtain req where req: "p mem (marshall_new mem) a = Inr req" "m_wf req" "m_body req = e a" "m_ind req = 24 + length (e a)"
    by (rule call_1_request [OF arg(1) fa(1,2)])
  obtain rep where rep: "p' mem (marshall_new mem) r = Inr rep" "m_wf rep" "m_body rep = e' r" "m_ind rep = 24 + length (e' r)"
    by (rule call_1_request [OF res(1) fa(3,4)])
  have h: "h_fn1 g z p' meth mem u (marshall_new mem) (sv_obj s) = Inr (b, rep, obj)" if "u_at u (m_body req)" for u
    using that req(3) meth(1) rep(1) by (simp add: h_fn1_exact [OF arg(1) fa(1) arg(3)] run_method_def)
  have len: "m_ind req < 2 ^ 31" "m_ind rep < 2 ^ 31" using fa(2,4) req(4) rep(4) by simp_all
  obtain u c' s' where E: "exchange mem junk t adr cid new proc req (c, s) = Inr (b, u, (c', s'))" "u_at u (m_body rep)"
    "sv_obj s' = obj" "linked cid new c' s'" "same_client c c'" "cl_xid c' = cl_xid c + 1" "same_service s s'"
    "dom (rw_heap (sv_win s')) \<subseteq> insert adr (dom (rw_heap (sv_win s)))"
    by (rule exchange_step [OF link proc req(2) len(1) adr x h rep(2) len(2) meth(2)])
  have "call_m (exchange mem junk t adr cid new) g' proc req r0 (c, s) = Inr (b, r, (c', s'))"
    by (rule call_m_reply [where ?call1.0 = "exchange mem junk t adr cid new", OF res(1) fa(3) res(3) E(1) _ meth(2)]) (use E(2) rep(3) in simp)
  then show ?thesis using that [of c' s'] E req(1) by (simp add: call_1_def)
qed

lemma next_xid:
  fixes x :: u32
  assumes "unat x + Suc n < 2 ^ 32"
  shows "x \<noteq> - 1" "unat (x + 1) + n < 2 ^ 32"
proof -
  have up: "unat (x + 1) = unat x + 1" using assms by (simp add: unat_word_ariths)
  then show "x \<noteq> - 1" by auto
  show "unat (x + 1) + n < 2 ^ 32" using assms up by simp
qed

lemma offers_kept: "offers P g z p meth s \<Longrightarrow> same_service s s' \<Longrightarrow> offers P g z p meth s'"
  by (simp add: offers_def same_service_def)

lemma session_local:
  fixes s :: "'o rpcs"
  assumes arg: "codec e f fr p g" "fr z" and res: "codec e' f' fr' p' g'" "fr' r0"
    and calls: "\<forall>(adr, proc, a)\<in>set qs. proc \<in> P \<and> sendable e f a" "rpc_bind \<notin> P" "offers P g z p' meth s"
    and link: "linked cid new c s" "cl_bind_done c" "unat (cl_xid c) + length qs < 2 ^ 32"
    and adrs: "distinct (map fst qs)" "fst ` set qs \<inter> dom (rw_heap (sv_win s)) = {}"
    and loc: "local_calls meth (map snd qs) (sv_obj s) = Inr (rs, obj)" "\<forall>(b, r)\<in>set rs. 0 \<le> sint b \<and> sendable e' f' r"
  shows "\<exists>c' s'. session mem junk t cid new p g' r0 qs (c, s) = Inr (rs, c', s') \<and> sv_obj s' = obj \<and> linked cid new c' s'"
  using calls link adrs loc
proof (induction qs arbitrary: c s rs)
  case (Cons q qs)
  obtain adr proc a where q: "q = (adr, proc, a)" by (cases q)
  obtain b r obj1 rs1 where m: "meth proc a (sv_obj s) = Inr (b, r, obj1)" "local_calls meth (map snd qs) obj1 = Inr (rs1, obj)" "rs = (b, r) # rs1"
    using Cons.prems(9) q by (auto simp: bind_r_eq_Inr)
  have proc: "proc = rpc_bind \<longleftrightarrow> \<not> cl_bind_done c" "sv_procs s proc = Some (h_fn1 g z p' (meth proc))" and a: "sendable e f a"
    and b: "sendable e' f' r" "0 \<le> sint b" and adr: "rw_heap (sv_win s) adr = None"
    using Cons.prems(1,2,3,5,8,10) q m(3) by (auto simp: offers_def)
  note x = next_xid [of "cl_xid c" "length qs"]
  obtain c1 s1 where c1: "call_1 mem (exchange mem junk t adr cid new) p g' proc a r0 (c, s) = Inr (b, r, (c1, s1))" "sv_obj s1 = obj1"
    "linked cid new c1 s1" "same_client c c1" "cl_xid c1 = cl_xid c + 1" "same_service s s1"
    "dom (rw_heap (sv_win s1)) \<subseteq> insert adr (dom (rw_heap (sv_win s)))"
    by (rule one_call [where meth = "meth proc", OF arg(1) a arg(2) res(1) b(1) res(2) Cons.prems(4) proc adr _ m(1) b(2)])
      (use x Cons.prems(6) in auto)
  have "\<exists>c' s'. session mem junk t cid new p g' r0 qs (c1, s1) = Inr (rs1, c', s') \<and> sv_obj s' = obj \<and> linked cid new c' s'"
  proof (rule Cons.IH)
    show "\<forall>(adr, proc, a)\<in>set qs. proc \<in> P \<and> sendable e f a" "rpc_bind \<notin> P" "distinct (map fst qs)"
      using Cons.prems(1,2,7) by simp_all
    show "offers P g z p' meth s1" by (rule offers_kept [OF Cons.prems(3) c1(6)])
    show "linked cid new c1 s1" by (rule c1(3))
    show "cl_bind_done c1" using c1(4) Cons.prems(5) by (simp add: same_client_def)
    show "unat (cl_xid c1) + length qs < 2 ^ 32" using x(2) Cons.prems(6) c1(5) by simp
    show "fst ` set qs \<inter> dom (rw_heap (sv_win s1)) = {}" using Cons.prems(7,8) c1(7) q by auto
    show "local_calls meth (map snd qs) (sv_obj s1) = Inr (rs1, obj)" using m(2) c1(2) by simp
    show "\<forall>(b, r)\<in>set rs1. 0 \<le> sint b \<and> sendable e' f' r" using Cons.prems(10) m(3) by simp
  qed
  then show ?case using c1(1) q m(3) by auto
qed simp

section \<open>Binding\<close>

text \<open>\<open>call1\<close> of a client whose server is in state \<open>s\<close>.\<close>

definition against :: "(rpcc \<times> 'o rpcs) caller1 \<Rightarrow> 'o rpcs \<Rightarrow> rpcc caller1" where
  "against call s proc req c = bind_r (call proc req (c, s)) (\<lambda>(ret, u, (c, s)). Inr (ret, u, c))"

lemma call_1_against:
  "call_1 mem call p g proc a r0 (c, s) = Inr (b, r, (c', s')) \<Longrightarrow> call_1 mem (against call s) p g proc a r0 c = Inr (b, r, c')"
  by (auto simp: call_1_def call_m_def against_def Let_def bind_r_eq_Inr split: if_splits)

lemma bind_exchange:
  fixes s :: "'o rpcs"
  assumes link: "linked cid new c s" "\<not> cl_bind_done c" "cl_xid c \<noteq> - 1" and adr: "rw_heap (sv_win s) adr = None"
    and srv: "sv_procs s rpc_bind = Some (h_fn1 get_int z put_int (rpcbind (sv_nonce s)))"
  obtains c' and s' :: "'o rpcs" where
    "rpcc_bind mem (against (exchange mem junk t adr cid new) s) r0 c = Inr (0, c'\<lparr>cl_bind_done := True, cl_srv_nonce := sv_nonce s\<rparr>)"
    "call_1 mem (exchange mem junk t adr cid new) put_int get_int rpc_bind 0 r0 (c, s) = Inr (0, sv_nonce s, (c', s'))"
    "linked cid new c' s'" "same_service s s'" "sv_obj s' = sv_obj s" "cl_xid c' = cl_xid c + 1"
    "dom (rw_heap (sv_win s')) \<subseteq> insert adr (dom (rw_heap (sv_win s)))"
proof -
  have ok: "sendable be32 (\<lambda>_. True) (0 :: i32)" "sendable be32 (\<lambda>_. True) (sv_nonce s)"
    by (simp_all add: sendable_def)
  have m: "rpcbind (sv_nonce s) 0 (sv_obj s) = Inr (0, sv_nonce s, sv_obj s)" "0 \<le> sint (0 :: i32)" by (simp_all add: rpcbind_def)
  have proc: "rpc_bind = rpc_bind \<longleftrightarrow> \<not> cl_bind_done c" using link(2) by simp
  obtain c' s' where E: "call_1 mem (exchange mem junk t adr cid new) put_int get_int rpc_bind 0 r0 (c, s) = Inr (0, sv_nonce s, (c', s'))"
    "sv_obj s' = sv_obj s" "linked cid new c' s'" "cl_xid c' = cl_xid c + 1" "same_service s s'"
    "dom (rw_heap (sv_win s')) \<subseteq> insert adr (dom (rw_heap (sv_win s)))"
    by (rule one_call [OF int_codec.codec_axioms ok(1) TrueI int_codec.codec_axioms ok(2) TrueI link(1) proc srv adr link(3) m])
  then show ?thesis using that [of c' s'] call_1_against [OF E(1)] by (simp add: rpcc_bind_def)
qed

text \<open>\<open>bind\<close> with the state of both sides.\<close>

definition bind_both :: "memory \<Rightarrow> (rpcc \<times> 'o rpcs) caller1 \<Rightarrow> i32 \<Rightarrow> rpcc \<times> 'o rpcs \<Rightarrow> (i32 \<times> rpcc \<times> 'o rpcs) result" where
  "bind_both mem call1 r0 cs =
     bind_r (call_1 mem call1 put_int get_int rpc_bind 0 r0 cs) (\<lambda>(ret, r, (c, s)).
     if ret = 0 then Inr (ret, c\<lparr>cl_bind_done := True, cl_srv_nonce := r\<rparr>, s) else Inr (ret, c, s))"

lemma bind_both_client:
  "bind_both mem call1 r0 (c, s) = Inr (ret, c', s') \<Longrightarrow> rpcc_bind mem (against call1 s) r0 c = Inr (ret, c')"
  using call_1_against [of mem call1 put_int get_int rpc_bind 0 r0 c s]
  by (auto simp: bind_both_def rpcc_bind_def bind_r_eq_Inr split: if_splits)

lemma linked_bound:
  "linked cid new c s \<Longrightarrow> linked cid new (c\<lparr>cl_bind_done := True, cl_srv_nonce := sv_nonce s\<rparr>) s"
  using chan_ready_cong [of "c\<lparr>cl_bind_done := True, cl_srv_nonce := sv_nonce s\<rparr>" c new]
  by (simp add: linked_def client_side_def server_side_def)

lemma connects_new: "connects (Some (d, fst (conn_new fd now lossy)))"
  by (simp add: connects_def quiet_conn_def conn_new_def charbuf_empty_def)

text \<open>A client between two calls can be deleted.\<close>

lemma client_side_delete: "client_side new c \<Longrightarrow> \<exists>st. rpcc_delete c = Inr st"
  by (auto simp: client_side_def chan_ready_def rpcc_delete_def quiet_conn_def st_ops closeconn_def decref_def conn_delete_def Let_def
      split: option.splits)

text \<open>The state of a new client and a new server that has accepted its connection.\<close>

lemma linked_new:
  assumes s: "sv_win s = rwindow_init" "sv_counting s = 0" "sv_reachable s" "sv_conns s = Map.empty"
    and "rand \<noteq> 0" "connects (Some (d, k))"
  shows "linked cid (Some (d, k)) (rpcc_new True rand 0 junk) (s\<lparr>sv_store := [cid \<mapsto> fst (conn_new fd now lossy)]\<rparr>)"
proof -
  have "client_side (Some (d, k)) (rpcc_new True rand 0 junk)"
    using assms(5,6) by (auto simp: client_side_def rpcc_new_def isvalid_def request_clear_def chan_ready_def xid_inv_def xid_abs_def)
  moreover have "server_side cid (rpcc_new True rand 0 junk) (s\<lparr>sv_store := [cid \<mapsto> fst (conn_new fd now lossy)]\<rparr>)"
    using s rw_ok_init
    by (auto simp: server_side_def srv_ready_def rpcc_new_def open_conn_def knows_conn_def conn_new_def rwindow_init_def rw_seen_def known_def)
  ultimately show ?thesis by (simp add: linked_def)
qed

end
