(* ===== verification/Addresses.thy ===== *)
theory Addresses
  imports Timespec
begin

text \<open>
  Addresses from text: the two functions \<open>make_sockaddr\<close> of \<^verbatim>\<open>rpc/rpc.cc\<close>, with what they use of
  the C library.  A C string is the list of its characters before the terminating zero.

  \<open>inet_addr\<close> and \<open>gethostbyname\<close> are arguments: the first gives the four bytes of an address in
  network order as one word, the second the length of the host's address and its first four bytes,
  when the host is found.  A process that ends itself by \<open>exit(1)\<close> gives the result \<open>Exits\<close>.
\<close>

section \<open>The C library\<close>

text \<open>\<open>index(s, c)\<close>: the position of the first \<open>c\<close>.\<close>

fun index_of :: "char \<Rightarrow> string \<Rightarrow> nat option" where
  "index_of c [] = None"
| "index_of c (x # xs) = (if x = c then Some 0 else map_option Suc (index_of c xs))"

definition c_isspace :: "char \<Rightarrow> bool" where
  "c_isspace c \<longleftrightarrow> c \<in> {CHR '' '', CHR 0x09, CHR 0x0A, CHR 0x0B, CHR 0x0C, CHR 0x0D}"

definition c_isdigit :: "char \<Rightarrow> bool" where
  "c_isdigit c \<longleftrightarrow> (48 \<le> (of_char c :: nat) \<and> (of_char c :: nat) \<le> 57)"

fun digits_value :: "int \<Rightarrow> string \<Rightarrow> int" where
  "digits_value v [] = v"
| "digits_value v (c # cs) = (if c_isdigit c then digits_value (10 * v + (of_char c - 48)) cs else v)"

text \<open>\<open>atoi\<close>: blanks, a sign, digits; the behaviour is undefined when the value is no \<open>int\<close>.\<close>

definition atoi :: "string \<Rightarrow> int result" where
  "atoi s =
     (let t = dropWhile c_isspace s;
          v = (case t of
                 [] \<Rightarrow> 0
               | c # cs \<Rightarrow> if c = CHR ''-'' then - digits_value 0 cs
                   else if c = CHR ''+'' then digits_value 0 cs else digits_value 0 t)
      in if - (2 ^ 31) \<le> v \<and> v < 2 ^ 31 then Inr v else Inl Signed_Overflow)"

text \<open>\<open>htons\<close> on the little-endian platform swaps the two bytes of its argument.\<close>

definition htons :: "u16 \<Rightarrow> u16" where
  "htons x = push_bit 8 x OR drop_bit 8 x"

section \<open>Definitions\<close>

definition AF_INET :: u16 where "AF_INET = 2"
definition INADDR_NONE :: u32 where "INADDR_NONE = 0xffffffff"

definition localhost :: string where "localhost = ''127.0.0.1''"

text \<open>
  The host, held in \<open>char host[200]\<close>, and the port of \<open>hostandport\<close>: the copy and its terminating zero
  take one byte more than the host has.
\<close>

definition host_and_port :: "string \<Rightarrow> (string \<times> string) result" where
  "host_and_port hostandport =
     (case index_of CHR '':'' hostandport of
        None \<Rightarrow> Inr (localhost, hostandport)
      | Some k \<Rightarrow> if k + 1 \<le> 200 then Inr (take k hostandport, drop (Suc k) hostandport) else Inl Out_Of_Bounds)"

definition find_host :: "(string \<Rightarrow> u32) \<Rightarrow> (string \<Rightarrow> (int \<times> u32) option) \<Rightarrow> string \<Rightarrow> u32 ended" where
  "find_host inet_addr gethostbyname host =
     (let a = inet_addr host
      in if a \<noteq> INADDR_NONE then Goes_On a
         else (case gethostbyname host of
                 None \<Rightarrow> Exits
               | Some (h_length, h_addr) \<Rightarrow> if h_length \<noteq> 4 then Exits else Goes_On h_addr))"

definition make_sockaddr2 ::
    "(string \<Rightarrow> u32) \<Rightarrow> (string \<Rightarrow> (int \<times> u32) option) \<Rightarrow> string \<Rightarrow> string \<Rightarrow> sockaddr_in ended result" where
  "make_sockaddr2 inet_addr gethostbyname host port =
     (case find_host inet_addr gethostbyname host of
        Exits \<Rightarrow> Inr Exits
      | Goes_On a \<Rightarrow> bind_r (atoi port) (\<lambda>p. Inr (Goes_On (Sockaddr_in AF_INET (htons (word_of_int p)) a))))"

definition make_sockaddr ::
    "(string \<Rightarrow> u32) \<Rightarrow> (string \<Rightarrow> (int \<times> u32) option) \<Rightarrow> string \<Rightarrow> sockaddr_in ended result" where
  "make_sockaddr inet_addr gethostbyname hostandport =
     bind_r (host_and_port hostandport) (\<lambda>(host, port). make_sockaddr2 inet_addr gethostbyname host port)"

section \<open>Numbers as text\<close>

text \<open>
  What a text means to \<open>atoi\<close>, said without reading it from the left: blanks, perhaps a sign, digits, and a rest that does not go on
  with a digit.  Every text has exactly one number; without digits it is 0.
\<close>

definition decimal_value :: "string \<Rightarrow> int" where
  "decimal_value ds = foldl (\<lambda>v c. 10 * v + (of_char c - 48)) 0 ds"

definition number_text :: "string \<Rightarrow> string \<Rightarrow> string \<Rightarrow> string \<Rightarrow> bool" where
  "number_text blanks sign ds rest \<longleftrightarrow> (\<forall>c\<in>set blanks. c_isspace c) \<and> sign \<in> {'''', ''-'', ''+''} \<and> (\<forall>c\<in>set ds. c_isdigit c)
     \<and> (rest \<noteq> [] \<longrightarrow> \<not> c_isdigit (hd rest))
     \<and> (sign = [] \<and> ds = [] \<and> rest \<noteq> [] \<longrightarrow> \<not> c_isspace (hd rest) \<and> hd rest \<noteq> CHR ''-'' \<and> hd rest \<noteq> CHR ''+'')"

definition reads :: "string \<Rightarrow> int \<Rightarrow> bool" where
  "reads s v \<longleftrightarrow> (\<exists>blanks sign ds rest. s = blanks @ sign @ ds @ rest \<and> number_text blanks sign ds rest
     \<and> v = (if sign = ''-'' then - decimal_value ds else decimal_value ds))"

text \<open>The value that \<open>atoi\<close> computes before it has to fit an \<open>int\<close>.\<close>

definition scanned :: "string \<Rightarrow> int" where
  "scanned s = (let t = dropWhile c_isspace s in
     case t of [] \<Rightarrow> 0 | c # cs \<Rightarrow> if c = CHR ''-'' then - digits_value 0 cs else if c = CHR ''+'' then digits_value 0 cs else digits_value 0 t)"

lemma atoi_scanned: "atoi s = (if - (2 ^ 31) \<le> scanned s \<and> scanned s < 2 ^ 31 then Inr (scanned s) else Inl Signed_Overflow)"
  by (simp add: atoi_def scanned_def Let_def)

lemma digits_value_text:
  "\<forall>c\<in>set ds. c_isdigit c \<Longrightarrow> (rest \<noteq> [] \<longrightarrow> \<not> c_isdigit (hd rest)) \<Longrightarrow>
   digits_value v (ds @ rest) = foldl (\<lambda>v c. 10 * v + (of_char c - 48)) v ds"
proof (induction ds arbitrary: v)
  case Nil
  then show ?case by (cases rest) simp_all
qed simp

lemma isdigitD: "c_isdigit c \<Longrightarrow> \<not> c_isspace c \<and> c \<noteq> CHR ''-'' \<and> c \<noteq> CHR ''+'' \<and> c \<noteq> CHR '':''"
  by (auto simp: c_isdigit_def c_isspace_def)

lemma sign_no_space: "\<not> c_isspace CHR ''-''" "\<not> c_isspace CHR ''+''"
  by (simp_all add: c_isspace_def)

lemma reads_scanned:
  assumes "reads s v"
  shows "v = scanned s"
proof -
  obtain blanks sign ds rest where s: "s = blanks @ sign @ ds @ rest" and n: "number_text blanks sign ds rest"
    and v: "v = (if sign = ''-'' then - decimal_value ds else decimal_value ds)" using assms unfolding reads_def by blast
  have N: "\<forall>c\<in>set blanks. c_isspace c" "sign = '''' \<or> sign = ''-'' \<or> sign = ''+''" "\<forall>c\<in>set ds. c_isdigit c" "rest \<noteq> [] \<longrightarrow> \<not> c_isdigit (hd rest)"
    "sign = [] \<Longrightarrow> ds = [] \<Longrightarrow> rest \<noteq> [] \<Longrightarrow> \<not> c_isspace (hd rest) \<and> hd rest \<noteq> CHR ''-'' \<and> hd rest \<noteq> CHR ''+''"
    using n unfolding number_text_def by auto
  have d: "digits_value 0 (ds @ rest) = decimal_value ds" using digits_value_text [OF N(3,4)] by (simp add: decimal_value_def)
  have t: "dropWhile c_isspace s = dropWhile c_isspace (sign @ ds @ rest)" unfolding s using N(1) by (simp add: dropWhile_append2)
  consider "sign = ''-''" | "sign = ''+''" | c cs where "sign = []" "ds = c # cs" | "sign = []" "ds = []" using N(2) by (cases ds) auto
  then show ?thesis
  proof cases
    case 3
    then have "c_isdigit c" using N(3) by simp
    then have c: "\<not> c_isspace c" "c \<noteq> CHR ''-''" "c \<noteq> CHR ''+''" using isdigitD by blast+
    then have "dropWhile c_isspace s = c # cs @ rest" using t 3 by simp
    then show ?thesis using c d v 3 by (simp add: scanned_def del: digits_value.simps)
  next
    case 4
    then have r: "dropWhile c_isspace s = rest" using t N(5) by (cases rest) auto
    have "v = 0" using v 4 by (simp add: decimal_value_def)
    then show ?thesis unfolding scanned_def r Let_def using 4 N(4,5) by (cases rest) simp_all
  qed (use t d v sign_no_space in \<open>simp_all add: scanned_def\<close>)
qed

lemma reads_exists: "reads s (scanned s)"
proof -
  define blanks where "blanks = takeWhile c_isspace s"
  define t where "t = dropWhile c_isspace s"
  have head: "t \<noteq> [] \<Longrightarrow> \<not> c_isspace (hd t)" unfolding t_def by (rule hd_dropWhile)
  define sign where "sign = (if t \<noteq> [] \<and> (hd t = CHR ''-'' \<or> hd t = CHR ''+'') then [hd t] else [])"
  define u where "u = drop (length sign) t"
  define ds where "ds = takeWhile c_isdigit u"
  define rest where "rest = dropWhile c_isdigit u"
  have "t = sign @ u" by (cases t) (simp_all add: sign_def u_def)
  moreover have "u = ds @ rest" by (simp add: ds_def rest_def)
  moreover have "s = blanks @ t" by (simp add: blanks_def t_def)
  ultimately have s: "s = blanks @ sign @ ds @ rest" and t: "t = sign @ ds @ rest" by simp_all
  have "number_text blanks sign ds rest"
    unfolding number_text_def
  proof (intro conjI impI)
    show "\<forall>c\<in>set blanks. c_isspace c" by (auto simp: blanks_def dest: set_takeWhileD)
    show "sign \<in> {'''', ''-'', ''+''}" by (auto simp: sign_def)
    show "\<forall>c\<in>set ds. c_isdigit c" by (auto simp: ds_def dest: set_takeWhileD)
    show "\<not> c_isdigit (hd rest)" if "rest \<noteq> []" using that unfolding rest_def by (rule hd_dropWhile)
    assume e: "sign = [] \<and> ds = [] \<and> rest \<noteq> []"
    then have r: "t = rest" "t \<noteq> []" using t by simp_all
    have "hd t \<noteq> CHR ''-'' \<and> hd t \<noteq> CHR ''+''" using conjunct1 [OF e] r(2) unfolding sign_def by (simp split: if_splits)
    then show "\<not> c_isspace (hd rest)" "hd rest \<noteq> CHR ''-''" "hd rest \<noteq> CHR ''+''" using r head by blast+
  qed
  then have "\<exists>v. reads s v" unfolding reads_def using s by blast
  then show ?thesis using reads_scanned by blast
qed

lemma reads_iff: "reads s v \<longleftrightarrow> v = scanned s"
  using reads_scanned reads_exists by blast

text \<open>The decimal text of a number, for stating what \<open>atoi\<close> reads.\<close>

fun decimal :: "nat \<Rightarrow> string" where
  "decimal n = (if n < 10 then [char_of (48 + n)] else decimal (n div 10) @ [char_of (48 + n mod 10)])"

declare decimal.simps [simp del]

lemma of_char_digit [simp]: "d < 10 \<Longrightarrow> (of_char (char_of (48 + d)) :: nat) = 48 + d"
  by (simp add: of_char_of take_bit_nat_eq_self)

lemma isdigit_digit [simp]: "d < 10 \<Longrightarrow> c_isdigit (char_of (48 + d :: nat))"
  by (simp add: c_isdigit_def)

lemma of_char_int: "(of_char c :: int) = int (of_char c)"
  by (simp add: of_char_def)

lemma digits_value_append:
  "\<forall>c\<in>set xs. c_isdigit c \<Longrightarrow> digits_value v (xs @ ys) = digits_value (digits_value v xs) ys"
  by (induction xs arbitrary: v) auto

lemma decimal_digits: "\<forall>c\<in>set (decimal n). c_isdigit c"
proof (induction n rule: decimal.induct)
  case (1 n)
  show ?case
    using 1 by (subst decimal.simps) auto
qed

lemma digits_value_decimal: "digits_value 0 (decimal n) = int n"
proof (induction n rule: decimal.induct)
  case (1 n)
  show ?case
  proof (cases "n < 10")
    case True
    then show ?thesis by (subst decimal.simps) (simp add: of_char_int)
  next
    case False
    then have "digits_value 0 (decimal n) = 10 * int (n div 10) + int (n mod 10)"
      using 1 digits_value_append [OF decimal_digits, of 0 "n div 10" "[char_of (48 + n mod 10)]"]
      by (subst decimal.simps) (simp add: of_char_int)
    then show ?thesis by presburger
  qed
qed

lemma decimal_neq_Nil: "decimal n \<noteq> []"
  by (subst decimal.simps) simp

lemma atoi_decimal: "n < 2 ^ 31 \<Longrightarrow> atoi (decimal n) = Inr (int n)"
proof -
  assume n: "n < 2 ^ 31"
  obtain c cs where c: "decimal n = c # cs" using decimal_neq_Nil by (cases "decimal n") auto
  then have "c_isdigit c" using decimal_digits [of n] by simp
  then have "\<not> c_isspace c" "c \<noteq> CHR ''-''" "c \<noteq> CHR ''+''" using isdigitD by blast+
  moreover have "int n < 2 ^ 31" using n by simp
  ultimately show ?thesis
    using digits_value_decimal [of n] by (simp add: atoi_def c del: digits_value.simps)
qed

section \<open>Hosts and ports\<close>

lemma index_of_None: "index_of c xs = None \<longleftrightarrow> c \<notin> set xs"
  by (induction xs) auto

lemma index_of_split: "c \<notin> set xs \<Longrightarrow> index_of c (xs @ c # ys) = Some (length xs)"
  by (induction xs) auto

lemma host_and_port_pair:
  "CHR '':'' \<notin> set host \<Longrightarrow>
   host_and_port (host @ CHR '':'' # port) = (if length host < 200 then Inr (host, port) else Inl Out_Of_Bounds)"
  by (simp add: host_and_port_def index_of_split)

lemma host_and_port_alone:
  "CHR '':'' \<notin> set port \<Longrightarrow> host_and_port port = Inr (localhost, port)"
  using index_of_None [of "CHR '':''" port] by (simp add: host_and_port_def)

lemma htons_htons [simp]: "htons (htons x) = x"
  by (rule bit_word_eqI) (auto simp: htons_def bit_simps)

lemma make_sockaddr2_reads:
  "make_sockaddr2 ia gh host port =
     (case find_host ia gh host of Exits \<Rightarrow> Inr Exits
      | Goes_On a \<Rightarrow> if - (2 ^ 31) \<le> scanned port \<and> scanned port < 2 ^ 31
          then Inr (Goes_On (Sockaddr_in AF_INET (htons (word_of_int (scanned port))) a)) else Inl Signed_Overflow)"
  by (cases "find_host ia gh host") (simp_all add: make_sockaddr2_def atoi_scanned)

section \<open>Property\<close>

text \<open>
  C39: what \<open>make_sockaddr\<close> makes of an address, for every text.  A text without a colon is a port of 127.0.0.1; otherwise what is before the first
  colon is the host and what follows it the port.  The port is the number that the text reads as -- blanks, a sign, digits, then anything; 0 when it has no
  digits -- in network order and modulo 65536, also when it is negative; a number that is no \<open>int\<close> is undefined behaviour of \<open>atoi\<close>.
  The address is the one found for the host, and the process ends when there is none; a host of 200 or more
  characters is written past the end of the array \<open>host[200]\<close>.
\<close>

theorem make_sockaddr_outcome:
  assumes "CHR '':'' \<notin> set host"
    and "\<And>h. at h = (case find_host inet_addr gethostbyname h of Exits \<Rightarrow> Inr Exits
      | Goes_On a \<Rightarrow> if - (2 ^ 31) \<le> v \<and> v < 2 ^ 31 then Inr (Goes_On (Sockaddr_in AF_INET (htons (word_of_int (v mod 65536))) a)) else Inl Signed_Overflow)"
  shows "(\<exists>!w. reads port w) \<and> (reads port v \<longrightarrow>
    (CHR '':'' \<notin> set port \<longrightarrow> make_sockaddr inet_addr gethostbyname port = at localhost) \<and>
    make_sockaddr inet_addr gethostbyname (host @ CHR '':'' # port) = (if length host < 200 then at host else Inl Out_Of_Bounds))"
proof -
  have "(word_of_int (v mod 65536) :: u16) = word_of_int v" by (simp add: word_of_int_eq_iff take_bit_eq_mod)
  then have "make_sockaddr2 inet_addr gethostbyname h port = at h" if "v = scanned port" for h
    unfolding make_sockaddr2_reads assms(2) using that by (cases "find_host inet_addr gethostbyname h") simp_all
  then show ?thesis
    by (auto simp: reads_iff make_sockaddr_def host_and_port_pair [OF assms(1)] host_and_port_alone)
qed

theorem make_sockaddr_outcome_witness:
  "make_sockaddr (\<lambda>h. if h = localhost then 0x0100007f else INADDR_NONE)
     (\<lambda>h. if h = ''srv'' then Some (4, 0x0500000a) else None) ''srv:5000'' =
     Inr (Goes_On (Sockaddr_in 2 0x8813 0x0500000a)) \<and>
   make_sockaddr (\<lambda>h. if h = localhost then 0x0100007f else INADDR_NONE)
     (\<lambda>h. if h = ''srv'' then Some (4, 0x0500000a) else None) ''5000'' =
     Inr (Goes_On (Sockaddr_in 2 0x8813 0x0100007f))"
proof -
  let ?ia = "\<lambda>h. if h = localhost then 0x0100007f else INADDR_NONE"
  let ?gh = "\<lambda>h. if h = ''srv'' then Some (4, 0x0500000a) else None"
  have digits: "reads ''5000'' 5000" by (simp add: reads_iff scanned_def c_isspace_def c_isdigit_def of_char_def)
  have port: "htons 5000 = 0x8813" by (simp add: htons_def)
  show ?thesis
    using make_sockaddr_outcome [where host = "''srv''" and inet_addr = ?ia and gethostbyname = ?gh and v = 5000 and port = "''5000''"
      and at = "\<lambda>h. case find_host ?ia ?gh h of Exits \<Rightarrow> Inr Exits
      | Goes_On a \<Rightarrow> if - (2 ^ 31) \<le> (5000 :: int) \<and> (5000 :: int) < 2 ^ 31 then Inr (Goes_On (Sockaddr_in AF_INET (htons (word_of_int (5000 mod 65536))) a))
        else Inl Signed_Overflow"]
    by (simp add: digits port find_host_def AF_INET_def localhost_def INADDR_NONE_def)
qed

end
