(* ===== verification/Lock_Service.thy ===== *)
theory Lock_Service
  imports Remote_Call Lock_Client Addresses
begin

text \<open>
  The lock service as a whole: the methods of theory \<open>Lock_Server\<close> registered with a server as
  \<^verbatim>\<open>lock_smain.cc\<close> does it, called through the stubs, the endpoints and the messages of theory
  \<open>Remote_Call\<close>.  The abstract service answers a list of calls from the table of holders.
\<close>

section \<open>The server program\<close>

text \<open>
  The methods as \<open>reg\<close> sees them.  A handler that has to wait for its lock continues when another
  thread lets it; what comes of it is the argument \<open>blocked\<close>.
\<close>

type_synonym lock_wait = "i32 \<Rightarrow> lockid_t \<Rightarrow> lock_server \<Rightarrow> (i32 \<times> i32 \<times> lock_server) result"

definition stat_method :: "i32 \<Rightarrow> lockid_t \<Rightarrow> lock_server \<Rightarrow> (i32 \<times> i32 \<times> lock_server) result" where
  "stat_method clt lid s = (case ls_stat clt lid s of (ret, r) \<Rightarrow> Inr (ret, r, s))"

definition acquire_method :: "lock_wait \<Rightarrow> i32 \<Rightarrow> lockid_t \<Rightarrow> lock_server \<Rightarrow> (i32 \<times> i32 \<times> lock_server) result" where
  "acquire_method blocked clt lid s =
     (case acquire_pass clt lid s of
        (Some (ret, r), s) \<Rightarrow> Inr (ret, r, s)
      | (None, s) \<Rightarrow> blocked clt lid s)"

definition release_method :: "i32 \<Rightarrow> lockid_t \<Rightarrow> lock_server \<Rightarrow> (i32 \<times> i32 \<times> lock_server) result" where
  "release_method clt lid s = (case ls_release clt lid s of ((ret, r, sig), s) \<Rightarrow> Inr (ret, r, s))"

text \<open>\<open>main\<close>: \<open>z\<close>, \<open>z1\<close> and \<open>z2\<close> are the uninitialised arguments of the handlers.\<close>

definition lock_smain :: "u32 \<Rightarrow> int \<Rightarrow> lock_wait \<Rightarrow> i32 \<Rightarrow> i32 \<Rightarrow> lockid_t \<Rightarrow> lock_server rpcs result" where
  "lock_smain nonce counting blocked z z1 z2 =
     bind_r (rpcs_new nonce counting z lock_server_new) (\<lambda>s.
     bind_r (reg1 lp_stat (h_fn2 get_int get_ullong z1 z2 put_int stat_method) s) (\<lambda>s.
     bind_r (reg1 lp_acquire (h_fn2 get_int get_ullong z1 z2 put_int (acquire_method blocked)) s) (\<lambda>s.
     reg1 lp_release (h_fn2 get_int get_ullong z1 z2 put_int release_method) s)))"

text \<open>
  The beginning of \<open>main\<close>: the arguments, and the environment variable \<^verbatim>\<open>RPC_COUNT\<close> when it is set.  The result is the port with the server on it.
\<close>

definition lock_server_main ::
    "string list \<Rightarrow> string option \<Rightarrow> u32 \<Rightarrow> lock_wait \<Rightarrow> i32 \<Rightarrow> i32 \<Rightarrow> lockid_t \<Rightarrow> (int \<times> lock_server rpcs) ended result" where
  "lock_server_main argv count_env nonce blocked z z1 z2 =
     (if length argv \<noteq> 2 then Inr Exits
      else bind_r (case count_env of None \<Rightarrow> Inr 0 | Some v \<Rightarrow> atoi v) (\<lambda>count.
           bind_r (atoi (argv ! 1)) (\<lambda>port.
           bind_r (lock_smain nonce count blocked z z1 z2) (\<lambda>s. Inr (Goes_On (port, s))))))"

section \<open>The client programs\<close>

text \<open>
  The constructor of \<open>lock_client\<close> with the address it connects to; a failing \<open>bind\<close> is only printed.  Then \<open>main\<close> of
  \<^verbatim>\<open>lock_demo.cc\<close>: what it prints.
\<close>

definition lock_client_new ::
    "memory \<Rightarrow> rpcc caller1 \<Rightarrow> i32 \<Rightarrow> (string \<Rightarrow> u32) \<Rightarrow> (string \<Rightarrow> (int \<times> u32) option) \<Rightarrow> string \<Rightarrow> u32 \<Rightarrow> i32 \<Rightarrow> (sockaddr_in \<times> rpcc) ended result" where
  "lock_client_new mem call1 r0 inet_addr gethostbyname dst rand junk =
     bind_r (make_sockaddr inet_addr gethostbyname dst) (\<lambda>r.
     case r of
       Exits \<Rightarrow> Inr Exits
     | Goes_On dstsock \<Rightarrow>
         bind_r (rpcc_bind mem call1 r0 (rpcc_new True rand 0 junk)) (\<lambda>(ret, cl). Inr (Goes_On (dstsock, cl))))"

definition lock_demo ::
    "memory \<Rightarrow> rpcc caller1 \<Rightarrow> i32 \<Rightarrow> (string \<Rightarrow> u32) \<Rightarrow> (string \<Rightarrow> (int \<times> u32) option) \<Rightarrow> u32 \<Rightarrow> i32 \<Rightarrow> rpcc rpc_call \<Rightarrow> string list \<Rightarrow> i32 ended result" where
  "lock_demo mem call1 r0 inet_addr gethostbyname rand junk call argv =
     (if length argv \<noteq> 2 then Inr Exits
      else bind_r (lock_client_new mem call1 r0 inet_addr gethostbyname (argv ! 1) rand junk) (\<lambda>r.
        case r of
          Exits \<Rightarrow> Inr Exits
        | Goes_On (dstsock, cl) \<Rightarrow> bind_r (lc_stat call 1 cl) (\<lambda>(r, cl). Inr (Goes_On r))))"

text \<open>The calls of a \<open>lock_client\<close>, with \<open>cl->id()\<close> as the first argument.\<close>

definition lc_call :: "memory \<Rightarrow> rpcc caller1 \<Rightarrow> i32 \<Rightarrow> u32 \<Rightarrow> lockid_t \<Rightarrow> rpcc \<Rightarrow> (i32 \<times> i32 \<times> rpcc) result" where
  "lc_call mem call1 r0 proc lid cl = call_2 mem call1 put_int put_ullong get_int proc (rpcc_id cl) lid r0 cl"

text \<open>A client that failed to bind stays unbound, and the library refuses all its calls without sending them.\<close>

lemma unbound_call_refused:
  assumes "\<not> cl_bind_done cl" "proc \<noteq> rpc_bind"
  shows "rpcc_call1 mem junk t now to ins proc req cl = Some (Inr (bind_failure, unmarshall_empty, [], cl))"
  using assms by (simp add: rpcc_call1_def call1_begin_def)

lemma bind_failure_unbound:
  assumes "call_1 mem call1 put_int get_int rpc_bind 0 r0 (rpcc_new True rand 0 junk) = Inr (ret, r, cl)" "ret \<noteq> 0" "\<not> cl_bind_done cl"
    "make_sockaddr ia gh dst = Inr (Goes_On sock)"
  shows "lock_client_new mem call1 r0 ia gh dst rand junk = Inr (Goes_On (sock, cl)) \<and> \<not> cl_bind_done cl"
  using assms by (simp add: lock_client_new_def rpcc_bind_def)

lemma refused_acquire_aborts:
  assumes "\<And>s. call lp_acquire lid s = ((bind_failure, r), s)"
  shows "lc_acquire call lid s = Some (Inl Verify_Failed)"
  using assms by (simp add: lc_acquire_def acquire_loop_stops bind_failure_def lp_status_defs)

section \<open>The abstract service\<close>

definition lock_procs :: "u32 set" where
  "lock_procs = {lp_stat, lp_acquire, lp_release}"

text \<open>Status and value of each call, and the table after them; none when a call has to wait.\<close>

fun lk_answers :: "(lockid_t \<rightharpoonup> i32) \<Rightarrow> (u32 \<times> i32 \<times> lockid_t) list \<Rightarrow> ((i32 \<times> i32) list \<times> (lockid_t \<rightharpoonup> i32)) option" where
  "lk_answers m [] = Some ([], m)"
| "lk_answers m ((proc, c, l) # qs) =
     (if proc = lp_stat then map_option (\<lambda>(rs, m). ((lp_OK, 0) # rs, m)) (lk_answers m qs)
      else if proc = lp_acquire then
        (if m l = None then map_option (\<lambda>(rs, m). ((lp_OK, 0) # rs, m)) (lk_answers (m(l \<mapsto> c)) qs) else None)
      else if m l = Some c then map_option (\<lambda>(rs, m). ((lp_OK, 0) # rs, m)) (lk_answers (m(l := None)) qs)
      else map_option (\<lambda>(rs, m). ((lp_RETRY, - 1) # rs, m)) (lk_answers m qs))"

definition lock_method :: "lock_wait \<Rightarrow> u32 \<Rightarrow> i32 \<times> lockid_t \<Rightarrow> lock_server \<Rightarrow> (i32 \<times> i32 \<times> lock_server) result" where
  "lock_method blocked proc = (\<lambda>(c, l).
     if proc = lp_stat then stat_method c l else if proc = lp_acquire then acquire_method blocked c l else release_method c l)"

lemma lp_procs_distinct: "lp_stat \<noteq> lp_acquire" "lp_stat \<noteq> lp_release" "lp_acquire \<noteq> lp_release" "rpc_bind \<notin> lock_procs"
  "rpc_bind \<noteq> lp_stat" "rpc_bind \<noteq> lp_acquire" "rpc_bind \<noteq> lp_release"
  by (simp_all add: lp_stat_def lp_acquire_def lp_release_def lock_procs_def rpc_bind_def)

text \<open>With the number of a port as its one argument it starts, and it counts nothing unless it is told to.\<close>

lemma lock_server_main_starts:
  assumes "port < 2 ^ 31"
  shows "\<exists>s. lock_server_main [prog, decimal port] None nonce blocked z z1 z2 = Inr (Goes_On (int port, s)) \<and> lock_smain nonce 0 blocked z z1 z2 = Inr s"
proof -
  have "\<exists>s. lock_smain nonce 0 blocked z z1 z2 = Inr s" using lp_procs_distinct by (auto simp: lock_smain_def rpcs_new_def reg1_def)
  then show ?thesis using atoi_decimal [OF assms] by (auto simp: lock_server_main_def)
qed

lemmas lock_methods = stat_method_def acquire_method_def release_method_def lock_method_def

lemma lk_answers_local:
  "lk_answers (lock_map s) qs = Some (rs, m) \<Longrightarrow> nacquire s = 0 \<Longrightarrow>
   \<exists>s'. local_calls (lock_method blocked) qs s = Inr (rs, s') \<and> lock_map s' = m \<and> nacquire s' = 0"
proof (induction qs arbitrary: s rs)
  case (Cons q qs)
  obtain proc c l where q: "q = (proc, c, l)" by (cases q)
  have "\<exists>b r s1 rs1. lock_method blocked proc (c, l) s = Inr (b, r, s1) \<and> nacquire s1 = 0 \<and> rs = (b, r) # rs1
      \<and> lk_answers (lock_map s1) qs = Some (rs1, m)"
    using Cons.prems q
    by (auto simp: lock_methods ls_stat_def acquire_pass_cases ls_release_cases locks.holder_get locks.holder_drop split: if_splits)
  then obtain b r s1 rs1 where 1: "lock_method blocked proc (c, l) s = Inr (b, r, s1)" "nacquire s1 = 0" "rs = (b, r) # rs1"
      "lk_answers (lock_map s1) qs = Some (rs1, m)"
    by blast
  show ?case using Cons.IH [OF 1(4,2)] 1(1,3) q by auto
qed simp

lemma lk_answers_status: "lk_answers m qs = Some (rs, m') \<Longrightarrow> (b, r) \<in> set rs \<Longrightarrow> b = lp_OK \<or> b = lp_RETRY"
proof (induction qs arbitrary: m rs)
  case (Cons q qs)
  then show ?case by (cases q) (auto split: if_splits)
qed simp

lemma smain_offers:
  assumes "lock_smain nonce counting blocked z z1 z2 = Inr s"
  shows "offers lock_procs (get_pair get_int get_ullong) (z1, z2) put_int (lock_method blocked) s"
    "sv_procs s rpc_bind = Some (h_fn1 get_int z put_int (rpcbind nonce))" "sv_nonce s = nonce" "sv_obj s = lock_server_new"
  using assms lp_procs_distinct
  by (auto simp: lock_smain_def rpcs_new_def reg1_def bind_r_eq_Inr offers_def lock_procs_def h_fn2_pair lock_method_def VERIFY_def split: if_splits)

lemma smain_fresh:
  assumes "lock_smain nonce 0 blocked z z1 z2 = Inr s"
  shows "sv_win s = rwindow_init" "sv_counting s = 0" "sv_reachable s" "sv_conns s = Map.empty"
  using assms by (auto simp: lock_smain_def rpcs_new_def reg1_def bind_r_eq_Inr VERIFY_def split: if_splits)

section \<open>The service over the network\<close>

lemma lock_session:
  fixes s :: "lock_server rpcs"
  assumes off: "offers lock_procs (get_pair get_int get_ullong) (z1, z2) put_int (lock_method blocked) s"
    and link: "linked cid new c s" "cl_bind_done c" "unat (cl_xid c) + length qs < 2 ^ 32"
    and adrs: "distinct (map fst qs)" "fst ` set qs \<inter> dom (rw_heap (sv_win s)) = {}"
    and calls: "fst ` snd ` set qs \<subseteq> lock_procs" "nacquire (sv_obj s) = 0" "lk_answers (lock_map (sv_obj s)) (map snd qs) = Some (rs, m)"
  shows "\<exists>c' s'. session mem junk t cid new (put_pair put_int put_ullong) get_int r0 qs (c, s) = Inr (rs, c', s') \<and> lock_map (sv_obj s') = m"
proof -
  obtain obj where obj: "local_calls (lock_method blocked) (map snd qs) (sv_obj s) = Inr (rs, obj)" "lock_map obj = m"
    using lk_answers_local [OF calls(3,2)] by blast
  have args: "\<forall>(adr, proc, a)\<in>set qs. proc \<in> lock_procs \<and> sendable (enc_pair be32 be64) (both (\<lambda>_. True) (\<lambda>_. True)) a"
    using calls(1) by (force simp: sendable_def both_def enc_pair_def)
  have res: "\<forall>(b, r)\<in>set rs. 0 \<le> sint b \<and> sendable be32 (\<lambda>_. True) r"
    using lk_answers_status [OF calls(3)] by (fastforce simp: sendable_def lp_status_defs)
  have fr: "both (\<lambda>_. True) (\<lambda>_. True) (z1, z2)" by (simp add: both_def)
  show ?thesis
    using session_local [OF codec_pair [OF int_codec.codec_axioms ullong_codec.codec_axioms] fr int_codec.codec_axioms TrueI args
        lp_procs_distinct(4) off link adrs obj(1) res] obj(2) by metis
qed

end
