(* ===== verification/Lock_Tester.thy ===== *)
theory Lock_Tester
  imports Lock_Client Addresses
begin

text \<open>
  The tester of the lock service, \<^verbatim>\<open>lock_tester.cc\<close>: its threads, which call the lock server through
  \<open>lock_client\<close> objects, and its own bookkeeping of who holds what, the counters \<open>ct\<close> that
  \<open>check_grant\<close> and \<open>check_release\<close> guard.

  A test is the list of its statements, the loops unrolled.  \<open>tester_step\<close> runs the threads of the
  tester against the server of theory \<open>Lock_Server\<close>: a call of a tester thread runs in the server thread
  with the same number, from \<open>T_Acquire\<close> to \<open>T_Acquiring\<close> until the call returns.  Thread 0 is
  the main thread and thread \<open>Suc i\<close> is \<open>th[i]\<close>; a slot \<open>th[i]\<close> is used again only after its thread has
  been joined.  \<open>cid i\<close> is the identity that \<open>lc[i]\<close> sends to the server.

  A call fails when \<open>rpcc::call\<close> gives a negative status, most often the timeout of two minutes, whatever has become of the request:
  the server has not got it, has not yet run it or waits in it, or its answer is lost.  After a failed \<open>acquire\<close> the \<open>VERIFY\<close> in
  \<open>lock_client::acquire\<close> ends the process.  The status of \<open>release\<close> is ignored and its thread goes on; the request, when it has not been
  executed, may still be executed at any later time, or never.  It then goes on in a server thread of its own, with a number above \<open>nt\<close>.
  The server's pool runs at most six requests at once; the order of the steps is free, so that is among the runs here.
\<close>

section \<open>Definitions\<close>

definition lock_a :: lockid_t where "lock_a = 1"
definition lock_b :: lockid_t where "lock_b = 2"
definition lock_c :: lockid_t where "lock_c = 3"

definition nt :: nat where "nt = 6"

text \<open>How the process ends early; \<open>Aborted ret f\<close> is the \<open>VERIFY\<close> of \<open>lock_client::acquire\<close>, or an overflow in its loop, after the status \<open>ret\<close>.\<close>

datatype texit = Granted_Twice lockid_t | Released_Unheld lockid_t | No_Thread | Aborted i32 fault

text \<open>\<open>int ct[256]\<close>: the index is masked, so it is always in the array.\<close>

type_synonym counts = "nat \<Rightarrow> i32"

definition ct_index :: "lockid_t \<Rightarrow> nat" where
  "ct_index lid = unat (lid AND 0xff)"

definition check_grant :: "lockid_t \<Rightarrow> counts \<Rightarrow> texit + counts" where
  "check_grant lid ct =
     (let x = ct_index lid in if ct x \<noteq> 0 then Inl (Granted_Twice lid) else Inr (ct(x := ct x + 1)))"

definition check_release :: "lockid_t \<Rightarrow> counts \<Rightarrow> texit + counts" where
  "check_release lid ct =
     (let x = ct_index lid in if ct x \<noteq> 1 then Inl (Released_Unheld lid) else Inr (ct(x := ct x - 1)))"

text \<open>
  The statements of the tests.  \<open>T_Acquire i lid n\<close> is \<open>lc[i]->acquire(lid)\<close> about to call the server with
  \<open>interval\<close> equal to \<open>n\<close>, \<open>T_Acquiring\<close> the same while the call is out.
\<close>

datatype tstmt =
    T_Acquire nat lockid_t int
  | T_Acquiring nat lockid_t int
  | T_Release nat lockid_t
  | T_Releasing nat lockid_t
  | T_Check_Grant lockid_t
  | T_Check_Release lockid_t
  | T_Create nat "tstmt list"
  | T_Join nat

definition test1 :: "tstmt list" where
  "test1 =
     [T_Acquire 0 lock_a 1, T_Check_Grant lock_a, T_Release 0 lock_a, T_Check_Release lock_a,
      T_Acquire 0 lock_a 1, T_Check_Grant lock_a, T_Release 0 lock_a, T_Check_Release lock_a,
      T_Acquire 0 lock_a 1, T_Check_Grant lock_a, T_Acquire 0 lock_b 1, T_Check_Grant lock_b,
      T_Release 0 lock_b, T_Check_Release lock_b, T_Release 0 lock_a, T_Check_Release lock_a]"

definition test2 :: "nat \<Rightarrow> tstmt list" where
  "test2 i = [T_Acquire i lock_a 1, T_Check_Grant lock_a, T_Check_Release lock_a, T_Release i lock_a]"

definition test3 :: "nat \<Rightarrow> tstmt list" where
  "test3 i = concat (replicate 10 [T_Acquire i lock_a 1, T_Check_Grant lock_a, T_Check_Release lock_a, T_Release i lock_a])"

definition test4 :: "nat \<Rightarrow> tstmt list" where
  "test4 i = concat (replicate 10 [T_Acquire 0 lock_a 1, T_Check_Grant lock_a, T_Check_Release lock_a, T_Release 0 lock_a])"

definition test5 :: "nat \<Rightarrow> tstmt list" where
  "test5 i = (let c = (if i < 5 then 0 else 1)
     in concat (replicate 10 [T_Acquire c lock_a 1, T_Check_Grant lock_a, T_Check_Release lock_a, T_Release c lock_a]))"

text \<open>\<open>n\<close> threads are created, then joined.\<close>

definition run_threads :: "nat \<Rightarrow> (nat \<Rightarrow> tstmt list) \<Rightarrow> tstmt list" where
  "run_threads n f = map (\<lambda>i. T_Create i (f i)) [0..<n] @ map T_Join [0..<n]"

definition tester_tests :: "int \<Rightarrow> tstmt list" where
  "tester_tests test =
     (if test = 0 \<or> test = 1 then test1 else []) @
     (if test = 0 \<or> test = 2 then run_threads nt test2 else []) @
     (if test = 0 \<or> test = 3 then run_threads nt test3 else []) @
     (if test = 0 \<or> test = 4 then run_threads 2 test4 else []) @
     (if test = 0 \<or> test = 5 then run_threads nt test5 else [])"

text \<open>What \<open>main\<close> makes of its arguments.\<close>

definition tester_main :: "string list \<Rightarrow> tstmt list ended result" where
  "tester_main argv =
     (if length argv < 2 then Inr Exits
      else bind_r (if length argv > 2
                   then bind_r (atoi (argv ! 2)) (\<lambda>test. Inr (if test < 1 \<or> test > 5 then Exits else Goes_On test))
                   else Inr (Goes_On 0)) (\<lambda>r.
           Inr (case r of Exits \<Rightarrow> Exits | Goes_On test \<Rightarrow> Goes_On (tester_tests test))))"

text \<open>What \<open>lock_client::acquire\<close> does with an answer: the next \<open>interval\<close> to call again with, or none when it returns.\<close>

definition acquire_answer :: "i32 \<Rightarrow> int \<Rightarrow> int option result" where
  "acquire_answer ret interval =
     (if ret = lp_RETRY then if 2 * interval > 2147483647 then Inl Signed_Overflow else Inr (Some (2 * interval))
      else bind_r (VERIFY (ret = lp_OK)) (\<lambda>_. Inr None))"

record tester =
  te_sys :: lock_sys
  te_ct :: counts
  te_todo :: "nat \<Rightarrow> tstmt list"
  te_exit :: "texit option"

definition tester_start :: "tstmt list \<Rightarrow> tester" where
  "tester_start prog = \<lparr>te_sys = \<lparr>lk_server = lock_server_new, lk_ph = \<lambda>_. LIdle\<rparr>, te_ct = \<lambda>_. 0,
     te_todo = (\<lambda>_. [])(0 := prog), te_exit = None\<rparr>"

definition goes_on :: "nat \<Rightarrow> tstmt list \<Rightarrow> tester \<Rightarrow> tester" where
  "goes_on t k s = s\<lparr>te_todo := (te_todo s)(t := k)\<rparr>"

text \<open>A call of \<open>acquire\<close> has returned \<open>ret\<close>.\<close>

definition acquire_done :: "nat \<Rightarrow> nat \<Rightarrow> lockid_t \<Rightarrow> int \<Rightarrow> tstmt list \<Rightarrow> i32 \<Rightarrow> tester \<Rightarrow> tester" where
  "acquire_done t i l n k ret s =
     (case acquire_answer ret n of
         Inl f \<Rightarrow> s\<lparr>te_exit := Some (Aborted ret f)\<rparr>
       | Inr None \<Rightarrow> goes_on t k s
       | Inr (Some n') \<Rightarrow> goes_on t (T_Acquire i l n' # k) s)"

inductive tester_step :: "(nat \<Rightarrow> i32) \<Rightarrow> tester \<Rightarrow> tester \<Rightarrow> bool" for cid where
  calls_acquire: "te_exit s = None \<Longrightarrow> te_todo s t = T_Acquire i l n # k \<Longrightarrow>
     lock_step (te_sys s) LTau sys' \<Longrightarrow> lk_ph (te_sys s) t = LIdle \<Longrightarrow>
     lk_ph sys' = (lk_ph (te_sys s))(t := LAcq (cid i) l) \<Longrightarrow>
     tester_step cid s (goes_on t (T_Acquiring i l n # k) s\<lparr>te_sys := sys'\<rparr>)"
| acquire_returns: "te_exit s = None \<Longrightarrow> te_todo s t = T_Acquiring i l n # k \<Longrightarrow>
     lock_step (te_sys s) (Granted (cid i) l ret r) sys' \<Longrightarrow> lk_ph (te_sys s) t = LAcq (cid i) l \<Longrightarrow>
     lk_ph sys' = (lk_ph (te_sys s))(t := LIdle) \<Longrightarrow>
     tester_step cid s (acquire_done t i l n k ret (s\<lparr>te_sys := sys'\<rparr>))"
| acquire_fails: "te_exit s = None \<Longrightarrow> te_todo s t = T_Acquiring i l n # k \<Longrightarrow> sint ret < 0 \<Longrightarrow>
     tester_step cid s (acquire_done t i l n k ret s)"
| calls_release: "te_exit s = None \<Longrightarrow> te_todo s t = T_Release i l # k \<Longrightarrow>
     lock_step (te_sys s) LTau sys' \<Longrightarrow> lk_ph (te_sys s) t = LIdle \<Longrightarrow>
     lk_ph sys' = (lk_ph (te_sys s))(t := LRel (cid i) l) \<Longrightarrow>
     tester_step cid s (goes_on t (T_Releasing i l # k) s\<lparr>te_sys := sys'\<rparr>)"
| release_returns: "te_exit s = None \<Longrightarrow> te_todo s t = T_Releasing i l # k \<Longrightarrow>
     lock_step (te_sys s) (Dropped (cid i) l ret r) sys' \<Longrightarrow> lk_ph (te_sys s) t = LRel (cid i) l \<Longrightarrow>
     lk_ph sys' t = LIdle \<Longrightarrow>
     tester_step cid s (goes_on t k s\<lparr>te_sys := sys'\<rparr>)"
| release_fails: "te_exit s = None \<Longrightarrow> te_todo s t = T_Releasing i l # k \<Longrightarrow> lk_ph (te_sys s) t = LRel (cid i) l \<Longrightarrow> t \<le> nt \<Longrightarrow>
     nt < u \<Longrightarrow> te_todo s u = [] \<Longrightarrow> lk_ph (te_sys s) u = LIdle \<Longrightarrow>
     tester_step cid s (goes_on u [T_Releasing i l] (goes_on t k
       (s\<lparr>te_sys := (te_sys s)\<lparr>lk_ph := (lk_ph (te_sys s))(t := LIdle, u := LRel (cid i) l)\<rparr>\<rparr>)))"
| checks_grant: "te_exit s = None \<Longrightarrow> te_todo s t = T_Check_Grant l # k \<Longrightarrow>
     tester_step cid s (case check_grant l (te_ct s) of
         Inl e \<Rightarrow> s\<lparr>te_exit := Some e\<rparr> | Inr ct \<Rightarrow> goes_on t k s\<lparr>te_ct := ct\<rparr>)"
| checks_release: "te_exit s = None \<Longrightarrow> te_todo s t = T_Check_Release l # k \<Longrightarrow>
     tester_step cid s (case check_release l (te_ct s) of
         Inl e \<Rightarrow> s\<lparr>te_exit := Some e\<rparr> | Inr ct \<Rightarrow> goes_on t k s\<lparr>te_ct := ct\<rparr>)"
| creates: "te_exit s = None \<Longrightarrow> te_todo s t = T_Create i p # k \<Longrightarrow> te_todo s (Suc i) = [] \<Longrightarrow>
     tester_step cid s (if r = (0::int) then goes_on (Suc i) p (goes_on t k s) else s\<lparr>te_exit := Some No_Thread\<rparr>)"
| joins: "te_exit s = None \<Longrightarrow> te_todo s t = T_Join i # k \<Longrightarrow> te_todo s (Suc i) = [] \<Longrightarrow>
     tester_step cid s (goes_on t k s)"
| server: "te_exit s = None \<Longrightarrow> lock_step (te_sys s) LTau sys' \<Longrightarrow>
     (\<forall>u. lk_ph (te_sys s) u = LIdle \<longrightarrow> lk_ph sys' u = LIdle) \<Longrightarrow>
     tester_step cid s (s\<lparr>te_sys := sys'\<rparr>)"

inductive tester_run :: "(nat \<Rightarrow> i32) \<Rightarrow> tstmt list \<Rightarrow> tester \<Rightarrow> bool" for cid prog where
  begins: "tester_run cid prog (tester_start prog)"
| steps: "tester_run cid prog s \<Longrightarrow> tester_step cid s s' \<Longrightarrow> tester_run cid prog s'"

section \<open>The discipline of the tests\<close>

text \<open>A thread within a call to the server.\<close>

fun mid_call :: "tstmt list \<Rightarrow> bool" where
  "mid_call (T_Acquiring i l n # k) = True"
| "mid_call (T_Releasing i l # k) = True"
| "mid_call _ = False"

text \<open>Only the main thread creates threads and joins them.\<close>

definition worker_prog :: "tstmt list \<Rightarrow> bool" where
  "worker_prog p \<longleftrightarrow> (\<forall>x\<in>set p. case x of T_Create i q \<Rightarrow> False | T_Join i \<Rightarrow> False | _ \<Rightarrow> True)"

text \<open>
  What a thread may do from a point at which it holds the locks of \<open>H\<close>, each through the client given there,
  and has counted those of \<open>C\<close>.  A strict program uses one lock only and counts it only while it holds it;
  \<open>test1\<close> is not strict, it releases a lock before \<open>check_release\<close>, but no other thread runs by then.
\<close>

fun disciplined :: "bool \<Rightarrow> (lockid_t \<rightharpoonup> nat) \<Rightarrow> lockid_t set \<Rightarrow> tstmt list \<Rightarrow> bool" where
  "disciplined b H C [] \<longleftrightarrow> H = Map.empty \<and> C = {}"
| "disciplined b H C (T_Acquire i l n # p) \<longleftrightarrow>
     l \<in> {lock_a, lock_b} \<and> H l = None \<and> (b \<longrightarrow> l = lock_a) \<and> \<not> mid_call p \<and> disciplined b (H(l \<mapsto> i)) C p"
| "disciplined b H C (T_Acquiring i l n # p) \<longleftrightarrow>
     l \<in> {lock_a, lock_b} \<and> H l = None \<and> (b \<longrightarrow> l = lock_a) \<and> \<not> mid_call p \<and> disciplined b (H(l \<mapsto> i)) C p"
| "disciplined b H C (T_Release i l # p) \<longleftrightarrow> H l = Some i \<and> (b \<longrightarrow> l \<notin> C) \<and> \<not> mid_call p \<and> disciplined b (H(l := None)) C p"
| "disciplined b H C (T_Releasing i l # p) \<longleftrightarrow> H l = Some i \<and> (b \<longrightarrow> l \<notin> C) \<and> \<not> mid_call p \<and> disciplined b (H(l := None)) C p"
| "disciplined b H C (T_Check_Grant l # p) \<longleftrightarrow>
     l \<in> {lock_a, lock_b} \<and> H l \<noteq> None \<and> l \<notin> C \<and> \<not> mid_call p \<and> disciplined b H (insert l C) p"
| "disciplined b H C (T_Check_Release l # p) \<longleftrightarrow> l \<in> C \<and> \<not> mid_call p \<and> disciplined b H (C - {l}) p"
| "disciplined b H C (T_Create i q # p) \<longleftrightarrow>
     i < nt \<and> H = Map.empty \<and> C = {} \<and> worker_prog q \<and> \<not> mid_call q \<and> disciplined True Map.empty {} q \<and> \<not> mid_call p \<and> disciplined True Map.empty {} p"
| "disciplined b H C (T_Join i # p) \<longleftrightarrow> H = Map.empty \<and> C = {} \<and> \<not> mid_call p \<and> disciplined b H C p"

lemma mid_call_append: "mid_call (p @ q) \<longleftrightarrow> (if p = [] then mid_call q else mid_call p)"
  by (cases p rule: mid_call.cases) auto

lemma disciplined_append:
  "disciplined b H C p \<Longrightarrow> \<not> mid_call q \<Longrightarrow> disciplined True Map.empty {} q \<Longrightarrow> disciplined b Map.empty {} q \<Longrightarrow>
   disciplined b H C (p @ q)"
  by (induction b H C p rule: disciplined.induct) (auto simp: mid_call_append)

lemma disciplined_repeat:
  "disciplined True Map.empty {} p \<Longrightarrow> worker_prog p \<Longrightarrow> \<not> mid_call p \<Longrightarrow>
   disciplined True Map.empty {} (concat (replicate n p)) \<and> worker_prog (concat (replicate n p)) \<and>
   \<not> mid_call (concat (replicate n p))"
  by (induction n) (auto intro: disciplined_append simp: mid_call_append worker_prog_def)

lemma section_disciplined:
  "disciplined True Map.empty {} [T_Acquire c lock_a 1, T_Check_Grant lock_a, T_Check_Release lock_a, T_Release c lock_a]"
  "worker_prog [T_Acquire c lock_a 1, T_Check_Grant lock_a, T_Check_Release lock_a, T_Release c lock_a]"
  "\<not> mid_call [T_Acquire c lock_a 1, T_Check_Grant lock_a, T_Check_Release lock_a, T_Release c lock_a]"
  by (simp_all add: worker_prog_def)

lemma run_threads_disciplined:
  assumes "n \<le> nt" "\<And>i. disciplined True Map.empty {} (f i) \<and> worker_prog (f i) \<and> \<not> mid_call (f i)"
  shows "disciplined b Map.empty {} (run_threads n f) \<and> \<not> mid_call (run_threads n f)"
proof -
  have joins: "disciplined b Map.empty {} (map T_Join is) \<and> \<not> mid_call (map T_Join is)" for b "is" by (induction "is") auto
  have "disciplined b Map.empty {} (map (\<lambda>i. T_Create i (f i)) is @ map T_Join js) \<and>
      \<not> mid_call (map (\<lambda>i. T_Create i (f i)) is @ map T_Join js)" if "set is \<subseteq> {..<nt}" for b "is" js
    using that assms(2) joins by (induction "is" arbitrary: b) auto
  moreover have "set [0..<n] \<subseteq> {..<nt}" using assms(1) by auto
  ultimately show ?thesis unfolding run_threads_def by blast
qed

lemma test1_disciplined: "disciplined False Map.empty {} test1"
  by (simp add: test1_def lock_a_def lock_b_def)

lemma tester_tests_disciplined:
  "disciplined False Map.empty {} (tester_tests test) \<and> \<not> mid_call (tester_tests test)"
proof -
  have thread: "disciplined True Map.empty {} (test2 i) \<and> worker_prog (test2 i) \<and> \<not> mid_call (test2 i)"
    "disciplined True Map.empty {} (test3 i) \<and> worker_prog (test3 i) \<and> \<not> mid_call (test3 i)"
    "disciplined True Map.empty {} (test4 i) \<and> worker_prog (test4 i) \<and> \<not> mid_call (test4 i)"
    "disciplined True Map.empty {} (test5 i) \<and> worker_prog (test5 i) \<and> \<not> mid_call (test5 i)" for i
    unfolding test2_def test3_def test4_def test5_def Let_def
    using section_disciplined disciplined_repeat [of "[T_Acquire c lock_a 1, T_Check_Grant lock_a, T_Check_Release lock_a, T_Release c lock_a]" 10 for c]
    by blast+
  have rest: "disciplined b Map.empty {}
     ((if test = 0 \<or> test = 2 then run_threads nt test2 else []) @
      (if test = 0 \<or> test = 3 then run_threads nt test3 else []) @
      (if test = 0 \<or> test = 4 then run_threads 2 test4 else []) @
      (if test = 0 \<or> test = 5 then run_threads nt test5 else []))" for b
    using run_threads_disciplined [OF _ thread(1), of nt] run_threads_disciplined [OF _ thread(2), of nt]
      run_threads_disciplined [OF _ thread(3), of 2] run_threads_disciplined [OF _ thread(4), of nt]
    by (intro disciplined_append) (auto simp: nt_def mid_call_append)
  have mid: "\<not> mid_call
     ((if test = 0 \<or> test = 2 then run_threads nt test2 else []) @
      (if test = 0 \<or> test = 3 then run_threads nt test3 else []) @
      (if test = 0 \<or> test = 4 then run_threads 2 test4 else []) @
      (if test = 0 \<or> test = 5 then run_threads nt test5 else []))"
    using run_threads_disciplined [OF _ thread(1), of nt] run_threads_disciplined [OF _ thread(2), of nt]
      run_threads_disciplined [OF _ thread(3), of 2] run_threads_disciplined [OF _ thread(4), of nt]
    by (auto simp: nt_def mid_call_append)
  have "mid_call test1 = False" by (simp add: test1_def)
  then show ?thesis
    unfolding tester_tests_def using disciplined_append [OF test1_disciplined mid rest rest] rest mid mid_call_append [of test1]
    by (cases "test = 0 \<or> test = 1") (simp_all only: if_True if_False append_Nil simp_thms if_cancel split: if_splits)
qed

section \<open>The server, as a thread of the tester sees it\<close>

lemma lock_step_tau: "lock_step s LTau s' \<Longrightarrow> lk_server s' = lk_server s"
  by (erule lock_stepE) (auto simp: acquire_pass_cases split: if_splits)

lemma lock_step_granted:
  assumes "lock_step s (Granted c l ret r) s'"
  shows "lock_map (lk_server s) l = None \<and> lock_map (lk_server s') = (lock_map (lk_server s))(l \<mapsto> c) \<and> ret = lp_OK"
  using assms by (rule lock_stepE) (auto simp: acquire_pass_cases locks.holder_get split: if_splits)

text \<open>How the phase of a thread changes while other threads act.\<close>

definition shifted :: "(lockid_t \<Rightarrow> bool) \<Rightarrow> lphase \<Rightarrow> lphase \<Rightarrow> bool" where
  "shifted held p p' \<longleftrightarrow> p' = p \<or> (\<exists>c l. p = LWait c l \<and> p' = LAcq c l) \<or> (\<exists>c l. p = LAcq c l \<and> p' = LWait c l \<and> held l)"

lemma signal_shifted: "signal_lock ph ph' \<Longrightarrow> shifted held (ph u) (ph' u)"
  by (auto simp: signal_lock_def shifted_def)

lemma lock_step_dropped:
  assumes "lock_step s (Dropped c l ret r) s'" "lk_ph s t = LRel c l" "lk_ph s' t = LIdle"
  shows "lock_map (lk_server s') =
      (if lock_map (lk_server s) l = Some c then (lock_map (lk_server s))(l := None) else lock_map (lk_server s)) \<and>
    (u \<noteq> t \<longrightarrow> shifted (\<lambda>_. False) (lk_ph s u) (lk_ph s' u))"
  using assms(1)
proof (rule lock_stepE)
  fix ph v c' l' sv ret' r' sig sv' ph'
  assume st: "s = \<lparr>lk_server = sv, lk_ph = ph\<rparr>" "s' = \<lparr>lk_server = sv', lk_ph = ph'\<rparr>"
    "Dropped c l ret r = Dropped c' l' ret' r'" "ph v = LRel c' l'" "ls_release c' l' sv = ((ret', r', sig), sv')"
    "if sig then signal_lock (ph(v := LIdle)) ph' else ph' = ph(v := LIdle)"
  have others: "shifted (\<lambda>_. False) ((ph(v := LIdle)) w) (ph' w)" for w
    using st(6) signal_shifted [of "ph(v := LIdle)" ph' "\<lambda>_. False" w]
    by (cases sig) (simp_all add: shifted_def)
  have "v = t"
  proof (rule ccontr)
    assume "v \<noteq> t"
    then show False using others [of t] assms(2,3) st(1,2) by (simp add: shifted_def)
  qed
  then show ?thesis using st others [of u] by (auto simp: ls_release_cases locks.holder_drop split: if_splits)
qed auto

lemma lock_step_server:
  assumes "lock_step s LTau s'" "\<forall>u. lk_ph s u = LIdle \<longrightarrow> lk_ph s' u = LIdle"
  shows "shifted (\<lambda>l. lock_map (lk_server s) l \<noteq> None) (lk_ph s u) (lk_ph s' u)"
  using assms
  by (auto elim!: lock_stepE simp: shifted_def acquire_pass_cases split: if_splits)

section \<open>The invariant of the tests\<close>

fun linked_phase :: "(nat \<Rightarrow> i32) \<Rightarrow> tstmt list \<Rightarrow> lphase \<Rightarrow> bool" where
  "linked_phase cid (T_Acquiring i l n # k) p \<longleftrightarrow> p = LAcq (cid i) l \<or> p = LWait (cid i) l"
| "linked_phase cid (T_Releasing i l # k) p \<longleftrightarrow> p = LRel (cid i) l"
| "linked_phase cid _ p \<longleftrightarrow> p = LIdle"

text \<open>
  The ghosts of the invariant: \<open>own\<close> says which thread holds a lock and through which client, \<open>cnt\<close> which thread
  has counted it.
\<close>

type_synonym owners = "lockid_t \<rightharpoonup> nat \<times> nat"
type_synonym counters = "lockid_t \<rightharpoonup> nat"

definition held_in :: "owners \<Rightarrow> nat \<Rightarrow> lockid_t \<rightharpoonup> nat" where
  "held_in own t = (\<lambda>l. case own l of Some (u, i) \<Rightarrow> if u = t then Some i else None | None \<Rightarrow> None)"

definition counted_in :: "counters \<Rightarrow> nat \<Rightarrow> lockid_t set" where
  "counted_in cnt t = {l. cnt l = Some t}"

text \<open>The invariant, in four parts: the programs of the threads, the locks, the counters, the phases in the server.\<close>

definition programs_ok :: "bool \<Rightarrow> owners \<Rightarrow> counters \<Rightarrow> (nat \<Rightarrow> tstmt list) \<Rightarrow> bool" where
  "programs_ok b own cnt todo \<longleftrightarrow>
     (\<forall>t. disciplined (b \<or> 0 < t) (held_in own t) (counted_in cnt t) (todo t)) \<and>
     (\<forall>t. \<not> b \<and> 0 < t \<and> t \<le> nt \<longrightarrow> todo t = []) \<and> (\<forall>t>nt. todo t = [] \<or> (\<exists>i l. todo t = [T_Releasing i l])) \<and> (\<forall>t>0. worker_prog (todo t)) \<and>
     (\<forall>l t. cnt l = Some t \<longrightarrow> l \<in> {lock_a, lock_b} \<and> (b \<or> 0 < t \<longrightarrow> (\<exists>i. own l = Some (t, i))))"

definition locks_ok :: "(nat \<Rightarrow> i32) \<Rightarrow> owners \<Rightarrow> (lockid_t \<rightharpoonup> i32) \<Rightarrow> bool" where
  "locks_ok cid own m \<longleftrightarrow> (\<forall>l. m l = map_option (\<lambda>(t, i). cid i) (own l))"

definition counts_ok :: "counters \<Rightarrow> counts \<Rightarrow> bool" where
  "counts_ok cnt ct \<longleftrightarrow> (\<forall>l\<in>{lock_a, lock_b}. ct (ct_index l) = (if cnt l = None then 0 else 1))"

definition phases_ok :: "(nat \<Rightarrow> i32) \<Rightarrow> (nat \<Rightarrow> tstmt list) \<Rightarrow> lock_sys \<Rightarrow> bool" where
  "phases_ok cid todo sys \<longleftrightarrow> (\<forall>t. linked_phase cid (todo t) (lk_ph sys t))"

definition tester_inv :: "(nat \<Rightarrow> i32) \<Rightarrow> bool \<Rightarrow> owners \<Rightarrow> counters \<Rightarrow> tester \<Rightarrow> bool" where
  "tester_inv cid b own cnt s \<longleftrightarrow> te_exit s = None \<and> programs_ok b own cnt (te_todo s) \<and>
     locks_ok cid own (lock_map (lk_server (te_sys s))) \<and> counts_ok cnt (te_ct s) \<and> phases_ok cid (te_todo s) (te_sys s)"

lemma held_in_take:
  "own l = None \<Longrightarrow> held_in (own(l \<mapsto> (t, i))) u = (if u = t then (held_in own t)(l \<mapsto> i) else held_in own u)"
  by (auto simp: held_in_def fun_eq_iff)

lemma held_in_give:
  "own l = Some (t, i) \<Longrightarrow> held_in (own(l := None)) u = (if u = t then (held_in own t)(l := None) else held_in own u)"
  by (auto simp: held_in_def fun_eq_iff)

lemma held_in_eq [simp]: "held_in own t l = Some i \<longleftrightarrow> own l = Some (t, i)"
  by (auto simp: held_in_def split: option.splits if_splits)

lemma counted_in_add:
  "cnt l = None \<Longrightarrow> counted_in (cnt(l \<mapsto> t)) u = (if u = t then insert l (counted_in cnt t) else counted_in cnt u)"
  by (auto simp: counted_in_def)

lemma counted_in_del:
  "cnt l = Some t \<Longrightarrow> counted_in (cnt(l := None)) u = (if u = t then counted_in cnt t - {l} else counted_in cnt u)"
  by (auto simp: counted_in_def)

lemma counted_in_iff [simp]: "l \<in> counted_in cnt t \<longleftrightarrow> cnt l = Some t"
  by (simp add: counted_in_def)

lemma programs_okD:
  assumes "programs_ok b own cnt todo"
  shows programs_at: "disciplined (b \<or> 0 < t) (held_in own t) (counted_in cnt t) (todo t)"
    and programs_idle: "\<not> b \<and> 0 < t \<and> t \<le> nt \<Longrightarrow> todo t = []"
    and programs_left: "nt < t \<Longrightarrow> todo t = [] \<or> (\<exists>i l. todo t = [T_Releasing i l])"
    and programs_worker: "0 < t \<Longrightarrow> worker_prog (todo t)"
    and programs_cnt: "cnt l = Some t \<Longrightarrow> l \<in> {lock_a, lock_b} \<and> (b \<or> 0 < t \<longrightarrow> (\<exists>i. own l = Some (t, i)))"
proof -
  note P = assms [unfolded programs_ok_def]
  note P1 = conjunct1 [OF P] and P2 = conjunct2 [OF P]
  note P3 = conjunct2 [OF P2] and P4 = conjunct2 [OF conjunct2 [OF P2]]
  show "disciplined (b \<or> 0 < t) (held_in own t) (counted_in cnt t) (todo t)" using P1 by simp
  show "\<not> b \<and> 0 < t \<and> t \<le> nt \<Longrightarrow> todo t = []" using conjunct1 [OF P2] by simp
  show "nt < t \<Longrightarrow> todo t = [] \<or> (\<exists>i l. todo t = [T_Releasing i l])" using conjunct1 [OF P3] by simp
  show "0 < t \<Longrightarrow> worker_prog (todo t)" using conjunct1 [OF P4] by simp
  show "cnt l = Some t \<Longrightarrow> l \<in> {lock_a, lock_b} \<and> (b \<or> 0 < t \<longrightarrow> (\<exists>i. own l = Some (t, i)))" using conjunct2 [OF P4] by blast
qed

text \<open>What is left after a thread has made one step of its own.\<close>

definition follows :: "tstmt list \<Rightarrow> tstmt list \<Rightarrow> bool" where
  "follows p k \<longleftrightarrow> p \<noteq> [] \<and> (worker_prog p \<longrightarrow> worker_prog k) \<and> (\<forall>i l. p = [T_Releasing i l] \<longrightarrow> k = [])"

lemma follows_simps [simp]: "follows (x # k) k" "follows (T_Acquire i l n # k) (T_Acquiring i l n # k)"
  "follows (T_Release i l # k) (T_Releasing i l # k)"
  by (simp_all add: follows_def worker_prog_def)

lemma programs_upd:
  assumes "programs_ok b own cnt todo" "follows (todo t) k"
    "disciplined (b \<or> 0 < t) (held_in own' t) (counted_in cnt' t) k"
    "\<And>u. u \<noteq> t \<Longrightarrow> held_in own' u = held_in own u \<and> counted_in cnt' u = counted_in cnt u"
    "\<And>l u. cnt' l = Some u \<Longrightarrow> l \<in> {lock_a, lock_b} \<and> (b \<or> 0 < u \<longrightarrow> (\<exists>i. own' l = Some (u, i)))"
  shows "programs_ok b own' cnt' (todo(t := k))"
  unfolding programs_ok_def
proof (intro conjI allI impI, goal_cases)
  case (1 u)
  then show ?case using programs_at [OF assms(1), of u] assms(3,4) by (cases "u = t") simp_all
next
  case (2 u)
  then show ?case using programs_idle [OF assms(1), of u] assms(2) by (cases "u = t") (simp_all add: follows_def)
next
  case (3 u)
  show ?case
  proof (cases "u = t")
    case True
    have "todo t = [] \<or> (\<exists>i l. todo t = [T_Releasing i l])" using programs_left [OF assms(1)] 3 True by blast
    then have "k = []" using assms(2) unfolding follows_def by blast
    then show ?thesis using True by simp
  next
    case False
    then show ?thesis using programs_left [OF assms(1) 3] by simp
  qed
next
  case (4 u)
  then show ?case using programs_worker [OF assms(1), of u] assms(2) by (cases "u = t") (simp_all add: follows_def)
qed (use assms(5) in blast)+

lemma programs_todo:
  assumes "programs_ok b own cnt todo" "follows (todo t) k" "disciplined (b \<or> 0 < t) (held_in own t) (counted_in cnt t) k"
  shows "programs_ok b own cnt (todo(t := k))"
  using programs_upd [OF assms] programs_cnt [OF assms(1)] by blast

lemma programs_take:
  assumes "programs_ok b own cnt todo" "follows (todo t) k" "own l = None"
    "disciplined (b \<or> 0 < t) ((held_in own t)(l \<mapsto> i)) (counted_in cnt t) k"
  shows "programs_ok b (own(l \<mapsto> (t, i))) cnt (todo(t := k))"
proof (rule programs_upd [OF assms(1,2)])
  fix l' u
  assume "cnt l' = Some u"
  then show "l' \<in> {lock_a, lock_b} \<and> (b \<or> 0 < u \<longrightarrow> (\<exists>j. (own(l \<mapsto> (t, i))) l' = Some (u, j)))"
    using programs_cnt [OF assms(1), of l' u] assms(3) by (cases "l' = l") simp_all
qed (use assms(4) in \<open>simp_all add: held_in_take [of own, OF assms(3)]\<close>)

lemma programs_give:
  assumes "programs_ok b own cnt todo" "follows (todo t) k" "own l = Some (t, i)" "b \<or> 0 < t \<Longrightarrow> cnt l \<noteq> Some t"
    "disciplined (b \<or> 0 < t) ((held_in own t)(l := None)) (counted_in cnt t) k"
  shows "programs_ok b (own(l := None)) cnt (todo(t := k))"
proof (rule programs_upd [OF assms(1,2)])
  fix l' u
  assume cnt: "cnt l' = Some u"
  then show "l' \<in> {lock_a, lock_b} \<and> (b \<or> 0 < u \<longrightarrow> (\<exists>j. (own(l := None)) l' = Some (u, j)))"
    using programs_cnt [OF assms(1) cnt] assms(3,4) by (cases "l' = l") auto
qed (use assms(5) in \<open>simp_all add: held_in_give [of own, OF assms(3)]\<close>)

lemma programs_grant:
  assumes "programs_ok b own cnt todo" "follows (todo t) k" "own l = Some (t, i)" "cnt l = None" "l \<in> {lock_a, lock_b}"
    "disciplined (b \<or> 0 < t) (held_in own t) (insert l (counted_in cnt t)) k"
  shows "programs_ok b own (cnt(l \<mapsto> t)) (todo(t := k))"
proof (rule programs_upd [OF assms(1,2)])
  fix l' u
  assume "(cnt(l \<mapsto> t)) l' = Some u"
  then show "l' \<in> {lock_a, lock_b} \<and> (b \<or> 0 < u \<longrightarrow> (\<exists>j. own l' = Some (u, j)))"
    using programs_cnt [OF assms(1), of l' u] assms(3,5) by (cases "l' = l") auto
qed (use assms(6) in \<open>simp_all add: counted_in_add [of cnt, OF assms(4)]\<close>)

lemma programs_release:
  assumes "programs_ok b own cnt todo" "follows (todo t) k" "cnt l = Some t"
    "disciplined (b \<or> 0 < t) (held_in own t) (counted_in cnt t - {l}) k"
  shows "programs_ok b own (cnt(l := None)) (todo(t := k))"
proof (rule programs_upd [OF assms(1,2)])
  fix l' u
  assume "(cnt(l := None)) l' = Some u"
  then show "l' \<in> {lock_a, lock_b} \<and> (b \<or> 0 < u \<longrightarrow> (\<exists>j. own l' = Some (u, j)))"
    using programs_cnt [OF assms(1), of l' u] by (cases "l' = l") auto
qed (use assms(4) in \<open>simp_all add: counted_in_del [of cnt, OF assms(3)]\<close>)

lemma lock_facts [simp]: "ct_index lock_a = 1" "ct_index lock_b = 2" "lock_a \<noteq> lock_b" "lock_b \<noteq> lock_a"
  by (simp_all add: ct_index_def lock_a_def lock_b_def)

lemma counts_okI: "ct 1 = (if cnt lock_a = None then 0 else 1) \<Longrightarrow> ct 2 = (if cnt lock_b = None then 0 else 1) \<Longrightarrow> counts_ok cnt ct"
  by (simp add: counts_ok_def)

lemma counts_okD: "counts_ok cnt ct \<Longrightarrow> ct 1 = (if cnt lock_a = None then 0 else 1) \<and> ct 2 = (if cnt lock_b = None then 0 else 1)"
  by (simp add: counts_ok_def)

lemma counts_grant:
  assumes "counts_ok cnt ct" "l \<in> {lock_a, lock_b}" "cnt l = None"
  shows "\<exists>ct'. check_grant l ct = Inr ct' \<and> counts_ok (cnt(l \<mapsto> t)) ct'"
  using counts_okD [OF assms(1)] assms(2,3)
  by (elim insertE emptyE) (simp_all add: check_grant_def counts_ok_def)

lemma counts_release:
  assumes "counts_ok cnt ct" "l \<in> {lock_a, lock_b}" "cnt l = Some t"
  shows "\<exists>ct'. check_release l ct = Inr ct' \<and> counts_ok (cnt(l := None)) ct'"
  using counts_okD [OF assms(1)] assms(2,3)
  by (elim insertE emptyE) (simp_all add: check_release_def counts_ok_def)

lemma locks_take: "locks_ok cid own m \<Longrightarrow> m l = None \<Longrightarrow> own l = None \<and> locks_ok cid (own(l \<mapsto> (t, i))) (m(l \<mapsto> cid i))"
  by (simp add: locks_ok_def)

lemma locks_give:
  "locks_ok cid own m \<Longrightarrow> own l = Some (t, i) \<Longrightarrow> m l = Some (cid i) \<and> locks_ok cid (own(l := None)) (m(l := None))"
  by (simp add: locks_ok_def)

section \<open>Every step keeps the invariant\<close>

lemma phases_todo:
  assumes "phases_ok cid todo sys" "\<And>p. linked_phase cid k p \<longleftrightarrow> linked_phase cid (todo t) p"
  shows "phases_ok cid (todo(t := k)) sys"
  using assms unfolding phases_ok_def by simp

lemma linked_shifted: "linked_phase cid k p \<Longrightarrow> shifted held p p' \<Longrightarrow> linked_phase cid k p'"
  by (cases "(cid, k, p)" rule: linked_phase.cases) (auto simp: shifted_def)

lemma tester_invD:
  assumes "tester_inv cid b own cnt s"
  shows "te_exit s = None" "programs_ok b own cnt (te_todo s)" "locks_ok cid own (lock_map (lk_server (te_sys s)))"
    "counts_ok cnt (te_ct s)" "phases_ok cid (te_todo s) (te_sys s)"
  using assms unfolding tester_inv_def by blast+

lemma phases_link: "phases_ok cid todo sys \<Longrightarrow> linked_phase cid (todo t) (lk_ph sys t)"
  unfolding phases_ok_def by blast

lemma phases_call:
  assumes "phases_ok cid todo sys" "lk_ph sys' = (lk_ph sys)(t := p)" "linked_phase cid k p"
  shows "phases_ok cid (todo(t := k)) sys'"
  using assms unfolding phases_ok_def by simp

lemma call_acquire_inv:
  assumes "tester_inv cid b own cnt s" "te_todo s t = T_Acquire i l n # k" "lock_step (te_sys s) LTau sys'"
    "lk_ph sys' = (lk_ph (te_sys s))(t := LAcq (cid i) l)"
  shows "tester_inv cid b own cnt (goes_on t (T_Acquiring i l n # k) s\<lparr>te_sys := sys'\<rparr>)"
proof -
  note inv = tester_invD [OF assms(1)]
  have "programs_ok b own cnt ((te_todo s)(t := T_Acquiring i l n # k))"
    using programs_todo [OF inv(2)] programs_at [OF inv(2), of t] assms(2) by simp
  moreover have "phases_ok cid ((te_todo s)(t := T_Acquiring i l n # k)) sys'"
    by (rule phases_call [OF inv(5) assms(4)]) simp
  ultimately show ?thesis using inv lock_step_tau [OF assms(3)] by (simp add: tester_inv_def goes_on_def)
qed

lemma call_release_inv:
  assumes "tester_inv cid b own cnt s" "te_todo s t = T_Release i l # k" "lock_step (te_sys s) LTau sys'"
    "lk_ph sys' = (lk_ph (te_sys s))(t := LRel (cid i) l)"
  shows "tester_inv cid b own cnt (goes_on t (T_Releasing i l # k) s\<lparr>te_sys := sys'\<rparr>)"
proof -
  note inv = tester_invD [OF assms(1)]
  have "programs_ok b own cnt ((te_todo s)(t := T_Releasing i l # k))"
    using programs_todo [OF inv(2)] programs_at [OF inv(2), of t] assms(2) by simp
  moreover have "phases_ok cid ((te_todo s)(t := T_Releasing i l # k)) sys'"
    by (rule phases_call [OF inv(5) assms(4)]) simp
  ultimately show ?thesis using inv lock_step_tau [OF assms(3)] by (simp add: tester_inv_def goes_on_def)
qed

lemma linked_idle: "\<not> mid_call k \<Longrightarrow> linked_phase cid k p \<longleftrightarrow> p = LIdle"
  by (cases "(cid, k, p)" rule: linked_phase.cases) auto

lemma goes_on_simps [simp]:
  "te_exit (goes_on t k s) = te_exit s" "te_sys (goes_on t k s) = te_sys s" "te_ct (goes_on t k s) = te_ct s"
  "te_todo (goes_on t k s) = (te_todo s)(t := k)"
  by (simp_all add: goes_on_def)

lemma acquire_returns_inv:
  assumes "tester_inv cid b own cnt s" "te_todo s t = T_Acquiring i l n # k"
    "lock_step (te_sys s) (Granted (cid i) l ret r) sys'" "lk_ph sys' = (lk_ph (te_sys s))(t := LIdle)"
  shows "tester_inv cid b (own(l \<mapsto> (t, i))) cnt (acquire_done t i l n k ret (s\<lparr>te_sys := sys'\<rparr>))"
proof -
  note inv = tester_invD [OF assms(1)] and granted = lock_step_granted [OF assms(3)]
  have free: "own l = None" and locks: "locks_ok cid (own(l \<mapsto> (t, i))) (lock_map (lk_server sys'))"
    using locks_take [OF inv(3), of l t i] granted by simp_all
  have prog: "\<not> mid_call k" "disciplined (b \<or> 0 < t) ((held_in own t)(l \<mapsto> i)) (counted_in cnt t) k"
    using programs_at [OF inv(2), of t] assms(2) by simp_all
  have "programs_ok b (own(l \<mapsto> (t, i))) cnt ((te_todo s)(t := k))"
    using programs_take [OF inv(2) _ free prog(2)] assms(2) by simp
  moreover have "phases_ok cid ((te_todo s)(t := k)) sys'"
    using phases_call [OF inv(5) assms(4)] linked_idle [OF prog(1)] by simp
  moreover have "acquire_answer ret n = Inr None" using granted by (simp add: acquire_answer_def)
  ultimately show ?thesis
    using inv locks by (simp add: tester_inv_def acquire_done_def)
qed

lemma acquire_fails_exit:
  assumes "sint ret < 0"
  shows "te_exit (acquire_done t i l n k ret s) = Some (Aborted ret Verify_Failed)"
proof -
  have "ret \<noteq> lp_OK" "ret \<noteq> lp_RETRY" using assms by (auto simp: lp_OK_def lp_RETRY_def)
  then show ?thesis by (simp add: acquire_done_def acquire_answer_def VERIFY_def)
qed

lemma release_returns_inv:
  assumes "tester_inv cid b own cnt s" "te_todo s t = T_Releasing i l # k"
    "lock_step (te_sys s) (Dropped (cid i) l ret r) sys'" "lk_ph (te_sys s) t = LRel (cid i) l" "lk_ph sys' t = LIdle"
  shows "tester_inv cid b (own(l := None)) cnt (goes_on t k s\<lparr>te_sys := sys'\<rparr>)"
proof -
  note inv = tester_invD [OF assms(1)] and dropped = lock_step_dropped [OF assms(3-5)]
  have prog: "own l = Some (t, i)" "b \<or> 0 < t \<Longrightarrow> cnt l \<noteq> Some t" "\<not> mid_call k"
    "disciplined (b \<or> 0 < t) ((held_in own t)(l := None)) (counted_in cnt t) k"
    using programs_at [OF inv(2), of t] assms(2) by simp_all
  have "locks_ok cid (own(l := None)) (lock_map (lk_server sys'))"
    using locks_give [OF inv(3) prog(1)] dropped by simp
  moreover have "programs_ok b (own(l := None)) cnt ((te_todo s)(t := k))"
    using programs_give [OF inv(2) _ prog(1,2,4)] assms(2) by simp
  moreover have "phases_ok cid ((te_todo s)(t := k)) sys'"
    unfolding phases_ok_def
  proof
    show "linked_phase cid (((te_todo s)(t := k)) u) (lk_ph sys' u)" for u
      using linked_shifted [OF phases_link [OF inv(5), of u]] dropped [of u] assms(5) linked_idle [OF prog(3)] by auto
  qed
  ultimately show ?thesis using inv by (simp add: tester_inv_def)
qed

text \<open>A release that has failed goes on as a thread of its own, which then is the one that holds the lock.\<close>

lemma held_in_move:
  "own l = Some (t, i) \<Longrightarrow> u \<noteq> t \<Longrightarrow> held_in (own(l \<mapsto> (u, i))) v =
     (if v = t then (held_in own t)(l := None) else if v = u then (held_in own u)(l \<mapsto> i) else held_in own v)"
  by (auto simp: held_in_def fun_eq_iff)

lemma release_fails_inv:
  assumes "tester_inv cid b own cnt s" "te_todo s t = T_Releasing i l # k" "t \<le> nt" "nt < u" "te_todo s u = []"
  shows "tester_inv cid b (own(l \<mapsto> (u, i))) cnt (goes_on u [T_Releasing i l] (goes_on t k
       (s\<lparr>te_sys := (te_sys s)\<lparr>lk_ph := (lk_ph (te_sys s))(t := LIdle, u := LRel (cid i) l)\<rparr>\<rparr>)))"
proof -
  note inv = tester_invD [OF assms(1)]
  have prog: "own l = Some (t, i)" "b \<or> 0 < t \<Longrightarrow> cnt l \<noteq> Some t" "\<not> mid_call k"
    "disciplined (b \<or> 0 < t) ((held_in own t)(l := None)) (counted_in cnt t) k"
    using programs_at [OF inv(2), of t] assms(2) by simp_all
  have u: "u \<noteq> t" "0 < u" "held_in own u = Map.empty" "counted_in cnt u = {}" "cnt l \<noteq> Some u"
    using assms(3,4) programs_at [OF inv(2), of u] assms(5) counted_in_iff [of l cnt u] by auto
  let ?todo = "(te_todo s)(t := k, u := [T_Releasing i l])"
  have "programs_ok b (own(l \<mapsto> (u, i))) cnt ?todo"
    unfolding programs_ok_def held_in_move [of own, OF prog(1) u(1)]
  proof (intro conjI allI impI, goal_cases)
    case (1 v)
    then show ?case using programs_at [OF inv(2), of v] prog(4) u by (cases "v = t"; cases "v = u") auto
  next
    case (2 v)
    then show ?case using programs_idle [OF inv(2), of v] assms(2,4) u(1) by auto
  next
    case (3 v)
    then show ?case using programs_left [OF inv(2), of v] assms(3) by auto
  next
    case (4 v)
    then show ?case using programs_worker [OF inv(2), of v] assms(2) by (auto simp: worker_prog_def)
  next
    case (5 m v)
    then show ?case using programs_cnt [OF inv(2), of m v] by blast
  next
    case (6 m v)
    then have "m \<noteq> l" using programs_cnt [OF inv(2), of m v] prog(1,2) by auto
    then show ?case using 6 programs_cnt [OF inv(2), of m v] by auto
  qed
  moreover have "phases_ok cid ?todo (te_sys s\<lparr>lk_ph := (lk_ph (te_sys s))(t := LIdle, u := LRel (cid i) l)\<rparr>)"
    using inv(5) linked_idle [OF prog(3)] u(1) unfolding phases_ok_def by simp
  moreover have "locks_ok cid (own(l \<mapsto> (u, i))) (lock_map (lk_server (te_sys s)))"
    using inv(3) prog(1) by (simp add: locks_ok_def)
  ultimately show ?thesis using inv by (simp add: tester_inv_def)
qed

lemma only_main_alone:
  assumes "programs_ok b own cnt todo" "todo t = x # k" "\<not> (\<exists>i l. x = T_Releasing i l)"
  shows "b \<or> t = 0"
proof (rule ccontr)
  assume "\<not> (b \<or> t = 0)"
  then show False using programs_idle [OF assms(1), of t] programs_left [OF assms(1), of t] assms(2,3) by (cases "t \<le> nt") auto
qed

lemma check_grant_inv:
  assumes "tester_inv cid b own cnt s" "te_todo s t = T_Check_Grant l # k"
  shows "\<exists>ct. check_grant l (te_ct s) = Inr ct \<and> tester_inv cid b own (cnt(l \<mapsto> t)) (goes_on t k s\<lparr>te_ct := ct\<rparr>)"
proof -
  note inv = tester_invD [OF assms(1)]
  obtain i where prog: "l \<in> {lock_a, lock_b}" "own l = Some (t, i)" "cnt l \<noteq> Some t" "\<not> mid_call k"
    "disciplined (b \<or> 0 < t) (held_in own t) (insert l (counted_in cnt t)) k"
    using programs_at [OF inv(2), of t] assms(2) by auto
  have free: "cnt l = None"
  proof (rule ccontr)
    assume "cnt l \<noteq> None"
    then obtain u where u: "cnt l = Some u" "u \<noteq> t" using prog(3) by auto
    then have "b \<or> 0 < u"
      using only_main_alone [OF inv(2) assms(2)] by (cases b; cases u) auto
    then show False using programs_cnt [OF inv(2) u(1)] prog(2) u(2) by auto
  qed
  have "phases_ok cid ((te_todo s)(t := k)) (te_sys s)"
    using phases_todo [OF inv(5)] linked_idle [OF prog(4)] assms(2) by simp
  then show ?thesis
    using inv counts_grant [OF inv(4) prog(1) free, of t] programs_grant [OF inv(2) _ prog(2) free prog(1,5)] assms(2)
    by (auto simp: tester_inv_def)
qed

lemma check_release_inv:
  assumes "tester_inv cid b own cnt s" "te_todo s t = T_Check_Release l # k"
  shows "\<exists>ct. check_release l (te_ct s) = Inr ct \<and> tester_inv cid b own (cnt(l := None)) (goes_on t k s\<lparr>te_ct := ct\<rparr>)"
proof -
  note inv = tester_invD [OF assms(1)]
  have prog: "cnt l = Some t" "\<not> mid_call k" "disciplined (b \<or> 0 < t) (held_in own t) (counted_in cnt t - {l}) k"
    using programs_at [OF inv(2), of t] assms(2) by auto
  then have "l \<in> {lock_a, lock_b}" using programs_cnt [OF inv(2) prog(1)] by blast
  moreover have "phases_ok cid ((te_todo s)(t := k)) (te_sys s)"
    using phases_todo [OF inv(5)] linked_idle [OF prog(2)] assms(2) by simp
  ultimately show ?thesis
    using inv counts_release [OF inv(4) _ prog(1)] programs_release [OF inv(2) _ prog(1,3)] assms(2)
    by (auto simp: tester_inv_def)
qed

lemma programs_free:
  assumes "programs_ok b own cnt todo" "todo u = []"
  shows "own l \<noteq> Some (u, i)"
proof -
  have "held_in own u = Map.empty" using programs_at [OF assms(1), of u] assms(2) by simp
  then show ?thesis using held_in_eq [of own u l i] by auto
qed

lemma create_inv:
  assumes "tester_inv cid b own cnt s" "te_todo s t = T_Create i q # k" "te_todo s (Suc i) = []"
  shows "tester_inv cid True own cnt (goes_on (Suc i) q (goes_on t k s))"
proof -
  note inv = tester_invD [OF assms(1)]
  have prog: "i < nt" "held_in own t = Map.empty" "counted_in cnt t = {}" "\<not> mid_call q" "\<not> mid_call k"
    "disciplined True Map.empty {} q" "disciplined True Map.empty {} k" "worker_prog q"
    using programs_at [OF inv(2), of t] assms(2) by simp_all
  have new: "held_in own (Suc i) = Map.empty" "counted_in cnt (Suc i) = {}" "Suc i \<noteq> t"
    using programs_at [OF inv(2), of "Suc i"] assms(2,3) by auto
  have "programs_ok True own cnt ((te_todo s)(t := k, Suc i := q))"
    unfolding programs_ok_def
  proof (intro conjI allI impI, goal_cases)
    case (1 u)
    have "disciplined True (held_in own u) (counted_in cnt u) (te_todo s u)" if "u \<noteq> t"
      using programs_at [OF inv(2), of u] only_main_alone [OF inv(2) assms(2)] that
      by (cases b; cases u) auto
    then show ?case using prog new by simp
  next
    case (2 u)
    then show ?case by simp
  next
    case (3 u)
    then show ?case using programs_left [OF inv(2), of u] prog(1) assms(2) by auto
  next
    case (4 u)
    then show ?case using programs_worker [OF inv(2), of u] programs_worker [OF inv(2), of t] assms(2) prog(8)
      by (auto simp: worker_prog_def)
  next
    case (5 l u)
    then show ?case using programs_cnt [OF inv(2) 5] by blast
  next
    case (6 l u)
    have "u \<noteq> t" using 6(1) prog(3) counted_in_iff [of l cnt t] by auto
    then have "b \<or> 0 < u" using only_main_alone [OF inv(2) assms(2)] by (cases b; cases u) auto
    then show ?case using programs_cnt [OF inv(2) 6(1)] by blast
  qed
  moreover have "phases_ok cid ((te_todo s)(t := k, Suc i := q)) (te_sys s)"
    using inv(5) phases_link [OF inv(5), of t] phases_link [OF inv(5), of "Suc i"] assms(2,3)
      linked_idle [OF prog(4)] linked_idle [OF prog(5)]
    by (simp add: phases_ok_def)
  ultimately show ?thesis using inv by (simp add: tester_inv_def)
qed

lemma join_inv:
  assumes "tester_inv cid b own cnt s" "te_todo s t = T_Join i # k"
  shows "tester_inv cid b own cnt (goes_on t k s)"
proof -
  note inv = tester_invD [OF assms(1)]
  have prog: "\<not> mid_call k" "disciplined (b \<or> 0 < t) (held_in own t) (counted_in cnt t) k"
    using programs_at [OF inv(2), of t] assms(2) by auto
  then show ?thesis
    using inv programs_todo [OF inv(2) _ prog(2)] phases_todo [OF inv(5), of k t] linked_idle [OF prog(1)] assms(2)
    by (simp add: tester_inv_def)
qed

lemma server_inv:
  assumes "tester_inv cid b own cnt s" "lock_step (te_sys s) LTau sys'"
    "\<forall>u. lk_ph (te_sys s) u = LIdle \<longrightarrow> lk_ph sys' u = LIdle"
  shows "tester_inv cid b own cnt (s\<lparr>te_sys := sys'\<rparr>)"
proof -
  note inv = tester_invD [OF assms(1)]
  have "phases_ok cid (te_todo s) sys'"
    unfolding phases_ok_def using linked_shifted [OF phases_link [OF inv(5)] lock_step_server [OF assms(2,3)]] by blast
  then show ?thesis using inv lock_step_tau [OF assms(2)] by (simp add: tester_inv_def)
qed

text \<open>The ends that a run of the tests can come to before its time.\<close>

definition benign :: "texit \<Rightarrow> bool" where
  "benign e \<longleftrightarrow> e = No_Thread \<or> (\<exists>ret. e = Aborted ret Verify_Failed \<and> sint ret < 0)"

definition benign_exit :: "tester \<Rightarrow> bool" where
  "benign_exit s \<longleftrightarrow> (\<exists>e. te_exit s = Some e \<and> benign e)"

lemma tester_step_inv:
  assumes "tester_step cid s s'" "tester_inv cid b own cnt s"
  shows "benign_exit s' \<or> (\<exists>b own cnt. tester_inv cid b own cnt s')"
  using assms(1)
proof cases
  case calls_acquire
  then show ?thesis using call_acquire_inv [OF assms(2)] by blast
next
  case acquire_returns
  then show ?thesis using acquire_returns_inv [OF assms(2)] by blast
next
  case (acquire_fails t i l n k ret)
  then show ?thesis using acquire_fails_exit [of ret t i l n k s] by (simp add: benign_exit_def benign_def)
next
  case release_fails
  then show ?thesis using release_fails_inv [OF assms(2)] by blast
next
  case calls_release
  then show ?thesis using call_release_inv [OF assms(2)] by blast
next
  case release_returns
  then show ?thesis using release_returns_inv [OF assms(2)] by blast
next
  case checks_grant
  then show ?thesis using check_grant_inv [OF assms(2)] by fastforce
next
  case checks_release
  then show ?thesis using check_release_inv [OF assms(2)] by fastforce
next
  case (creates t i p k r)
  then show ?thesis using create_inv [OF assms(2) creates(3,4)] by (cases "r = 0") (auto simp: benign_exit_def benign_def)
next
  case joins
  then show ?thesis using join_inv [OF assms(2)] by blast
next
  case server
  then show ?thesis using server_inv [OF assms(2)] by blast
qed

lemma tester_start_inv: "tester_inv cid False Map.empty Map.empty (tester_start (tester_tests test))"
proof -
  have "programs_ok False Map.empty Map.empty ((\<lambda>_. [])(0 := tester_tests test))"
    using tester_tests_disciplined [of test] by (auto simp: programs_ok_def held_in_def counted_in_def worker_prog_def)
  moreover have "phases_ok cid ((\<lambda>_. [])(0 := tester_tests test)) \<lparr>lk_server = lock_server_new, lk_ph = \<lambda>_. LIdle\<rparr>"
    using tester_tests_disciplined [of test] linked_idle [of "tester_tests test" cid]
    by (simp add: phases_ok_def)
  ultimately show ?thesis
    by (simp add: tester_inv_def tester_start_def locks_ok_def counts_ok_def lock_server_new_def)
qed

lemma tester_run_inv:
  "tester_run cid (tester_tests test) s \<Longrightarrow> benign_exit s \<or> (\<exists>b own cnt. tester_inv cid b own cnt s)"
proof (induction rule: tester_run.induct)
  case begins
  then show ?case using tester_start_inv by blast
next
  case (steps s s')
  have "te_exit s = None" using steps.hyps(2) by cases simp_all
  then show ?case using steps.IH tester_step_inv [OF steps.hyps(2)] by (auto simp: benign_exit_def)
qed

section \<open>Properties\<close>

text \<open>
  C16: the tests never find the lock server at fault.  In every run of any of the tests -- with calls of the clients that fail at any time, with
  failed releases that take effect later or never, with any identities of the clients and any order of the threads -- neither
  \<open>check_grant\<close> nor \<open>check_release\<close> ends the process.  What ends it early is a failing \<open>pthread_create\<close>, or the
  \<open>VERIFY\<close> of \<open>lock_client::acquire\<close> after a call that has failed, that is, with a negative status; the server's own answers never do.  When all
  threads are done and no failed release is outstanding, every lock is free and every counter of the tests is zero.
\<close>

theorem tester_finds_no_fault:
  assumes "tester_run cid (tester_tests test) s"
  shows "(\<forall>e. te_exit s = Some e \<longrightarrow> e = No_Thread \<or> (\<exists>ret. e = Aborted ret Verify_Failed \<and> sint ret < 0)) \<and>
    (te_exit s = None \<and> (\<forall>t. te_todo s t = []) \<longrightarrow>
      lock_map (lk_server (te_sys s)) = Map.empty \<and> te_ct s (ct_index lock_a) = 0 \<and> te_ct s (ct_index lock_b) = 0)"
proof (cases "benign_exit s")
  case True
  then show ?thesis by (auto simp: benign_exit_def benign_def)
next
  case False
  then obtain b own cnt where inv: "tester_inv cid b own cnt s" using tester_run_inv [OF assms] by blast
  note I = tester_invD [OF inv]
  have "lock_map (lk_server (te_sys s)) = Map.empty \<and> te_ct s 1 = 0 \<and> te_ct s 2 = 0" if "\<forall>t. te_todo s t = []"
  proof -
    have own: "own l = None" for l
      using programs_free [OF I(2)] that by (cases "own l") auto
    have "counted_in cnt t = {}" for t using programs_at [OF I(2), of t] that by simp
    then have "cnt l = None" for l using counted_in_iff [of l cnt] by (cases "cnt l") blast+
    then show ?thesis using I(3,4) own by (auto simp: locks_ok_def counts_ok_def)
  qed
  then show ?thesis using I(1) by simp
qed

theorem tester_finds_no_fault_witness:
  "tester_run (\<lambda>i. of_nat i) (tester_tests 4) (goes_on 1 (test4 0) (goes_on 0 (tl (tester_tests 4)) (tester_start (tester_tests 4)))) \<and>
   te_exit (goes_on 1 (test4 0) (goes_on 0 (tl (tester_tests 4)) (tester_start (tester_tests 4)))) \<noteq> Some (Granted_Twice lock_a)"
proof -
  let ?s = "tester_start (tester_tests 4)"
  have "te_todo ?s 0 = T_Create 0 (test4 0) # tl (tester_tests 4)"
    by (simp add: tester_start_def tester_tests_def run_threads_def upt_conv_Cons)
  from tester_step.creates [OF _ this, of "\<lambda>i. of_nat i" 0]
  have "tester_step (\<lambda>i. of_nat i) ?s (goes_on 1 (test4 0) (goes_on 0 (tl (tester_tests 4)) ?s))"
    by (simp add: tester_start_def)
  from tester_run.steps [OF tester_run.begins this]
  show ?thesis using tester_finds_no_fault [of "\<lambda>i. of_nat i" 4] by blast
qed

end
