(* ===== verification/Process.thy ===== *)
theory Process
  imports Rpc_Prelude
begin

text \<open>
  What the components use of the process they run in: the thread starters of \<^verbatim>\<open>rpc/method_thread.h\<close> and
  the log of \<^verbatim>\<open>rpc/jsl_log.h\<close> and \<^verbatim>\<open>rpc/jsl_log.cc\<close>.

  The four templates \<open>method_thread\<close> differ in the number of arguments of the method, none to three;
  here the arguments are one value of any type.  Each template allocates an object of its class
  \<open>XXX\<close>, a closure, and hands its address to \<open>pthread_create\<close>; the new thread runs \<open>yyy\<close>, which copies the
  closure, deletes it and calls the method.  \<open>mt_step\<close> interleaves the parents and the new threads; \<open>new\<close>
  may give any address that is not in use, so an address is used again once its closure is deleted.
\<close>

section \<open>Starting threads\<close>

record ('o, 'm, 'a) closure =
  x_o :: 'o
  x_m :: 'm
  x_a :: 'a

type_synonym ('o, 'm, 'a) closures = "nat \<rightharpoonup> ('o, 'm, 'a) closure"

text \<open>\<open>err\<close> and \<open>derr\<close> are what \<open>pthread_create\<close> and \<open>pthread_detach\<close> answer.\<close>

definition method_thread_parent :: "int \<Rightarrow> int \<Rightarrow> bool \<Rightarrow> unit ended result" where
  "method_thread_parent err derr detach =
     (if err \<noteq> 0 then Inr Exits
      else bind_r (if detach then VERIFY (derr = 0) else Inr ()) (\<lambda>_. Inr (Goes_On ())))"

text \<open>The answers of \<open>pthread_setcancelstate\<close> and \<open>pthread_setcanceltype\<close>.\<close>

definition method_thread_child :: "int \<Rightarrow> int \<Rightarrow> unit result" where
  "method_thread_child st ty = bind_r (VERIFY (st = 0)) (\<lambda>_. VERIFY (ty = 0))"

text \<open>The four templates: the closure allocated at \<open>x\<close>, then the parent's part.\<close>

definition method_thread ::
    "nat \<Rightarrow> 'o \<Rightarrow> 'm \<Rightarrow> 'a \<Rightarrow> int \<Rightarrow> int \<Rightarrow> bool \<Rightarrow> ('o, 'm, 'a) closures \<Rightarrow> ('o, 'm, 'a) closures ended result" where
  "method_thread x o' m a err derr detach h =
     (let h = h(x \<mapsto> \<lparr>x_o = o', x_m = m, x_a = a\<rparr>)
      in bind_r (method_thread_parent err derr detach) (\<lambda>r.
         Inr (case r of Exits \<Rightarrow> Exits | Goes_On _ \<Rightarrow> Goes_On h)))"

text \<open>The two halves of \<open>yyy\<close> on the closure: its fields are copied, and it is deleted.\<close>

definition yyy_read :: "nat \<Rightarrow> ('o, 'm, 'a) closures \<Rightarrow> ('o, 'm, 'a) closure result" where
  "yyy_read x h = (case h x of None \<Rightarrow> Inl Use_After_Free | Some c \<Rightarrow> Inr c)"

definition yyy_delete :: "nat \<Rightarrow> ('o, 'm, 'a) closures \<Rightarrow> ('o, 'm, 'a) closures result" where
  "yyy_delete x h = (case h x of None \<Rightarrow> Inl Double_Free | Some c \<Rightarrow> Inr (h(x := None)))"

datatype ('o, 'm, 'a) mphase =
    Not_Started
  | Started nat
  | Copied nat "('o, 'm, 'a) closure"
  | Deleted "('o, 'm, 'a) closure"
  | Called

record ('o, 'm, 'a) mt_sys =
  mt_heap :: "('o, 'm, 'a) closures"
  mt_ph :: "nat \<Rightarrow> ('o, 'm, 'a) mphase"
  mt_fault :: "fault option"

datatype ('o, 'm, 'a) mevent = M_Start nat 'o 'm 'a | M_Call nat 'o 'm 'a | M_Tau

inductive mt_step :: "('o, 'm, 'a) mt_sys \<Rightarrow> ('o, 'm, 'a) mevent \<Rightarrow> ('o, 'm, 'a) mt_sys \<Rightarrow> bool" where
  starts: "mt_heap s x = None \<Longrightarrow> mt_ph s t = Not_Started \<Longrightarrow>
     method_thread x o' m a 0 0 detach (mt_heap s) = Inr (Goes_On h) \<Longrightarrow>
     mt_step s (M_Start t o' m a) (s\<lparr>mt_heap := h, mt_ph := (mt_ph s)(t := Started x)\<rparr>)"
| reads: "mt_ph s t = Started x \<Longrightarrow> yyy_read x (mt_heap s) = Inr c \<Longrightarrow>
     mt_step s M_Tau (s\<lparr>mt_ph := (mt_ph s)(t := Copied x c)\<rparr>)"
| reads_freed: "mt_ph s t = Started x \<Longrightarrow> yyy_read x (mt_heap s) = Inl f \<Longrightarrow>
     mt_step s M_Tau (s\<lparr>mt_fault := Some f\<rparr>)"
| deletes: "mt_ph s t = Copied x c \<Longrightarrow> yyy_delete x (mt_heap s) = Inr h \<Longrightarrow>
     mt_step s M_Tau (s\<lparr>mt_heap := h, mt_ph := (mt_ph s)(t := Deleted c)\<rparr>)"
| deletes_freed: "mt_ph s t = Copied x c \<Longrightarrow> yyy_delete x (mt_heap s) = Inl f \<Longrightarrow>
     mt_step s M_Tau (s\<lparr>mt_fault := Some f\<rparr>)"
| calls: "mt_ph s t = Deleted c \<Longrightarrow> method_thread_child 0 0 = Inr () \<Longrightarrow>
     mt_step s (M_Call t (x_o c) (x_m c) (x_a c)) (s\<lparr>mt_ph := (mt_ph s)(t := Called)\<rparr>)"

inductive mt_run :: "('o, 'm, 'a) mevent list \<Rightarrow> ('o, 'm, 'a) mt_sys \<Rightarrow> bool" where
  start: "mt_run [] \<lparr>mt_heap = Map.empty, mt_ph = \<lambda>_. Not_Started, mt_fault = None\<rparr>"
| more: "mt_run es s \<Longrightarrow> mt_step s e s' \<Longrightarrow> mt_run (es @ [e]) s'"

inductive_cases mt_stepE: "mt_step s e s'"

section \<open>The log\<close>

definition JSL_DBG_OFF :: int where "JSL_DBG_OFF = 0"
definition JSL_DBG_1 :: int where "JSL_DBG_1 = 1"
definition JSL_DBG_2 :: int where "JSL_DBG_2 = 2"
definition JSL_DBG_3 :: int where "JSL_DBG_3 = 3"
definition JSL_DBG_4 :: int where "JSL_DBG_4 = 4"

text \<open>\<open>JSL_DEBUG_LEVEL\<close> and what has been printed.\<close>

record jsl =
  JSL_DEBUG_LEVEL :: int
  jsl_out :: "string list"

definition jsl_new :: jsl where
  "jsl_new = \<lparr>JSL_DEBUG_LEVEL = 0, jsl_out = []\<rparr>"

definition jsl_set_debug :: "int \<Rightarrow> jsl \<Rightarrow> jsl" where
  "jsl_set_debug level j = j\<lparr>JSL_DEBUG_LEVEL := level\<rparr>"

definition jsl_log :: "int \<Rightarrow> string \<Rightarrow> jsl \<Rightarrow> jsl" where
  "jsl_log level msg j = (if JSL_DEBUG_LEVEL j < \<bar>level\<bar> then j else j\<lparr>jsl_out := jsl_out j @ [msg]\<rparr>)"

section \<open>Every thread calls what it was started with\<close>

text \<open>The closure a thread still has in the heap, and the one it has taken or will take.\<close>

fun closure_at :: "('o, 'm, 'a) mphase \<Rightarrow> nat option" where
  "closure_at (Started x) = Some x"
| "closure_at (Copied x c) = Some x"
| "closure_at _ = None"

definition owed :: "('o, 'm, 'a) mt_sys \<Rightarrow> nat \<Rightarrow> ('o, 'm, 'a) closure option" where
  "owed s t = (case mt_ph s t of Started x \<Rightarrow> mt_heap s x | Copied x c \<Rightarrow> Some c | Deleted c \<Rightarrow> Some c | _ \<Rightarrow> None)"

text \<open>
  The heap holds exactly the closures of the threads that have not deleted theirs, one each, and each
  thread that has copied its closure has what is there.
\<close>

definition mt_inv :: "('o, 'm, 'a) mt_sys \<Rightarrow> bool" where
  "mt_inv s \<longleftrightarrow> mt_fault s = None \<and> dom (mt_heap s) = ran (closure_at \<circ> mt_ph s) \<and>
     inj_on (closure_at \<circ> mt_ph s) (dom (closure_at \<circ> mt_ph s)) \<and>
     (\<forall>t x c. mt_ph s t = Copied x c \<longrightarrow> mt_heap s x = Some c)"

text \<open>The calls that the history owes: started, and not yet made.\<close>

definition started :: "nat \<Rightarrow> ('o, 'm, 'a) mevent list \<Rightarrow> ('o \<times> 'm \<times> 'a) list" where
  "started t es = concat (map (\<lambda>e. case e of M_Start u o' m a \<Rightarrow> if u = t then [(o', m, a)] else [] | _ \<Rightarrow> []) es)"

definition called :: "nat \<Rightarrow> ('o, 'm, 'a) mevent list \<Rightarrow> ('o \<times> 'm \<times> 'a) list" where
  "called t es = concat (map (\<lambda>e. case e of M_Call u o' m a \<Rightarrow> if u = t then [(o', m, a)] else [] | _ \<Rightarrow> []) es)"

definition pending :: "('o, 'm, 'a) closure option \<Rightarrow> ('o \<times> 'm \<times> 'a) list" where
  "pending c = (case c of None \<Rightarrow> [] | Some c \<Rightarrow> [(x_o c, x_m c, x_a c)])"

lemma method_thread_ok:
  "method_thread x o' m a 0 0 detach h = Inr (Goes_On (h(x \<mapsto> \<lparr>x_o = o', x_m = m, x_a = a\<rparr>)))"
  by (simp add: method_thread_def method_thread_parent_def)

lemma mt_inv_heap: "mt_inv s \<Longrightarrow> closure_at (mt_ph s t) = Some x \<Longrightarrow> \<exists>c. mt_heap s x = Some c"
  unfolding mt_inv_def using ranI [of "closure_at \<circ> mt_ph s" t x] by auto

lemma inj_map_upd:
  "inj_on w (dom w) \<Longrightarrow> x \<notin> ran w \<Longrightarrow> inj_on (w(t \<mapsto> x)) (dom (w(t \<mapsto> x)))"
  by (auto simp: inj_on_def ran_def)

lemma inj_map_clear:
  assumes "inj_on w (dom w)" "w t = Some x"
  shows "inj_on (w(t := None)) (dom (w(t := None))) \<and> ran (w(t := None)) = ran w - {x}"
proof
  show "inj_on (w(t := None)) (dom (w(t := None)))"
    using assms(1) by (auto simp: inj_on_def)
  have "u = t" if "w u = Some x" for u
    using inj_onD [OF assms(1), of u t] that assms(2) by (simp add: domI)
  then have "y \<noteq> x" if "w u = Some y" "u \<noteq> t" for u y using that by blast
  then have "ran (w(t := None)) \<subseteq> ran w - {x}" by (auto simp: ran_def)
  moreover have "y \<in> ran (w(t := None))" if y: "y \<in> ran w - {x}" for y
  proof -
    obtain u where "w u = Some y" using y by (auto simp: ran_def)
    then show ?thesis using assms(2) y by (intro ranI [of _ u]) auto
  qed
  ultimately show "ran (w(t := None)) = ran w - {x}" by blast
qed

lemma mt_step_inv:
  assumes "mt_step s e s'" "mt_inv s"
  shows "mt_inv s'"
  using assms(1)
proof cases
  case (starts x t o' m a detach h)
  have "x \<notin> ran (closure_at \<circ> mt_ph s)" using starts(3) assms(2) by (auto simp: mt_inv_def)
  moreover have "(closure_at \<circ> mt_ph s) t = None" using starts(4) by simp
  moreover have "mt_heap s y = Some c \<Longrightarrow> y \<noteq> x" for y c using starts(3) by auto
  moreover have "h = (mt_heap s)(x \<mapsto> \<lparr>x_o = o', x_m = m, x_a = a\<rparr>)" using starts(5) by (simp add: method_thread_ok)
  ultimately show ?thesis
    using starts assms(2) inj_map_upd [of "closure_at \<circ> mt_ph s" x t]
    by (simp add: mt_inv_def fun_upd_comp)
next
  case (reads t x c)
  then have "(closure_at \<circ> mt_ph s)(t \<mapsto> x) = closure_at \<circ> mt_ph s" by (auto simp: fun_eq_iff)
  then show ?thesis
    using reads assms(2) by (auto simp: mt_inv_def fun_upd_comp yyy_read_def split: option.splits)
next
  case (deletes t x c h)
  have "mt_ph s u \<noteq> Copied x d" if "u \<noteq> t" for u d
    using inj_onD [of "closure_at \<circ> mt_ph s" _ u t] assms(2) deletes(3) that by (fastforce simp: mt_inv_def)
  moreover have "h = (mt_heap s)(x := None)" using deletes(4) by (auto simp: yyy_delete_def split: option.splits)
  ultimately show ?thesis
    using deletes assms(2) inj_map_clear [of "closure_at \<circ> mt_ph s" t x]
    by (simp add: mt_inv_def fun_upd_comp)
next
  case (calls t c)
  then have "(closure_at \<circ> mt_ph s)(t := None) = closure_at \<circ> mt_ph s" by (auto simp: fun_eq_iff)
  then show ?thesis using calls assms(2) by (auto simp: mt_inv_def fun_upd_comp)
next
  case (reads_freed t x f)
  then show ?thesis using mt_inv_heap [OF assms(2), of t x] by (auto simp: yyy_read_def)
next
  case (deletes_freed t x c f)
  then show ?thesis using mt_inv_heap [OF assms(2), of t x] by (auto simp: yyy_delete_def)
qed

lemma mt_run_inv: "mt_run es s \<Longrightarrow> mt_inv s"
proof (induction rule: mt_run.induct)
  case start
  then show ?case by (auto simp: mt_inv_def inj_on_def ran_def)
qed (rule mt_step_inv)

lemma owed_unrelated:
  assumes "mt_step s e s'" "mt_inv s" "mt_ph s' t = mt_ph s t"
  shows "owed s' t = owed s t"
  using assms(1)
proof cases
  case (starts x u o' m a detach h)
  then show ?thesis using mt_inv_heap [OF assms(2), of t] assms(3)
    by (force simp: owed_def method_thread_ok split: mphase.split)
next
  case (deletes u x c h)
  then have "mt_ph s t \<noteq> Started x"
    using inj_onD [of "closure_at \<circ> mt_ph s" _ t u] assms(2) by (fastforce simp: mt_inv_def)
  then show ?thesis using deletes assms(3)
    by (auto simp: owed_def yyy_delete_def split: mphase.split option.splits)
qed (use assms(3) in \<open>auto simp: owed_def split: mphase.split\<close>)

lemma mt_step_owed:
  assumes "mt_step s e s'" "mt_inv s"
  shows "pending (owed s t) @ started t [e] = called t [e] @ pending (owed s' t)"
    and "mt_ph s' t = Not_Started \<longleftrightarrow> mt_ph s t = Not_Started \<and> started t [e] = []"
    and "started t [e] \<noteq> [] \<Longrightarrow> mt_ph s t = Not_Started"
proof -
  have "pending (owed s t) @ started t [e] = called t [e] @ pending (owed s' t) \<and>
    (mt_ph s' t = Not_Started \<longleftrightarrow> mt_ph s t = Not_Started \<and> started t [e] = []) \<and>
    (started t [e] \<noteq> [] \<longrightarrow> mt_ph s t = Not_Started)"
  proof (cases "mt_ph s' t = mt_ph s t")
    case True
    then show ?thesis using owed_unrelated [OF assms True]
      by (cases rule: mt_step.cases [OF assms(1)]) (auto simp: started_def called_def)
  next
    case False
    then show ?thesis using assms(2)
      by (cases rule: mt_step.cases [OF assms(1)])
        (auto simp: started_def called_def owed_def pending_def method_thread_ok yyy_read_def mt_inv_def
          split: option.splits if_splits)
  qed
  then show "pending (owed s t) @ started t [e] = called t [e] @ pending (owed s' t)"
    "mt_ph s' t = Not_Started \<longleftrightarrow> mt_ph s t = Not_Started \<and> started t [e] = []"
    "started t [e] \<noteq> [] \<Longrightarrow> mt_ph s t = Not_Started" by blast+
qed

lemma history_split: "started t (es @ [e]) = started t es @ started t [e]" "called t (es @ [e]) = called t es @ called t [e]"
  by (simp_all add: started_def called_def)

lemma mt_run_history:
  "mt_run es s \<Longrightarrow> started t es = called t es @ pending (owed s t) \<and> (mt_ph s t = Not_Started \<longleftrightarrow> started t es = [])
     \<and> length (started t es) \<le> 1"
proof (induction rule: mt_run.induct)
  case start
  then show ?case by (simp add: started_def called_def owed_def pending_def)
next
  case (more es s e s')
  have inv: "mt_inv s" using mt_run_inv [OF more.hyps(1)] .
  have one: "length (started t [e]) \<le> 1" by (simp add: started_def split: mevent.split)
  note step = mt_step_owed [OF more.hyps(2) inv, of t]
  have "started t (es @ [e]) = called t (es @ [e]) @ pending (owed s' t)"
    unfolding history_split using more.IH step(1) by simp
  moreover have "mt_ph s' t = Not_Started \<longleftrightarrow> started t (es @ [e]) = []"
    unfolding history_split using more.IH step(2) by blast
  moreover have "length (started t (es @ [e])) \<le> 1"
    unfolding history_split using more.IH one step(3) by (cases "started t [e] = []") auto
  ultimately show ?case by blast
qed

section \<open>Properties\<close>

text \<open>
  A thread made by \<open>method_thread\<close> calls the method it was started with, on the object and the arguments
  it was started with, and calls it at most once: whatever the order in which the parents and the threads
  run, and although addresses of deleted closures are used again, no thread reads or deletes a closure
  that is gone, what a thread has called is what it was started with as soon as it has called anything,
  and when every started thread has made its call, no closure is left in the heap.
\<close>

theorem method_thread_calls_what_it_was_given:
  assumes "mt_run es s"
  shows "mt_fault s = None \<and> (called t es = [] \<or> called t es = started t es) \<and> length (called t es) \<le> 1
    \<and> (mt_ph s t = Called \<longrightarrow> called t es = started t es \<and> length (started t es) = 1)
    \<and> ((\<forall>u. mt_ph s u \<in> {Not_Started, Called}) \<longrightarrow> mt_heap s = Map.empty)"
proof -
  note inv = mt_run_inv [OF assms] and hist = mt_run_history [OF assms, of t]
  have "called t es = [] \<or> called t es = started t es" "length (called t es) \<le> 1"
    using hist by (cases "called t es"; simp)+
  moreover have "called t es = started t es \<and> length (started t es) = 1" if "mt_ph s t = Called"
    using hist that by (cases "started t es") (auto simp: owed_def pending_def)
  moreover have "mt_heap s = Map.empty" if idle: "\<forall>u. mt_ph s u \<in> {Not_Started, Called}"
  proof -
    have "closure_at (mt_ph s u) = None" for u using idle by (auto dest: spec [of _ u])
    then have "dom (mt_heap s) = {}" using inv by (auto simp: mt_inv_def ran_def)
    then show ?thesis by simp
  qed
  ultimately show ?thesis using inv unfolding mt_inv_def by blast
qed

text \<open>A run of two threads: the second closure is allocated where the first one was.\<close>

lemma demo_threads:
  "mt_run [M_Start 2 ''o'' ''m'' 7, M_Tau, M_Tau, M_Start 3 ''p'' ''n'' 8, M_Tau, M_Call 2 ''o'' ''m'' 7, M_Tau,
      M_Call 3 ''p'' ''n'' (8::nat)]
    \<lparr>mt_heap = Map.empty, mt_ph = (\<lambda>_. Not_Started)(2 := Called, 3 := Called), mt_fault = None\<rparr>"
proof -
  let ?c = "\<lparr>x_o = ''o'', x_m = ''m'', x_a = 7::nat\<rparr>" and ?d = "\<lparr>x_o = ''p'', x_m = ''n'', x_a = 8::nat\<rparr>"
  let ?s = "\<lambda>h p. \<lparr>mt_heap = h, mt_ph = p, mt_fault = None\<rparr>" and ?i = "\<lambda>_::nat. Not_Started"
  have 1: "mt_step (?s Map.empty ?i) (M_Start 2 ''o'' ''m'' 7) (?s [5 \<mapsto> ?c] (?i(2 := Started 5)))"
    using mt_step.starts [of "?s Map.empty ?i" 5 2 "''o''" "''m''" 7 False] by (simp add: method_thread_ok)
  have 2: "mt_step (?s [5 \<mapsto> ?c] (?i(2 := Started 5))) M_Tau (?s [5 \<mapsto> ?c] (?i(2 := Copied 5 ?c)))"
    using mt_step.reads [of "?s [5 \<mapsto> ?c] (?i(2 := Started 5))" 2 5] by (simp add: yyy_read_def)
  have 3: "mt_step (?s [5 \<mapsto> ?c] (?i(2 := Copied 5 ?c))) M_Tau (?s Map.empty (?i(2 := Deleted ?c)))"
    using mt_step.deletes [of "?s [5 \<mapsto> ?c] (?i(2 := Copied 5 ?c))" 2 5] by (simp add: yyy_delete_def)
  have 4: "mt_step (?s Map.empty (?i(2 := Deleted ?c))) (M_Start 3 ''p'' ''n'' 8)
      (?s [5 \<mapsto> ?d] (?i(2 := Deleted ?c, 3 := Started 5)))"
    using mt_step.starts [of "?s Map.empty (?i(2 := Deleted ?c))" 5 3 "''p''" "''n''" 8 False] by (simp add: method_thread_ok)
  have 5: "mt_step (?s [5 \<mapsto> ?d] (?i(2 := Deleted ?c, 3 := Started 5))) M_Tau
      (?s [5 \<mapsto> ?d] (?i(2 := Deleted ?c, 3 := Copied 5 ?d)))"
    using mt_step.reads [of "?s [5 \<mapsto> ?d] (?i(2 := Deleted ?c, 3 := Started 5))" 3 5] by (simp add: yyy_read_def)
  have 6: "mt_step (?s [5 \<mapsto> ?d] (?i(2 := Deleted ?c, 3 := Copied 5 ?d))) (M_Call 2 ''o'' ''m'' 7)
      (?s [5 \<mapsto> ?d] (?i(2 := Called, 3 := Copied 5 ?d)))"
    using mt_step.calls [of "?s [5 \<mapsto> ?d] (?i(2 := Deleted ?c, 3 := Copied 5 ?d))" 2 ?c]
    by (simp add: method_thread_child_def fun_upd_twist)
  have 7: "mt_step (?s [5 \<mapsto> ?d] (?i(2 := Called, 3 := Copied 5 ?d))) M_Tau (?s Map.empty (?i(2 := Called, 3 := Deleted ?d)))"
    using mt_step.deletes [of "?s [5 \<mapsto> ?d] (?i(2 := Called, 3 := Copied 5 ?d))" 3 5] by (simp add: yyy_delete_def)
  have 8: "mt_step (?s Map.empty (?i(2 := Called, 3 := Deleted ?d))) (M_Call 3 ''p'' ''n'' 8)
      (?s Map.empty (?i(2 := Called, 3 := Called)))"
    using mt_step.calls [of "?s Map.empty (?i(2 := Called, 3 := Deleted ?d))" 3 ?d] by (simp add: method_thread_child_def)
  show ?thesis
    using mt_run.more [OF mt_run.more [OF mt_run.more [OF mt_run.more [OF mt_run.more [OF mt_run.more [OF mt_run.more
      [OF mt_run.more [OF mt_run.start 1] 2] 3] 4] 5] 6] 7] 8] by simp
qed

theorem method_thread_calls_what_it_was_given_witness:
  "mt_run [M_Start 2 ''o'' ''m'' 7, M_Tau, M_Tau, M_Start 3 ''p'' ''n'' 8, M_Tau, M_Call 2 ''o'' ''m'' 7, M_Tau,
      M_Call 3 ''p'' ''n'' (8::nat)]
    \<lparr>mt_heap = Map.empty, mt_ph = (\<lambda>_. Not_Started)(2 := Called, 3 := Called), mt_fault = None\<rparr> \<and>
   called 3 [M_Start 2 ''o'' ''m'' 7, M_Tau, M_Tau, M_Start 3 ''p'' ''n'' 8, M_Tau, M_Call 2 ''o'' ''m'' 7, M_Tau,
      M_Call 3 ''p'' ''n'' (8::nat)] = [(''p'', ''n'', 8)]"
  using method_thread_calls_what_it_was_given [OF demo_threads, of 3] demo_threads by (simp add: started_def)

text \<open>
  The log: of a sequence of messages those are printed, in order, whose level is at most the debug level.
  A message of level \<open>JSL_DBG_OFF\<close> is therefore printed at every debug level that is not negative.
\<close>

lemma jsl_log_printed:
  "jsl_out (fold (\<lambda>(level, msg). jsl_log level msg) ms j) =
     jsl_out j @ map snd (filter (\<lambda>(level, msg). \<bar>level\<bar> \<le> JSL_DEBUG_LEVEL j) ms)"
  by (induction ms arbitrary: j) (auto simp: jsl_log_def)

lemma jsl_log_off_printed: "0 \<le> d \<Longrightarrow> jsl_out (jsl_log JSL_DBG_OFF msg (jsl_set_debug d j)) = jsl_out j @ [msg]"
  by (simp add: jsl_log_def jsl_set_debug_def JSL_DBG_OFF_def)

end
