(* ===== verification/Listener.thy ===== *)
theory Listener
  imports Conn_Store Process Addresses
begin

text \<open>
  The life of the listener of a server, class \<open>tcpsconn\<close> of \<^verbatim>\<open>rpc/connection.cc\<close>: the constructor, which opens
  the socket and starts the thread of \<open>accept_conn\<close>, and the destructor, which ends that thread and gives up
  the connections.  What the system calls answer is given by the arguments.
\<close>

section \<open>Definitions\<close>

record tcpsconn =
  ts_addr :: sockaddr_in
  ts_tcp :: int
  ts_pipe :: "nat \<times> nat"
  ts_pipe_flags :: u32
  ts_lossy :: int
  ts_conns :: conn_table

definition O_NONBLOCK :: u32 where "O_NONBLOCK = 0x800"

record listen_answers =
  la_socket :: int
  la_bind :: int
  la_listen :: int
  la_pipe :: int
  la_pipe_fds :: "nat \<times> nat"
  la_flags :: u32
  la_create :: int

definition tcpsconn_new :: "listen_answers \<Rightarrow> int \<Rightarrow> int \<Rightarrow> tcpsconn ended result" where
  "tcpsconn_new a port lossytest =
     (let sin = Sockaddr_in AF_INET (htons (word_of_int port)) 0;
          tcp = la_socket a
      in bind_r (if tcp < 0 then VERIFY False else Inr ()) (\<lambda>_.
         bind_r (if la_bind a < 0 then VERIFY False else Inr ()) (\<lambda>_.
         bind_r (if la_listen a < 0 then VERIFY False else Inr ()) (\<lambda>_.
         bind_r (if la_pipe a < 0 then VERIFY False else Inr ()) (\<lambda>_.
         bind_r (method_thread_parent (la_create a) 0 False) (\<lambda>r.
         Inr (case r of
                Exits \<Rightarrow> Exits
              | Goes_On _ \<Rightarrow> Goes_On \<lparr>ts_addr = sin, ts_tcp = tcp, ts_pipe = la_pipe_fds a,
                  ts_pipe_flags = la_flags a OR O_NONBLOCK, ts_lossy = lossytest, ts_conns = []\<rparr>)))))))"

text \<open>The destructor: \<open>closed\<close> and \<open>joined\<close> are the answers of \<open>close\<close> and of \<open>pthread_join\<close>.\<close>

definition tcpsconn_delete :: "int \<Rightarrow> int \<Rightarrow> tcpsconn \<Rightarrow> conn_store \<Rightarrow> conn_store result" where
  "tcpsconn_delete closed joined ts st =
     bind_r (VERIFY (closed = 0)) (\<lambda>_.
     bind_r (VERIFY (joined = 0)) (\<lambda>_.
     close_all (ts_conns ts) st))"

text \<open>The thread of \<open>accept_conn\<close>: rounds until one ends it; the connections that are left.\<close>

fun accept_conn ::
    "(accept_answer \<times> nat option \<times> nat \<times> (int \<times> int)) list \<Rightarrow> tcpsconn \<Rightarrow> conn_store \<Rightarrow> (bool \<times> tcpsconn \<times> conn_store) result" where
  "accept_conn [] ts st = Inr (True, ts, st)"
| "accept_conn ((a, s1, cid, now) # as) ts st =
     bind_r (accept_round a s1 cid now (ts_lossy ts) (ts_conns ts) st) (\<lambda>(go, cs, st).
     if go then accept_conn as (ts\<lparr>ts_conns := cs\<rparr>) st else Inr (False, ts\<lparr>ts_conns := cs\<rparr>, st))"

section \<open>What the constructor and the destructor do\<close>

lemma tcpsconn_new_outcome:
  "tcpsconn_new a port lossy =
     (if la_socket a < 0 \<or> la_bind a < 0 \<or> la_listen a < 0 \<or> la_pipe a < 0 then Inl Verify_Failed
      else if la_create a \<noteq> 0 then Inr Exits
      else Inr (Goes_On \<lparr>ts_addr = Sockaddr_in AF_INET (htons (word_of_int port)) 0, ts_tcp = la_socket a,
        ts_pipe = la_pipe_fds a, ts_pipe_flags = la_flags a OR O_NONBLOCK, ts_lossy = lossy, ts_conns = []\<rparr>))"
  by (simp add: tcpsconn_new_def method_thread_parent_def)

lemma tcpsconn_new_ok: "tcpsconn_new a port lossy = Inr (Goes_On ts) \<Longrightarrow> listener_ok (ts_conns ts) st"
  by (auto simp: tcpsconn_new_outcome listener_ok_def split: if_splits)

text \<open>What becomes of a connection that the listener gives up.\<close>

definition given_up :: "conn \<Rightarrow> conn option" where
  "given_up c = (if cn_refno c = 1 then None else Some ((fst (closeconn c))\<lparr>cn_refno := cn_refno c - 1\<rparr>))"

lemma unref_given_up:
  assumes "st cid = Some c" "1 \<le> cn_refno c" "cb_buf (cn_wpdu c) = None"
  shows "st_unref cid (st(cid \<mapsto> fst (closeconn c))) = Inr (st(cid := given_up c))"
  using assms by (auto simp: st_ops decref_def conn_delete_def closeconn_def given_up_def Let_def)

lemma close_all_given_up:
  assumes "distinct (map snd cs)" "\<forall>(fd, cid)\<in>set cs. \<exists>c. st cid = Some c \<and> 1 \<le> cn_refno c \<and> cb_buf (cn_wpdu c) = None"
  shows "close_all cs st = Inr (\<lambda>cid. if cid \<in> snd ` set cs then Option.bind (st cid) given_up else st cid)"
  using assms
proof (induction cs arbitrary: st)
  case (Cons e cs)
  obtain fd cid where e: "e = (fd, cid)" by (cases e)
  obtain c where c: "st cid = Some c" "1 \<le> cn_refno c" "cb_buf (cn_wpdu c) = None" using Cons.prems(2) e by auto
  let ?st = "st(cid := given_up c)"
  have new: "cid \<notin> snd ` set cs" "distinct (map snd cs)" using Cons.prems(1) e by auto
  then have "\<forall>(fd, d)\<in>set cs. \<exists>c. ?st d = Some c \<and> 1 \<le> cn_refno c \<and> cb_buf (cn_wpdu c) = None"
    using Cons.prems(2) by force
  from Cons.IH [OF new(2) this]
  have ih: "close_all cs ?st = Inr (\<lambda>d. if d \<in> snd ` set cs then Option.bind (?st d) given_up else ?st d)" .
  have "(\<lambda>d. if d \<in> snd ` set cs then Option.bind (?st d) given_up else ?st d) =
      (\<lambda>d. if d \<in> snd ` set (e # cs) then Option.bind (st d) given_up else st d)"
    using c(1) new(1) e by (intro ext) auto
  with ih show ?case using c unref_given_up [of st, OF c] e by (simp add: st_get_def)
qed simp

text \<open>
  When the listener is deleted, each of its connections is closed; a connection that only the listener
  held is deleted, and one that others still hold stays, dead, with one reference less.
\<close>

lemma tcpsconn_delete_gives_up:
  assumes "listener_ok (ts_conns ts) st"
    "\<And>fd cid c. (fd, cid) \<in> set (ts_conns ts) \<Longrightarrow> st cid = Some c \<Longrightarrow> cb_buf (cn_wpdu c) = None"
  shows "tcpsconn_delete 0 0 ts st =
    Inr (\<lambda>cid. if cid \<in> snd ` set (ts_conns ts) then Option.bind (st cid) given_up else st cid)"
proof -
  have "distinct (map snd (ts_conns ts))"
    "\<forall>(fd, cid)\<in>set (ts_conns ts). \<exists>c. st cid = Some c \<and> 1 \<le> cn_refno c \<and> cb_buf (cn_wpdu c) = None"
    using assms unfolding listener_ok_def by fastforce+
  then show ?thesis by (simp add: tcpsconn_delete_def close_all_given_up)
qed

text \<open>Closing the pipe ends the thread at its next round, whatever else is ready.\<close>

lemma accept_conn_stops: "accept_conn ((Acc_Ready True tcp, s1, cid, now) # as) ts st = Inr (False, ts, st)"
  by (simp add: accept_round_def)

lemma accept_conn_eintr: "accept_conn (replicate n (Acc_EINTR, s1, cid, now)) ts st = Inr (True, ts, st)"
  by (induction n) (simp_all add: accept_round_def)

end
