(* ===== verification/Writers.thy ===== *)
theory Writers
  imports Stubs "HOL-Library.Sublist"
begin

text \<open>
  What holds of the writing operators whatever the size of the message.  Theory \<open>Codec\<close> says which
  bytes an operator appends while the message is small enough; here, without any bound: an operator that
  returns at all leaves the writer well-formed and what was written before untouched.  So does a
  handler that \<open>reg\<close> makes of a method.
\<close>

section \<open>Operators that only append\<close>

definition appends :: "(marshall \<Rightarrow> marshall result) \<Rightarrow> bool" where
  "appends f \<longleftrightarrow> (\<forall>m m'. m_wf m \<and> f m = Inr m' \<longrightarrow> m_wf m' \<and> prefix (m_bytes m) (m_bytes m'))"

lemma appendsI: "(\<And>m m'. m_wf m \<Longrightarrow> f m = Inr m' \<Longrightarrow> m_wf m' \<and> prefix (m_bytes m) (m_bytes m')) \<Longrightarrow> appends f"
  unfolding appends_def by blast

lemma appendsD: "appends f \<Longrightarrow> m_wf m \<Longrightarrow> f m = Inr m' \<Longrightarrow> m_wf m' \<and> prefix (m_bytes m) (m_bytes m')"
  by (simp add: appends_def)

lemma appends_nothing [writer_intros]: "appends Inr"
  by (simp add: appends_def)

lemma appends_bind [writer_intros]: "appends f \<Longrightarrow> appends g \<Longrightarrow> appends (\<lambda>m. bind_r (f m) g)"
  unfolding appends_def bind_r_eq_Inr using prefix_order.trans by blast

text \<open>The growth of the buffer keeps its contents.\<close>

lemma realloc_grows:
  assumes "m_wf m" "m_capa m \<le> c" "m_realloc mem c m = Inr m1"
  obtains b where "m_buf m = Some b" "m1 = m\<lparr>m_capa := c, m_buf := Some (b @ map mem [length b..<c])\<rparr>" "length b = m_capa m"
proof -
  obtain b where b: "m_buf m = Some b" "length b = m_capa m" by (rule m_wfE [OF assms(1)])
  then show ?thesis using that assms(2,3) by (auto simp: m_realloc_def split: if_splits)
qed

lemma appends_rawbyte [writer_intros]: "appends (\<lambda>m. m_rawbyte mem m x)"
proof (rule appendsI)
  fix m m' assume wf: "m_wf m" and r: "m_rawbyte mem m x = Inr m'"
  obtain b where b: "m_buf m = Some b" "length b = m_capa m" "m_ind m \<le> m_capa m" "24 \<le> m_ind m" "1024 \<le> m_capa m"
    "m_capa m \<le> max 1024 (2 * m_ind m)" by (rule m_wfE [OF wf])
  show "m_wf m' \<and> prefix (m_bytes m) (m_bytes m')"
  proof (cases "m_ind m < m_capa m")
    case True
    then show ?thesis using b r by (auto simp: m_rawbyte_def m_wf_def m_bytes_def take_Suc_list_update)
  next
    case False
    then obtain m1 where m1: "m_realloc mem (m_capa m * 2) m = Inr m1" using r by (auto simp: m_rawbyte_def bind_r_eq_Inr)
    have "m1 = m\<lparr>m_capa := m_capa m * 2, m_buf := Some (b @ map mem [length b..<m_capa m * 2])\<rparr>"
      using realloc_grows [OF wf _ m1] b(1) by fastforce
    then show ?thesis using b r False m1 by (auto simp: m_rawbyte_def m_wf_def m_bytes_def take_Suc_list_update)
  qed
qed

lemma appends_rawbytes [writer_intros]: "appends (\<lambda>m. m_rawbytes mem m p)"
proof (rule appendsI)
  fix m m' assume wf: "m_wf m" and r: "m_rawbytes mem m p = Inr m'"
  obtain b where b: "m_buf m = Some b" "length b = m_capa m" "m_ind m \<le> m_capa m" "24 \<le> m_ind m" "1024 \<le> m_capa m"
    "m_capa m \<le> max 1024 (2 * m_ind m)" by (rule m_wfE [OF wf])
  show "m_wf m' \<and> prefix (m_bytes m) (m_bytes m')"
  proof (cases "m_ind m + length p \<le> m_capa m")
    case True
    then show ?thesis using b r by (auto simp: m_rawbytes_def Let_def m_wf_def m_bytes_def split: if_splits)
  next
    case False
    define c where "c = (if m_capa m > length p then 2 * m_capa m else m_capa m + length p)"
    obtain m1 where m1: "m_realloc mem c m = Inr m1"
      using r False by (auto simp: m_rawbytes_def Let_def bind_r_eq_Inr c_def split: if_splits)
    have c: "m_capa m \<le> c" "m_ind m + length p \<le> c" "c \<le> 2 * (m_ind m + length p)" using False b(3,5) by (auto simp: c_def)
    have "m1 = m\<lparr>m_capa := c, m_buf := Some (b @ map mem [length b..<c])\<rparr>"
      using realloc_grows [OF wf c(1) m1] b(1) by fastforce
    moreover have "m_rawbytes mem m p = (if \<not> fits_int (length p) then Inl Out_Of_Bounds
        else if \<not> fits_int (m_ind m + length p) then Inl Signed_Overflow
        else bind_r (m_realloc mem c m) (\<lambda>m. case m_buf m of None \<Rightarrow> Inl Null_Deref
           | Some b \<Rightarrow> if m_ind m + length p \<le> length b
               then Inr (m\<lparr>m_buf := Some (take (m_ind m) b @ p @ drop (m_ind m + length p) b), m_ind := m_ind m + length p\<rparr>)
               else Inl Out_Of_Bounds))"
      using False by (simp add: m_rawbytes_def Let_def c_def)
    ultimately show ?thesis using b r c m1 by (auto simp: m_wf_def m_bytes_def split: if_splits)
  qed
qed

lemma appends_uint [writer_intros]: "appends (\<lambda>m. put_uint mem m x)"
  unfolding put_uint_def by (intro writer_intros)

lemma appends_ushort [writer_intros]: "appends (\<lambda>m. put_ushort mem m x)"
  unfolding put_ushort_def by (intro writer_intros)

lemma appends_all: "(\<And>x. appends (\<lambda>m. putc mem m x)) \<Longrightarrow> appends (\<lambda>m. put_all putc mem m xs)"
  by (induction xs) (auto intro: writer_intros)

lemma appends_pair [writer_intros]:
  "appends (\<lambda>m. p mem m (fst x)) \<Longrightarrow> appends (\<lambda>m. q mem m (snd x)) \<Longrightarrow> appends (\<lambda>m. put_pair p q mem m x)"
  unfolding put_pair_def by (intro writer_intros)

section \<open>Handlers\<close>

definition good_handler :: "'s handler \<Rightarrow> bool" where
  "good_handler f \<longleftrightarrow> (\<forall>mem u s ret rep s'. f mem u (marshall_new mem) s = Inr (ret, rep, s') \<longrightarrow> m_wf rep)"

lemma good_handlerD: "good_handler f \<Longrightarrow> f mem u (marshall_new mem) s = Inr (ret, rep, s') \<Longrightarrow> m_wf rep"
  unfolding good_handler_def by blast

lemma good_h_fn1:
  assumes "\<And>mem r. appends (\<lambda>m. put_r mem m r)"
  shows "good_handler (h_fn1 g z put_r meth)"
  using appendsD [OF assms m_wf_new] by (fastforce simp: good_handler_def h_fn1_def bind_r_eq_Inr split: if_splits)

lemma good_h_fns:
  assumes "\<And>mem r. appends (\<lambda>m. put_r mem m r)"
  shows "good_handler (h_fn2 g1 g2 z1 z2 put_r m2)" "good_handler (h_fn3 g1 g2 g3 z1 z2 z3 put_r m3)"
    "good_handler (h_fn4 g1 g2 g3 g4 z1 z2 z3 z4 put_r m4)" "good_handler (h_fn5 g1 g2 g3 g4 g5 z1 z2 z3 z4 z5 put_r m5)"
    "good_handler (h_fn6 g1 g2 g3 g4 g5 g6 z1 z2 z3 z4 z5 z6 put_r m6)"
    "good_handler (h_fn7 g1 g2 g3 g4 g5 g6 g7 z1 z2 z3 z4 z5 z6 z7 put_r m7)"
  unfolding h_fn_pairs by (intro good_h_fn1 assms)+

section \<open>Operators that write their bytes\<close>

text \<open>
  An operation extends a writer by \<open>n\<close> bytes: it only appends, and as long as the message stays below \<open>2\<^sup>3\<^sup>0\<close> bytes it succeeds,
  growing the buffer when it has to.
\<close>

definition extends :: "(marshall \<Rightarrow> marshall result) \<Rightarrow> nat \<Rightarrow> bool" where
  "extends f n \<longleftrightarrow> appends f \<and> (\<forall>m. m_wf m \<and> m_ind m + n < 2 ^ 30 \<longrightarrow> (\<exists>m'. f m = Inr m' \<and> m_ind m' = m_ind m + n))"

lemma extendsD: "extends f n \<Longrightarrow> m_wf m \<Longrightarrow> m_ind m + n < 2 ^ 30 \<Longrightarrow> \<exists>m'. f m = Inr m' \<and> m_wf m' \<and> m_ind m' = m_ind m + n"
  unfolding extends_def using appendsD by blast

lemma extendsI:
  assumes "appends f" "writes f bs"
  shows "extends f (length bs)"
  unfolding extends_def using assms(1) writesE [OF assms(2)] by metis

lemma extends_nothing: "extends Inr 0"
  by (simp add: extends_def appends_nothing)

lemma extends_bind:
  assumes f: "extends f n" and g: "extends g k"
  shows "extends (\<lambda>m. bind_r (f m) g) (n + k)"
  unfolding extends_def
proof (intro conjI allI impI)
  show "appends (\<lambda>m. bind_r (f m) g)" using f g by (auto simp: extends_def intro: appends_bind)
  fix m assume m: "m_wf m \<and> m_ind m + (n + k) < 2 ^ 30"
  then obtain m1 where m1: "f m = Inr m1" "m_wf m1" "m_ind m1 = m_ind m + n" using extendsD [OF f, of m] by auto
  then show "\<exists>m'. bind_r (f m) g = Inr m' \<and> m_ind m' = m_ind m + (n + k)" using extendsD [OF g m1(2)] m by fastforce
qed

lemma extends_all:
  "(\<And>x. x \<in> set xs \<Longrightarrow> extends (\<lambda>m. putc mem m x) (len x)) \<Longrightarrow> extends (\<lambda>m. put_all putc mem m xs) (\<Sum>x\<leftarrow>xs. len x)"
  by (induction xs) (auto intro: extends_nothing extends_bind)

lemma extends_uint: "extends (\<lambda>m. put_uint mem m x) 4"
  using extendsI [OF appends_uint writes_uint, of mem x] by simp

section \<open>Property\<close>

text \<open>
  C40: every operator \<open><<\<close> of the library keeps a writer well-formed -- the block has the
  recorded capacity, the position is inside it and past the header -- and changes no byte that was written before,
  for every value and however long the message already is.  And it succeeds: while the message stays below \<open>2\<^sup>3\<^sup>0\<close> bytes, a
  full buffer is grown, no byte is written outside it, and the position moves by the size of the value.  So do the templates for
  vectors and maps, when the operators of their elements do.
\<close>

theorem operators_append:
  "extends (\<lambda>m. put_bool mem m b) 1 \<and> extends (\<lambda>m. put_uchar mem m c) 1 \<and> extends (\<lambda>m. put_char mem m c) 1 \<and>
   extends (\<lambda>m. put_ushort mem m s) 2 \<and> extends (\<lambda>m. put_short mem m s) 2 \<and> extends (\<lambda>m. put_uint mem m i) 4 \<and>
   extends (\<lambda>m. put_int mem m i) 4 \<and> extends (\<lambda>m. put_ullong mem m l) 8 \<and> extends (\<lambda>m. put_string mem m str) (4 + length str) \<and>
   ((\<forall>x\<in>set v. extends (\<lambda>m. putc mem m x) (len x)) \<longrightarrow> extends (\<lambda>m. put_vector putc mem m v) (4 + (\<Sum>x\<leftarrow>v. len x))) \<and>
   ((\<forall>(x, y)\<in>set d. extends (\<lambda>m. puta mem m x) (lena x) \<and> extends (\<lambda>m. putb mem m y) (lenb y)) \<longrightarrow>
      extends (\<lambda>m. put_map puta putb mem m d) (4 + (\<Sum>x\<leftarrow>d. lena (fst x) + lenb (snd x))))"
proof (intro conjI impI)
  have byte: "extends (\<lambda>m. m_rawbyte mem m x) 1" for x using extendsI [OF appends_rawbyte writes_rawbyte, of mem x] by simp
  then show "extends (\<lambda>m. put_bool mem m b) 1" "extends (\<lambda>m. put_uchar mem m c) 1" "extends (\<lambda>m. put_char mem m c) 1"
    by (simp_all add: put_bool_def put_uchar_def put_char_def)
  have short: "extends (\<lambda>m. put_ushort mem m s) 2" using extendsI [OF appends_ushort writes_ushort, of mem s] by simp
  then show "extends (\<lambda>m. put_ushort mem m s) 2" "extends (\<lambda>m. put_short mem m s) 2" by (simp_all add: put_short_def)
  show "extends (\<lambda>m. put_uint mem m i) 4" "extends (\<lambda>m. put_int mem m i) 4" by (simp_all add: put_int_def extends_uint)
  show "extends (\<lambda>m. put_ullong mem m l) 8"
    unfolding put_ullong_def using extends_bind [OF extends_uint extends_uint] by simp
  have "extends (\<lambda>m. m_rawbytes mem m str) (length str)" by (rule extendsI [OF appends_rawbytes writes_rawbytes])
  then show "extends (\<lambda>m. put_string mem m str) (4 + length str)"
    unfolding put_string_def by (rule extends_bind [OF extends_uint])
  show "extends (\<lambda>m. put_vector putc mem m v) (4 + (\<Sum>x\<leftarrow>v. len x))" if "\<forall>x\<in>set v. extends (\<lambda>m. putc mem m x) (len x)"
    unfolding put_vector_def using that by (intro extends_bind extends_uint extends_all) blast
  show "extends (\<lambda>m. put_map puta putb mem m d) (4 + (\<Sum>x\<leftarrow>d. lena (fst x) + lenb (snd x)))"
    if el: "\<forall>(x, y)\<in>set d. extends (\<lambda>m. puta mem m x) (lena x) \<and> extends (\<lambda>m. putb mem m y) (lenb y)"
    unfolding put_map_def
  proof (intro extends_bind extends_uint extends_all)
    fix p assume "p \<in> set d"
    then have "extends (\<lambda>m. puta mem m (fst p)) (lena (fst p))" "extends (\<lambda>m. putb mem m (snd p)) (lenb (snd p))" using el by auto
    then show "extends (\<lambda>m. (\<lambda>(a, b). bind_r (puta mem m a) (\<lambda>m. putb mem m b)) p) (lena (fst p) + lenb (snd p))"
      unfolding split_beta by (rule extends_bind)
  qed
qed

theorem operators_append_witness:
  "extends (\<lambda>m. put_vector put_int (\<lambda>_. 0) m [7, 8]) 12 \<and> extends (\<lambda>m. put_map put_int put_string (\<lambda>_. 0) m [(1, [65])]) 13"
proof -
  have el: "extends (\<lambda>m. put_int (\<lambda>_. 0) m x) 4" "extends (\<lambda>m. put_string (\<lambda>_. 0) m y) (4 + length y)" for x y
    using extendsI [OF _ int_codec.put_writes [OF TrueI], of "\<lambda>_. 0" x] extendsI [OF _ string_codec.put_writes [OF TrueI], of "\<lambda>_. 0" y]
    by (simp_all add: put_int_def put_string_def enc_string_def writer_intros)
  show ?thesis
    using operators_append [where mem = "\<lambda>_. 0" and putc = put_int and len = "\<lambda>_. 4" and puta = put_int and lena = "\<lambda>_. 4" and putb = put_string
        and lenb = "\<lambda>y. 4 + length y" and v = "[7, 8]" and d = "[(1, [65])]"] el
    by simp
qed

end
