(* ===== verification/Network.thy ===== *)
theory Network
  imports Remote_Call Writers
begin

text \<open>
  Any number of clients and one server over a network that loses, repeats, delays and reorders messages.

  The state composes the step relations \<open>cl_step\<close> of theory \<open>Rpcc\<close>, one per client, and \<open>srv_step\<close> of theory
  \<open>Rpcs\<close>.  Clients are named by their nonces, which the code draws at random and takes to be different;
  the one with nonce 0 does not ask for at-most-once.  \<open>nw_req c\<close> is everything client \<open>c\<close> has ever sent and
  \<open>nw_rep c\<close> everything the server has ever sent on a connection of client \<open>c\<close>; a message that was sent may
  arrive at any later time, any number of times, or never.  \<open>nw_peer\<close> says which client is at
  the other end of a connection of the server; it is fixed while the connection exists.  The threads of both sides
  interleave freely, calls time out at any moment, connections die and are replaced.

  Two fields are history: the request that was made under each xid, and the runs of handlers.

  The program has two data races, and the runs of \<open>net_run\<close> have them too.  \<open>dispatch\<close> sends a reply from its block after it has
  given up the mutex of the window, so the block may have been freed by then, and handed out again for the reply of another
  call; and \<open>got_pdu\<close> may delete a job that the pool has.  What the network promises is therefore stated as the guarantee
  of data-race-free programs is: for the runs of \<open>race_free\<close>, in which neither happens.  What happens otherwise is
  the subject of theory \<open>Reply_Race\<close>.
\<close>

section \<open>The composed system\<close>

type_synonym hrun = "req_header \<times> unmarshall \<times> i32 \<times> marshall"

record 'o net =
  nw_cl :: "u32 \<Rightarrow> clsys"
  nw_srv :: "'o srvsys"
  nw_peer :: "nat \<Rightarrow> u32"
  nw_req :: "u32 \<Rightarrow> byte list set"
  nw_rep :: "u32 \<Rightarrow> byte list set"
  nw_issued :: "u32 \<Rightarrow> u32 \<Rightarrow> byte list option"
  nw_log :: "hrun set"

datatype nevent = N_Client u32 clevent | N_Server sevent

text \<open>What arrives at the server was sent by the client at the other end and is not too long.\<close>

definition sent_before :: "'o net \<Rightarrow> 'o srvsys \<Rightarrow> bool" where
  "sent_before n s' \<longleftrightarrow> (\<forall>t cid b sz. ss_ph s' t = DArrived cid b sz \<longrightarrow> ss_ph (nw_srv n) t = DArrived cid b sz
     \<or> (\<exists>m\<in>nw_req n (nw_peer n cid). int (length m) \<le> MAX_PDU \<and> b = wire m \<and> sz = length m))"

primrec src_block :: "src \<Rightarrow> nat option" where
  "src_block (Local bs) = None"
| "src_block (Block a sz) = Some a"

primrec refers :: "'o dphase \<Rightarrow> nat option" where
  "refers DIdle = None"
| "refers (DArrived cid buf sz) = None"
| "refers (DFound cid h req f) = None"
| "refers (DCreated cid h req f) = None"
| "refers (DSaved cid h req f) = None"
| "refers (DRun cid h req f) = None"
| "refers (DReturned cid h ret rep) = None"
| "refers (DRecorded cid clt b) = src_block b"
| "refers (DSend cid b) = src_block b"
| "refers (DEnd cid) = None"
| "refers DDeleted = None"

abbreviation heap_of :: "'o srvsys \<Rightarrow> heap" where
  "heap_of s \<equiv> rw_heap (sv_win (ss_srv s))"

definition returned :: "'o srvsys \<Rightarrow> 'o srvsys \<Rightarrow> hrun set" where
  "returned s s' = {(h, req, ret, rep). \<exists>t cid f. ss_ph s t = DRun cid h req f \<and> ss_ph s' t = DReturned cid h ret rep}"

primrec req_sent :: "clevent \<Rightarrow> byte list set" where
  "req_sent (C_Begin t x xr) = {}"
| "req_sent (C_Refused t r) = {}"
| "req_sent (C_Send out) = snd ` set out"
| "req_sent (C_Pdu x r) = {}"
| "req_sent (C_Return t x r) = {}"
| "req_sent C_Cancel = {}"
| "req_sent C_Tau = {}"

primrec rep_sent :: "(nat \<Rightarrow> u32) \<Rightarrow> sevent \<Rightarrow> u32 \<Rightarrow> byte list set" where
  "rep_sent peer (S_Window e) c = {}"
| "rep_sent peer (S_Exec d x) c = {}"
| "rep_sent peer (S_Send cid bs) c = (if peer cid = c then {bs} else {})"
| "rep_sent peer (S_Reachable r) c = {}"
| "rep_sent peer S_Tau c = {}"

text \<open>
  A call begins with the arguments marshalled by its stub; a reply is delivered; any other step of a client; a step of the server.
\<close>

inductive net_step :: "'o net \<Rightarrow> nevent \<Rightarrow> 'o net \<Rightarrow> bool" where
  calls: "cy_ph (nw_cl n c) t = CIdle \<Longrightarrow> m_wf req \<Longrightarrow>
     call1_begin mem junk t proc req (cy_cl (nw_cl n c)) = Inr (Begun req' xr s') \<Longrightarrow> x = cl_xid (cy_cl (nw_cl n c)) \<Longrightarrow>
     net_step n (N_Client c (C_Begin t x xr))
       (n\<lparr>nw_cl := (nw_cl n)(c := \<lparr>cy_cl = s', cy_ph = (cy_ph (nw_cl n c))(t := CCalling x req' xr None)\<rparr>),
          nw_issued := (nw_issued n)(c := (nw_issued n c)(x \<mapsto> m_bytes req'))\<rparr>)"
| delivers: "m \<in> nw_rep n c \<Longrightarrow> int (length m) \<le> MAX_PDU \<Longrightarrow>
     unpack_reply_header (unmarshall_new (Some (wire m)) (length m)) = Inr (rep, h) \<Longrightarrow>
     rpcc_got_pdu (wire m) (length m) (cy_cl (nw_cl n c)) = Inr s' \<Longrightarrow>
     net_step n (N_Client c (if u_ok rep then C_Pdu (rp_xid h) (rp_ret h) else C_Tau))
       (n\<lparr>nw_cl := (nw_cl n)(c := \<lparr>cy_cl = s', cy_ph = cy_ph (nw_cl n c)\<rparr>)\<rparr>)"
| client: "cl_step (nw_cl n c) e k \<Longrightarrow> (\<And>t x xr. e \<noteq> C_Begin t x xr) \<Longrightarrow> (\<And>x r. e \<noteq> C_Pdu x r) \<Longrightarrow>
     net_step n (N_Client c e) (n\<lparr>nw_cl := (nw_cl n)(c := k), nw_req := (nw_req n)(c := nw_req n c \<union> req_sent e)\<rparr>)"
| server: "srv_step (nw_srv n) e s' \<Longrightarrow> sent_before n s' \<Longrightarrow>
     (\<And>cid. sv_store (ss_srv (nw_srv n)) cid \<noteq> None \<Longrightarrow> peer cid = nw_peer n cid) \<Longrightarrow>
     net_step n (N_Server e) (n\<lparr>nw_srv := s', nw_peer := peer, nw_rep := (\<lambda>c. nw_rep n c \<union> rep_sent peer e c),
       nw_log := nw_log n \<union> returned (nw_srv n) s'\<rparr>)"

text \<open>All clients are new and the server has started; \<open>junk\<close> is what is in uninitialised variables.\<close>

definition net_start :: "'o rpcs \<Rightarrow> int \<Rightarrow> i32 \<Rightarrow> 'o net" where
  "net_start v lossy junk =
     \<lparr>nw_cl = (\<lambda>c. \<lparr>cy_cl = rpcc_new (c \<noteq> 0) c lossy junk, cy_ph = (\<lambda>_. CIdle)\<rparr>), nw_srv = srv_start v, nw_peer = (\<lambda>_. 0),
      nw_req = (\<lambda>_. {}), nw_rep = (\<lambda>_. {}), nw_issued = (\<lambda>_ _. None), nw_log = {}\<rparr>"

inductive net_run :: "'o rpcs \<Rightarrow> int \<Rightarrow> i32 \<Rightarrow> nevent list \<Rightarrow> 'o net \<Rightarrow> bool" for v lossy junk where
  net_begin: "net_run v lossy junk [] (net_start v lossy junk)"
| net_more: "net_run v lossy junk es n \<Longrightarrow> net_step n e n' \<Longrightarrow> net_run v lossy junk (es @ [e]) n'"

inductive_cases net_stepE: "net_step n e n'"

text \<open>
  A step of the server without a race: the blocks that dispatch threads are about to send from stay what they are, and no
  thread takes a deleted job.
\<close>

definition undisturbed :: "'o srvsys \<Rightarrow> 'o srvsys \<Rightarrow> bool" where
  "undisturbed s s' \<longleftrightarrow> (\<forall>t a. refers (ss_ph s t) = Some a \<longrightarrow> heap_of s' a = heap_of s a) \<and> (\<forall>t. ss_ph s' t \<noteq> DDeleted)"

inductive race_free :: "'o rpcs \<Rightarrow> int \<Rightarrow> i32 \<Rightarrow> nevent list \<Rightarrow> 'o net \<Rightarrow> bool" for v lossy junk where
  race_free_begin: "race_free v lossy junk [] (net_start v lossy junk)"
| race_free_more: "race_free v lossy junk es n \<Longrightarrow> net_step n e n' \<Longrightarrow> undisturbed (nw_srv n) (nw_srv n') \<Longrightarrow>
     race_free v lossy junk (es @ [e]) n'"

lemma race_free_net_run: "race_free v lossy junk es n \<Longrightarrow> net_run v lossy junk es n"
  by (induction rule: race_free.induct) (auto intro: net_begin net_more)

lemma race_free_rest: "race_free v lossy junk es n \<Longrightarrow> undisturbed (nw_srv n) (nw_srv n)"
  by (cases rule: race_free.cases) (auto simp: undisturbed_def net_start_def srv_start_def)

lemma race_free_client:
  assumes "race_free v lossy junk es n" "net_step n e n'" "nw_srv n' = nw_srv n"
  shows "race_free v lossy junk (es @ [e]) n'"
  using race_free_more [OF assms(1,2)] race_free_rest [OF assms(1)] assms(3) by simp

lemma undisturbed_quiet:
  "(\<forall>t. refers (ss_ph s t) = None) \<or> heap_of s' = heap_of s \<Longrightarrow> (\<forall>t. ss_ph s' t \<noteq> DDeleted) \<Longrightarrow> undisturbed s s'"
  by (auto simp: undisturbed_def)

section \<open>The runs of the parts\<close>

definition cl_events :: "u32 \<Rightarrow> nevent list \<Rightarrow> clevent list" where
  "cl_events c es = concat (map (\<lambda>e. case e of N_Client d e \<Rightarrow> if d = c then [e] else [] | N_Server e \<Rightarrow> []) es)"

definition srv_events :: "nevent list \<Rightarrow> sevent list" where
  "srv_events es = concat (map (\<lambda>e. case e of N_Client d e \<Rightarrow> [] | N_Server e \<Rightarrow> [e]) es)"

lemma events_snoc [simp]:
  "cl_events c (es @ [N_Client d e]) = cl_events c es @ (if d = c then [e] else [])"
  "cl_events c (es @ [N_Server e']) = cl_events c es"
  "srv_events (es @ [N_Client d e]) = srv_events es" "srv_events (es @ [N_Server e']) = srv_events es @ [e']"
  "cl_events c [] = []" "srv_events [] = []"
  by (simp_all add: cl_events_def srv_events_def)

lemma clsys_eta [simp]: "\<lparr>cy_cl = cy_cl k, cy_ph = cy_ph k\<rparr> = k"
  by simp

text \<open>A step of the network is a step of one client or of the server.\<close>

lemma net_step_client:
  assumes "net_step n (N_Client c e) n'"
  obtains k where "cl_step (nw_cl n c) e k" "nw_cl n' = (nw_cl n)(c := k)" "nw_srv n' = nw_srv n" "nw_peer n' = nw_peer n"
    "nw_rep n' = nw_rep n" "nw_log n' = nw_log n"
  using assms
proof cases
  case (calls t req mem junk proc req' xr s' x)
  show thesis
  proof (rule that)
    show "cl_step (nw_cl n c) e \<lparr>cy_cl = s', cy_ph = (cy_ph (nw_cl n c))(t := CCalling x req' xr None)\<rparr>"
      using cl_step.begins [of "cy_ph (nw_cl n c)" t mem junk proc req "cy_cl (nw_cl n c)" req' xr s'] calls by simp
  qed (use calls in simp_all)
next
  case (delivers m rep h s')
  show thesis
  proof (rule that)
    show "cl_step (nw_cl n c) e \<lparr>cy_cl = s', cy_ph = cy_ph (nw_cl n c)\<rparr>"
      using cl_step.pdu [OF delivers(5,6), of "cy_ph (nw_cl n c)"] delivers(1) by simp
  qed (use delivers in simp_all)
next
  case (client k)
  show thesis by (rule that [of k]) (use client in simp_all)
qed

lemma net_run_cl: "net_run v lossy junk es n \<Longrightarrow> cl_run (rpcc_new (c \<noteq> 0) c lossy junk) (cl_events c es) (nw_cl n c)"
proof (induction rule: net_run.induct)
  case net_begin
  show ?case using cl_start by (simp add: net_start_def)
next
  case (net_more es n e n')
  show ?case
  proof (cases e)
    case (N_Client d e')
    then obtain k where "cl_step (nw_cl n d) e' k" "nw_cl n' = (nw_cl n)(d := k)"
      using net_step_client net_more.hyps(2) by metis
    then show ?thesis using net_more.IH N_Client cl_more by auto
  next
    case (N_Server e')
    then have "nw_cl n' = nw_cl n" using net_more.hyps(2) by (auto elim: net_stepE)
    then show ?thesis using net_more.IH N_Server by simp
  qed
qed

lemma net_run_srv: "net_run v lossy junk es n \<Longrightarrow> srv_run v (srv_events es) (nw_srv n)"
proof (induction rule: net_run.induct)
  case net_begin
  show ?case using srv_begin by (simp add: net_start_def)
next
  case (net_more es n e n')
  from net_more.hyps(2) show ?case
    by (cases rule: net_step.cases) (use net_more.IH srv_more in fastforce)+
qed

section \<open>What has happened so far\<close>

text \<open>The requests made, the runs of handlers, and the calls of each client that are over; all three only grow.\<close>

record hist =
  hs_issued :: "u32 \<Rightarrow> u32 \<Rightarrow> byte list option"
  hs_log :: "hrun set"
  hs_over :: "u32 \<Rightarrow> u32 set"

definition hist_of :: "nevent list \<Rightarrow> 'o net \<Rightarrow> hist" where
  "hist_of es n = \<lparr>hs_issued = nw_issued n, hs_log = nw_log n, hs_over = (\<lambda>c. reported (cl_events c es))\<rparr>"

definition hist_le :: "hist \<Rightarrow> hist \<Rightarrow> bool" where
  "hist_le H H' \<longleftrightarrow> (\<forall>c x m. hs_issued H c x = Some m \<longrightarrow> hs_issued H' c x = Some m) \<and> hs_log H \<subseteq> hs_log H'
     \<and> (\<forall>c. hs_over H c \<subseteq> hs_over H' c)"

lemma hist_leD:
  assumes "hist_le H H'"
  shows "hs_issued H c x = Some m \<Longrightarrow> hs_issued H' c x = Some m" "r \<in> hs_log H \<Longrightarrow> r \<in> hs_log H'" "y \<in> hs_over H c \<Longrightarrow> y \<in> hs_over H' c"
  using assms unfolding hist_le_def by blast+

lemma hist_le_refl [simp]: "hist_le H H"
  by (simp add: hist_le_def)

text \<open>
  \<open>asked\<close>: a request of client \<open>c\<close> that the server has read, and the handler for it.  \<open>answers\<close>: a message that is a reply for \<open>c\<close>, to a request it made;
  it reports an old server, or the loss of the reply of a call that is over, or it carries what a run of the handler returned.
\<close>

definition acked :: "hist \<Rightarrow> u32 \<Rightarrow> u32 \<Rightarrow> bool" where
  "acked H c xr \<longleftrightarrow> (\<forall>y. 0 < y \<and> y \<le> xr \<longrightarrow> y \<in> hs_over H c)"

definition request_of :: "hist \<Rightarrow> u32 \<Rightarrow> req_header \<Rightarrow> byte list \<Rightarrow> bool" where
  "request_of H c h args \<longleftrightarrow> rq_clt_nonce h = c \<and> rq_xid h \<noteq> 0 \<and> acked H c (rq_xid_rep h)
     \<and> (\<exists>m. hs_issued H c (rq_xid h) = Some m \<and> req_msg h args m)"

definition asked :: "hist \<Rightarrow> (i32 \<rightharpoonup> 'o handler) \<Rightarrow> u32 \<Rightarrow> req_header \<Rightarrow> unmarshall \<Rightarrow> 'o handler \<Rightarrow> bool" where
  "asked H procs c h req f \<longleftrightarrow> procs (rq_proc h) = Some f \<and> (\<exists>args. request_of H c h args \<and> u_at req args)"

definition result_of :: "hist \<Rightarrow> u32 \<Rightarrow> u32 \<Rightarrow> i32 \<Rightarrow> byte list \<Rightarrow> bool" where
  "result_of H c x ret body \<longleftrightarrow> 0 \<le> sint ret \<and> (\<exists>h req rep. (h, req, ret, rep) \<in> hs_log H \<and> rq_clt_nonce h = c \<and> rq_xid h = x \<and> body = m_body rep)"

definition answers :: "hist \<Rightarrow> u32 \<Rightarrow> byte list \<Rightarrow> bool" where
  "answers H c bs \<longleftrightarrow> (\<exists>x ret body. reply_msg \<lparr>rp_xid = x, rp_ret = ret\<rparr> body bs \<and> hs_issued H c x \<noteq> None
     \<and> (ret = oldsrv_failure \<or> ret = atmostonce_failure \<and> x \<in> hs_over H c \<or> result_of H c x ret body))"

lemma acked_mono: "hist_le H H' \<Longrightarrow> acked H c xr \<Longrightarrow> acked H' c xr"
  unfolding acked_def by (blast dest: hist_leD)

lemma request_of_mono: "hist_le H H' \<Longrightarrow> request_of H c h args \<Longrightarrow> request_of H' c h args"
  unfolding request_of_def by (blast dest: hist_leD intro: acked_mono)

lemma asked_mono: "hist_le H H' \<Longrightarrow> asked H procs c h req f \<Longrightarrow> asked H' procs c h req f"
  unfolding asked_def by (blast intro: request_of_mono)

lemma result_of_mono: "hist_le H H' \<Longrightarrow> result_of H c x ret body \<Longrightarrow> result_of H' c x ret body"
  unfolding result_of_def by (blast dest: hist_leD)

lemma answers_mono:
  assumes "hist_le H H'" "answers H c bs"
  shows "answers H' c bs"
proof -
  obtain x ret body where "reply_msg \<lparr>rp_xid = x, rp_ret = ret\<rparr> body bs" "hs_issued H c x \<noteq> None"
    "ret = oldsrv_failure \<or> ret = atmostonce_failure \<and> x \<in> hs_over H c \<or> result_of H c x ret body"
    using assms(2) unfolding answers_def by blast
  then show ?thesis unfolding answers_def using hist_leD [OF assms(1)] result_of_mono [OF assms(1)] by blast
qed

section \<open>The server's side\<close>

definition src_fine :: "hist \<Rightarrow> heap \<Rightarrow> u32 \<Rightarrow> src \<Rightarrow> bool" where
  "src_fine H hp c b \<longleftrightarrow> (case b of Local bs \<Rightarrow> answers H c bs | Block a sz \<Rightarrow> \<forall>bs. hp a = Some bs \<longrightarrow> answers H c (take sz bs))"

primrec phase_fine :: "hist \<Rightarrow> (i32 \<rightharpoonup> 'o handler) \<Rightarrow> heap \<Rightarrow> (nat \<Rightarrow> u32) \<Rightarrow> 'o dphase \<Rightarrow> bool" where
  "phase_fine H procs hp peer DIdle \<longleftrightarrow> True"
| "phase_fine H procs hp peer (DArrived cid buf sz) \<longleftrightarrow>
     (\<exists>h args m. request_of H (peer cid) h args \<and> req_msg h args m \<and> int (length m) \<le> MAX_PDU \<and> buf = wire m \<and> sz = length m)"
| "phase_fine H procs hp peer (DFound cid h req f) \<longleftrightarrow> asked H procs (peer cid) h req f"
| "phase_fine H procs hp peer (DCreated cid h req f) \<longleftrightarrow> asked H procs (peer cid) h req f"
| "phase_fine H procs hp peer (DSaved cid h req f) \<longleftrightarrow> asked H procs (peer cid) h req f"
| "phase_fine H procs hp peer (DRun cid h req f) \<longleftrightarrow> asked H procs (peer cid) h req f"
| "phase_fine H procs hp peer (DReturned cid h ret rep) \<longleftrightarrow>
     m_wf rep \<and> (\<exists>req f. asked H procs (peer cid) h req f \<and> (h, req, ret, rep) \<in> hs_log H)"
| "phase_fine H procs hp peer (DRecorded cid clt b) \<longleftrightarrow> clt = peer cid \<and> src_fine H hp (peer cid) b"
| "phase_fine H procs hp peer (DSend cid b) \<longleftrightarrow> src_fine H hp (peer cid) b"
| "phase_fine H procs hp peer (DEnd cid) \<longleftrightarrow> True"
| "phase_fine H procs hp peer DDeleted \<longleftrightarrow> True"

lemma src_fine_mono: "hist_le H H' \<Longrightarrow> src_fine H hp c b \<Longrightarrow> src_fine H' hp c b"
  by (auto simp: src_fine_def intro: answers_mono split: src.splits)

lemma phase_fine_mono: "hist_le H H' \<Longrightarrow> phase_fine H procs hp peer p \<Longrightarrow> phase_fine H' procs hp peer p"
  by (cases p) (auto intro: asked_mono src_fine_mono request_of_mono dest: hist_leD(2))

lemma phase_fine_heap:
  assumes "phase_fine H procs hp peer p" "\<And>a. refers p = Some a \<Longrightarrow> hp' a = hp a \<or> hp' a = None"
  shows "phase_fine H procs hp' peer p"
proof -
  have "src_fine H hp c b \<Longrightarrow> refers p = src_block b \<Longrightarrow> src_fine H hp' c b" for c b
    using assms(2) by (cases b) (force simp: src_fine_def)+
  then show ?thesis using assms(1) by (cases p) auto
qed

lemma phase_fine_peer:
  assumes "phase_fine H procs hp peer p" "\<And>cid. holds p = Some cid \<Longrightarrow> peer' cid = peer cid"
  shows "phase_fine H procs hp peer' p"
  using assms by (cases p) simp_all

text \<open>
  The invariant of the server: the latest connection of a client leads to it, every thread is where its request and its
  history put it, every reply recorded is an answer, and what the window has forgotten is over.
\<close>

definition srv_fine :: "hist \<Rightarrow> (i32 \<rightharpoonup> 'o handler) \<Rightarrow> (nat \<Rightarrow> u32) \<Rightarrow> sevent list \<Rightarrow> 'o srvsys \<Rightarrow> bool" where
  "srv_fine H procs peer es s \<longleftrightarrow> sv_procs (ss_srv s) = procs
     \<and> (\<forall>c cid. sv_conns (ss_srv s) c = Some cid \<longrightarrow> peer cid = c)
     \<and> (\<forall>t. phase_fine H procs (heap_of s) peer (ss_ph s t))
     \<and> (\<forall>c x bs. S_Window (Replied c x bs) \<in> set es \<longrightarrow> answers H c bs)
     \<and> (\<forall>c lb. reply_lower_bound (sv_win (ss_srv s)) c = Some lb \<longrightarrow> acked H c lb)"

lemma srv_fineD:
  assumes "srv_fine H procs peer es s"
  shows "sv_procs (ss_srv s) = procs" "\<And>c cid. sv_conns (ss_srv s) c = Some cid \<Longrightarrow> peer cid = c"
    "\<And>t. phase_fine H procs (heap_of s) peer (ss_ph s t)" "\<And>c x bs. S_Window (Replied c x bs) \<in> set es \<Longrightarrow> answers H c bs"
    "\<And>c lb. reply_lower_bound (sv_win (ss_srv s)) c = Some lb \<Longrightarrow> acked H c lb"
  using assms unfolding srv_fine_def by blast+

lemma srv_fine_mono: "hist_le H H' \<Longrightarrow> srv_fine H procs peer es s \<Longrightarrow> srv_fine H' procs peer es s"
  unfolding srv_fine_def by (blast intro: phase_fine_mono answers_mono acked_mono)

text \<open>Connections that are held exist, so what becomes of other addresses does not matter.\<close>

lemma held_exists:
  assumes "refs_ok s"
  shows "holds (ss_ph s t) = Some cid \<Longrightarrow> sv_store (ss_srv s) cid \<noteq> None" "sv_conns (ss_srv s) c = Some cid \<Longrightarrow> sv_store (ss_srv s) cid \<noteq> None"
  using countedD(2) [OF assms [unfolded refs_ok_def], of "By_Thread t" cid] countedD(2) [OF assms [unfolded refs_ok_def], of "By_Client c" cid]
  by auto

lemma srv_fine_peer:
  assumes "srv_fine H procs peer es s" "refs_ok s" "\<And>cid. sv_store (ss_srv s) cid \<noteq> None \<Longrightarrow> peer' cid = peer cid"
  shows "srv_fine H procs peer' es s"
  unfolding srv_fine_def
proof (intro conjI allI impI)
  note D = srv_fineD [OF assms(1)]
  show "phase_fine H procs (heap_of s) peer' (ss_ph s t)" for t
    using phase_fine_peer [OF D(3)] assms(3) held_exists(1) [OF assms(2)] by blast
  show "peer' cid = c" if "sv_conns (ss_srv s) c = Some cid" for c cid
    using that D(2) held_exists(2) [OF assms(2)] assms(3) by metis
qed (use srv_fineD [OF assms(1)] in blast)+

lemma dispatch_begin_fine:
  assumes "phase_fine H procs hp peer (DArrived cid buf sz)" "dispatch_begin mem buf sz v = Inr arr" "sv_procs v = procs"
  shows "case arr of Bad_Header \<Rightarrow> True | Old_Server bs \<Rightarrow> answers H (peer cid) bs | Request h req f \<Rightarrow> asked H procs (peer cid) h req f"
proof -
  obtain h args m where m: "request_of H (peer cid) h args" "req_msg h args m" "int (length m) \<le> MAX_PDU" "buf = wire m" "sz = length m"
    using assms(1) by auto
  have len: "length (wire m) = length m" "length m < 2 ^ 31" using m(2,3) by (simp_all add: req_msg_def length_wire MAX_PDU_def)
  obtain u where u: "unpack_req_header (unmarshall_new (Some buf) sz) = Inr (u, h)" "u_at u args"
    using req_msg_unpack [OF wire_req [OF m(2)], of "[]"] len m(4,5) by auto
  obtain bs where bs: "failure_reply mem (rq_xid h) oldsrv_failure = Inr bs" "reply_msg \<lparr>rp_xid = rq_xid h, rp_ret = oldsrv_failure\<rparr> [] bs"
    by (rule failure_reply_msg)
  have "answers H (peer cid) bs" using bs(2) m(1) unfolding answers_def request_of_def by blast
  moreover have "asked H procs (peer cid) h u f" if "procs (rq_proc h) = Some f" for f
    using that m(1) u(2) by (auto simp: asked_def)
  ultimately show ?thesis using assms(2,3) u bs(1) by (auto simp: dispatch_begin_def split: if_splits option.splits)
qed

text \<open>The verdict of the window: a recorded reply is the answer, and a forgotten request is over.\<close>

lemma acked_max: "acked H c x \<Longrightarrow> acked H c y \<Longrightarrow> acked H c (max x y)"
  by (auto simp: acked_def max_def)

lemma bound_after_acked:
  assumes "\<And>lb. reply_lower_bound w c = Some lb \<Longrightarrow> acked H c lb" "acked H c xr"
  shows "acked H c (bound_after w c xr)"
  using assms by (auto simp: bound_after_def acked_max split: option.splits)

lemma after_check_fine:
  assumes run: "srv_run v es s" and fine: "srv_fine H procs peer es s"
    and step: "rw_step (srv_window s) (Checked (rq_clt_nonce h) (rq_xid h) (rq_xid_rep h) stat out) (srv_window s')"
    and ask: "asked H procs (peer cid) h req f" and after: "after_check mem stat out cid h req f = Inr p"
  shows "phase_fine H procs (heap_of s') peer p" "acked H (peer cid) (bound_after (sv_win (ss_srv s)) (peer cid) (rq_xid_rep h))"
proof -
  note D = srv_fineD [OF fine]
  let ?c = "peer cid" and ?w = "sv_win (ss_srv s)"
  have q: "rq_clt_nonce h = ?c" "rq_xid h \<noteq> 0" "acked H ?c (rq_xid_rep h)" "hs_issued H ?c (rq_xid h) \<noteq> None"
    using ask by (auto simp: asked_def request_of_def)
  show bound: "acked H ?c (bound_after ?w ?c (rq_xid_rep h))" using D(5) q(3) by (rule bound_after_acked)
  have verdict: "stat = verdict ?c (rq_xid h) (rq_xid_rep h) ?w"
    using win_inv_ok [OF srv_run_inv [OF run]] step q(1) by (cases rule: rw_step_cases) (auto simp: srv_window_def)
  show "phase_fine H procs (heap_of s') peer p"
  proof (cases stat)
    case NEW
    then show ?thesis using after ask by (auto simp: after_check_def)
  next
    case INPROGRESS
    then show ?thesis using after by (auto simp: after_check_def)
  next
    case DONE
    obtain a bs where a: "out = Some (Some a, length bs)" "rw_heap (rs_win (srv_window s')) a = Some bs"
      "Replied ?c (rq_xid h) bs \<in> set (concat (map window_event es))"
      using done_recorded [OF srv_run_window [OF run] step [unfolded DONE q(1)]] by blast
    obtain e where e: "e \<in> set es" "Replied ?c (rq_xid h) bs \<in> set (window_event e)" using a(3) by auto
    have "e = S_Window (Replied ?c (rq_xid h) bs)" by (cases e; use e(2) in simp)
    then have ans: "answers H ?c bs" using e(1) D(4) by blast
    have p: "p = DSend cid (Block a (length bs))" using DONE after a(1) by (simp add: after_check_def done_src_def)
    show ?thesis using ans a(2) by (simp add: p src_fine_def srv_window_def)
  next
    case FORGOTTEN
    obtain bs where bs: "failure_reply mem (rq_xid h) atmostonce_failure = Inr bs" "reply_msg \<lparr>rp_xid = rq_xid h, rp_ret = atmostonce_failure\<rparr> [] bs"
      by (rule failure_reply_msg)
    have "rq_xid h \<le> bound_after ?w ?c (rq_xid_rep h)" using verdict FORGOTTEN by (auto simp: verdict_def split: if_splits)
    then have "rq_xid h \<in> hs_over H ?c" using bound q(2) unfolding acked_def by (simp add: word_neq_0_conv)
    then have "answers H ?c bs" using bs(2) q(4) unfolding answers_def by blast
    then show ?thesis using FORGOTTEN after bs(1) by (auto simp: after_check_def src_fine_def)
  qed
qed

lemma finish_reply_answers:
  assumes "phase_fine H procs hp peer (DReturned cid h ret rep)" "finish_reply mem (rq_xid h) ret rep = Inr bs"
  shows "answers H (peer cid) bs" "rq_clt_nonce h = peer cid"
proof -
  obtain req f where r: "m_wf rep" "asked H procs (peer cid) h req f" "(h, req, ret, rep) \<in> hs_log H" using assms(1) by auto
  have ret: "0 \<le> sint ret" using assms(2) by (auto simp: finish_reply_def VERIFY_def bind_r_eq_Inr split: if_splits)
  have "reply_msg \<lparr>rp_xid = rq_xid h, rp_ret = ret\<rparr> (m_body rep) bs"
    using finish_reply_msg [OF r(1) ret, of mem "rq_xid h"] assms(2) by fastforce
  moreover have "result_of H (peer cid) (rq_xid h) ret (m_body rep)" "hs_issued H (peer cid) (rq_xid h) \<noteq> None"
    using ret r(2,3) unfolding result_of_def by (auto simp: asked_def request_of_def)
  ultimately show "answers H (peer cid) bs" unfolding answers_def by blast
  show "rq_clt_nonce h = peer cid" using r(2) by (simp add: asked_def request_of_def)
qed

text \<open>The phase that a step changes.\<close>

definition arrivals_fine :: "hist \<Rightarrow> (nat \<Rightarrow> u32) \<Rightarrow> 'o srvsys \<Rightarrow> 'o srvsys \<Rightarrow> bool" where
  "arrivals_fine H peer s s' \<longleftrightarrow> (\<forall>t cid b sz. ss_ph s' t = DArrived cid b sz \<longrightarrow> ss_ph s t = DArrived cid b sz
     \<or> phase_fine H Map.empty Map.empty peer (DArrived cid b sz :: 'o dphase))"

lemma srv_step_phase_fine:
  assumes run: "srv_run v es s" and fine: "srv_fine H procs peer es s" and step: "srv_step s e s'"
    and arr: "arrivals_fine H peer s s'" and log: "returned s s' \<subseteq> hs_log H"
    and good: "\<And>k f. procs k = Some f \<Longrightarrow> good_handler f"
  shows "ss_ph s' u = ss_ph s u \<or> phase_fine H procs (heap_of s') peer (ss_ph s' u)"
proof -
  note D = srv_fineD [OF fine]
  have at: "phase_fine H procs (heap_of s) peer p" if "ss_ph s t = p" for t p using D(3) [of t] that by simp
  show ?thesis
    using step
  proof cases
    case (arrive ph t cid buf sz v v' j L)
    then have "ss_ph s' t = DArrived (dj_conn j) (dj_buf j) (dj_sz j)" "ss_ph s t = DIdle" by simp_all
    then have "phase_fine H Map.empty Map.empty peer (ss_ph s' t)" using arr unfolding arrivals_fine_def by (metis dphase.distinct(1))
    then show ?thesis using arrive by (cases "u = t") simp_all
  next
    case (found ph t cid buf sz mem v h req f L)
    then show ?thesis using at [of t] dispatch_begin_fine [of H procs "heap_of s" peer cid buf sz mem v] D(1) by (cases "u = t") auto
  next
    case (creating ph t cid h req f v L)
    then show ?thesis using at [of t] by (cases "u = t") auto
  next
    case (saving ph t cid h req f v v' L)
    then show ?thesis using at [of t] by (cases "u = t") auto
  next
    case (checked ph t cid h req f v w stat out mem p L)
    have "rw_step (srv_window s) (Checked (rq_clt_nonce h) (rq_xid h) (rq_xid_rep h) stat out) (srv_window s')"
      using srv_step_window [OF srv_run_inv [OF run] step] checked(2) by simp
    from after_check_fine(1) [OF run fine this _ checked(6)] show ?thesis using at [of t] checked(1,3,4) by (cases "u = t") auto
  next
    case (running ph t cid h req f mem v ret rep v' L)
    have ask: "asked H procs (peer cid) h req f" using at [of t] running by auto
    have "ss_ph s t = DRun cid h req f" "ss_ph s' t = DReturned cid h ret rep" using running by simp_all
    then have "(h, req, ret, rep) \<in> hs_log H" using log unfolding returned_def by blast
    moreover have "m_wf rep"
      using good_handlerD [OF good, of "rq_proc h" f] ask running(5) by (auto simp: execute_def asked_def bind_r_eq_Inr)
    ultimately show ?thesis using ask running by (cases "u = t") auto
  next
    case (recording ph t cid h ret rep v a mem bs v' L)
    have "phase_fine H procs (heap_of s) peer (DReturned cid h ret rep)" using at [of t] recording by simp
    note ans = finish_reply_answers [OF this recording(6)]
    have "src_fine H (heap_of s') (peer cid) (reply_src (rq_clt_nonce h) a bs)"
    proof (cases "rq_clt_nonce h > 0")
      case True
      then have "heap_of s' a = Some bs" using recording
        by (auto simp: record_reply_def bind_r_eq_Inr add_reply_def Let_def split: option.splits)
      then show ?thesis using ans True by (simp add: src_fine_def reply_src_def)
    qed (use ans in \<open>simp add: src_fine_def reply_src_def\<close>)
    then show ?thesis using recording ans by (cases "u = t") auto
  next
    case (choosing ph t cid clt b v d v' L)
    have b: "clt = peer cid" "src_fine H (heap_of s) (peer cid) b" using at [of t] choosing by auto
    have "peer d = peer cid"
      using choosing(5) D(2) [of clt d] b(1) choosing(1)
      by (auto simp: latest_conn_def bind_r_eq_Inr get_conn_def unref_conn_def ref_conn_def split: if_splits option.splits)
    then show ?thesis using b choosing latest_conn_win [OF choosing(5)] by (cases "u = t") auto
  qed auto
qed

lemma save_conn_conns: "save_conn clt cid v = Inr v' \<Longrightarrow> sv_conns v' = sv_conns v \<or> sv_conns v' = (sv_conns v)(clt \<mapsto> cid)"
  by (auto simp: save_conn_def ref_conn_def unref_conn_def bind_r_eq_Inr split: option.splits if_splits)

definition same_tables :: "'o rpcs \<Rightarrow> 'o rpcs \<Rightarrow> bool" where
  "same_tables v v' \<longleftrightarrow> sv_procs v' = sv_procs v \<and> sv_conns v' = sv_conns v"

lemma same_tables_refl [simp]: "same_tables v v" "same_tables v (v\<lparr>sv_win := w\<rparr>)" "same_tables v (v\<lparr>sv_store := st\<rparr>)"
  "same_tables v (rpcs_set_reachable r v') = same_tables v v'"
  by (simp_all add: same_tables_def)

lemma conn_ops_tables: "ref_conn cid v = Inr v' \<Longrightarrow> same_tables v v'" "unref_conn cid v = Inr v' \<Longrightarrow> same_tables v v'"
  by (auto simp: ref_conn_def unref_conn_def bind_r_eq_Inr same_tables_def)

lemma got_pdu_tables: "rpcs_got_pdu a b cid buf sz v = Inr (r, v', q) \<Longrightarrow> same_tables v v'"
  by (auto simp: rpcs_got_pdu_def ref_conn_def unref_conn_def bind_r_eq_Inr same_tables_def split: if_splits)

lemma latest_conn_tables: "latest_conn clt cid v = Inr (d, v') \<Longrightarrow> same_tables v v'"
  by (auto simp: latest_conn_def ref_conn_def unref_conn_def bind_r_eq_Inr same_tables_def split: if_splits option.splits)

lemma execute_tables: "execute mem proc req f v = Inr (ret, rep, v') \<Longrightarrow> same_tables v v'"
  by (auto simp: execute_def updatestat_def Let_def bind_r_eq_Inr same_tables_def split: if_splits)

lemma record_reply_tables: "record_reply clt x a bs v = Inr v' \<Longrightarrow> same_tables v v'"
  by (auto simp: record_reply_def bind_r_eq_Inr same_tables_def split: if_splits)

lemma save_conn_procs: "save_conn clt cid v = Inr v' \<Longrightarrow> sv_procs v' = sv_procs v"
  by (auto simp: save_conn_def ref_conn_def unref_conn_def bind_r_eq_Inr split: option.splits if_splits)

lemmas tables = conn_ops_tables got_pdu_tables latest_conn_tables execute_tables record_reply_tables

lemma srv_step_fields:
  assumes "srv_step s e s'"
  shows "same_tables (ss_srv s) (ss_srv s')
    \<or> (\<exists>t cid h req f. ss_ph s t = DCreated cid h req f \<and> sv_procs (ss_srv s') = sv_procs (ss_srv s)
        \<and> sv_conns (ss_srv s') = (sv_conns (ss_srv s))(rq_clt_nonce h \<mapsto> cid))"
  using assms
proof cases
  case (saving ph t cid h req f v v' L)
  have "ss_ph s t = DCreated cid h req f" using saving by simp
  moreover have "sv_conns (ss_srv s') = sv_conns (ss_srv s) \<or> sv_conns (ss_srv s') = (sv_conns (ss_srv s))(rq_clt_nonce h \<mapsto> cid)"
    "sv_procs (ss_srv s') = sv_procs (ss_srv s)" using save_conn_conns [OF saving(5)] save_conn_procs [OF saving(5)] saving by simp_all
  ultimately show ?thesis unfolding same_tables_def by blast
qed (auto dest: tables)

lemma checked_phase:
  assumes "srv_step s (S_Window (Checked c x xr stat out)) s'"
  obtains t cid h req f where "ss_ph s t = DSaved cid h req f" "rq_clt_nonce h = c" "rq_xid_rep h = xr"
  using assms
proof cases
  case (checked ph t cid h req f v w mem p L)
  then show thesis using that [of t cid h req f] by simp
next
  case (recording ph t cid h ret rep v a mem bs v' L)
  then show thesis by (simp split: if_splits)
qed

lemma srv_step_bound:
  assumes run: "srv_run v es s" and fine: "srv_fine H procs peer es s" and step: "srv_step s e s'"
    and lb: "reply_lower_bound (sv_win (ss_srv s')) c = Some lb"
  shows "acked H c lb"
proof -
  note D = srv_fineD [OF fine] and ok = win_inv_ok [OF srv_run_inv [OF run]]
  let ?w = "sv_win (ss_srv s)"
  have "reply_lower_bound (sv_win (ss_srv s')) = reply_lower_bound ?w \<or>
      (\<exists>t cid h req f. ss_ph s t = DSaved cid h req f \<and> reply_lower_bound (sv_win (ss_srv s')) =
         (reply_lower_bound ?w)(rq_clt_nonce h \<mapsto> bound_after ?w (rq_clt_nonce h) (rq_xid_rep h)))"
    using srv_step_window [OF srv_run_inv [OF run] step]
  proof (elim disjE exE conjE)
    fix we assume we: "window_event e = [we]" and rw: "rw_step (srv_window s) we (srv_window s')"
    from ok rw show ?thesis
    proof (cases rule: rw_step_cases)
      case (check c x xr)
      have "e = S_Window (Checked c x xr (verdict c x xr (rs_win (srv_window s))) (found c x xr (rs_win (srv_window s))))"
        using we check(1) by (cases e) simp_all
      then obtain t cid h req f where t: "ss_ph s t = DSaved cid h req f" "rq_clt_nonce h = c" "rq_xid_rep h = xr"
        using step checked_phase by metis
      have "reply_lower_bound (sv_win (ss_srv s')) = (reply_lower_bound ?w)(c \<mapsto> bound_after ?w c xr)"
        using check(2) by (simp add: srv_window_def)
      then show ?thesis unfolding t(2,3) [symmetric] using t(1) by blast
    qed (auto simp: srv_window_def create_window_def split: option.splits)
  qed (simp add: srv_window_def)
  moreover have "acked H c lb" if "ss_ph s t = DSaved cid h req f"
    "reply_lower_bound (sv_win (ss_srv s')) = (reply_lower_bound ?w)(rq_clt_nonce h \<mapsto> bound_after ?w (rq_clt_nonce h) (rq_xid_rep h))"
    for t cid h req f
  proof -
    have ask: "rq_clt_nonce h = peer cid" "acked H (peer cid) (rq_xid_rep h)"
      using D(3) [of t] that(1) by (auto simp: asked_def request_of_def)
    then show ?thesis using lb that(2) D(5) bound_after_acked [of ?w "peer cid" H "rq_xid_rep h"] by (auto split: if_splits)
  qed
  ultimately show ?thesis using lb D(5) by auto
qed

lemma srv_step_replied:
  assumes fine: "srv_fine H procs peer es s" and step: "srv_step s (S_Window (Replied c x bs)) s'"
  shows "answers H c bs"
  using step
proof cases
  case (recording ph t cid h ret rep v a mem bs' v' L)
  have "phase_fine H procs (heap_of s) peer (DReturned cid h ret rep)" using srv_fineD(3) [OF fine, of t] recording by simp
  from finish_reply_answers [OF this recording(6)] show ?thesis using recording(2) by (auto split: if_splits)
qed

lemma srv_fine_step:
  assumes run: "srv_run v es s" and fine: "srv_fine H procs peer es s" and step: "srv_step s e s'" and kept: "undisturbed s s'"
    and arr: "arrivals_fine H peer s s'" and log: "returned s s' \<subseteq> hs_log H"
    and good: "\<And>k f. procs k = Some f \<Longrightarrow> good_handler f"
  shows "srv_fine H procs peer (es @ [e]) s'"
  unfolding srv_fine_def
proof (intro conjI allI impI)
  note D = srv_fineD [OF fine]
  show "sv_procs (ss_srv s') = procs" using srv_step_fields [OF step] D(1) by (auto simp: same_tables_def)
  show "peer cid = c" if "sv_conns (ss_srv s') c = Some cid" for c cid
  proof -
    have "rq_clt_nonce h = peer d" if "ss_ph s t = DCreated d h req f" for t d h req f
      using D(3) [of t] that by (simp add: asked_def request_of_def)
    then show ?thesis using srv_step_fields [OF step] D(2) that by (auto simp: same_tables_def split: if_splits)
  qed
  show "phase_fine H procs (heap_of s') peer (ss_ph s' t)" for t
  proof -
    have "phase_fine H procs (heap_of s') peer (ss_ph s t)"
      by (rule phase_fine_heap [OF D(3)]) (use kept in \<open>simp add: undisturbed_def\<close>)
    moreover have "ss_ph s' t = ss_ph s t \<or> phase_fine H procs (heap_of s') peer (ss_ph s' t)"
      by (rule srv_step_phase_fine [OF run fine step arr log]) (rule good)
    ultimately show ?thesis by auto
  qed
  show "answers H c bs" if "S_Window (Replied c x bs) \<in> set (es @ [e])" for c x bs
    using that D(4) srv_step_replied [OF fine] step by auto
  show "acked H c lb" if "reply_lower_bound (sv_win (ss_srv s')) c = Some lb" for c lb
    using srv_step_bound [OF run fine step that] .
qed

text \<open>What is sent answers the client at the other end, and what is logged is a run of the handler of a request.\<close>

lemma sent_answers:
  assumes fine: "srv_fine H procs peer es s" and step: "srv_step s (S_Send d bs) s'"
  shows "answers H (peer d) bs"
  using step
proof cases
  case (old ph t cid buf sz mem v bs' L)
  have "phase_fine H procs (heap_of s) peer (DArrived cid buf sz)" using srv_fineD(3) [OF fine, of t] old by simp
  from dispatch_begin_fine [OF this old(4)] show ?thesis
    using srv_fineD(1) [OF fine] old by (auto simp: send_on_def src_bytes_def bind_r_eq_Inr)
next
  case (recording ph t cid h ret rep v a mem bs' v' L)
  then show ?thesis by (simp split: if_splits)
next
  case (sending ph t cid b v L)
  have "src_fine H (heap_of s) (peer cid) b" using srv_fineD(3) [OF fine, of t] sending by simp
  then show ?thesis using sending by (auto simp: send_on_def src_bytes_def src_fine_def bind_r_eq_Inr split: src.splits option.splits)
qed

definition ran_once :: "hist \<Rightarrow> (i32 \<rightharpoonup> 'o handler) \<Rightarrow> sevent list \<Rightarrow> hrun \<Rightarrow> bool" where
  "ran_once H procs es r \<longleftrightarrow> (case r of (h, req, ret, rep) \<Rightarrow> S_Exec (rq_clt_nonce h) (rq_xid h) \<in> set es
     \<and> (\<exists>f mem obj obj'. asked H procs (rq_clt_nonce h) h req f \<and> f mem req (marshall_new mem) obj = Inr (ret, rep, obj')))"

lemma returned_ran:
  assumes fine: "srv_fine H procs peer es s" and step: "srv_step s e s'" and r: "r \<in> returned s s'"
  shows "ran_once H procs (es @ [e]) r"
proof -
  obtain t cid h req f ret rep where t: "r = (h, req, ret, rep)" "ss_ph s t = DRun cid h req f" "ss_ph s' t = DReturned cid h ret rep"
    using r unfolding returned_def by blast
  have ask: "asked H procs (peer cid) h req f" using srv_fineD(3) [OF fine, of t] t(2) by simp
  then have c: "peer cid = rq_clt_nonce h" by (simp add: asked_def request_of_def)
  have "e = S_Exec (rq_clt_nonce h) (rq_xid h) \<and> (\<exists>mem obj obj'. f mem req (marshall_new mem) obj = Inr (ret, rep, obj'))"
    using step
  proof cases
    case (running ph u cid' h' req' f' mem v ret' rep' v' L)
    have "u = t" using t(2,3) running by (cases "u = t") auto
    then show ?thesis using t(2,3) running by (auto simp: execute_def bind_r_eq_Inr)
  next
    case (checked ph u cid' h' req' f' v w stat out mem p L)
    then show ?thesis using t(2,3) by (cases "u = t") auto
  qed (use t(2,3) in \<open>auto split: if_splits\<close>)
  then show ?thesis using ask c t(1) by (auto simp: ran_once_def)
qed

section \<open>A client's side\<close>

text \<open>
  The invariant of a client: its xids were given out in order, what it has sent or keeps as a duplicate are its requests, a call
  that is not done is not over, only calls are over, and a call that is done has its answer.
\<close>

definition done_fine :: "hist \<Rightarrow> u32 \<Rightarrow> u32 \<Rightarrow> caller \<Rightarrow> bool" where
  "done_fine H c x ca \<longleftrightarrow> ca_intret ca = cancel_failure \<or> ca_intret ca = oldsrv_failure
     \<or> (\<exists>body. result_of H c x (ca_intret ca) body \<and> u_at (ca_un ca) body)"

definition call_fine :: "hist \<Rightarrow> u32 \<Rightarrow> u32 \<Rightarrow> marshall \<Rightarrow> caller \<Rightarrow> bool" where
  "call_fine H c x req ca \<longleftrightarrow> hs_issued H c x = Some (m_bytes req) \<and> (if ca_done ca then done_fine H c x ca else x \<notin> hs_over H c)"

definition cl_fine :: "hist \<Rightarrow> u32 \<Rightarrow> byte list set \<Rightarrow> clsys \<Rightarrow> bool" where
  "cl_fine H c rq k \<longleftrightarrow> cl_clt_nonce (cy_cl k) = c
     \<and> (\<forall>x m. hs_issued H c x = Some m \<longrightarrow> unat x < unat (cl_xid (cy_cl k)) \<and> (\<exists>h args. request_of H c h args \<and> rq_xid h = x \<and> req_msg h args m))
     \<and> (\<forall>m\<in>rq. \<exists>x. hs_issued H c x = Some m)
     \<and> (isvalid (cl_dup_req (cy_cl k)) \<longrightarrow> (\<exists>x. hs_issued H c x = Some (dr_buf (cl_dup_req (cy_cl k)))))
     \<and> (\<forall>x\<in>hs_over H c. hs_issued H c x \<noteq> None)
     \<and> (\<forall>t x req xr ch. cy_ph k t = CCalling x req xr ch \<longrightarrow> call_fine H c x req (cl_callers (cy_cl k) t))"

lemma cl_fineD:
  assumes "cl_fine H c rq k"
  shows "cl_clt_nonce (cy_cl k) = c" "\<And>x m. hs_issued H c x = Some m \<Longrightarrow> unat x < unat (cl_xid (cy_cl k))"
    "\<And>x m. hs_issued H c x = Some m \<Longrightarrow> \<exists>h args. request_of H c h args \<and> rq_xid h = x \<and> req_msg h args m"
    "\<And>m. m \<in> rq \<Longrightarrow> \<exists>x. hs_issued H c x = Some m"
    "isvalid (cl_dup_req (cy_cl k)) \<Longrightarrow> \<exists>x. hs_issued H c x = Some (dr_buf (cl_dup_req (cy_cl k)))"
    "\<And>x. x \<in> hs_over H c \<Longrightarrow> hs_issued H c x \<noteq> None"
    "\<And>t x req xr ch. cy_ph k t = CCalling x req xr ch \<Longrightarrow> call_fine H c x req (cl_callers (cy_cl k) t)"
  using assms unfolding cl_fine_def by blast+

lemma cl_fineI:
  assumes "cl_clt_nonce (cy_cl k) = c" "\<And>x m. hs_issued H c x = Some m \<Longrightarrow> unat x < unat (cl_xid (cy_cl k))"
    "\<And>x m. hs_issued H c x = Some m \<Longrightarrow> \<exists>h args. request_of H c h args \<and> rq_xid h = x \<and> req_msg h args m"
    "\<And>m. m \<in> rq \<Longrightarrow> \<exists>x. hs_issued H c x = Some m"
    "isvalid (cl_dup_req (cy_cl k)) \<Longrightarrow> \<exists>x. hs_issued H c x = Some (dr_buf (cl_dup_req (cy_cl k)))"
    "\<And>x. x \<in> hs_over H c \<Longrightarrow> hs_issued H c x \<noteq> None"
    "\<And>t x req xr ch. cy_ph k t = CCalling x req xr ch \<Longrightarrow> call_fine H c x req (cl_callers (cy_cl k) t)"
  shows "cl_fine H c rq k"
  unfolding cl_fine_def using assms by blast

text \<open>How the history goes on from the point of view of one client.\<close>

definition hist_next :: "u32 \<Rightarrow> (u32 \<Rightarrow> byte list option) \<Rightarrow> u32 set \<Rightarrow> hist \<Rightarrow> hist \<Rightarrow> bool" where
  "hist_next c iss ov H H' \<longleftrightarrow> hist_le H H' \<and> hs_issued H' c = iss \<and> hs_over H' c = ov"

lemma done_fine_mono: "hist_le H H' \<Longrightarrow> done_fine H c x ca \<Longrightarrow> done_fine H' c x ca"
  unfolding done_fine_def using result_of_mono by blast

lemma call_fine_mono:
  "hist_le H H' \<Longrightarrow> x \<notin> hs_over H' c \<or> ca_done ca \<Longrightarrow> call_fine H c x req ca \<Longrightarrow> call_fine H' c x req ca"
  by (auto simp: call_fine_def dest: hist_leD(1) done_fine_mono split: if_splits)

text \<open>A step after which no further call of the client is over.\<close>

lemma cl_fine_quiet:
  assumes fine: "cl_fine H c rq k" and H': "hist_next c (hs_issued H c) (hs_over H c) H H'"
    and k': "cl_clt_nonce (cy_cl k') = cl_clt_nonce (cy_cl k)" "cl_xid (cy_cl k') = cl_xid (cy_cl k)"
    and dup: "isvalid (cl_dup_req (cy_cl k')) \<Longrightarrow> cl_dup_req (cy_cl k') = cl_dup_req (cy_cl k)"
    and rq: "\<And>m. m \<in> rq' \<Longrightarrow> \<exists>x. hs_issued H c x = Some m"
    and ph: "\<And>t x req xr ch. cy_ph k' t = CCalling x req xr ch \<Longrightarrow>
      (\<exists>ch. cy_ph k t = CCalling x req xr ch) \<and> (call_fine H c x req (cl_callers (cy_cl k) t) \<longrightarrow> call_fine H c x req (cl_callers (cy_cl k') t))"
  shows "cl_fine H' c rq' k'"
proof -
  note D = cl_fineD [OF fine]
  have H: "hist_le H H'" "hs_issued H' c = hs_issued H c" "hs_over H' c = hs_over H c" using H' by (auto simp: hist_next_def)
  show ?thesis
  proof (rule cl_fineI, unfold H(2,3) k')
    show "\<exists>h args. request_of H' c h args \<and> rq_xid h = x \<and> req_msg h args m" if "hs_issued H c x = Some m" for x m
      using D(3) [OF that] request_of_mono [OF H(1)] by blast
    show "call_fine H' c x req (cl_callers (cy_cl k') t)" if p: "cy_ph k' t = CCalling x req xr ch" for t x req xr ch
    proof -
      have "call_fine H c x req (cl_callers (cy_cl k') t)" using ph [OF p] D(7) by blast
      moreover from this have "x \<notin> hs_over H' c \<or> ca_done (cl_callers (cy_cl k') t)" using H(3) by (auto simp: call_fine_def split: if_splits)
      ultimately show ?thesis using call_fine_mono [OF H(1)] by blast
    qed
  qed (use D rq dup in metis)+
qed

text \<open>A call begins.\<close>

lemma call1_beginE:
  assumes "call1_begin mem junk t proc req s = Inr (Begun req' xr s')"
  obtains "s' = s\<lparr>cl_xid := cl_xid s + 1, cl_calls := (cl_calls s)(cl_xid s \<mapsto> t), cl_callers := (cl_callers s)(t := caller_new (cl_xid s) junk)\<rparr>"
    "pack_req_header mem req \<lparr>rq_xid = cl_xid s, rq_proc = proc, rq_clt_nonce = cl_clt_nonce s, rq_srv_nonce = cl_srv_nonce s, rq_xid_rep = xr\<rparr> = Inr req'"
    "xr = hd (cl_window s)"
proof -
  let ?s = "s\<lparr>cl_xid := cl_xid s + 1, cl_calls := (cl_calls s)(cl_xid s \<mapsto> t), cl_callers := (cl_callers s)(t := caller_new (cl_xid s) junk)\<rparr>"
  have "s' = ?s \<and> pack_req_header mem req \<lparr>rq_xid = cl_xid s, rq_proc = proc, rq_clt_nonce = cl_clt_nonce s, rq_srv_nonce = cl_srv_nonce s, rq_xid_rep = xr\<rparr> = Inr req'
      \<and> xr = hd (cl_window s)"
    using assms by (cases "cl_window s") (auto simp: call1_begin_def Let_def bind_r_eq_Inr split: if_splits)
  then show thesis by (elim conjE) (rule that)
qed

lemma cl_fine_begin:
  assumes fine: "cl_fine H c rq k" and ok: "cl_ok ces k" and few: "calls_begun ces + 2 < 2 ^ 32" and over: "hs_over H c = reported ces"
    and wf: "m_wf req" and b: "call1_begin mem junk t proc req (cy_cl k) = Inr (Begun req' xr s')" and x: "x = cl_xid (cy_cl k)"
    and H': "hs_issued H' c = (hs_issued H c)(x \<mapsto> m_bytes req')" "hist_le H H'" "hs_over H' c = hs_over H c"
  shows "cl_fine H' c rq \<lparr>cy_cl = s', cy_ph = (cy_ph k)(t := CCalling x req' xr None)\<rparr>"
proof -
  note D = cl_fineD [OF fine] and O = cl_okD [OF ok]
  from b obtain s': "s' = (cy_cl k)\<lparr>cl_xid := x + 1, cl_calls := (cl_calls (cy_cl k))(x \<mapsto> t), cl_callers := (cl_callers (cy_cl k))(t := caller_new x junk)\<rparr>"
    and pk: "pack_req_header mem req \<lparr>rq_xid = x, rq_proc = proc, rq_clt_nonce = c, rq_srv_nonce = cl_srv_nonce (cy_cl k), rq_xid_rep = xr\<rparr> = Inr req'"
    and xr: "xr = hd (cl_window (cy_cl k))" unfolding x D(1) [symmetric] by (rule call1_beginE)
  let ?h = "\<lparr>rq_xid = x, rq_proc = proc, rq_clt_nonce = c, rq_srv_nonce = cl_srv_nonce (cy_cl k), rq_xid_rep = xr\<rparr>"
  have ux: "unat x = 1 + calls_begun ces" using O(3) x by simp
  then have up: "unat (x + 1) = unat x + 1" "x \<noteq> 0" using few by (auto simp: unat_word_ariths)
  have below: "unat y < unat x" if "hs_issued H c y = Some m" for y m using D(2) [OF that] x by simp
  then have new: "hs_issued H c x = None" by (cases "hs_issued H c x") auto
  have "{..xr} \<subseteq> insert 0 (reported ces)" using front_iff [OF O(1), of xr] O(2) xr by simp
  then have ack: "acked H' c xr" using H'(3) over unfolding acked_def by force
  have req: "request_of H' c ?h (m_body req)"
    using packed_req_msg [OF wf pk] up(2) ack H'(1) by (simp add: request_of_def)
  show ?thesis
  proof (rule cl_fineI, goal_cases)
    case (2 y m)
    have "cl_xid s' = x + 1" using s' by simp
    moreover have "unat y < unat x + 1" using 2 below [of y m] H'(1) by (cases "y = x") (simp_all add: less_Suc_eq)
    ultimately show ?case using up(1) by simp
  next
    case (3 y m)
    show ?case
    proof (cases "y = x")
      case True
      then show ?thesis using 3 req packed_req_msg [OF wf pk] H'(1) by (intro exI [of _ ?h]) auto
    next
      case False
      then show ?thesis using 3 D(3) [of y m] request_of_mono [OF H'(2)] H'(1) by auto blast
    qed
  next
    case (4 m)
    then show ?case using D(4) hist_leD(1) [OF H'(2)] by blast
  next
    case 5
    then have "isvalid (cl_dup_req (cy_cl k))" using s' by simp
    then show ?case using D(5) hist_leD(1) [OF H'(2)] s' by fastforce
  next
    case (6 y)
    then show ?case using D(6) H'(1,3) by simp
  next
    case (7 u y r z ch)
    show ?case
    proof (cases "u = t")
      case True
      have "x \<notin> hs_over H c" using D(6) new by blast
      then show ?thesis using 7 True s' H'(1,3) by (simp add: call_fine_def caller_new_def)
    next
      case False
      then have p: "cy_ph k u = CCalling y r z ch" using 7 by simp
      from D(7) [OF p] have "y \<notin> hs_over H' c \<or> ca_done (cl_callers (cy_cl k) u)" using H'(3) by (auto simp: call_fine_def split: if_splits)
      from call_fine_mono [OF H'(2) this D(7) [OF p]] show ?thesis using False s' by simp
    qed
  qed (use D(1) s' in simp)
qed

text \<open>A reply arrives.\<close>

lemma got_pdu_marks:
  assumes "unpack_reply_header (unmarshall_new (Some b) sz) = Inr (rep, h)" "rpcc_got_pdu b sz s = Inr s'" "u_ok rep" "cl_calls s (rp_xid h) = Some t"
  shows "ca_done (cl_callers s' t)"
  using assms by (cases "ca_done (cl_callers s t)") (auto simp: rpcc_got_pdu_def Let_def bind_r_eq_Inr)

lemma answers_unpack:
  assumes ans: "answers H c m" and len: "int (length m) \<le> MAX_PDU"
    and u: "unpack_reply_header (unmarshall_new (Some (wire m)) (length m)) = Inr (rep, h)"
  obtains x ret body where "rep = \<lparr>u_buf = Some (wire m), u_sz = length m, u_ind = 24, u_ok = True\<rparr>" "h = \<lparr>rp_xid = x, rp_ret = ret\<rparr>"
    "u_at rep body" "24 \<le> length m" "hs_issued H c x \<noteq> None"
    "ret = oldsrv_failure \<or> ret = atmostonce_failure \<and> x \<in> hs_over H c \<or> result_of H c x ret body"
proof -
  obtain x ret body where m: "reply_msg \<lparr>rp_xid = x, rp_ret = ret\<rparr> body m" "hs_issued H c x \<noteq> None"
    "ret = oldsrv_failure \<or> ret = atmostonce_failure \<and> x \<in> hs_over H c \<or> result_of H c x ret body" using ans unfolding answers_def by blast
  have l: "length (wire m) = length m" "length m < 2 ^ 31" "24 \<le> length m" using m(1) len by (auto simp: reply_msg_def length_wire MAX_PDU_def)
  have "rep = \<lparr>u_buf = Some (wire m), u_sz = length m, u_ind = 24, u_ok = True\<rparr>" "h = \<lparr>rp_xid = x, rp_ret = ret\<rparr>" "u_at rep body"
    using reply_msg_reader [OF wire_reply [OF m(1)], of "[]"] u l by auto
  then show thesis using that l(3) m(2,3) by blast
qed

lemma cl_fine_pdu:
  assumes fine: "cl_fine H c rq k" and ok: "cl_ok ces k" and ans: "answers H c m" and len: "int (length m) \<le> MAX_PDU"
    and u: "unpack_reply_header (unmarshall_new (Some (wire m)) (length m)) = Inr (rep, h)" and g: "rpcc_got_pdu (wire m) (length m) (cy_cl k) = Inr s'"
    and H': "hist_next c (hs_issued H c) (insert (rp_xid h) (hs_over H c)) H H'"
  shows "cl_fine H' c rq \<lparr>cy_cl = s', cy_ph = cy_ph k\<rparr>"
proof -
  note D = cl_fineD [OF fine] and O = cl_okD [OF ok]
  have H: "hist_le H H'" "hs_issued H' c = hs_issued H c" "hs_over H' c = insert (rp_xid h) (hs_over H c)" using H' by (auto simp: hist_next_def)
  obtain x ret body where rep: "rep = \<lparr>u_buf = Some (wire m), u_sz = length m, u_ind = 24, u_ok = True\<rparr>" "h = \<lparr>rp_xid = x, rp_ret = ret\<rparr>"
      "u_at rep body" and l: "24 \<le> length m" and m: "hs_issued H c x \<noteq> None"
      "ret = oldsrv_failure \<or> ret = atmostonce_failure \<and> x \<in> hs_over H c \<or> result_of H c x ret body"
    by (rule answers_unpack [OF ans len u])
  then have "u_ok rep" by simp
  have take: "fst (take_in v rep) = rep" for v using l rep(1) by (simp add: take_in_def)
  from u g O(1) obtain s: "cl_clt_nonce s' = cl_clt_nonce (cy_cl k)" "cl_xid s' = cl_xid (cy_cl k)" "cl_dup_req s' = cl_dup_req (cy_cl k)"
    and callers: "cl_callers s' = cl_callers (cy_cl k) \<or> (\<exists>t. cl_calls (cy_cl k) x = Some t \<and> \<not> ca_done (cl_callers (cy_cl k) t)
      \<and> cl_callers s' = (cl_callers (cy_cl k))(t := (cl_callers (cy_cl k) t)\<lparr>ca_un := rep, ca_intret := ret, ca_done := True\<rparr>))"
    by (cases rule: got_pdu_cases) (auto simp: rep(2) take)
  show "cl_fine H' c rq \<lparr>cy_cl = s', cy_ph = cy_ph k\<rparr>"
  proof (rule cl_fineI, unfold H(2) clsys.simps s)
    show "\<exists>h args. request_of H' c h args \<and> rq_xid h = y \<and> req_msg h args b" if "hs_issued H c y = Some b" for y b
      using D(3) [OF that] request_of_mono [OF H(1)] by blast
    show "hs_issued H c y \<noteq> None" if "y \<in> hs_over H' c" for y using that D(6) m(1) H(3) rep(2) by auto
    show "call_fine H' c y r (cl_callers s' t)" if p: "cy_ph k t = CCalling y r z ch" for t y r z ch
    proof -
      note call = D(7) [OF p] O(4) [OF p]
      show ?thesis
      proof (cases "y = x \<and> \<not> ca_done (cl_callers (cy_cl k) t)")
        case True
        then have t: "cl_calls (cy_cl k) x = Some t" "x \<notin> hs_over H c" using call by (auto simp: call_fine_def)
        have "ca_done (cl_callers s' t)" by (rule got_pdu_marks [OF u g \<open>u_ok rep\<close>]) (simp add: rep(2) t(1))
        then have s': "cl_callers s' t = (cl_callers (cy_cl k) t)\<lparr>ca_un := rep, ca_intret := ret, ca_done := True\<rparr>" using callers t(1) True by auto
        have "done_fine H c x (cl_callers s' t)" using m(2) t(2) rep(3) s' by (auto simp: done_fine_def)
        then have "done_fine H' c x (cl_callers s' t)" by (rule done_fine_mono [OF H(1)])
        then show ?thesis using True call(1) s' H(2) by (simp add: call_fine_def)
      next
        case False
        have s': "cl_callers s' t = cl_callers (cy_cl k) t"
        proof (cases "cl_callers s' = cl_callers (cy_cl k)")
          case other: False
          then obtain v where v: "cl_calls (cy_cl k) x = Some v" "\<not> ca_done (cl_callers (cy_cl k) v)"
            "cl_callers s' = (cl_callers (cy_cl k))(v := (cl_callers (cy_cl k) v)\<lparr>ca_un := rep, ca_intret := ret, ca_done := True\<rparr>)"
            using callers by blast
          obtain r' z' ch' where "cy_ph k v = CCalling x r' z' ch'"
            using O(5) [OF v(1)] O(4) v(1) by metis
          then have "v \<noteq> t" using False p v(2) by auto
          then show ?thesis using v(3) by simp
        qed simp
        have "y \<notin> hs_over H' c \<or> ca_done (cl_callers (cy_cl k) t)"
          using call(1) False H(3) rep(2) by (auto simp: call_fine_def split: if_splits)
        then show ?thesis using call_fine_mono [OF H(1) _ call(1)] s' by simp
      qed
    qed
  qed (use D in blast)+
qed

text \<open>A call ends, and the steps that concern no reply.\<close>

lemma get_refconn_kept:
  assumes "get_refconn new ch s = Inr (ch', s')"
  shows "cl_clt_nonce s' = cl_clt_nonce s" "cl_dup_req s' = cl_dup_req s"
  using assms by (auto simp: get_refconn_def refresh_chan_def install_chan_def share_chan_def bind_r_eq_Inr split: option.splits if_splits)

lemma transmit_kept:
  assumes "transmit req new ch s = Inr (ch', s', out)"
  shows "cl_clt_nonce s' = cl_clt_nonce s" "isvalid (cl_dup_req s') \<Longrightarrow> cl_dup_req s' = cl_dup_req s"
    "m \<in> snd ` set out \<Longrightarrow> m = m_bytes req \<or> isvalid (cl_dup_req s) \<and> m = dr_buf (cl_dup_req s)"
proof -
  obtain ch1 s1 where 1: "get_refconn new ch s = Inr (ch1, s1)" using assms by (auto simp: transmit_def bind_r_eq_Inr)
  note kept = get_refconn_kept [OF 1]
  have "\<not> isvalid request_clear" by (simp add: isvalid_def request_clear_def)
  then show "cl_clt_nonce s' = cl_clt_nonce s" "isvalid (cl_dup_req s') \<Longrightarrow> cl_dup_req s' = cl_dup_req s"
    "m \<in> snd ` set out \<Longrightarrow> m = m_bytes req \<or> isvalid (cl_dup_req s) \<and> m = dr_buf (cl_dup_req s)"
    using assms 1 kept by (auto simp: transmit_def bind_r_eq_Inr take_forgotten_def split: option.splits if_splits)
qed

lemma call1_end_kept:
  assumes "call1_end t req xr ch s = Inr (ret, u, sig, s')"
  shows "cl_clt_nonce s' = cl_clt_nonce s" "cl_dup_req s' = cl_dup_req s \<or> dr_buf (cl_dup_req s') = m_bytes req"
proof -
  have "cl_clt_nonce s' = cl_clt_nonce s \<and> (cl_dup_req s' = cl_dup_req s \<or> dr_buf (cl_dup_req s') = m_bytes req)"
    using assms unfolding call1_end_def Let_def bind_r_eq_Inr by (elim exE conjE) (simp split: if_splits, auto)
  then show "cl_clt_nonce s' = cl_clt_nonce s" "cl_dup_req s' = cl_dup_req s \<or> dr_buf (cl_dup_req s') = m_bytes req" by blast+
qed

lemma cl_fine_return:
  assumes fine: "cl_fine H c rq k" and ok: "cl_ok ces k" and t: "cy_ph k t = CCalling x req xr ch"
    and e: "call1_end t req xr ch (cy_cl k) = Inr (ret, u, sig, s')" and H': "hist_next c (hs_issued H c) (insert x (hs_over H c)) H H'"
  shows "cl_fine H' c rq \<lparr>cy_cl = s', cy_ph = (cy_ph k)(t := CIdle)\<rparr>"
proof -
  note D = cl_fineD [OF fine] and O = cl_okD [OF ok]
  have H: "hist_le H H'" "hs_issued H' c = hs_issued H c" "hs_over H' c = insert x (hs_over H c)" using H' by (auto simp: hist_next_def)
  obtain s: "cl_callers s' = cl_callers (cy_cl k)" "cl_xid s' = cl_xid (cy_cl k)" using call1_endE [OF e O(1)] by metis
  have iss: "hs_issued H c x = Some (m_bytes req)" using D(7) [OF t] by (simp add: call_fine_def)
  show ?thesis
  proof (rule cl_fineI, unfold H(2) clsys.simps s call1_end_kept(1) [OF e])
    show "\<exists>h args. request_of H' c h args \<and> rq_xid h = y \<and> req_msg h args b" if "hs_issued H c y = Some b" for y b
      using D(3) [OF that] request_of_mono [OF H(1)] by blast
    show "hs_issued H c y \<noteq> None" if "y \<in> hs_over H' c" for y using that D(6) H(3) iss by auto
    show "\<exists>y. hs_issued H c y = Some (dr_buf (cl_dup_req s'))" if "isvalid (cl_dup_req s')"
      using that call1_end_kept(2) [OF e] D(5) iss by (elim disjE) (simp, metis)
    show "call_fine H' c y r (cl_callers (cy_cl k) v)" if p: "((cy_ph k)(t := CIdle)) v = CCalling y r z ch'" for v y r z ch'
    proof -
      have v: "cy_ph k v = CCalling y r z ch'" "v \<noteq> t" using p by (auto split: if_splits)
      then have "y \<noteq> x" using O(4) [OF v(1)] O(4) [OF t] by auto
      then have "y \<notin> hs_over H' c \<or> ca_done (cl_callers (cy_cl k) v)" using D(7) [OF v(1)] H(3) by (auto simp: call_fine_def split: if_splits)
      then show ?thesis using call_fine_mono [OF H(1) _ D(7) [OF v(1)]] by blast
    qed
  qed (use D in blast)+
qed

lemma cl_fine_other:
  assumes fine: "cl_fine H c rq k" and ok: "cl_ok ces k" and step: "cl_step k e k'"
    and e: "\<And>t x xr. e \<noteq> C_Begin t x xr" "\<And>x r. e \<noteq> C_Pdu x r" "\<And>t x r. e \<noteq> C_Return t x r"
    and H': "hist_next c (hs_issued H c) (hs_over H c) H H'"
  shows "cl_fine H' c (rq \<union> req_sent e) k'"
proof -
  note D = cl_fineD [OF fine] and O = cl_okD [OF ok]
  show ?thesis
    using step
  proof cases
    case (sends ph t x req xr ch new s ch' s' out)
    note kept = transmit_kept [OF sends(6)] and same = transmit_calls [OF sends(6), unfolded same_calls_def]
    have p: "cy_ph k t = CCalling x req xr ch" using sends by simp
    show ?thesis
    proof (rule cl_fine_quiet [OF fine H'])
      show "\<exists>y. hs_issued H c y = Some m" if "m \<in> rq \<union> req_sent e" for m
      proof -
        have "hs_issued H c x = Some (m_bytes req)" using D(7) [OF p] by (simp add: call_fine_def)
        moreover have "m \<in> rq \<or> m = m_bytes req \<or> isvalid (cl_dup_req (cy_cl k)) \<and> m = dr_buf (cl_dup_req (cy_cl k))"
          using that kept(3) [of m] sends(1,2) by auto
        ultimately show ?thesis using D(4,5) by blast
      qed
    qed (use sends kept same in \<open>auto split: if_splits\<close>)
  next
    case (pdu b sz rep h s s' ph)
    then have "\<not> u_ok rep" using e(2) by (auto split: if_splits)
    then have "s' = s" "e = C_Tau" using pdu by (auto simp: rpcc_got_pdu_def)
    then show ?thesis using pdu D(4) by (intro cl_fine_quiet [OF fine H']) auto
  next
    case (cancels s ph)
    have "ca_done (cl_callers (cancel_mark s) t) \<and> ca_intret (cl_callers (cancel_mark s) t) = cancel_failure" if "ph t = CCalling x req xr ch" for t x req xr ch
      using O(4) [of t x] cancels that by (auto simp: cancel_mark_def ran_def)
    then show ?thesis using cancels D(4)
      by (intro cl_fine_quiet [OF fine H']) (auto simp: cancel_mark_def call_fine_def done_fine_def)
  qed (use e D(4) in \<open>auto intro!: cl_fine_quiet [OF fine H'] simp: cancel_test_def rpcc_set_reachable_def\<close>)
qed

section \<open>The invariant of the network\<close>

definition net_inv :: "(i32 \<rightharpoonup> 'o handler) \<Rightarrow> nevent list \<Rightarrow> 'o net \<Rightarrow> bool" where
  "net_inv procs es n \<longleftrightarrow> (\<forall>c. cl_fine (hist_of es n) c (nw_req n c) (nw_cl n c))
     \<and> srv_fine (hist_of es n) procs (nw_peer n) (srv_events es) (nw_srv n)
     \<and> (\<forall>c. \<forall>m\<in>nw_rep n c. answers (hist_of es n) c m)
     \<and> (\<forall>r\<in>nw_log n. ran_once (hist_of es n) procs (srv_events es) r)"

lemma net_invD:
  assumes "net_inv procs es n"
  shows "cl_fine (hist_of es n) c (nw_req n c) (nw_cl n c)" "srv_fine (hist_of es n) procs (nw_peer n) (srv_events es) (nw_srv n)"
    "m \<in> nw_rep n c \<Longrightarrow> answers (hist_of es n) c m" "r \<in> nw_log n \<Longrightarrow> ran_once (hist_of es n) procs (srv_events es) r"
  using assms unfolding net_inv_def by blast+

lemma hist_of_simps [simp]:
  "hs_issued (hist_of es n) = nw_issued n" "hs_log (hist_of es n) = nw_log n" "hs_over (hist_of es n) c = reported (cl_events c es)"
  by (simp_all add: hist_of_def)

lemma ran_once_mono: "hist_le H H' \<Longrightarrow> set es \<subseteq> set es' \<Longrightarrow> ran_once H procs es r \<Longrightarrow> ran_once H' procs es' r"
  unfolding ran_once_def by (cases r) (auto intro: asked_mono)

lemma net_inv_start: "net_inv (sv_procs v) [] (net_start v lossy junk)"
proof -
  have "cl_fine (hist_of [] (net_start v lossy junk)) c {} \<lparr>cy_cl = rpcc_new (c \<noteq> 0) c lossy junk, cy_ph = \<lambda>_. CIdle\<rparr>" for c
    by (rule cl_fineI) (auto simp: net_start_def rpcc_new_def isvalid_def request_clear_def reported_def)
  moreover have "srv_fine (hist_of [] (net_start v lossy junk)) (sv_procs v) (\<lambda>_. 0) [] (srv_start v)"
    by (simp add: srv_fine_def srv_start_def rwindow_init_def)
  ultimately show ?thesis by (simp add: net_inv_def net_start_def)
qed

text \<open>A step of client \<open>c\<close> concerns neither the others nor the server.\<close>

lemma net_inv_client:
  assumes inv: "net_inv procs es n" and H: "hist_le (hist_of es n) (hist_of (es @ [N_Client c e]) n')"
    and fine: "cl_fine (hist_of (es @ [N_Client c e]) n') c (nw_req n' c) (nw_cl n' c)"
    and others: "\<And>d. d \<noteq> c \<Longrightarrow> nw_cl n' d = nw_cl n d \<and> nw_req n' d = nw_req n d \<and> nw_issued n' d = nw_issued n d"
    and same: "nw_srv n' = nw_srv n" "nw_peer n' = nw_peer n" "nw_rep n' = nw_rep n" "nw_log n' = nw_log n"
  shows "net_inv procs (es @ [N_Client c e]) n'"
proof -
  note I = net_invD [OF inv]
  have "cl_fine (hist_of (es @ [N_Client c e]) n') d (nw_req n' d) (nw_cl n' d)" for d
  proof (cases "d = c")
    case False
    note o = others [OF False]
    show ?thesis
      by (rule cl_fine_quiet [OF I(1) [of d]]) (use H o cl_fineD(4) [OF I(1) [of d]] False in \<open>auto simp: hist_next_def\<close>)
  qed (use fine in simp)
  moreover have "srv_fine (hist_of (es @ [N_Client c e]) n') procs (nw_peer n) (srv_events es) (nw_srv n)"
    using srv_fine_mono [OF H I(2)] .
  ultimately show ?thesis
    using I(3,4) answers_mono [OF H] ran_once_mono [OF H order.refl] unfolding net_inv_def same events_snoc by blast
qed

lemma arrived_exists:
  assumes "srv_step s e s'" "ss_ph s' t = DArrived cid b sz" "ss_ph s t \<noteq> DArrived cid b sz"
  shows "sv_store (ss_srv s) cid \<noteq> None"
  using assms(1)
proof cases
  case (arrive ph u d buf z v v' j L)
  have "u = t" using assms(2,3) arrive by (cases "u = t") auto
  then have "dj_conn j = cid" using assms(2) arrive by simp
  moreover have "dj_conn j = d \<and> sv_store v d \<noteq> None"
    using arrive(5) by (auto simp: rpcs_got_pdu_def ref_conn_def st_ops bind_r_eq_Inr split: if_splits option.splits)
  ultimately show ?thesis using arrive by simp
next
  case (checked ph u d h req f v w stat out mem p L)
  then show ?thesis using assms(2,3)
    by (cases "u = t") (auto simp: after_check_def bind_r_eq_Inr split: rpcstate_t.splits)
qed (use assms(2,3) in \<open>auto split: if_splits\<close>)

lemma net_inv_server:
  assumes run: "srv_run v (srv_events es) (nw_srv n)" and inv: "net_inv procs es n" and step: "srv_step (nw_srv n) e s'"
    and sent: "sent_before n s'" and kept: "undisturbed (nw_srv n) s'"
    and peers: "\<And>cid. sv_store (ss_srv (nw_srv n)) cid \<noteq> None \<Longrightarrow> peer cid = nw_peer n cid"
    and good: "\<And>k f. procs k = Some f \<Longrightarrow> good_handler f"
    and n': "n' = n\<lparr>nw_srv := s', nw_peer := peer, nw_rep := (\<lambda>c. nw_rep n c \<union> rep_sent peer e c), nw_log := nw_log n \<union> returned (nw_srv n) s'\<rparr>"
  shows "net_inv procs (es @ [N_Server e]) n'"
proof -
  note I = net_invD [OF inv]
  define H where "H = hist_of (es @ [N_Server e]) n'"
  have H: "hist_le (hist_of es n) H" by (simp add: H_def hist_le_def n')
  have "srv_fine H procs (nw_peer n) (srv_events es) (nw_srv n)" using srv_fine_mono [OF H I(2)] .
  then have fine: "srv_fine H procs peer (srv_events es) (nw_srv n)" by (rule srv_fine_peer [OF _ srv_run_refs [OF run] peers])
  have arr: "arrivals_fine H peer (nw_srv n) s'"
    unfolding arrivals_fine_def
  proof (intro allI impI)
    fix t cid b sz assume a: "ss_ph s' t = DArrived cid b sz"
    show "ss_ph (nw_srv n) t = DArrived cid b sz \<or> phase_fine H Map.empty Map.empty peer (DArrived cid b sz :: 'a dphase)"
    proof (cases "ss_ph (nw_srv n) t = DArrived cid b sz")
      case False
      then obtain m where m: "m \<in> nw_req n (nw_peer n cid)" "int (length m) \<le> MAX_PDU" "b = wire m" "sz = length m"
        using a sent unfolding sent_before_def by blast
      have cid: "peer cid = nw_peer n cid" using peers arrived_exists [OF step a False] by blast
      note C = cl_fineD [OF I(1) [of "nw_peer n cid"]]
      obtain x where "nw_issued n (nw_peer n cid) x = Some m" using C(4) [OF m(1)] by auto
      then obtain h args where "request_of (hist_of es n) (nw_peer n cid) h args" "req_msg h args m" using C(3) by fastforce
      then show ?thesis unfolding phase_fine.simps cid using m(2-4) request_of_mono [OF H] by blast
    qed simp
  qed
  have log: "returned (nw_srv n) s' \<subseteq> hs_log H" by (simp add: H_def n')
  have fine': "srv_fine H procs peer (srv_events es @ [e]) s'"
    by (rule srv_fine_step [OF run fine step kept arr log]) (rule good)
  have clients: "cl_fine H c (nw_req n c) (nw_cl n c)" for c
    by (rule cl_fine_quiet [OF I(1) [of c]]) (use H cl_fineD(4) [OF I(1) [of c]] in \<open>auto simp: hist_next_def H_def n'\<close>)
  have "answers H c m" if "m \<in> rep_sent peer e c" for c m
    using that sent_answers [OF fine] step by (cases e) (auto split: if_splits)
  then have reps: "answers H c m" if "m \<in> nw_rep n c \<union> rep_sent peer e c" for c m
    using that I(3) answers_mono [OF H] by blast
  have "set (srv_events es) \<subseteq> set (srv_events es @ [e])" by auto
  then have logs: "ran_once H procs (srv_events es @ [e]) r" if "r \<in> nw_log n \<union> returned (nw_srv n) s'" for r
    using that I(4) ran_once_mono [OF H] returned_ran [OF fine step] by blast
  have fields: "nw_cl n' = nw_cl n" "nw_req n' = nw_req n" "nw_peer n' = peer" "nw_srv n' = s'"
    "nw_rep n' = (\<lambda>c. nw_rep n c \<union> rep_sent peer e c)" "nw_log n' = nw_log n \<union> returned (nw_srv n) s'" by (simp_all add: n')
  show ?thesis
    unfolding net_inv_def fields events_snoc H_def [symmetric] using clients fine' reps logs by blast
qed

lemma reported_append [simp]: "reported es \<subseteq> reported (es @ es')"
  by (auto simp: reported_def)

text \<open>Every state of the network satisfies the invariant, as long as no client has used up its xids.\<close>

lemma net_inv_step:
  assumes run: "net_run v lossy junk es n" and inv: "net_inv (sv_procs v) es n" and step: "net_step n e n'" and kept: "undisturbed (nw_srv n) (nw_srv n')"
    and few: "\<And>c. calls_begun (cl_events c es) + 2 < 2 ^ 32" and good: "\<And>k f. sv_procs v k = Some f \<Longrightarrow> good_handler f"
  shows "net_inv (sv_procs v) (es @ [e]) n'"
proof -
  note I = net_invD [OF inv]
  have ok: "cl_ok (cl_events c es) (nw_cl n c)" for c using cl_run_ok [OF net_run_cl [OF run] refl few] .
  show ?thesis
    using step
  proof cases
    case (calls c t req mem junk' proc req' xr s' x)
    have new: "nw_issued n c x = None" using cl_fineD(2) [OF I(1), of c x] calls(6) by (cases "nw_issued n c x") auto
    have H: "hist_le (hist_of es n) (hist_of (es @ [e]) n')"
      unfolding hist_le_def using calls(1,2) new by (auto simp: reported_snoc split: if_splits)
    have "cl_fine (hist_of (es @ [e]) n') c (nw_req n c) \<lparr>cy_cl = s', cy_ph = (cy_ph (nw_cl n c))(t := CCalling x req' xr None)\<rparr>"
      by (rule cl_fine_begin [OF I(1) ok few _ calls(4,5,6) _ H]) (use calls(1,2) in \<open>simp_all add: reported_snoc\<close>)
    then show ?thesis using calls(1,2) net_inv_client [OF inv, of c "C_Begin t x xr" n'] H by simp
  next
    case (delivers m c rep h s')
    have H: "hist_next c (nw_issued n c) (insert (rp_xid h) (reported (cl_events c es))) (hist_of es n) (hist_of (es @ [e]) n')" if "u_ok rep"
      using delivers(1,2) that by (auto simp: hist_next_def hist_le_def reported_snoc)
    have "u_ok rep" by (rule answers_unpack [OF I(3) [OF delivers(3)] delivers(4,5)]) simp
    then have "cl_fine (hist_of (es @ [e]) n') c (nw_req n c) \<lparr>cy_cl = s', cy_ph = cy_ph (nw_cl n c)\<rparr>"
      using cl_fine_pdu [OF I(1) ok I(3) [OF delivers(3)] delivers(4-6), of "hist_of (es @ [e]) n'"] H by simp
    then show ?thesis
      using delivers(1,2) net_inv_client [OF inv, of c "C_Pdu (rp_xid h) (rp_ret h)" n'] H \<open>u_ok rep\<close> by (simp add: hist_next_def)
  next
    case (client c ev k)
    have "hist_le (hist_of es n) (hist_of (es @ [e]) n')"
      using client(1,2) by (auto simp: hist_le_def reported_snoc split: clevent.splits)
    moreover have "cl_fine (hist_of (es @ [e]) n') c (nw_req n c \<union> req_sent ev) k"
    proof (cases "\<exists>t x r. ev = C_Return t x r")
      case True
      then obtain t x r where ev: "ev = C_Return t x r" by blast
      from client(3) [unfolded ev] show ?thesis
      proof cases
        case (returns ph req xr ch s u sig s')
        have p: "cy_ph (nw_cl n c) t = CCalling x req xr ch" "call1_end t req xr ch (cy_cl (nw_cl n c)) = Inr (r, u, sig, s')"
          using returns by simp_all
        show ?thesis
          using cl_fine_return [OF I(1) ok p, of "hist_of (es @ [e]) n'"] returns client(1,2) ev
          by (auto simp: hist_next_def hist_le_def reported_snoc)
      next
        case (pdu b sz rep h s s' ph)
        then show ?thesis by (simp split: if_splits)
      qed
    next
      case False
      then show ?thesis
        using cl_fine_other [OF I(1) ok client(3-5), of "hist_of (es @ [e]) n'"] client(1,2,5)
        by (cases ev) (auto simp: hist_next_def hist_le_def reported_snoc)
    qed
    ultimately show ?thesis using client(1,2) net_inv_client [OF inv, of c ev n'] by simp
  next
    case (server ev s' peer)
    have "undisturbed (nw_srv n) s'" using kept server(2) by simp
    from net_inv_server [OF net_run_srv [OF run] inv server(3,4) this server(5) good server(2)] show ?thesis unfolding server(1) .
  qed
qed

lemma calls_begun_prefix: "calls_begun (cl_events c es) \<le> calls_begun (cl_events c (es @ [e]))"
proof (cases e)
  case (N_Client d x)
  then show ?thesis by (cases "d = c") (simp_all add: calls_begun_snoc)
qed simp

lemma race_free_inv:
  assumes "race_free v lossy junk es n" "\<And>c. calls_begun (cl_events c es) + 2 < 2 ^ 32" "\<And>k f. sv_procs v k = Some f \<Longrightarrow> good_handler f"
  shows "net_inv (sv_procs v) es n"
  using assms(1,2)
proof (induction rule: race_free.induct)
  case race_free_begin
  show ?case by (rule net_inv_start)
next
  case (race_free_more es n e n')
  have few: "calls_begun (cl_events c es) + 2 < 2 ^ 32" for c
    using race_free_more.prems [of c] calls_begun_prefix [of c es e] by linarith
  show ?case by (rule net_inv_step [OF race_free_net_run [OF race_free_more.hyps(1)] race_free_more.IH [OF few] race_free_more.hyps(2,3) few assms(3)])
qed

section \<open>What a call returns\<close>

lemma exec_count: "c \<noteq> 0 \<Longrightarrow> handlers.times_fresh (c, x) es = count_list es (S_Exec c x)"
proof (induction es)
  case (Cons e es)
  have "exec_of e = Some (c, x) \<longleftrightarrow> e = S_Exec c x" using Cons.prems by (cases e) auto
  then show ?case using Cons by (simp add: handlers.times_fresh_def)
qed (simp add: handlers.times_fresh_def)

lemma executed_once:
  assumes "net_run v lossy junk es n" "c \<noteq> 0" "S_Exec c x \<in> set (srv_events es)"
  shows "count_list (srv_events es) (S_Exec c x) = 1"
proof -
  have "count_list (srv_events es) (S_Exec c x) \<le> 1"
    using handlers.fresh_at_most_once [OF srv_run_path [OF net_run_srv [OF assms(1)]] win_inv_start, of "(c, x)"] exec_count [OF assms(2)] by simp
  moreover have "count_list (srv_events es) (S_Exec c x) \<noteq> 0" using assms(3) by (simp add: count_list_0_iff)
  ultimately show ?thesis by linarith
qed

text \<open>The registered handler, run on the arguments of the request \<open>m\<close> of client \<open>c\<close> with xid \<open>x\<close>, returned \<open>ret\<close> and the reply \<open>body\<close>.\<close>

definition handled :: "(i32 \<rightharpoonup> 'o handler) \<Rightarrow> u32 \<Rightarrow> u32 \<Rightarrow> byte list \<Rightarrow> i32 \<Rightarrow> byte list \<Rightarrow> bool" where
  "handled procs c x m ret body \<longleftrightarrow> (\<exists>h args rd f mem obj rep obj'. req_msg h args m \<and> rq_clt_nonce h = c \<and> rq_xid h = x
     \<and> procs (rq_proc h) = Some f \<and> u_at rd args \<and> f mem rd (marshall_new mem) obj = Inr (ret, rep, obj') \<and> body = m_body rep)"

lemma call_outcome:
  assumes run: "race_free v lossy junk es n" and few: "\<And>c. calls_begun (cl_events c es) + 2 < 2 ^ 32"
    and good: "\<And>k f. sv_procs v k = Some f \<Longrightarrow> good_handler f"
    and t: "cy_ph (nw_cl n c) t = CCalling x req xr ch" and e: "call1_end t req xr ch (cy_cl (nw_cl n c)) = Inr (ret, u, sig, s')"
  obtains "ret = timeout_failure \<or> ret = cancel_failure \<or> ret = oldsrv_failure"
  | body where "0 \<le> sint ret" "u_at u body" "handled (sv_procs v) c x (m_bytes req) ret body" "S_Exec c x \<in> set (srv_events es)"
      "result_of (hist_of es n) c x ret body" "nw_issued n c x = Some (m_bytes req)"
proof -
  have "net_inv (sv_procs v) es n" by (rule race_free_inv [OF run few]) (rule good)
  note I = net_invD [OF this]
  note ok = cl_okD [OF cl_run_ok [OF net_run_cl [OF race_free_net_run [OF run], of c] refl few]]
  let ?ca = "cl_callers (cy_cl (nw_cl n c)) t"
  have ret: "ret = (if ca_done ?ca then ca_intret ?ca else timeout_failure)" "u = ca_un ?ca" using call1_endE [OF e ok(1)] by metis+
  have call: "nw_issued n c x = Some (m_bytes req)" "ca_done ?ca \<Longrightarrow> done_fine (hist_of es n) c x ?ca"
    using cl_fineD(7) [OF I(1) t] by (simp_all add: call_fine_def)
  show thesis
  proof (cases "ret = timeout_failure \<or> ret = cancel_failure \<or> ret = oldsrv_failure")
    case False
    then have d: "ca_done ?ca" "ret = ca_intret ?ca" using ret(1) by (auto split: if_splits)
    then obtain body where body: "result_of (hist_of es n) c x ret body" "u_at u body"
      using call(2) False ret(2) unfolding done_fine_def by auto
    then obtain h rd rep where r: "0 \<le> sint ret" "(h, rd, ret, rep) \<in> nw_log n" "rq_clt_nonce h = c" "rq_xid h = x" "body = m_body rep"
      unfolding result_of_def by auto
    obtain f mem obj obj' where f: "asked (hist_of es n) (sv_procs v) c h rd f" "f mem rd (marshall_new mem) obj = Inr (ret, rep, obj')"
      "S_Exec c x \<in> set (srv_events es)" using I(4) [OF r(2)] r(3,4) unfolding ran_once_def by auto
    obtain args where "sv_procs v (rq_proc h) = Some f" "u_at rd args" "req_msg h args (m_bytes req)"
      using f(1) call(1) r(4) unfolding asked_def request_of_def by auto
    then have "handled (sv_procs v) c x (m_bytes req) ret body" unfolding handled_def using r f(2) by blast
    then show thesis using that(2) r(1) body f(3) call(1) by blast
  qed (use that(1) in blast)
qed

section \<open>The server as one object\<close>

text \<open>
  A sequential history of the object: the requests \<open>iss\<close> that it executes one after the other, each by the handler of its procedure on the
  state that the one before left, with client, xid, status and reply.
\<close>

inductive atomic :: "(i32 \<rightharpoonup> 'o handler) \<Rightarrow> (u32 \<Rightarrow> u32 \<Rightarrow> byte list option) \<Rightarrow> 'o \<Rightarrow> (u32 \<times> u32 \<times> i32 \<times> byte list) list \<Rightarrow> 'o \<Rightarrow> bool"
  for procs iss obj0 where
  nothing: "atomic procs iss obj0 [] obj0"
| executes: "atomic procs iss obj0 hs obj \<Longrightarrow> iss (rq_clt_nonce h) (rq_xid h) = Some m \<Longrightarrow> req_msg h args m \<Longrightarrow>
     procs (rq_proc h) = Some f \<Longrightarrow> u_at rd args \<Longrightarrow> f mem rd (marshall_new mem) obj = Inr (ret, rep, obj') \<Longrightarrow>
     atomic procs iss obj0 (hs @ [(rq_clt_nonce h, rq_xid h, ret, m_body rep)]) obj'"

lemma atomic_mono:
  "atomic procs iss obj0 hs obj \<Longrightarrow> (\<And>c x m. iss c x = Some m \<Longrightarrow> iss' c x = Some m) \<Longrightarrow> atomic procs iss' obj0 hs obj"
proof (induction rule: atomic.induct)
  case (executes hs obj h m args f rd mem ret rep obj')
  then show ?case using atomic.executes [of procs iss' obj0 hs obj h m args f rd mem ret rep obj'] by blast
qed (rule atomic.nothing)

primrec is_exec :: "sevent \<Rightarrow> bool" where
  "is_exec (S_Window e) = False"
| "is_exec (S_Exec c x) = True"
| "is_exec (S_Send d bs) = False"
| "is_exec (S_Reachable r) = False"
| "is_exec S_Tau = False"

definition execution :: "u32 \<times> u32 \<times> i32 \<times> byte list \<Rightarrow> sevent" where
  "execution r = (case r of (c, x, ret, body) \<Rightarrow> S_Exec c x)"

text \<open>Only a handler changes the object.\<close>

lemma ops_obj:
  "ref_conn cid v = Inr v' \<Longrightarrow> sv_obj v' = sv_obj v" "unref_conn cid v = Inr v' \<Longrightarrow> sv_obj v' = sv_obj v"
  "rpcs_got_pdu a b cid buf sz v = Inr (r, v', q) \<Longrightarrow> sv_obj v' = sv_obj v" "latest_conn clt cid v = Inr (d, v') \<Longrightarrow> sv_obj v' = sv_obj v"
  "save_conn clt cid v = Inr v' \<Longrightarrow> sv_obj v' = sv_obj v" "record_reply clt x adr bs v = Inr v' \<Longrightarrow> sv_obj v' = sv_obj v"
  by (auto simp: ref_conn_def unref_conn_def rpcs_got_pdu_def latest_conn_def save_conn_def record_reply_def bind_r_eq_Inr split: if_splits option.splits)

lemma execute_obj:
  "execute mem proc req f v = Inr (ret, rep, v') \<Longrightarrow> f mem req (marshall_new mem) (sv_obj v) = Inr (ret, rep, sv_obj v')"
  by (auto simp: execute_def updatestat_def Let_def bind_r_eq_Inr split: if_splits)

lemma srv_step_obj:
  assumes "srv_step s e s'"
  obtains (runs) t cid h req f mem ret rep where "ss_ph s t = DRun cid h req f" "e = S_Exec (rq_clt_nonce h) (rq_xid h)"
      "f mem req (marshall_new mem) (sv_obj (ss_srv s)) = Inr (ret, rep, sv_obj (ss_srv s'))" "returned s s' = {(h, req, ret, rep)}"
  | (other) "\<not> is_exec e" "sv_obj (ss_srv s') = sv_obj (ss_srv s)" "returned s s' = {}"
  using assms
proof cases
  case (running ph t cid h req f mem v ret rep v' L)
  show thesis
    by (rule runs [of t cid h req f mem ret rep]) (use running execute_obj in \<open>auto simp: returned_def split: if_splits\<close>)
next
  case (checked ph t cid h req f v w stat out mem p L)
  then show thesis
    by (intro other) (auto simp: returned_def after_check_def bind_r_eq_Inr split: rpcstate_t.splits if_splits)
qed (rule other; auto simp: returned_def dest: ops_obj split: if_splits)+

definition history_of :: "'o rpcs \<Rightarrow> nevent list \<Rightarrow> 'o net \<Rightarrow> (u32 \<times> u32 \<times> i32 \<times> byte list) list \<Rightarrow> bool" where
  "history_of v es n hs \<longleftrightarrow> atomic (sv_procs v) (nw_issued n) (sv_obj v) hs (sv_obj (ss_srv (nw_srv n)))
     \<and> map execution hs = filter is_exec (srv_events es)
     \<and> (\<forall>(h, req, ret, rep)\<in>nw_log n. (rq_clt_nonce h, rq_xid h, ret, m_body rep) \<in> set hs)"

lemma history_step:
  assumes inv: "net_inv (sv_procs v) es n" and step: "net_step n e n'" and hs: "history_of v es n hs"
    and iss: "\<And>c x m. nw_issued n c x = Some m \<Longrightarrow> nw_issued n' c x = Some m"
  shows "\<exists>hs'. history_of v (es @ [e]) n' hs'"
proof (cases e)
  case (N_Client c ev)
  obtain k where "nw_srv n' = nw_srv n" "nw_log n' = nw_log n" by (rule net_step_client [OF step [unfolded N_Client]])
  then have "history_of v (es @ [e]) n' hs" using hs atomic_mono [OF _ iss] N_Client by (auto simp: history_of_def)
  then show ?thesis by blast
next
  case (N_Server ev)
  obtain s' where s: "srv_step (nw_srv n) ev s'" "nw_srv n' = s'" "nw_log n' = nw_log n \<union> returned (nw_srv n) s'" "nw_issued n' = nw_issued n"
    using step [unfolded N_Server] by cases auto
  note D = srv_fineD [OF net_invD(2) [OF inv]]
  from s(1) show ?thesis
  proof (cases rule: srv_step_obj)
    case (runs t cid h req f mem ret rep)
    obtain args m where m: "sv_procs v (rq_proc h) = Some f" "nw_issued n (rq_clt_nonce h) (rq_xid h) = Some m" "req_msg h args m" "u_at req args"
      using D(3) [of t] runs(1) by (auto simp: asked_def request_of_def)
    have "atomic (sv_procs v) (nw_issued n) (sv_obj v) hs (sv_obj (ss_srv (nw_srv n)))" using hs by (simp add: history_of_def)
    from atomic.executes [OF this m(2,3,1,4) runs(3)]
    have "atomic (sv_procs v) (nw_issued n) (sv_obj v) (hs @ [(rq_clt_nonce h, rq_xid h, ret, m_body rep)]) (sv_obj (ss_srv s'))" .
    then have "history_of v (es @ [e]) n' (hs @ [(rq_clt_nonce h, rq_xid h, ret, m_body rep)])"
      using hs runs(2,4) s(2-4) N_Server by (auto simp: history_of_def execution_def)
    then show ?thesis by blast
  next
    case other
    then have "history_of v (es @ [e]) n' hs" using hs s(2-4) N_Server by (auto simp: history_of_def)
    then show ?thesis by blast
  qed
qed

lemma net_step_issued:
  assumes inv: "net_inv procs es n" and step: "net_step n e n'"
  shows "(\<forall>c x m. nw_issued n c x = Some m \<longrightarrow> nw_issued n' c x = Some m)
    \<and> (\<forall>c x. nw_issued n' c x \<noteq> None \<longrightarrow> nw_issued n c x \<noteq> None \<or> (\<exists>t xr. e = N_Client c (C_Begin t x xr)))"
  using step
proof cases
  case (calls d t req mem junk' proc req' xr s' y)
  have new: "nw_issued n d y = None" using cl_fineD(2) [OF net_invD(1) [OF inv], of d y] calls(6) by (cases "nw_issued n d y") auto
  then show ?thesis using calls(1,2) by auto
qed simp_all

lemma history_exists:
  assumes "race_free v lossy junk es n" "\<And>c. calls_begun (cl_events c es) + 2 < 2 ^ 32" "\<And>k f. sv_procs v k = Some f \<Longrightarrow> good_handler f"
  shows "(\<exists>hs. history_of v es n hs) \<and> (\<forall>c x. nw_issued n c x \<noteq> None \<longrightarrow> (\<exists>t xr. N_Client c (C_Begin t x xr) \<in> set es))"
  using assms(1,2)
proof (induction rule: race_free.induct)
  case race_free_begin
  have "history_of v [] (net_start v lossy junk) []" by (simp add: history_of_def net_start_def srv_start_def atomic.nothing)
  then show ?case by (auto simp: net_start_def)
next
  case (race_free_more es n e n')
  have few: "calls_begun (cl_events c es) + 2 < 2 ^ 32" for c
    using race_free_more.prems [of c] calls_begun_prefix [of c es e] by linarith
  have inv: "net_inv (sv_procs v) es n" by (rule race_free_inv [OF race_free_more.hyps(1) few]) (rule assms(3))
  note IH = race_free_more.IH [OF few] and iss = net_step_issued [OF inv race_free_more.hyps(2)]
  obtain hs where "history_of v es n hs" using IH by blast
  then have "\<exists>hs'. history_of v (es @ [e]) n' hs'" using history_step [OF inv race_free_more.hyps(2)] iss by blast
  moreover have "\<exists>t xr. N_Client c (C_Begin t x xr) \<in> set (es @ [e])" if "nw_issued n' c x \<noteq> None" for c x
    using that iss IH by (metis in_set_conv_decomp in_set_conv_decomp_first UnCI set_append)
  ultimately show ?case by blast
qed

text \<open>A request is executed after its call has begun.\<close>

lemma race_free_split: "race_free v lossy junk (es1 @ e # es2) n \<Longrightarrow> \<exists>n1 n2. race_free v lossy junk es1 n1 \<and> net_step n1 e n2"
proof (induction es2 arbitrary: n rule: rev_induct)
  case Nil
  then show ?case by (cases rule: race_free.cases) auto
next
  case (snoc e' es2)
  from snoc.prems show ?case by (cases rule: race_free.cases) (use snoc.IH in auto)
qed

lemma calls_begun_append: "calls_begun (es @ es') = calls_begun es + calls_begun es'"
  by (induction es) simp_all

lemma events_append: "cl_events c (es @ es') = cl_events c es @ cl_events c es'" "srv_events (es @ es') = srv_events es @ srv_events es'"
  by (simp_all add: cl_events_def srv_events_def)

lemma executed_after_begin:
  assumes run: "race_free v lossy junk (es1 @ N_Server (S_Exec c x) # es2) n"
    and few: "\<And>d. calls_begun (cl_events d (es1 @ N_Server (S_Exec c x) # es2)) + 2 < 2 ^ 32" and good: "\<And>k f. sv_procs v k = Some f \<Longrightarrow> good_handler f"
  shows "\<exists>t xr. N_Client c (C_Begin t x xr) \<in> set es1"
proof -
  obtain n1 n2 where n: "race_free v lossy junk es1 n1" "net_step n1 (N_Server (S_Exec c x)) n2" using race_free_split [OF run] by blast
  have few1: "calls_begun (cl_events d es1) + 2 < 2 ^ 32" for d using few [of d] by (simp add: events_append calls_begun_append)
  have inv: "net_inv (sv_procs v) es1 n1" by (rule race_free_inv [OF n(1) few1]) (rule good)
  obtain s' where "srv_step (nw_srv n1) (S_Exec c x) s'" using n(2) by (cases rule: net_step.cases) auto
  then obtain t cid h req f where t: "ss_ph (nw_srv n1) t = DRun cid h req f" "rq_clt_nonce h = c" "rq_xid h = x"
    by (cases rule: srv_step_obj) auto
  have "nw_issued n1 c x \<noteq> None" using srv_fineD(3) [OF net_invD(2) [OF inv], of t] t by (auto simp: asked_def request_of_def)
  moreover have "\<forall>c x. nw_issued n1 c x \<noteq> None \<longrightarrow> (\<exists>t xr. N_Client c (C_Begin t x xr) \<in> set es1)"
    using history_exists [OF n(1) few1] good by blast
  ultimately show ?thesis by blast
qed

section \<open>An example\<close>

text \<open>Client 5 binds to the server of theory \<open>Rpcs\<close>; the states of the network on the way.\<close>

definition demo_net :: "nevent list \<Rightarrow> clsys \<Rightarrow> unit srvsys \<Rightarrow> byte list set \<Rightarrow> byte list set \<Rightarrow> bool" where
  "demo_net es k s rq rp \<longleftrightarrow> (\<exists>iss lg. race_free demo_srv 0 0 es \<lparr>nw_cl = (nw_cl (net_start demo_srv 0 0))(5 := k), nw_srv = s,
     nw_peer = (\<lambda>_. 5), nw_req = (\<lambda>_. {})(5 := rq), nw_rep = (\<lambda>_. {})(5 := rp), nw_issued = iss, nw_log = lg\<rparr>)"

lemma demo_net_server:
  assumes "demo_net es k s rq rp" "srv_step s e s'" "undisturbed s s'"
    and "\<And>t cid b sz. ss_ph s' t = DArrived cid b sz \<Longrightarrow> ss_ph s t = DArrived cid b sz
      \<or> (\<exists>m\<in>rq. int (length m) \<le> MAX_PDU \<and> b = wire m \<and> sz = length m)"
  shows "demo_net (es @ [N_Server e]) k s' rq (rp \<union> rep_sent (\<lambda>_. 5) e 5)"
proof -
  obtain iss lg where run: "race_free demo_srv 0 0 es \<lparr>nw_cl = (nw_cl (net_start demo_srv 0 0))(5 := k), nw_srv = s,
     nw_peer = (\<lambda>_. 5), nw_req = (\<lambda>_. {})(5 := rq), nw_rep = (\<lambda>_. {})(5 := rp), nw_issued = iss, nw_log = lg\<rparr>" (is "race_free _ _ _ _ ?n")
    using assms(1) unfolding demo_net_def by blast
  have "sent_before ?n s'" using assms(4) by (auto simp: sent_before_def)
  then have step: "net_step ?n (N_Server e) (?n\<lparr>nw_srv := s', nw_peer := \<lambda>_. 5,
      nw_rep := (\<lambda>c. nw_rep ?n c \<union> rep_sent (\<lambda>_. 5) e c), nw_log := nw_log ?n \<union> returned (nw_srv ?n) s'\<rparr>)"
    using net_step.server [of ?n e s' "\<lambda>_. 5"] assms(2,3) by simp
  have "rep_sent (\<lambda>_. 5) e c = {}" if "c \<noteq> 5" for c using that by (cases e) auto
  then have rep: "(\<lambda>c. (if c = 5 then rp else {}) \<union> rep_sent (\<lambda>_. 5) e c) = (\<lambda>_. {})(5 := rp \<union> rep_sent (\<lambda>_. 5) e 5)"
    by (auto simp: fun_eq_iff)
  from race_free_more [OF run step] assms(3) show ?thesis
    unfolding demo_net_def by (intro exI [of _ iss] exI [of _ "lg \<union> returned s s'"]) (simp add: rep)
qed

lemma demo_net_start: "demo_net [N_Server S_Tau] \<lparr>cy_cl = rpcc_new True 5 0 0, cy_ph = (\<lambda>_. CIdle)\<rparr> (demo_at demo_srv DIdle) {} {}"
proof -
  have "srv_step (srv_start demo_srv) S_Tau (demo_at demo_srv DIdle)" by (rule demo_steps_arrive [OF demo_msg_ok(1)]) (simp_all add: demo_msg_ok(2))
  then have step: "net_step (net_start demo_srv 0 0) (N_Server S_Tau) ((net_start demo_srv 0 0)\<lparr>nw_srv := demo_at demo_srv DIdle,
      nw_peer := \<lambda>_. 5, nw_rep := (\<lambda>c. nw_rep (net_start demo_srv 0 0) c \<union> rep_sent (\<lambda>_. 5) S_Tau c),
      nw_log := nw_log (net_start demo_srv 0 0) \<union> returned (nw_srv (net_start demo_srv 0 0)) (demo_at demo_srv DIdle)\<rparr>)"
    using net_step.server [of "net_start demo_srv 0 0" S_Tau "demo_at demo_srv DIdle" "\<lambda>_. 5"]
    by (simp add: net_start_def srv_start_def sent_before_def demo_at_def)
  have k: "(\<lambda>c. \<lparr>cy_cl = rpcc_new (c \<noteq> 0) c 0 0, cy_ph = \<lambda>_. CIdle\<rparr>)(5 := \<lparr>cy_cl = rpcc_new True 5 0 0, cy_ph = \<lambda>_. CIdle\<rparr>)
      = (\<lambda>c. \<lparr>cy_cl = rpcc_new (c \<noteq> 0) c 0 0, cy_ph = \<lambda>_. CIdle\<rparr>)" by (rule fun_upd_idem) simp
  have "undisturbed (nw_srv (net_start demo_srv 0 0)) (demo_at demo_srv DIdle)"
    by (rule undisturbed_quiet) (simp_all add: net_start_def srv_start_def demo_at_def)
  then show ?thesis using race_free_more [OF race_free_begin step]
    unfolding demo_net_def by (intro exI) (simp add: net_start_def k fun_upd_idem)
qed

text \<open>The steps of client 5: its call begins, a message is sent, a reply arrives.\<close>

lemma demo_net_client:
  assumes "demo_net es k s rq rp"
  shows "cy_ph k t = CIdle \<Longrightarrow> m_wf req \<Longrightarrow> call1_begin mem junk t proc req (cy_cl k) = Inr (Begun req' xr c')
      \<Longrightarrow> demo_net (es @ [N_Client 5 (C_Begin t (cl_xid (cy_cl k)) xr)]) \<lparr>cy_cl = c', cy_ph = (cy_ph k)(t := CCalling (cl_xid (cy_cl k)) req' xr None)\<rparr> s rq rp"
    and "cl_step k (C_Send out) k' \<Longrightarrow> demo_net (es @ [N_Client 5 (C_Send out)]) k' s (rq \<union> snd ` set out) rp"
    and "m \<in> rp \<Longrightarrow> int (length m) \<le> MAX_PDU \<Longrightarrow> unpack_reply_header (unmarshall_new (Some (wire m)) (length m)) = Inr (rep, h) \<Longrightarrow> u_ok rep
      \<Longrightarrow> rpcc_got_pdu (wire m) (length m) (cy_cl k) = Inr c'
      \<Longrightarrow> demo_net (es @ [N_Client 5 (C_Pdu (rp_xid h) (rp_ret h))]) \<lparr>cy_cl = c', cy_ph = cy_ph k\<rparr> s rq rp"
proof -
  obtain iss lg where run: "race_free demo_srv 0 0 es \<lparr>nw_cl = (nw_cl (net_start demo_srv 0 0))(5 := k), nw_srv = s,
     nw_peer = (\<lambda>_. 5), nw_req = (\<lambda>_. {})(5 := rq), nw_rep = (\<lambda>_. {})(5 := rp), nw_issued = iss, nw_log = lg\<rparr>" (is "race_free _ _ _ _ ?n")
    using assms(1) unfolding demo_net_def by blast
  show "demo_net (es @ [N_Client 5 (C_Begin t (cl_xid (cy_cl k)) xr)]) \<lparr>cy_cl = c', cy_ph = (cy_ph k)(t := CCalling (cl_xid (cy_cl k)) req' xr None)\<rparr> s rq rp"
    if "cy_ph k t = CIdle" "m_wf req" "call1_begin mem junk t proc req (cy_cl k) = Inr (Begun req' xr c')"
    using race_free_client [OF run net_step.calls [of ?n 5 t req mem junk proc req' xr c' "cl_xid (cy_cl k)"]] that
    unfolding demo_net_def by (intro exI) simp
  show "demo_net (es @ [N_Client 5 (C_Send out)]) k' s (rq \<union> snd ` set out) rp" if "cl_step k (C_Send out) k'"
    using race_free_client [OF run net_step.client [of ?n 5 "C_Send out" k']] that unfolding demo_net_def by (intro exI) simp
  show "demo_net (es @ [N_Client 5 (C_Pdu (rp_xid h) (rp_ret h))]) \<lparr>cy_cl = c', cy_ph = cy_ph k\<rparr> s rq rp"
    if "m \<in> rp" "int (length m) \<le> MAX_PDU" "unpack_reply_header (unmarshall_new (Some (wire m)) (length m)) = Inr (rep, h)" "u_ok rep"
      "rpcc_got_pdu (wire m) (length m) (cy_cl k) = Inr c'"
    using race_free_client [OF run net_step.delivers [of m ?n 5 rep h c']] that unfolding demo_net_def by (intro exI) simp
qed

text \<open>The server works on a message of client 5 and sends its reply.\<close>

lemma demo_net_serve:
  assumes start: "demo_net es k (demo_at demo_srv DIdle) rq {}" and m: "m \<in> rq" "req_msg demo_hdr (be32 0) m" "int (length m) \<le> MAX_PDU"
  obtains es' s rb where "demo_net (es @ map N_Server es') k s rq {rb}" "count_list es' (S_Exec 5 1) = 1"
    "reply_msg \<lparr>rp_xid = 1, rp_ret = 0\<rparr> (be32 7) rb" "length rb = 28"
proof -
  have b: "req_msg demo_hdr (be32 0) (wire m)" "length (wire m) < 2 ^ 31" "length (wire m) = length m"
    using wire_req [OF m(2)] m(2,3) by (simp_all add: req_msg_def length_wire MAX_PDU_def)
  obtain u where 1: "srv_step (demo_at demo_srv DIdle) S_Tau (demo_at (demo_store 2 demo_srv) (DArrived 3 (wire m) (length (wire m))))"
    "srv_step (demo_at (demo_store 2 demo_srv) (DArrived 3 (wire m) (length (wire m)))) S_Tau (demo_at (demo_store 2 demo_srv) (DFound 3 demo_hdr u demo_f))"
    "u_at u (be32 0)" by (rule demo_steps_arrive [OF b(1,2)])
  obtain rep rb where 2: "srv_step (demo_at (demo_saved\<lparr>sv_win := demo_checked Map.empty []\<rparr>) (DRun 3 demo_hdr u demo_f)) (S_Exec 5 1)
      (demo_at (demo_saved\<lparr>sv_win := demo_checked Map.empty []\<rparr>) (DReturned 3 demo_hdr 0 rep))"
    "srv_step (demo_at (demo_saved\<lparr>sv_win := demo_checked Map.empty []\<rparr>) (DReturned 3 demo_hdr 0 rep)) (S_Window (Replied 5 1 rb))
      (demo_at (demo_recorded rb) (DRecorded 3 5 (Block 0 (length rb))))"
    "srv_step (demo_at (demo_recorded rb) (DRecorded 3 5 (Block 0 (length rb)))) S_Tau (demo_at (demo_recorded rb) (DSend 3 (Block 0 (length rb))))"
    "srv_step (demo_at (demo_recorded rb) (DSend 3 (Block 0 (length rb)))) (S_Send 3 rb) (demo_at (demo_recorded rb) (DEnd 3))"
    "reply_msg \<lparr>rp_xid = 1, rp_ret = 0\<rparr> (be32 7) rb" "length rb = 28"
    by (rule demo_steps_reply [OF 1(3)])
  have quiet: "undisturbed (demo_at v p) (demo_at v' p')"
    if "refers p = None \<or> rw_heap (sv_win v') = rw_heap (sv_win v)" "p' \<noteq> DDeleted" for v v' p p'
    using that by (intro undisturbed_quiet) (auto simp: demo_at_def)
  have arr: "demo_net (es @ [N_Server e]) k (demo_at v' p') rq (rp \<union> rep_sent (\<lambda>_. 5) e 5)"
    if "demo_net es k (demo_at v p) rq rp" "srv_step (demo_at v p) e (demo_at v' p')" "refers p = None \<or> rw_heap (sv_win v') = rw_heap (sv_win v)"
      "\<And>cid b sz. p' = DArrived cid b sz \<Longrightarrow> cid = 3 \<and> b = wire m \<and> sz = length (wire m)" "p' \<noteq> DDeleted" for es v p v' p' e rp
  proof (rule demo_net_server [OF that(1,2) quiet [OF that(3,5)]])
    fix t cid b sz assume "ss_ph (demo_at v' p') t = DArrived cid b sz"
    then have "p' = DArrived cid b sz" by (simp add: demo_at_def split: if_splits)
    from that(4) [OF this] show "ss_ph (demo_at v p) t = DArrived cid b sz
        \<or> (\<exists>m\<in>rq. int (length m) \<le> MAX_PDU \<and> b = wire m \<and> sz = length m)" using m(1,3) \<open>length (wire m) = length m\<close> by auto
  qed
  have n: "demo_net (es @ [N_Server S_Tau]) k (demo_at (demo_store 2 demo_srv) (DArrived 3 (wire m) (length (wire m)))) rq {}"
    using arr [OF start 1(1)] by simp
  have n: "demo_net (es @ map N_Server [S_Tau, S_Tau]) k (demo_at (demo_store 2 demo_srv) (DFound 3 demo_hdr u demo_f)) rq {}"
    using arr [OF n 1(2)] by simp
  have n: "demo_net (es @ map N_Server [S_Tau, S_Tau, S_Window (Created 5)]) k (demo_at ((demo_store 2 demo_srv)\<lparr>sv_win := demo_created\<rparr>) (DCreated 3 demo_hdr u demo_f)) rq {}"
    using arr [OF n demo_steps_check(1)] by simp
  have n: "demo_net (es @ map N_Server [S_Tau, S_Tau, S_Window (Created 5), S_Tau]) k (demo_at (demo_saved\<lparr>sv_win := demo_created\<rparr>) (DSaved 3 demo_hdr u demo_f)) rq {}"
    using arr [OF n demo_steps_check(2)] by simp
  have n: "demo_net (es @ map N_Server [S_Tau, S_Tau, S_Window (Created 5), S_Tau, S_Window (Checked 5 1 0 NEW None)]) k
      (demo_at (demo_saved\<lparr>sv_win := demo_checked Map.empty []\<rparr>) (DRun 3 demo_hdr u demo_f)) rq {}"
    using arr [OF n demo_steps_check(3)] by simp
  have n: "demo_net (es @ map N_Server [S_Tau, S_Tau, S_Window (Created 5), S_Tau, S_Window (Checked 5 1 0 NEW None), S_Exec 5 1]) k
      (demo_at (demo_saved\<lparr>sv_win := demo_checked Map.empty []\<rparr>) (DReturned 3 demo_hdr 0 rep)) rq {}"
    using arr [OF n 2(1)] by simp
  have n: "demo_net (es @ map N_Server [S_Tau, S_Tau, S_Window (Created 5), S_Tau, S_Window (Checked 5 1 0 NEW None), S_Exec 5 1, S_Window (Replied 5 1 rb)]) k
      (demo_at (demo_recorded rb) (DRecorded 3 5 (Block 0 (length rb)))) rq {}"
    using arr [OF n 2(2)] by simp
  have n: "demo_net (es @ map N_Server [S_Tau, S_Tau, S_Window (Created 5), S_Tau, S_Window (Checked 5 1 0 NEW None), S_Exec 5 1, S_Window (Replied 5 1 rb), S_Tau]) k
      (demo_at (demo_recorded rb) (DSend 3 (Block 0 (length rb)))) rq {}"
    using arr [OF n 2(3)] by simp
  have n: "demo_net (es @ map N_Server [S_Tau, S_Tau, S_Window (Created 5), S_Tau, S_Window (Checked 5 1 0 NEW None), S_Exec 5 1, S_Window (Replied 5 1 rb), S_Tau, S_Send 3 rb]) k
      (demo_at (demo_recorded rb) (DEnd 3)) rq {rb}"
    using arr [OF n 2(4)] by simp
  show thesis by (rule that [OF n _ 2(5,6)]) simp
qed

lemma server_events: "cl_events c (map N_Server es) = []" "srv_events (map N_Server es) = es"
  by (induction es) (simp_all add: cl_events_def srv_events_def)

lemma demo_procs_good: "\<forall>f\<in>ran (sv_procs demo_srv). good_handler f"
proof -
  have "appends (\<lambda>m. put_int mem m r)" for mem r unfolding put_int_def by (intro writer_intros)
  then show ?thesis using good_h_fn1 [of put_int] by (auto simp: demo_srv_def)
qed

text \<open>The whole call, up to the point where it returns.\<close>

lemma demo_net_call:
  obtains es n m ch u c' where "race_free demo_srv 0 0 es n" "\<forall>c. calls_begun (cl_events c es) \<le> 1" "cy_ph (nw_cl n 5) 0 = CCalling 1 m 0 ch"
    "call1_end 0 m 0 ch (cy_cl (nw_cl n 5)) = Inr (0, u, False, c')"
proof -
  let ?c = "rpcc_new True 5 0 0" and ?new = "Some (2, fst (conn_new 6 (0, 0) 0))"
  have side: "client_side ?new ?c" "may_call rpc_bind ?c" "call_header rpc_bind ?c = demo_hdr" "cl_xid ?c = 1" "hd (cl_window ?c) = 0"
    using connects_new [of 2 6 "(0, 0)" 0]
    by (auto simp: client_side_def may_call_def call_header_def demo_hdr_def rpcc_new_def isvalid_def request_clear_def chan_ready_def xid_inv_def xid_abs_def rpc_bind_def)
  obtain req where req: "m_wf req" "m_body req = be32 0" "m_ind req = 28"
    by (rule call_1_request [OF int_codec.codec_axioms, where a = 0 and mem = "\<lambda>_. 0"]) simp_all
  obtain m where m: "call1_begin (\<lambda>_. 0) 0 0 rpc_bind req ?c = Inr (Begun m 0 (calling 0 0 ?c))" "m_wf m" "m_ind m = 28" "req_msg demo_hdr (be32 0) (m_bytes m)"
    using call1_begin_ok [OF side(2) req(1), of "\<lambda>_. 0" 0 0] unfolding side(3,5) req(2,3) by metis
  have len: "length (m_bytes m) = 28" using m(2,3) by (auto simp: m_bytes_def elim!: m_wfE)
  let ?ph = "\<lambda>ch. (\<lambda>_. CIdle)(0 := CCalling 1 m 0 ch)"
  obtain d c1 where tr: "transmit m ?new None (calling 0 0 ?c) = Inr (Some d, c1, [(d, m_bytes m)])"
    by (rule client_part [OF side(1), where ret = 0 and body = "[]" and b = "replicate 4 0 @ enc_reply_header \<lparr>rp_xid = 1, rp_ret = 0\<rparr> @ replicate 12 0"])
      (simp_all add: side(4) reply_msg_def)
  have 1: "demo_net [N_Server S_Tau, N_Client 5 (C_Begin 0 1 0)] \<lparr>cy_cl = calling 0 0 ?c, cy_ph = ?ph None\<rparr> (demo_at demo_srv DIdle) {} {}"
    using demo_net_client(1) [OF demo_net_start _ req(1), of 0 "\<lambda>_. 0" 0 rpc_bind m 0 "calling 0 0 ?c"] m(1) side(4) by simp
  have "cl_step \<lparr>cy_cl = calling 0 0 ?c, cy_ph = ?ph None\<rparr> (C_Send [(d, m_bytes m)]) \<lparr>cy_cl = c1, cy_ph = (?ph None)(0 := CCalling 1 m 0 (Some d))\<rparr>"
    by (rule cl_step.sends [OF _ _ tr]) (auto simp: calling_def rpcc_new_def)
  from demo_net_client(2) [OF 1 this]
  have 2: "demo_net [N_Server S_Tau, N_Client 5 (C_Begin 0 1 0), N_Client 5 (C_Send [(d, m_bytes m)])] \<lparr>cy_cl = c1, cy_ph = ?ph (Some d)\<rparr>
      (demo_at demo_srv DIdle) {m_bytes m} {}" by simp
  obtain es s rb where 3: "demo_net ([N_Server S_Tau, N_Client 5 (C_Begin 0 1 0), N_Client 5 (C_Send [(d, m_bytes m)])] @ map N_Server es)
      \<lparr>cy_cl = c1, cy_ph = ?ph (Some d)\<rparr> s {m_bytes m} {rb}" "reply_msg \<lparr>rp_xid = 1, rp_ret = 0\<rparr> (be32 7) rb" "length rb = 28"
    by (rule demo_net_serve [OF 2 _ m(4)]) (simp_all add: len MAX_PDU_def)
  obtain d' c1' c2 u c' where tr': "transmit m ?new None (calling 0 0 ?c) = Inr (Some d', c1', [(d', m_bytes m)])"
    and del: "deliver [(d', rb)] c1' = Inr c2" and e: "call1_end 0 m 0 (Some d') c2 = Inr (0, u, False, c')"
    by (rule client_part [OF side(1), where ret = 0 and body = "be32 7" and b = rb]) (use 3 side(4) in simp_all)
  have same: "d' = d" "c1' = c1" using tr tr' by simp_all
  have len: "length (wire rb) = 28" using 3(3) by (simp add: length_wire)
  note u = reply_msg_reader(1) [OF wire_reply [OF 3(2)], of "[]", unfolded len append_Nil2]
  have "rpcc_got_pdu (wire rb) (length rb) c1 = Inr c2" using del same by (simp add: bind_r_eq_Inr)
  then have 4: "demo_net (([N_Server S_Tau, N_Client 5 (C_Begin 0 1 0), N_Client 5 (C_Send [(d, m_bytes m)])] @ map N_Server es) @ [N_Client 5 (C_Pdu 1 0)])
      \<lparr>cy_cl = c2, cy_ph = ?ph (Some d)\<rparr> s {m_bytes m} {rb}"
    using demo_net_client(3) [OF 3(1), of rb] u 3(3) by (simp add: MAX_PDU_def)
  then show thesis
    unfolding demo_net_def
  proof (elim exE)
    fix iss lg assume run: "race_free demo_srv 0 0 (([N_Server S_Tau, N_Client 5 (C_Begin 0 1 0), N_Client 5 (C_Send [(d, m_bytes m)])] @ map N_Server es) @ [N_Client 5 (C_Pdu 1 0)])
      \<lparr>nw_cl = (nw_cl (net_start demo_srv 0 0))(5 := \<lparr>cy_cl = c2, cy_ph = ?ph (Some d)\<rparr>), nw_srv = s,
        nw_peer = (\<lambda>_. 5), nw_req = (\<lambda>_. {})(5 := {m_bytes m}), nw_rep = (\<lambda>_. {})(5 := {rb}), nw_issued = iss, nw_log = lg\<rparr>"
    show thesis
    proof (rule that [OF run])
      show "\<forall>c. calls_begun (cl_events c (([N_Server S_Tau, N_Client 5 (C_Begin 0 1 0), N_Client 5 (C_Send [(d, m_bytes m)])] @ map N_Server es) @ [N_Client 5 (C_Pdu 1 0)])) \<le> 1"
        unfolding events_append server_events by (simp add: cl_events_def)
    qed (use e same in simp_all)
  qed
qed

section \<open>Properties\<close>

text \<open>
  C1: exactly once, end to end, in every run that is free of the two data races of \<^verbatim>\<open>rpcs\<close>: no block of the reply window is freed
  while a dispatch thread is still to send from it, and no job is deleted while the pool has it.  Any number of clients call any registered methods of one server, from any number of threads, over a
  network that loses, repeats, delays and reorders messages, with connections that come and go.  When a call returns a
  status other than a timeout, a cancellation or the failure of an old server instance, then the handler of its procedure ran exactly
  once for it, on exactly the arguments that the stub marshalled, and the caller gets the status and the bytes of that one run.
  A call never returns \<open>atmostonce_failure\<close>: the server forgets replies only of calls that are over.
\<close>

theorem network_exactly_once:
  assumes "race_free v lossy junk es n" "\<forall>c. calls_begun (cl_events c es) + 2 < 2 ^ 32" "\<forall>f\<in>ran (sv_procs v). good_handler f"
    and "c \<noteq> 0" "cy_ph (nw_cl n c) t = CCalling x req xr ch" "call1_end t req xr ch (cy_cl (nw_cl n c)) = Inr (ret, u, sig, s')"
  shows "ret \<in> {timeout_failure, cancel_failure, oldsrv_failure}
    \<or> 0 \<le> sint ret \<and> count_list (srv_events es) (S_Exec c x) = 1 \<and> (\<exists>body. u_at u body \<and> handled (sv_procs v) c x (m_bytes req) ret body)"
proof -
  have good: "good_handler f" if "sv_procs v k = Some f" for k f using assms(3) that by (auto simp: ran_def)
  have few: "calls_begun (cl_events c es) + 2 < 2 ^ 32" for c using assms(2) by blast
  show ?thesis
    by (rule call_outcome [OF assms(1) few _ assms(5,6)]) (use good executed_once [OF race_free_net_run [OF assms(1)] assms(4)] in blast)+
qed

theorem network_exactly_once_witness:
  "\<exists>es n m ch u. race_free demo_srv 0 0 es n \<and> cy_ph (nw_cl n 5) 0 = CCalling 1 m 0 ch
     \<and> count_list (srv_events es) (S_Exec 5 1) = 1 \<and> (\<exists>body. u_at u body \<and> handled (sv_procs demo_srv) 5 1 (m_bytes m) 0 body)"
proof -
  obtain es n m ch u c' where d: "race_free demo_srv 0 0 es n" "\<forall>c. calls_begun (cl_events c es) \<le> 1" "cy_ph (nw_cl n 5) 0 = CCalling 1 m 0 ch"
    "call1_end 0 m 0 ch (cy_cl (nw_cl n 5)) = Inr (0, u, False, c')"
    by (rule demo_net_call)
  have few: "\<forall>c. calls_begun (cl_events c es) + 2 < 2 ^ 32" using d(2) le_less_trans [of _ 1 "2 ^ 32 - 2"] by fastforce
  have "(0 :: i32) \<notin> {timeout_failure, cancel_failure, oldsrv_failure}" by (simp add: timeout_failure_def cancel_failure_def oldsrv_failure_def)
  then have "count_list (srv_events es) (S_Exec 5 1) = 1 \<and> (\<exists>body. u_at u body \<and> handled (sv_procs demo_srv) 5 1 (m_bytes m) 0 body)"
    using network_exactly_once [OF d(1) few demo_procs_good _ d(3,4)] by simp
  then show ?thesis using d(1,3) by blast
qed

text \<open>
  C2: the server is one object.  The executions of any run without the data races of \<^verbatim>\<open>rpcs\<close>, in the order in which they happen, are a sequential history of the object that
  the server was given: each runs the registered handler on the arguments of its request and on the state that the one before left, and
  the last state is the object's.  Every request is executed after its call has begun; and every call
  that returns a status other than a timeout, a cancellation or an old server's failure has its execution in the history, with this status and the bytes it returns.
  So the remote object is linearizable, whatever the network loses, repeats or reorders.
\<close>

theorem network_linearizable:
  assumes "race_free v lossy junk es n" "\<forall>c. calls_begun (cl_events c es) + 2 < 2 ^ 32" "\<forall>f\<in>ran (sv_procs v). good_handler f"
  shows "\<exists>hs. atomic (sv_procs v) (nw_issued n) (sv_obj v) hs (sv_obj (ss_srv (nw_srv n))) \<and> map execution hs = filter is_exec (srv_events es)
    \<and> (\<forall>es1 c x es2. es = es1 @ N_Server (S_Exec c x) # es2 \<longrightarrow> (\<exists>t xr. N_Client c (C_Begin t x xr) \<in> set es1))
    \<and> (\<forall>c t x req xr ch ret u sig s'. cy_ph (nw_cl n c) t = CCalling x req xr ch \<and> call1_end t req xr ch (cy_cl (nw_cl n c)) = Inr (ret, u, sig, s')
         \<longrightarrow> ret \<in> {timeout_failure, cancel_failure, oldsrv_failure}
           \<or> nw_issued n c x = Some (m_bytes req) \<and> (\<exists>body. (c, x, ret, body) \<in> set hs \<and> u_at u body))"
proof -
  have good: "good_handler f" if "sv_procs v k = Some f" for k f using assms(3) that by (auto simp: ran_def)
  have few: "calls_begun (cl_events c es) + 2 < 2 ^ 32" for c using assms(2) by blast
  obtain hs where hs: "history_of v es n hs" using history_exists [OF assms(1) few] good by blast
  have begun: "\<exists>t xr. N_Client c (C_Begin t x xr) \<in> set es1" if "es = es1 @ N_Server (S_Exec c x) # es2" for es1 c x es2
    using executed_after_begin [OF assms(1) [unfolded that]] few good that by blast
  have "ret \<in> {timeout_failure, cancel_failure, oldsrv_failure} \<or> nw_issued n c x = Some (m_bytes req) \<and> (\<exists>body. (c, x, ret, body) \<in> set hs \<and> u_at u body)"
    if "cy_ph (nw_cl n c) t = CCalling x req xr ch" "call1_end t req xr ch (cy_cl (nw_cl n c)) = Inr (ret, u, sig, s')" for c t x req xr ch ret u sig s'
  proof (rule call_outcome [OF assms(1) few _ that])
    fix body assume "u_at u body" "result_of (hist_of es n) c x ret body" "nw_issued n c x = Some (m_bytes req)"
    then show ?thesis using hs by (fastforce simp: result_of_def history_of_def)
  qed (use good in blast)+
  then show ?thesis using hs begun unfolding history_of_def by blast
qed

theorem network_linearizable_witness:
  "\<exists>es n hs m ch u body. race_free demo_srv 0 0 es n \<and> atomic (sv_procs demo_srv) (nw_issued n) () hs () \<and> map execution hs = filter is_exec (srv_events es)
     \<and> cy_ph (nw_cl n 5) 0 = CCalling 1 m 0 ch \<and> (5, 1, 0, body) \<in> set hs \<and> u_at u body"
proof -
  obtain es n m ch u c' where d: "race_free demo_srv 0 0 es n" "\<forall>c. calls_begun (cl_events c es) \<le> 1" "cy_ph (nw_cl n 5) 0 = CCalling 1 m 0 ch"
    "call1_end 0 m 0 ch (cy_cl (nw_cl n 5)) = Inr (0, u, False, c')"
    by (rule demo_net_call)
  have few: "\<forall>c. calls_begun (cl_events c es) + 2 < 2 ^ 32" using d(2) le_less_trans [of _ 1 "2 ^ 32 - 2"] by fastforce
  have "(0 :: i32) \<notin> {timeout_failure, cancel_failure, oldsrv_failure}" by (simp add: timeout_failure_def cancel_failure_def oldsrv_failure_def)
  then obtain hs body where "atomic (sv_procs demo_srv) (nw_issued n) (sv_obj demo_srv) hs (sv_obj (ss_srv (nw_srv n)))"
    "map execution hs = filter is_exec (srv_events es)" "(5, 1, 0, body) \<in> set hs" "u_at u body"
    using network_linearizable [OF d(1) few demo_procs_good] d(3,4) by blast
  then have "race_free demo_srv 0 0 es n \<and> atomic (sv_procs demo_srv) (nw_issued n) () hs () \<and> map execution hs = filter is_exec (srv_events es)
     \<and> cy_ph (nw_cl n 5) 0 = CCalling 1 m 0 ch \<and> (5, 1, 0, body) \<in> set hs \<and> u_at u body"
    using d(1,3) by simp
  then show ?thesis by (intro exI)
qed

end
