(* ===== verification/Dispatch_Run.thy ===== *)
theory Dispatch_Run
  imports Network Lock_Service
begin

text \<open>
  One exchange between a client and its server as a run of the network.

  \<open>served\<close> is a run of the server's threads in which nothing new arrives and no thread is disturbed.  A call of the function
  \<open>dispatch\<close> is such a run of one thread from the arrival of a message to its end, with every other thread idle.  On top of that
  one exchange of theory \<open>Remote_Call\<close>, in which a client and its server take turns, is a run of the network of theory
  \<open>Network\<close>.
\<close>

section \<open>Uninterrupted runs of one thread\<close>

text \<open>The server with one thread in phase \<open>p\<close>, and the runs in which only this thread moves.\<close>

definition thread_at :: "(nat \<Rightarrow> 'o dphase) \<Rightarrow> nat \<Rightarrow> nat set \<Rightarrow> 'o rpcs \<Rightarrow> 'o dphase \<Rightarrow> 'o srvsys" where
  "thread_at ph t L v p = \<lparr>ss_srv = v, ss_ph = ph(t := p), ss_listed = L\<rparr>"

definition keeps_own :: "'o rpcs \<Rightarrow> 'o dphase \<Rightarrow> 'o rpcs \<Rightarrow> 'o dphase \<Rightarrow> bool" where
  "keeps_own v p v' p' \<longleftrightarrow> (\<forall>cid b sz. p' \<noteq> DArrived cid b sz) \<and> p' \<noteq> DDeleted \<and> (refers p = None \<or> rw_heap (sv_win v') = rw_heap (sv_win v))"

inductive served :: "(nat \<Rightarrow> 'o dphase) \<Rightarrow> nat \<Rightarrow> nat set \<Rightarrow> 'o rpcs \<Rightarrow> 'o dphase \<Rightarrow> sevent list \<Rightarrow> 'o rpcs \<Rightarrow> 'o dphase \<Rightarrow> bool"
  for ph t L v p where
  served_none: "served ph t L v p [] v p"
| served_more: "served ph t L v p es v' p' \<Longrightarrow> srv_step (thread_at ph t L v' p') e (thread_at ph t L v'' p'') \<Longrightarrow> keeps_own v' p' v'' p'' \<Longrightarrow>
     served ph t L v p (es @ [e]) v'' p''"

lemma served_trans: "served ph t L v1 p1 es' v2 p2 \<Longrightarrow> served ph t L v p es v1 p1 \<Longrightarrow> served ph t L v p (es @ es') v2 p2"
proof (induction rule: served.induct)
  case (served_more es' v' p' e v'' p'')
  from served.served_more [OF served_more.IH [OF served_more.prems] served_more.hyps(2,3)] show ?case by simp
qed simp

lemma served_thread:
  assumes "srv_step (thread_at ph t L v p) e (thread_at ph t L v' p')" "\<And>cid b sz. p' \<noteq> DArrived cid b sz" "p' \<noteq> DDeleted"
    and "refers p = None \<or> rw_heap (sv_win v') = rw_heap (sv_win v)"
  shows "served ph t L v p [e] v' p'"
  using served_more [OF served_none assms(1)] assms(2-4) by (simp add: keeps_own_def)

text \<open>What is sent in a run.\<close>

primrec sent_in :: "sevent \<Rightarrow> (nat \<times> byte list) list" where
  "sent_in (S_Window e) = []"
| "sent_in (S_Exec c x) = []"
| "sent_in (S_Send d bs) = [(d, bs)]"
| "sent_in (S_Reachable r) = []"
| "sent_in S_Tau = []"

definition sends_of :: "sevent list \<Rightarrow> (nat \<times> byte list) list" where
  "sends_of es = concat (map sent_in es)"

lemma sends_of_simps [simp]: "sends_of [] = []" "sends_of (e # es) = sent_in e @ sends_of es" "sends_of (es @ es') = sends_of es @ sends_of es'"
  by (simp_all add: sends_of_def)

section \<open>The steps of dispatch\<close>

lemma drop_replies_blocks: "drop_replies xr h rs = Inr (h', rs') \<Longrightarrow> dom h' \<subseteq> dom h"
proof (induction rs arbitrary: h)
  case (Cons r rs)
  show ?case
  proof (cases "rt_xid r < xr")
    case True
    then obtain h1 where h1: "free_block h (rt_buf r) = Inr h1" "drop_replies xr h1 rs = Inr (h', rs')" using Cons.prems by (auto simp: bind_r_eq_Inr)
    have "dom h1 \<subseteq> dom h" using h1(1) by (auto simp: free_block_def split: option.splits if_splits)
    then show ?thesis using Cons.IH [OF h1(2)] by blast
  qed (use Cons.prems in simp)
qed simp

lemma lower_bound_blocks:
  assumes "update_lower_bound c xr w = Inr w1"
  shows "dom (rw_heap w1) \<subseteq> dom (rw_heap w)"
proof (cases "\<exists>lb rs. reply_lower_bound w c = Some lb \<and> lb < xr \<and> reply_window w c = Some rs")
  case True
  then obtain lb rs where w: "reply_lower_bound w c = Some lb" "lb < xr" "reply_window w c = Some rs" by blast
  then obtain h rs' where "drop_replies xr (rw_heap w) rs = Inr (h, rs')" "rw_heap w1 = h"
    using assms by (auto simp: update_lower_bound_def Let_def bind_r_eq_Inr split: option.splits if_splits)
  then show ?thesis using drop_replies_blocks by blast
next
  case False
  then have "rw_heap w1 = rw_heap w"
    using assms by (cases "reply_lower_bound w c"; cases "reply_window w c") (auto simp: update_lower_bound_def Let_def split: if_splits)
  then show ?thesis by simp
qed

lemma remember_heap: "rw_heap (fst (remember_xid c x w)) = rw_heap w"
  by (simp add: remember_xid_def split: option.split)

lemma check_blocks:
  assumes "checkduplicate_and_update c x xr w = Inr (w', stat, out)"
  shows "dom (rw_heap w') \<subseteq> dom (rw_heap w)"
proof -
  obtain w1 where w1: "update_lower_bound c xr w = Inr w1" using assms by (auto simp: checkduplicate_and_update_def bind_r_eq_Inr)
  obtain w2 old where w2: "remember_xid c x w1 = (w2, old)" by (cases "remember_xid c x w1")
  have "rw_heap w' = rw_heap w2"
    using assms w1 w2 by (auto simp: checkduplicate_and_update_def Let_def split: option.splits if_splits)
  then show ?thesis using remember_heap [of c x w1] w2 lower_bound_blocks [OF w1] by simp
qed

abbreviation blocks :: "'o rpcs \<Rightarrow> nat set" where
  "blocks v \<equiv> dom (rw_heap (sv_win v))"

lemma create_window_heap: "rw_heap (create_window c w) = rw_heap w"
  by (simp add: create_window_def split: option.split)

lemma runs_by: "served ph t L v p es v' p' \<Longrightarrow> sends_of es = ms \<Longrightarrow> \<exists>es. served ph t L v p es v' p' \<and> sends_of es = ms"
  by blast

text \<open>After the verdict.\<close>

lemma switch_runs:
  assumes sw: "dispatch_switch mem a h req f stat out cid v = Inr (d, v', ms)"
    and free: "rw_heap (sv_win v) a = None"
    and p: "after_check mem stat out cid h req f = Inr p"
  shows "\<exists>es. served ph t L v p es v' (DEnd d) \<and> sends_of es = ms"
proof (cases stat)
  case NEW
  then obtain ret rep v1 bs v2 d' v3 m where E: "execute mem (rq_proc h) req f v = Inr (ret, rep, v1)" "finish_reply mem (rq_xid h) ret rep = Inr bs"
    "record_reply (rq_clt_nonce h) (rq_xid h) a bs v1 = Inr v2" "latest_conn (rq_clt_nonce h) cid v2 = Inr (d, v')"
    "send_on d (reply_src (rq_clt_nonce h) a bs) v' = Inr m" "ms = [m]" "p = DRun cid h req f"
    using sw p by (auto simp: dispatch_switch_def after_check_def bind_r_eq_Inr)
  let ?src = "reply_src (rq_clt_nonce h) a bs"
  have w: "sv_win v1 = sv_win v" "sv_win v' = sv_win v2" using execute_win [OF E(1)] latest_conn_win [OF E(4)] by simp_all
  have 1: "served ph t L v p [S_Exec (rq_clt_nonce h) (rq_xid h)] v1 (DReturned cid h ret rep)"
    by (rule served_thread) (use srv_step.running [of "ph(t := p)" t] E(1,7) w(1) in \<open>auto simp: thread_at_def\<close>)
  have 2: "served ph t L v1 (DReturned cid h ret rep) [if rq_clt_nonce h > 0 then S_Window (Replied (rq_clt_nonce h) (rq_xid h) bs) else S_Tau]
      v2 (DRecorded cid (rq_clt_nonce h) ?src)"
    by (rule served_thread) (use srv_step.recording [of "ph(t := DReturned cid h ret rep)" t cid h ret rep v1 a mem bs v2 L] E(2,3) w(1) free in \<open>auto simp: thread_at_def\<close>)
  have 3: "served ph t L v2 (DRecorded cid (rq_clt_nonce h) ?src) [S_Tau] v' (DSend d ?src)"
    using srv_step.choosing [of "ph(t := DRecorded cid (rq_clt_nonce h) ?src)" t cid "rq_clt_nonce h" ?src v2 d v' L] E(4) w(2)
    by (intro served_thread) (auto simp: thread_at_def)
  have 4: "served ph t L v' (DSend d ?src) [S_Send (fst m) (snd m)] v' (DEnd d)"
    using srv_step.sending [of "ph(t := DSend d ?src)" t d ?src v' "fst m" "snd m" L] E(5)
    by (intro served_thread) (auto simp: thread_at_def)
  show ?thesis
    by (rule runs_by [OF served_trans [OF 4 served_trans [OF 3 served_trans [OF 2 1]]]]) (use E(6) in simp)
next
  case INPROGRESS
  then show ?thesis using sw p by (intro runs_by [where es = "[]"]) (auto simp: dispatch_switch_def after_check_def served_none)
next
  case DONE
  then obtain b m where E: "done_src out = Inr b" "send_on cid b v = Inr m" "d = cid" "v' = v" "ms = [m]" "p = DSend cid b"
    using sw p by (auto simp: dispatch_switch_def after_check_def bind_r_eq_Inr)
  have "served ph t L v p [S_Send (fst m) (snd m)] v (DEnd cid)"
    using srv_step.sending [of "ph(t := p)" t cid b v "fst m" "snd m" L] E
    by (intro served_thread) (auto simp: thread_at_def)
  from runs_by [OF this] show ?thesis using E(3-5) by simp
next
  case FORGOTTEN
  then obtain bs m where E: "failure_reply mem (rq_xid h) atmostonce_failure = Inr bs" "send_on cid (Local bs) v = Inr m" "d = cid" "v' = v" "ms = [m]"
      "p = DSend cid (Local bs)"
    using sw p by (auto simp: dispatch_switch_def after_check_def bind_r_eq_Inr)
  have "served ph t L v p [S_Send (fst m) (snd m)] v (DEnd cid)"
    using srv_step.sending [of "ph(t := p)" t cid "Local bs" v "fst m" "snd m" L] E
    by (intro served_thread) (auto simp: thread_at_def)
  from runs_by [OF this] show ?thesis using E(3-5) by simp
qed

text \<open>From the arrival of a request to the verdict on it.\<close>

lemma classify_runs:
  assumes arr: "dispatch_begin mem buf sz v = Inr (Request h req f)" and cl: "classify h cid v = Inr (v1, stat, out)"
    and p: "after_check mem stat out cid h req f = Inr p"
  shows "\<exists>es. served ph t L v (DArrived cid buf sz) es v1 p \<and> sends_of es = [] \<and> blocks v1 \<subseteq> blocks v"
proof -
  have found: "served ph t L v (DArrived cid buf sz) [S_Tau]
      v (if rq_clt_nonce h \<noteq> 0 then DFound cid h req f else DRun cid h req f)"
    using srv_step.found [of "ph(t := DArrived cid buf sz)" t cid buf sz mem v h req f L] arr
    by (intro served_thread) (auto simp: thread_at_def)
  show ?thesis
  proof (cases "rq_clt_nonce h = 0")
    case True
    then have "v1 = v" "p = DRun cid h req f" using cl p by (auto simp: classify_def after_check_def)
    then show ?thesis using found True runs_by [OF found, where ms = "[]"] by simp
  next
    case False
    let ?vw = "v\<lparr>sv_win := create_window (rq_clt_nonce h) (sv_win v)\<rparr>"
    obtain vs w where S: "save_conn (rq_clt_nonce h) cid ?vw = Inr vs"
        "checkduplicate_and_update (rq_clt_nonce h) (rq_xid h) (rq_xid_rep h) (sv_win vs) = Inr (w, stat, out)" "v1 = vs\<lparr>sv_win := w\<rparr>"
      using cl False by (auto simp: classify_def bind_r_eq_Inr)
    have heap: "rw_heap (sv_win ?vw) = rw_heap (sv_win v)" "sv_win vs = sv_win ?vw" "dom (rw_heap w) \<subseteq> blocks vs"
      using save_conn_win [OF S(1)] check_blocks [OF S(2)] by (simp_all add: create_window_heap)
    have 1: "served ph t L v (DFound cid h req f) [S_Window (Created (rq_clt_nonce h))] ?vw (DCreated cid h req f)"
      using srv_step.creating [of "ph(t := DFound cid h req f)" t cid h req f v L] heap(1)
      by (intro served_thread) (auto simp: thread_at_def)
    have 2: "served ph t L ?vw (DCreated cid h req f) [S_Tau] vs (DSaved cid h req f)"
      using srv_step.saving [of "ph(t := DCreated cid h req f)" t cid h req f ?vw vs L] S(1) heap(2)
      by (intro served_thread) (auto simp: thread_at_def)
    have 3: "served ph t L vs (DSaved cid h req f) [S_Window (Checked (rq_clt_nonce h) (rq_xid h) (rq_xid_rep h) stat out)] v1 p"
    proof (rule served_thread)
      show "p \<noteq> DArrived cid' b s" "p \<noteq> DDeleted" for cid' b s
        using p by (cases stat; auto simp: after_check_def bind_r_eq_Inr)+
    qed (use srv_step.checked [of "ph(t := DSaved cid h req f)" t cid h req f vs w stat out mem p L] S(2,3) p heap(3) in
        \<open>auto simp: thread_at_def\<close>)
    have "blocks v1 \<subseteq> blocks v" using heap S(3) by simp
    moreover have "served ph t L v (DArrived cid buf sz) [S_Tau] v (DFound cid h req f)" using found False by simp
    from runs_by [OF served_trans [OF 3 served_trans [OF 2 served_trans [OF 1 this]]]]
    have "\<exists>es. served ph t L v (DArrived cid buf sz) es v1 p \<and> sends_of es = []" by simp
    ultimately show ?thesis by blast
  qed
qed

text \<open>The whole of \<open>dispatch\<close>, from the arrival of a message.\<close>

lemma dispatch_runs:
  assumes d: "dispatch mem a cid buf sz v = Inr (v', ms)" and free: "rw_heap (sv_win v) a = None"
  shows "\<exists>es. served ph t L v (DArrived cid buf sz) es v' DIdle \<and> sends_of es = ms"
proof -
  obtain arr where arr: "dispatch_begin mem buf sz v = Inr arr" using d by (auto simp: dispatch_def bind_r_eq_Inr)
  have ending: "served ph t L v1 (DEnd d) [S_Tau] v2 DIdle" if "unref_conn d v1 = Inr v2" for v1 v2 d
    using srv_step.ending [of "ph(t := DEnd d)" t d v1 v2 L] that keeps(2) [OF that]
    by (intro served_thread) (auto simp: thread_at_def)
  show ?thesis
  proof (cases arr)
    case Bad_Header
    then have E: "unref_conn cid v = Inr v'" "ms = []" using d arr by (auto simp: dispatch_def bind_r_eq_Inr)
    have "served ph t L v (DArrived cid buf sz) [S_Tau] v (DEnd cid)"
      using srv_step.bad [of "ph(t := DArrived cid buf sz)" t cid buf sz mem v L] arr Bad_Header
      by (intro served_thread) (auto simp: thread_at_def)
    from runs_by [OF served_trans [OF ending [OF E(1)] this]] show ?thesis using E(2) by simp
  next
    case (Old_Server bs)
    then obtain m where E: "send_on cid (Local bs) v = Inr m" "v' = v" "ms = [m]" using d arr by (auto simp: dispatch_def bind_r_eq_Inr)
    have "served ph t L v (DArrived cid buf sz) [S_Send (fst m) (snd m)] v DIdle"
      using srv_step.old [of "ph(t := DArrived cid buf sz)" t cid buf sz mem v bs "fst m" "snd m" L] arr Old_Server E(1)
      by (intro served_thread) (auto simp: thread_at_def)
    from runs_by [OF this] show ?thesis using E by simp
  next
    case (Request h req f)
    then obtain v1 stat out d' v2 where E: "classify h cid v = Inr (v1, stat, out)" "dispatch_switch mem a h req f stat out cid v1 = Inr (d', v2, ms)"
        "unref_conn d' v2 = Inr v'" using d arr by (auto simp: dispatch_def bind_r_eq_Inr)
    obtain p where p: "after_check mem stat out cid h req f = Inr p"
      using E(2) by (cases stat) (auto simp: after_check_def dispatch_switch_def bind_r_eq_Inr)
    have "\<exists>es. served ph t L v (DArrived cid buf sz) es v1 p \<and> sends_of es = [] \<and> rw_heap (sv_win v1) a = None"
      using classify_runs [OF arr [unfolded Request] E(1) p] free by blast
    then obtain es where es: "served ph t L v (DArrived cid buf sz) es v1 p" "sends_of es = []" "rw_heap (sv_win v1) a = None"
      by blast
    have "\<exists>es'. served ph t L v1 p es' v2 (DEnd d') \<and> sends_of es' = ms"
      by (rule switch_runs [OF E(2) es(3) p])
    then obtain es' where es': "served ph t L v1 p es' v2 (DEnd d')" "sends_of es' = ms" by blast
    from runs_by [OF served_trans [OF ending [OF E(3)] served_trans [OF es'(1) es(1)]]] show ?thesis
      using es(2) es'(2) by simp
  qed
qed

section \<open>Runs of the network\<close>

text \<open>A run, which moreover is free of races if \<open>calm\<close>.\<close>

definition runs :: "bool \<Rightarrow> 'o rpcs \<Rightarrow> int \<Rightarrow> i32 \<Rightarrow> nevent list \<Rightarrow> 'o net \<Rightarrow> bool" where
  "runs calm v lossy junk es n \<longleftrightarrow> net_run v lossy junk es n \<and> (calm \<longrightarrow> race_free v lossy junk es n)"

lemma runs_more:
  "runs calm v lossy junk es n \<Longrightarrow> net_step n e n' \<Longrightarrow> undisturbed (nw_srv n) (nw_srv n') \<Longrightarrow> runs calm v lossy junk (es @ [e]) n'"
  unfolding runs_def by (blast intro: net_more race_free_more)

lemma runs_client:
  "runs calm v lossy junk es n \<Longrightarrow> net_step n e n' \<Longrightarrow> nw_srv n' = nw_srv n \<Longrightarrow> runs calm v lossy junk (es @ [e]) n'"
  unfolding runs_def by (blast intro: net_more race_free_client)

lemma runs_race_free: "runs True v lossy junk es n \<longleftrightarrow> race_free v lossy junk es n"
  by (auto simp: runs_def race_free_net_run)

text \<open>A run of the server's threads inside the network; the messages sent are then on their way.\<close>

lemma net_served:
  assumes "served ph t L w p se w' p'" "runs calm v lossy junk es n" "nw_srv n = thread_at ph t L w p" and idle: "\<And>u. ph u = DIdle"
  shows "\<exists>rp lg. runs calm v lossy junk (es @ map N_Server se) (n\<lparr>nw_srv := thread_at ph t L w' p', nw_rep := rp, nw_log := lg\<rparr>)
    \<and> (\<forall>c. nw_rep n c \<subseteq> rp c) \<and> (\<forall>(d, bs)\<in>set (sends_of se). bs \<in> rp (nw_peer n d))"
  using assms(1)
proof (induction rule: served.induct)
  case served_none
  have "runs calm v lossy junk (es @ map N_Server []) (n\<lparr>nw_srv := thread_at ph t L w p, nw_rep := nw_rep n, nw_log := nw_log n\<rparr>)"
    unfolding assms(3) [symmetric] using assms(2) by simp
  then show ?case by fastforce
next
  case (served_more se w1 p1 e w2 p2)
  let ?s1 = "thread_at ph t L w1 p1" and ?s2 = "thread_at ph t L w2 p2"
  obtain rp lg where IH: "runs calm v lossy junk (es @ map N_Server se) (n\<lparr>nw_srv := ?s1, nw_rep := rp, nw_log := lg\<rparr>)"
    "\<forall>c. nw_rep n c \<subseteq> rp c" "\<forall>(d, bs)\<in>set (sends_of se). bs \<in> rp (nw_peer n d)" using served_more.IH by blast
  let ?n = "n\<lparr>nw_srv := ?s1, nw_rep := rp, nw_log := lg\<rparr>"
  have own: "keeps_own w1 p1 w2 p2" by (rule served_more.hyps(3))
  then have "sent_before ?n ?s2" by (auto simp: sent_before_def keeps_own_def thread_at_def)
  then have step: "net_step ?n (N_Server e) (?n\<lparr>nw_srv := ?s2, nw_peer := nw_peer n, nw_rep := (\<lambda>c. nw_rep ?n c \<union> rep_sent (nw_peer n) e c),
      nw_log := nw_log ?n \<union> returned (nw_srv ?n) ?s2\<rparr>)"
    using net_step.server [of ?n e ?s2 "nw_peer n"] served_more.hyps(2) by simp
  have "\<forall>(d, bs)\<in>set (sends_of (se @ [e])). bs \<in> rp (nw_peer n d) \<union> rep_sent (nw_peer n) e (nw_peer n d)"
    using IH(3) by (cases e) auto
  moreover have "\<forall>c. nw_rep n c \<subseteq> rp c \<union> rep_sent (nw_peer n) e c" using IH(2) by blast
  moreover have calm: "undisturbed ?s1 ?s2"
    by (rule undisturbed_quiet) (use own idle in \<open>auto simp: keeps_own_def thread_at_def\<close>)
  moreover have "runs calm v lossy junk (es @ map N_Server (se @ [e]))
      (n\<lparr>nw_srv := ?s2, nw_rep := \<lambda>c. rp c \<union> rep_sent (nw_peer n) e c, nw_log := lg \<union> returned ?s1 ?s2\<rparr>)"
    using runs_more [OF IH(1) step] calm by simp
  ultimately show ?case by blast
qed

text \<open>A message that a client has sent is served by an idle thread.\<close>

lemma net_serve:
  fixes n :: "'o net"
  assumes run: "runs calm v lossy junk es n" and idle: "\<And>u. ss_ph (nw_srv n) u = DIdle"
    and msg: "b \<in> nw_req n (nw_peer n cid)" "int (length b) \<le> MAX_PDU"
    and sv: "serve mem adr cid (wire b) (length b) (ss_srv (nw_srv n)) = Inr (s', ms)" "sv_reachable (ss_srv (nw_srv n))"
      "rw_heap (sv_win (ss_srv (nw_srv n))) adr = None"
  shows "\<exists>se rp lg. runs calm v lossy junk (es @ map N_Server se) (n\<lparr>nw_srv := (nw_srv n)\<lparr>ss_srv := s'\<rparr>, nw_rep := rp, nw_log := lg\<rparr>)
    \<and> (\<forall>(d, bs)\<in>set ms. bs \<in> rp (nw_peer n d))"
proof -
  obtain V ph L where s: "nw_srv n = \<lparr>ss_srv = V, ss_ph = ph, ss_listed = L\<rparr>" by (cases "nw_srv n")
  obtain v1 j where g: "rpcs_got_pdu True True cid (wire b) (length b) V = Inr (True, v1, Queued j)" "j = \<lparr>dj_conn = cid, dj_buf = wire b, dj_sz = length b\<rparr>"
    "dispatch mem adr cid (wire b) (length b) v1 = Inr (s', ms)"
    using sv(1,2) s by (auto simp: serve_def rpcs_got_pdu_def bind_r_eq_Inr)
  have free: "rw_heap (sv_win v1) adr = None" using got_pdu_win [OF g(1)] sv(3) s by simp
  have ph: "ph u = DIdle" for u using idle [of u] s by simp
  have step: "srv_step (nw_srv n) S_Tau (thread_at ph 0 L v1 (DArrived cid (wire b) (length b)))"
    using srv_step.arrive [of ph 0, OF ph g(1)] g(2) s by (simp add: thread_at_def)
  have "sent_before n (thread_at ph 0 L v1 (DArrived cid (wire b) (length b)))"
    using msg ph by (auto simp: sent_before_def thread_at_def)
  then have "net_step n (N_Server S_Tau) (n\<lparr>nw_srv := thread_at ph 0 L v1 (DArrived cid (wire b) (length b)), nw_peer := nw_peer n,
      nw_rep := (\<lambda>c. nw_rep n c \<union> rep_sent (nw_peer n) S_Tau c), nw_log := nw_log n \<union> returned (nw_srv n) (thread_at ph 0 L v1 (DArrived cid (wire b) (length b)))\<rparr>)"
    using net_step.server [OF step] by blast
  moreover have "undisturbed (nw_srv n) (thread_at ph 0 L v1 (DArrived cid (wire b) (length b)))"
    by (rule undisturbed_quiet) (use ph s in \<open>simp_all add: thread_at_def\<close>)
  ultimately have run1: "runs calm v lossy junk (es @ [N_Server S_Tau]) (n\<lparr>nw_srv := thread_at ph 0 L v1 (DArrived cid (wire b) (length b)), nw_peer := nw_peer n,
      nw_rep := (\<lambda>c. nw_rep n c \<union> rep_sent (nw_peer n) S_Tau c), nw_log := nw_log n \<union> returned (nw_srv n) (thread_at ph 0 L v1 (DArrived cid (wire b) (length b)))\<rparr>)"
    using runs_more [OF run] by simp
  have "\<exists>se. served ph 0 L v1 (DArrived cid (wire b) (length b)) se s' DIdle \<and> sends_of se = ms"
    by (rule dispatch_runs [OF g(3) free])
  then obtain se where se: "served ph 0 L v1 (DArrived cid (wire b) (length b)) se s' DIdle" "sends_of se = ms" by blast
  obtain rp lg where R: "runs calm v lossy junk ((es @ [N_Server S_Tau]) @ map N_Server se)
      (n\<lparr>nw_srv := thread_at ph 0 L s' DIdle, nw_rep := rp, nw_log := lg\<rparr>)" "\<forall>(d, bs)\<in>set ms. bs \<in> rp (nw_peer n d)"
    using net_served [OF se(1) run1 _ ph] se(2) by auto
  have "thread_at ph 0 L s' DIdle = (nw_srv n)\<lparr>ss_srv := s'\<rparr>" using ph s by (auto simp: thread_at_def fun_eq_iff)
  then show ?thesis using R by (intro exI [of _ "S_Tau # se"] exI [of _ rp] exI [of _ lg]) simp
qed

text \<open>The events of one call: it begins, is sent, is served, is answered, returns.\<close>

definition call_events :: "u32 \<Rightarrow> nat \<Rightarrow> u32 \<Rightarrow> u32 \<Rightarrow> (nat \<times> byte list) list \<Rightarrow> sevent list \<Rightarrow> i32 \<Rightarrow> nevent list" where
  "call_events c t x xr out se ret = [N_Client c (C_Begin t x xr), N_Client c (C_Send out)] @ map N_Server se
     @ [N_Client c (C_Pdu x ret), N_Client c (C_Return t x ret)]"

definition new_conn :: "(nat \<times> conn) option \<Rightarrow> rpcc \<Rightarrow> bool" where
  "new_conn new c \<longleftrightarrow> (\<forall>d k. new = Some (d, k) \<longrightarrow> cl_store c d = None \<and> (\<exists>fd now lossy. k = fst (conn_new fd now lossy)))"

lemma net_round:
  fixes n :: "'o net"
  assumes run: "runs calm v lossy junk es n" and t: "cy_ph (nw_cl n c) t = CIdle" and idle: "\<And>u. ss_ph (nw_srv n) u = DIdle"
    and peer: "nw_peer n cid = c" "nw_peer n d' = c"
    and b: "m_wf req" "call1_begin mem junk' t proc req (cy_cl (nw_cl n c)) = Inr (Begun m xr c1)" "x = cl_xid (cy_cl (nw_cl n c))"
    and tr: "transmit m new None c1 = Inr (ch, c2, [(d, msg)])" "new_conn new c1" "int (length msg) \<le> MAX_PDU"
    and sv: "serve mem adr cid (wire msg) (length msg) (ss_srv (nw_srv n)) = Inr (s', [(d', rb)])" "sv_reachable (ss_srv (nw_srv n))"
      "rw_heap (sv_win (ss_srv (nw_srv n))) adr = None"
    and rb: "reply_msg \<lparr>rp_xid = x, rp_ret = ret\<rparr> body rb" "int (length rb) \<le> MAX_PDU" "deliver [(d', rb)] c2 = Inr c3"
    and e: "call1_end t m xr ch c3 = Inr (ret, u, sig, c')"
  shows "\<exists>se rq rp lg. runs calm v lossy junk (es @ call_events c t x xr [(d, msg)] se ret)
    (n\<lparr>nw_cl := (nw_cl n)(c := \<lparr>cy_cl = c', cy_ph = cy_ph (nw_cl n c)\<rparr>), nw_srv := (nw_srv n)\<lparr>ss_srv := s'\<rparr>, nw_req := rq, nw_rep := rp,
       nw_issued := (nw_issued n)(c := (nw_issued n c)(x \<mapsto> m_bytes m)), nw_log := lg\<rparr>)"
proof -
  let ?k = "nw_cl n c" and ?iss = "(nw_issued n)(c := (nw_issued n c)(x \<mapsto> m_bytes m))"
  let ?ph = "\<lambda>ch. (cy_ph ?k)(t := CCalling x m xr ch)"
  let ?n1 = "n\<lparr>nw_cl := (nw_cl n)(c := \<lparr>cy_cl = c1, cy_ph = ?ph None\<rparr>), nw_issued := ?iss\<rparr>"
  have r1: "runs calm v lossy junk (es @ [N_Client c (C_Begin t x xr)]) ?n1"
    using runs_client [OF run net_step.calls [OF t b(1,2,3)]] by simp
  have "cl_step \<lparr>cy_cl = c1, cy_ph = ?ph None\<rparr> (C_Send [(d, msg)]) \<lparr>cy_cl = c2, cy_ph = (?ph None)(t := CCalling x m xr ch)\<rparr>"
    by (rule cl_step.sends [OF _ _ tr(1)]) (use tr(2) in \<open>auto simp: new_conn_def\<close>)
  then have s2: "cl_step (nw_cl ?n1 c) (C_Send [(d, msg)]) \<lparr>cy_cl = c2, cy_ph = ?ph ch\<rparr>" by simp
  let ?n2 = "?n1\<lparr>nw_cl := (nw_cl n)(c := \<lparr>cy_cl = c2, cy_ph = ?ph ch\<rparr>), nw_req := (nw_req n)(c := nw_req n c \<union> {msg})\<rparr>"
  have r2: "runs calm v lossy junk (es @ [N_Client c (C_Begin t x xr), N_Client c (C_Send [(d, msg)])]) ?n2"
    using runs_client [OF r1 net_step.client [OF s2]] by simp
  obtain se rp lg where r3: "runs calm v lossy junk ((es @ [N_Client c (C_Begin t x xr), N_Client c (C_Send [(d, msg)])]) @ map N_Server se)
      (?n2\<lparr>nw_srv := (nw_srv ?n2)\<lparr>ss_srv := s'\<rparr>, nw_rep := rp, nw_log := lg\<rparr>)" "rb \<in> rp c"
    using net_serve [OF r2, of msg cid mem adr s' "[(d', rb)]"] idle peer tr(3) sv by auto
  let ?n3 = "?n2\<lparr>nw_srv := (nw_srv ?n2)\<lparr>ss_srv := s'\<rparr>, nw_rep := rp, nw_log := lg\<rparr>"
  have len: "length rb < 2 ^ 31" "length (wire rb) = length rb"
    using rb(1,2) by (simp_all add: reply_msg_def length_wire MAX_PDU_def)
  note w = reply_msg_reader(1) [OF wire_reply [OF rb(1)], of "[]", unfolded append_Nil2 len(2)]
  have got: "rpcc_got_pdu (wire rb) (length rb) c2 = Inr c3" using rb(3) by (simp add: bind_r_eq_Inr)
  have r4: "runs calm v lossy junk (((es @ [N_Client c (C_Begin t x xr), N_Client c (C_Send [(d, msg)])]) @ map N_Server se) @ [N_Client c (C_Pdu x ret)])
      (?n3\<lparr>nw_cl := (nw_cl ?n3)(c := \<lparr>cy_cl = c3, cy_ph = ?ph ch\<rparr>)\<rparr>)"
    using runs_client [OF r3(1) net_step.delivers [OF _ rb(2) w, of ?n3 c c3]] r3(2) len(1) got by simp
  let ?n4 = "?n3\<lparr>nw_cl := (nw_cl ?n3)(c := \<lparr>cy_cl = c3, cy_ph = ?ph ch\<rparr>)\<rparr>"
  have "cl_step \<lparr>cy_cl = c3, cy_ph = ?ph ch\<rparr> (C_Return t x ret) \<lparr>cy_cl = c', cy_ph = (?ph ch)(t := CIdle)\<rparr>"
    by (rule cl_step.returns [OF _ e]) simp
  moreover have "(?ph ch)(t := CIdle) = cy_ph ?k" using t by (simp add: fun_eq_iff)
  ultimately have s5: "cl_step (nw_cl ?n4 c) (C_Return t x ret) \<lparr>cy_cl = c', cy_ph = cy_ph ?k\<rparr>" by simp
  have "runs calm v lossy junk (es @ call_events c t x xr [(d, msg)] se ret)
      (?n4\<lparr>nw_cl := (nw_cl ?n4)(c := \<lparr>cy_cl = c', cy_ph = cy_ph ?k\<rparr>), nw_req := (nw_req ?n4)(c := nw_req ?n4 c \<union> {})\<rparr>)"
    using runs_client [OF r4 net_step.client [OF s5]] by (simp add: call_events_def)
  moreover have "?n4\<lparr>nw_cl := (nw_cl ?n4)(c := \<lparr>cy_cl = c', cy_ph = cy_ph ?k\<rparr>), nw_req := (nw_req ?n4)(c := nw_req ?n4 c \<union> {})\<rparr>
      = n\<lparr>nw_cl := (nw_cl n)(c := \<lparr>cy_cl = c', cy_ph = cy_ph ?k\<rparr>), nw_srv := (nw_srv n)\<lparr>ss_srv := s'\<rparr>,
          nw_req := (nw_req n)(c := nw_req n c \<union> {msg}), nw_rep := rp, nw_issued := ?iss, nw_log := lg\<rparr>"
    by (rule net.equality) simp_all
  ultimately show ?thesis by metis
qed

section \<open>One exchange\<close>

text \<open>
  A client and the server between two calls, as in theory \<open>Remote_Call\<close>, inside a network that is otherwise at rest:
  connection \<open>cid\<close> leads to client \<open>c\<close>, and thread \<open>t\<close> of the client and all threads of the server are free.
\<close>

definition at_rest :: "'o net \<Rightarrow> u32 \<Rightarrow> nat \<Rightarrow> nat \<Rightarrow> (nat \<times> conn) option \<Rightarrow> bool" where
  "at_rest n c t cid new \<longleftrightarrow> cy_ph (nw_cl n c) t = CIdle \<and> (\<forall>u. ss_ph (nw_srv n) u = DIdle) \<and> nw_peer n cid = c
     \<and> linked cid new (cy_cl (nw_cl n c)) (ss_srv (nw_srv n))"

definition after_call :: "'o net \<Rightarrow> u32 \<Rightarrow> marshall \<Rightarrow> rpcc \<Rightarrow> 'o rpcs \<Rightarrow> 'o net \<Rightarrow> bool" where
  "after_call n c m k s n' \<longleftrightarrow> nw_cl n' = (nw_cl n)(c := \<lparr>cy_cl = k, cy_ph = cy_ph (nw_cl n c)\<rparr>) \<and> nw_srv n' = (nw_srv n)\<lparr>ss_srv := s\<rparr>
     \<and> nw_peer n' = nw_peer n \<and> nw_issued n' = (nw_issued n)(c := (nw_issued n c)(cl_xid (cy_cl (nw_cl n c)) \<mapsto> m_bytes m))"

lemma net_exchange:
  fixes n :: "'o net" and new' :: "(nat \<times> conn) option"
  assumes k: "k = cy_cl (nw_cl n c)" and s: "s = ss_srv (nw_srv n)"
    and run: "runs calm v lossy junk es n" and rest: "at_rest n c t cid new" "new_conn new k"
    and proc: "proc = rpc_bind \<longleftrightarrow> \<not> cl_bind_done k" "sv_procs s proc = Some f"
    and req: "m_wf req" "int (m_ind req) \<le> MAX_PDU" and adr: "rw_heap (sv_win s) adr = None" and x: "cl_xid k \<noteq> - 1"
    and handler: "\<And>u. u_at u (m_body req) \<Longrightarrow> f mem u (marshall_new mem) (sv_obj s) = Inr (ret, rep, obj)" "m_wf rep" "int (m_ind rep) \<le> MAX_PDU"
      "0 \<le> sint ret"
  obtains u c' s' m d se n' where "exchange mem junk' t adr cid new proc req (k, s) = Inr (ret, u, (c', s'))" "u_at u (m_body rep)"
    "runs calm v lossy junk (es @ call_events c t (cl_xid k) (hd (cl_window k)) [(d, m_bytes m)] se ret) n'" "after_call n c m c' s' n'"
    "req_msg (call_header proc k) (m_body req) (m_bytes m)" "sv_obj s' = obj" "at_rest n' c t cid new'"
    "same_client k c'" "cl_xid c' = cl_xid k + 1" "same_service s s'"
    "dom (rw_heap (sv_win s')) \<subseteq> insert adr (dom (rw_heap (sv_win s)))"
proof -
  let ?c = k and ?s = s
  have R: "cy_ph (nw_cl n c) t = CIdle" "\<And>u. ss_ph (nw_srv n) u = DIdle" "nw_peer n cid = c" "linked cid new ?c ?s"
    using rest(1) by (simp_all add: at_rest_def k s)
  have side: "client_side new ?c" and S: "srv_ready ?s" "sv_counting ?s = 0" "sv_reachable ?s" "open_conn cid 1 ?s" "knows_conn (cl_clt_nonce ?c) cid ?s"
    "cl_srv_nonce ?c = 0 \<or> cl_srv_nonce ?c = sv_nonce ?s" "\<forall>y. (cl_clt_nonce ?c, y) \<in> rw_seen (sv_win ?s) \<longrightarrow> y < cl_xid ?c"
    using R(4) by (simp_all add: linked_def server_side_def)
  have may: "may_call proc ?c" and front: "hd (cl_window ?c) < cl_xid ?c" and nz: "cl_clt_nonce ?c \<noteq> 0"
    using side proc(1) by (auto simp: may_call_def client_side_def xid_abs_def)
  obtain m where m: "call1_begin mem junk' t proc req ?c = Inr (Begun m (hd (cl_window ?c)) (calling t junk' ?c))" "m_wf m" "m_ind m = m_ind req"
    "req_msg (call_header proc ?c) (m_body req) (m_bytes m)"
    by (rule call1_begin_ok [OF may req(1)])
  have len: "length (m_bytes m) = m_ind req" "4 \<le> m_ind req" "length (wire (m_bytes m)) = m_ind req" "m_ind req < 2 ^ 31" "m_ind rep < 2 ^ 31"
    using m(2,3) req(2) handler(3) by (auto simp: m_bytes_def length_wire MAX_PDU_def elim!: m_wfE)
  let ?h = "call_header proc ?c"
  have ar: "arriving ?h (m_body req) (wire (m_bytes m)) cid f ?s"
    using wire_req [OF m(4)] len S nz proc(2) by (simp add: arriving_def call_header_def)
  have un: "(rq_clt_nonce ?h, rq_xid ?h) \<notin> rw_seen (sv_win ?s)" "rq_xid_rep ?h < rq_xid ?h"
    using S(7) front by (auto simp: call_header_def)
  obtain s' rb where s': "serve mem adr cid (wire (m_bytes m) @ []) (length (wire (m_bytes m))) ?s = Inr (s', [(cid, rb)])"
    "reply_msg \<lparr>rp_xid = rq_xid ?h, rp_ret = ret\<rparr> (m_body rep) rb" "length rb = m_ind rep" "sv_obj s' = obj" "same_service ?s s'"
    "arriving ?h (m_body req) (wire (m_bytes m)) cid f s'" "srv_ready s'"
    "\<forall>y. (rq_clt_nonce ?h, y) \<in> rw_seen (sv_win s') \<longrightarrow> (rq_clt_nonce ?h, y) \<in> rw_seen (sv_win ?s) \<or> y \<le> rq_xid ?h"
    "dom (rw_heap (sv_win s')) \<subseteq> insert adr (dom (rw_heap (sv_win ?s)))"
    by (rule serve_new [OF ar S(1,2) un adr handler(1,2,4)]) assumption
  have rb: "reply_msg \<lparr>rp_xid = cl_xid ?c, rp_ret = ret\<rparr> (m_body rep) rb" "length rb < 2 ^ 31" "int (length rb) \<le> MAX_PDU"
    using s'(2,3) len(5) handler(3) by (simp_all add: call_header_def)
  obtain d c1 c2 u c' where c: "transmit m new None (calling t junk' ?c) = Inr (Some d, c1, [(d, m_bytes m)])"
    "deliver [(cid, rb)] c1 = Inr c2" "call1_end t m (hd (cl_window ?c)) (Some d) c2 = Inr (ret, u, False, c')" "u_at u (m_body rep)"
    "client_side new' c'" "same_client ?c c'" "cl_xid c' = cl_xid ?c + 1"
    by (rule client_part [OF side x rb(1,2)]) assumption
  have side': "server_side cid c' s'"
    using s'(5-8) S c(6,7) word_less_Suc [OF x]
    by (auto simp: server_side_def same_service_def same_client_def arriving_def call_header_def le_less)
  have ex: "exchange mem junk' t adr cid new proc req (?c, ?s) = Inr (ret, u, (c', s'))"
    using m(1) c(1-3) s'(1) len by (simp add: exchange_def)
  have "new_conn new (calling t junk' ?c)" using rest(2) by (simp add: new_conn_def calling_def)
  moreover have "serve mem adr cid (wire (m_bytes m)) (length (m_bytes m)) ?s = Inr (s', [(cid, rb)])" using s'(1) len by simp
  moreover have "int (length (m_bytes m)) \<le> MAX_PDU" using req(2) len(1) by simp
  ultimately obtain se rq rp lg where N: "runs calm v lossy junk (es @ call_events c t (cl_xid ?c) (hd (cl_window ?c)) [(d, m_bytes m)] se ret)
    (n\<lparr>nw_cl := (nw_cl n)(c := \<lparr>cy_cl = c', cy_ph = cy_ph (nw_cl n c)\<rparr>), nw_srv := (nw_srv n)\<lparr>ss_srv := s'\<rparr>, nw_req := rq, nw_rep := rp,
       nw_issued := (nw_issued n)(c := (nw_issued n c)(cl_xid ?c \<mapsto> m_bytes m)), nw_log := lg\<rparr>)" (is "runs calm v lossy junk _ ?n'")
    using net_round [OF run R(1,2,3,3) req(1) m(1) [unfolded k] refl, folded k s, OF c(1) _ _ _ S(3) adr rb(1,3) c(2,3)] by blast
  have after: "after_call n c m c' s' ?n'" by (simp add: after_call_def k)
  have "at_rest ?n' c t cid new'" using R c(5) side' by (simp add: at_rest_def linked_def)
  from that [OF ex c(4) N after m(4) s'(4) this c(6,7) s'(5,9)] show thesis .
qed

text \<open>One call of a registered method through its stub.\<close>

lemma net_call:
  fixes n :: "'o net" and new' :: "(nat \<times> conn) option"
  assumes k: "k = cy_cl (nw_cl n c)" and s: "s = ss_srv (nw_srv n)"
    and run: "runs calm v lossy junk es n" and rest: "at_rest n c t cid new" "new_conn new k"
    and arg: "codec e f fr p g" "f a" "length (e a) \<le> 2 ^ 20" "fr z" and res: "codec e' f' fr' p' g'" "f' r" "length (e' r) \<le> 2 ^ 20" "fr' r0"
    and proc: "proc = rpc_bind \<longleftrightarrow> \<not> cl_bind_done k" "sv_procs s proc = Some (h_fn1 g z p' meth)"
    and adr: "rw_heap (sv_win s) adr = None" and x: "cl_xid k \<noteq> - 1" and meth: "meth a (sv_obj s) = Inr (b, r, obj)" "0 \<le> sint b"
  obtains c' s' m d se n' where "call_1 mem (exchange mem junk' t adr cid new) p g' proc a r0 (k, s) = Inr (b, r, (c', s'))"
    "runs calm v lossy junk (es @ call_events c t (cl_xid k) (hd (cl_window k)) [(d, m_bytes m)] se b) n'" "after_call n c m c' s' n'"
    "req_msg (call_header proc k) (e a) (m_bytes m)" "sv_obj s' = obj" "at_rest n' c t cid new'"
    "same_client k c'" "cl_xid c' = cl_xid k + 1" "same_service s s'"
    "dom (rw_heap (sv_win s')) \<subseteq> insert adr (dom (rw_heap (sv_win s)))"
proof -
  have l: "length (e a) < 2 ^ 29" "length (e' r) < 2 ^ 29" using arg(3) res(3) by simp_all
  obtain req where req: "p mem (marshall_new mem) a = Inr req" "m_wf req" "m_body req = e a" "m_ind req = 24 + length (e a)"
    by (rule call_1_request [OF arg(1,2) l(1)])
  obtain rep where rep: "p' mem (marshall_new mem) r = Inr rep" "m_wf rep" "m_body rep = e' r" "m_ind rep = 24 + length (e' r)"
    by (rule call_1_request [OF res(1,2) l(2)])
  have h: "h_fn1 g z p' meth mem u (marshall_new mem) (sv_obj s) = Inr (b, rep, obj)" if "u_at u (m_body req)" for u
    using that req(3) meth(1) rep(1) by (simp add: h_fn1_exact [OF arg(1,2,4)] run_method_def)
  have len: "int (m_ind req) \<le> MAX_PDU" "int (m_ind rep) \<le> MAX_PDU" using arg(3) res(3) req(4) rep(4) by (simp_all add: MAX_PDU_def)
  obtain u c' s' m d se n' where E: "exchange mem junk' t adr cid new proc req (k, s) = Inr (b, u, (c', s'))" "u_at u (m_body rep)"
    "runs calm v lossy junk (es @ call_events c t (cl_xid k) (hd (cl_window k)) [(d, m_bytes m)] se b) n'" "after_call n c m c' s' n'"
    "req_msg (call_header proc k) (m_body req) (m_bytes m)" "sv_obj s' = obj" "at_rest n' c t cid new'"
    "same_client k c'" "cl_xid c' = cl_xid k + 1" "same_service s s'"
    "dom (rw_heap (sv_win s')) \<subseteq> insert adr (dom (rw_heap (sv_win s)))"
    by (rule net_exchange [OF k s run rest proc req(2) len(1) adr x h rep(2) len(2) meth(2)])
  have "call_m (exchange mem junk' t adr cid new) g' proc req r0 (k, s) = Inr (b, r, (c', s'))"
    by (rule call_m_reply [where ?call1.0 = "exchange mem junk' t adr cid new", OF res(1,2,4) E(1) _ meth(2)]) (use E(2) rep(3) in simp)
  then have "call_1 mem (exchange mem junk' t adr cid new) p g' proc a r0 (k, s) = Inr (b, r, (c', s'))" using req(1) by (simp add: call_1_def)
  from that [OF this E(3,4) E(5) [unfolded req(3)] E(6-11)] show thesis .
qed

text \<open>A server that has started accepts a connection of client \<open>c\<close>.\<close>

definition net_accepted :: "'o rpcs \<Rightarrow> u32 \<Rightarrow> nat \<Rightarrow> 'o net" where
  "net_accepted v c cid = (net_start v 0 0)\<lparr>nw_srv := \<lparr>ss_srv = (ss_srv (srv_start v))\<lparr>sv_store := [cid \<mapsto> fst (conn_new 4 (0, 0) 0)]\<rparr>,
     ss_ph = (\<lambda>_. DIdle), ss_listed = {cid}\<rparr>, nw_peer := \<lambda>_. c\<rparr>"

lemma net_accepts: "race_free v 0 0 [N_Server S_Tau] (net_accepted v c cid)"
proof -
  let ?n = "net_start v 0 0" and ?s = "nw_srv (net_accepted v c cid)"
  have "srv_step (srv_start v) S_Tau ?s"
    using srv_step.accepted [of "ss_srv (srv_start v)" cid "{}" "\<lambda>_. DIdle" 4 "(0, 0)" 0] by (simp add: srv_start_def net_accepted_def)
  then have "net_step ?n (N_Server S_Tau) (?n\<lparr>nw_srv := ?s, nw_peer := \<lambda>_. c, nw_rep := (\<lambda>d. nw_rep ?n d \<union> rep_sent (\<lambda>_. c) S_Tau d),
      nw_log := nw_log ?n \<union> returned (nw_srv ?n) ?s\<rparr>)"
    using net_step.server [of ?n S_Tau ?s "\<lambda>_. c"]
    by (simp add: net_start_def srv_start_def sent_before_def net_accepted_def)
  moreover have "?n\<lparr>nw_srv := ?s, nw_peer := \<lambda>_. c, nw_rep := (\<lambda>d. nw_rep ?n d \<union> rep_sent (\<lambda>_. c) S_Tau d),
      nw_log := nw_log ?n \<union> returned (nw_srv ?n) ?s\<rparr> = net_accepted v c cid"
    by (rule net.equality) (simp_all add: net_start_def net_accepted_def returned_def srv_start_def)
  moreover have "undisturbed (nw_srv ?n) ?s" by (rule undisturbed_quiet) (simp_all add: net_start_def srv_start_def net_accepted_def)
  ultimately show ?thesis using race_free_more [OF race_free_begin, of v 0 0] by fastforce
qed

lemma net_accepted_rest:
  assumes "sv_counting v = 0" "sv_reachable v" "c \<noteq> 0" "connects (Some (d, k))"
  shows "at_rest (net_accepted v c cid) c t cid (Some (d, k))"
proof -
  have "linked cid (Some (d, k)) (rpcc_new True c 0 0) ((ss_srv (srv_start v))\<lparr>sv_store := [cid \<mapsto> fst (conn_new 4 (0, 0) 0)]\<rparr>)"
    by (rule linked_new) (use assms in \<open>simp_all add: srv_start_def\<close>)
  then show ?thesis using assms(3) by (simp add: at_rest_def net_accepted_def net_start_def)
qed

lemma req_msg_unique:
  assumes "req_msg h args m" "req_msg h' args' m"
  shows "h = h'" "args = args'"
proof -
  have "enc_req_header h @ args = enc_req_header h' @ args'" using assms by (simp add: req_msg_def)
  then have e: "enc_req_header h = enc_req_header h'" and "args = args'" by (simp_all add: append_eq_append_conv)
  then show "args = args'" by simp
  have "rq_xid h = rq_xid h' \<and> rq_proc h = rq_proc h' \<and> rq_clt_nonce h = rq_clt_nonce h' \<and> rq_srv_nonce h = rq_srv_nonce h' \<and> rq_xid_rep h = rq_xid_rep h'"
    using e unfolding enc_req_header_def by (auto simp: append_eq_append_conv) (metis ntohl_be32)+
  then show "h = h'" by simp
qed

section \<open>A client that has bound\<close>

text \<open>A run in which client 5 is at rest and has begun \<open>k\<close> calls; the blocks from \<open>k\<close> on are free.\<close>

definition client_net :: "'o rpcs \<Rightarrow> nevent list \<Rightarrow> 'o net \<Rightarrow> nat \<Rightarrow> bool" where
  "client_net v es n k \<longleftrightarrow> race_free v 0 0 es n \<and> at_rest n 5 0 3 None \<and> cl_bind_done (cy_cl (nw_cl n 5)) \<and> cl_xid (cy_cl (nw_cl n 5)) = of_nat k
     \<and> sv_procs (ss_srv (nw_srv n)) = sv_procs v \<and> (\<forall>a\<ge>k. rw_heap (sv_win (ss_srv (nw_srv n))) a = None) \<and> (\<forall>c. calls_begun (cl_events c es) \<le> k)"

lemma call_events_begun: "calls_begun (cl_events c (call_events d t x xr out se ret)) = (if c = d then 1 else 0)"
  unfolding call_events_def events_append server_events by (simp add: cl_events_def)

lemma client_net_call:
  assumes L: "client_net v es n k" and k: "k < 100"
    and arg: "codec e f fr p g" "f a" "length (e a) \<le> 2 ^ 20" "fr z" and res: "codec e' f' fr' p' g'" "f' r" "length (e' r) \<le> 2 ^ 20"
    and proc: "proc \<noteq> rpc_bind" "sv_procs v proc = Some (h_fn1 g z p' meth)"
    and meth: "meth a (sv_obj (ss_srv (nw_srv n))) = Inr (b, r, obj)" "0 \<le> sint b" and r0: "fr' r0"
  obtains es' n' h m where "client_net v (es @ es') n' (Suc k)" "es' \<noteq> []" "last es' = N_Client 5 (C_Return 0 (of_nat k) b)"
    "sv_obj (ss_srv (nw_srv n')) = obj" "nw_issued n' 5 (of_nat k) = Some m" "req_msg h (e a) m" "rq_proc h = proc"
    "\<And>x. x \<noteq> of_nat k \<Longrightarrow> nw_issued n' 5 x = nw_issued n 5 x"
proof -
  let ?c = "cy_cl (nw_cl n 5)" and ?s = "ss_srv (nw_srv n)"
  have D: "race_free v 0 0 es n" "at_rest n 5 0 3 None" "cl_bind_done ?c" "cl_xid ?c = of_nat k" "sv_procs ?s = sv_procs v"
    "rw_heap (sv_win ?s) k = None" "\<forall>a\<ge>Suc k. rw_heap (sv_win ?s) a = None" "\<forall>c. calls_begun (cl_events c es) \<le> k"
    using L by (simp_all add: client_net_def)
  have P: "proc = rpc_bind \<longleftrightarrow> \<not> cl_bind_done ?c" "sv_procs ?s proc = Some (h_fn1 g z p' meth)" using proc D(3,5) by simp_all
  have x: "cl_xid ?c \<noteq> - 1"
    unfolding D(4) by (rule next_xid(1) [of _ 0]) (use k in \<open>simp add: unat_of_nat_small\<close>)
  have new: "new_conn None ?c" by (simp add: new_conn_def)
  obtain c' s' m d se n' where E: "runs True v 0 0 (es @ call_events 5 0 (cl_xid ?c) (hd (cl_window ?c)) [(d, m_bytes m)] se b) n'" "after_call n 5 m c' s' n'"
    "req_msg (call_header proc ?c) (e a) (m_bytes m)" "sv_obj s' = obj" "at_rest n' 5 0 3 None"
    "same_client ?c c'" "cl_xid c' = cl_xid ?c + 1" "same_service ?s s'" "dom (rw_heap (sv_win s')) \<subseteq> insert k (dom (rw_heap (sv_win ?s)))"
    by (rule net_call [OF refl refl D(1) [folded runs_race_free] D(2) new arg res r0 P D(6) x meth,
          where mem = "\<lambda>_. 0" and junk' = 0 and new' = None]) assumption
  let ?ce = "call_events 5 0 (cl_xid ?c) (hd (cl_window ?c)) [(d, m_bytes m)] se b"
  have n': "cy_cl (nw_cl n' 5) = c'" "ss_srv (nw_srv n') = s'" "nw_issued n' = (nw_issued n)(5 := (nw_issued n 5)(of_nat k \<mapsto> m_bytes m))"
    using E(2) D(4) by (simp_all add: after_call_def)
  have "client_net v (es @ ?ce) n' (Suc k)"
    unfolding client_net_def n'
  proof (intro conjI allI impI)
    show "rw_heap (sv_win s') a = None" if "Suc k \<le> a" for a using E(9) D(7) that by (auto dest!: subsetD)
    show "calls_begun (cl_events c (es @ ?ce)) \<le> Suc k" for c
      using D(8) [rule_format, of c] D(8) [rule_format, of 5] by (simp add: events_append calls_begun_append call_events_begun)
  qed (use E D in \<open>simp_all add: same_client_def same_service_def runs_race_free\<close>)
  moreover have "?ce \<noteq> []" "last ?ce = N_Client 5 (C_Return 0 (of_nat k) b)" using D(4) by (simp_all add: call_events_def)
  ultimately show thesis
    using that [of ?ce n' "m_bytes m" "call_header proc ?c"] n' E(3,4) by (simp add: call_header_def)
qed

lemma client_net_bound:
  assumes V: "sv_counting v = 0" "sv_reachable v" "sv_procs v rpc_bind = Some (h_fn1 get_int z put_int (rpcbind (sv_nonce v)))"
  obtains es n where "client_net v es n 2" "sv_obj (ss_srv (nw_srv n)) = sv_obj v"
proof -
  let ?k = "rpcc_new True 5 0 0" and ?n = "net_accepted v 5 3" and ?new = "Some (8 :: nat, fst (conn_new 6 (0, 0) 0))"
  have rest: "at_rest ?n 5 0 3 ?new" by (rule net_accepted_rest) (simp_all add: V connects_new)
  have new: "new_conn ?new ?k" by (auto simp: new_conn_def rpcc_new_def)
  have k: "?k = cy_cl (nw_cl ?n 5)" by (simp add: net_accepted_def net_start_def)
  have S: "sv_procs (ss_srv (nw_srv ?n)) = sv_procs v" "rw_heap (sv_win (ss_srv (nw_srv ?n))) = Map.empty" "sv_obj (ss_srv (nw_srv ?n)) = sv_obj v"
    "sv_nonce (ss_srv (nw_srv ?n)) = sv_nonce v"
    by (simp_all add: net_accepted_def net_start_def srv_start_def rwindow_init_def)
  have p: "sv_procs (ss_srv (nw_srv ?n)) rpc_bind = Some (h_fn1 get_int z put_int (rpcbind (sv_nonce v)))" "rw_heap (sv_win (ss_srv (nw_srv ?n))) 0 = None"
    using V(3) by (simp_all add: S)
  have b: "rpc_bind = rpc_bind \<longleftrightarrow> \<not> cl_bind_done ?k" "cl_xid ?k \<noteq> - 1" by (simp_all add: rpcc_new_def)
  have l: "length (be32 (0 :: i32)) \<le> 2 ^ 20" "length (be32 (sv_nonce v)) \<le> 2 ^ 20" "0 \<le> sint (0 :: i32)" by simp_all
  have m: "rpcbind (sv_nonce v) 0 (sv_obj (ss_srv (nw_srv ?n))) = Inr (0, sv_nonce v, sv_obj (ss_srv (nw_srv ?n)))" by (simp add: rpcbind_def)
  obtain c' s' m d se n' where E: "runs True v 0 0 ([N_Server S_Tau] @ call_events 5 0 (cl_xid ?k) (hd (cl_window ?k)) [(d, m_bytes m)] se 0) n'" "after_call ?n 5 m c' s' n'"
    "sv_obj s' = sv_obj (ss_srv (nw_srv ?n))" "at_rest n' 5 0 3 None" "cl_xid c' = cl_xid ?k + 1" "same_service (ss_srv (nw_srv ?n)) s'"
    "dom (rw_heap (sv_win s')) \<subseteq> insert 0 (dom (rw_heap (sv_win (ss_srv (nw_srv ?n)))))"
    by (rule net_call [OF k refl net_accepts [folded runs_race_free] rest new int_codec.codec_axioms TrueI l(1) TrueI int_codec.codec_axioms TrueI l(2) TrueI b(1) p b(2) m l(3),
          where mem = "\<lambda>_. 0" and junk' = 0 and ?r0.0 = 0 and new' = None]) assumption
  let ?es = "[N_Server S_Tau] @ call_events 5 0 (cl_xid ?k) (hd (cl_window ?k)) [(d, m_bytes m)] se 0"
  let ?c2 = "c'\<lparr>cl_bind_done := True, cl_srv_nonce := sv_nonce s'\<rparr>"
  have n': "nw_cl n' 5 = \<lparr>cy_cl = c', cy_ph = cy_ph (nw_cl ?n 5)\<rparr>" "ss_srv (nw_srv n') = s'" using E(2) by (simp_all add: after_call_def)
  let ?n2 = "n'\<lparr>nw_cl := (nw_cl n')(5 := \<lparr>cy_cl = ?c2, cy_ph = cy_ph (nw_cl ?n 5)\<rparr>)\<rparr>"
  have "cl_step (nw_cl n' 5) C_Tau \<lparr>cy_cl = ?c2, cy_ph = cy_ph (nw_cl ?n 5)\<rparr>" unfolding n' by (rule cl_step.bound)
  from race_free_client [OF E(1) [unfolded runs_race_free] net_step.client [OF this]]
  have run: "race_free v 0 0 (?es @ [N_Client 5 C_Tau]) ?n2" by (simp add: fun_upd_idem)
  have "at_rest ?n2 5 0 3 None" using E(4) linked_bound [of 3 None c' s'] n' by (simp add: at_rest_def)
  moreover have "cl_xid c' = 2" using E(5) by (simp add: rpcc_new_def)
  moreover have "calls_begun (cl_events c (?es @ [N_Client 5 C_Tau])) \<le> 2" for c
    unfolding events_append calls_begun_append call_events_begun by (simp add: cl_events_def)
  moreover have "sv_procs s' = sv_procs v" using E(6) S(1) by (simp add: same_service_def)
  moreover have "\<forall>a\<ge>2. rw_heap (sv_win s') a = None" using E(7) S(2) by force
  ultimately have "client_net v (?es @ [N_Client 5 C_Tau]) ?n2 2" using run n' by (simp add: client_net_def)
  then show thesis by (rule that) (use n' E(3) S(3) in simp)
qed

section \<open>Properties\<close>

text \<open>
  C6: the calls of theory \<open>Remote_Call\<close> happen in the network.  From any state that a run of the network has reached in which a client and
  the server are at rest, one remote call as that theory computes it -- stub, \<open>call1\<close>, connection, dispatch, handler,
  reply -- is a continuation of the run: the call begins, is sent, is served step by step by a dispatch thread, is answered and returns the
  same status, and leaves the client and the server in the same states.  If the run so far was free of data races then so is its continuation.
\<close>

theorem remote_call_on_network:
  fixes n :: "'o net"
  assumes "net_run v lossy junk es n" "at_rest n c t cid new" "new_conn new k" "k = cy_cl (nw_cl n c)" "s = ss_srv (nw_srv n)"
    and "codec e f fr p g" "f a" "length (e a) \<le> 2 ^ 20" "fr z" and "codec e' f' fr' p' g'" "f' r" "length (e' r) \<le> 2 ^ 20" "fr' r0"
    and "proc = rpc_bind \<longleftrightarrow> \<not> cl_bind_done k" "sv_procs s proc = Some (h_fn1 g z p' meth)"
    and "rw_heap (sv_win s) adr = None" "cl_xid k \<noteq> - 1" "meth a (sv_obj s) = Inr (b, r, obj)" "0 \<le> sint b"
  shows "\<exists>k' s' m d se n'. call_1 mem (exchange mem junk' t adr cid new) p g' proc a r0 (k, s) = Inr (b, r, (k', s')) \<and>
    net_run v lossy junk (es @ call_events c t (cl_xid k) (hd (cl_window k)) [(d, m_bytes m)] se b) n' \<and>
    (race_free v lossy junk es n \<longrightarrow> race_free v lossy junk (es @ call_events c t (cl_xid k) (hd (cl_window k)) [(d, m_bytes m)] se b) n') \<and>
    after_call n c m k' s' n' \<and> at_rest n' c t cid new'"
proof -
  have run: "runs (race_free v lossy junk es n) v lossy junk es n" using assms(1) by (simp add: runs_def)
  obtain k' s' m d se n' where "call_1 mem (exchange mem junk' t adr cid new) p g' proc a r0 (k, s) = Inr (b, r, (k', s'))"
    "runs (race_free v lossy junk es n) v lossy junk (es @ call_events c t (cl_xid k) (hd (cl_window k)) [(d, m_bytes m)] se b) n'"
    "after_call n c m k' s' n'" "at_rest n' c t cid new'"
    by (rule net_call [OF assms(4,5) run assms(2,3,6-19)]) assumption
  then show ?thesis unfolding runs_def by blast
qed

theorem remote_call_on_network_witness:
  "\<exists>k' s' m d se n'. call_1 (\<lambda>_. 0) (exchange (\<lambda>_. 0) 0 0 9 3 (Some (8, fst (conn_new 6 (0, 0) 0)))) put_int get_int rpc_bind 0 0
      (rpcc_new True 5 0 0, ss_srv (nw_srv (net_accepted demo_srv 5 3))) = Inr (0, 7, (k', s')) \<and>
    race_free demo_srv 0 0 ([N_Server S_Tau] @ call_events 5 0 1 0 [(d, m_bytes m)] se 0) n' \<and>
    after_call (net_accepted demo_srv 5 3) 5 m k' s' n' \<and> at_rest n' 5 0 3 None"
proof -
  let ?k = "rpcc_new True 5 0 0" and ?n = "net_accepted demo_srv 5 3" and ?new = "Some (8 :: nat, fst (conn_new 6 (0, 0) 0))"
  have rest: "at_rest ?n 5 0 3 ?new" by (rule net_accepted_rest) (simp_all add: demo_srv_def connects_new)
  have new: "new_conn ?new ?k" by (auto simp: new_conn_def rpcc_new_def)
  have k: "?k = cy_cl (nw_cl ?n 5)" by (simp add: net_accepted_def net_start_def)
  have p: "sv_procs (ss_srv (nw_srv ?n)) rpc_bind = Some (h_fn1 get_int 0 put_int (rpcbind 7))" "rw_heap (sv_win (ss_srv (nw_srv ?n))) 9 = None"
    by (simp_all add: rpc_bind_def net_accepted_def net_start_def srv_start_def demo_srv_def rwindow_init_def)
  have b: "rpc_bind = rpc_bind \<longleftrightarrow> \<not> cl_bind_done ?k" "cl_xid ?k \<noteq> - 1" "cl_xid ?k = 1" "hd (cl_window ?k) = 0" by (simp_all add: rpcc_new_def)
  have l: "length (be32 (0 :: i32)) \<le> 2 ^ 20" "length (be32 (7 :: i32)) \<le> 2 ^ 20" "0 \<le> sint (0 :: i32)" by simp_all
  have m: "rpcbind 7 0 (sv_obj (ss_srv (nw_srv ?n))) = Inr (0, 7, sv_obj (ss_srv (nw_srv ?n)))" by (simp add: rpcbind_def)
  from remote_call_on_network [OF race_free_net_run [OF net_accepts] rest new k refl int_codec.codec_axioms TrueI l(1) TrueI int_codec.codec_axioms TrueI l(2) TrueI b(1) p b(2) m l(3),
      where mem = "\<lambda>_. 0" and junk' = 0 and ?r0.0 = 0 and new' = None]
  show ?thesis unfolding b(3,4) using net_accepts by blast
qed

end
