(* ===== verification/Lock_Network.thy ===== *)
theory Lock_Network
  imports Dispatch_Run
begin

text \<open>
  The lock service of \<^verbatim>\<open>lock_smain.cc\<close> in the network of theory \<open>Network\<close>: any number of clients and threads call it, and
  messages are lost, repeated, delayed and reordered.

  A handler is one step there.  An acquire that has to wait is a handler that has not run yet: the argument \<open>blocked\<close> of
  \<open>lock_smain\<close> gives no result, so the step is not possible until the lock is free, which is when the loop in \<open>acquire\<close>
  passes.  That the handlers with their mutex and condition variable behave like this is the subject of theory \<open>Lock_Server\<close>.
\<close>

section \<open>Any arguments\<close>

text \<open>Every four bytes are an integer, every eight a long one.\<close>

lemma enc_onto:
  fixes e :: "'a::finite \<Rightarrow> byte list"
  assumes "inj e" "\<And>x. length (e x) = n" "CARD('a) = 256 ^ n" "length bs = n"
  shows "bs \<in> range e"
proof -
  let ?L = "{xs :: byte list. set xs \<subseteq> UNIV \<and> length xs = n}"
  have fin: "finite ?L" by (rule finite_lists_length_eq) simp
  have sub: "range e \<subseteq> ?L" using assms(2) by auto
  have "card (range e) = CARD('a)" by (rule card_image [OF assms(1)])
  moreover have "card ?L = 256 ^ n" by (subst card_lists_length_eq) (simp_all add: card_word)
  ultimately have "card (range e) = card ?L" using assms(3) by simp
  from card_subset_eq [OF fin sub this] show ?thesis using assms(4) by blast
qed

lemma be32_onto: "length bs = 4 \<Longrightarrow> \<exists>w. bs = be32 w"
  using enc_onto [of be32 4 bs] inj_on_inverseI [of UNIV ntohl_bytes be32] ntohl_be32 by (auto simp: card_word)

lemma be64_onto: "length bs = 8 \<Longrightarrow> \<exists>w. bs = be64 w"
proof -
  have "inj be64"
  proof (rule injI)
    fix x y assume "be64 x = be64 y"
    then have "be32 (ucast (drop_bit 32 x)) = be32 (ucast (drop_bit 32 y))" "be32 (ucast x) = be32 (ucast y)" by (auto simp: be64_def)
    then have "ucast (drop_bit 32 x) = (ucast (drop_bit 32 y) :: u32)" "ucast x = (ucast y :: u32)" by (metis ntohl_be32)+
    then show "x = y" by (metis join_be64)
  qed
  then show "length bs = 8 \<Longrightarrow> \<exists>w. bs = be64 w" using enc_onto [of be64 8 bs] by (auto simp: card_word)
qed

lemma pair_onto:
  assumes "length bs = 12"
  obtains i l where "bs = enc_pair be32 be64 (i, l)"
proof -
  obtain i where "take 4 bs = be32 i" using be32_onto [of "take 4 bs"] assms by auto
  moreover obtain l where "drop 4 bs = be64 l" using be64_onto [of "drop 4 bs"] assms by auto
  ultimately show ?thesis using that [of i l] append_take_drop_id [of 4 bs] by (simp add: enc_pair_def)
qed

lemma total_read_pair: "total_read (\<lambda>u. get_pair get_int get_ullong u z) 12"
proof -
  have int: "total_read (\<lambda>u. get_int u z) 4" "total_read (\<lambda>u. get_uint u z) 4" for z using total_read_unpack by (simp_all add: get_uint_unpack)
  have "total_read (\<lambda>u. get_ullong u z) (4 + 4)" for z
    unfolding get_ullong_def by (intro total_read_bind total_read_map int)
  then have "total_read (\<lambda>u. get_pair get_int get_ullong u z) (4 + (4 + 4))"
    unfolding get_pair_def by (intro total_read_bind total_read_map int)
  then show ?thesis by simp
qed

text \<open>A handler of the lock server, whatever the bytes of its arguments are.\<close>

lemma lock_handler_args:
  assumes h: "h_fn2 get_int get_ullong z1 z2 put_int meth mem rd (marshall_new mem) obj = Inr (ret, rep, obj')" and rd: "u_at rd args"
  obtains (bad) "ret = unmarshal_args_failure" "obj' = obj"
  | (runs) i l r where "args = enc_pair be32 be64 (i, l)" "meth i l obj = Inr (ret, r, obj')"
proof (cases "length args = 12")
  case True
  then obtain i l where a: "args = enc_pair be32 be64 (i, l)" by (rule pair_onto)
  have ok: "both (\<lambda>_. True) (\<lambda>_. True) (i, l)" "both (\<lambda>_. True) (\<lambda>_. True) (z1, z2)" by (simp_all add: both_def)
  note ex = h_fn1_exact [OF codec_pair [OF int_codec.codec_axioms ullong_codec.codec_axioms] ok rd [unfolded a]]
  obtain r where "meth i l obj = Inr (ret, r, obj')"
    using h unfolding h_fn2_pair ex by (auto simp: run_method_def bind_r_eq_Inr)
  then show ?thesis by (rule runs [OF a])
next
  case False
  obtain u' x where u': "get_pair get_int get_ullong rd (z1, z2) = Inr (u', x)" "u_sz u' = u_sz rd" "u_ok u' = (u_ok rd \<and> u_ind rd + 12 \<le> u_sz rd)"
    "u_ind u' = (if u_ind rd + 12 \<le> u_sz rd then u_ind rd + 12 else max (u_ind rd) (u_sz rd))"
    by (rule total_readE [OF total_read_pair u_at_wf [OF rd]])
  have "u_ind rd + length args = u_sz rd" using u_at_length [OF rd] by simp
  then have "\<not> okdone u'" using u' False by (auto simp: okdone_def)
  then show ?thesis using bad h u'(1) by (simp add: h_fn2_pair h_fn1_def)
qed

section \<open>The handlers of the lock server\<close>

text \<open>The server of \<^verbatim>\<open>lock_smain.cc\<close> in which an acquire that would have to wait does not happen.\<close>

definition waiting_smain :: "u32 \<Rightarrow> int \<Rightarrow> fault \<Rightarrow> i32 \<Rightarrow> i32 \<Rightarrow> lockid_t \<Rightarrow> lock_server rpcs result" where
  "waiting_smain nonce counting e z z1 z2 = lock_smain nonce counting (\<lambda>_ _ _. Inl e) z z1 z2"

lemma waiting_procs:
  assumes "waiting_smain nonce counting e z z1 z2 = Inr v"
  shows "sv_procs v = [rpc_bind \<mapsto> h_fn1 get_int z put_int (rpcbind nonce), lp_stat \<mapsto> h_fn2 get_int get_ullong z1 z2 put_int stat_method,
      lp_acquire \<mapsto> h_fn2 get_int get_ullong z1 z2 put_int (acquire_method (\<lambda>_ _ _. Inl e)),
      lp_release \<mapsto> h_fn2 get_int get_ullong z1 z2 put_int release_method]"
    "sv_obj v = lock_server_new"
  using assms by (auto simp: waiting_smain_def lock_smain_def rpcs_new_def reg1_def bind_r_eq_Inr VERIFY_def split: if_splits)

lemma waiting_proc_cases:
  assumes "waiting_smain nonce counting e z z1 z2 = Inr v" "sv_procs v p = Some f"
  obtains (bind) "p = rpc_bind" "f = h_fn1 get_int z put_int (rpcbind nonce)"
  | (stat) "p = lp_stat" "f = h_fn2 get_int get_ullong z1 z2 put_int stat_method"
  | (acq) "p = lp_acquire" "f = h_fn2 get_int get_ullong z1 z2 put_int (acquire_method (\<lambda>_ _ _. Inl e))"
  | (rel) "p = lp_release" "f = h_fn2 get_int get_ullong z1 z2 put_int release_method"
  using assms(2) unfolding waiting_procs(1) [OF assms(1)] by (auto split: if_splits)

lemma waiting_procs_good:
  assumes "waiting_smain nonce counting e z z1 z2 = Inr v"
  shows "\<forall>f\<in>ran (sv_procs v). good_handler f"
proof
  fix f assume "f \<in> ran (sv_procs v)"
  then obtain p where p: "sv_procs v p = Some f" by (auto simp: ran_def)
  have app: "appends (\<lambda>m. put_int mem m r)" for mem r unfolding put_int_def by (intro writer_intros)
  have "good_handler (h_fn1 g x put_int meth)" "good_handler (h_fn2 g1 g2 x1 x2 put_int meth2)" for g x meth g1 g2 x1 x2 meth2
    by (rule good_h_fn1 good_h_fns(1), rule app)+
  then show "good_handler f" by (cases rule: waiting_proc_cases [OF assms p]) simp_all
qed

lemma lock_handler_cases:
  assumes v: "waiting_smain nonce counting e z z1 z2 = Inr v" "sv_procs v p = Some f"
    and run: "f mem rd (marshall_new mem) obj = Inr (ret, rep, obj')" "u_at rd args"
  obtains (grant) i l where "p = lp_acquire" "args = enc_pair be32 be64 (i, l)" "lock_map obj l = None" "lock_map obj' = (lock_map obj)(l \<mapsto> i)"
  | (free) i l where "p = lp_release" "args = enc_pair be32 be64 (i, l)" "lock_map obj l = Some i" "lock_map obj' = (lock_map obj)(l := None)"
  | (other) "lock_map obj' = lock_map obj" "p = lp_acquire \<Longrightarrow> ret \<noteq> lp_OK"
proof -
  have bad: "unmarshal_args_failure \<noteq> lp_OK" by (simp add: unmarshal_args_failure_def lp_OK_def)
  show thesis
  proof (cases rule: waiting_proc_cases [OF v, case_names bind stat acq rel])
    case bind
    then have "obj' = obj" using run(1) by (auto simp: h_fn1_def rpcbind_def bind_r_eq_Inr split: if_splits)
    then show thesis using other bind lp_procs_distinct by auto
  next
    case stat
    have "lock_map obj' = lock_map obj"
      by (rule lock_handler_args [OF run(1) [unfolded stat(2)] run(2)]) (auto simp: stat_method_def ls_stat_def)
    then show thesis using other stat(1) lp_procs_distinct by auto
  next
    case acq
    show thesis
    proof (cases rule: lock_handler_args [OF run(1) [unfolded acq(2)] run(2), case_names bad runs])
      case (runs i l r)
      then have "lock_map obj l = None" "lock_map obj' = (lock_map obj)(l \<mapsto> i)"
        using locks.holder_get [of i l obj] by (auto simp: acquire_method_def acquire_pass_cases split: if_splits)
      then show thesis by (rule grant [OF acq(1) runs(1)])
    qed (use other bad in blast)
  next
    case rel
    show thesis
    proof (cases rule: lock_handler_args [OF run(1) [unfolded rel(2)] run(2), case_names bad runs])
      case (runs i l r)
      show thesis
      proof (cases "lock_map obj l = Some i")
        case True
        then have "lock_map obj' = (lock_map obj)(l := None)"
          using runs locks.holder_drop [of i l obj] by (auto simp: release_method_def ls_release_cases)
        then show thesis by (rule free [OF rel(1) runs(1) True])
      next
        case False
        then show thesis using other runs rel(1) lp_procs_distinct by (auto simp: release_method_def ls_release_cases)
      qed
    qed (use other rel(1) lp_procs_distinct in auto)
  qed
qed

section \<open>Histories of the lock server\<close>

text \<open>Request \<open>x\<close> of client \<open>c\<close> is a call of a method of the lock server with these arguments.\<close>

definition lock_request :: "(u32 \<Rightarrow> u32 \<Rightarrow> byte list option) \<Rightarrow> u32 \<times> u32 \<Rightarrow> u32 \<Rightarrow> i32 \<Rightarrow> lockid_t \<Rightarrow> bool" where
  "lock_request iss r proc i l \<longleftrightarrow> (\<exists>h m. iss (fst r) (snd r) = Some m \<and> req_msg h (enc_pair be32 be64 (i, l)) m \<and> rq_proc h = proc)"

definition req_id :: "u32 \<times> u32 \<times> i32 \<times> byte list \<Rightarrow> u32 \<times> u32" where
  "req_id r = (fst r, fst (snd r))"

definition grants :: "(u32 \<Rightarrow> u32 \<Rightarrow> byte list option) \<Rightarrow> i32 \<Rightarrow> lockid_t \<Rightarrow> u32 \<times> u32 \<times> i32 \<times> byte list \<Rightarrow> bool" where
  "grants iss i l r \<longleftrightarrow> lock_request iss (req_id r) lp_acquire i l \<and> fst (snd (snd r)) = lp_OK"

definition releases :: "(u32 \<Rightarrow> u32 \<Rightarrow> byte list option) \<Rightarrow> i32 \<Rightarrow> lockid_t \<Rightarrow> u32 \<times> u32 \<times> i32 \<times> byte list \<Rightarrow> bool" where
  "releases iss i l r \<longleftrightarrow> lock_request iss (req_id r) lp_release i l"

lemma enc_pair_inj: "enc_pair be32 be64 (i, l) = enc_pair be32 be64 (j, k) \<Longrightarrow> i = j \<and> l = k"
  by (auto simp: enc_pair_def be64_def append_eq_append_conv) (metis ntohl_be32 join_be64)+

lemma atomic_lock_step:
  assumes v: "waiting_smain nonce counting e z z1 z2 = Inr v"
    and ex: "iss (rq_clt_nonce h) (rq_xid h) = Some m" "req_msg h args m" "sv_procs v (rq_proc h) = Some f" "u_at rd args"
      "f mem rd (marshall_new mem) obj = Inr (ret, rep, obj')"
  shows "grants iss i l (rq_clt_nonce h, rq_xid h, ret, b) \<Longrightarrow> lock_map obj l = None \<and> lock_map obj' l = Some i"
    and "lock_map obj l = Some i \<Longrightarrow> \<not> releases iss i l (rq_clt_nonce h, rq_xid h, ret, b) \<Longrightarrow> lock_map obj' l = Some i"
proof -
  have req: "lock_request iss (rq_clt_nonce h, rq_xid h) p j k \<longleftrightarrow> rq_proc h = p \<and> args = enc_pair be32 be64 (j, k)" for p j k
  proof
    assume "lock_request iss (rq_clt_nonce h, rq_xid h) p j k"
    then obtain h' where "req_msg h' (enc_pair be32 be64 (j, k)) m" "rq_proc h' = p" using ex(1) by (auto simp: lock_request_def)
    then show "rq_proc h = p \<and> args = enc_pair be32 be64 (j, k)" using req_msg_unique [OF ex(2)] by blast
  next
    assume "rq_proc h = p \<and> args = enc_pair be32 be64 (j, k)"
    then show "lock_request iss (rq_clt_nonce h, rq_xid h) p j k" using ex(1,2) unfolding lock_request_def fst_conv snd_conv by blast
  qed
  show "lock_map obj l = None \<and> lock_map obj' l = Some i" if g: "grants iss i l (rq_clt_nonce h, rq_xid h, ret, b)"
  proof -
    have acq: "rq_proc h = lp_acquire" "args = enc_pair be32 be64 (i, l)" "ret = lp_OK" using g req by (simp_all add: grants_def req_id_def)
    show ?thesis
    proof (cases rule: lock_handler_cases [OF v ex(3,5,4), case_names grant free other])
      case (grant i' l')
      then show ?thesis using acq(2) enc_pair_inj [of i l i' l'] by simp
    next
      case (free i' l')
      then show ?thesis using acq(1) lp_procs_distinct(3) by simp
    next
      case other
      then show ?thesis using acq by blast
    qed
  qed
  show "lock_map obj' l = Some i" if held: "lock_map obj l = Some i" "\<not> releases iss i l (rq_clt_nonce h, rq_xid h, ret, b)"
  proof (cases rule: lock_handler_cases [OF v ex(3,5,4), case_names grant free other])
    case (grant i' l')
    then show ?thesis using held(1) by auto
  next
    case (free i' l')
    then have "l' \<noteq> l" using held req by (auto simp: releases_def req_id_def)
    then show ?thesis using free(4) held(1) by simp
  qed (use held(1) in simp)
qed

text \<open>In a history a granted lock is held until its holder releases it, and is not granted again before.\<close>

lemma history_holds:
  assumes v: "waiting_smain nonce counting e z z1 z2 = Inr v" and hs: "atomic (sv_procs v) iss obj0 hs obj"
  shows "\<forall>h1 a h2 i l. hs = h1 @ a # h2 \<longrightarrow> grants iss i l a \<longrightarrow> (\<forall>r\<in>set h2. \<not> releases iss i l r) \<longrightarrow>
    lock_map obj l = Some i \<and> (\<forall>b\<in>set h2. \<forall>j. \<not> grants iss j l b)"
  using hs
proof (induction rule: atomic.induct)
  case (executes hs obj h m args f rd mem ret rep obj')
  let ?r = "(rq_clt_nonce h, rq_xid h, ret, m_body rep)"
  note step = atomic_lock_step [where iss = iss and b = "m_body rep", OF v executes.hyps(2-6)]
  show ?case
  proof (intro allI impI)
    fix h1 a h2 i l
    assume split: "hs @ [?r] = h1 @ a # h2" and a: "grants iss i l a" and none: "\<forall>r\<in>set h2. \<not> releases iss i l r"
    show "lock_map obj' l = Some i \<and> (\<forall>b\<in>set h2. \<forall>j. \<not> grants iss j l b)"
    proof (cases h2 rule: rev_cases)
      case Nil
      then show ?thesis using split a step(1) by simp
    next
      case (snoc h3 b)
      then have h3: "hs = h1 @ a # h3" "b = ?r" using split by simp_all
      have "\<forall>r\<in>set h3. \<not> releases iss i l r" using none snoc by simp
      then have IH: "lock_map obj l = Some i" "\<forall>b\<in>set h3. \<forall>j. \<not> grants iss j l b"
        using executes.IH h3(1) a by blast+
      have "\<not> releases iss i l ?r" using none snoc h3(2) by simp
      moreover have "\<not> grants iss j l ?r" for j using step(1) [of j l] IH(1) by auto
      ultimately show ?thesis using step(2) IH h3(2) snoc by auto
    qed
  qed
qed simp

lemma atomic_prefix: "atomic procs iss obj0 (hs @ hs') obj \<Longrightarrow> \<exists>obj1. atomic procs iss obj0 hs obj1"
proof (induction hs' arbitrary: obj rule: rev_induct)
  case (snoc r hs')
  have "atomic procs iss obj0 ((hs @ hs') @ [r]) obj" using snoc.prems by simp
  then show ?case by (cases rule: atomic.cases) (use snoc.IH in auto)
qed auto

lemma grant_is_no_release: "grants iss i l r \<Longrightarrow> \<not> releases iss j k r"
  using req_msg_unique(1) lp_procs_distinct(3) by (fastforce simp: grants_def releases_def lock_request_def)

text \<open>Between two grants of a lock the first holder releases it.\<close>

lemma released_between:
  assumes "waiting_smain nonce counting e z z1 z2 = Inr v" "atomic (sv_procs v) iss obj0 (h1 @ p # h2 @ q # h3) obj"
    and "grants iss i l p" "grants iss j l q"
  obtains h4 r h5 where "h2 = h4 @ r # h5" "releases iss i l r"
proof -
  have "atomic (sv_procs v) iss obj0 ((h1 @ p # h2 @ [q]) @ h3) obj" using assms(2) by simp
  then obtain obj1 where "atomic (sv_procs v) iss obj0 (h1 @ p # (h2 @ [q])) obj1" using atomic_prefix by fastforce
  note holds = history_holds [OF assms(1) this, rule_format, OF refl assms(3)]
  have "\<exists>r\<in>set h2. releases iss i l r"
  proof (rule ccontr)
    assume "\<not> ?thesis"
    then have "\<not> releases iss i l r" if "r \<in> set (h2 @ [q])" for r using that grant_is_no_release [OF assms(4)] by auto
    then show False using conjunct2 [OF holds] assms(4) by simp
  qed
  then show ?thesis using that by (auto dest: split_list)
qed

section \<open>Calls that have returned\<close>

lemma race_free_prefix: "race_free v lossy junk (es1 @ es2) n \<Longrightarrow> \<exists>n1. race_free v lossy junk es1 n1 \<and> nw_log n1 \<subseteq> nw_log n"
proof (induction es2 arbitrary: n rule: rev_induct)
  case Nil
  then show ?case by auto
next
  case (snoc e es2)
  have run: "race_free v lossy junk ((es1 @ es2) @ [e]) n" using snoc.prems by simp
  from run obtain n' where n': "race_free v lossy junk (es1 @ es2) n'" "net_step n' e n" by (cases rule: race_free.cases) auto
  have "nw_log n' \<subseteq> nw_log n" using n'(2) by cases auto
  then show ?case using snoc.IH [OF n'(1)] by blast
qed

lemma returned_in_history:
  assumes run: "race_free v lossy junk es n" and few: "\<And>c. calls_begun (cl_events c es) + 2 < 2 ^ 32" and good: "\<And>k f. sv_procs v k = Some f \<Longrightarrow> good_handler f"
    and hs: "history_of v es n hs" and ret: "N_Client c (C_Return t x ret) \<in> set es" "ret \<notin> {timeout_failure, cancel_failure, oldsrv_failure}"
  shows "\<exists>body. (c, x, ret, body) \<in> set hs"
proof -
  obtain es1 es2 where es: "es = es1 @ N_Client c (C_Return t x ret) # es2" using split_list [OF ret(1)] by blast
  then have es': "es = (es1 @ [N_Client c (C_Return t x ret)]) @ es2" by simp
  obtain n2 where n2: "race_free v lossy junk (es1 @ [N_Client c (C_Return t x ret)]) n2" "nw_log n2 \<subseteq> nw_log n"
    using race_free_prefix [OF run [unfolded es']] by blast
  obtain n1 where n1: "race_free v lossy junk es1 n1" "net_step n1 (N_Client c (C_Return t x ret)) n2" using n2(1) by (cases rule: race_free.cases) auto
  obtain k where k: "cl_step (nw_cl n1 c) (C_Return t x ret) k" "nw_log n2 = nw_log n1" using n1(2) by cases (auto split: if_splits)
  obtain req xr ch u sig s' where e: "cy_ph (nw_cl n1 c) t = CCalling x req xr ch" "call1_end t req xr ch (cy_cl (nw_cl n1 c)) = Inr (ret, u, sig, s')"
    using k(1) by cases (auto split: if_splits)
  have few1: "calls_begun (cl_events d es1) + 2 < 2 ^ 32" for d using few [of d] unfolding es by (simp add: events_append calls_begun_append)
  have "\<exists>body. result_of (hist_of es1 n1) c x ret body"
    by (rule call_outcome [OF n1(1) few1 _ e]) (use good ret(2) in blast)+
  then obtain body where "result_of (hist_of es1 n1) c x ret body" by blast
  then obtain h rd rep where "(h, rd, ret, rep) \<in> nw_log n1" "rq_clt_nonce h = c" "rq_xid h = x" by (auto simp: result_of_def)
  then show ?thesis using hs n2(2) k(2) unfolding history_of_def by fast
qed

section \<open>An example\<close>

text \<open>A run in which client 5 binds, acquires lock 9, releases it and acquires it again.\<close>

lemma lock_net_call:
  assumes v: "waiting_smain 7 0 e 0 0 0 = Inr v" and L: "client_net v es n k" and k: "k < 100"
    and meth: "proc = lp_acquire \<and> meth = acquire_method (\<lambda>_ _ _. Inl e) \<or> proc = lp_release \<and> meth = release_method"
      "meth i l (sv_obj (ss_srv (nw_srv n))) = Inr (lp_OK, r, obj)"
  obtains es' n' where "client_net v (es @ es') n' (Suc k)" "N_Client 5 (C_Return 0 (of_nat k) lp_OK) \<in> set es'" "sv_obj (ss_srv (nw_srv n')) = obj"
    "lock_request (nw_issued n') (5, of_nat k) proc i l" "\<And>x. x \<noteq> of_nat k \<Longrightarrow> nw_issued n' 5 x = nw_issued n 5 x"
proof -
  have P: "proc \<noteq> rpc_bind" "sv_procs v proc = Some (h_fn1 (get_pair get_int get_ullong) (0, 0) put_int (\<lambda>(a, b). meth a b))"
    using meth(1) lp_procs_distinct waiting_procs(1) [OF v] by (auto simp: h_fn2_pair)
  have ok: "both (\<lambda>_. True) (\<lambda>_. True) (i, l)" "length (enc_pair be32 be64 (i, l)) \<le> 2 ^ 20" "both (\<lambda>_. True) (\<lambda>_. True) (0 :: i32, 0 :: u64)"
    "length (be32 r) \<le> 2 ^ 20" "0 \<le> sint lp_OK"
    by (simp_all add: both_def enc_pair_def lp_OK_def)
  have m: "(\<lambda>(a, b). meth a b) (i, l) (sv_obj (ss_srv (nw_srv n))) = Inr (lp_OK, r, obj)" using meth(2) by simp
  obtain es' n' h m where E: "client_net v (es @ es') n' (Suc k)" "es' \<noteq> []" "last es' = N_Client 5 (C_Return 0 (of_nat k) lp_OK)"
    "sv_obj (ss_srv (nw_srv n')) = obj" "nw_issued n' 5 (of_nat k) = Some m" "req_msg h (enc_pair be32 be64 (i, l)) m" "rq_proc h = proc"
    "\<And>x. x \<noteq> of_nat k \<Longrightarrow> nw_issued n' 5 x = nw_issued n 5 x"
    by (rule client_net_call [OF L k codec_pair [OF int_codec.codec_axioms ullong_codec.codec_axioms] ok(1-3) int_codec.codec_axioms TrueI ok(4) P m ok(5)]) auto
  then have "lock_request (nw_issued n') (5, of_nat k) proc i l" by (auto simp: lock_request_def)
  moreover have "N_Client 5 (C_Return 0 (of_nat k) lp_OK) \<in> set es'" using E(2,3) last_in_set by metis
  ultimately show thesis using that E by blast
qed

lemma lock_net_bound:
  assumes v: "waiting_smain 7 0 e 0 0 0 = Inr v"
  obtains es n where "client_net v es n 2" "sv_obj (ss_srv (nw_srv n)) = lock_server_new"
proof -
  have V: "sv_counting v = 0" "sv_reachable v" "sv_nonce v = 7"
    using smain_fresh [OF v [unfolded waiting_smain_def]] smain_offers(3) [OF v [unfolded waiting_smain_def]] by simp_all
  have "sv_procs v rpc_bind = Some (h_fn1 get_int 0 put_int (rpcbind 7))"
    using lp_procs_distinct by (simp add: waiting_procs(1) [OF v])
  then show thesis using client_net_bound [OF V(1,2)] V(3) that waiting_procs(2) [OF v] by metis
qed

section \<open>Properties\<close>

text \<open>
  C3: mutual exclusion end to end, in every run without the data races of \<^verbatim>\<open>rpcs\<close>.  Any number of clients with any number of threads call the lock server of \<^verbatim>\<open>lock_smain.cc\<close> over a
  network that loses, repeats, delays and reorders messages.  If two calls of \<open>acquire\<close> for the same lock have returned OK, then the holder
  that one of them named has released the lock in between: the history of the server has a release by that holder of that lock
  between the two grants.  So at no time two clients have been told that they hold a lock and neither has asked to release it.
\<close>

theorem remote_mutual_exclusion:
  assumes "waiting_smain nonce counting e z z1 z2 = Inr v" "race_free v lossy junk es n" "\<forall>c. calls_begun (cl_events c es) + 2 < 2 ^ 32"
    and "lock_request (nw_issued n) (c, x) lp_acquire i l" "N_Client c (C_Return t x lp_OK) \<in> set es"
    and "lock_request (nw_issued n) (d, y) lp_acquire j l" "N_Client d (C_Return u y lp_OK) \<in> set es" "(c, x) \<noteq> (d, y)"
  shows "\<exists>hs h1 a h2 r h3 b h4. map execution hs = filter is_exec (srv_events es) \<and> hs = h1 @ a # h2 @ r # h3 @ b # h4
    \<and> (req_id a = (c, x) \<and> req_id b = (d, y) \<and> releases (nw_issued n) i l r \<or> req_id a = (d, y) \<and> req_id b = (c, x) \<and> releases (nw_issued n) j l r)"
proof -
  have good: "good_handler f" if "sv_procs v k = Some f" for k f using waiting_procs_good [OF assms(1)] that by (auto simp: ran_def)
  have few: "calls_begun (cl_events c es) + 2 < 2 ^ 32" for c using assms(3) by blast
  have "\<exists>hs. history_of v es n hs" using history_exists [OF assms(2) few] good by blast
  then obtain hs where hs: "history_of v es n hs" by blast
  then have atomic: "atomic (sv_procs v) (nw_issued n) (sv_obj v) hs (sv_obj (ss_srv (nw_srv n)))" and ex: "map execution hs = filter is_exec (srv_events es)"
    by (simp_all add: history_of_def)
  have ok: "lp_OK \<notin> {timeout_failure, cancel_failure, oldsrv_failure}"
    by (simp add: lp_OK_def timeout_failure_def cancel_failure_def oldsrv_failure_def)
  have "\<exists>body. (c, x, lp_OK, body) \<in> set hs" "\<exists>body. (d, y, lp_OK, body) \<in> set hs"
    by (rule returned_in_history [OF assms(2) few _ hs assms(5) ok]; use good in blast)
      (rule returned_in_history [OF assms(2) few _ hs assms(7) ok]; use good in blast)
  then obtain b1 b2 where b: "(c, x, lp_OK, b1) \<in> set hs" "(d, y, lp_OK, b2) \<in> set hs" by blast
  have g: "grants (nw_issued n) i l (c, x, lp_OK, b1)" "grants (nw_issued n) j l (d, y, lp_OK, b2)"
    using assms(4,6) by (simp_all add: grants_def req_id_def)
  have ordered: "\<exists>h1 a h2 r h3 b h4. hs = h1 @ a # h2 @ r # h3 @ b # h4 \<and> req_id a = req_id p \<and> req_id b = req_id q \<and> releases (nw_issued n) k l r"
    if hs: "hs = h1 @ p # h2 @ q # h3" and gr: "grants (nw_issued n) k l p" "grants (nw_issued n) k' l q" for h1 p h2 q h3 k k'
  proof -
    obtain h4 r h5 where "h2 = h4 @ r # h5" "releases (nw_issued n) k l r"
      by (rule released_between [OF assms(1) atomic [unfolded hs] gr])
    then show ?thesis using hs by (intro exI [of _ h1] exI [of _ p] exI [of _ h4] exI [of _ r] exI [of _ h5] exI [of _ q] exI [of _ h3]) simp
  qed
  obtain h1 h2 where h: "hs = h1 @ (c, x, lp_OK, b1) # h2" using split_list [OF b(1)] by blast
  then consider "(d, y, lp_OK, b2) \<in> set h2" | "(d, y, lp_OK, b2) \<in> set h1" using b(2) assms(8) by auto
  then show ?thesis
  proof cases
    case 1
    then obtain h3 h4 where "hs = h1 @ (c, x, lp_OK, b1) # h3 @ (d, y, lp_OK, b2) # h4" using h by (auto dest: split_list)
    from ordered [OF this g] obtain k1 a k2 r k3 b k4 where k: "hs = k1 @ a # k2 @ r # k3 @ b # k4" "req_id a = (c, x)" "req_id b = (d, y)"
      "releases (nw_issued n) i l r" by (auto simp: req_id_def)
    show ?thesis by (rule exI [of _ hs], rule exI [of _ k1], rule exI [of _ a], rule exI [of _ k2], rule exI [of _ r], rule exI [of _ k3],
      rule exI [of _ b], rule exI [of _ k4]) (use ex k in simp)
  next
    case 2
    then obtain h3 h4 where "hs = h3 @ (d, y, lp_OK, b2) # h4 @ (c, x, lp_OK, b1) # h2" using h by (auto dest: split_list)
    from ordered [OF this g(2,1)] obtain k1 a k2 r k3 b k4 where k: "hs = k1 @ a # k2 @ r # k3 @ b # k4" "req_id a = (d, y)" "req_id b = (c, x)"
      "releases (nw_issued n) j l r" by (auto simp: req_id_def)
    show ?thesis by (rule exI [of _ hs], rule exI [of _ k1], rule exI [of _ a], rule exI [of _ k2], rule exI [of _ r], rule exI [of _ k3],
      rule exI [of _ b], rule exI [of _ k4]) (use ex k in simp)
  qed
qed

theorem remote_mutual_exclusion_witness:
  "\<exists>v es n hs h1 a h2 r h3 b h4. waiting_smain 7 0 Verify_Failed 0 0 0 = Inr v \<and> race_free v 0 0 es n \<and> map execution hs = filter is_exec (srv_events es)
     \<and> hs = h1 @ a # h2 @ r # h3 @ b # h4 \<and> releases (nw_issued n) 5 9 r"
proof -
  have "\<exists>v. waiting_smain 7 0 Verify_Failed 0 0 0 = Inr v"
    using lp_procs_distinct by (auto simp: waiting_smain_def lock_smain_def rpcs_new_def reg1_def)
  then obtain v where v: "waiting_smain 7 0 Verify_Failed 0 0 0 = Inr v" by blast
  obtain es n where n: "client_net v es n 2" "sv_obj (ss_srv (nw_srv n)) = lock_server_new" by (rule lock_net_bound [OF v])
  let ?free = "lock_server_new" and ?held = "lock_server_new\<lparr>lock_map := [9 \<mapsto> 5]\<rparr>"
  have acq: "acquire_method (\<lambda>_ _ _. Inl Verify_Failed) 5 9 ?free = Inr (lp_OK, 0, ?held)"
    by (simp add: acquire_method_def acquire_pass_def get_lock_def lock_server_new_def)
  have rel: "release_method 5 9 ?held = Inr (lp_OK, 0, ?free)"
    by (simp add: release_method_def ls_release_def drop_lock_def lock_server_new_def)
  obtain es1 n1 where 1: "client_net v (es @ es1) n1 (Suc 2)" "N_Client 5 (C_Return 0 (of_nat 2) lp_OK) \<in> set es1" "sv_obj (ss_srv (nw_srv n1)) = ?held"
    "lock_request (nw_issued n1) (5, of_nat 2) lp_acquire 5 9"
    by (rule lock_net_call [OF v n(1), where proc = lp_acquire and meth = "acquire_method (\<lambda>_ _ _. Inl Verify_Failed)" and i = 5 and l = 9 and r = 0]) (use n(2) acq in auto)
  obtain es2 n2 where 2: "client_net v ((es @ es1) @ es2) n2 (Suc (Suc 2))" "sv_obj (ss_srv (nw_srv n2)) = ?free"
    "\<And>x. x \<noteq> of_nat (Suc 2) \<Longrightarrow> nw_issued n2 5 x = nw_issued n1 5 x"
    by (rule lock_net_call [OF v 1(1), where proc = lp_release and meth = release_method and i = 5 and l = 9 and r = 0]) (use 1(3) rel in auto)
  obtain es3 n3 where 3: "client_net v (((es @ es1) @ es2) @ es3) n3 (Suc (Suc (Suc 2)))" "N_Client 5 (C_Return 0 (of_nat (Suc (Suc 2))) lp_OK) \<in> set es3"
    "lock_request (nw_issued n3) (5, of_nat (Suc (Suc 2))) lp_acquire 5 9" "\<And>x. x \<noteq> of_nat (Suc (Suc 2)) \<Longrightarrow> nw_issued n3 5 x = nw_issued n2 5 x"
    by (rule lock_net_call [OF v 2(1), where proc = lp_acquire and meth = "acquire_method (\<lambda>_ _ _. Inl Verify_Failed)" and i = 5 and l = 9 and r = 0]) (use 2(2) acq in auto)
  have first: "lock_request (nw_issued n3) (5, 2) lp_acquire 5 9" using 1(4) 2(3) [of 2] 3(4) [of 2] by (simp add: lock_request_def)
  let ?es = "((es @ es1) @ es2) @ es3"
  have run: "race_free v 0 0 ?es n3" and "\<forall>c. calls_begun (cl_events c ?es) \<le> Suc (Suc (Suc 2))" using 3(1) by (simp_all add: client_net_def)
  then have few: "\<forall>c. calls_begun (cl_events c ?es) + 2 < 2 ^ 32" using le_less_trans [of _ "Suc (Suc (Suc 2))" "2 ^ 32 - 2"] by fastforce
  have ret: "N_Client 5 (C_Return 0 2 lp_OK) \<in> set ?es" "N_Client 5 (C_Return 0 4 lp_OK) \<in> set ?es" "(5 :: u32, 2 :: u32) \<noteq> (5, 4)"
    using 1(2) 3(2) by simp_all
  have last: "lock_request (nw_issued n3) (5, 4) lp_acquire 5 9" using 3(3) by simp
  from remote_mutual_exclusion [OF v run few first ret(1) last ret(2,3)] show ?thesis using v run by blast
qed

end
