(* ===== verification/Reply_Race.thy ===== *)
theory Reply_Race
  imports Dispatch_Run
begin

text \<open>
  The data race on the blocks of the reply window, which the runs of \<open>race_free\<close> exclude.

  \<open>dispatch\<close> sends the reply of a duplicate from the block that the window keeps, after it has given up \<open>reply_window_m_\<close>.  When the
  client acknowledges the call meanwhile, \<open>checkduplicate_and_update\<close> frees the block; when the allocator returns the same block for
  the next reply, the thread that is still to send sends that one.  The run below does this with the server of theory \<open>Rpcs\<close>, whose
  clients are 5, on connection 3, and 6, on connection 4.
\<close>

section \<open>Runs of the server from runs of its threads\<close>

lemma srv_run_served:
  "served ph t L v p es v' p' \<Longrightarrow> srv_run v0 es0 (thread_at ph t L v p) \<Longrightarrow> srv_run v0 (es0 @ es) (thread_at ph t L v' p')"
proof (induction rule: served.induct)
  case (served_more es v' p' e v'' p'')
  from srv_more [OF served_more.IH [OF served_more.prems] served_more.hyps(2)] show ?case by simp
qed simp

text \<open>A request arrives and a thread takes it up to the verdict.\<close>

lemma srv_run_request:
  assumes run: "srv_run v0 es \<lparr>ss_srv = v, ss_ph = ph, ss_listed = L\<rparr>" and t: "ph t = DIdle"
    and q: "rpcs_got_pdu True True cid b sz v = Inr (True, v1, Queued \<lparr>dj_conn = cid, dj_buf = b, dj_sz = sz\<rparr>)"
    and d: "dispatch_begin mem b sz v1 = Inr (Request h req f)" "classify h cid v1 = Inr (v2, stat, out)" "after_check mem stat out cid h req f = Inr p"
  obtains es' where "srv_run v0 (es @ es') \<lparr>ss_srv = v2, ss_ph = ph(t := p), ss_listed = L\<rparr>"
proof -
  have "srv_run v0 (es @ [S_Tau]) (thread_at ph t L v1 (DArrived cid b sz))"
    using srv_more [OF run srv_step.arrive [of ph t, OF t q]] by (simp add: thread_at_def)
  moreover obtain es' where "served ph t L v1 (DArrived cid b sz) es' v2 p" using classify_runs [OF d] by blast
  ultimately have "srv_run v0 ((es @ [S_Tau]) @ es') (thread_at ph t L v2 p)" by (rule srv_run_served [rotated])
  then show thesis using that [of "S_Tau # es'"] by (simp add: thread_at_def)
qed

section \<open>The states of the run\<close>

definition race_hdr :: "u32 \<Rightarrow> u32 \<Rightarrow> u32 \<Rightarrow> req_header" where
  "race_hdr c x xr = \<lparr>rq_xid = x, rq_proc = 1, rq_clt_nonce = c, rq_srv_nonce = 0, rq_xid_rep = xr\<rparr>"

definition race_msg :: "u32 \<Rightarrow> u32 \<Rightarrow> u32 \<Rightarrow> byte list" where
  "race_msg c x xr = [0, 0, 0, 0] @ enc_req_header (race_hdr c x xr) @ be32 0"

definition race_srv :: "int \<Rightarrow> int \<Rightarrow> (u32 \<rightharpoonup> nat) \<Rightarrow> rwindow \<Rightarrow> unit rpcs" where
  "race_srv n m conns w = demo_srv\<lparr>sv_store := [3 \<mapsto> (fst (conn_new 4 (0, 0) 0))\<lparr>cn_refno := n\<rparr>, 4 \<mapsto> (fst (conn_new 4 (0, 0) 0))\<lparr>cn_refno := m\<rparr>],
     sv_conns := conns, sv_win := w\<rparr>"

definition race_window :: "heap \<Rightarrow> (u32 \<rightharpoonup> reply_t list) \<Rightarrow> (u32 \<rightharpoonup> u32) \<Rightarrow> (u32 \<rightharpoonup> u32 set) \<Rightarrow> rwindow" where
  "race_window h rs lb xs = \<lparr>rw_heap = h, reply_window = rs, reply_lower_bound = lb, reply_set = xs\<rparr>"

abbreviation in_block :: "u32 \<Rightarrow> byte list \<Rightarrow> reply_t" where
  "in_block x rb \<equiv> \<lparr>rt_xid = x, rt_cb_present = True, rt_buf = Some 0, rt_sz = length rb\<rparr>"

lemmas race_defs = race_srv_def race_window_def race_hdr_def demo_srv_def

lemma race_begin:
  obtains u where "dispatch_begin (\<lambda>_. 0) (race_msg c x xr) 28 (race_srv n m conns w) = Inr (Request (race_hdr c x xr) u demo_f)" "u_at u (be32 0)"
proof -
  have m: "req_msg (race_hdr c x xr) (be32 0) (race_msg c x xr)" "length (race_msg c x xr) = 28"
    by (simp_all add: req_msg_def race_msg_def)
  show thesis
    by (rule dispatch_begin_request [OF m(1), of "race_srv n m conns w" demo_f "\<lambda>_. 0" "[]"])
      (use that m(2) in \<open>simp_all add: race_defs\<close>)
qed

lemma race_arrives:
  "rpcs_got_pdu True True 3 b sz (race_srv n m conns w) = Inr (True, race_srv (n + 1) m conns w, Queued \<lparr>dj_conn = 3, dj_buf = b, dj_sz = sz\<rparr>)"
  "rpcs_got_pdu True True 4 b sz (race_srv n m conns w) = Inr (True, race_srv n (m + 1) conns w, Queued \<lparr>dj_conn = 4, dj_buf = b, dj_sz = sz\<rparr>)"
  by (simp_all add: rpcs_got_pdu_def ref_conn_def st_ops incref_def conn_new_def race_defs fun_upd_twist)

text \<open>A thread runs the handler and records its reply in block 0.\<close>

lemma race_records:
  assumes u: "u_at u (be32 0)" and c: "c \<noteq> 0" and free: "rw_heap w 0 = None"
    and add: "\<And>rb. add_reply c x (Some 0) (length rb) (w\<lparr>rw_heap := (rw_heap w)(0 \<mapsto> rb)\<rparr>) = Inr (w' rb)"
  obtains rb where "served ph t L (race_srv n m conns w) (DRun cid (race_hdr c x xr) u demo_f) [S_Exec c x, S_Window (Replied c x rb)]
      (race_srv n m conns (w' rb)) (DRecorded cid c (Block 0 (length rb)))" "reply_msg \<lparr>rp_xid = x, rp_ret = 0\<rparr> (be32 7) rb" "length rb = 28"
proof -
  let ?v = "race_srv n m conns w" and ?h = "race_hdr c x xr"
  obtain rep where rep: "\<And>u. u_at u (be32 0) \<Longrightarrow> demo_f (\<lambda>_. 0) u (marshall_new (\<lambda>_. 0)) () = Inr (0, rep, ())" "m_wf rep" "m_body rep = be32 7" "m_ind rep = 28"
    using demo_handler [where mem = "\<lambda>_. 0"] by metis
  obtain rb where rb: "finish_reply (\<lambda>_. 0) x 0 rep = Inr rb" "reply_msg \<lparr>rp_xid = x, rp_ret = 0\<rparr> (be32 7) rb" "length rb = 28"
    using finish_reply_msg [OF rep(2), of 0 "\<lambda>_. 0" x] rep(3,4) by auto
  have "execute (\<lambda>_. 0) (rq_proc ?h) u demo_f ?v = Inr (0, rep, ?v)" using rep(1) [OF u] by (simp add: execute_def race_defs)
  from srv_step.running [of "ph(t := DRun cid ?h u demo_f)" t cid ?h u demo_f, OF _ this]
  have "srv_step (thread_at ph t L ?v (DRun cid ?h u demo_f)) (S_Exec c x) (thread_at ph t L ?v (DReturned cid ?h 0 rep))"
    by (simp add: thread_at_def race_hdr_def)
  then have 1: "served ph t L ?v (DRun cid ?h u demo_f) [S_Exec c x] ?v (DReturned cid ?h 0 rep)" by (rule served_thread) simp_all
  have "record_reply (rq_clt_nonce ?h) (rq_xid ?h) 0 rb ?v = Inr (race_srv n m conns (w' rb))"
    using add [of rb] c by (simp add: record_reply_def race_srv_def race_hdr_def word_greater_zero_iff)
  moreover have "rw_heap (sv_win ?v) 0 = None" "finish_reply (\<lambda>_. 0) (rq_xid ?h) 0 rep = Inr rb" using free rb(1) by (simp_all add: race_srv_def race_hdr_def)
  ultimately have "srv_step (thread_at ph t L ?v (DReturned cid ?h 0 rep)) (S_Window (Replied c x rb))
      (thread_at ph t L (race_srv n m conns (w' rb)) (DRecorded cid c (Block 0 (length rb))))"
    using srv_step.recording [of "ph(t := DReturned cid ?h 0 rep)" t cid ?h 0 rep ?v 0 "\<lambda>_. 0" rb] c
    by (simp add: thread_at_def reply_src_def race_hdr_def word_greater_zero_iff)
  then have 2: "served ph t L ?v (DReturned cid ?h 0 rep) [S_Window (Replied c x rb)] (race_srv n m conns (w' rb)) (DRecorded cid c (Block 0 (length rb)))"
    by (rule served_thread) simp_all
  show thesis by (rule that [OF _ rb(2,3)]) (use served_trans [OF 2 1] in simp)
qed

text \<open>What the four requests do to the window.\<close>

abbreviation "race_w1 \<equiv> race_window Map.empty [5 \<mapsto> []] [5 \<mapsto> 0] [5 \<mapsto> {1}]"
abbreviation "race_w2 rb \<equiv> race_window [0 \<mapsto> rb] [5 \<mapsto> [in_block 1 rb]] [5 \<mapsto> 0] [5 \<mapsto> {1}]"
abbreviation "race_w3 \<equiv> race_window Map.empty [5 \<mapsto> []] [5 \<mapsto> 2] [5 \<mapsto> {3, 1}]"
abbreviation "race_w4 \<equiv> race_window Map.empty [5 \<mapsto> [], 6 \<mapsto> []] [5 \<mapsto> 2, 6 \<mapsto> 0] [5 \<mapsto> {3, 1}, 6 \<mapsto> {4}]"
abbreviation "race_w5 rb \<equiv> race_window [0 \<mapsto> rb] [5 \<mapsto> [], 6 \<mapsto> [in_block 4 rb]] [5 \<mapsto> 2, 6 \<mapsto> 0] [5 \<mapsto> {3, 1}, 6 \<mapsto> {4}]"

lemmas race_eval = classify_def save_conn_def ref_conn_def get_conn_def st_ops incref_def conn_new_def conn_compare_def create_window_def
  checkduplicate_and_update_def update_lower_bound_def remember_xid_def free_block_def rwindow_init_def race_srv_def race_window_def race_hdr_def

lemma race_verdicts:
  "classify (race_hdr 5 1 0) 3 (race_srv 2 1 Map.empty rwindow_init) = Inr (race_srv 3 1 [5 \<mapsto> 3] race_w1, NEW, None)"
  "classify (race_hdr 5 1 0) 3 (race_srv 3 1 [5 \<mapsto> 3] (race_w2 rb)) = Inr (race_srv 3 1 [5 \<mapsto> 3] (race_w2 rb), DONE, Some (Some 0, length rb))"
  "classify (race_hdr 5 3 2) 3 (race_srv 4 1 [5 \<mapsto> 3] (race_w2 rb)) = Inr (race_srv 4 1 [5 \<mapsto> 3] race_w3, NEW, None)"
  "classify (race_hdr 6 4 0) 4 (race_srv 4 2 [5 \<mapsto> 3] race_w3) = Inr (race_srv 4 3 [5 \<mapsto> 3, 6 \<mapsto> 4] race_w4, NEW, None)"
  by (simp_all add: race_eval fun_upd_twist)

section \<open>The run\<close>

abbreviation race_sys :: "unit rpcs \<Rightarrow> (nat \<Rightarrow> unit dphase) \<Rightarrow> unit srvsys" where
  "race_sys v ph \<equiv> \<lparr>ss_srv = v, ss_ph = ph, ss_listed = {3, 4}\<rparr>"

abbreviation idle_threads :: "nat \<Rightarrow> unit dphase" where
  "idle_threads \<equiv> \<lambda>_. DIdle"

lemma race_start: "srv_run demo_srv [S_Tau, S_Tau] (race_sys (race_srv 1 1 Map.empty rwindow_init) idle_threads)"
proof -
  have "srv_step (srv_start demo_srv) S_Tau (demo_at demo_srv DIdle)" by (rule demo_steps_arrive [OF demo_msg_ok(1)]) (simp_all add: demo_msg_ok(2))
  from srv_more [OF srv_begin this] have 1: "srv_run demo_srv [S_Tau] \<lparr>ss_srv = demo_srv, ss_ph = idle_threads, ss_listed = {3}\<rparr>"
    by (simp add: demo_at_def fun_upd_idem)
  have "srv_step \<lparr>ss_srv = demo_srv, ss_ph = idle_threads, ss_listed = {3}\<rparr> S_Tau
      (race_sys (demo_srv\<lparr>sv_store := (sv_store demo_srv)(4 \<mapsto> fst (conn_new 4 (0, 0) 0))\<rparr>) idle_threads)"
    using srv_step.accepted [of demo_srv 4 "{3}" idle_threads 4 "(0, 0)" 0] by (simp add: demo_srv_def insert_commute)
  moreover have "demo_srv\<lparr>sv_store := (sv_store demo_srv)(4 \<mapsto> fst (conn_new 4 (0, 0) 0))\<rparr> = race_srv 1 1 Map.empty rwindow_init"
    by (simp add: race_srv_def demo_srv_def conn_new_def fun_upd_twist)
  ultimately show ?thesis using srv_more [OF 1] by fastforce
qed

text \<open>Client 5's first request is executed and answered; the thread is idle again.\<close>

lemma race_first:
  obtains es rb where "srv_run demo_srv es (race_sys (race_srv 2 1 [5 \<mapsto> 3] (race_w2 rb)) idle_threads)" "length rb = 28"
proof -
  obtain u where u: "dispatch_begin (\<lambda>_. 0) (race_msg 5 1 0) 28 (race_srv 2 1 Map.empty rwindow_init) = Inr (Request (race_hdr 5 1 0) u demo_f)"
    "u_at u (be32 0)" by (rule race_begin)
  have p: "after_check (\<lambda>_. 0) NEW None 3 (race_hdr 5 1 0) u demo_f = Inr (DRun 3 (race_hdr 5 1 0) u demo_f)" by (simp add: after_check_def)
  have q: "rpcs_got_pdu True True 3 (race_msg 5 1 0) 28 (race_srv 1 1 Map.empty rwindow_init)
      = Inr (True, race_srv 2 1 Map.empty rwindow_init, Queued \<lparr>dj_conn = 3, dj_buf = race_msg 5 1 0, dj_sz = 28\<rparr>)"
    by (simp add: race_arrives)
  obtain es where 1: "srv_run demo_srv es (race_sys (race_srv 3 1 [5 \<mapsto> 3] race_w1) (idle_threads(0 := DRun 3 (race_hdr 5 1 0) u demo_f)))"
    by (rule srv_run_request [OF race_start _ q u(1) race_verdicts(1) p]) simp
  obtain rb where 2: "served idle_threads 0 {3, 4} (race_srv 3 1 [5 \<mapsto> 3] race_w1) (DRun 3 (race_hdr 5 1 0) u demo_f) [S_Exec 5 1, S_Window (Replied 5 1 rb)]
      (race_srv 3 1 [5 \<mapsto> 3] (race_w2 rb)) (DRecorded 3 5 (Block 0 (length rb)))" "length rb = 28"
    by (rule race_records [OF u(2), of 5 race_w1 1 race_w2]) (simp_all add: race_window_def add_reply_def reply_t_new_def Let_def)
  let ?v = "race_srv 3 1 [5 \<mapsto> 3] (race_w2 rb)" and ?b = "Block 0 (length rb)"
  have "srv_step (thread_at idle_threads 0 {3, 4} ?v (DRecorded 3 5 ?b)) S_Tau (thread_at idle_threads 0 {3, 4} ?v (DSend 3 ?b))"
    using srv_step.choosing [of "idle_threads(0 := DRecorded 3 5 ?b)" 0 3 5 ?b ?v 3 ?v "{3, 4}"]
    by (simp add: thread_at_def latest_conn_def race_eval)
  then have 3: "served idle_threads 0 {3, 4} ?v (DRecorded 3 5 ?b) [S_Tau] ?v (DSend 3 ?b)" by (rule served_thread) simp_all
  have "srv_step (thread_at idle_threads 0 {3, 4} ?v (DSend 3 ?b)) (S_Send 3 rb) (thread_at idle_threads 0 {3, 4} ?v (DEnd 3))"
    using srv_step.sending [of "idle_threads(0 := DSend 3 ?b)" 0 3 ?b ?v 3 rb "{3, 4}"]
    by (simp add: thread_at_def send_on_def src_bytes_def race_eval)
  then have 4: "served idle_threads 0 {3, 4} ?v (DSend 3 ?b) [S_Send 3 rb] ?v (DEnd 3)" by (rule served_thread) simp_all
  have "unref_conn 3 ?v = Inr (race_srv 2 1 [5 \<mapsto> 3] (race_w2 rb))"
    by (simp add: unref_conn_def decref_def Let_def VERIFY_def race_eval fun_upd_twist)
  then have "srv_step (thread_at idle_threads 0 {3, 4} ?v (DEnd 3)) S_Tau (thread_at idle_threads 0 {3, 4} (race_srv 2 1 [5 \<mapsto> 3] (race_w2 rb)) DIdle)"
    using srv_step.ending [of "idle_threads(0 := DEnd 3)" 0 3 ?v] by (simp add: thread_at_def)
  then have "served idle_threads 0 {3, 4} ?v (DEnd 3) [S_Tau] (race_srv 2 1 [5 \<mapsto> 3] (race_w2 rb)) DIdle" by (rule served_thread) simp_all
  from srv_run_served [OF served_trans [OF this served_trans [OF 4 served_trans [OF 3 2(1)]]], of demo_srv es] 1 show thesis
    using that 2(2) by (simp add: thread_at_def fun_upd_idem)
qed

section \<open>Properties\<close>

text \<open>
  C5: the data race.  There is a run of the server in which client 5, on its connection 3, is sent the reply to a call of client 6: a
  dispatch thread takes up a retransmission of client 5's call 1, whose reply the window still has; client 5's next request
  acknowledges the call, so the block of the reply is freed; the reply to call 4 of client 6 is recorded in the same block; and then the thread sends
  the block.  The server has not seen a call 4 of client 5, and the message carries its number and status OK, so a client 5 that waits for its call 4 takes it for the answer.
\<close>

theorem reply_of_another_client:
  "\<exists>es s rb. srv_run demo_srv (es @ [S_Send 3 rb]) s \<and> S_Window (Replied 6 4 rb) \<in> set es \<and> reply_msg \<lparr>rp_xid = 4, rp_ret = 0\<rparr> (be32 7) rb
     \<and> sv_conns (ss_srv s) 5 = Some 3 \<and> sv_conns (ss_srv s) 6 = Some 4 \<and> (5, 4) \<notin> rw_seen (sv_win (ss_srv s))"
proof -
  obtain es rb where 1: "srv_run demo_srv es (race_sys (race_srv 2 1 [5 \<mapsto> 3] (race_w2 rb)) idle_threads)" and len: "length rb = 28" by (rule race_first)
  let ?dup = "DSend 3 (Block 0 (length rb))"
  obtain u where u: "dispatch_begin (\<lambda>_. 0) (race_msg 5 1 0) 28 (race_srv 3 1 [5 \<mapsto> 3] (race_w2 rb)) = Inr (Request (race_hdr 5 1 0) u demo_f)"
    by (rule race_begin)
  have p: "after_check (\<lambda>_. 0) DONE (Some (Some 0, length rb)) 3 (race_hdr 5 1 0) u demo_f = Inr ?dup" by (simp add: after_check_def done_src_def)
  have q: "rpcs_got_pdu True True 3 (race_msg 5 1 0) 28 (race_srv 2 1 [5 \<mapsto> 3] (race_w2 rb))
      = Inr (True, race_srv 3 1 [5 \<mapsto> 3] (race_w2 rb), Queued \<lparr>dj_conn = 3, dj_buf = race_msg 5 1 0, dj_sz = 28\<rparr>)" by (simp add: race_arrives)
  obtain es1 where 2: "srv_run demo_srv es1 (race_sys (race_srv 3 1 [5 \<mapsto> 3] (race_w2 rb)) (idle_threads(1 := ?dup)))"
    by (rule srv_run_request [OF 1 _ q u race_verdicts(2) p]) simp
  obtain u3 where u3: "dispatch_begin (\<lambda>_. 0) (race_msg 5 3 2) 28 (race_srv 4 1 [5 \<mapsto> 3] (race_w2 rb)) = Inr (Request (race_hdr 5 3 2) u3 demo_f)"
    by (rule race_begin)
  have t: "(idle_threads(1 := ?dup)) 0 = DIdle" by simp
  let ?next = "DRun 3 (race_hdr 5 3 2) u3 demo_f"
  have p: "after_check (\<lambda>_. 0) NEW None 3 (race_hdr 5 3 2) u3 demo_f = Inr ?next" by (simp add: after_check_def)
  have q: "rpcs_got_pdu True True 3 (race_msg 5 3 2) 28 (race_srv 3 1 [5 \<mapsto> 3] (race_w2 rb))
      = Inr (True, race_srv 4 1 [5 \<mapsto> 3] (race_w2 rb), Queued \<lparr>dj_conn = 3, dj_buf = race_msg 5 3 2, dj_sz = 28\<rparr>)" by (simp add: race_arrives)
  obtain es2 where 3: "srv_run demo_srv es2 (race_sys (race_srv 4 1 [5 \<mapsto> 3] race_w3) (idle_threads(1 := ?dup, 0 := ?next)))"
    by (rule srv_run_request [OF 2 t q u3 race_verdicts(3) p])
  obtain u4 where u4: "dispatch_begin (\<lambda>_. 0) (race_msg 6 4 0) 28 (race_srv 4 2 [5 \<mapsto> 3] race_w3) = Inr (Request (race_hdr 6 4 0) u4 demo_f)"
    "u_at u4 (be32 0)" by (rule race_begin)
  let ?ph = "idle_threads(1 := ?dup, 0 := ?next)" and ?other = "DRun 4 (race_hdr 6 4 0) u4 demo_f"
  have t: "?ph 2 = DIdle" by simp
  have p: "after_check (\<lambda>_. 0) NEW None 4 (race_hdr 6 4 0) u4 demo_f = Inr ?other" by (simp add: after_check_def)
  have q: "rpcs_got_pdu True True 4 (race_msg 6 4 0) 28 (race_srv 4 1 [5 \<mapsto> 3] race_w3)
      = Inr (True, race_srv 4 2 [5 \<mapsto> 3] race_w3, Queued \<lparr>dj_conn = 4, dj_buf = race_msg 6 4 0, dj_sz = 28\<rparr>)" by (simp add: race_arrives)
  obtain es3 where 4: "srv_run demo_srv es3 (race_sys (race_srv 4 3 [5 \<mapsto> 3, 6 \<mapsto> 4] race_w4) (?ph(2 := ?other)))"
    by (rule srv_run_request [OF 3 t q u4(1) race_verdicts(4) p])
  obtain rb' where 5: "served ?ph 2 {3, 4} (race_srv 4 3 [5 \<mapsto> 3, 6 \<mapsto> 4] race_w4) ?other [S_Exec 6 4, S_Window (Replied 6 4 rb')]
      (race_srv 4 3 [5 \<mapsto> 3, 6 \<mapsto> 4] (race_w5 rb')) (DRecorded 4 6 (Block 0 (length rb')))" "reply_msg \<lparr>rp_xid = 4, rp_ret = 0\<rparr> (be32 7) rb'" "length rb' = 28"
    by (rule race_records [OF u4(2), of 6 race_w4 4 race_w5]) (simp_all add: race_window_def add_reply_def reply_t_new_def Let_def)
  let ?v = "race_srv 4 3 [5 \<mapsto> 3, 6 \<mapsto> 4] (race_w5 rb')" and ?fin = "?ph(2 := DRecorded 4 6 (Block 0 (length rb')))"
  have 6: "srv_run demo_srv (es3 @ [S_Exec 6 4, S_Window (Replied 6 4 rb')]) (race_sys ?v ?fin)"
    using srv_run_served [OF 5(1), of demo_srv es3] 4 by (simp add: thread_at_def)
  have "send_on 3 (Block 0 (length rb)) ?v = Inr (3, rb')" using len 5(3) by (simp add: send_on_def src_bytes_def race_eval)
  from srv_step.sending [of ?fin 1, OF _ this] have "srv_step (race_sys ?v ?fin) (S_Send 3 rb') (race_sys ?v (?fin(1 := DEnd 3)))" by simp
  from srv_more [OF 6 this] have 7: "srv_run demo_srv ((es3 @ [S_Exec 6 4, S_Window (Replied 6 4 rb')]) @ [S_Send 3 rb']) (race_sys ?v (?fin(1 := DEnd 3)))" .
  show ?thesis
    by (rule exI, rule exI, rule exI, rule conjI [OF 7]) (use 5(2) in \<open>simp add: race_srv_def rw_seen_def known_def race_window_def\<close>)
qed

end
