(* ===== verification/Several_Clients.thy ===== *)
theory Several_Clients
  imports Remote_Call
begin

text \<open>
  Several clients of one server.  A request of one client leaves what the server keeps for the others as it is
  (\<open>others_kept\<close>): their connections, their latest connection and their part of the reply window.  So any interleaving of
  whole calls of several clients, each linked with the server through a connection of its own, is a sequence of local calls.
\<close>

section \<open>What a request leaves to the other clients\<close>

definition others_kept :: "u32 \<Rightarrow> nat \<Rightarrow> 'o rpcs \<Rightarrow> 'o rpcs \<Rightarrow> bool" where
  "others_kept clt cid s s' \<longleftrightarrow> (\<forall>d. d \<noteq> cid \<longrightarrow> sv_store s' d = sv_store s d) \<and> (\<forall>c. c \<noteq> clt \<longrightarrow> sv_conns s' c = sv_conns s c
     \<and> reply_set (sv_win s') c = reply_set (sv_win s) c \<and> reply_lower_bound (sv_win s') c = reply_lower_bound (sv_win s) c)"

lemma others_kept_refl [simp]: "others_kept clt cid s s"
  by (simp add: others_kept_def)

lemma others_kept_trans: "others_kept clt cid s s1 \<Longrightarrow> others_kept clt cid s1 s2 \<Longrightarrow> others_kept clt cid s s2"
  by (simp add: others_kept_def)

lemma others_kept_store: "(\<And>d. d \<noteq> cid \<Longrightarrow> sv_store s' d = sv_store s d) \<Longrightarrow> sv_conns s' = sv_conns s \<Longrightarrow> sv_win s' = sv_win s \<Longrightarrow> others_kept clt cid s s'"
  by (simp add: others_kept_def)

lemma ref_conn_others: "ref_conn cid s = Inr s' \<Longrightarrow> others_kept clt cid s s'"
  by (intro others_kept_store) (auto simp: ref_conn_def st_ops bind_r_eq_Inr split: option.splits)

lemma unref_conn_others: "unref_conn cid s = Inr s' \<Longrightarrow> others_kept clt cid s s'"
  by (intro others_kept_store) (auto simp: unref_conn_def st_ops Let_def bind_r_eq_Inr split: option.splits if_splits)

lemma save_conn_others:
  assumes "save_conn clt cid s = Inr s'" "knows_conn clt cid s"
  shows "others_kept clt cid s s'" "sv_conns s' clt = Some cid"
proof -
  have "others_kept clt cid s s' \<and> sv_conns s' clt = Some cid"
  proof (cases "sv_conns s clt")
    case None
    then obtain s1 where s1: "ref_conn cid s = Inr s1" "s' = s1\<lparr>sv_conns := (sv_conns s1)(clt \<mapsto> cid)\<rparr>"
      using assms(1) by (auto simp: save_conn_def bind_r_eq_Inr)
    show ?thesis using ref_conn_others [OF s1(1), of clt] s1(2) by (simp add: others_kept_def)
  next
    case (Some old)
    then have "old = cid" using assms(2) by (simp add: knows_conn_def)
    then show ?thesis using Some assms(1) by (auto simp: save_conn_def conn_compare_def bind_r_eq_Inr)
  qed
  then show "others_kept clt cid s s'" "sv_conns s' clt = Some cid" by simp_all
qed

lemma lower_bound_others:
  assumes "update_lower_bound c xr w = Inr w1" "d \<noteq> c"
  shows "reply_set w1 d = reply_set w d \<and> reply_lower_bound w1 d = reply_lower_bound w d"
proof (cases "\<exists>lb rs. reply_lower_bound w c = Some lb \<and> lb < xr \<and> reply_window w c = Some rs")
  case True
  then obtain lb rs where w: "reply_lower_bound w c = Some lb" "lb < xr" "reply_window w c = Some rs" by blast
  then obtain h rs' where "drop_replies xr (rw_heap w) rs = Inr (h, rs')" using assms(1) by (auto simp: update_lower_bound_def Let_def bind_r_eq_Inr)
  then show ?thesis using assms w by (auto simp: update_lower_bound_def Let_def split: option.splits if_splits)
next
  case False
  then show ?thesis
    using assms by (cases "reply_lower_bound w c"; cases "reply_window w c") (auto simp: update_lower_bound_def Let_def split: if_splits)
qed

lemma check_others:
  assumes "checkduplicate_and_update c x xr w = Inr (w', stat, out)" "d \<noteq> c"
  shows "reply_set w' d = reply_set w d \<and> reply_lower_bound w' d = reply_lower_bound w d"
proof -
  obtain w1 where w1: "update_lower_bound c xr w = Inr w1" using assms(1) by (auto simp: checkduplicate_and_update_def bind_r_eq_Inr)
  obtain w2 old where w2: "remember_xid c x w1 = (w2, old)" by (cases "remember_xid c x w1")
  have "reply_set w2 d = reply_set w1 d \<and> reply_lower_bound w2 = reply_lower_bound w1"
    using w2 assms(2) by (auto simp: remember_xid_def split: option.splits if_splits)
  moreover have "reply_set w' = reply_set w2 \<and> reply_lower_bound w' d = reply_lower_bound w2 d"
    using assms w1 w2 by (auto simp: checkduplicate_and_update_def Let_def split: option.splits if_splits)
  ultimately show ?thesis using lower_bound_others [OF w1 assms(2)] by simp
qed

lemma classify_others:
  assumes "classify h cid s = Inr (s', stat, out)" "knows_conn (rq_clt_nonce h) cid s" "rq_clt_nonce h \<noteq> 0"
  shows "others_kept (rq_clt_nonce h) cid s s'" "sv_conns s' (rq_clt_nonce h) = Some cid"
proof -
  let ?c = "rq_clt_nonce h" let ?s = "s\<lparr>sv_win := create_window ?c (sv_win s)\<rparr>"
  obtain s1 w where s1: "save_conn ?c cid ?s = Inr s1" "checkduplicate_and_update ?c (rq_xid h) (rq_xid_rep h) (sv_win s1) = Inr (w, stat, out)"
    "s' = s1\<lparr>sv_win := w\<rparr>" using assms(1,3) by (auto simp: classify_def bind_r_eq_Inr)
  have "knows_conn ?c cid ?s" using assms(2) by (simp add: knows_conn_def)
  note sv = save_conn_others [OF s1(1) this]
  have "others_kept ?c cid s ?s" by (simp add: others_kept_def create_window_def split: option.split)
  moreover have "others_kept ?c cid s1 s'" using check_others [OF s1(2)] s1(3) by (simp add: others_kept_def)
  ultimately show "others_kept ?c cid s s'" using sv(1) others_kept_trans by blast
  show "sv_conns s' ?c = Some cid" using sv(2) s1(3) by simp
qed

lemma execute_others: "execute mem proc req f s = Inr (ret, rep, s') \<Longrightarrow> others_kept clt cid s s' \<and> sv_conns s' = sv_conns s"
  by (auto simp: execute_def updatestat_def Let_def bind_r_eq_Inr others_kept_def split: if_splits)

lemma record_others: "record_reply clt x a bs s = Inr s' \<Longrightarrow> others_kept clt cid s s' \<and> sv_conns s' = sv_conns s"
  by (auto simp: record_reply_def add_reply_def bind_r_eq_Inr Let_def others_kept_def split: if_splits option.splits)

lemma switch_others:
  assumes "dispatch_switch mem a h req f stat out cid s = Inr (d, s', ms)" "sv_conns s (rq_clt_nonce h) = Some cid"
  shows "others_kept (rq_clt_nonce h) cid s s' \<and> d = cid \<and> (\<forall>m\<in>set ms. fst m = cid)"
proof (cases stat)
  case NEW
  then obtain ret rep s1 bs s2 m where E: "execute mem (rq_proc h) req f s = Inr (ret, rep, s1)" "record_reply (rq_clt_nonce h) (rq_xid h) a bs s1 = Inr s2"
    "latest_conn (rq_clt_nonce h) cid s2 = Inr (d, s')" "send_on d (reply_src (rq_clt_nonce h) a bs) s' = Inr m" "ms = [m]"
    using assms(1) by (auto simp: dispatch_switch_def bind_r_eq_Inr)
  have 1: "others_kept (rq_clt_nonce h) cid s s2" "sv_conns s2 (rq_clt_nonce h) = Some cid"
    using execute_others [OF E(1)] record_others [OF E(2)] assms(2) others_kept_trans by metis+
  then have "d = cid" "s' = s2" using E(3) by (auto simp: latest_conn_def bind_r_eq_Inr split: if_splits)
  then show ?thesis using 1(1) E(4,5) by (auto simp: send_on_def bind_r_eq_Inr)
qed (use assms(1) in \<open>auto simp: dispatch_switch_def send_on_def bind_r_eq_Inr\<close>)

lemma serve_others:
  assumes sv: "serve mem a cid b sz s = Inr (s', ms)" and h: "unpack_req_header (unmarshall_new (Some b) sz) = Inr (req, h)"
    and ok: "knows_conn (rq_clt_nonce h) cid s" "rq_clt_nonce h \<noteq> 0"
  shows "others_kept (rq_clt_nonce h) cid s s'" "\<forall>m\<in>set ms. fst m = cid"
proof -
  let ?c = "rq_clt_nonce h"
  have "others_kept ?c cid s s' \<and> (\<forall>m\<in>set ms. fst m = cid)"
  proof (cases "sv_reachable s")
    case False
    then show ?thesis using sv by (simp add: serve_def rpcs_got_pdu_def)
  next
    case True
    then obtain s1 where s1: "ref_conn cid s = Inr s1" "dispatch mem a cid b sz s1 = Inr (s', ms)"
      using sv by (auto simp: serve_def rpcs_got_pdu_def bind_r_eq_Inr)
    have k1: "others_kept ?c cid s s1" by (rule ref_conn_others [OF s1(1)])
    have "knows_conn ?c cid s1" using ok(1) s1(1) by (auto simp: knows_conn_def ref_conn_def bind_r_eq_Inr)
    obtain arr where arr: "dispatch_begin mem b sz s1 = Inr arr" using s1(2) by (auto simp: dispatch_def bind_r_eq_Inr)
    have "others_kept ?c cid s1 s' \<and> (\<forall>m\<in>set ms. fst m = cid)"
    proof (cases arr)
      case Bad_Header
      then show ?thesis using s1(2) arr unref_conn_others by (auto simp: dispatch_def bind_r_eq_Inr)
    next
      case (Old_Server bs)
      then show ?thesis using s1(2) arr by (auto simp: dispatch_def send_on_def bind_r_eq_Inr)
    next
      case (Request h' u f)
      then have "h' = h" using arr h by (auto simp: dispatch_begin_def bind_r_eq_Inr split: if_splits option.splits)
      then obtain s2 stat out d s3 where E: "classify h cid s1 = Inr (s2, stat, out)" "dispatch_switch mem a h u f stat out cid s2 = Inr (d, s3, ms)"
        "unref_conn d s3 = Inr s'" using s1(2) arr Request by (auto simp: dispatch_def bind_r_eq_Inr)
      note c = classify_others [OF E(1) \<open>knows_conn ?c cid s1\<close> ok(2)]
      note w = switch_others [OF E(2) c(2)]
      show ?thesis using c(1) w unref_conn_others [of cid s3 s' ?c] E(3) others_kept_trans by metis
    qed
    then show ?thesis using k1 others_kept_trans by blast
  qed
  then show "others_kept ?c cid s s'" "\<forall>m\<in>set ms. fst m = cid" by simp_all
qed

lemma exchange_others:
  fixes s :: "'o rpcs"
  assumes ex: "exchange mem junk t adr cid new proc req (c, s) = Inr (ret, u, (c', s'))" and link: "linked cid new c s"
    and proc: "proc = rpc_bind \<longleftrightarrow> \<not> cl_bind_done c" and req: "m_wf req" "m_ind req < 2 ^ 31"
  shows "others_kept (cl_clt_nonce c) cid s s'"
proof -
  have side: "client_side new c" and conn: "knows_conn (cl_clt_nonce c) cid s" using link by (simp_all add: linked_def server_side_def)
  have may: "may_call proc c" and nz: "cl_clt_nonce c \<noteq> 0" using side proc by (auto simp: may_call_def client_side_def)
  obtain m where m: "call1_begin mem junk t proc req c = Inr (Begun m (hd (cl_window c)) (calling t junk c))" "m_wf m" "m_ind m = m_ind req"
    "req_msg (call_header proc c) (m_body req) (m_bytes m)"
    by (rule call1_begin_ok [OF may req(1)])
  have len: "length (m_bytes m) = m_ind req" "length (wire (m_bytes m)) = m_ind req" using m(2,3) by (auto simp: m_bytes_def length_wire elim!: m_wfE)
  have "chan_ready new (calling t junk c)" "cl_reachable (calling t junk c)" "\<not> isvalid (cl_dup_req (calling t junk c))"
    using side by (simp_all add: client_side_def calling_ready) (simp_all add: calling_def)
  then obtain d st where d: "transmit m new None (calling t junk c) = Inr (Some d, (calling t junk c)\<lparr>cl_chan := Some d, cl_store := st\<rparr>, [(d, m_bytes m)])"
    by (rule transmit_ok)
  then obtain s1 ms where s1: "serve mem adr cid (wire (m_bytes m)) (length (m_bytes m)) s = Inr (s1, ms)" "s' = s1"
    using ex m(1) by (auto simp: exchange_def bind_r_eq_Inr)
  obtain v where v: "unpack_req_header (unmarshall_new (Some (wire (m_bytes m) @ [])) (length (wire (m_bytes m)))) = Inr (v, call_header proc c)"
    by (rule req_msg_unpack [OF wire_req [OF m(4)]]) (use len(2) req(2) in simp)
  have "cl_clt_nonce c = rq_clt_nonce (call_header proc c)" by (simp add: call_header_def)
  then show ?thesis using serve_others(1) [OF s1(1), of v "call_header proc c"] v conn nz s1(2) len by simp
qed

lemma linked_others:
  assumes "linked cid2 new2 c2 s" "others_kept clt cid s s'" "same_service s s'" "srv_ready s'" "cid2 \<noteq> cid" "cl_clt_nonce c2 \<noteq> clt"
  shows "linked cid2 new2 c2 s'"
  using assms by (auto simp: linked_def server_side_def others_kept_def same_service_def open_conn_def knows_conn_def rw_seen_def known_def)

section \<open>Interleaved sessions\<close>

text \<open>The clients by number; which connection of the server leads to each, and the connection it makes when it has none.\<close>

type_synonym parties = "nat \<Rightarrow> nat \<times> (nat \<times> conn) option"

definition all_linked :: "nat \<Rightarrow> parties \<Rightarrow> (nat \<Rightarrow> rpcc) \<Rightarrow> 'o rpcs \<Rightarrow> bool" where
  "all_linked N pt cl s \<longleftrightarrow> (\<forall>i<N. linked (fst (pt i)) (snd (pt i)) (cl i) s)
     \<and> (\<forall>i<N. \<forall>j<N. i \<noteq> j \<longrightarrow> fst (pt i) \<noteq> fst (pt j) \<and> cl_clt_nonce (cl i) \<noteq> cl_clt_nonce (cl j))"

text \<open>A sequence of calls, each by thread \<open>t\<close> of client \<open>i\<close>.\<close>

fun sessions ::
    "memory \<Rightarrow> i32 \<Rightarrow> parties \<Rightarrow> 'a putter \<Rightarrow> 'r getter \<Rightarrow> 'r \<Rightarrow> (nat \<times> nat \<times> nat \<times> u32 \<times> 'a) list \<Rightarrow>
     (nat \<Rightarrow> rpcc) \<times> 'o rpcs \<Rightarrow> ((i32 \<times> 'r) list \<times> (nat \<Rightarrow> rpcc) \<times> 'o rpcs) result" where
  "sessions mem junk pt p g r0 [] cs = Inr ([], cs)"
| "sessions mem junk pt p g r0 ((i, t, adr, proc, a) # qs) (cl, s) =
     bind_r (call_1 mem (exchange mem junk t adr (fst (pt i)) (snd (pt i))) p g proc a r0 (cl i, s)) (\<lambda>(b, r, (c, s)).
     bind_r (sessions mem junk pt p g r0 qs (cl(i := c), s)) (\<lambda>(rs, cs). Inr ((b, r) # rs, cs)))"

text \<open>One call of one of them.\<close>

lemma one_call_of:
  fixes s :: "'o rpcs"
  assumes arg: "codec e f fr p g" "sendable e f a" "fr z" and res: "codec e' f' fr' p' g'" "sendable e' f' r" "fr' r0"
    and link: "all_linked N pt cl s" "i < N" and proc: "proc = rpc_bind \<longleftrightarrow> \<not> cl_bind_done (cl i)" "sv_procs s proc = Some (h_fn1 g z p' meth)"
    and adr: "rw_heap (sv_win s) adr = None" and x: "cl_xid (cl i) \<noteq> - 1" and meth: "meth a (sv_obj s) = Inr (b, r, obj)" "0 \<le> sint b"
  obtains c' and s' :: "'o rpcs" where "call_1 mem (exchange mem junk t adr (fst (pt i)) (snd (pt i))) p g' proc a r0 (cl i, s) = Inr (b, r, (c', s'))"
    "sv_obj s' = obj" "all_linked N pt (cl(i := c')) s'" "same_client (cl i) c'" "cl_xid c' = cl_xid (cl i) + 1" "same_service s s'"
    "dom (rw_heap (sv_win s')) \<subseteq> insert adr (dom (rw_heap (sv_win s)))"
proof -
  have li: "linked (fst (pt i)) (snd (pt i)) (cl i) s" using link by (simp add: all_linked_def)
  obtain c' s' where C: "call_1 mem (exchange mem junk t adr (fst (pt i)) (snd (pt i))) p g' proc a r0 (cl i, s) = Inr (b, r, (c', s'))"
    "sv_obj s' = obj" "linked (fst (pt i)) (snd (pt i)) c' s'" "same_client (cl i) c'" "cl_xid c' = cl_xid (cl i) + 1" "same_service s s'"
    "dom (rw_heap (sv_win s')) \<subseteq> insert adr (dom (rw_heap (sv_win s)))"
    by (rule one_call [OF arg res li proc adr x meth])
  have a: "f a" "length (e a) < 2 ^ 29" using arg(2) by (simp_all add: sendable_def)
  obtain req where req: "p mem (marshall_new mem) a = Inr req" "m_wf req" "m_ind req = 24 + length (e a)" by (rule call_1_request [OF arg(1) a])
  have "m_ind req < 2 ^ 31" using req(3) a(2) by simp
  moreover obtain ret u where "exchange mem junk t adr (fst (pt i)) (snd (pt i)) proc req (cl i, s) = Inr (ret, u, (c', s'))"
    using C(1) req(1) by (auto simp: call_1_def call_m_def Let_def bind_r_eq_Inr split: if_splits)
  ultimately have kept: "others_kept (cl_clt_nonce (cl i)) (fst (pt i)) s s'" using exchange_others [OF _ li proc(1) req(2)] by blast
  have ready: "srv_ready s'" using C(3) by (simp add: linked_def server_side_def)
  have nonce: "cl_clt_nonce c' = cl_clt_nonce (cl i)" using C(4) by (simp add: same_client_def)
  have "linked (fst (pt j)) (snd (pt j)) (cl j) s'" if "j < N" "j \<noteq> i" for j
    using linked_others [OF _ kept C(6) ready, of "fst (pt j)"] link that by (simp add: all_linked_def)
  then have "all_linked N pt (cl(i := c')) s'" using link C(3) nonce by (auto simp: all_linked_def)
  then show thesis using that C by blast
qed

lemma sessions_local:
  fixes s :: "'o rpcs"
  assumes arg: "codec e f fr p g" "fr z" and res: "codec e' f' fr' p' g'" "fr' r0"
    and calls: "\<forall>(i, t, adr, proc, a)\<in>set qs. i < N \<and> proc \<in> P \<and> sendable e f a" "rpc_bind \<notin> P" "offers P g z p' meth s"
    and link: "all_linked N pt cl s" "\<forall>i<N. cl_bind_done (cl i) \<and> unat (cl_xid (cl i)) + length qs < 2 ^ 32"
    and adrs: "distinct (map (\<lambda>q. fst (snd (snd q))) qs)" "(\<lambda>q. fst (snd (snd q))) ` set qs \<inter> dom (rw_heap (sv_win s)) = {}"
    and loc: "local_calls meth (map (\<lambda>q. snd (snd (snd q))) qs) (sv_obj s) = Inr (rs, obj)" "\<forall>(b, r)\<in>set rs. 0 \<le> sint b \<and> sendable e' f' r"
  shows "\<exists>cl' s'. sessions mem junk pt p g' r0 qs (cl, s) = Inr (rs, cl', s') \<and> sv_obj s' = obj \<and> all_linked N pt cl' s'"
  using calls link adrs loc
proof (induction qs arbitrary: cl s rs)
  case (Cons q qs)
  obtain i t adr proc a where q: "q = (i, t, adr, proc, a)" by (cases q)
  obtain b r obj1 rs1 where m: "meth proc a (sv_obj s) = Inr (b, r, obj1)" "local_calls meth (map (\<lambda>q. snd (snd (snd q))) qs) obj1 = Inr (rs1, obj)"
    "rs = (b, r) # rs1"
    using Cons.prems(8) q by (auto simp: bind_r_eq_Inr)
  have i: "i < N" and a: "sendable e f a" and b: "sendable e' f' r" "0 \<le> sint b" and adr: "rw_heap (sv_win s) adr = None"
    using Cons.prems(1,7,9) q m(3) by auto
  have proc: "proc = rpc_bind \<longleftrightarrow> \<not> cl_bind_done (cl i)" "sv_procs s proc = Some (h_fn1 g z p' (meth proc))"
    using Cons.prems(1,2,3,5) q i by (auto simp: offers_def)
  note x = next_xid [of "cl_xid (cl i)" "length qs"]
  obtain c1 s1 where c1: "call_1 mem (exchange mem junk t adr (fst (pt i)) (snd (pt i))) p g' proc a r0 (cl i, s) = Inr (b, r, (c1, s1))" "sv_obj s1 = obj1"
    "all_linked N pt (cl(i := c1)) s1" "same_client (cl i) c1" "cl_xid c1 = cl_xid (cl i) + 1" "same_service s s1"
    "dom (rw_heap (sv_win s1)) \<subseteq> insert adr (dom (rw_heap (sv_win s)))"
    by (rule one_call_of [where meth = "meth proc", OF arg(1) a arg(2) res(1) b(1) res(2) Cons.prems(4) i proc adr _ m(1) b(2)])
      (use x Cons.prems(5) i in auto)
  have "\<exists>cl' s'. sessions mem junk pt p g' r0 qs (cl(i := c1), s1) = Inr (rs1, cl', s') \<and> sv_obj s' = obj \<and> all_linked N pt cl' s'"
  proof (rule Cons.IH)
    show "\<forall>(i, t, adr, proc, a)\<in>set qs. i < N \<and> proc \<in> P \<and> sendable e f a" "rpc_bind \<notin> P" "distinct (map (\<lambda>q. fst (snd (snd q))) qs)"
      using Cons.prems(1,2,6) by simp_all
    show "offers P g z p' meth s1" by (rule offers_kept [OF Cons.prems(3) c1(6)])
    show "all_linked N pt (cl(i := c1)) s1" by (rule c1(3))
    show "\<forall>j<N. cl_bind_done ((cl(i := c1)) j) \<and> unat (cl_xid ((cl(i := c1)) j)) + length qs < 2 ^ 32"
      using Cons.prems(5) c1(4,5) i x(2) by (auto simp: same_client_def)
    show "(\<lambda>q. fst (snd (snd q))) ` set qs \<inter> dom (rw_heap (sv_win s1)) = {}" using Cons.prems(6,7) c1(7) q by force
    show "local_calls meth (map (\<lambda>q. snd (snd (snd q))) qs) (sv_obj s1) = Inr (rs1, obj)" using m(2) c1(2) by simp
    show "\<forall>(b, r)\<in>set rs1. 0 \<le> sint b \<and> sendable e' f' r" using Cons.prems(9) m(3) by simp
  qed
  then show ?case using c1(1) q m(3) by auto
qed simp

end
