(* ===== verification/Rpctest.thy ===== *)
theory Rpctest
  imports Remote_Call
begin

text \<open>
  The test program of the library, \<^verbatim>\<open>rpc/rpctest.cc\<close>: its service, its test of the marshalling
  operators, the calls of \<open>simple_tests\<close>, of the client threads and of \<open>failure_test\<close>.

  The calls go over the connection of theory \<open>Remote_Call\<close>; \<open>a\<close> is the address of the next block that the
  server allocates for a reply.  What \<open>random()\<close> gives and the clock are arguments.  A test that fails one of its
  checks gives the result \<open>Inl Verify_Failed\<close>.
\<close>

section \<open>The service\<close>

definition bytes_of :: "string \<Rightarrow> byte list" where
  "bytes_of s = map of_char s"

definition handle_22 :: "byte list \<Rightarrow> byte list \<Rightarrow> unit \<Rightarrow> (i32 \<times> byte list \<times> unit) result" where
  "handle_22 a b obj = Inr (0, a @ b, obj)"

definition handle_fast :: "i32 \<Rightarrow> unit \<Rightarrow> (i32 \<times> i32 \<times> unit) result" where
  "handle_fast a obj = (if sint a + 1 < 2 ^ 31 then Inr (0, a + 1, obj) else Inl Signed_Overflow)"

definition handle_slow :: "i32 \<Rightarrow> unit \<Rightarrow> (i32 \<times> i32 \<times> unit) result" where
  "handle_slow a obj = (if sint a + 2 < 2 ^ 31 then Inr (0, a + 2, obj) else Inl Signed_Overflow)"

text \<open>A negative length becomes a huge \<open>size_t\<close>, for which the constructor of \<open>std::string\<close> throws.\<close>

definition handle_bigrep :: "i32 \<Rightarrow> unit \<Rightarrow> (i32 \<times> byte list \<times> unit) result" where
  "handle_bigrep len obj =
     (if sint len < 0 then Inl Uncaught_Exception else Inr (0, replicate (nat (sint len)) (of_char CHR ''x''), obj))"

definition startserver :: "u32 \<Rightarrow> i32 \<Rightarrow> unit rpcs result" where
  "startserver nonce z =
     bind_r (rpcs_new nonce 0 z ()) (\<lambda>s.
     bind_r (reg1 22 (h_fn2 get_string get_string [] [] put_string handle_22) s) (\<lambda>s.
     bind_r (reg1 23 (h_fn1 get_int z put_int handle_fast) s) (\<lambda>s.
     bind_r (reg1 24 (h_fn1 get_int z put_int handle_slow) s) (\<lambda>s.
     reg1 25 (h_fn1 get_int z put_string handle_bigrep) s))))"

section \<open>The tests\<close>

definition testmarshall :: "memory \<Rightarrow> i32 \<Rightarrow> u64 \<Rightarrow> unit result" where
  "testmarshall mem i0 l0 =
     (let m = marshall_new mem;
          rh = \<lparr>rq_xid = 1, rq_proc = 2, rq_clt_nonce = 3, rq_srv_nonce = 4, rq_xid_rep = 5\<rparr>
      in bind_r (pack_req_header mem m rh) (\<lambda>m.
         bind_r (VERIFY (m_size m = RPC_HEADER_SZ)) (\<lambda>_.
         let i = 12345; l = 1223344455; s = bytes_of ''hallo....''
         in bind_r (put_int mem m i) (\<lambda>m.
            bind_r (put_ullong mem m l) (\<lambda>m.
            bind_r (put_string mem m s) (\<lambda>m.
            case m_take_buf m of (m, b, sz) \<Rightarrow>
            bind_r (VERIFY (sz = RPC_HEADER_SZ + 4 + 8 + length s + 4)) (\<lambda>_.
            bind_r (unpack_req_header (unmarshall_new b sz)) (\<lambda>(un, rh1).
            bind_r (VERIFY (rh = rh1)) (\<lambda>_.
            bind_r (get_int un i0) (\<lambda>(un, i1).
            bind_r (get_ullong un l0) (\<lambda>(un, l1).
            bind_r (get_string un []) (\<lambda>(un, s1).
            bind_r (VERIFY (okdone un)) (\<lambda>_.
            VERIFY (i1 = i \<and> l1 = l \<and> s1 = s))))))))))))))"

text \<open>The parts of a call that stay the same: what is in fresh memory and on the stack, the thread, the connections.\<close>

record test_env =
  te_mem :: memory
  te_junk :: i32
  te_thread :: nat
  te_cid :: nat
  te_new :: "(nat \<times> conn) option"

definition test_call :: "test_env \<Rightarrow> nat \<Rightarrow> (rpcc \<times> unit rpcs) caller1" where
  "test_call e a = exchange (te_mem e) (te_junk e) (te_thread e) a (te_cid e) (te_new e)"

definition call_22 :: "test_env \<Rightarrow> nat \<Rightarrow> byte list \<Rightarrow> byte list \<Rightarrow> byte list \<Rightarrow> rpcc \<times> unit rpcs \<Rightarrow> (i32 \<times> byte list \<times> rpcc \<times> unit rpcs) result" where
  "call_22 e a x y rep = call_2 (te_mem e) (test_call e a) put_string put_string get_string 22 x y rep"

definition call_25 :: "test_env \<Rightarrow> nat \<Rightarrow> i32 \<Rightarrow> byte list \<Rightarrow> rpcc \<times> unit rpcs \<Rightarrow> (i32 \<times> byte list \<times> rpcc \<times> unit rpcs) result" where
  "call_25 e a x rep = call_1 (te_mem e) (test_call e a) put_int get_string 25 x rep"

definition call_int :: "test_env \<Rightarrow> nat \<Rightarrow> u32 \<Rightarrow> i32 \<Rightarrow> i32 \<Rightarrow> rpcc \<times> unit rpcs \<Rightarrow> (i32 \<times> i32 \<times> rpcc \<times> unit rpcs) result" where
  "call_int e a proc x rep = call_1 (te_mem e) (test_call e a) put_int get_int proc x rep"

text \<open>\<open>bind\<close> with a timeout, over any network: the rounds of \<open>call1\<close> are given.\<close>

definition bind_timed :: "test_env \<Rightarrow> timespec \<Rightarrow> int \<Rightarrow> round_in list \<Rightarrow> rpcc \<Rightarrow> (i32 \<times> rpcc) result option" where
  "bind_timed e now to ins c =
     (case put_int (te_mem e) (marshall_new (te_mem e)) 0 of
        Inl f \<Rightarrow> Some (Inl f)
      | Inr req \<Rightarrow>
          (case rpcc_call1 (te_mem e) (te_junk e) (te_thread e) now to ins rpc_bind req c of
             None \<Rightarrow> None
           | Some (Inl f) \<Rightarrow> Some (Inl f)
           | Some (Inr (ret, u, out, c')) \<Rightarrow> Some (rpcc_bind (te_mem e) (\<lambda>proc req c. Inr (ret, u, c')) (te_junk e) c)))"

definition simple_calls :: "test_env \<Rightarrow> nat \<Rightarrow> rpcc \<times> unit rpcs \<Rightarrow> (rpcc \<times> unit rpcs) result" where
  "simple_calls e a cs =
     bind_r (call_22 e a (bytes_of ''hello'') (bytes_of '' goodbye'') [] cs) (\<lambda>(intret, rep, cs).
     bind_r (VERIFY (intret = 0)) (\<lambda>_.
     bind_r (VERIFY (rep = bytes_of ''hello goodbye'')) (\<lambda>_.
     bind_r (call_25 e (a + 1) 70000 rep cs) (\<lambda>(intret, rep, cs).
     bind_r (VERIFY (intret = 0)) (\<lambda>_.
     bind_r (VERIFY (length rep = 70000)) (\<lambda>_.
     bind_r (call_int e (a + 2) 23 77 0 cs) (\<lambda>(intret, xx, cs).
     bind_r (VERIFY (intret = 0 \<and> xx = 78)) (\<lambda>_.
     bind_r (call_22 e (a + 3) (replicate 1000 (of_char CHR ''x'')) (bytes_of ''x'') [] cs) (\<lambda>(_, rep1, cs).
     bind_r (VERIFY (length rep1 = 1001)) (\<lambda>_.
     bind_r (call_22 e (a + 4) (replicate 1000000 (of_char CHR ''x'')) (bytes_of ''z'') rep cs) (\<lambda>(intret, rep, cs).
     bind_r (VERIFY (length rep = 1000001)) (\<lambda>_.
     Inr cs))))))))))))"

text \<open>\<open>simple_tests\<close>: the calls, then a \<open>bind\<close> to an address where no server is; \<open>t0\<close> and \<open>t1\<close> are the times around it.\<close>

definition simple_tests ::
    "test_env \<Rightarrow> nat \<Rightarrow> timespec \<Rightarrow> round_in list \<Rightarrow> u32 \<Rightarrow> int \<Rightarrow> int \<Rightarrow> rpcc \<times> unit rpcs \<Rightarrow> (rpcc \<times> unit rpcs) result option" where
  "simple_tests e a now ins rand t0 t1 cs =
     (case simple_calls e a cs of
        Inl f \<Rightarrow> Some (Inl f)
      | Inr cs \<Rightarrow>
          map_option (\<lambda>r. bind_r r (\<lambda>(intret, c1). bind_r (VERIFY (sint intret < 0 \<and> t1 - t0 \<le> 4)) (\<lambda>_. Inr cs)))
            (bind_timed e now 3000 ins (rpcc_new True rand 0 (te_junk e))))"

text \<open>The two loops of \<open>client1\<close>, over what \<open>random()\<close> gives; the loop of \<open>client2\<close> is the first without the check of the status.\<close>

fun client1_bigrep :: "test_env \<Rightarrow> nat \<Rightarrow> i32 list \<Rightarrow> rpcc \<times> unit rpcs \<Rightarrow> (rpcc \<times> unit rpcs) result" where
  "client1_bigrep e a [] cs = Inr cs"
| "client1_bigrep e a (arg # args) cs =
     bind_r (call_25 e a arg [] cs) (\<lambda>(ret, rep, cs).
     bind_r (VERIFY (ret = 0)) (\<lambda>_.
     bind_r (VERIFY (int (length rep) = sint arg)) (\<lambda>_.
     client1_bigrep e (Suc a) args cs)))"

fun client1_mixed :: "test_env \<Rightarrow> nat \<Rightarrow> (bool \<times> i32) list \<Rightarrow> rpcc \<times> unit rpcs \<Rightarrow> (rpcc \<times> unit rpcs) result" where
  "client1_mixed e a [] cs = Inr cs"
| "client1_mixed e a ((which, arg) # args) cs =
     bind_r (call_int e a (if which then 23 else 24) arg (te_junk e) cs) (\<lambda>(ret, rep, cs).
     bind_r (VERIFY (ret = 0)) (\<lambda>_.
     bind_r (VERIFY (rep = (if which then arg + 1 else arg + 2))) (\<lambda>_.
     client1_mixed e (Suc a) args cs)))"

definition client1 :: "test_env \<Rightarrow> nat \<Rightarrow> i32 list \<Rightarrow> (bool \<times> i32) list \<Rightarrow> rpcc \<times> unit rpcs \<Rightarrow> (rpcc \<times> unit rpcs) result" where
  "client1 e a args which cs =
     bind_r (client1_bigrep e a args cs) (\<lambda>cs. client1_mixed e (a + length args) which cs)"

fun client2 :: "test_env \<Rightarrow> nat \<Rightarrow> i32 list \<Rightarrow> rpcc \<times> unit rpcs \<Rightarrow> (rpcc \<times> unit rpcs) result" where
  "client2 e a [] cs = Inr cs"
| "client2 e a (arg # args) cs =
     bind_r (call_25 e a arg [] cs) (\<lambda>(ret, rep, cs).
     bind_r (VERIFY (int (length rep) = sint arg)) (\<lambda>_.
     client2 e (Suc a) args cs))"

fun client3_from :: "test_env \<Rightarrow> nat \<Rightarrow> i32 list \<Rightarrow> rpcc \<times> unit rpcs \<Rightarrow> (rpcc \<times> unit rpcs) result" where
  "client3_from e a [] cs = Inr cs"
| "client3_from e a (i # is) cs =
     bind_r (call_int e a 24 i (te_junk e) cs) (\<lambda>(ret, rep, cs).
     bind_r (VERIFY (ret = timeout_failure \<or> rep = i + 2)) (\<lambda>_.
     client3_from e (Suc a) is cs))"

definition client3 :: "test_env \<Rightarrow> nat \<Rightarrow> rpcc \<times> unit rpcs \<Rightarrow> (rpcc \<times> unit rpcs) result" where
  "client3 e a cs = client3_from e a [0, 1, 2, 3] cs"

text \<open>
  \<open>failure_test\<close> up to its threads, with the client \<open>c\<close> that is bound to the server that has just been deleted: a new client
  cannot bind; a server is started again; the old client is refused, and a new one works.  The environment \<open>e0\<close> has
  the connections of the old client, \<open>e\<close> those of the new one; \<open>accepted\<close> is the server after its listener has accepted
  the connection.
\<close>

definition accepted :: "test_env \<Rightarrow> nat \<Rightarrow> int \<times> int \<Rightarrow> unit rpcs \<Rightarrow> unit rpcs" where
  "accepted e fd now s = s\<lparr>sv_store := (sv_store s)(te_cid e \<mapsto> fst (conn_new fd now 0))\<rparr>"

definition replace_client :: "test_env \<Rightarrow> nat \<Rightarrow> u32 \<Rightarrow> unit rpcs \<Rightarrow> (rpcc \<times> unit rpcs) result" where
  "replace_client e a rand s =
     bind_r (bind_both (te_mem e) (test_call e a) (te_junk e) (rpcc_new True rand 0 (te_junk e), s)) (\<lambda>(ret, c, s).
     bind_r (VERIFY (sint ret \<ge> 0)) (\<lambda>_.
     bind_r (bind_both (te_mem e) (test_call e (a + 1)) (te_junk e) (c, s)) (\<lambda>(ret, c, s).
     bind_r (VERIFY (sint ret < 0)) (\<lambda>_.
     bind_r (call_22 e (a + 2) (bytes_of ''hello'') (bytes_of '' goodbye'') [] (c, s)) (\<lambda>(intret, rep, cs).
     bind_r (VERIFY (intret = 0)) (\<lambda>_.
     bind_r (VERIFY (rep = bytes_of ''hello goodbye'')) (\<lambda>_.
     Inr cs)))))))"

definition recovered_server :: "test_env \<Rightarrow> test_env \<Rightarrow> nat \<Rightarrow> u32 \<Rightarrow> i32 \<Rightarrow> nat \<Rightarrow> int \<times> int \<Rightarrow> u32 \<Rightarrow> rpcc \<Rightarrow> (rpcc \<times> unit rpcs) result" where
  "recovered_server e0 e a nonce z fd now rand c =
     bind_r (startserver nonce z) (\<lambda>s.
     bind_r (call_22 e0 a (bytes_of ''hello'') (bytes_of '' goodbye'') [] (c, accepted e0 fd now s)) (\<lambda>(intret, rep, (c, s)).
     bind_r (VERIFY (intret = oldsrv_failure)) (\<lambda>_.
     bind_r (rpcc_delete c) (\<lambda>_.
     replace_client e (a + 1) rand (accepted e fd now s)))))"

definition failure_test ::
    "test_env \<Rightarrow> test_env \<Rightarrow> nat \<Rightarrow> timespec \<Rightarrow> round_in list \<Rightarrow> u32 \<Rightarrow> u32 \<Rightarrow> i32 \<Rightarrow> nat \<Rightarrow> int \<times> int \<Rightarrow> u32 \<Rightarrow> rpcc \<Rightarrow> (rpcc \<times> unit rpcs) result option" where
  "failure_test e0 e a now ins rand1 nonce z fd now' rand2 c =
     map_option (\<lambda>r.
       bind_r r (\<lambda>(ret, client1).
       bind_r (VERIFY (sint ret < 0)) (\<lambda>_.
       bind_r (rpcc_delete client1) (\<lambda>_.
       recovered_server e0 e a nonce z fd now' rand2 c))))
     (bind_timed e now 3000 ins (rpcc_new True rand1 0 (te_junk e)))"

section \<open>The marshalling test passes\<close>

lemma take_buf_message:
  assumes "m_wf m"
  obtains slack where "m_take_buf m = (m\<lparr>m_buf := None, m_ind := 0\<rparr>, Some (m_bytes m @ slack), length (m_bytes m))"
proof -
  obtain b where b: "m_buf m = Some b" "length b = m_capa m" "m_ind m \<le> m_capa m" by (rule m_wfE [OF assms])
  then have "b = m_bytes m @ drop (m_ind m) b" by (simp add: m_bytes_def)
  then show ?thesis using that [of "drop (m_ind m) b"] b assms by (simp add: m_take_buf_def)
qed

lemma testmarshall_ok: "testmarshall mem i0 l0 = Inr ()"
proof -
  let ?rh = "\<lparr>rq_xid = 1, rq_proc = 2, rq_clt_nonce = 3, rq_srv_nonce = 4, rq_xid_rep = 5\<rparr>"
  let ?s = "bytes_of ''hallo....''" and ?i = "12345 :: i32" and ?l = "1223344455 :: u64"
  let ?body = "be32 ?i @ be64 ?l @ enc_string ?s"
  obtain b where b: "m_buf (marshall_new mem) = Some b" by (rule m_wfE [OF m_wf_new])
  obtain m0 where pk: "pack_req_header mem (marshall_new mem) ?rh = Inr m0"
    using pack_req_header_eq [OF m_wf_new b] by blast
  note m0 = m_bytes_packed_req [OF m_wf_new pk]
  have ind: "m_ind m0 = 24" using m0(3) by (simp add: marshall_new_def)
  obtain m1 where m1: "put_int mem m0 ?i = Inr m1" "m_wf m1" "m_bytes m1 = m_bytes m0 @ be32 ?i" "m_ind m1 = 28"
    using writesE [OF int_codec.put_writes [where x = ?i and mem = mem, OF TrueI] m0(1)] ind by auto
  obtain m2 where m2: "put_ullong mem m1 ?l = Inr m2" "m_wf m2" "m_bytes m2 = m_bytes m1 @ be64 ?l" "m_ind m2 = 36"
    using writesE [OF ullong_codec.put_writes [where x = ?l and mem = mem, OF TrueI] m1(2)] m1(4) by auto
  have s9: "length ?s = 9" "length (enc_string ?s) = 13" by (simp_all add: bytes_of_def enc_string_def)
  obtain m3 where m3: "put_string mem m2 ?s = Inr m3" "m_wf m3" "m_bytes m3 = m_bytes m2 @ enc_string ?s" "m_ind m3 = 49"
    using writesE [OF string_codec.put_writes [where x = ?s and mem = mem, OF TrueI] m2(2)] m2(4) s9(2) by auto
  obtain slack where buf: "m_take_buf m3 = (m3\<lparr>m_buf := None, m_ind := 0\<rparr>, Some (m_bytes m3 @ slack), length (m_bytes m3))"
    by (rule take_buf_message [OF m3(2)])
  have "req_msg ?rh ?body (m_bytes m3)"
    using packed_req_msg [OF m_wf_new pk] m1(3) m2(3) m3(3) m0 ind
    by (simp add: req_msg_def marshall_new_def m_body_def m_bytes_def)
  moreover have len: "length (m_bytes m3) = 49" using m3(2,4) by simp
  ultimately obtain u where u: "unpack_req_header (unmarshall_new (Some (m_bytes m3 @ slack)) 49) = Inr (u, ?rh)" "u_at u ?body"
    using req_msg_unpack [of ?rh ?body "m_bytes m3" slack] by auto
  obtain u1 where u1: "get_int u i0 = Inr (u1, ?i)" "u_at u1 (be64 ?l @ enc_string ?s)"
    using readsD [OF int_codec.get_reads [OF TrueI TrueI] u(2)] u_at_advance [OF u(2)] by blast
  obtain u2 where u2: "get_ullong u1 l0 = Inr (u2, ?l)" "u_at u2 (enc_string ?s @ [])"
    using readsD [OF ullong_codec.get_reads [OF TrueI TrueI] u1(2)] u_at_advance [OF u1(2)] by auto
  obtain u3 where u3: "get_string u2 [] = Inr (u3, ?s)" "u_at u3 []"
    using readsD [OF string_codec.get_reads [OF TrueI TrueI] u2(2)] u_at_advance [OF u2(2)] by blast
  show ?thesis
    unfolding testmarshall_def Let_def
    by (simp add: pk m1(1) m2(1) m3(1) buf len u(1) u1(1) u2(1) u3(1) u_at_okdone [OF u3(2)] s9(1) m_size_def ind)
qed

section \<open>Calls to the service\<close>

definition test_service :: "i32 \<Rightarrow> unit rpcs \<Rightarrow> bool" where
  "test_service z s \<longleftrightarrow> sv_procs s 22 = Some (h_fn2 get_string get_string [] [] put_string handle_22) \<and>
     sv_procs s 23 = Some (h_fn1 get_int z put_int handle_fast) \<and> sv_procs s 24 = Some (h_fn1 get_int z put_int handle_slow) \<and>
     sv_procs s 25 = Some (h_fn1 get_int z put_string handle_bigrep)"

text \<open>A client and a server that are ready for \<open>n\<close> more calls, with the blocks from \<open>a\<close> on free.\<close>

definition test_ready :: "test_env \<Rightarrow> i32 \<Rightarrow> nat \<Rightarrow> nat \<Rightarrow> rpcc \<times> unit rpcs \<Rightarrow> bool" where
  "test_ready e z a n cs \<longleftrightarrow>
     (case cs of (c, s) \<Rightarrow> linked (te_cid e) (te_new e) c s \<and> cl_bind_done c \<and> unat (cl_xid c) + n < 2 ^ 32 \<and> test_service z s
       \<and> (\<forall>x. rw_heap (sv_win s) x \<noteq> None \<longrightarrow> x < a))"

lemma test_ready_weaken: "test_ready e z a n cs \<Longrightarrow> m \<le> n \<Longrightarrow> test_ready e z a m cs"
  by (auto simp: test_ready_def)

text \<open>One call of a method with one argument; several arguments are one tuple.\<close>

lemma test_one_call:
  assumes ready: "test_ready e z a (Suc n) cs" and proc: "proc \<noteq> rpc_bind" "sv_procs (snd cs) proc = Some (h_fn1 g z1 p' meth)"
    and arg: "codec en f fr p g" "sendable en f x" "fr z1" and res: "codec en' f' fr' p' g'" "sendable en' f' r" "fr' r0"
    and meth: "meth x () = Inr (0, r, ())"
  shows "\<exists>cs'. call_1 (te_mem e) (test_call e a) p g' proc x r0 cs = Inr (0, r, cs') \<and> test_ready e z (Suc a) n cs'"
proof -
  obtain c s where cs: "cs = (c, s)" by (cases cs)
  have R: "linked (te_cid e) (te_new e) c s" "cl_bind_done c" "unat (cl_xid c) + Suc n < 2 ^ 32" "test_service z s"
    "\<And>x. rw_heap (sv_win s) x \<noteq> None \<Longrightarrow> x < a"
    using ready cs by (auto simp: test_ready_def)
  have free: "rw_heap (sv_win s) a = None" using R(5) [of a] by (cases "rw_heap (sv_win s) a") auto
  have m: "meth x (sv_obj s) = Inr (0, r, ())" "0 \<le> sint (0 :: i32)" using meth by simp_all
  have proc': "proc = rpc_bind \<longleftrightarrow> \<not> cl_bind_done c" "sv_procs s proc = Some (h_fn1 g z1 p' meth)"
    using proc R(2) cs by simp_all
  obtain c' s' where E: "call_1 (te_mem e) (exchange (te_mem e) (te_junk e) (te_thread e) a (te_cid e) (te_new e)) p g' proc x r0 (c, s) = Inr (0, r, (c', s'))"
    "linked (te_cid e) (te_new e) c' s'" "same_client c c'" "cl_xid c' = cl_xid c + 1" "same_service s s'"
    "dom (rw_heap (sv_win s')) \<subseteq> insert a (dom (rw_heap (sv_win s)))"
    by (rule one_call [OF arg res R(1) proc' free next_xid(1) [OF R(3)] m])
  have "x < Suc a" if "rw_heap (sv_win s') x \<noteq> None" for x
    using E(6) R(5) [of x] that by (fastforce simp: domIff)
  then have "test_ready e z (Suc a) n (c', s')"
    using E(2-5) R(2,4) next_xid(2) [OF R(3)] by (auto simp: test_ready_def same_client_def same_service_def test_service_def)
  then show ?thesis using E(1) cs by (auto simp: test_call_def)
qed

lemmas string_pair = codec_pair [OF string_codec.codec_axioms string_codec.codec_axioms]

lemma call_22_ok:
  assumes "test_ready e z a (Suc n) cs" "length x + length y < 2 ^ 28"
  shows "\<exists>cs'. call_22 e a x y rep cs = Inr (0, x @ y, cs') \<and> test_ready e z (Suc a) n cs'"
proof -
  have "sv_procs (snd cs) 22 = Some (h_fn1 (get_pair get_string get_string) ([], []) put_string (\<lambda>(a, b). handle_22 a b))"
    using assms(1) by (auto simp: test_ready_def test_service_def h_fn2_pair split: prod.splits)
  from test_one_call [OF assms(1) _ this string_pair _ _ string_codec.codec_axioms, of "(x, y)" "x @ y" rep]
  show ?thesis using assms(2)
    by (simp add: rpc_bind_def sendable_def both_def enc_pair_def enc_string_def handle_22_def call_22_def call_2_pair)
qed

lemma call_25_ok:
  assumes "test_ready e z a (Suc n) cs" "0 \<le> sint x" "sint x < 2 ^ 28"
  shows "\<exists>cs'. call_25 e a x rep cs = Inr (0, replicate (nat (sint x)) (of_char CHR ''x''), cs') \<and> test_ready e z (Suc a) n cs'"
proof -
  have "sv_procs (snd cs) 25 = Some (h_fn1 get_int z put_string handle_bigrep)"
    using assms(1) by (auto simp: test_ready_def test_service_def)
  from test_one_call [OF assms(1) _ this int_codec.codec_axioms _ _ string_codec.codec_axioms, of x
      "replicate (nat (sint x)) (of_char CHR ''x'')" rep]
  show ?thesis using assms(2,3) by (simp add: rpc_bind_def sendable_def enc_string_def handle_bigrep_def call_25_def)
qed

lemma call_int_ok:
  assumes "test_ready e z a (Suc n) cs" "0 \<le> sint x" "sint x < 2 ^ 28"
  shows "\<exists>cs'. call_int e a (if which then 23 else 24) x rep cs = Inr (0, if which then x + 1 else x + 2, cs')
    \<and> test_ready e z (Suc a) n cs'"
proof (cases which)
  case True
  have "sv_procs (snd cs) 23 = Some (h_fn1 get_int z put_int handle_fast)"
    using assms(1) by (auto simp: test_ready_def test_service_def)
  from test_one_call [OF assms(1) _ this int_codec.codec_axioms _ _ int_codec.codec_axioms, of x "x + 1" rep]
  show ?thesis using assms(2,3) True by (simp add: rpc_bind_def sendable_def handle_fast_def call_int_def)
next
  case False
  have "sv_procs (snd cs) 24 = Some (h_fn1 get_int z put_int handle_slow)"
    using assms(1) by (auto simp: test_ready_def test_service_def)
  from test_one_call [OF assms(1) _ this int_codec.codec_axioms _ _ int_codec.codec_axioms, of x "x + 2" rep]
  show ?thesis using assms(2,3) False by (simp add: rpc_bind_def sendable_def handle_slow_def call_int_def)
qed

lemma simple_calls_ok:
  assumes "test_ready e z a 5 cs"
  shows "\<exists>cs'. simple_calls e a cs = Inr cs' \<and> test_ready e z (a + 5) 0 cs'"
proof -
  have r0: "test_ready e z a (Suc 4) cs" using assms by simp
  obtain cs1 where 1: "call_22 e a (bytes_of ''hello'') (bytes_of '' goodbye'') [] cs = Inr (0, bytes_of ''hello'' @ bytes_of '' goodbye'', cs1)"
    "test_ready e z (a + 1) (Suc 3) cs1"
    using call_22_ok [OF r0, of "bytes_of ''hello''" "bytes_of '' goodbye''" "[]"] by (auto simp: bytes_of_def)
  have nxt: "Suc (a + 1) = a + 2" "Suc (a + 2) = a + 3" "Suc (a + 3) = a + 4" "Suc (a + 4) = a + 5" by simp_all
  obtain cs2 where 2: "call_25 e (a + 1) 70000 (bytes_of ''hello goodbye'') cs1 = Inr (0, replicate 70000 (of_char CHR ''x''), cs2)"
    "test_ready e z (a + 2) (Suc 2) cs2"
    using call_25_ok [OF 1(2), of 70000 "bytes_of ''hello goodbye''"] by auto
  obtain cs3 where 3: "call_int e (a + 2) 23 77 0 cs2 = Inr (0, 78, cs3)" "test_ready e z (a + 3) (Suc 1) cs3"
    using call_int_ok [OF 2(2), of 77 True 0] unfolding nxt by (auto simp: numeral_2_eq_2)
  let ?x = "replicate 1000 (of_char CHR ''x'') :: byte list" and ?big = "replicate 1000000 (of_char CHR ''x'') :: byte list"
  obtain cs4 where 4: "call_22 e (a + 3) ?x (bytes_of ''x'') [] cs3 = Inr (0, ?x @ bytes_of ''x'', cs4)" "test_ready e z (a + 4) (Suc 0) cs4"
    using call_22_ok [OF 3(2), of ?x "bytes_of ''x''" "[]"] unfolding nxt by (auto simp: bytes_of_def)
  obtain cs5 where 5: "call_22 e (a + 4) ?big (bytes_of ''z'') (replicate 70000 (of_char CHR ''x'')) cs4 = Inr (0, ?big @ bytes_of ''z'', cs5)"
    "test_ready e z (a + 5) 0 cs5"
    using call_22_ok [OF 4(2), of ?big "bytes_of ''z''" "replicate 70000 (of_char CHR ''x'')"] unfolding nxt by (auto simp: bytes_of_def)
  have hello: "bytes_of ''hello'' @ bytes_of '' goodbye'' = bytes_of ''hello goodbye''" by (simp add: bytes_of_def)
  have "simple_calls e a cs = Inr cs5"
    using 1(1) 2(1) 3(1) 4(1) 5(1) unfolding simple_calls_def hello by (simp add: bytes_of_def)
  then show ?thesis using 5(2) by blast
qed

lemma client1_bigrep_ok:
  assumes "test_ready e z a (length args + n) cs" "\<forall>x\<in>set args. 0 \<le> sint x \<and> sint x < 2 ^ 28"
  shows "\<exists>cs'. client1_bigrep e a args cs = Inr cs' \<and> client2 e a args cs = Inr cs' \<and> test_ready e z (a + length args) n cs'"
  using assms
proof (induction args arbitrary: a cs)
  case (Cons x args)
  then have "test_ready e z a (Suc (length args + n)) cs" "0 \<le> sint x" "sint x < 2 ^ 28" by simp_all
  from call_25_ok [OF this, of "[]"] obtain cs1 where
    1: "call_25 e a x [] cs = Inr (0, replicate (nat (sint x)) (of_char CHR ''x''), cs1)" "test_ready e z (Suc a) (length args + n) cs1"
    by blast
  show ?case using Cons.IH [OF 1(2)] Cons.prems(2) 1(1) by auto
qed simp

lemma client1_mixed_ok:
  assumes "test_ready e z a (length args + n) cs" "\<forall>(w, x)\<in>set args. 0 \<le> sint x \<and> sint x < 2 ^ 28"
  shows "\<exists>cs'. client1_mixed e a args cs = Inr cs' \<and> test_ready e z (a + length args) n cs'"
  using assms
proof (induction args arbitrary: a cs)
  case (Cons wx args)
  obtain w x where wx: "wx = (w, x)" by (cases wx)
  then have "test_ready e z a (Suc (length args + n)) cs" "0 \<le> sint x" "sint x < 2 ^ 28" using Cons.prems by simp_all
  from call_int_ok [OF this, of w "te_junk e"] obtain cs1 where
    1: "call_int e a (if w then 23 else 24) x (te_junk e) cs = Inr (0, if w then x + 1 else x + 2, cs1)" "test_ready e z (Suc a) (length args + n) cs1"
    by blast
  show ?case using Cons.IH [OF 1(2)] Cons.prems(2) 1(1) wx by auto
qed simp

lemma client3_from_ok:
  assumes "test_ready e z a (length is + n) cs" "\<forall>x\<in>set is. 0 \<le> sint x \<and> sint x < 2 ^ 28"
  shows "\<exists>cs'. client3_from e a is cs = Inr cs' \<and> test_ready e z (a + length is) n cs'"
  using assms
proof (induction "is" arbitrary: a cs)
  case (Cons x "is")
  then have "test_ready e z a (Suc (length is + n)) cs" "0 \<le> sint x" "sint x < 2 ^ 28" by simp_all
  from call_int_ok [OF this, of False "te_junk e"] obtain cs1 where
    1: "call_int e a 24 x (te_junk e) cs = Inr (0, x + 2, cs1)" "test_ready e z (Suc a) (length is + n) cs1"
    by auto
  show ?case using Cons.IH [OF 1(2)] Cons.prems(2) 1(1) by auto
qed simp

section \<open>A server that is not there\<close>

lemma transmit_nowhere: "cl_chan c = None \<Longrightarrow> transmit m None None c = Inr (None, c, [])"
  by (simp add: transmit_def get_refconn_def refresh_chan_def gone_def st_unref_opt_def install_chan_def share_chan_def)

text \<open>Nothing happens to the client: \<open>connect_to_dst\<close> fails, and no other thread uses it.\<close>

definition dead_round :: "round_in \<Rightarrow> bool" where
  "dead_round i \<longleftrightarrow> ri_new i = None \<and> ri_rest i = id \<and> (\<forall>w\<in>set (ri_waits i). snd w = id) \<and> normalised (ri_now i)"

lemma wait_reply_alone: "\<forall>w\<in>set ws. snd w = id \<Longrightarrow> wait_reply t ws s = Some s' \<Longrightarrow> s' = s"
  by (induction ws) (auto split: if_splits)

lemma loop_nowhere:
  assumes "cl_chan c = None" "\<not> ca_done (cl_callers c t)" "lo_ch l = None" "\<forall>i\<in>set ins. dead_round i"
    "call1_loop t m ins l c = Some (Inr (l', c', out))"
  shows "c' = c \<and> out = [] \<and> lo_ch l' = None"
  using assms
proof (induction ins arbitrary: l out)
  case (Cons i ins)
  have tr: "(if lo_transmit l then transmit m (ri_new i) (lo_ch l) c else Inr (lo_ch l, c, [])) = Inr (None, c, [])"
    using transmit_nowhere [OF Cons.prems(1)] Cons.prems(3,4) by (simp add: dead_round_def)
  define l1 where "l1 = l\<lparr>lo_ch := None, lo_transmit := False\<rparr>"
  show ?case
  proof (cases "tv_sec (lo_final l) = 0")
    case True
    then show ?thesis using Cons.prems(5) tr by (auto simp: Let_def)
  next
    case False
    then obtain dl l2 where l2: "call1_deadline (ri_now i) l1 = Inr (dl, l2)"
      using Cons.prems(5) tr by (auto simp: Let_def l1_def split: sum.splits)
    then have ch2: "lo_ch l2 = None" by (auto simp: call1_deadline_def bind_r_eq_Inr l1_def split: if_splits)
    have rest: "ri_rest i c = c" "wait_reply t (ri_waits i) c = Some s' \<Longrightarrow> s' = c" for s'
      using Cons.prems(4) wait_reply_alone [of "ri_waits i" t c s'] by (simp_all add: dead_round_def)
    have wait: "wait_reply t (ri_waits i) c = Some c"
      using Cons.prems(5) tr False l2 rest by (auto simp: Let_def l1_def split: option.splits)
    obtain l3 where l3: "call1_retry (cl_retrans c) True l2 = Inr l3"
      using Cons.prems(2,5) rest(1) wait tr False l2 ch2 by (auto simp: Let_def l1_def gone_def split: sum.splits)
    then have ch3: "lo_ch l3 = None" using ch2 by (auto simp: call1_retry_def Let_def split: if_splits)
    obtain out' where "call1_loop t m ins l3 c = Some (Inr (l', c', out'))" "out = out'"
      using Cons.prems(2,5) rest(1) wait tr False l2 l3 ch2 by (auto simp: Let_def l1_def gone_def split: sum.splits option.splits prod.splits)
    then show ?thesis using Cons.IH [OF Cons.prems(1,2) ch3] Cons.prems(4) by auto
  qed
qed simp

lemma loop_nowhere_fault:
  assumes "cl_chan c = None" "\<not> ca_done (cl_callers c t)" "lo_ch l = None" "0 \<le> lo_curr l"
    "\<forall>i\<in>set ins. dead_round i" "call1_loop t m ins l c = Some (Inl f)"
  shows "f = Signed_Overflow"
  using assms
proof (induction ins arbitrary: l)
  case (Cons i ins)
  have tr: "(if lo_transmit l then transmit m (ri_new i) (lo_ch l) c else Inr (lo_ch l, c, [])) = Inr (None, c, [])"
    using transmit_nowhere [OF Cons.prems(1)] Cons.prems(3,5) by (simp add: dead_round_def)
  define l1 where "l1 = l\<lparr>lo_ch := None, lo_transmit := False\<rparr>"
  have final: "tv_sec (lo_final l) \<noteq> 0" using Cons.prems(6) tr by (auto simp: Let_def split: if_splits)
  obtain r where "add_timespec (ri_now i) (lo_curr l1) = Inr r"
    using add_timespec_total [of "ri_now i" "lo_curr l"] Cons.prems(4,5) by (auto simp: l1_def dead_round_def)
  then obtain dl l2 where l2: "call1_deadline (ri_now i) l1 = Inr (dl, l2)"
    by (cases "cmp_timespec r (lo_final l1) > 0") (simp_all add: call1_deadline_def)
  then have ch2: "lo_ch l2 = None" "lo_curr l2 = lo_curr l" by (auto simp: call1_deadline_def bind_r_eq_Inr l1_def split: if_splits)
  have rest: "ri_rest i c = c" "wait_reply t (ri_waits i) c = Some s' \<Longrightarrow> s' = c" for s'
    using Cons.prems(5) wait_reply_alone [of "ri_waits i" t c s'] by (simp_all add: dead_round_def)
  have wait: "wait_reply t (ri_waits i) c = Some c"
    using Cons.prems(6) tr final l2 rest by (auto simp: Let_def l1_def split: option.splits)
  show ?case
  proof (cases "call1_retry (cl_retrans c) True l2")
    case (Inl g)
    then have "g = Signed_Overflow" by (auto simp: call1_retry_def Let_def split: if_splits)
    then show ?thesis using Cons.prems(2,6) rest(1) wait tr final l2 ch2 Inl by (simp add: Let_def l1_def gone_def)
  next
    case (Inr l3)
    then have l3: "lo_ch l3 = None" "0 \<le> lo_curr l3" using ch2 Cons.prems(4) by (auto simp: call1_retry_def Let_def split: if_splits)
    have "call1_loop t m ins l3 c = Some (Inl f)"
      using Cons.prems(2,6) rest(1) wait tr final l2 ch2 Inr by (auto simp: Let_def l1_def gone_def split: sum.splits option.splits prod.splits)
    then show ?thesis using Cons.IH [OF Cons.prems(1,2) l3] Cons.prems(5) by auto
  qed
qed simp

text \<open>A timeout of 3000 ms: at least four rounds of the loop.\<close>

definition nowhere :: "timespec \<Rightarrow> round_in list \<Rightarrow> bool" where
  "nowhere now ins \<longleftrightarrow> 3 < length ins \<and> platform_from now 3000 ins \<and> (\<forall>i\<in>set ins. dead_round i)"

lemma bind_nowhere:
  assumes "nowhere now ins"
  obtains c' where "bind_timed e now 3000 ins (rpcc_new True rand 0 (te_junk e)) = Some (Inr (timeout_failure, c'))"
    "cl_calls c' = Map.empty" "cl_chan c' = None" "\<not> cl_bind_done c'"
proof -
  let ?c = "rpcc_new True rand 0 (te_junk e)" and ?t = "te_thread e" and ?mem = "te_mem e"
  have N: "normalised now" "3 < length ins" "platform_from now 3000 ins" "\<forall>i\<in>set ins. dead_round i"
    using assms by (simp_all add: nowhere_def platform_from_def)
  have ns: "tv_nsec now + 3000 mod 1000 * 1000000 \<noteq> 1000000000" using N(1) by (simp add: normalised_def)
  obtain req where req: "put_int ?mem (marshall_new ?mem) 0 = Inr req" "m_wf req"
    using writesE [OF int_codec.put_writes [where x = 0 and mem = ?mem, OF TrueI] m_wf_new] by (auto simp: marshall_new_def)
  have may: "may_call rpc_bind ?c" by (simp add: may_call_def rpcc_new_def xid_inv_def)
  obtain m where m: "call1_begin ?mem (te_junk e) ?t rpc_bind req ?c = Inr (Begun m (hd (cl_window ?c)) (calling ?t (te_junk e) ?c))"
    by (rule call1_begin_ok [OF may req(2)])
  let ?c1 = "calling ?t (te_junk e) ?c"
  have c1: "cl_chan ?c1 = None" "\<not> ca_done (cl_callers ?c1 ?t)" by (simp_all add: calling_def rpcc_new_def caller_new_def)
  obtain l r where l: "call1_start_loop now 3000 = Inr l" "call1_loop ?t m ins l ?c1 = Some r" "r \<noteq> Inl Signed_Overflow"
    using call1_loop_from_start [OF N(3) _ _ _ N(2) ns, of ?t m ?c1] by auto
  have l0: "lo_ch l = None" "0 \<le> lo_curr l" using l(1) by (auto simp: call1_start_loop_def bind_r_eq_Inr to_min_def)
  have "r \<noteq> Inl f" for f using loop_nowhere_fault [OF c1 l0 N(4)] l(2,3) by blast
  then obtain l' c2 out where r0: "r = Inr (l', c2, out)" by (metis sum.exhaust prod_cases3)
  then have r: "r = Inr (l', ?c1, [])" "lo_ch l' = None"
    using loop_nowhere [OF c1 l0(1) N(4), of m l' c2 out] l(2) by simp_all
  obtain w where w: "update_xid_rep 1 [0] = Inr w" by (simp add: update_xid_rep_def)
  let ?c' = "?c1\<lparr>cl_calls := Map.empty, cl_window := w\<rparr>"
  have "call1_end ?t m (hd (cl_window ?c)) None ?c1 = Inr (timeout_failure, unmarshall_empty, False, ?c')"
    using w by (simp add: call1_end_def Let_def calling_def rpcc_new_def caller_new_def st_unref_opt_def)
  then have "rpcc_call1 ?mem (te_junk e) ?t now 3000 ins rpc_bind req ?c = Some (Inr (timeout_failure, unmarshall_empty, [], ?c'))"
    using m l(1,2) r by (simp add: rpcc_call1_def)
  then have "bind_timed e now 3000 ins ?c = Some (Inr (timeout_failure, ?c'))"
    using req(1) by (simp add: bind_timed_def rpcc_bind_def call_1_def call_m_def timeout_failure_def)
  then show ?thesis by (rule that) (simp_all add: calling_def rpcc_new_def)
qed

text \<open>All of \<open>simple_tests\<close>: the \<open>bind\<close> fails by its timeout, and only the check of the time it took can end the test.\<close>

lemma simple_tests_ok:
  assumes "test_ready e z a 5 cs" "nowhere now ins"
  shows "\<exists>cs'. simple_tests e a now ins rand t0 t1 cs = Some (if t1 - t0 \<le> 4 then Inr cs' else Inl Verify_Failed) \<and> test_ready e z (a + 5) 0 cs'"
proof -
  obtain cs1 where 1: "simple_calls e a cs = Inr cs1" "test_ready e z (a + 5) 0 cs1" using simple_calls_ok [OF assms(1)] by blast
  obtain c1 where "bind_timed e now 3000 ins (rpcc_new True rand 0 (te_junk e)) = Some (Inr (timeout_failure, c1))"
    by (rule bind_nowhere [OF assms(2)])
  then have "simple_tests e a now ins rand t0 t1 cs = Some (if t1 - t0 \<le> 4 then Inr cs1 else Inl Verify_Failed)"
    using 1 by (simp add: simple_tests_def timeout_failure_def VERIFY_def)
  then show ?thesis using 1(2) by blast
qed

section \<open>A server that is started again\<close>

lemma startserver_ok:
  obtains s where "startserver nonce z = Inr s" "test_service z s" "sv_nonce s = nonce" "sv_win s = rwindow_init" "sv_counting s = 0"
    "sv_reachable s" "sv_conns s = Map.empty" "sv_store s = Map.empty" "sv_procs s rpc_bind = Some (h_fn1 get_int z put_int (rpcbind nonce))"
  by (simp add: startserver_def rpcs_new_def reg1_def rpc_bind_def test_service_def)

lemma service_kept: "same_service s s' \<Longrightarrow> test_service z s \<Longrightarrow> test_service z s'"
  by (simp add: same_service_def test_service_def)

text \<open>A server that has not yet executed anything, whatever connections it has.\<close>

definition new_service :: "u32 \<Rightarrow> i32 \<Rightarrow> unit rpcs \<Rightarrow> bool" where
  "new_service nonce z s \<longleftrightarrow> test_service z s \<and> sv_nonce s = nonce \<and> sv_win s = rwindow_init \<and> sv_counting s = 0 \<and> sv_reachable s
     \<and> sv_conns s = Map.empty \<and> sv_procs s rpc_bind = Some (h_fn1 get_int z put_int (rpcbind nonce))"

lemma new_service_store: "new_service nonce z s \<Longrightarrow> new_service nonce z (s\<lparr>sv_store := st\<rparr>)"
  by (simp add: new_service_def test_service_def)

lemma new_service_linked:
  assumes "new_service nonce z s" "rand \<noteq> 0" "connects (te_new e)"
  shows "linked (te_cid e) (te_new e) (rpcc_new True rand 0 (te_junk e)) (accepted e fd now s)"
proof -
  obtain d k where new: "te_new e = Some (d, k)" using assms(3) by (cases "te_new e") (auto simp: connects_def)
  have "linked (te_cid e) (Some (d, k)) (rpcc_new True rand 0 (te_junk e)) (s\<lparr>sv_store := [te_cid e \<mapsto> fst (conn_new fd now 0)]\<rparr>)"
    using assms new by (intro linked_new) (simp_all add: new_service_def)
  then show ?thesis
    unfolding new by (simp add: linked_def server_side_def srv_ready_def accepted_def open_conn_def knows_conn_def)
qed

lemma replace_client_ok:
  assumes "new_service nonce z s" "rand \<noteq> 0" "connects (te_new e)"
  shows "\<exists>cs'. replace_client e a rand (accepted e fd now s) = Inr cs'"
proof -
  let ?c = "rpcc_new True rand 0 (te_junk e)" and ?s = "accepted e fd now s"
  have S: "test_service z ?s" "sv_nonce ?s = nonce" "rw_heap (sv_win ?s) = Map.empty"
    "sv_procs ?s rpc_bind = Some (h_fn1 get_int z put_int (rpcbind (sv_nonce ?s)))"
    using assms(1) by (simp_all add: new_service_def accepted_def test_service_def rwindow_init_def)
  have link: "linked (te_cid e) (te_new e) ?c ?s" by (rule new_service_linked [OF assms])
  have c: "\<not> cl_bind_done ?c" "cl_xid ?c \<noteq> - 1" "cl_xid ?c = 1" by (simp_all add: rpcc_new_def)
  have free: "rw_heap (sv_win ?s) a = None" using S(3) by simp
  obtain c1 s1 where b: "call_1 (te_mem e) (exchange (te_mem e) (te_junk e) (te_thread e) a (te_cid e) (te_new e)) put_int get_int rpc_bind 0 (te_junk e) (?c, ?s)
      = Inr (0, sv_nonce ?s, (c1, s1))"
    "linked (te_cid e) (te_new e) c1 s1" "same_service ?s s1" "cl_xid c1 = cl_xid ?c + 1"
    "dom (rw_heap (sv_win s1)) \<subseteq> insert a (dom (rw_heap (sv_win ?s)))"
    by (rule bind_exchange [OF link c(1,2) free S(4)])
  let ?c1 = "c1\<lparr>cl_bind_done := True, cl_srv_nonce := sv_nonce s1\<rparr>"
  have nonce: "sv_nonce s1 = sv_nonce ?s" using b(3) by (simp add: same_service_def)
  have one: "bind_both (te_mem e) (test_call e a) (te_junk e) (?c, ?s) = Inr (0, ?c1, s1)"
    using b(1) nonce by (simp add: bind_both_def test_call_def)
  have two: "bind_both (te_mem e) (test_call e (a + 1)) (te_junk e) (?c1, s1) = Inr (bind_failure, ?c1, s1)"
  proof -
    obtain req where "put_int (te_mem e) (marshall_new (te_mem e)) 0 = Inr req"
      using writesE [OF int_codec.put_writes [where x = 0 and mem = "te_mem e", OF TrueI] m_wf_new] by (auto simp: marshall_new_def)
    then show ?thesis
      by (simp add: bind_both_def call_1_def call_m_def test_call_def exchange_def call1_begin_def bind_failure_def)
  qed
  have "test_ready e z (a + 2) (Suc 0) (?c1, s1)"
    using linked_bound [OF b(2)] service_kept [OF b(3) S(1)] b(4,5) S(3) c(3) by (fastforce simp: test_ready_def)
  from call_22_ok [OF this, of "bytes_of ''hello''" "bytes_of '' goodbye''" "[]"] obtain cs where
    three: "call_22 e (a + 2) (bytes_of ''hello'') (bytes_of '' goodbye'') [] (?c1, s1) = Inr (0, bytes_of ''hello'' @ bytes_of '' goodbye'', cs)"
    by (auto simp: bytes_of_def)
  have "bytes_of ''hello'' @ bytes_of '' goodbye'' = bytes_of ''hello goodbye''" by (simp add: bytes_of_def)
  then show ?thesis using one two three by (simp add: replace_client_def bind_failure_def)
qed

text \<open>A client that was bound to a server with another nonce, its connection lost or not.\<close>

definition stale_client :: "test_env \<Rightarrow> u32 \<Rightarrow> rpcc \<Rightarrow> bool" where
  "stale_client e nonce c \<longleftrightarrow> client_side (te_new e) c \<and> cl_bind_done c \<and> cl_srv_nonce c \<noteq> 0 \<and> cl_srv_nonce c \<noteq> nonce \<and> cl_xid c \<noteq> - 1"

lemma stale_call:
  assumes "stale_client e nonce c" "new_service nonce z s" "length x + length y < 2 ^ 28"
  obtains c' s' where "call_22 e a x y rep (c, accepted e fd now s) = Inr (oldsrv_failure, rep, (c', s'))"
    "client_side (te_new e) c'" "new_service nonce z s'"
proof -
  let ?s = "accepted e fd now s"
  have en: "both (\<lambda>_. True) (\<lambda>_. True) (x, y)" "length (enc_pair enc_string enc_string (x, y)) < 2 ^ 29"
    using assms(3) by (simp_all add: both_def enc_pair_def enc_string_def)
  obtain req where req: "put_pair put_string put_string (te_mem e) (marshall_new (te_mem e)) (x, y) = Inr req" "m_wf req"
    "m_ind req = 24 + length (enc_pair enc_string enc_string (x, y))"
    by (rule call_1_request [OF string_pair en])
  have C: "client_side (te_new e) c" "cl_bind_done c" "22 \<noteq> rpc_bind" "cl_srv_nonce c \<noteq> 0" "cl_srv_nonce c \<noteq> sv_nonce ?s" "cl_xid c \<noteq> - 1"
    using assms(1,2) by (simp_all add: stale_client_def new_service_def accepted_def rpc_bind_def)
  have S: "sv_reachable ?s" "open_conn (te_cid e) 1 ?s" "m_ind req < 2 ^ 31"
    using assms(2) en(2) req(3) by (simp_all add: new_service_def accepted_def open_conn_def conn_new_def)
  obtain u c' s' where E: "exchange (te_mem e) (te_junk e) (te_thread e) a (te_cid e) (te_new e) 22 req (c, ?s) = Inr (oldsrv_failure, u, (c', s'))"
    "client_side (te_new e) c'" "same_client c c'" "cl_xid c' = cl_xid c + 1" "sv_obj s' = sv_obj ?s" "sv_win s' = sv_win ?s"
    "same_service ?s s'" "sv_conns s' = sv_conns ?s"
    by (rule exchange_old_server [OF C(1-5) S(1,2) req(2) S(3) C(6)])
  have "call_22 e a x y rep (c, ?s) = Inr (oldsrv_failure, rep, (c', s'))"
    using req(1) E(1) by (simp add: call_22_def call_2_pair call_1_def call_m_def test_call_def oldsrv_failure_def)
  moreover have "new_service nonce z s'"
    using assms(2) E(6-8) service_kept [OF E(7)] by (simp add: new_service_def accepted_def same_service_def test_service_def)
  ultimately show ?thesis using that E(2) by blast
qed

lemma failure_test_ok:
  assumes "nowhere now ins" "stale_client e0 nonce c" "connects (te_new e)" "rand2 \<noteq> 0"
  shows "\<exists>cs'. failure_test e0 e a now ins rand1 nonce z fd now' rand2 c = Some (Inr cs')"
proof -
  obtain client1 where 1: "bind_timed e now 3000 ins (rpcc_new True rand1 0 (te_junk e)) = Some (Inr (timeout_failure, client1))"
    "cl_calls client1 = Map.empty" "cl_chan client1 = None" by (rule bind_nowhere [OF assms(1)])
  obtain s where s: "startserver nonce z = Inr s" "test_service z s" "sv_nonce s = nonce" "sv_win s = rwindow_init" "sv_counting s = 0"
    "sv_reachable s" "sv_conns s = Map.empty" "sv_store s = Map.empty" "sv_procs s rpc_bind = Some (h_fn1 get_int z put_int (rpcbind nonce))"
    by (rule startserver_ok)
  then have new: "new_service nonce z s" by (simp add: new_service_def)
  have len: "length (bytes_of ''hello'') + length (bytes_of '' goodbye'') < 2 ^ 28" by (simp add: bytes_of_def)
  obtain c' s' where 2: "call_22 e0 a (bytes_of ''hello'') (bytes_of '' goodbye'') [] (c, accepted e0 fd now' s) = Inr (oldsrv_failure, [], (c', s'))"
    "client_side (te_new e0) c'" "new_service nonce z s'"
    by (rule stale_call [OF assms(2) new len])
  obtain st where del: "rpcc_delete c' = Inr st" using client_side_delete [OF 2(2)] by blast
  have del1: "rpcc_delete client1 = Inr (cl_store client1)" using 1(2,3) by (simp add: rpcc_delete_def)
  obtain cs where "replace_client e (a + 1) rand2 (accepted e fd now' s') = Inr cs"
    using replace_client_ok [OF 2(3) assms(4,3)] by blast
  then have "recovered_server e0 e a nonce z fd now' rand2 c = Inr cs"
    using s(1) 2(1) del by (simp add: recovered_server_def)
  then show ?thesis using 1(1) del1 by (simp add: failure_test_def timeout_failure_def)
qed

section \<open>Properties\<close>

text \<open>
  C19: the test program passes its checks of the library, on a connection that works.  \<open>testmarshall\<close> reads back
  the header and the three values it wrote, whatever is in fresh memory and in its uninitialised variables; the five
  calls of \<open>simple_tests\<close> return what their handlers compute, a reply of 70000 and a request of a million bytes
  included; and \<open>client1\<close>, \<open>client2\<close> and \<open>client3\<close> get every reply, whatever lengths and numbers \<open>random()\<close> picks.
  A connection that works answers every call before its timeout, and the calls here are those of one thread at a time.
\<close>

theorem rpctest_passes:
  assumes "test_ready e z a (5 + length args + length mixed) cs"
    "\<forall>x\<in>set args. 0 \<le> sint x \<and> sint x < 2000" "\<forall>(w, x)\<in>set mixed. 0 \<le> sint x \<and> sint x < 1000"
  shows "testmarshall mem i0 l0 = Inr () \<and> (\<exists>cs1. simple_calls e a cs = Inr cs1) \<and>
    (\<exists>cs2. client1 e a args mixed cs = Inr cs2) \<and> (\<exists>cs3. client2 e a args cs = Inr cs3) \<and> (\<exists>cs4. client3 e a cs = Inr cs4)"
proof -
  have simple: "\<exists>cs1. simple_calls e a cs = Inr cs1"
    using simple_calls_ok [OF test_ready_weaken [OF assms(1)]] by auto
  have args: "\<forall>x\<in>set args. 0 \<le> sint x \<and> sint x < 2 ^ 28" "\<forall>(w, x)\<in>set mixed. 0 \<le> sint x \<and> sint x < 2 ^ 28"
    using assms(2,3) by fastforce+
  have r: "test_ready e z a (length args + (length mixed + 5)) cs" using assms(1) by (simp add: ac_simps)
  obtain cs2 where 2: "client1_bigrep e a args cs = Inr cs2" "client2 e a args cs = Inr cs2" "test_ready e z (a + length args) (length mixed + 5) cs2"
    using client1_bigrep_ok [OF r args(1)] by blast
  obtain cs3 where "client1_mixed e (a + length args) mixed cs2 = Inr cs3"
    using client1_mixed_ok [OF 2(3) args(2)] by blast
  then have "client1 e a args mixed cs = Inr cs3" using 2(1) by (simp add: client1_def)
  moreover have "\<exists>cs4. client3 e a cs = Inr cs4"
  proof -
    have "test_ready e z a (length [0 :: i32, 1, 2, 3] + 0) cs" using test_ready_weaken [OF assms(1)] by simp
    from client3_from_ok [OF this] show ?thesis by (auto simp: client3_def)
  qed
  ultimately show ?thesis using testmarshall_ok simple 2(2) by blast
qed

definition demo_env :: test_env where
  "demo_env = \<lparr>te_mem = \<lambda>_. 0, te_junk = 0, te_thread = 0, te_cid = 3, te_new = Some (8, fst (conn_new 6 (0, 0) 0))\<rparr>"

lemma demo_nowhere: "nowhere (Timespec 100 0) (demo_rounds 4)"
  using demo_platform by (simp add: nowhere_def dead_round_def demo_rounds_def normalised_def)

lemma demo_connects: "connects (te_new demo_env)"
  using connects_new [of 8 6 "(0, 0)" 0] by (simp add: demo_env_def)

lemma demo_test_ready:
  "\<exists>s. startserver 7 0 = Inr s \<and>
     test_ready demo_env 0 0 7 ((rpcc_new True 5 0 0)\<lparr>cl_bind_done := True, cl_srv_nonce := 7\<rparr>, accepted demo_env 4 (0, 0) s)"
proof -
  obtain s where s: "startserver 7 0 = Inr s" "test_service 0 s" "sv_nonce s = 7" "sv_win s = rwindow_init" "sv_counting s = 0"
    "sv_reachable s" "sv_conns s = Map.empty" "sv_store s = Map.empty" "sv_procs s rpc_bind = Some (h_fn1 get_int 0 put_int (rpcbind 7))"
    by (rule startserver_ok)
  then have new: "new_service 7 0 s" by (simp add: new_service_def)
  have five: "(5 :: u32) \<noteq> 0" by simp
  have "linked 3 (te_new demo_env) (rpcc_new True 5 0 0) (accepted demo_env 4 (0, 0) s)"
    using new_service_linked [OF new five demo_connects, of 4 "(0, 0)"] by (simp add: demo_env_def)
  from linked_bound [OF this] show ?thesis
    using s by (auto simp: test_ready_def demo_env_def accepted_def test_service_def rpcc_new_def rwindow_init_def)
qed

theorem rpctest_passes_witness:
  "testmarshall (\<lambda>_. 0) 0 0 = Inr () \<and>
   (\<exists>s cs1 cs2. startserver 7 0 = Inr s \<and>
     simple_calls demo_env 0 ((rpcc_new True 5 0 0)\<lparr>cl_bind_done := True, cl_srv_nonce := 7\<rparr>, accepted demo_env 4 (0, 0) s) = Inr cs1 \<and>
     client1 demo_env 0 [1500] [(True, 40)]
       ((rpcc_new True 5 0 0)\<lparr>cl_bind_done := True, cl_srv_nonce := 7\<rparr>, accepted demo_env 4 (0, 0) s) = Inr cs2)"
proof -
  let ?c = "(rpcc_new True 5 0 0)\<lparr>cl_bind_done := True, cl_srv_nonce := 7\<rparr>"
  obtain s where s: "startserver 7 0 = Inr s" "test_ready demo_env 0 0 7 (?c, accepted demo_env 4 (0, 0) s)"
    using demo_test_ready by blast
  have "test_ready demo_env 0 0 (5 + length [1500 :: i32] + length [(True, 40 :: i32)]) (?c, accepted demo_env 4 (0, 0) s)"
    using s(2) by simp
  from rpctest_passes [OF this, of "\<lambda>_. 0" 0 0] show ?thesis using s(1) by auto
qed

text \<open>
  A server that is deleted and started again, as in \<open>failure_test\<close>.  While there is no server, a new client fails to bind
  by its timeout.  Afterwards a client of the old instance -- its connection lost or still there -- gets \<open>oldsrv_failure\<close>
  for its call, and nothing runs for it; it can be deleted.  A new client binds; a second \<open>bind\<close> of the same client fails; and its
  calls are answered.
\<close>

theorem server_restart_detected:
  assumes "nowhere now ins" "stale_client e0 nonce c" "connects (te_new e)" "rand2 \<noteq> 0"
  shows "\<exists>cs'. failure_test e0 e a now ins rand1 nonce z fd now' rand2 c = Some (Inr cs')"
  using assms by (rule failure_test_ok)

theorem server_restart_detected_witness:
  "\<exists>cs'. failure_test demo_env (demo_env\<lparr>te_cid := 4\<rparr>) 0 (Timespec 100 0) (demo_rounds 4) 8 9 0 4 (0, 0) 6
     ((rpcc_new True 5 0 0)\<lparr>cl_bind_done := True, cl_srv_nonce := 7, cl_chan := Some 2,
        cl_store := [2 \<mapsto> (fst (conn_new 5 (0, 0) 0))\<lparr>cn_dead := True\<rparr>]\<rparr>) = Some (Inr cs')"
proof (rule server_restart_detected [OF demo_nowhere])
  show "stale_client demo_env 9 ((rpcc_new True 5 0 0)\<lparr>cl_bind_done := True, cl_srv_nonce := 7, cl_chan := Some 2,
        cl_store := [2 \<mapsto> (fst (conn_new 5 (0, 0) 0))\<lparr>cn_dead := True\<rparr>]\<rparr>)"
    using demo_connects
    by (auto simp: stale_client_def client_side_def rpcc_new_def isvalid_def request_clear_def chan_ready_def quiet_conn_def conn_new_def
        charbuf_empty_def xid_inv_def xid_abs_def demo_env_def)
  show "connects (te_new (demo_env\<lparr>te_cid := 4\<rparr>))" using demo_connects by (simp add: demo_env_def)
qed simp

end
