(* ===== verification/Rpctest_Run.thy ===== *)
theory Rpctest_Run
  imports Rpctest Dispatch_Run Addresses
begin

text \<open>
  The threads of the tests of \<^verbatim>\<open>rpc/rpctest.cc\<close> that run at the same time, and the options of its \<open>main\<close>.

  A thread of a test makes one call after another, each with its check: \<open>test_op\<close> says which, and \<open>op_iter\<close> is the body of
  its loop, over any \<open>call1\<close>.  Over the connection of theory \<open>Remote_Call\<close> the loops are those of theory \<open>Rpctest\<close>.  When threads and
  clients run at the same time, \<open>call1\<close> gives what the network of theory \<open>Network\<close> gives: calls overlap, and replies come in any order,
  late, twice or not at all.
\<close>

section \<open>Threads\<close>

datatype test_op = T_Big i32 | T_Mixed bool i32 | T_Lossy i32 | T_Slow i32

definition op_iter :: "memory \<Rightarrow> 's caller1 \<Rightarrow> i32 \<Rightarrow> test_op \<Rightarrow> 's \<Rightarrow> 's result" where
  "op_iter mem call1 junk op s =
     (case op of
        T_Big arg \<Rightarrow>
          bind_r (call_1 mem call1 put_int get_string 25 arg [] s) (\<lambda>(ret, rep, s).
          bind_r (VERIFY (ret = 0)) (\<lambda>_. bind_r (VERIFY (int (length rep) = sint arg)) (\<lambda>_. Inr s)))
      | T_Mixed which arg \<Rightarrow>
          bind_r (call_1 mem call1 put_int get_int (if which then 23 else 24) arg junk s) (\<lambda>(ret, rep, s).
          bind_r (VERIFY (ret = 0)) (\<lambda>_. bind_r (VERIFY (rep = (if which then arg + 1 else arg + 2))) (\<lambda>_. Inr s)))
      | T_Lossy arg \<Rightarrow>
          bind_r (call_1 mem call1 put_int get_string 25 arg [] s) (\<lambda>(ret, rep, s).
          bind_r (VERIFY (int (length rep) = sint arg)) (\<lambda>_. Inr s))
      | T_Slow i \<Rightarrow>
          bind_r (call_1 mem call1 put_int get_int 24 i junk s) (\<lambda>(ret, rep, s).
          bind_r (VERIFY (ret = timeout_failure \<or> rep = i + 2)) (\<lambda>_. Inr s)))"

text \<open>The loops of the threads, when only one of them runs.\<close>

fun run_calls :: "test_env \<Rightarrow> nat \<Rightarrow> test_op list \<Rightarrow> rpcc \<times> unit rpcs \<Rightarrow> (rpcc \<times> unit rpcs) result" where
  "run_calls e a [] cs = Inr cs"
| "run_calls e a (op # ops) cs = bind_r (op_iter (te_mem e) (test_call e a) (te_junk e) op cs) (run_calls e (Suc a) ops)"

definition client1_ops :: "i32 list \<Rightarrow> (bool \<times> i32) list \<Rightarrow> test_op list" where
  "client1_ops args mixed = map T_Big args @ map (\<lambda>(which, x). T_Mixed which x) mixed"

definition client3_ops :: "test_op list" where
  "client3_ops = map T_Slow [0, 1, 2, 3]"

lemma run_calls_append: "run_calls e a (ops @ ops') cs = bind_r (run_calls e a ops cs) (run_calls e (a + length ops) ops')"
  by (induction ops arbitrary: a cs) (auto simp: bind_r_assoc intro!: bind_r_cong)

lemma run_big: "run_calls e a (map T_Big args) cs = client1_bigrep e a args cs"
  by (induction args arbitrary: a cs) (auto simp: op_iter_def call_25_def bind_r_assoc split_beta intro!: bind_r_cong)

lemma run_mixed: "run_calls e a (map (\<lambda>(which, x). T_Mixed which x) args) cs = client1_mixed e a args cs"
  by (induction e a args cs rule: client1_mixed.induct) (auto simp: op_iter_def call_int_def bind_r_assoc split_beta intro!: bind_r_cong)

lemma client1_threads: "run_calls e a (client1_ops args mixed) cs = client1 e a args mixed cs"
  unfolding client1_ops_def client1_def run_calls_append run_big length_map
  by (rule bind_r_cong) (simp_all only: run_mixed)

lemma client2_threads: "run_calls e a (map T_Lossy args) cs = client2 e a args cs"
  by (induction args arbitrary: a cs) (auto simp: op_iter_def call_25_def bind_r_assoc split_beta intro!: bind_r_cong)

lemma run_slow: "run_calls e a (map T_Slow is) cs = client3_from e a is cs"
  by (induction "is" arbitrary: a cs) (auto simp: op_iter_def call_int_def bind_r_assoc split_beta intro!: bind_r_cong)

lemma client3_threads: "run_calls e a client3_ops cs = client3 e a cs"
  unfolding client3_ops_def client3_def by (rule run_slow)

section \<open>The requests of the threads\<close>

fun op_arg :: "test_op \<Rightarrow> i32" where
  "op_arg (T_Big x) = x"
| "op_arg (T_Mixed which x) = x"
| "op_arg (T_Lossy x) = x"
| "op_arg (T_Slow x) = x"

fun op_proc :: "test_op \<Rightarrow> u32" where
  "op_proc (T_Big x) = 25"
| "op_proc (T_Mixed which x) = (if which then 23 else 24)"
| "op_proc (T_Lossy x) = 25"
| "op_proc (T_Slow x) = 24"

text \<open>The numbers that the tests pick are below 2000.\<close>

definition arg_ok :: "test_op \<Rightarrow> bool" where
  "arg_ok op \<longleftrightarrow> 0 \<le> sint (op_arg op) \<and> sint (op_arg op) < 2000"

definition op_request :: "test_op \<Rightarrow> byte list \<Rightarrow> bool" where
  "op_request op m \<longleftrightarrow> (\<exists>h. req_msg h (be32 (op_arg op)) m \<and> rq_proc h = op_proc op)"

text \<open>Every iteration passes its number and its procedure to \<open>call1\<close>, which packs them into such a request.\<close>

lemma op_iter_calls:
  obtains m where "put_int mem (marshall_new mem) (op_arg op) = Inr m" "m_wf m" "m_body m = be32 (op_arg op)"
    "\<And>call1 junk s f. call1 (op_proc op) m s = Inl f \<Longrightarrow> op_iter mem call1 junk op s = Inl f"
    "\<And>call1 junk s ret u s'. call1 (op_proc op) m s = Inr (ret, u, s') \<Longrightarrow> op_iter mem call1 junk op s = op_iter mem (\<lambda>proc m s. Inr (ret, u, s')) junk op s"
proof -
  obtain m where m: "put_int mem (marshall_new mem) (op_arg op) = Inr m" "m_wf m" "m_body m = be32 (op_arg op)"
    using call_1_request [OF int_codec.codec_axioms, of "op_arg op" mem] by auto
  show thesis
    by (rule that [OF m]; cases op) (use m(1) in \<open>auto simp: op_iter_def call_1_def call_m_def Let_def\<close>)
qed

lemma op_request_packed:
  assumes "m_wf m" "m_body m = be32 (op_arg op)" "pack_req_header mem m h = Inr req" "rq_proc h = op_proc op"
  shows "op_request op (m_bytes req)"
proof -
  have "req_msg h (be32 (op_arg op)) (m_bytes req)" using packed_req_msg [OF assms(1,3)] assms(2) by simp
  then show ?thesis using assms(4) by (auto simp: op_request_def)
qed

section \<open>The answers\<close>

text \<open>What the server answers to the request of a call, the caller reads.\<close>

lemma handled_call:
  assumes "handled procs c x m ret body" "req_msg h (e a) m" "procs (rq_proc h) = Some (h_fn1 g z p' meth)" "u_at u body"
    and arg: "codec e f fr p g" "f a" "fr z" and res: "codec e' f' fr' p' g'" "f' r" "length (e' r) < 2 ^ 29" "fr' r0"
    and meth: "\<And>obj. \<exists>obj'. meth a obj = Inr (b, r, obj')" "0 \<le> sint b"
  shows "ret = b \<and> call_m (\<lambda>proc req s. Inr (ret, u, s)) g' proc req r0 s = Inr (b, r, s)"
proof -
  obtain h' args rd k mem obj rep obj' where H: "req_msg h' args m" "procs (rq_proc h') = Some k" "u_at rd args"
    "k mem rd (marshall_new mem) obj = Inr (ret, rep, obj')" "body = m_body rep"
    using assms(1) unfolding handled_def by blast
  have h': "h' = h" "args = e a" using req_msg_unique [OF H(1) assms(2)] by simp_all
  obtain obj1 where "meth a obj = Inr (b, r, obj1)" using meth(1) by blast
  then have ex: "run_method p' mem (Inr (b, r, obj1)) (marshall_new mem) = Inr (ret, rep, obj')"
    using H(2,4) assms(3) h_fn1_exact [OF arg H(3) [unfolded h'(2)], of p' meth mem "marshall_new mem" obj] unfolding h' by simp
  obtain m1 where m1: "p' mem (marshall_new mem) r = Inr m1" "m_body m1 = e' r" by (rule call_1_request [OF res(1-3)])
  then have "ret = b" "body = e' r" using ex H(5) by (auto simp: run_method_def)
  then have "g' u r0 = Inr (advance (length (e' r)) u, r)" "okdone (advance (length (e' r)) u)"
    using readsD [OF codec.get_reads [OF res(1,2,4)], of u "[]"] u_at_advance [of u "e' r" "[]"] assms(4) by (simp_all add: u_at_okdone)
  then show ?thesis using \<open>ret = b\<close> meth(2) by (simp add: call_m_def)
qed

lemma startserver_procs:
  assumes "startserver nonce z = Inr v"
  shows "sv_procs v = [rpc_bind \<mapsto> h_fn1 get_int z put_int (rpcbind nonce), 22 \<mapsto> h_fn2 get_string get_string [] [] put_string handle_22,
      23 \<mapsto> h_fn1 get_int z put_int handle_fast, 24 \<mapsto> h_fn1 get_int z put_int handle_slow, 25 \<mapsto> h_fn1 get_int z put_string handle_bigrep]"
  using assms by (auto simp: startserver_def rpcs_new_def reg1_def rpc_bind_def)

lemma startserver_good:
  assumes "startserver nonce z = Inr v"
  shows "\<forall>f\<in>ran (sv_procs v). good_handler f"
proof
  fix f assume "f \<in> ran (sv_procs v)"
  then obtain k where k: "sv_procs v k = Some f" by (auto simp: ran_def)
  have app: "appends (\<lambda>m. put_int mem m r)" "appends (\<lambda>m. put_string mem m r')" for mem r r'
    unfolding put_int_def put_string_def by (intro writer_intros)+
  have "good_handler (h_fn1 g x put_int meth)" "good_handler (h_fn1 g x put_string meth')" "good_handler (h_fn2 g1 g2 x1 x2 put_string meth2)"
    for g x meth meth' g1 g2 x1 x2 meth2
    by (rule good_h_fn1 good_h_fns(1), rule app)+
  then show "good_handler f" using k unfolding startserver_procs [OF assms] by (auto split: if_splits)
qed

lemma op_answered:
  assumes v: "startserver nonce z = Inr v" and m: "op_request op m" "arg_ok op" and h: "handled (sv_procs v) c x m ret body" "u_at u body"
  shows "op_iter mem (\<lambda>proc m s. Inr (ret, u, s)) junk op s = Inr s"
proof -
  obtain h where r: "req_msg h (be32 (op_arg op)) m" "rq_proc h = op_proc op" using m(1) by (auto simp: op_request_def)
  obtain q where q: "put_int mem (marshall_new mem) (op_arg op) = Inr q"
    using call_1_request [OF int_codec.codec_axioms, of "op_arg op" mem] by auto
  let ?x = "op_arg op"
  have bounds: "0 \<le> sint ?x" "sint ?x < 2000" using m(2) by (simp_all add: arg_ok_def)
  note ans = handled_call [OF h(1) r(1) _ h(2) int_codec.codec_axioms TrueI TrueI, where b = 0 and req = q]
  have slow: "ret = 0 \<and> call_m (\<lambda>proc req s. Inr (ret, u, s)) get_int 24 q junk s = Inr (0, ?x + 2, s)" if "op_proc op = 24"
    by (rule ans [where meth = handle_slow, OF _ int_codec.codec_axioms TrueI _ TrueI])
      (use that r(2) bounds in \<open>simp_all add: startserver_procs [OF v] rpc_bind_def handle_slow_def\<close>)
  have fast: "ret = 0 \<and> call_m (\<lambda>proc req s. Inr (ret, u, s)) get_int 23 q junk s = Inr (0, ?x + 1, s)" if "op_proc op = 23"
    by (rule ans [where meth = handle_fast, OF _ int_codec.codec_axioms TrueI _ TrueI])
      (use that r(2) bounds in \<open>simp_all add: startserver_procs [OF v] rpc_bind_def handle_fast_def\<close>)
  have big: "ret = 0 \<and> call_m (\<lambda>proc req s. Inr (ret, u, s)) get_string 25 q [] s = Inr (0, replicate (nat (sint ?x)) (of_char CHR ''x''), s)"
    if "op_proc op = 25"
    by (rule ans [where meth = handle_bigrep, OF _ string_codec.codec_axioms])
      (use that r(2) bounds in \<open>simp_all add: startserver_procs [OF v] rpc_bind_def handle_bigrep_def enc_string_def\<close>)
  show ?thesis
    by (cases op) (use q big slow fast bounds in \<open>auto simp: op_iter_def call_1_def Let_def\<close>)
qed

section \<open>The options of \<open>main\<close>\<close>

text \<open>\<open>ro_lossy\<close>: whether \<^verbatim>\<open>RPC_LOSSY\<close> has been set.  \<open>opt k\<close> is what the \<open>k\<close>th \<open>getopt\<close> returns, with \<open>optarg\<close>; \<open>set_ok\<close> is whether \<open>setenv\<close> succeeds.\<close>

record run_opts =
  ro_client :: bool
  ro_server :: bool
  ro_debug :: int
  ro_port :: int
  ro_lossy :: bool

text \<open>The variable that holds the answer is a \<open>char\<close>, which is signed on some machines and unsigned on others.\<close>

definition as_char :: "bool \<Rightarrow> int \<Rightarrow> int" where
  "as_char sc v = (if sc then sint (word_of_int v :: 8 word) else uint (word_of_int v :: 8 word))"

definition main_option :: "bool \<Rightarrow> int \<Rightarrow> string \<Rightarrow> run_opts \<Rightarrow> run_opts result" where
  "main_option set_ok ch optarg r =
     (if ch = of_char CHR ''c'' then Inr (r\<lparr>ro_client := True\<rparr>)
      else if ch = of_char CHR ''s'' then Inr (r\<lparr>ro_server := True\<rparr>)
      else if ch = of_char CHR ''d'' then bind_r (atoi optarg) (\<lambda>n. Inr (r\<lparr>ro_debug := n\<rparr>))
      else if ch = of_char CHR ''p'' then bind_r (atoi optarg) (\<lambda>n. Inr (r\<lparr>ro_port := n\<rparr>))
      else if ch = of_char CHR ''l'' then bind_r (VERIFY set_ok) (\<lambda>_. Inr (r\<lparr>ro_lossy := True\<rparr>))
      else Inr r)"

partial_function (option) main_options :: "bool \<Rightarrow> bool \<Rightarrow> (nat \<Rightarrow> int \<times> string) \<Rightarrow> nat \<Rightarrow> run_opts \<Rightarrow> run_opts result option" where
  "main_options sc set_ok opt k r =
     (let ch = as_char sc (fst (opt k)) in
      if ch = - 1 then Some (Inr r)
      else case main_option set_ok ch (snd (opt k)) r of
             Inl f \<Rightarrow> Some (Inl f)
           | Inr r' \<Rightarrow> main_options sc set_ok opt (Suc k) r')"

text \<open>The roles that \<open>main\<close> plays, from the process id and the options.\<close>

definition main_roles :: "bool \<Rightarrow> bool \<Rightarrow> (nat \<Rightarrow> int \<times> string) \<Rightarrow> nat \<Rightarrow> run_opts result option" where
  "main_roles sc set_ok opt pid =
     map_option (\<lambda>x. bind_r x (\<lambda>r. Inr (if \<not> ro_server r \<and> \<not> ro_client r then r\<lparr>ro_server := True, ro_client := True\<rparr> else r)))
       (main_options sc set_ok opt 0
          \<lparr>ro_client = False, ro_server = False, ro_debug = 0, ro_port = 20000 + int pid mod 10000, ro_lossy = False\<rparr>)"

lemma as_char_signed: "- 128 \<le> v \<Longrightarrow> v < 128 \<Longrightarrow> as_char True v = v"
  by (simp add: as_char_def sint_sbintrunc' signed_take_bit_int_eq_self)

lemma as_char_unsigned: "as_char False v \<noteq> - 1"
  using uint_ge_0 [of "word_of_int v :: 8 word"] unfolding as_char_def if_False by linarith

text \<open>What the options before the end of the list do.\<close>

fun apply_options :: "bool \<Rightarrow> (int \<times> string) list \<Rightarrow> run_opts \<Rightarrow> run_opts result" where
  "apply_options set_ok [] r = Inr r"
| "apply_options set_ok ((ch, optarg) # os) r = bind_r (main_option set_ok ch optarg r) (apply_options set_ok os)"

lemma main_options_unsigned: "main_options False set_ok opt k r \<noteq> Some (Inr r')"
proof -
  have "sc \<or> y \<noteq> Inr r'" if "main_options sc set_ok opt k r = Some y" for sc y
    by (rule main_options.raw_induct [where P = "\<lambda>sc _ _ _ _ y. sc \<or> y \<noteq> Inr r'", OF _ that])
      (auto simp: Let_def as_char_unsigned split: if_splits sum.splits)
  then show ?thesis by blast
qed

lemma main_options_signed:
  assumes "\<forall>i<length os. opt (k + i) = os ! i" "\<forall>(v, a)\<in>set os. 0 \<le> v \<and> v < 128" "fst (opt (k + length os)) = - 1"
  shows "main_options True set_ok opt k r = Some (apply_options set_ok os r)"
  using assms
proof (induction os arbitrary: k r)
  case Nil
  then show ?case by (simp add: main_options.simps as_char_signed)
next
  case (Cons p os)
  obtain v a where p: "p = (v, a)" by (cases p)
  have first: "opt k = (v, a)" "0 \<le> v" "v < 128" using Cons.prems(1,2) p by auto
  have "\<forall>i<length os. opt (Suc k + i) = os ! i" using Cons.prems(1) by fastforce
  then have "main_options True set_ok opt (Suc k) r' = Some (apply_options set_ok os r')" for r'
    using Cons.IH [of "Suc k"] Cons.prems(2,3) by simp
  then show ?case
    using first p by (subst main_options.simps) (auto simp: as_char_signed split: sum.splits)
qed

section \<open>Properties\<close>

text \<open>
  C20: the checks of the test threads hold when they run at the same time.  In every run of the network without the data races of
  \<^verbatim>\<open>rpcs\<close> -- any number of clients and threads, with calls that overlap and replies that come in any order, late, twice or never -- an iteration of
  \<open>client1\<close>, \<open>client2\<close> or \<open>client3\<close> whose call to the server of \<open>startserver\<close> comes back fails none of its checks: it has the reply to its own
  request.  The only exception is a call that fails, by its timeout, by \<open>cancel\<close> or because the server was replaced; \<open>client3\<close> accepts the timeout as well.
\<close>

theorem concurrent_test_passes:
  assumes "startserver nonce z = Inr v" "race_free v lossy junk es n" "\<forall>c. calls_begun (cl_events c es) + 2 < 2 ^ 32" "c \<noteq> 0"
    and "cy_ph (nw_cl n c) t = CCalling x req xr ch" "call1_end t req xr ch (cy_cl (nw_cl n c)) = Inr (ret, u, sig, s')"
    and "op_request op (m_bytes req)" "arg_ok op"
    and "ret \<notin> {cancel_failure, oldsrv_failure}" "ret = timeout_failure \<Longrightarrow> \<exists>i. op = T_Slow i"
  shows "op_iter mem (\<lambda>proc m s. Inr (ret, u, s)) junk' op s = Inr s"
proof -
  have good: "good_handler f" if "sv_procs v k = Some f" for k f using startserver_good [OF assms(1)] that by (auto simp: ran_def)
  have few: "calls_begun (cl_events c es) + 2 < 2 ^ 32" for c using assms(3) by blast
  show ?thesis
  proof (cases "ret = timeout_failure")
    case True
    then obtain i where "op = T_Slow i" using assms(10) by blast
    moreover obtain m where "put_int mem (marshall_new mem) i = Inr m" using call_1_request [OF int_codec.codec_axioms TrueI, of i mem] by auto
    moreover have "sint timeout_failure < 0" by (simp add: timeout_failure_def)
    ultimately show ?thesis using True by (simp add: op_iter_def call_1_def call_m_def Let_def)
  next
    case False
    then have ok: "\<not> (ret = timeout_failure \<or> ret = cancel_failure \<or> ret = oldsrv_failure)" using assms(9) by simp
    obtain body where "handled (sv_procs v) c x (m_bytes req) ret body" "u_at u body"
      by (rule call_outcome [OF assms(2) few _ assms(5,6)]) (use good ok in blast)+
    then show ?thesis by (rule op_answered [OF assms(1,7,8)])
  qed
qed

theorem concurrent_test_passes_witness:
  "\<exists>v es n req xr ch ret u sig s'. startserver 7 0 = Inr v \<and> race_free v 0 0 es n \<and> cy_ph (nw_cl n 5) 0 = CCalling 2 req xr ch
     \<and> call1_end 0 req xr ch (cy_cl (nw_cl n 5)) = Inr (ret, u, sig, s') \<and> op_iter (\<lambda>_. 0) (\<lambda>proc m s. Inr (ret, u, s)) 0 (T_Mixed True 40) () = Inr ()"
proof -
  obtain v where v: "startserver 7 0 = Inr v" "test_service 0 v" "sv_nonce v = 7" "sv_counting v = 0" "sv_reachable v"
    "sv_procs v rpc_bind = Some (h_fn1 get_int 0 put_int (rpcbind (sv_nonce v)))"
    by (metis startserver_ok)
  obtain es0 n0 where n0: "client_net v es0 n0 2" by (rule client_net_bound [OF v(4-6)])
  have ok: "length (be32 (40 :: i32)) \<le> 2 ^ 20" "length (be32 (41 :: i32)) \<le> 2 ^ 20" "(2 :: nat) < 100" "(23 :: u32) \<noteq> rpc_bind" "0 \<le> sint (0 :: i32)"
    by (simp_all add: rpc_bind_def)
  have p: "sv_procs v 23 = Some (h_fn1 get_int 0 put_int handle_fast)" using v(2) by (simp add: test_service_def)
  have m: "handle_fast 40 (sv_obj (ss_srv (nw_srv n0))) = Inr (0, 41, ())" by (simp add: handle_fast_def)
  obtain es1 n1 h m where E: "client_net v (es0 @ es1) n1 (Suc 2)" "es1 \<noteq> []" "last es1 = N_Client 5 (C_Return 0 (of_nat 2) 0)"
    "nw_issued n1 5 (of_nat 2) = Some m" "req_msg h (be32 40) m" "rq_proc h = 23"
    by (rule client_net_call [OF n0 ok(3) int_codec.codec_axioms TrueI ok(1) TrueI int_codec.codec_axioms TrueI ok(2,4) p m ok(5) TrueI]) metis
  let ?es = "es0 @ butlast es1"
  have es: "es0 @ es1 = ?es @ [N_Client 5 (C_Return 0 2 0)]" using E(2,3) by (metis append.assoc append_butlast_last_id of_nat_numeral)
  have "race_free v 0 0 (?es @ [N_Client 5 (C_Return 0 2 0)]) n1" using E(1) es by (simp add: client_net_def)
  then obtain n where n: "race_free v 0 0 ?es n" "net_step n (N_Client 5 (C_Return 0 2 0)) n1" by (cases rule: race_free.cases) auto
  obtain k where k: "cl_step (nw_cl n 5) (C_Return 0 2 0) k" "nw_issued n1 = nw_issued n" using n(2) by cases (auto split: if_splits)
  obtain req xr ch u sig s' where c: "cy_ph (nw_cl n 5) 0 = CCalling 2 req xr ch" "call1_end 0 req xr ch (cy_cl (nw_cl n 5)) = Inr (0, u, sig, s')"
    using k(1) by cases (auto split: if_splits)
  have "\<forall>c. calls_begun (cl_events c (es0 @ es1)) \<le> Suc 2" using E(1) by (simp add: client_net_def)
  then have "calls_begun (cl_events c ?es) \<le> Suc 2" for c using calls_begun_prefix [of c ?es "N_Client 5 (C_Return 0 2 0)"] es by (metis le_trans)
  then have few: "\<forall>c. calls_begun (cl_events c ?es) + 2 < 2 ^ 32" using le_less_trans [of _ "Suc 2" "2 ^ 32 - 2"] by fastforce
  have good: "good_handler f" if "sv_procs v k = Some f" for k f using startserver_good [OF v(1)] that by (auto simp: ran_def)
  have "nw_issued n 5 2 = Some (m_bytes req)"
    by (rule call_outcome [OF n(1) _ _ c]) (use few good in \<open>auto simp: timeout_failure_def cancel_failure_def oldsrv_failure_def\<close>)
  then have "op_request (T_Mixed True 40) (m_bytes req)" using E(4-6) k(2) by (auto simp: op_request_def)
  moreover have "(0 :: i32) \<notin> {cancel_failure, oldsrv_failure}" "(0 :: i32) \<noteq> timeout_failure"
    by (simp_all add: timeout_failure_def cancel_failure_def oldsrv_failure_def)
  ultimately have "op_iter (\<lambda>_. 0) (\<lambda>proc m s. Inr (0, u, s)) 0 (T_Mixed True 40) () = Inr ()"
    by (intro concurrent_test_passes [OF v(1) n(1) few _ c]) (simp_all add: arg_ok_def)
  then show ?thesis using v(1) n(1) c by blast
qed

text \<open>
  The options of \<open>main\<close>.  The loop keeps what \<open>getopt\<close> returns in a \<open>char\<close> and compares it with \<open>-1\<close>.  Where \<open>char\<close> is
  signed it stops at the end of the options, having applied each of them in order; a debug level or a port that is no
  \<open>int\<close> and a failing \<open>setenv\<close> are its faults.  Where \<open>char\<close> is unsigned the comparison never holds: the loop never
  gets to the end, and \<open>main\<close> does not start a test.
\<close>

theorem main_options_outcome:
  assumes "\<forall>i<length os. opt i = os ! i" "\<forall>(v, a)\<in>set os. 0 \<le> v \<and> v < 128" "fst (opt (length os)) = - 1"
  shows "main_options True set_ok opt 0 r = Some (apply_options set_ok os r) \<and> (\<forall>r'. main_options False set_ok opt 0 r \<noteq> Some (Inr r'))"
  using main_options_signed [of os opt 0 set_ok r] main_options_unsigned assms by auto

theorem main_options_outcome_witness:
  "main_options True True (\<lambda>k. if k = 0 then (115, '''') else if k = 1 then (112, ''3772'') else (- 1, '''')) 0
      \<lparr>ro_client = False, ro_server = False, ro_debug = 0, ro_port = 20000, ro_lossy = False\<rparr>
     = Some (Inr \<lparr>ro_client = False, ro_server = True, ro_debug = 0, ro_port = 3772, ro_lossy = False\<rparr>)"
  using main_options_outcome [of "[(115, ''''), (112, ''3772'')]"
      "\<lambda>k. if k = 0 then (115, '''') else if k = 1 then (112, ''3772'') else (- 1, '''')" True
      "\<lparr>ro_client = False, ro_server = False, ro_debug = 0, ro_port = 20000, ro_lossy = False\<rparr>"]
  by (simp add: less_Suc_eq nth_Cons' main_option_def atoi_def c_isspace_def c_isdigit_def Let_def)

end
