(* ===== verification/Fifo.thy ===== *)
theory Fifo
  imports Rpc_Prelude
begin

text \<open>
  The blocking queue \<open>fifo<T>\<close> of \<^verbatim>\<open>rpc/fifo.h\<close>.

  \<open>fifo_enq\<close> and \<open>fifo_deq\<close> are one pass of the loops of \<open>enq\<close> and \<open>deq\<close>, which run
  under the mutex: the outcome says whether the loop ends, the thread waits on the
  condition variable, or (a full queue and a non-blocking caller) the call returns false.
  \<open>fifo_step\<close> is the monitor built from them: any number of threads, a mutex that makes
  every pass atomic, and the two condition variables, whose \<open>signal\<close> wakes one waiter if
  there is one and whose waiters may also wake for no reason, as POSIX allows.  A woken
  thread runs the loop again.

  The locale \<open>bounded_queue\<close> is the interface that the thread pool relies on.
\<close>

section \<open>The queue\<close>

record 'a fifo =
  fifo_q :: "'a list"
  fifo_max :: nat

definition fifo_new :: "nat \<Rightarrow> 'a fifo" where
  "fifo_new limit = \<lparr>fifo_q = [], fifo_max = limit\<rparr>"

text \<open>\<open>size()\<close> returns a \<open>bool\<close>: the length converted.\<close>

definition fifo_size :: "'a fifo \<Rightarrow> bool" where
  "fifo_size f \<longleftrightarrow> length (fifo_q f) \<noteq> 0"

datatype enq_outcome = Enq_True | Enq_Blocks | Enq_False

definition fifo_enq :: "'a fifo \<Rightarrow> 'a \<Rightarrow> bool \<Rightarrow> enq_outcome \<times> 'a fifo" where
  "fifo_enq f e blocking =
     (if fifo_max f = 0 \<or> length (fifo_q f) < fifo_max f
      then (Enq_True, f\<lparr>fifo_q := fifo_q f @ [e]\<rparr>)
      else if blocking then (Enq_Blocks, f) else (Enq_False, f))"

text \<open>The flag of \<open>Deq_Got\<close> is whether \<open>deq\<close> signals \<open>has_space_c_\<close>.\<close>

datatype 'a deq_outcome = Deq_Got 'a bool | Deq_Blocks

definition fifo_deq :: "'a fifo \<Rightarrow> 'a deq_outcome \<times> 'a fifo" where
  "fifo_deq f =
     (case fifo_q f of
        [] \<Rightarrow> (Deq_Blocks, f)
      | x # xs \<Rightarrow> (Deq_Got x (fifo_max f \<noteq> 0 \<and> length xs < fifo_max f), f\<lparr>fifo_q := xs\<rparr>))"

section \<open>The monitor\<close>

datatype 'a fphase =
    FIdle
  | FEnq 'a bool
  | FDeq
  | FWaitSpace 'a
  | FWaitItem

record 'a fifo_sys =
  fs_fifo :: "'a fifo"
  fs_ph :: "nat \<Rightarrow> 'a fphase"

datatype 'a fevent = EvEnq 'a | EvDeq 'a | EvTau

definition signal_item :: "(nat \<Rightarrow> 'a fphase) \<Rightarrow> (nat \<Rightarrow> 'a fphase) \<Rightarrow> bool" where
  "signal_item ph ph' \<longleftrightarrow>
     (\<forall>t. ph t \<noteq> FWaitItem) \<and> ph' = ph \<or>
     (\<exists>t. ph t = FWaitItem \<and> ph' = ph(t := FDeq))"

definition signal_space :: "(nat \<Rightarrow> 'a fphase) \<Rightarrow> (nat \<Rightarrow> 'a fphase) \<Rightarrow> bool" where
  "signal_space ph ph' \<longleftrightarrow>
     (\<forall>t x. ph t \<noteq> FWaitSpace x) \<and> ph' = ph \<or>
     (\<exists>t x. ph t = FWaitSpace x \<and> ph' = ph(t := FEnq x True))"

inductive fifo_step :: "'a fifo_sys \<Rightarrow> 'a fevent \<Rightarrow> 'a fifo_sys \<Rightarrow> bool" where
  call_enq: "ph t = FIdle \<Longrightarrow>
     fifo_step \<lparr>fs_fifo = f, fs_ph = ph\<rparr> EvTau \<lparr>fs_fifo = f, fs_ph = ph(t := FEnq x b)\<rparr>"
| call_deq: "ph t = FIdle \<Longrightarrow>
     fifo_step \<lparr>fs_fifo = f, fs_ph = ph\<rparr> EvTau \<lparr>fs_fifo = f, fs_ph = ph(t := FDeq)\<rparr>"
| enq_true: "ph t = FEnq x b \<Longrightarrow> fifo_enq f x b = (Enq_True, f') \<Longrightarrow>
     signal_item (ph(t := FIdle)) ph' \<Longrightarrow>
     fifo_step \<lparr>fs_fifo = f, fs_ph = ph\<rparr> (EvEnq x) \<lparr>fs_fifo = f', fs_ph = ph'\<rparr>"
| enq_blocks: "ph t = FEnq x b \<Longrightarrow> fifo_enq f x b = (Enq_Blocks, f') \<Longrightarrow>
     fifo_step \<lparr>fs_fifo = f, fs_ph = ph\<rparr> EvTau \<lparr>fs_fifo = f', fs_ph = ph(t := FWaitSpace x)\<rparr>"
| enq_false: "ph t = FEnq x b \<Longrightarrow> fifo_enq f x b = (Enq_False, f') \<Longrightarrow>
     fifo_step \<lparr>fs_fifo = f, fs_ph = ph\<rparr> EvTau \<lparr>fs_fifo = f', fs_ph = ph(t := FIdle)\<rparr>"
| deq_got: "ph t = FDeq \<Longrightarrow> fifo_deq f = (Deq_Got x sig, f') \<Longrightarrow>
     (if sig then signal_space (ph(t := FIdle)) ph' else ph' = ph(t := FIdle)) \<Longrightarrow>
     fifo_step \<lparr>fs_fifo = f, fs_ph = ph\<rparr> (EvDeq x) \<lparr>fs_fifo = f', fs_ph = ph'\<rparr>"
| deq_blocks: "ph t = FDeq \<Longrightarrow> fifo_deq f = (Deq_Blocks, f') \<Longrightarrow>
     fifo_step \<lparr>fs_fifo = f, fs_ph = ph\<rparr> EvTau \<lparr>fs_fifo = f', fs_ph = ph(t := FWaitItem)\<rparr>"
| spurious_item: "ph t = FWaitItem \<Longrightarrow>
     fifo_step \<lparr>fs_fifo = f, fs_ph = ph\<rparr> EvTau \<lparr>fs_fifo = f, fs_ph = ph(t := FDeq)\<rparr>"
| spurious_space: "ph t = FWaitSpace x \<Longrightarrow>
     fifo_step \<lparr>fs_fifo = f, fs_ph = ph\<rparr> EvTau \<lparr>fs_fifo = f, fs_ph = ph(t := FEnq x True)\<rparr>"

inductive fifo_run :: "nat \<Rightarrow> 'a fevent list \<Rightarrow> 'a fifo_sys \<Rightarrow> bool" for limit where
  start: "fifo_run limit [] \<lparr>fs_fifo = fifo_new limit, fs_ph = (\<lambda>_. FIdle)\<rparr>"
| more: "fifo_run limit es s \<Longrightarrow> fifo_step s e s' \<Longrightarrow> fifo_run limit (es @ [e]) s'"

inductive_cases fifo_stepE: "fifo_step s e s'"

section \<open>The interface of a bounded queue\<close>

locale bounded_queue =
  fixes empty :: "nat \<Rightarrow> 'q"
    and enq :: "'q \<Rightarrow> 'a \<Rightarrow> bool \<Rightarrow> enq_outcome \<times> 'q"
    and deq :: "'q \<Rightarrow> 'a deq_outcome \<times> 'q"
    and list :: "'q \<Rightarrow> 'a list"
    and cap :: "'q \<Rightarrow> nat"
  assumes list_empty: "list (empty n) = []"
    and cap_empty: "cap (empty n) = n"
    and enq_room: "cap q = 0 \<or> length (list q) < cap q \<Longrightarrow>
      \<exists>q'. enq q x b = (Enq_True, q') \<and> list q' = list q @ [x] \<and> cap q' = cap q"
    and enq_full: "cap q \<noteq> 0 \<Longrightarrow> cap q \<le> length (list q) \<Longrightarrow>
      enq q x b = (if b then Enq_Blocks else Enq_False, q)"
    and deq_Nil: "list q = [] \<Longrightarrow> deq q = (Deq_Blocks, q)"
    and deq_Cons: "list q = x # xs \<Longrightarrow>
      \<exists>sig q'. deq q = (Deq_Got x sig, q') \<and> list q' = xs \<and> cap q' = cap q"
begin

lemma enq_True_iff: "(\<exists>q'. enq q x b = (Enq_True, q')) \<longleftrightarrow> cap q = 0 \<or> length (list q) < cap q"
  using enq_room [of q x b] enq_full [of q x b] by (cases "cap q = 0 \<or> length (list q) < cap q") auto

lemma enq_TrueD:
  "enq q x b = (Enq_True, q') \<Longrightarrow>
   (cap q = 0 \<or> length (list q) < cap q) \<and> list q' = list q @ [x] \<and> cap q' = cap q"
  using enq_True_iff [of q x b] enq_room [of q x b] by auto

lemma enq_otherD:
  "enq q x b = (r, q') \<Longrightarrow> r \<noteq> Enq_True \<Longrightarrow>
   q' = q \<and> cap q \<noteq> 0 \<and> cap q \<le> length (list q) \<and> r = (if b then Enq_Blocks else Enq_False)"
  using enq_full [of q x b] enq_room [of q x b] by fastforce

lemma deq_GotD: "deq q = (Deq_Got x sig, q') \<Longrightarrow> list q = x # list q' \<and> cap q' = cap q"
  using deq_Nil [of q] deq_Cons [of q] by (cases "list q") fastforce+

lemma deq_BlocksD: "deq q = (Deq_Blocks, q') \<Longrightarrow> list q = [] \<and> q' = q"
  using deq_Nil [of q] deq_Cons [of q] by (cases "list q") fastforce+

text \<open>The bound is kept by every operation.\<close>

definition within :: "'q \<Rightarrow> bool" where
  "within q \<longleftrightarrow> cap q = 0 \<or> length (list q) \<le> cap q"

lemma within_empty: "within (empty n)"
  by (simp add: within_def list_empty)

lemma within_enq: "within q \<Longrightarrow> enq q x b = (r, q') \<Longrightarrow> within q'"
  using enq_TrueD [of q x b q'] enq_otherD [of q x b r q'] unfolding within_def by fastforce

lemma within_deq: "within q \<Longrightarrow> deq q = (r, q') \<Longrightarrow> within q'"
  using deq_GotD [of q _ _ q'] deq_BlocksD [of q q'] unfolding within_def by (cases r) fastforce+

end

interpretation fifo: bounded_queue fifo_new fifo_enq fifo_deq fifo_q fifo_max
  by unfold_locales (auto simp: fifo_new_def fifo_enq_def fifo_deq_def)

section \<open>Counting threads\<close>

definition count_ph :: "('a fphase \<Rightarrow> bool) \<Rightarrow> (nat \<Rightarrow> 'a fphase) \<Rightarrow> nat" where
  "count_ph P ph = card {t. P (ph t)}"

text \<open>Finitely many threads are inside the queue's methods.\<close>

definition few :: "(nat \<Rightarrow> 'a fphase) \<Rightarrow> bool" where
  "few ph \<longleftrightarrow> finite {t. ph t \<noteq> FIdle}"

lemma finite_ph: "few ph \<Longrightarrow> \<not> P FIdle \<Longrightarrow> finite {t. P (ph t)}"
  unfolding few_def by (rule finite_subset [of _ "{t. ph t \<noteq> FIdle}"]) auto

lemma count_ph_upd:
  assumes "few ph" "\<not> P FIdle"
  shows "count_ph P (ph(t := v)) + of_bool (P (ph t)) = count_ph P ph + of_bool (P v)"
proof -
  let ?R = "{u. u \<noteq> t \<and> P (ph u)}"
  have fin: "finite ?R" using finite_ph [of ph P] assms by (auto intro: rev_finite_subset)
  have "{u. P (ph u)} = (if P (ph t) then insert t ?R else ?R)"
    "{u. P ((ph(t := v)) u)} = (if P v then insert t ?R else ?R)"
    by auto
  then show ?thesis using fin by (simp add: count_ph_def)
qed

lemma few_upd [simp]: "few (ph(t := v)) \<longleftrightarrow> few ph"
proof -
  have "{u. (ph(t := v)) u \<noteq> FIdle} \<subseteq> insert t {u. ph u \<noteq> FIdle}"
    "{u. ph u \<noteq> FIdle} \<subseteq> insert t {u. (ph(t := v)) u \<noteq> FIdle}" by auto
  then show ?thesis unfolding few_def by (meson finite.insertI finite_subset)
qed

abbreviation is_deq :: "'a fphase \<Rightarrow> bool" where
  "is_deq p \<equiv> p = FDeq"

fun is_enq :: "'a fphase \<Rightarrow> bool" where
  "is_enq (FEnq x b) = True"
| "is_enq p = False"

text \<open>
  The invariant of the monitor.  If a consumer sleeps, there are at least as many threads
  on their way into \<open>deq\<close> as items; if a producer sleeps, at least as many on their way
  into \<open>enq\<close> as free places.
\<close>

definition fifo_inv :: "'a fifo_sys \<Rightarrow> bool" where
  "fifo_inv s \<longleftrightarrow>
     few (fs_ph s) \<and> fifo.within (fs_fifo s) \<and>
     ((\<exists>t. fs_ph s t = FWaitItem) \<longrightarrow> length (fifo_q (fs_fifo s)) \<le> count_ph is_deq (fs_ph s)) \<and>
     ((\<exists>t x. fs_ph s t = FWaitSpace x) \<longrightarrow> fifo_max (fs_fifo s) \<noteq> 0 \<and>
        fifo_max (fs_fifo s) \<le> length (fifo_q (fs_fifo s)) + count_ph is_enq (fs_ph s))"

lemma count_deq_upd:
  "few ph \<Longrightarrow>
   count_ph is_deq (ph(t := v)) + of_bool (ph t = FDeq) = count_ph is_deq ph + of_bool (v = FDeq)"
  by (rule count_ph_upd) simp_all

lemma count_enq_upd:
  "few ph \<Longrightarrow>
   count_ph is_enq (ph(t := v)) + of_bool (is_enq (ph t)) = count_ph is_enq ph + of_bool (is_enq v)"
  by (rule count_ph_upd) simp_all

lemma signal_item_cases:
  assumes "signal_item ph ph'"
  obtains (none) "\<And>t. ph t \<noteq> FWaitItem" "ph' = ph"
    | (one) t where "ph t = FWaitItem" "ph' = ph(t := FDeq)"
  using assms by (auto simp: signal_item_def)

lemma signal_space_cases:
  assumes "signal_space ph ph'"
  obtains (none) "\<And>t x. ph t \<noteq> FWaitSpace x" "ph' = ph"
    | (one) t x where "ph t = FWaitSpace x" "ph' = ph(t := FEnq x True)"
  using assms by (auto simp: signal_space_def)

lemma signal_space_total: "\<exists>ph'. signal_space ph ph'"
  unfolding signal_space_def by (cases "\<exists>t x. ph t = FWaitSpace x") blast+

lemma fifo_inv_init: "fifo_inv \<lparr>fs_fifo = fifo_new limit, fs_ph = (\<lambda>_. FIdle)\<rparr>"
  by (simp add: fifo_inv_def fifo.within_empty few_def)

lemma fifo_invE:
  assumes "fifo_inv \<lparr>fs_fifo = f, fs_ph = ph\<rparr>"
  obtains "few ph" "fifo.within f"
    "\<And>t. ph t = FWaitItem \<Longrightarrow> length (fifo_q f) \<le> count_ph is_deq ph"
    "\<And>t x. ph t = FWaitSpace x \<Longrightarrow> fifo_max f \<noteq> 0"
    "\<And>t x. ph t = FWaitSpace x \<Longrightarrow> fifo_max f \<le> length (fifo_q f) + count_ph is_enq ph"
  using assms by (auto simp: fifo_inv_def)

lemma fifo_invI:
  assumes "few ph" "fifo.within f"
    "\<And>t. ph t = FWaitItem \<Longrightarrow> length (fifo_q f) \<le> count_ph is_deq ph"
    "\<And>t x. ph t = FWaitSpace x \<Longrightarrow> fifo_max f \<noteq> 0 \<and> fifo_max f \<le> length (fifo_q f) + count_ph is_enq ph"
  shows "fifo_inv \<lparr>fs_fifo = f, fs_ph = ph\<rparr>"
  using assms by (auto simp: fifo_inv_def)

text \<open>Moves that do not touch the queue: a thread changes its phase from \<open>p\<close> to \<open>v\<close>.\<close>

lemma fifo_inv_move:
  assumes inv: "fifo_inv \<lparr>fs_fifo = f, fs_ph = ph\<rparr>"
    and deq: "ph t = FDeq \<Longrightarrow> fifo_q f = []"
    and enq: "is_enq (ph t) \<Longrightarrow> fifo_max f \<le> length (fifo_q f)"
    and item: "v = FWaitItem \<Longrightarrow> fifo_q f = []"
    and space: "\<And>x. v = FWaitSpace x \<Longrightarrow> fifo_max f \<noteq> 0 \<and> fifo_max f \<le> length (fifo_q f)"
  shows "fifo_inv \<lparr>fs_fifo = f, fs_ph = ph(t := v)\<rparr>"
  using inv
proof (rule fifo_invE)
  assume few: "few ph" and within: "fifo.within f"
    and i: "\<And>t. ph t = FWaitItem \<Longrightarrow> length (fifo_q f) \<le> count_ph is_deq ph"
    and s: "\<And>t x. ph t = FWaitSpace x \<Longrightarrow> fifo_max f \<noteq> 0"
      "\<And>t x. ph t = FWaitSpace x \<Longrightarrow> fifo_max f \<le> length (fifo_q f) + count_ph is_enq ph"
  note cnt = count_deq_upd [OF few, of t v] count_enq_upd [OF few, of t v]
  show ?thesis
  proof (rule fifo_invI)
    show "length (fifo_q f) \<le> count_ph is_deq (ph(t := v))" if "(ph(t := v)) u = FWaitItem" for u
      using that deq item i [of u] cnt(1) by (cases "ph t = FDeq") (auto split: if_splits)
    show "fifo_max f \<noteq> 0 \<and> fifo_max f \<le> length (fifo_q f) + count_ph is_enq (ph(t := v))"
      if "(ph(t := v)) u = FWaitSpace x" for u x
      using that enq space [of x] s [of u x] cnt(2) by (cases "is_enq (ph t)") (auto split: if_splits)
  qed (use few within in simp_all)
qed

lemma fifo_inv_enq_true:
  assumes inv: "fifo_inv \<lparr>fs_fifo = f, fs_ph = ph\<rparr>" and t: "ph t = FEnq x b"
    and enq: "fifo_enq f x b = (Enq_True, f')" and sig: "signal_item (ph(t := FIdle)) ph'"
  shows "fifo_inv \<lparr>fs_fifo = f', fs_ph = ph'\<rparr>"
  using inv
proof (rule fifo_invE)
  assume few: "few ph" and within: "fifo.within f"
    and i: "\<And>t. ph t = FWaitItem \<Longrightarrow> length (fifo_q f) \<le> count_ph is_deq ph"
    and s: "\<And>t x. ph t = FWaitSpace x \<Longrightarrow> fifo_max f \<noteq> 0"
      "\<And>t x. ph t = FWaitSpace x \<Longrightarrow> fifo_max f \<le> length (fifo_q f) + count_ph is_enq ph"
  have f': "length (fifo_q f') = Suc (length (fifo_q f))" "fifo_max f' = fifo_max f" "fifo.within f'"
    using fifo.enq_TrueD [OF enq] fifo.within_enq [OF within enq] by simp_all
  let ?ph = "ph(t := FIdle)"
  have few1: "few ?ph" using few by simp
  have cnt: "count_ph is_deq ?ph = count_ph is_deq ph" "count_ph is_enq ph = Suc (count_ph is_enq ?ph)"
    using count_deq_upd [OF few, of t FIdle] count_enq_upd [OF few, of t FIdle] t by simp_all
  from sig show ?thesis
  proof (cases rule: signal_item_cases)
    case none
    then show ?thesis using few1 f' t cnt s by (intro fifo_invI) (auto split: if_splits)
  next
    case (one u)
    have u: "u \<noteq> t" "ph u = FWaitItem" using one(1) by (auto split: if_splits)
    have cnt1: "count_ph is_deq ph' = Suc (count_ph is_deq ph)" "count_ph is_enq ph = Suc (count_ph is_enq ph')"
      using count_deq_upd [OF few1, of u FDeq] count_enq_upd [OF few1, of u FDeq] one cnt u by simp_all
    show ?thesis using few1 f' t cnt1 one(2) s i [OF u(2)] by (intro fifo_invI) (auto split: if_splits)
  qed
qed

lemma fifo_inv_deq_got:
  assumes inv: "fifo_inv \<lparr>fs_fifo = f, fs_ph = ph\<rparr>" and t: "ph t = FDeq"
    and deq: "fifo_deq f = (Deq_Got x sig, f')"
    and sig: "if sig then signal_space (ph(t := FIdle)) ph' else ph' = ph(t := FIdle)"
  shows "fifo_inv \<lparr>fs_fifo = f', fs_ph = ph'\<rparr>"
  using inv
proof (rule fifo_invE)
  assume few: "few ph" and within: "fifo.within f"
    and i: "\<And>t. ph t = FWaitItem \<Longrightarrow> length (fifo_q f) \<le> count_ph is_deq ph"
    and s: "\<And>t x. ph t = FWaitSpace x \<Longrightarrow> fifo_max f \<noteq> 0"
      "\<And>t x. ph t = FWaitSpace x \<Longrightarrow> fifo_max f \<le> length (fifo_q f) + count_ph is_enq ph"
  have f': "length (fifo_q f) = Suc (length (fifo_q f'))" "fifo_max f' = fifo_max f" "fifo.within f'"
    using fifo.deq_GotD [OF deq] fifo.within_deq [OF within deq] by simp_all
  have sig_iff: "sig \<longleftrightarrow> fifo_max f \<noteq> 0"
    using deq within f' by (auto simp: fifo_deq_def fifo.within_def split: list.splits)
  let ?ph = "ph(t := FIdle)"
  have few1: "few ?ph" using few by simp
  have cnt: "count_ph is_deq ph = Suc (count_ph is_deq ?ph)" "count_ph is_enq ?ph = count_ph is_enq ph"
    using count_deq_upd [OF few, of t FIdle] count_enq_upd [OF few, of t FIdle] t by simp_all
  have i1: "length (fifo_q f') \<le> count_ph is_deq ?ph" if "?ph u = FWaitItem" for u
    using that i [of u] f'(1) cnt(1) by (auto split: if_splits)
  show ?thesis
  proof (cases "\<exists>u y. ?ph u = FWaitSpace y \<and> ph' = ?ph(u := FEnq y True)")
    case False
    then have ph': "ph' = ?ph" and none: "\<And>u y. ?ph u \<noteq> FWaitSpace y"
      using sig s(1) sig_iff by (auto simp: signal_space_def split: if_splits)
    show ?thesis unfolding ph' using few1 f'(3) i1 none by (intro fifo_invI) blast+
  next
    case True
    then obtain u y where u: "?ph u = FWaitSpace y" "ph' = ?ph(u := FEnq y True)" by blast
    have cnt1: "count_ph is_deq ph' = count_ph is_deq ?ph"
        "count_ph is_enq ph' = Suc (count_ph is_enq ph)"
      using count_deq_upd [OF few1, of u "FEnq y True"] count_enq_upd [OF few1, of u "FEnq y True"] u cnt
      by simp_all
    have "ph u = FWaitSpace y" using u(1) by (auto split: if_splits)
    from s [OF this] show ?thesis using few1 f' cnt1 u(2) i1
      by (intro fifo_invI) (auto split: if_splits)
  qed
qed

lemma fifo_step_inv: "fifo_step s e s' \<Longrightarrow> fifo_inv s \<Longrightarrow> fifo_inv s'"
proof (induction rule: fifo_step.induct)
  case (enq_true ph t x b f f' ph')
  show ?case by (rule fifo_inv_enq_true [OF enq_true.prems enq_true.hyps])
next
  case (enq_blocks ph t x b f f')
  then show ?case using fifo.enq_otherD [OF enq_blocks(2)] by (auto intro!: fifo_inv_move)
next
  case (enq_false ph t x b f f')
  then show ?case using fifo.enq_otherD [OF enq_false(2)] by (auto intro!: fifo_inv_move)
next
  case (deq_got ph t f x sig f' ph')
  show ?case by (rule fifo_inv_deq_got [OF deq_got.prems deq_got.hyps])
next
  case (deq_blocks ph t f f')
  then show ?case using fifo.deq_BlocksD [OF deq_blocks(2)] by (auto intro!: fifo_inv_move)
qed (auto intro!: fifo_inv_move)

lemma fifo_run_inv: "fifo_run limit es s \<Longrightarrow> fifo_inv s \<and> fifo_max (fs_fifo s) = limit"
proof (induction rule: fifo_run.induct)
  case start
  show ?case using fifo_inv_init by (simp add: fifo.cap_empty)
next
  case (more es s e s')
  moreover have "fifo_max (fs_fifo s') = fifo_max (fs_fifo s)"
    using more(2) by cases (auto dest: fifo.enq_TrueD fifo.enq_otherD fifo.deq_GotD fifo.deq_BlocksD)
  ultimately show ?case using fifo_step_inv by blast
qed

section \<open>Properties\<close>

fun enqueued :: "'a fevent list \<Rightarrow> 'a list" where
  "enqueued [] = []"
| "enqueued (EvEnq x # es) = x # enqueued es"
| "enqueued (_ # es) = enqueued es"

fun dequeued :: "'a fevent list \<Rightarrow> 'a list" where
  "dequeued [] = []"
| "dequeued (EvDeq x # es) = x # dequeued es"
| "dequeued (_ # es) = dequeued es"

lemma enqueued_append [simp]: "enqueued (es @ fs) = enqueued es @ enqueued fs"
  by (induction es rule: enqueued.induct) auto

lemma dequeued_append [simp]: "dequeued (es @ fs) = dequeued es @ dequeued fs"
  by (induction es rule: dequeued.induct) auto

lemma fifo_run_history: "fifo_run limit es s \<Longrightarrow> enqueued es = dequeued es @ fifo_q (fs_fifo s)"
proof (induction rule: fifo_run.induct)
  case start
  show ?case by (simp add: fifo.list_empty)
next
  case (more es s e s')
  from more(2) have "fifo_q (fs_fifo s) @ enqueued [e] = dequeued [e] @ fifo_q (fs_fifo s')"
    by cases (auto dest: fifo.enq_TrueD fifo.enq_otherD fifo.deq_GotD fifo.deq_BlocksD)
  with more(3) show ?case by simp
qed

lemma count_ph_pos: "0 < count_ph P ph \<Longrightarrow> \<exists>t. P (ph t)"
  by (metis (mono_tags, lifting) Collect_empty_eq card.empty count_ph_def less_irrefl)

text \<open>Two consumers sleep, a producer adds an item and wakes one of them.\<close>

lemma fifo_run_example:
  "fifo_run 2 [EvTau, EvTau, EvTau, EvTau, EvTau, EvEnq (7::nat)]
     \<lparr>fs_fifo = \<lparr>fifo_q = [7], fifo_max = 2\<rparr>,
      fs_ph = (\<lambda>_. FIdle)(1 := FWaitItem, 2 := FWaitItem, 3 := FIdle, 1 := FDeq)\<rparr>"
proof -
  let ?s = "\<lambda>ph. \<lparr>fs_fifo = \<lparr>fifo_q = [] :: nat list, fifo_max = 2\<rparr>, fs_ph = ph\<rparr>"
  let ?p1 = "(\<lambda>_. FIdle)(1 := FWaitItem) :: nat \<Rightarrow> nat fphase"
  let ?p2 = "?p1(2 := FWaitItem)"
  have deq: "fifo_deq \<lparr>fifo_q = [] :: nat list, fifo_max = 2\<rparr> = (Deq_Blocks, \<lparr>fifo_q = [], fifo_max = 2\<rparr>)"
    by (simp add: fifo_deq_def)
  have two: "fifo_run 2 (es @ [EvTau, EvTau]) (?s (ph(t := FWaitItem)))"
    if "fifo_run 2 es (?s ph)" "ph t = FIdle" for es ph t
    using fifo_run.more [OF fifo_run.more [OF that(1) fifo_step.call_deq [of ph t]]
        fifo_step.deq_blocks [of _ t, OF _ deq], OF that(2)]
    by simp
  have "fifo_run 2 [] (?s (\<lambda>_. FIdle))" using fifo_run.start [of 2] by (simp add: fifo_new_def)
  then have "fifo_run 2 [EvTau, EvTau] (?s ?p1)" using two [of "[]" "\<lambda>_. FIdle" 1] by simp
  then have "fifo_run 2 [EvTau, EvTau, EvTau, EvTau] (?s ?p2)"
    using two [of "[EvTau, EvTau]" ?p1 2] by simp
  then have r: "fifo_run 2 [EvTau, EvTau, EvTau, EvTau, EvTau] (?s (?p2(3 := FEnq 7 False)))"
    using fifo_run.more [OF _ fifo_step.call_enq [of ?p2 3 _ 7 False]] by fastforce
  have "fifo_step (?s (?p2(3 := FEnq 7 False))) (EvEnq 7)
     \<lparr>fs_fifo = \<lparr>fifo_q = [7], fifo_max = 2\<rparr>, fs_ph = ?p2(3 := FIdle, 1 := FDeq)\<rparr>"
    by (rule fifo_step.enq_true [of _ 3 7 False])
      (auto simp: fifo_enq_def signal_item_def intro!: exI [of _ 1])
  from fifo_run.more [OF r this] show ?thesis by simp
qed

text \<open>the queue delivers what it accepted, in order and once. In every run of any number of
  threads, with any interleaving and spurious wake-ups, the items returned by \<open>deq\<close> followed
  by the items still queued are exactly the items that \<open>enq\<close> accepted, in their order.\<close>

theorem fifo_in_order:
  assumes "fifo_run limit es s"
  shows "enqueued es = dequeued es @ fifo_q (fs_fifo s)"
  by (rule fifo_run_history [OF assms])

theorem fifo_in_order_witness:
  "enqueued [EvTau, EvTau, EvTau, EvTau, EvTau, EvEnq (7::nat)] = dequeued [EvTau, EvTau, EvTau, EvTau, EvTau, EvEnq 7] @ [7]"
  using fifo_in_order [OF fifo_run_example] by simp

text \<open>the capacity is never exceeded: a queue with limit \<open>limit\<close> (0 is unlimited) holds at
  most that many items, and a non-blocking \<open>enq\<close> is refused only when it is full.\<close>

theorem fifo_bounded:
  assumes "fifo_run limit es s"
  shows "(limit \<noteq> 0 \<longrightarrow> length (fifo_q (fs_fifo s)) \<le> limit) \<and>
         (fst (fifo_enq (fs_fifo s) x False) = Enq_False \<longleftrightarrow>
            limit \<noteq> 0 \<and> length (fifo_q (fs_fifo s)) = limit)"
proof -
  from fifo_run_inv [OF assms] have "fifo.within (fs_fifo s)" "fifo_max (fs_fifo s) = limit"
    by (auto simp: fifo_inv_def)
  then show ?thesis by (auto simp: fifo.within_def fifo_enq_def)
qed

theorem fifo_bounded_witness:
  "length (fifo_q \<lparr>fifo_q = [7::nat], fifo_max = 2\<rparr>) \<le> 2 \<and>
   fst (fifo_enq \<lparr>fifo_q = [7::nat], fifo_max = 2\<rparr> 8 False) \<noteq> Enq_False"
  using fifo_bounded [OF fifo_run_example, of 8] by simp

text \<open>C30: no wake-up is lost. Whenever a consumer sleeps although the queue holds an item, another
  thread is on its way into \<open>deq\<close> and its next pass takes an item; whenever a producer sleeps
  although there is room, another is on its way into \<open>enq\<close>. So a signal sent to one of the two
  condition variables is never absorbed without effect.\<close>

theorem fifo_no_lost_wakeup:
  assumes "fifo_run limit es s"
  shows "(fs_ph s t = FWaitItem \<and> fifo_q (fs_fifo s) \<noteq> [] \<longrightarrow>
            (\<exists>u x s'. fs_ph s u = FDeq \<and> fifo_step s (EvDeq x) s')) \<and>
         (fs_ph s t = FWaitSpace x \<and> length (fifo_q (fs_fifo s)) < limit \<longrightarrow>
            (\<exists>u y b. fs_ph s u = FEnq y b))"
proof -
  obtain f ph where s: "s = \<lparr>fs_fifo = f, fs_ph = ph\<rparr>" by (cases s)
  from fifo_run_inv [OF assms] have inv: "fifo_inv s" and lim: "fifo_max f = limit"
    by (simp_all add: s)
  have "\<exists>u x s'. ph u = FDeq \<and> fifo_step s (EvDeq x) s'" if wait: "ph t = FWaitItem" and q0: "fifo_q f \<noteq> []"
  proof -
    have "length (fifo_q f) \<le> count_ph is_deq ph" using inv wait by (auto simp: fifo_inv_def s)
    then obtain u where u: "ph u = FDeq" using q0 count_ph_pos [of is_deq ph] by fastforce
    obtain y ys where q: "fifo_q f = y # ys" using q0 by (cases "fifo_q f") auto
    then obtain sig f' where d: "fifo_deq f = (Deq_Got y sig, f')"
      using fifo.deq_Cons [OF q] by blast
    have "\<exists>ph'. if sig then signal_space (ph(u := FIdle)) ph' else ph' = ph(u := FIdle)"
      using signal_space_total [of "ph(u := FIdle)"] by (cases sig) simp_all
    then show ?thesis using fifo_step.deq_got [of ph u, OF u d] u unfolding s by blast
  qed
  moreover have "\<exists>u y b. ph u = FEnq y b" if wait: "ph t = FWaitSpace x" and room: "length (fifo_q f) < limit"
  proof -
    have "limit \<le> length (fifo_q f) + count_ph is_enq ph"
      using inv wait lim by (auto simp: fifo_inv_def s)
    then obtain u where "is_enq (ph u)" using room count_ph_pos [of is_enq ph] by fastforce
    then show ?thesis by (cases "ph u") auto
  qed
  ultimately show ?thesis by (simp add: s)
qed

theorem fifo_no_lost_wakeup_witness:
  "\<exists>x s'. fifo_step \<lparr>fs_fifo = \<lparr>fifo_q = [7::nat], fifo_max = 2\<rparr>,
      fs_ph = (\<lambda>_. FIdle)(1 := FWaitItem, 2 := FWaitItem, 3 := FIdle, 1 := FDeq)\<rparr> (EvDeq x) s'"
  using fifo_no_lost_wakeup [OF fifo_run_example, of 2] by auto

end
