(* ===== verification/Thr_Pool.thy ===== *)
theory Thr_Pool
  imports Fifo
begin

text \<open>
  The thread pool of \<^verbatim>\<open>rpc/thr_pool.h\<close> and \<^verbatim>\<open>rpc/thr_pool.cc\<close>, on top of the queue.

  A \<open>job_t\<close> is a function pointer with its argument: \<open>Some j\<close>, or \<open>None\<close> for the null
  function pointer, the poison pill that tells a worker to exit.  A worker is waiting in
  \<open>takeJob\<close>, running a job, or has exited.  \<open>pl_pills\<close> is the loop counter of the
  destructor.  The steps are those of the callers (\<open>addJob\<close>), of the workers
  (\<open>do_worker\<close>) and of the destructor; the destructor's contract (no thread uses the pool
  any more) is that no job is added once it has started.
\<close>

section \<open>Definitions\<close>

datatype 'j worker = Waiting | Running 'j | Exited

record 'j pool =
  pl_nthreads :: nat
  pl_blockadd :: bool
  pl_jobq :: "'j option fifo"
  pl_th :: "'j worker list"
  pl_dying :: bool
  pl_pills :: nat

definition thrpool_new :: "nat \<Rightarrow> bool \<Rightarrow> 'j pool" where
  "thrpool_new sz blocking =
     \<lparr>pl_nthreads = sz, pl_blockadd = blocking, pl_jobq = fifo_new (100 * sz),
      pl_th = replicate sz Waiting, pl_dying = False, pl_pills = 0\<rparr>"

definition addJob :: "'j pool \<Rightarrow> 'j \<Rightarrow> enq_outcome \<times> 'j pool" where
  "addJob p j =
     (case fifo_enq (pl_jobq p) (Some j) (pl_blockadd p) of (r, q) \<Rightarrow> (r, p\<lparr>pl_jobq := q\<rparr>))"

text \<open>\<open>takeJob\<close>: one pass of \<open>deq\<close>; the result is the job, and whether its function is not null.\<close>

definition takeJob :: "'j pool \<Rightarrow> ('j option \<times> bool \<times> 'j pool) option" where
  "takeJob p =
     (case fifo_deq (pl_jobq p) of
        (Deq_Got j sig, q) \<Rightarrow> Some (j, j \<noteq> None, p\<lparr>pl_jobq := q\<rparr>)
      | (Deq_Blocks, q) \<Rightarrow> None)"

text \<open>A pass of the loop of \<open>do_worker\<close> for worker \<open>i\<close>: take a job and run it, or exit on a pill.\<close>

definition do_worker :: "'j pool \<Rightarrow> nat \<Rightarrow> 'j pool option" where
  "do_worker p i =
     (case takeJob p of
        None \<Rightarrow> None
      | Some (j, ok, p') \<Rightarrow>
          Some (p'\<lparr>pl_th := (pl_th p')[i := (case j of None \<Rightarrow> Exited | Some x \<Rightarrow> Running x)]\<rparr>))"

text \<open>A pass of the first loop of the destructor: a blocking \<open>enq\<close> of a pill.\<close>

definition thrpool_pill :: "'j pool \<Rightarrow> 'j pool option" where
  "thrpool_pill p =
     (if pl_pills p < pl_nthreads p then
        (case fifo_enq (pl_jobq p) None True of
           (Enq_True, q) \<Rightarrow> Some (p\<lparr>pl_jobq := q, pl_pills := Suc (pl_pills p)\<rparr>)
         | _ \<Rightarrow> None)
      else None)"

datatype 'j pevent = Accept 'j | Refuse 'j | Take 'j | Finish 'j | Internal

inductive pool_step :: "'j pool \<Rightarrow> 'j pevent \<Rightarrow> 'j pool \<Rightarrow> bool" where
  accept: "\<not> pl_dying p \<Longrightarrow> addJob p j = (Enq_True, p') \<Longrightarrow> pool_step p (Accept j) p'"
| refuse: "\<not> pl_dying p \<Longrightarrow> addJob p j = (Enq_False, p') \<Longrightarrow> pool_step p (Refuse j) p'"
| work: "i < length (pl_th p) \<Longrightarrow> pl_th p ! i = Waiting \<Longrightarrow> do_worker p i = Some p' \<Longrightarrow>
     pool_step p (case pl_th p' ! i of Running j \<Rightarrow> Take j | _ \<Rightarrow> Internal) p'"
| finish: "i < length (pl_th p) \<Longrightarrow> pl_th p ! i = Running j \<Longrightarrow>
     pool_step p (Finish j) (p\<lparr>pl_th := (pl_th p)[i := Waiting]\<rparr>)"
| destroy: "\<not> pl_dying p \<Longrightarrow> pool_step p Internal (p\<lparr>pl_dying := True\<rparr>)"
| pill: "pl_dying p \<Longrightarrow> thrpool_pill p = Some p' \<Longrightarrow> pool_step p Internal p'"

inductive pool_run :: "nat \<Rightarrow> bool \<Rightarrow> 'j pevent list \<Rightarrow> 'j pool \<Rightarrow> bool" for sz blocking where
  start: "pool_run sz blocking [] (thrpool_new sz blocking)"
| more: "pool_run sz blocking es p \<Longrightarrow> pool_step p e p' \<Longrightarrow> pool_run sz blocking (es @ [e]) p'"

text \<open>The destructor has joined every worker.\<close>

definition thrpool_joined :: "'j pool \<Rightarrow> bool" where
  "thrpool_joined p \<longleftrightarrow> pl_dying p \<and> pl_pills p = pl_nthreads p \<and> (\<forall>w \<in> set (pl_th p). w = Exited)"

section \<open>Invariant\<close>

definition running :: "'j pool \<Rightarrow> nat" where
  "running p = length (filter (\<lambda>w. w \<noteq> Waiting \<and> w \<noteq> Exited) (pl_th p))"

definition exited :: "'j pool \<Rightarrow> nat" where
  "exited p = length (filter (\<lambda>w. w = Exited) (pl_th p))"

text \<open>
  The queue holds jobs and behind them the pills not yet swallowed; every pill sent is
  queued or has ended a worker; and no job is left once a worker has exited.
\<close>

definition pool_inv :: "'j pool \<Rightarrow> bool" where
  "pool_inv p \<longleftrightarrow>
     (\<exists>js k. fifo_q (pl_jobq p) = map Some js @ replicate k None \<and> k + exited p = pl_pills p \<and>
        (0 < exited p \<longrightarrow> js = [])) \<and>
     (\<not> pl_dying p \<longrightarrow> pl_pills p = 0) \<and> pl_pills p \<le> pl_nthreads p \<and>
     length (pl_th p) = pl_nthreads p \<and> fifo.within (pl_jobq p) \<and>
     fifo_max (pl_jobq p) = 100 * pl_nthreads p"

lemma pool_invE:
  assumes "pool_inv p"
  obtains js k where "fifo_q (pl_jobq p) = map Some js @ replicate k None" "k + exited p = pl_pills p"
    "0 < exited p \<longrightarrow> js = []"
  using assms that unfolding pool_inv_def by (elim conjE exE) simp

lemma length_filter_update:
  "i < length xs \<Longrightarrow>
   length (filter P (xs[i := v])) + of_bool (P (xs ! i)) = length (filter P xs) + of_bool (P v)"
proof (induction xs arbitrary: i)
  case (Cons x xs)
  then show ?case by (cases i) auto
qed simp

lemma exited_update:
  "i < length (pl_th p) \<Longrightarrow> pl_th p ! i = w \<Longrightarrow>
   exited (p\<lparr>pl_th := (pl_th p)[i := v]\<rparr>) + of_bool (w = Exited) = exited p + of_bool (v = Exited)"
  unfolding exited_def using length_filter_update [of i "pl_th p" "\<lambda>w. w = Exited" v] by simp

lemma running_update:
  "i < length (pl_th p) \<Longrightarrow> pl_th p ! i = w \<Longrightarrow>
   running (p\<lparr>pl_th := (pl_th p)[i := v]\<rparr>) + of_bool (w \<noteq> Waiting \<and> w \<noteq> Exited) =
   running p + of_bool (v \<noteq> Waiting \<and> v \<noteq> Exited)"
  unfolding running_def
  using length_filter_update [of i "pl_th p" "\<lambda>w. w \<noteq> Waiting \<and> w \<noteq> Exited" v] by simp

lemma pool_inv_new: "pool_inv (thrpool_new sz blocking)"
  by (auto simp: pool_inv_def thrpool_new_def fifo.list_empty fifo.cap_empty fifo.within_empty exited_def)

lemma do_worker_cases:
  assumes "do_worker p i = Some p'"
  obtains j q' where "fifo_q (pl_jobq p) = j # fifo_q q'" "fifo_max q' = fifo_max (pl_jobq p)"
    "fifo.within (pl_jobq p) \<Longrightarrow> fifo.within q'"
    "p' = p\<lparr>pl_jobq := q', pl_th := (pl_th p)[i := (case j of None \<Rightarrow> Exited | Some x \<Rightarrow> Running x)]\<rparr>"
proof -
  from assms obtain j sig q' where d: "fifo_deq (pl_jobq p) = (Deq_Got j sig, q')"
    and p': "p' = p\<lparr>pl_jobq := q', pl_th := (pl_th p)[i := (case j of None \<Rightarrow> Exited | Some x \<Rightarrow> Running x)]\<rparr>"
    by (auto simp: do_worker_def takeJob_def split: prod.splits deq_outcome.splits)
  then show ?thesis using that [OF _ _ _ p'] fifo.deq_GotD [OF d] fifo.within_deq [OF _ d] by blast
qed

lemma exited_jobq [simp]: "exited (p\<lparr>pl_jobq := q\<rparr>) = exited p"
  by (simp add: exited_def)

lemma running_jobq [simp]: "running (p\<lparr>pl_jobq := q\<rparr>) = running p"
  by (simp add: running_def)

lemma pool_inv_add:
  assumes inv: "pool_inv p" and live: "\<not> pl_dying p" and add: "addJob p j = (Enq_True, p')"
  shows "pool_inv p'"
proof -
  from add obtain q where enq: "fifo_enq (pl_jobq p) (Some j) (pl_blockadd p) = (Enq_True, q)"
    and p': "p' = p\<lparr>pl_jobq := q\<rparr>"
    by (auto simp: addJob_def split: prod.splits)
  have q: "fifo_q q = fifo_q (pl_jobq p) @ [Some j]" "fifo_max q = fifo_max (pl_jobq p)"
    using fifo.enq_TrueD [OF enq] by simp_all
  have within: "fifo.within (pl_jobq p)" using inv by (simp add: pool_inv_def)
  obtain js k where js: "fifo_q (pl_jobq p) = map Some js @ replicate k None"
      "k + exited p = pl_pills p" "0 < exited p \<longrightarrow> js = []"
    using inv by (rule pool_invE)
  have z: "k = 0" "exited p = 0" using inv live js(2) by (auto simp: pool_inv_def)
  then have "fifo_q q = map Some (js @ [j]) @ replicate 0 None" using js(1) q(1) by simp
  moreover have "fifo.within q" using within enq by (rule fifo.within_enq)
  ultimately show ?thesis using inv q(2) z js(2) unfolding pool_inv_def p'
    by (intro conjI exI [of _ "js @ [j]"] exI [of _ 0]) simp_all
qed

lemma pool_inv_work:
  assumes inv: "pool_inv p" and i: "i < length (pl_th p)" "pl_th p ! i = Waiting"
    and work: "do_worker p i = Some p'"
  shows "pool_inv p'"
  using work
proof (rule do_worker_cases)
  fix j q'
  assume q': "fifo_q (pl_jobq p) = j # fifo_q q'" "fifo_max q' = fifo_max (pl_jobq p)"
    "fifo.within (pl_jobq p) \<Longrightarrow> fifo.within q'"
    and p': "p' = p\<lparr>pl_jobq := q', pl_th := (pl_th p)[i := (case j of None \<Rightarrow> Exited | Some x \<Rightarrow> Running x)]\<rparr>"
  obtain js k where js: "fifo_q (pl_jobq p) = map Some js @ replicate k None"
      "k + exited p = pl_pills p" "0 < exited p \<longrightarrow> js = []"
    using inv by (rule pool_invE)
  have ex: "exited p' = exited p + of_bool (j = None)"
    using exited_update [of i "p\<lparr>pl_jobq := q'\<rparr>" Waiting] i by (cases j) (auto simp: p')
  have rest: "(\<not> pl_dying p' \<longrightarrow> pl_pills p' = 0) \<and> pl_pills p' \<le> pl_nthreads p' \<and>
     length (pl_th p') = pl_nthreads p' \<and> fifo.within (pl_jobq p') \<and>
     fifo_max (pl_jobq p') = 100 * pl_nthreads p'" and pills: "pl_pills p' = pl_pills p"
    using inv q' by (auto simp: pool_inv_def p')
  have "\<exists>js k. fifo_q (pl_jobq p') = map Some js @ replicate k None \<and> k + exited p' = pl_pills p' \<and>
      (0 < exited p' \<longrightarrow> js = [])"
  proof (cases js)
    case Nil
    then obtain m where "k = Suc m" "j = None" "fifo_q q' = replicate m None"
      using js(1) q'(1) by (cases k) auto
    then show ?thesis using ex js(2) pills by (intro exI [of _ "[]"] exI [of _ m]) (simp add: p')
  next
    case (Cons x xs)
    then have "j = Some x" "fifo_q q' = map Some xs @ replicate k None" using js(1) q'(1) by auto
    then show ?thesis using ex js(2,3) pills Cons
      by (intro exI [of _ xs] exI [of _ k]) (simp add: p')
  qed
  with rest show ?thesis unfolding pool_inv_def by blast
qed

lemma pool_inv_pill:
  assumes inv: "pool_inv p" and dying: "pl_dying p" and pill: "thrpool_pill p = Some p'"
  shows "pool_inv p'"
proof -
  from pill obtain q where enq: "fifo_enq (pl_jobq p) None True = (Enq_True, q)"
    and lt: "pl_pills p < pl_nthreads p"
    and p': "p' = p\<lparr>pl_jobq := q, pl_pills := Suc (pl_pills p)\<rparr>"
    by (auto simp: thrpool_pill_def split: if_splits prod.splits enq_outcome.splits)
  have q: "fifo_q q = fifo_q (pl_jobq p) @ [None]" "fifo_max q = fifo_max (pl_jobq p)"
    using fifo.enq_TrueD [OF enq] by simp_all
  have within: "fifo.within (pl_jobq p)" using inv by (simp add: pool_inv_def)
  obtain js k where js: "fifo_q (pl_jobq p) = map Some js @ replicate k None"
      "k + exited p = pl_pills p" "0 < exited p \<longrightarrow> js = []"
    using inv by (rule pool_invE)
  have "fifo_q q = map Some js @ replicate (Suc k) None"
    using js(1) q(1) by (simp add: replicate_append_same)
  moreover have "fifo.within q" using within enq by (rule fifo.within_enq)
  moreover have "exited p' = exited p" by (simp add: p' exited_def)
  ultimately show ?thesis using inv q(2) js(2,3) lt dying unfolding pool_inv_def
    by (intro conjI exI [of _ js] exI [of _ "Suc k"]) (simp_all add: p')
qed

lemma pool_step_inv: "pool_step p e p' \<Longrightarrow> pool_inv p \<Longrightarrow> pool_inv p'"
proof (induction rule: pool_step.induct)
  case (accept p j p')
  then show ?case by (blast intro: pool_inv_add)
next
  case (refuse p j p')
  then have "p' = p" by (auto simp: addJob_def dest: fifo.enq_otherD split: prod.splits)
  with refuse show ?case by simp
next
  case (work i p p')
  then show ?case by (blast intro: pool_inv_work)
next
  case (finish i p j)
  have "exited (p\<lparr>pl_th := (pl_th p)[i := Waiting]\<rparr>) = exited p"
    using exited_update [OF finish(1,2), of Waiting] by simp
  with finish show ?case by (simp add: pool_inv_def)
next
  case (destroy p)
  have "exited (p\<lparr>pl_dying := True\<rparr>) = exited p" by (simp add: exited_def)
  with destroy show ?case by (auto simp: pool_inv_def)
next
  case (pill p p')
  then show ?case by (blast intro: pool_inv_pill)
qed

lemma pool_step_nthreads: "pool_step p e p' \<Longrightarrow> pl_nthreads p' = pl_nthreads p"
  by (induction rule: pool_step.induct)
    (auto simp: addJob_def thrpool_pill_def elim!: do_worker_cases
      split: prod.splits if_splits enq_outcome.splits)

lemma pool_run_inv: "pool_run sz blocking es p \<Longrightarrow> pool_inv p \<and> pl_nthreads p = sz"
proof (induction rule: pool_run.induct)
  case start
  show ?case using pool_inv_new by (simp add: thrpool_new_def)
next
  case (more es p e p')
  then show ?case using pool_step_inv pool_step_nthreads by metis
qed

section \<open>Properties\<close>

fun accepted :: "'j pevent list \<Rightarrow> 'j list" where
  "accepted [] = []"
| "accepted (Accept j # es) = j # accepted es"
| "accepted (_ # es) = accepted es"

fun taken :: "'j pevent list \<Rightarrow> 'j list" where
  "taken [] = []"
| "taken (Take j # es) = j # taken es"
| "taken (_ # es) = taken es"

lemma accepted_append [simp]: "accepted (es @ fs) = accepted es @ accepted fs"
  by (induction es rule: accepted.induct) auto

lemma taken_append [simp]: "taken (es @ fs) = taken es @ taken fs"
  by (induction es rule: taken.induct) auto

fun jobs_of :: "'j option list \<Rightarrow> 'j list" where
  "jobs_of [] = []"
| "jobs_of (Some j # q) = j # jobs_of q"
| "jobs_of (None # q) = jobs_of q"

lemma jobs_of_append [simp]: "jobs_of (p @ q) = jobs_of p @ jobs_of q"
  by (induction p rule: jobs_of.induct) auto

abbreviation queued_jobs :: "'j pool \<Rightarrow> 'j list" where
  "queued_jobs p \<equiv> jobs_of (fifo_q (pl_jobq p))"

lemma pool_step_history:
  "pool_step p e p' \<Longrightarrow> queued_jobs p @ accepted [e] = taken [e] @ queued_jobs p'"
proof (induction rule: pool_step.induct)
  case (accept p j p')
  then show ?case
    by (auto simp: addJob_def dest!: fifo.enq_TrueD split: prod.splits)
next
  case (refuse p j p')
  then show ?case by (auto simp: addJob_def dest!: fifo.enq_otherD split: prod.splits)
next
  case (work i p p')
  from work(3) show ?case
    by (rule do_worker_cases) (auto simp: work(1) split: option.splits)
next
  case (pill p p')
  then show ?case
    by (auto simp: thrpool_pill_def dest!: fifo.enq_TrueD
        split: prod.splits if_splits enq_outcome.splits)
qed auto

lemma pool_run_history: "pool_run sz blocking es p \<Longrightarrow> accepted es = taken es @ queued_jobs p"
proof (induction rule: pool_run.induct)
  case start
  show ?case by (simp add: thrpool_new_def fifo.list_empty)
next
  case (more es p e p')
  then show ?case using pool_step_history [OF more(2)] by simp
qed

text \<open>What is left to do once the destructor has started.\<close>

definition work_left :: "'j pool \<Rightarrow> nat" where
  "work_left p = 3 * (pl_nthreads p - pl_pills p) + 2 * length (fifo_q (pl_jobq p)) + running p"

lemma dying_step_decreases:
  assumes "pool_step p e p'" "pl_dying p"
  shows "work_left p' < work_left p \<and> pl_dying p'"
  using assms
proof (induction rule: pool_step.induct)
  case (work i p p')
  from work(3) show ?case
  proof (rule do_worker_cases)
    fix j q'
    assume q': "fifo_q (pl_jobq p) = j # fifo_q q'"
      and p': "p' = p\<lparr>pl_jobq := q', pl_th := (pl_th p)[i := (case j of None \<Rightarrow> Exited | Some x \<Rightarrow> Running x)]\<rparr>"
    have "running p' = running p + of_bool (j \<noteq> None)"
      using running_update [of i "p\<lparr>pl_jobq := q'\<rparr>" Waiting] work(1,2) by (cases j) (auto simp: p')
    then show ?thesis using q' work.prems by (simp add: work_left_def p')
  qed
next
  case (finish i p j)
  then show ?case using running_update [OF finish(1,2), of Waiting] by (simp add: work_left_def)
next
  case (pill p p')
  have "running p' = running p" "length (fifo_q (pl_jobq p')) = Suc (length (fifo_q (pl_jobq p)))"
    "pl_nthreads p' = pl_nthreads p" "pl_pills p' = Suc (pl_pills p)" "pl_pills p < pl_nthreads p" "pl_dying p'"
    using pill by (auto simp: thrpool_pill_def running_def dest!: fifo.enq_TrueD
        split: prod.splits if_splits enq_outcome.splits)
  then show ?case by (simp add: work_left_def)
qed auto


lemma exited_le: "exited p \<le> length (pl_th p)"
  by (simp add: exited_def)

lemma exited_full_iff: "exited p = length (pl_th p) \<longleftrightarrow> (\<forall>w \<in> set (pl_th p). w = Exited)"
proof -
  have "length (filter P xs) = length xs \<longleftrightarrow> (\<forall>x \<in> set xs. P x)" for P :: "'b \<Rightarrow> bool" and xs
    by (metis filter_True length_filter_less less_irrefl)
  then show ?thesis by (simp add: exited_def)
qed

lemma dying_progress:
  assumes inv: "pool_inv p" and dying: "pl_dying p" and not_all: "\<not> (\<forall>w \<in> set (pl_th p). w = Exited)"
  shows "\<exists>e p'. pool_step p e p'"
proof -
  obtain w where "w \<in> set (pl_th p)" "w \<noteq> Exited" using not_all by blast
  then obtain i where i: "i < length (pl_th p)" "pl_th p ! i \<noteq> Exited" by (metis in_set_conv_nth)
  obtain js k where js: "fifo_q (pl_jobq p) = map Some js @ replicate k None"
      "k + exited p = pl_pills p" "0 < exited p \<longrightarrow> js = []"
    using inv by (rule pool_invE)
  show ?thesis
  proof (cases "pl_th p ! i")
    case (Running j)
    then show ?thesis using pool_step.finish [OF i(1)] by blast
  next
    case Waiting
    show ?thesis
    proof (cases "fifo_q (pl_jobq p)")
      case (Cons x xs)
      then obtain p' where "do_worker p i = Some p'"
        by (auto simp: do_worker_def takeJob_def fifo_deq_def)
      then show ?thesis using pool_step.work [OF i(1) Waiting] by blast
    next
      case Nil
      have "exited p < length (pl_th p)"
        using exited_le [of p] exited_full_iff [of p] not_all by (meson le_neq_implies_less)
      then have lt: "pl_pills p < pl_nthreads p" using Nil js inv by (auto simp: pool_inv_def)
      then obtain q where "fifo_enq (pl_jobq p) None True = (Enq_True, q)"
        using fifo.enq_room [of "pl_jobq p" None True] Nil inv by (auto simp: pool_inv_def)
      then have "thrpool_pill p = Some (p\<lparr>pl_jobq := q, pl_pills := Suc (pl_pills p)\<rparr>)"
        using lt by (simp add: thrpool_pill_def)
      then show ?thesis using pool_step.pill [OF dying] by blast
    qed
  qed (use i in simp)
qed

text \<open>A pool of one thread that accepts and runs a job, then is destroyed and joined.\<close>

lemma pool_run_example:
  "pool_run 1 False [Accept (5::nat), Take 5, Finish 5, Internal, Internal, Internal]
     \<lparr>pl_nthreads = 1, pl_blockadd = False, pl_jobq = \<lparr>fifo_q = [], fifo_max = 100\<rparr>,
      pl_th = [Exited], pl_dying = True, pl_pills = 1\<rparr>"
proof -
  let ?p = "\<lambda>q w d n. \<lparr>pl_nthreads = 1, pl_blockadd = False, pl_jobq = \<lparr>fifo_q = q, fifo_max = 100\<rparr>,
      pl_th = [w :: nat worker], pl_dying = d, pl_pills = n\<rparr>"
  have 0: "pool_run 1 False [] (?p [] Waiting False 0)"
    using pool_run.start [of 1 False] by (simp add: thrpool_new_def fifo_new_def)
  have "pool_step (?p [] Waiting False 0) (Accept 5) (?p [Some 5] Waiting False 0)"
    by (rule pool_step.accept) (simp_all add: addJob_def fifo_enq_def)
  note 1 = pool_run.more [OF 0 this]
  have "pool_step (?p [Some 5] Waiting False 0) (Take 5) (?p [] (Running 5) False 0)"
    using pool_step.work [of 0 "?p [Some 5] Waiting False 0" "?p [] (Running 5) False 0"]
    by (simp add: do_worker_def takeJob_def fifo_deq_def)
  note 2 = pool_run.more [OF 1 this]
  have "pool_step (?p [] (Running 5) False 0) (Finish 5) (?p [] Waiting False 0)"
    using pool_step.finish [of 0 "?p [] (Running 5) False 0" 5] by simp
  note 3 = pool_run.more [OF 2 this]
  have "pool_step (?p [] Waiting False 0) Internal (?p [] Waiting True 0)"
    using pool_step.destroy [of "?p [] Waiting False 0"] by simp
  note 4 = pool_run.more [OF 3 this]
  have "pool_step (?p [] Waiting True 0) Internal (?p [None] Waiting True 1)"
    by (rule pool_step.pill) (simp_all add: thrpool_pill_def fifo_enq_def)
  note 5 = pool_run.more [OF 4 this]
  have "pool_step (?p [None] Waiting True 1) Internal (?p [] Exited True 1)"
    using pool_step.work [of 0 "?p [None] Waiting True 1" "?p [] Exited True 1"]
    by (simp add: do_worker_def takeJob_def fifo_deq_def)
  from pool_run.more [OF 5 this] show ?thesis by simp
qed

text \<open>Every accepted job is taken by exactly one worker, in the order of acceptance. In any
  run the jobs taken so far, followed by the jobs still queued, are the jobs that \<open>addJob\<close>
  accepted; and at most a hundred jobs per thread wait in the queue.\<close>

theorem pool_jobs_once_in_order:
  assumes "pool_run sz blocking es p"
  shows "accepted es = taken es @ queued_jobs p \<and> (0 < sz \<longrightarrow> length (queued_jobs p) \<le> 100 * sz)"
proof -
  have "length (jobs_of q) \<le> length q" for q :: "'a option list"
    by (induction q rule: jobs_of.induct) auto
  then have "length (queued_jobs p) \<le> length (fifo_q (pl_jobq p))" .
  moreover have "fifo.within (pl_jobq p)" "fifo_max (pl_jobq p) = 100 * sz"
    using pool_run_inv [OF assms] by (auto simp: pool_inv_def)
  ultimately show ?thesis using pool_run_history [OF assms] by (auto simp: fifo.within_def)
qed

theorem pool_jobs_once_in_order_witness:
  "accepted [Accept (5::nat), Take 5, Finish 5, Internal, Internal, Internal] =
   taken [Accept (5::nat), Take 5, Finish 5, Internal, Internal, Internal]"
  using pool_jobs_once_in_order [OF pool_run_example] by simp

text \<open>Deleting the pool loses no job. When the destructor has joined all its workers, every job
  that was ever accepted has been taken and finished, and the queue is empty.\<close>

theorem pool_destructor_complete:
  assumes "pool_run sz blocking es p" "0 < sz" "thrpool_joined p"
  shows "taken es = accepted es \<and> fifo_q (pl_jobq p) = [] \<and> running p = 0"
proof -
  from pool_run_inv [OF assms(1)] have inv: "pool_inv p" and sz: "pl_nthreads p = sz" by auto
  obtain js k where js: "fifo_q (pl_jobq p) = map Some js @ replicate k None"
      "k + exited p = pl_pills p" "0 < exited p \<longrightarrow> js = []"
    using inv by (rule pool_invE)
  have ex: "exited p = sz"
    using exited_full_iff [of p] assms(3) inv sz by (simp add: thrpool_joined_def pool_inv_def)
  then have "js = []" "k = 0" using js assms(2,3) sz by (auto simp: thrpool_joined_def)
  then have "fifo_q (pl_jobq p) = []" using js(1) by simp
  moreover have "running p = 0"
    using assms(3) by (auto simp: running_def thrpool_joined_def filter_empty_conv)
  ultimately show ?thesis using pool_run_history [OF assms(1)] by simp
qed

theorem pool_destructor_complete_witness:
  "taken [Accept (5::nat), Take 5, Finish 5, Internal, Internal, Internal] = [5]"
  using pool_destructor_complete [OF pool_run_example] by (simp add: thrpool_joined_def)

text \<open>C32: the destructor ends. Once it has started, every step of the pool does part of the
  remaining work, and as long as a worker is alive a step is possible: the poison pills reach
  every worker and the joins return, provided the running jobs return.\<close>

theorem pool_destructor_terminates:
  assumes "pool_run sz blocking es p" "pl_dying p"
  shows "(\<forall>e p'. pool_step p e p' \<longrightarrow> work_left p' < work_left p \<and> pl_dying p') \<and>
         (thrpool_joined p \<or> (\<exists>e p'. pool_step p e p'))"
proof -
  from pool_run_inv [OF assms(1)] have inv: "pool_inv p" and sz: "pl_nthreads p = sz" by auto
  have "thrpool_joined p" if all: "\<forall>w \<in> set (pl_th p). w = Exited"
  proof -
    obtain js k where js: "k + exited p = pl_pills p" using inv by (rule pool_invE)
    have "exited p = pl_nthreads p" using all exited_full_iff [of p] inv by (simp add: pool_inv_def)
    then have "pl_pills p = pl_nthreads p" using js inv by (simp add: pool_inv_def)
    then show ?thesis using all assms(2) by (simp add: thrpool_joined_def)
  qed
  then show ?thesis using dying_step_decreases assms(2) dying_progress [OF inv assms(2)] by blast
qed

theorem pool_destructor_terminates_witness:
  "thrpool_joined \<lparr>pl_nthreads = 1, pl_blockadd = False, pl_jobq = \<lparr>fifo_q = [], fifo_max = 100\<rparr>,
      pl_th = [Exited :: nat worker], pl_dying = True, pl_pills = 1\<rparr> \<or>
   (\<exists>e p'. pool_step \<lparr>pl_nthreads = 1, pl_blockadd = False, pl_jobq = \<lparr>fifo_q = [], fifo_max = 100\<rparr>,
      pl_th = [Exited :: nat worker], pl_dying = True, pl_pills = 1\<rparr> e p')"
  using pool_destructor_terminates [OF pool_run_example] by simp

end
