(* ===== verification/Obj_Job.thy ===== *)
theory Obj_Job
  imports Thr_Pool "HOL-Library.Multiset"
begin

text \<open>
  Method calls as jobs of the pool: \<open>addObjJob\<close> of \<^verbatim>\<open>rpc/thr_pool.h\<close> and the function \<open>func\<close> of its
  \<open>objfunc_wrapper\<close>.

  The job that goes into the pool is the address of a wrapper that holds the object, the method and the argument, one
  value here.  The wrappers are blocks of an explicit heap.  The worker that takes the job calls \<open>func\<close>, which reads
  the wrapper, makes the call and deletes the wrapper.
\<close>

section \<open>Definitions\<close>

record 'w objjobs =
  oj_heap :: "nat \<rightharpoonup> 'w"
  oj_pool :: "nat pool"

definition objjobs_new :: "nat \<Rightarrow> bool \<Rightarrow> 'w objjobs" where
  "objjobs_new sz blocking = \<lparr>oj_heap = Map.empty, oj_pool = thrpool_new sz blocking\<rparr>"

text \<open>\<open>x\<close> is the address that \<open>new\<close> returns.\<close>

definition addObjJob :: "nat \<Rightarrow> 'w \<Rightarrow> 'w objjobs \<Rightarrow> enq_outcome \<times> 'w objjobs" where
  "addObjJob x w s =
     (case addJob (oj_pool s) x of (r, p) \<Rightarrow> (r, \<lparr>oj_heap = (oj_heap s)(x \<mapsto> w), oj_pool = p\<rparr>))"

text \<open>\<open>func\<close>: the call it makes, and the heap it leaves.\<close>

definition objfunc :: "nat \<Rightarrow> (nat \<rightharpoonup> 'w) \<Rightarrow> ('w \<times> (nat \<rightharpoonup> 'w)) result" where
  "objfunc x h = (case h x of None \<Rightarrow> Inl Use_After_Free | Some w \<Rightarrow> Inr (w, h(x := None)))"

datatype 'w oevent = O_Accepted 'w | O_Refused 'w | O_Call 'w | O_Internal

inductive oj_step :: "'w objjobs \<Rightarrow> 'w oevent \<Rightarrow> 'w objjobs \<Rightarrow> bool" where
  accept: "\<not> pl_dying (oj_pool s) \<Longrightarrow> oj_heap s x = None \<Longrightarrow> addObjJob x w s = (Enq_True, s') \<Longrightarrow> oj_step s (O_Accepted w) s'"
| refuse: "\<not> pl_dying (oj_pool s) \<Longrightarrow> oj_heap s x = None \<Longrightarrow> addObjJob x w s = (Enq_False, s') \<Longrightarrow> oj_step s (O_Refused w) s'"
| work: "i < length (pl_th (oj_pool s)) \<Longrightarrow> pl_th (oj_pool s) ! i = Waiting \<Longrightarrow> do_worker (oj_pool s) i = Some p \<Longrightarrow>
     oj_step s O_Internal (s\<lparr>oj_pool := p\<rparr>)"
| call: "i < length (pl_th (oj_pool s)) \<Longrightarrow> pl_th (oj_pool s) ! i = Running x \<Longrightarrow> objfunc x (oj_heap s) = Inr (w, h) \<Longrightarrow>
     oj_step s (O_Call w) (s\<lparr>oj_heap := h, oj_pool := (oj_pool s)\<lparr>pl_th := (pl_th (oj_pool s))[i := Waiting]\<rparr>\<rparr>)"
| destroy: "\<not> pl_dying (oj_pool s) \<Longrightarrow> oj_step s O_Internal (s\<lparr>oj_pool := (oj_pool s)\<lparr>pl_dying := True\<rparr>\<rparr>)"
| pill: "pl_dying (oj_pool s) \<Longrightarrow> thrpool_pill (oj_pool s) = Some p \<Longrightarrow> oj_step s O_Internal (s\<lparr>oj_pool := p\<rparr>)"

inductive oj_run :: "nat \<Rightarrow> bool \<Rightarrow> 'w oevent list \<Rightarrow> 'w objjobs \<Rightarrow> bool" for sz blocking where
  start: "oj_run sz blocking [] (objjobs_new sz blocking)"
| more: "oj_run sz blocking es s \<Longrightarrow> oj_step s e s' \<Longrightarrow> oj_run sz blocking (es @ [e]) s'"

section \<open>The pool below\<close>

text \<open>The steps of the pool with wrapped calls are steps of the pool.\<close>

lemma oj_step_pool: "oj_step s e s' \<Longrightarrow> \<exists>e'. pool_step (oj_pool s) e' (oj_pool s')"
proof (induction rule: oj_step.induct)
  case (accept s x w s')
  then have "addJob (oj_pool s) x = (Enq_True, oj_pool s')" by (auto simp: addObjJob_def split: prod.splits)
  then show ?case using pool_step.accept [OF accept(1)] by blast
next
  case (refuse s x w s')
  then have "addJob (oj_pool s) x = (Enq_False, oj_pool s')" by (auto simp: addObjJob_def split: prod.splits)
  then show ?case using pool_step.refuse [OF refuse(1)] by blast
next
  case (work i s p)
  from pool_step.work [OF this] show ?case by auto
next
  case (call i s x w h)
  from pool_step.finish [OF call(1,2)] show ?case by auto
next
  case (destroy s)
  from pool_step.destroy [OF this] show ?case by auto
next
  case (pill s p)
  from pool_step.pill [OF this] show ?case by auto
qed

lemma oj_run_pool: "oj_run sz blocking es s \<Longrightarrow> \<exists>es'. pool_run sz blocking es' (oj_pool s)"
proof (induction rule: oj_run.induct)
  case start
  show ?case using pool_run.start [of sz blocking] by (auto simp: objjobs_new_def)
next
  case (more es s e s')
  then show ?case using oj_step_pool pool_run.more by blast
qed

section \<open>Which wrappers exist\<close>

fun running_job :: "'j worker \<Rightarrow> 'j multiset" where
  "running_job (Running j) = {#j#}"
| "running_job Waiting = {#}"
| "running_job Exited = {#}"

definition pending :: "'j pool \<Rightarrow> 'j multiset" where
  "pending p = mset (queued_jobs p) + (\<Sum>w\<leftarrow>pl_th p. running_job w)"

lemma running_jobs_update:
  "i < length ws \<Longrightarrow> (\<Sum>w\<leftarrow>ws[i := v]. running_job w) + running_job (ws ! i) = (\<Sum>w\<leftarrow>ws. running_job w) + running_job v"
proof (induction ws arbitrary: i)
  case (Cons w ws)
  then show ?case by (cases i) (auto simp: ac_simps)
qed simp

lemma pending_add: "addJob p x = (Enq_True, p') \<Longrightarrow> pending p' = add_mset x (pending p)"
  by (auto simp: addJob_def pending_def dest!: fifo.enq_TrueD split: prod.splits)

lemma pending_refused: "addJob p x = (Enq_False, p') \<Longrightarrow> p' = p"
  by (auto simp: addJob_def dest!: fifo.enq_otherD split: prod.splits)

lemma pending_work:
  assumes "i < length (pl_th p)" "pl_th p ! i = Waiting" "do_worker p i = Some p'"
  shows "pending p' = pending p"
  using assms(3)
proof (rule do_worker_cases)
  fix j q'
  assume q': "fifo_q (pl_jobq p) = j # fifo_q q'"
    and p': "p' = p\<lparr>pl_jobq := q', pl_th := (pl_th p)[i := (case j of None \<Rightarrow> Exited | Some x \<Rightarrow> Running x)]\<rparr>"
  show ?thesis
    using running_jobs_update [OF assms(1), of "case j of None \<Rightarrow> Exited | Some x \<Rightarrow> Running x"] assms(2) q'
    by (cases j) (simp_all add: pending_def p')
qed

lemma pending_call:
  assumes "i < length (pl_th p)" "pl_th p ! i = Running x"
  shows "pending p = add_mset x (pending (p\<lparr>pl_th := (pl_th p)[i := Waiting]\<rparr>))"
  using running_jobs_update [OF assms(1), of Waiting] assms(2) by (simp add: pending_def)

lemma pending_pill: "thrpool_pill p = Some p' \<Longrightarrow> pending p' = pending p"
  by (auto simp: thrpool_pill_def pending_def dest!: fifo.enq_TrueD split: prod.splits if_splits enq_outcome.splits)

fun calls_accepted :: "'w oevent list \<Rightarrow> 'w multiset" where
  "calls_accepted [] = {#}"
| "calls_accepted (e # es) = (case e of O_Accepted w \<Rightarrow> {#w#} | _ \<Rightarrow> {#}) + calls_accepted es"

fun calls_refused :: "'w oevent list \<Rightarrow> 'w multiset" where
  "calls_refused [] = {#}"
| "calls_refused (e # es) = (case e of O_Refused w \<Rightarrow> {#w#} | _ \<Rightarrow> {#}) + calls_refused es"

fun calls_made :: "'w oevent list \<Rightarrow> 'w multiset" where
  "calls_made [] = {#}"
| "calls_made (e # es) = (case e of O_Call w \<Rightarrow> {#w#} | _ \<Rightarrow> {#}) + calls_made es"

lemma calls_append [simp]:
  "calls_accepted (es @ fs) = calls_accepted es + calls_accepted fs"
  "calls_refused (es @ fs) = calls_refused es + calls_refused fs"
  "calls_made (es @ fs) = calls_made es + calls_made fs"
  by (induction es) (auto split: oevent.splits)

text \<open>
  The heap holds the wrappers of the jobs that are queued or running and the set \<open>L\<close> of those whose job was refused;
  nothing is pending twice.
\<close>

definition wrappers :: "(nat \<rightharpoonup> 'w) \<Rightarrow> nat multiset \<Rightarrow> 'w multiset" where
  "wrappers h js = image_mset (\<lambda>x. the (h x)) js"

definition oj_inv :: "'w oevent list \<Rightarrow> 'w objjobs \<Rightarrow> bool" where
  "oj_inv es s \<longleftrightarrow> (\<exists>L. finite L \<and> dom (oj_heap s) = set_mset (pending (oj_pool s)) \<union> L \<and> set_mset (pending (oj_pool s)) \<inter> L = {}
     \<and> (\<forall>x. count (pending (oj_pool s)) x \<le> 1) \<and> calls_accepted es = calls_made es + wrappers (oj_heap s) (pending (oj_pool s))
     \<and> calls_refused es = wrappers (oj_heap s) (mset_set L))"

lemma wrappers_other: "x \<notin># js \<Longrightarrow> wrappers (h(x := v)) js = wrappers h js"
  unfolding wrappers_def by (rule image_mset_cong) auto

lemma wrappers_add [simp]: "wrappers h (add_mset x js) = add_mset (the (h x)) (wrappers h js)"
  by (simp add: wrappers_def)

lemma wrappers_empty [simp]: "wrappers h {#} = {#}"
  by (simp add: wrappers_def)

lemma oj_inv_same:
  assumes "oj_inv es s" "pending (oj_pool s') = pending (oj_pool s)" "oj_heap s' = oj_heap s"
    "calls_accepted [e] = {#}" "calls_refused [e] = {#}" "calls_made [e] = {#}"
  shows "oj_inv (es @ [e]) s'"
  using assms unfolding oj_inv_def by (simp only: calls_append add_0_right)

lemma oj_step_inv:
  assumes "oj_step s e s'" "oj_inv es s"
  shows "oj_inv (es @ [e]) s'"
  using assms(1)
proof cases
  case (accept x w)
  obtain L where L: "finite L" "dom (oj_heap s) = set_mset (pending (oj_pool s)) \<union> L" "set_mset (pending (oj_pool s)) \<inter> L = {}"
    "\<forall>x. count (pending (oj_pool s)) x \<le> 1" "calls_accepted es = calls_made es + wrappers (oj_heap s) (pending (oj_pool s))"
    "calls_refused es = wrappers (oj_heap s) (mset_set L)" using assms(2) unfolding oj_inv_def by blast
  have s': "oj_heap s' = (oj_heap s)(x \<mapsto> w)" "pending (oj_pool s') = add_mset x (pending (oj_pool s))"
    using accept(4) pending_add by (auto simp: addObjJob_def split: prod.splits)
  have new: "x \<notin># pending (oj_pool s)" "x \<notin> L" using accept(3) L(2) by auto
  then show ?thesis
    unfolding oj_inv_def using L s' accept(1)
    by (intro exI [of _ L]) (auto simp: wrappers_other count_eq_zero_iff)
next
  case (refuse x w)
  obtain L where L: "finite L" "dom (oj_heap s) = set_mset (pending (oj_pool s)) \<union> L" "set_mset (pending (oj_pool s)) \<inter> L = {}"
    "\<forall>x. count (pending (oj_pool s)) x \<le> 1" "calls_accepted es = calls_made es + wrappers (oj_heap s) (pending (oj_pool s))"
    "calls_refused es = wrappers (oj_heap s) (mset_set L)" using assms(2) unfolding oj_inv_def by blast
  have s': "oj_heap s' = (oj_heap s)(x \<mapsto> w)" "oj_pool s' = oj_pool s"
    using refuse(4) pending_refused by (auto simp: addObjJob_def split: prod.splits)
  have new: "x \<notin># pending (oj_pool s)" "x \<notin> L" using refuse(3) L(2) by auto
  then show ?thesis
    unfolding oj_inv_def using L s' refuse(1)
    by (intro exI [of _ "insert x L"]) (auto simp: wrappers_other)
next
  case (work i p)
  show ?thesis by (rule oj_inv_same [OF assms(2)]) (use work pending_work in auto)
next
  case (call i x w h)
  obtain L where L: "finite L" "dom (oj_heap s) = set_mset (pending (oj_pool s)) \<union> L" "set_mset (pending (oj_pool s)) \<inter> L = {}"
    "\<forall>x. count (pending (oj_pool s)) x \<le> 1" "calls_accepted es = calls_made es + wrappers (oj_heap s) (pending (oj_pool s))"
    "calls_refused es = wrappers (oj_heap s) (mset_set L)" using assms(2) unfolding oj_inv_def by blast
  have P: "pending (oj_pool s) = add_mset x (pending (oj_pool s'))" using pending_call [OF call(3,4)] call(2) by simp
  have w: "oj_heap s x = Some w" "oj_heap s' = (oj_heap s)(x := None)" using call(2,5) by (auto simp: objfunc_def split: option.splits)
  have new: "x \<notin># pending (oj_pool s')" "x \<notin> L" using L(3,4) P by (auto simp: not_in_iff dest: spec [of _ x])
  have "count (pending (oj_pool s')) y \<le> 1" for y using L(4) [rule_format, of y] P by (simp split: if_splits)
  moreover have "dom (oj_heap s') = set_mset (pending (oj_pool s')) \<union> L"
    using L(2) w(2) P new by (simp add: insert_Diff_if)
  moreover have "wrappers (oj_heap s') (pending (oj_pool s')) = wrappers (oj_heap s) (pending (oj_pool s'))"
    "wrappers (oj_heap s') (mset_set L) = wrappers (oj_heap s) (mset_set L)"
    by (simp_all add: w(2) wrappers_other new L(1))
  moreover have "calls_accepted (es @ [e]) = calls_made (es @ [e]) + wrappers (oj_heap s) (pending (oj_pool s'))"
    using L(5) P w(1) call(1) by simp
  moreover have "calls_refused (es @ [e]) = wrappers (oj_heap s) (mset_set L)" using L(6) call(1) by simp
  moreover have "set_mset (pending (oj_pool s')) \<inter> L = {}" using L(3) P by auto
  ultimately show ?thesis using L(1) unfolding oj_inv_def by (intro exI [of _ L]) simp
next
  case destroy
  show ?thesis by (rule oj_inv_same [OF assms(2)]) (use destroy in \<open>auto simp: pending_def\<close>)
next
  case (pill p)
  show ?thesis by (rule oj_inv_same [OF assms(2)]) (use pill pending_pill in auto)
qed

lemma oj_run_inv: "oj_run sz blocking es s \<Longrightarrow> oj_inv es s"
proof (induction rule: oj_run.induct)
  case start
  have "(\<Sum>w\<leftarrow>replicate k Waiting. running_job w) = {#}" for k by (induction k) auto
  then have "pending (oj_pool (objjobs_new sz blocking)) = {#}"
    by (simp only: pending_def objjobs_new_def thrpool_new_def pool.simps objjobs.simps fifo.list_empty) simp
  then show ?case
    unfolding oj_inv_def
    by (intro exI [of _ "{}"]) (simp, simp add: objjobs_new_def)
next
  case (more es s e s')
  then show ?case using oj_step_inv by blast
qed

section \<open>Properties\<close>

text \<open>A pool of one thread with one call; then the destructor.\<close>

lemma oj_run_example:
  "oj_run 1 False [O_Accepted (''m'', 5 :: nat), O_Internal, O_Call (''m'', 5), O_Internal, O_Internal, O_Internal]
     \<lparr>oj_heap = Map.empty, oj_pool = \<lparr>pl_nthreads = 1, pl_blockadd = False, pl_jobq = \<lparr>fifo_q = [], fifo_max = 100\<rparr>,
      pl_th = [Exited], pl_dying = True, pl_pills = 1\<rparr>\<rparr>"
proof -
  let ?s = "\<lambda>h q w d n. \<lparr>oj_heap = h, oj_pool = \<lparr>pl_nthreads = 1, pl_blockadd = False, pl_jobq = \<lparr>fifo_q = q, fifo_max = 100\<rparr>,
      pl_th = [w :: nat worker], pl_dying = d, pl_pills = n\<rparr>\<rparr>"
  let ?w = "(''m'', 5 :: nat)"
  have 0: "oj_run 1 False [] (?s Map.empty [] Waiting False 0)"
    using oj_run.start [of 1 False] by (simp add: objjobs_new_def thrpool_new_def fifo_new_def)
  have "oj_step (?s Map.empty [] Waiting False 0) (O_Accepted ?w) (?s [7 \<mapsto> ?w] [Some 7] Waiting False 0)"
    by (rule oj_step.accept [where x = 7]) (simp_all add: addObjJob_def addJob_def fifo_enq_def)
  note 1 = oj_run.more [OF 0 this]
  have "oj_step (?s [7 \<mapsto> ?w] [Some 7] Waiting False 0) O_Internal (?s [7 \<mapsto> ?w] [] (Running 7) False 0)"
    using oj_step.work [of 0 "?s [7 \<mapsto> ?w] [Some 7] Waiting False 0"] by (simp add: do_worker_def takeJob_def fifo_deq_def)
  note 2 = oj_run.more [OF 1 this]
  have "oj_step (?s [7 \<mapsto> ?w] [] (Running 7) False 0) (O_Call ?w) (?s Map.empty [] Waiting False 0)"
    using oj_step.call [of 0 "?s [7 \<mapsto> ?w] [] (Running 7) False 0" 7 ?w Map.empty] by (simp add: objfunc_def)
  note 3 = oj_run.more [OF 2 this]
  have "oj_step (?s Map.empty [] Waiting False 0) O_Internal (?s Map.empty [] Waiting True 0)"
    using oj_step.destroy [of "?s Map.empty [] Waiting False 0"] by simp
  note 4 = oj_run.more [OF 3 this]
  have "oj_step (?s Map.empty [] Waiting True 0) O_Internal (?s Map.empty [None] Waiting True 1)"
    using oj_step.pill [of "?s Map.empty [] Waiting True 0"] by (simp add: thrpool_pill_def fifo_enq_def)
  note 5 = oj_run.more [OF 4 this]
  have "oj_step (?s Map.empty [None] Waiting True 1) O_Internal (?s Map.empty [] Exited True 1)"
    using oj_step.work [of 0 "?s Map.empty [None] Waiting True 1"] by (simp add: do_worker_def takeJob_def fifo_deq_def)
  from oj_run.more [OF 5 this] show ?thesis by simp
qed

text \<open>
  C31: a call that \<open>addObjJob\<close> accepts is made exactly once, with its own object, method and argument.  In every run no worker
  reads a wrapper that has been deleted, and the calls made are among the calls accepted; when the destructor of the pool
  has joined the workers all accepted calls have been made.  The wrapper of a call that was refused is never
  deleted: the wrappers that are left at the end are exactly those.
\<close>

theorem objjobs_called_once:
  assumes "oj_run sz blocking es s" "0 < sz"
  shows "(\<forall>x. Running x \<in> set (pl_th (oj_pool s)) \<longrightarrow> (\<exists>w h. objfunc x (oj_heap s) = Inr (w, h)))
    \<and> calls_made es \<subseteq># calls_accepted es
    \<and> (thrpool_joined (oj_pool s) \<longrightarrow> calls_made es = calls_accepted es \<and> wrappers (oj_heap s) (mset_set (dom (oj_heap s))) = calls_refused es)"
proof -
  obtain L where L: "finite L" "dom (oj_heap s) = set_mset (pending (oj_pool s)) \<union> L" "set_mset (pending (oj_pool s)) \<inter> L = {}"
    "calls_accepted es = calls_made es + wrappers (oj_heap s) (pending (oj_pool s))"
    "calls_refused es = wrappers (oj_heap s) (mset_set L)" using oj_run_inv [OF assms(1)] unfolding oj_inv_def by blast
  obtain es' where run: "pool_run sz blocking es' (oj_pool s)" using oj_run_pool [OF assms(1)] by blast
  have "x \<in># pending (oj_pool s)" if run_x: "Running x \<in> set (pl_th (oj_pool s))" for x
  proof -
    obtain i where "i < length (pl_th (oj_pool s))" "pl_th (oj_pool s) ! i = Running x" using run_x unfolding in_set_conv_nth by blast
    from pending_call [OF this] show ?thesis by simp
  qed
  then have "x \<in> dom (oj_heap s)" if "Running x \<in> set (pl_th (oj_pool s))" for x using L(2) that by simp
  then have "\<exists>w h. objfunc x (oj_heap s) = Inr (w, h)" if "Running x \<in> set (pl_th (oj_pool s))" for x
    using that by (auto simp: objfunc_def split: option.split)
  moreover have "pending (oj_pool s) = {#}" if joined: "thrpool_joined (oj_pool s)"
  proof -
    have "fifo_q (pl_jobq (oj_pool s)) = []" using pool_destructor_complete [OF run assms(2) joined] by simp
    moreover have "\<forall>w\<in>set ws. w = Exited \<Longrightarrow> (\<Sum>w\<leftarrow>ws. running_job w) = {#}" for ws :: "nat worker list" by (induction ws) auto
    ultimately show ?thesis using joined by (simp add: pending_def thrpool_joined_def)
  qed
  ultimately show ?thesis using L(2,4,5) by auto
qed

theorem objjobs_called_once_witness:
  "calls_made [O_Accepted (''m'', 5 :: nat), O_Internal, O_Call (''m'', 5), O_Internal, O_Internal, O_Internal]
   = calls_accepted [O_Accepted (''m'', 5 :: nat), O_Internal, O_Call (''m'', 5), O_Internal, O_Internal, O_Internal]"
  using objjobs_called_once [OF oj_run_example] by (simp add: thrpool_joined_def)

end
