(* ===== verification/Clock.thy ===== *)
theory Clock
  imports Timespec
begin

text \<open>
  The replacement of \<open>clock_gettime\<close> in \<^verbatim>\<open>gettime.cc\<close>, compiled where the system has none.

  The calls of the Mach kernel are parameters: the clock services and their times, the absolute time before and after
  the call that is measured, and the time base.  The conversion to seconds goes through \<open>double\<close>: a value is a
  mantissa of 53 bits with an exponent, and each operation rounds its exact result to the nearest such value, to the even
  one in a tie.  The values here stay far from the ends of the range of exponents.
\<close>

section \<open>Double precision\<close>

type_synonym dbl = "int \<times> int"

text \<open>How many bits a mantissa has too many.\<close>

fun excess :: "nat \<Rightarrow> nat" where
  "excess m = (if m < 2 ^ 53 then 0 else Suc (excess (m div 2)))"

declare excess.simps [simp del]

definition round_nat :: "nat \<Rightarrow> nat \<Rightarrow> nat" where
  "round_nat k m =
     (let q = m div 2 ^ k; r = m mod 2 ^ k
      in if 2 * r > 2 ^ k \<or> (2 * r = 2 ^ k \<and> odd q) then q + 1 else q)"

definition dbl_round :: "int \<Rightarrow> int \<Rightarrow> dbl" where
  "dbl_round m e = (let k = excess (nat \<bar>m\<bar>) in (sgn m * int (round_nat k (nat \<bar>m\<bar>)), e + int k))"

definition dbl_of :: "int \<Rightarrow> dbl" where
  "dbl_of n = dbl_round n 0"

definition dbl_mult :: "dbl \<Rightarrow> dbl \<Rightarrow> dbl" where
  "dbl_mult a b = dbl_round (fst a * fst b) (snd a + snd b)"

definition dbl_minus :: "dbl \<Rightarrow> dbl \<Rightarrow> dbl" where
  "dbl_minus a b = (let e = min (snd a) (snd b) in dbl_round (fst a * 2 ^ nat (snd a - e) - fst b * 2 ^ nat (snd b - e)) e)"

text \<open>The conversion to an integer type rounds towards zero.\<close>

definition dbl_trunc :: "dbl \<Rightarrow> int" where
  "dbl_trunc a = (if snd a \<ge> 0 then fst a * 2 ^ nat (snd a) else fst a sdiv 2 ^ nat (- snd a))"

text \<open>The constants \<open>1e-9\<close> and \<open>1e9\<close>: the second is exact, the first the nearest double.\<close>

definition dbl_1em9 :: dbl where "dbl_1em9 = (4835703278458517, - 82)"
definition dbl_1e9 :: dbl where "dbl_1e9 = (1000000000, 0)"

section \<open>\<open>clock_gettime\<close>\<close>

definition CLOCK_REALTIME :: int where "CLOCK_REALTIME = 0"
definition CLOCK_MONOTONIC :: int where "CLOCK_MONOTONIC = 1"
definition CLOCK_PROCESS_CPUTIME_ID :: int where "CLOCK_PROCESS_CPUTIME_ID = 2"
definition CLOCK_THREAD_CPUTIME_ID :: int where "CLOCK_THREAD_CPUTIME_ID = 3"
definition EINVAL :: int where "EINVAL = 22"

datatype mach_clock = CALENDAR_CLOCK | SYSTEM_CLOCK

record 'c mach =
  mc_service :: "mach_clock \<Rightarrow> 'c option"
  mc_time :: "'c \<Rightarrow> (u32 \<times> i32) option"
  mc_start :: u64
  mc_end :: u64
  mc_timebase :: "u32 \<times> u32"

text \<open>The result, \<open>errno\<close> when it is set, the static time base (numerator and denominator) and \<open>*tp\<close>.\<close>

definition clock_gettime :: "'c mach \<Rightarrow> int \<Rightarrow> u32 \<times> u32 \<Rightarrow> timespec \<Rightarrow> (int \<times> int option \<times> (u32 \<times> u32) \<times> timespec) result" where
  "clock_gettime mc clk_id tb tp =
     (if clk_id = CLOCK_REALTIME \<or> clk_id = CLOCK_MONOTONIC then
        (case mc_service mc (if clk_id = CLOCK_REALTIME then CALENDAR_CLOCK else SYSTEM_CLOCK) of
           None \<Rightarrow> Inr (- 1, Some EINVAL, tb, tp)
         | Some clk \<Rightarrow>
             (case mc_time mc clk of
                None \<Rightarrow> Inr (- 1, Some EINVAL, tb, tp)
              | Some (sec, nsec) \<Rightarrow> Inr (0, None, tb, Timespec (uint sec) (sint nsec))))
      else if clk_id = CLOCK_PROCESS_CPUTIME_ID \<or> clk_id = CLOCK_THREAD_CPUTIME_ID then
        (let delta = mc_end mc - mc_start mc;
             tb = (if snd tb = 0 then mc_timebase mc else tb)
         in if snd tb = 0 then Inl Division_By_Zero
            else let nano = delta * ucast (fst tb) div ucast (snd tb);
                     sec = dbl_trunc (dbl_mult (dbl_of (uint nano)) dbl_1em9);
                     nsec = dbl_trunc (dbl_minus (dbl_of (uint nano)) (dbl_mult (dbl_of sec) dbl_1e9))
                 in Inr (0, None, tb, Timespec sec nsec))
      else Inr (- 1, Some EINVAL, tb, tp))"

section \<open>Rounding\<close>

lemma excess_small [simp]: "m < 2 ^ 53 \<Longrightarrow> excess m = 0"
  by (subst excess.simps) simp

lemma excess_bound: "m < 2 ^ (53 + k) \<Longrightarrow> excess m \<le> k"
proof (induction k arbitrary: m)
  case (Suc k)
  show ?case
  proof (cases "m < 2 ^ 53")
    case False
    have "m < 2 ^ (53 + k) * 2" using Suc.prems by (simp only: add_Suc_right power_Suc2)
    then have "m div 2 < 2 ^ (53 + k)" by (rule less_mult_imp_div_less)
    then show ?thesis using Suc.IH [of "m div 2"] False by (subst excess.simps) simp
  qed simp
qed simp

lemma round_exact [simp]: "round_nat 0 m = m"
  by (simp add: round_nat_def)

lemma round_nat_bounds: "m div 2 ^ k \<le> round_nat k m" "round_nat k m \<le> m div 2 ^ k + 1"
  by (simp_all add: round_nat_def Let_def)

lemma dbl_round_exact: "\<bar>m\<bar> < 2 ^ 53 \<Longrightarrow> dbl_round m e = (m, e)"
  by (simp add: dbl_round_def Let_def nat_less_iff abs_sgn_eq mult_sgn_abs)

text \<open>
  The product with \<open>1e-9\<close>, cut to whole seconds, is the quotient, since the error of the constant and of the rounding is less
  than the billionth that is missing to the next second.
\<close>

lemma seconds_nat:
  fixes n k K :: nat
  assumes "n < 10 ^ 15" "K \<le> 50" "n div 1000000000 = k"
  shows "round_nat K (n * 4835703278458517) div 2 ^ (82 - K) = k"
proof -
  define m where "m = n * 4835703278458517"
  define q where "q = m div 2 ^ K"
  have n: "n = k * 1000000000 + n mod 1000000000" "n mod 1000000000 < 1000000000" "k < 1000000" using assms(1,3) by auto
  have p: "(2 :: nat) ^ (82 - K) * 2 ^ K = 2 ^ 82" using assms(2) by (simp flip: power_add)
  have lo: "k * 2 ^ 82 \<le> m"
  proof -
    have "k * 2 ^ 82 \<le> k * 1000000000 * 4835703278458517" by simp
    also have "\<dots> \<le> m" unfolding m_def using n(1) by (intro mult_right_mono) simp_all
    finally show ?thesis .
  qed
  have hi: "m + 2 ^ 50 < (k + 1) * 2 ^ 82"
  proof -
    have "n \<le> k * 1000000000 + 999999999" using n by linarith
    then have "m \<le> (k * 1000000000 + 999999999) * 4835703278458517" unfolding m_def by (rule mult_right_mono) simp
    then show ?thesis using n(3) by (simp add: algebra_simps)
  qed
  have pow: "(2 :: nat) ^ K \<le> 2 ^ 50" using assms(2) by (intro power_increasing) simp_all
  have "k * 2 ^ (82 - K) \<le> q"
    unfolding q_def using lo p by (simp add: less_eq_div_iff_mult_less_eq mult.assoc)
  moreover have "q + 1 < (k + 1) * 2 ^ (82 - K)"
  proof -
    have "(q + 1) * 2 ^ K \<le> m + 2 ^ K" unfolding q_def by (simp add: algebra_simps)
    also have "\<dots> < (k + 1) * 2 ^ 82" using hi pow by linarith
    finally have "(q + 1) * 2 ^ K < ((k + 1) * 2 ^ (82 - K)) * 2 ^ K" by (simp only: mult.assoc p)
    then show ?thesis by (simp only: mult_less_cancel2)
  qed
  ultimately have "k * 2 ^ (82 - K) \<le> round_nat K m" "round_nat K m < (k + 1) * 2 ^ (82 - K)"
    using order.trans [OF _ round_nat_bounds(1) [of m K]] order.strict_trans1 [OF round_nat_bounds(2) [of K m]] unfolding q_def by simp_all
  then show ?thesis unfolding m_def by (intro div_nat_eqI) (simp_all add: mult.commute)
qed

lemma sdiv_nonneg: "0 \<le> a \<Longrightarrow> 0 < b \<Longrightarrow> a sdiv b = a div (b :: int)"
  by (cases "a = 0") (simp_all add: signed_divide_int_def)

lemma seconds_trunc:
  assumes "0 \<le> n" "n < 10 ^ 15"
  shows "dbl_trunc (dbl_mult (dbl_of n) dbl_1em9) = n div 1000000000"
proof -
  obtain j where j: "n = int j" using assms(1) nonneg_int_cases by blast
  then have "int j < int (10 ^ 15)" using assms(2) by simp
  then have small: "j < 10 ^ 15" by (simp only: of_nat_less_iff)
  define K where "K = excess (j * 4835703278458517)"
  have "j * 4835703278458517 < 2 ^ (53 + 50)"
  proof -
    have "j * 4835703278458517 \<le> 10 ^ 15 * 4835703278458517" using small by (intro mult_right_mono) simp_all
    also have "\<dots> < 2 ^ (53 + 50)" by simp
    finally show ?thesis .
  qed
  then have K: "K \<le> 50" unfolding K_def by (rule excess_bound)
  have of_n: "dbl_of n = (n, 0)" using assms by (simp add: dbl_of_def dbl_round_exact)
  have nat_m: "nat \<bar>n * 4835703278458517\<bar> = j * 4835703278458517" by (simp add: j nat_mult_distrib)
  have prod: "dbl_mult (dbl_of n) dbl_1em9 = (sgn (n * 4835703278458517) * int (round_nat K (j * 4835703278458517)), - 82 + int K)"
    by (simp only: dbl_mult_def of_n dbl_1em9_def dbl_round_def Let_def nat_m K_def fst_conv snd_conv) simp
  have e: "nat (82 - int K) = 82 - K" "\<not> - 82 + int K \<ge> 0" using K by auto
  have "sgn (n * 4835703278458517) * int (round_nat K (j * 4835703278458517)) = int (round_nat K (j * 4835703278458517))"
    by (cases "j = 0") (simp_all add: j round_nat_def)
  then have "dbl_mult (dbl_of n) dbl_1em9 = (int (round_nat K (j * 4835703278458517)), - 82 + int K)" using prod by (simp only:)
  then have "dbl_trunc (dbl_mult (dbl_of n) dbl_1em9) = int (round_nat K (j * 4835703278458517) div 2 ^ (82 - K))"
    unfolding dbl_trunc_def using e by (simp add: sdiv_nonneg zdiv_int)
  then show ?thesis using seconds_nat [OF small K refl] by (simp add: j zdiv_int)
qed

section \<open>What the clock returns\<close>

lemma cpu_time_exact:
  assumes "0 \<le> n" "n < 10 ^ 15"
  shows "dbl_trunc (dbl_minus (dbl_of n) (dbl_mult (dbl_of (n div 1000000000)) dbl_1e9)) = n mod 1000000000"
proof -
  let ?k = "n div 1000000000"
  have k: "0 \<le> ?k" "?k * 1000000000 \<le> n" using assms(1) by (simp_all add: pos_imp_zdiv_nonneg_iff)
  then have "\<bar>n\<bar> < 2 ^ 53" "\<bar>?k\<bar> < 2 ^ 53" "\<bar>?k * 1000000000\<bar> < 2 ^ 53" using assms by simp_all
  then have "dbl_of n = (n, 0)" "dbl_mult (dbl_of ?k) dbl_1e9 = (?k * 1000000000, 0)"
    by (simp_all add: dbl_of_def dbl_mult_def dbl_1e9_def dbl_round_exact)
  moreover have "dbl_round (n - ?k * 1000000000) 0 = (n - ?k * 1000000000, 0)"
    using k assms by (intro dbl_round_exact) simp
  moreover have "n - ?k * 1000000000 = n mod 1000000000" by (simp add: minus_div_mult_eq_mod)
  ultimately show ?thesis by (simp add: dbl_minus_def dbl_trunc_def)
qed

text \<open>
  The real-time clock hands on the time of its service, and fails with \<open>EINVAL\<close> when the service does.  The clocks of the
  processor time of a process or a thread do not read any processor time: they return how long a call of \<open>getpid\<close> or
  \<open>sched_yield\<close> has taken, whatever the process has used.  Below \<open>10\<^sup>1\<^sup>5\<close> nanoseconds that time is converted exactly, and it is
  a normalised \<open>timespec\<close>.
\<close>

theorem clock_gettime_outcome:
  shows "clk_id = CLOCK_REALTIME \<or> clk_id = CLOCK_MONOTONIC \<Longrightarrow>
      clock_gettime mc clk_id tb tp =
        Inr (case Option.bind (mc_service mc (if clk_id = CLOCK_REALTIME then CALENDAR_CLOCK else SYSTEM_CLOCK)) (mc_time mc) of
               None \<Rightarrow> (- 1, Some EINVAL, tb, tp)
             | Some (sec, nsec) \<Rightarrow> (0, None, tb, Timespec (uint sec) (sint nsec)))"
    and "clk_id = CLOCK_PROCESS_CPUTIME_ID \<or> clk_id = CLOCK_THREAD_CPUTIME_ID \<Longrightarrow> snd tb \<noteq> 0 \<Longrightarrow>
      nano = (mc_end mc - mc_start mc) * ucast (fst tb) div ucast (snd tb) \<Longrightarrow> uint nano < 10 ^ 15 \<Longrightarrow>
      clock_gettime mc clk_id tb tp = Inr (0, None, tb, Timespec (uint nano div 1000000000) (uint nano mod 1000000000))"
  by (auto simp: clock_gettime_def CLOCK_REALTIME_def CLOCK_MONOTONIC_def CLOCK_PROCESS_CPUTIME_ID_def CLOCK_THREAD_CPUTIME_ID_def Let_def
      seconds_trunc cpu_time_exact split: option.splits)

end
