(* ===== verification/Spec2Isabelle.thy ===== *)
theory Spec2Isabelle
  imports Lock_Service Lock_Tester Listener Lock_Network Reply_Race Several_Clients Rpctest_Run Obj_Job Clock
begin

text \<open>
  Verification of an RPC library with at-most-once semantics (\<^verbatim>\<open>src/rpc\<close>) and of the lock service built on
  it (\<^verbatim>\<open>src/lock_*\<close>).

  \<^bold>\<open>The program.\<close>  A client program calls a method of a remote object through \<open>rpcc::call\<close>.  The stub
  marshals the arguments into a \<open>marshall\<close>, \<open>rpcc::call1\<close> gives the call an xid, packs the request header,
  sends the message on a \<open>connection\<close> and waits, resending when the connection is lost.  The
  connection frames messages on a TCP stream; a single poll thread (\<open>PollMgr\<close> over \<open>SelectAIO\<close> or
  \<open>EPollAIO\<close>) makes the callbacks that read and write.  On the server \<open>rpcs::got_pdu\<close> queues a job
  in a \<open>ThrPool\<close> whose queue is a \<open>fifo\<close>; a worker runs \<open>rpcs::dispatch\<close>, which asks the window of replies
  whether the request is new, runs the handler if it is, records the reply and sends it.  The
  reply reaches \<open>rpcc::got_pdu\<close>, which wakes the caller.  The lock server registers three methods with
  an \<open>rpcs\<close>, and \<open>lock_client\<close> calls them.

  \<^bold>\<open>Theories.\<close>  In the order of their imports; the definitions of each follow the order of the code.
  \<^item> \<open>Rpc_Prelude\<close>: machine types, the faults of the process (a failed VERIFY, a null or dangling
    pointer, an access out of bounds, signed overflow), the result type and its sequencing \<open>bind_r\<close>, bytes of
    integers, the collections \<open>writer_intros\<close> and \<open>keeps\<close>.
  \<^item> \<open>Marshal\<close> (\<^verbatim>\<open>rpc/marshall.h\<close>, \<^verbatim>\<open>rpc/rpc.cc\<close>): \<open>marshall\<close>, \<open>unmarshall\<close>, all operators and headers.
    \<open>Codec\<close>: the contract of an operator pair as the locale \<open>codec\<close>, interpreted on every type of the sources, and lifted
    to vectors and maps.  \<open>Wire\<close>: headers written in place, whole messages, readers on arbitrary blocks.
    Shown: every pair is inverse; headers survive; unpacking a header never leaves the
    block; what the string reader does on every input, the wrapping bound check included.
  \<^item> \<open>Stubs\<close> (\<^verbatim>\<open>rpc/rpc.h\<close>): the call templates with up to seven arguments and the handlers that
    \<open>reg\<close> makes.  Shown: the method is called with the arguments of the stub.
    \<open>Writers\<close>: every operator \<open><<\<close> appends to a well-formed writer and succeeds on a message below \<open>2\<^sup>3\<^sup>0\<close> bytes.
  \<^item> \<open>Timespec\<close> (\<^verbatim>\<open>rpc/rpc.cc\<close>): arithmetic on deadlines, the order of addresses.  \<open>Addresses\<close>: \<open>make_sockaddr\<close> over
    an arbitrary resolver.  Shown: what it does with every text for host and port, the overflow of its array included.
    \<open>Clock\<close> (\<^verbatim>\<open>gettime.cc\<close>): the replacement of \<open>clock_gettime\<close> with its arithmetic on doubles.  Shown: what its four clocks return.
  \<^item> \<open>Process\<close> (\<^verbatim>\<open>rpc/method_thread.h\<close>, \<^verbatim>\<open>rpc/jsl_log.*\<close>): the closures of the thread starters in a heap, and
    the log.  Shown: a thread calls what it was started with, and no closure is used after its deletion.
  \<^item> \<open>Fifo\<close>, \<open>Thr_Pool\<close> (\<^verbatim>\<open>rpc/fifo.h\<close>, \<^verbatim>\<open>rpc/thr_pool.*\<close>): the monitor of the queue and the pool as step relations.
    Shown: order, no lost wakeup, each job once, the destructor ends and leaves no job behind.  \<open>Obj_Job\<close>: \<open>addObjJob\<close>,
    with the wrappers of the calls in a heap.  Shown: an accepted call is made once; the wrapper of a refused one leaks.
  \<^item> \<open>Xid_Window\<close> (\<open>rpcc::update_xid_rep\<close>): the window of the client.  Shown: its front is exact.
  \<^item> \<open>Reply_Window\<close> (\<open>checkduplicate_and_update\<close>, \<open>add_reply\<close>, \<open>free_reply_window\<close>): the window of the
    server over an explicit heap of reply blocks.  Shown: a closed form of the check, each request is new at most
    once, a duplicate gets the recorded bytes.  The locale \<open>once_filter\<close> carries the counting argument.
  \<^item> \<open>Poll_Mgr\<close> (\<^verbatim>\<open>rpc/pollmgr.*\<close>): both managers and the poll thread, which tests a callback and calls it in separate
    steps.  Shown: after \<open>block_remove_fd\<close> there is no more callback, unless its one wait ends for no reason, and what
    happens then; the two managers agree on what they watch, and not on \<open>is_watched\<close>.
  \<^item> \<open>Connection\<close> (\<^verbatim>\<open>rpc/connection.*\<close>): buffers, partial writes and reads, senders that wait.  Shown: what is
    on the stream is whole frames in order, and the receiver gets them back.
    \<open>Conn_Store\<close>: reference counts of connections (\<open>counted\<close>) and the rounds of the listener.  \<open>Listener\<close>: the
    life of a \<open>tcpsconn\<close>, from its system calls to its destructor.
  \<^item> \<open>Rpcs\<close> (class \<open>rpcs\<close>): \<open>dispatch\<close> as one function, and the dispatch threads as the step relation \<open>srv_step\<close>, whose steps
    are the parts of \<open>dispatch\<close> between two points without a mutex.  Shown: the window inside the server
    is a run of the filter, a handler runs at most once, no thread uses a deleted connection (nor, as long as the server is never made
    unreachable, a deleted job), a repeated request is answered with the same bytes, and what happens on the error paths.
  \<^item> \<open>Rpcc\<close> (class \<open>rpcc\<close>): \<open>call1\<close> with its timed loop and the wait loop inside it, \<open>got_pdu\<close>, \<open>cancel\<close>, \<open>bind\<close>, and the calling threads as
    \<open>cl_step\<close>.  Shown: a call ends, except with the one final deadline that the wait refuses; it returns its own reply, what a client acknowledges is over,
    references are safe.
  \<^item> \<open>Lock_Server\<close>, \<open>Lock_Client\<close> (\<^verbatim>\<open>lock_server.*\<close>, \<^verbatim>\<open>lock_client.*\<close>): the handlers with their mutex and condition
    variable.  Shown: refinement of a sequential lock service, mutual exclusion, when wakeups can
    be lost, that \<open>acquire\<close> of the client ends.
    \<open>Lock_Tester\<close> (\<^verbatim>\<open>lock_tester.cc\<close>): the five tests, their threads running against the lock server, with
    calls that fail at any time.  Shown: in every interleaving the checks of the tests hold, and only a failed call of \<open>acquire\<close> or a failing
    \<open>pthread_create\<close> ends the process.
  \<^item> \<open>Remote_Call\<close>: both endpoints composed over a connection that works or is replaced when it has died.  \<open>Lock_Service\<close>: the
    programs \<^verbatim>\<open>lock_smain.cc\<close> and \<^verbatim>\<open>lock_demo.cc\<close> and the constructor of \<open>lock_client\<close> on top of it.  \<open>Rpctest\<close>
    (\<^verbatim>\<open>rpc/rpctest.cc\<close>): the test server, the bodies of the test clients and the failure test.
    \<open>Several_Clients\<close>: a request of one client leaves what the server keeps for the others as it is, so calls of several
    clients in any order are local calls.
  \<^item> \<open>Network\<close>: any number of clients and the server in one step relation, over a network that loses, repeats, delays
    and reorders messages.  \<open>race_free\<close> are its runs in which no thread of the server is overtaken by one of the two data races of the code: the block of a recorded reply
    that is freed and reused before the thread sends it, and the job that \<open>got_pdu\<close> deletes after the pool has got it.  Shown of these runs: each call that returns a result was executed exactly once, on its own
    arguments, and returns the result of that execution; all executions in their order are a sequential history of the
    object, so the remote object is linearizable.  The proof keeps one invariant per client and one for the
    server over a growing history of requests, executions and finished calls.
  \<^item> \<open>Dispatch_Run\<close>: the two views of the server and of a call agree.  Shown: a call of \<open>Remote_Call\<close> is a run of \<open>Network\<close>, and keeps it free of
    data races.  \<open>Reply_Race\<close>: a run with the first data race, in which a client is sent the reply to another client's call.
  \<^item> \<open>Lock_Network\<close>: the lock server of \<^verbatim>\<open>lock_smain.cc\<close> in the network.  Shown: mutual exclusion end to end.
    \<open>Rpctest_Run\<close>: the iterations of the test threads of \<^verbatim>\<open>rpctest.cc\<close> over the network, and the options of its \<open>main\<close>.  Shown: no check of a
    thread fails unless its call does, however the calls overlap and their replies arrive.
  \<^item> The properties at the end of this theory span components: interleaved sessions
    of remote calls are the same calls made locally, binding, and the lock service end to end.

  \<^bold>\<open>State, faults and threads.\<close>  Objects are records, operations are functions from state to result; \<open>Inl\<close> of a
  fault is a behaviour that aborts or is undefined.  Pointers are kept as addresses where the code
  shares or frees what they point to: reply blocks in the window and connections.  Threads are modelled by step
  relations; one step is a critical section, a wait has its own phase, and wakeups may be spurious.  Clocks, random
  numbers, uninitialised variables and the answers of system calls are arguments.

  \<^bold>\<open>Bounds.\<close>  Loops that the code bounds are structural recursions.  \<open>call1_loop\<close> takes the inputs of
  its rounds as a list, and each round the results of its waits as a list; \<open>call1_terminates\<close> shows that \<open>n + 1\<close> rounds are enough for a timeout below
  \<open>1000 (2\<^sup>n - 1)\<close> milliseconds, under what POSIX promises of a timed wait (\<open>platform\<close>): it refuses a deadline out of range, and with any other it times out
  after finitely many wake-ups and not before the deadline.  \<open>acquire_loop\<close> and \<open>main_options\<close> are partial functions; the first is shown to return, the second where
  \<open>char\<close> is signed.  Theorems
  about a client assume fewer than \<open>2\<^sup>3\<^sup>2\<close> calls, after which its xids repeat.  Messages are shorter than \<open>2\<^sup>2\<^sup>9\<close> bytes
  where a whole call is considered, so that the capacity of a writer stays an \<open>int\<close>.

  \<^bold>\<open>Not modelled.\<close>  The creation and joining of the threads of \<^verbatim>\<open>rpctest.cc\<close>, and the sequence of the tests in its \<open>main\<close>; what
  the programs print.  In \<open>Remote_Call\<close>, \<open>Several_Clients\<close> and \<open>Rpctest\<close> the connection delivers, before any timeout, and a call is one step, in any
  order of the calls; loss, duplication and calls that overlap are the subject of \<open>Network\<close>, where a handler is one step (its own mutex is
  the subject of \<open>Lock_Server\<close>).  In \<open>Lock_Tester\<close> a call goes to the lock server and comes back or fails, without its messages.
  The limits of the server's pool are left out of \<open>Rpcs\<close> and \<open>Lock_Tester\<close>: there a request may be refused or wait for any time.
  The bytes of a TCP stream are the subject of \<open>Connection\<close>; the other theories see whole messages.
\<close>

section \<open>Properties\<close>

text \<open>
  C8: a remote call is a call.  Any number of clients, each with a connection of its own to the server, make calls in any order, from any of
  their threads, to methods registered under one reader and one writer that keep the contract of
  theory \<open>Codec\<close>.  The sequence of remote calls returns exactly the statuses and values of the same sequence of calls
  of the methods on the server's object, and leaves the object in the same state: each handler runs once, no reply is lost or
  goes to another client, and all endpoints are again ready.
\<close>

theorem remote_sessions_are_local:
  fixes s :: "'o rpcs"
  assumes "codec e f fr p g" "fr z" and "codec e' f' fr' p' g'" "fr' r0"
    and "\<forall>(i, t, adr, proc, a)\<in>set qs. i < N \<and> proc \<in> P \<and> sendable e f a" "rpc_bind \<notin> P" "offers P g z p' meth s"
    and "all_linked N pt cl s" "\<forall>i<N. cl_bind_done (cl i) \<and> unat (cl_xid (cl i)) + length qs < 2 ^ 32"
    and "distinct (map (\<lambda>q. fst (snd (snd q))) qs)" "(\<lambda>q. fst (snd (snd q))) ` set qs \<inter> dom (rw_heap (sv_win s)) = {}"
    and "local_calls meth (map (\<lambda>q. snd (snd (snd q))) qs) (sv_obj s) = Inr (rs, obj)" "\<forall>(b, r)\<in>set rs. 0 \<le> sint b \<and> sendable e' f' r"
  shows "\<exists>cl' s'. sessions mem junk pt p g' r0 qs (cl, s) = Inr (rs, cl', s') \<and> sv_obj s' = obj \<and> all_linked N pt cl' s'"
  using assms by (rule sessions_local)

text \<open>A server with one method, which adds its argument to the object and returns the sum, and two clients of it.\<close>

definition sum_method :: "u32 \<Rightarrow> i32 \<Rightarrow> i32 \<Rightarrow> (i32 \<times> i32 \<times> i32) result" where
  "sum_method proc a obj = Inr (0, obj + a, obj + a)"

definition sum_server :: "i32 rpcs" where
  "sum_server = \<lparr>sv_nonce = 7, sv_counting = 0, sv_curr_counts = 0, sv_counts = Map.empty,
     sv_procs = [0x23 \<mapsto> h_fn1 get_int 0 put_int (sum_method 0x23)], sv_win = rwindow_init, sv_conns = Map.empty,
     sv_reachable = True, sv_store = [3 \<mapsto> fst (conn_new 4 (0, 0) 0), 4 \<mapsto> fst (conn_new 5 (0, 0) 0)], sv_obj = 0\<rparr>"

definition sum_client :: "nat \<Rightarrow> rpcc" where
  "sum_client i = (rpcc_new True (if i = 0 then 5 else 6) 0 0)\<lparr>cl_bind_done := True, cl_srv_nonce := 7\<rparr>"

definition sum_parties :: parties where
  "sum_parties i = (3 + i, Some (8, fst (conn_new 6 (0, 0) 0)))"

lemma sum_linked: "all_linked 2 sum_parties sum_client sum_server"
proof -
  let ?s = "\<lambda>st. sum_server\<lparr>sv_store := st\<rparr>" and ?new = "Some (8, fst (conn_new 6 (0, 0) 0))"
  have one: "linked cid ?new (sum_client i) (?s [cid \<mapsto> fst (conn_new fd (0, 0) 0)])" for cid fd i
  proof -
    have "linked cid ?new (rpcc_new True (if i = 0 then 5 else 6) 0 0) ((?s Map.empty)\<lparr>sv_store := [cid \<mapsto> fst (conn_new fd (0, 0) 0)]\<rparr>)"
      by (rule linked_new [OF _ _ _ _ _ connects_new]) (simp_all add: sum_server_def)
    from linked_bound [OF this] show ?thesis by (simp add: sum_client_def sum_server_def)
  qed
  have more: "linked cid ?new (sum_client i) sum_server"
    if "linked cid ?new (sum_client i) (?s st)" "cid2 \<noteq> cid" "\<forall>d. d \<noteq> cid2 \<longrightarrow> st d = sv_store sum_server d" for cid cid2 i st
  proof (rule linked_others [OF that(1)])
    show "others_kept 0 cid2 (?s st) sum_server" using that(3) by (simp add: others_kept_def)
    show "srv_ready sum_server" by (simp add: srv_ready_def sum_server_def rw_ok_init)
  qed (use that(2) in \<open>simp_all add: same_service_def sum_client_def rpcc_new_def\<close>)
  have "linked 3 ?new (sum_client 0) sum_server" by (rule more [of 3 0 "[3 \<mapsto> fst (conn_new 4 (0, 0) 0)]" 4, OF one]) (simp_all add: sum_server_def)
  moreover have "linked 4 ?new (sum_client 1) sum_server" by (rule more [of 4 1 "[4 \<mapsto> fst (conn_new 5 (0, 0) 0)]" 3, OF one]) (simp_all add: sum_server_def)
  ultimately show ?thesis by (auto simp: all_linked_def sum_parties_def less_2_cases_iff sum_client_def rpcc_new_def)
qed

theorem remote_sessions_are_local_witness:
  "\<exists>cl' s'. sessions (\<lambda>_. 0) 0 sum_parties put_int get_int 0 [(0, 0, 0, 0x23, 5), (1, 0, 1, 0x23, 2), (0, 3, 2, 0x23, 1)] (sum_client, sum_server)
     = Inr ([(0, 5), (0, 7), (0, 8)], cl', s') \<and> sv_obj s' = 8"
proof -
  have "\<exists>cl' s'. sessions (\<lambda>_. 0) 0 sum_parties put_int get_int 0 [(0, 0, 0, 0x23, 5), (1, 0, 1, 0x23, 2), (0, 3, 2, 0x23, 1)] (sum_client, sum_server)
     = Inr ([(0, 5), (0, 7), (0, 8)], cl', s') \<and> sv_obj s' = 8 \<and> all_linked 2 sum_parties cl' s'"
    by (rule remote_sessions_are_local [where z = 0 and P = "{0x23}" and meth = sum_method, OF int_codec.codec_axioms TrueI int_codec.codec_axioms TrueI _ _ _ sum_linked])
      (simp_all add: sendable_def rpc_bind_def offers_def sum_server_def sum_client_def rpcc_new_def sum_method_def rwindow_init_def)
  then show ?thesis by blast
qed

text \<open>
  Binding.  \<open>bind\<close> of a new client at a new server of any kind of object succeeds, and the client
  then knows the nonce of this instance of the server, which its later requests carry.
\<close>

theorem bind_learns_server:
  assumes "rpcs_new nonce 0 z obj = Inr s" "rand \<noteq> 0" "connects (Some (d, k))"
  shows "\<exists>c'. rpcc_bind mem (against (exchange mem junk t adr cid (Some (d, k))) (s\<lparr>sv_store := [cid \<mapsto> fst (conn_new fd now lossy)]\<rparr>))
       r0 (rpcc_new True rand 0 junk) = Inr (0, c') \<and> cl_bind_done c' \<and> cl_srv_nonce c' = nonce"
proof -
  let ?s = "s\<lparr>sv_store := [cid \<mapsto> fst (conn_new fd now lossy)]\<rparr>"
  have s: "sv_win s = rwindow_init" "sv_counting s = 0" "sv_reachable s" "sv_conns s = Map.empty" "sv_nonce s = nonce"
    "sv_procs s rpc_bind = Some (h_fn1 get_int z put_int (rpcbind nonce))"
    using assms(1) by (auto simp: rpcs_new_def reg1_def bind_r_eq_Inr)
  have link: "linked cid (Some (d, k)) (rpcc_new True rand 0 junk) ?s" by (rule linked_new [OF s(1-4) assms(2,3)])
  show ?thesis
    by (rule bind_exchange [OF link, of adr z mem junk t r0]) (auto simp: rpcc_new_def s rwindow_init_def)
qed

theorem bind_learns_server_witness:
  "\<exists>c'. rpcc_bind (\<lambda>_. 0) (against (exchange (\<lambda>_. 0) 0 0 0 3 (Some (8, fst (conn_new 6 (0, 0) 0)))) demo_srv) 0 (rpcc_new True 5 0 0)
     = Inr (0, c') \<and> cl_bind_done c' \<and> cl_srv_nonce c' = 7"
  using bind_learns_server [OF demo_server_made, where rand = 5 and d = 8 and k = "fst (conn_new 6 (0, 0) 0)" and mem = "\<lambda>_. 0"
      and junk = 0 and t = 0 and adr = 0 and cid = 3 and fd = 4 and now = "(0, 0)" and lossy = 0 and ?r0.0 = 0] connects_new
  by (simp add: demo_srv_def)

text \<open>
  C10: the lock service end to end.  A new client that binds to the server program of \<^verbatim>\<open>lock_smain.cc\<close> and then
  calls \<open>acquire\<close>, \<open>release\<close> and \<open>stat\<close> gets the answers of the abstract lock service, as long as none of
  its calls has to wait: an acquire of a free lock is granted, a release succeeds for the holder only, and the table of
  the server ends as the abstract table.
\<close>

theorem remote_lock_service:
  assumes srv: "lock_smain nonce 0 blocked z z1 z2 = Inr s" and clt: "rand \<noteq> 0" "connects (Some (d, k))"
    and adrs: "distinct (adr # map fst qs)" and few: "length qs + 2 < 2 ^ 32"
    and calls: "fst ` snd ` set qs \<subseteq> lock_procs" "lk_answers Map.empty (map snd qs) = Some (rs, m)"
    and s0_def: "s0 = s\<lparr>sv_store := [cid \<mapsto> fst (conn_new fd now lossy)]\<rparr>" and c0_def: "c0 = rpcc_new True rand 0 junk"
  shows "\<exists>c1 c' s' c'' s''.
     rpcc_bind mem (against (exchange mem junk t adr cid (Some (d, k))) s0) r0 c0 = Inr (0, c1) \<and>
     call_1 mem (exchange mem junk t adr cid (Some (d, k))) put_int get_int rpc_bind 0 r0 (c0, s0) = Inr (0, nonce, c', s') \<and>
     session mem junk t cid (Some (d, k)) (put_pair put_int put_ullong) get_int r1 qs (c1, s') = Inr (rs, c'', s'') \<and>
     lock_map (sv_obj s'') = m"
proof -
  note S = smain_offers [OF srv] smain_fresh [OF srv]
  have s0: "sv_nonce s0 = nonce" "sv_procs s0 rpc_bind = Some (h_fn1 get_int z put_int (rpcbind (sv_nonce s0)))" "rw_heap (sv_win s0) = Map.empty"
    "offers lock_procs (get_pair get_int get_ullong) (z1, z2) put_int (lock_method blocked) s0" "sv_obj s0 = lock_server_new"
    using S by (simp_all add: s0_def rwindow_init_def offers_def)
  have link: "linked cid (Some (d, k)) c0 s0" unfolding s0_def c0_def by (rule linked_new [OF S(5-8) clt])
  have c0: "\<not> cl_bind_done c0" "cl_xid c0 = 1" by (simp_all add: c0_def rpcc_new_def)
  obtain c' s' where B: "rpcc_bind mem (against (exchange mem junk t adr cid (Some (d, k))) s0) r0 c0
        = Inr (0, c'\<lparr>cl_bind_done := True, cl_srv_nonce := sv_nonce s0\<rparr>)"
    "call_1 mem (exchange mem junk t adr cid (Some (d, k))) put_int get_int rpc_bind 0 r0 (c0, s0) = Inr (0, sv_nonce s0, (c', s'))"
    "linked cid (Some (d, k)) c' s'" "same_service s0 s'" "sv_obj s' = sv_obj s0" "cl_xid c' = cl_xid c0 + 1"
    "dom (rw_heap (sv_win s')) \<subseteq> insert adr (dom (rw_heap (sv_win s0)))"
    by (rule bind_exchange [OF link c0(1) _ _ s0(2)]) (auto simp: c0(2) s0(3))
  define c1 where "c1 = c'\<lparr>cl_bind_done := True, cl_srv_nonce := sv_nonce s0\<rparr>"
  have c1: "linked cid (Some (d, k)) c1 s'" "cl_bind_done c1" "cl_xid c1 = 2"
    using linked_bound [OF B(3)] B(4,6) c0(2) by (simp_all add: c1_def same_service_def)
  have "fst ` set qs \<inter> dom (rw_heap (sv_win s')) = {}" using B(7) s0(3) adrs by auto
  then have "\<exists>c'' s''. session mem junk t cid (Some (d, k)) (put_pair put_int put_ullong) get_int r1 qs (c1, s') = Inr (rs, c'', s'')
      \<and> lock_map (sv_obj s'') = m"
    by (intro lock_session [OF offers_kept [OF s0(4) B(4)] c1(1,2)])
      (use c1(3) few adrs calls B(5) s0(5) in \<open>auto simp: lock_server_new_def\<close>)
  then show ?thesis using B(1,2) s0(1) c1_def by metis
qed

theorem remote_lock_service_witness:
  "\<exists>s c1 (s' :: lock_server rpcs) c'' s''. lock_smain 7 0 (\<lambda>_ _ _. Inl Verify_Failed) 0 0 0 = Inr s \<and>
     rpcc_bind (\<lambda>_. 0) (against (exchange (\<lambda>_. 0) 0 0 0 3 (Some (8, fst (conn_new 6 (0, 0) 0))))
       (s\<lparr>sv_store := [3 \<mapsto> fst (conn_new 4 (0, 0) 0)]\<rparr>)) 0 (rpcc_new True 5 0 0) = Inr (0, c1) \<and>
     session (\<lambda>_. 0) 0 0 3 (Some (8, fst (conn_new 6 (0, 0) 0))) (put_pair put_int put_ullong) get_int 0
       [(1, lp_acquire, (5, 9)), (2, lp_release, (6, 9)), (3, lp_release, (5, 9)), (4, lp_acquire, (6, 9))] (c1, s')
       = Inr ([(lp_OK, 0), (lp_RETRY, - 1), (lp_OK, 0), (lp_OK, 0)], c'', s'') \<and>
     lock_map (sv_obj s'') = [9 \<mapsto> 6]"
proof -
  let ?k = "fst (conn_new 6 (0, 0) 0)"
  let ?qs = "[(1, lp_acquire, (5, 9)), (2, lp_release, (6, 9)), (3, lp_release, (5, 9)), (4, lp_acquire, (6, 9))] :: (nat \<times> u32 \<times> i32 \<times> lockid_t) list"
  obtain s where s: "lock_smain 7 0 (\<lambda>_ _ _. Inl Verify_Failed) 0 0 0 = Inr s"
    using lp_procs_distinct by (auto simp: lock_smain_def rpcs_new_def reg1_def)
  have k: "connects (Some (8, ?k))" by (rule connects_new)
  have ans: "lk_answers Map.empty (map snd ?qs) = Some ([(lp_OK, 0), (lp_RETRY, - 1), (lp_OK, 0), (lp_OK, 0)], [9 \<mapsto> 6])"
    using lp_procs_distinct by simp
  have adrs: "distinct (0 # map fst ?qs)" and few: "length ?qs + 2 < 2 ^ 32" and procs: "fst ` snd ` set ?qs \<subseteq> lock_procs"
    by (simp_all add: lock_procs_def)
  have "(5 :: u32) \<noteq> 0" by simp
  from remote_lock_service [OF s this k adrs few procs ans refl refl, where mem = "\<lambda>_. 0" and junk = 0 and t = 0 and cid = 3 and fd = 4
        and now = "(0, 0)" and lossy = 0 and ?r0.0 = 0 and ?r1.0 = 0] show ?thesis
    using s by blast
qed

end
